(* ===== verification/Prelude.thy ===== *)
theory Prelude
  imports Main "HOL-Library.Word"
begin

unbundle bit_operations_syntax

text \<open>
  What the component theories share: the byte and result types, the exception classes of
  the C++ code as one error datatype, the sequencing of fallible operations, the pieces of
  \<^verbatim>\<open>std::string\<close> and \<^verbatim>\<open>std::string_view\<close> the sources use, and the lemmas on lists and
  bytes that more than one component needs.
\<close>

section \<open>Collections and types\<close>

named_theorems result_simps \<open>inversion of fallible computations that returned\<close>
named_theorems bytes_simps \<open>bits of bytes and byte strings\<close>

type_synonym byte = "8 word"
type_synonym bytes = "byte list"

text \<open>
  Exception classes of the sources. The string names the throw site (the fixed part of the
  message). \<open>AssertionFailed\<close> is a failing \<^verbatim>\<open>assert\<close>, which aborts the process and is
  never caught. \<open>OutOfFuel\<close> is no exception: it marks a bounded loop of the model that was cut off.
\<close>

datatype nix_error =
    FormatError string
  | BadHash string
  | UsageError string
  | MissingExperimentalFeature string
  | BadCanonPath string
  | BadStorePath string
  | BadStorePathName string
  | SerialisationError string
  | EndOfFile string
  | GenericError string
  | AssertionFailed string
  | OutOfFuel

type_synonym 'a result = "nix_error + 'a"

section \<open>Fallible operations in sequence\<close>

definition result_bind :: "'e + 'a \<Rightarrow> ('a \<Rightarrow> 'e + 'b) \<Rightarrow> 'e + 'b" where
  "result_bind m f = (case m of Inl e \<Rightarrow> Inl e | Inr x \<Rightarrow> f x)"

lemma result_bind_simps [simp]:
  "result_bind (Inl e) f = Inl e"
  "result_bind (Inr x) f = f x"
  by (simp_all add: result_bind_def)

lemma result_bind_Inr [result_simps]:
  "result_bind m f = Inr y \<longleftrightarrow> (\<exists>x. m = Inr x \<and> f x = Inr y)"
  by (cases m) simp_all

lemma result_bind_Inl [result_simps]:
  "result_bind m f = Inl e \<longleftrightarrow> m = Inl e \<or> (\<exists>x. m = Inr x \<and> f x = Inl e)"
  by (cases m) simp_all

lemma result_bind_cong [fundef_cong]:
  "m = m' \<Longrightarrow> (\<And>x. m' = Inr x \<Longrightarrow> f x = f' x) \<Longrightarrow> result_bind m f = result_bind m' f'"
  by (cases m') simp_all

text \<open>A guard: an early \<^verbatim>\<open>throw\<close> or a failing \<^verbatim>\<open>assert\<close>.\<close>

definition ensure :: "bool \<Rightarrow> 'e \<Rightarrow> 'e + unit" where
  "ensure p e = (if p then Inr () else Inl e)"

lemma ensure_simps [simp]:
  "ensure True e = Inr ()"
  "ensure False e = Inl e"
  by (simp_all add: ensure_def)

lemma ensure_Inr [result_simps]: "ensure p e = Inr u \<longleftrightarrow> p"
  by (simp add: ensure_def)

text \<open>A loop that pushes one result per element and stops at the first throw.\<close>

fun map_result :: "('a \<Rightarrow> 'e + 'b) \<Rightarrow> 'a list \<Rightarrow> 'e + 'b list" where
  "map_result f [] = Inr []"
| "map_result f (x # xs) =
     result_bind (f x) (\<lambda>y. result_bind (map_result f xs) (\<lambda>ys. Inr (y # ys)))"

lemma map_result_map:
  "(\<And>x. x \<in> set xs \<Longrightarrow> f x = Inr (g x)) \<Longrightarrow> map_result f xs = Inr (map g xs)"
  by (induction xs) auto

lemma map_result_Inr_length: "map_result f xs = Inr ys \<Longrightarrow> length ys = length xs"
  by (induction xs arbitrary: ys) (auto simp: result_simps)

lemma map_result_Inr_nth:
  "map_result f xs = Inr ys \<Longrightarrow> i < length xs \<Longrightarrow> f (xs ! i) = Inr (ys ! i)"
  by (induction xs arbitrary: ys i) (auto simp: result_simps nth_Cons split: nat.splits)

text \<open>A loop that updates its state for every element and stops at the first throw.\<close>

fun fold_result :: "('a \<Rightarrow> 's \<Rightarrow> 'e + 's) \<Rightarrow> 'a list \<Rightarrow> 's \<Rightarrow> 'e + 's" where
  "fold_result f [] s = Inr s"
| "fold_result f (x # xs) s = result_bind (f x s) (\<lambda>s. fold_result f xs s)"

lemma fold_result_append:
  "fold_result f (xs @ ys) s = result_bind (fold_result f xs s) (\<lambda>s. fold_result f ys s)"
proof (induction xs arbitrary: s)
  case (Cons x xs)
  then show ?case by (cases "f x s") simp_all
qed simp

lemma fold_result_fold:
  "(\<And>x s. x \<in> set xs \<Longrightarrow> f x s = Inr (g x s)) \<Longrightarrow> fold_result f xs s = Inr (fold g xs s)"
  by (induction xs arbitrary: s) simp_all

lemma fold_result_invariant:
  assumes "fold_result f xs s = Inr t" "I s" "\<And>x s s'. x \<in> set xs \<Longrightarrow> I s \<Longrightarrow> f x s = Inr s' \<Longrightarrow> I s'"
  shows "I t"
  using assms by (induction xs arbitrary: s) (auto simp: result_simps)

section \<open>Strings\<close>

text \<open>\<^verbatim>\<open>s.find(c)\<close>: the first position of a character.\<close>

definition find_char :: "char \<Rightarrow> string \<Rightarrow> nat option" where
  "find_char c s = (if c \<in> set s then Some (length (takeWhile (\<lambda>x. x \<noteq> c) s)) else None)"

text \<open>
  \<^verbatim>\<open>splitPrefixTo\<close> of \<^verbatim>\<open>split.hh\<close>: what is before the first separator, and the view
  advanced past it; nothing when there is no separator.
\<close>

definition splitPrefixTo :: "string \<Rightarrow> char \<Rightarrow> (string \<times> string) option" where
  "splitPrefixTo str sep = (case find_char sep str of
     None \<Rightarrow> None
   | Some n \<Rightarrow> Some (take n str, drop (n + 1) str))"

lemma splitPrefixTo_append [simp]:
  "sep \<notin> set pre \<Longrightarrow> splitPrefixTo (pre @ sep # rest) sep = Some (pre, rest)"
  by (auto simp: splitPrefixTo_def find_char_def takeWhile_append)

lemma splitPrefixTo_None_iff: "splitPrefixTo s sep = None \<longleftrightarrow> sep \<notin> set s"
  by (auto simp: splitPrefixTo_def find_char_def)

lemma splitPrefixTo_SomeD:
  assumes "splitPrefixTo s sep = Some (pre, rest)"
  shows "s = pre @ sep # rest \<and> sep \<notin> set pre"
proof -
  let ?p = "takeWhile (\<lambda>x. x \<noteq> sep) s"
  from assms have "sep \<in> set s"
    by (auto simp: splitPrefixTo_def find_char_def split: if_splits)
  then obtain ys zs where s: "s = ys @ sep # zs" "sep \<notin> set ys"
    by (meson split_list_first)
  then have "?p = ys" by (auto simp: takeWhile_append)
  with s assms show ?thesis
    by (auto simp: splitPrefixTo_def find_char_def)
qed

lemma of_char_less_256: "of_char c < (256 :: nat)"
  by simp

section \<open>Tables filled by a loop\<close>

lemma length_fold_update [simp]:
  "length (fold (\<lambda>i m. m[f i := g i]) is m) = length m"
  by (induction "is" arbitrary: m) auto

lemma nth_fold_update_other:
  "k \<notin> f ` {..<n} \<Longrightarrow> fold (\<lambda>i m. m[f i := g i]) [0..<n] m ! k = m ! k"
  by (induction n) (auto simp: lessThan_Suc)

lemma nth_fold_update:
  assumes "inj_on f {..<n}" and "i < n" and "f i < length m"
  shows "fold (\<lambda>i m. m[f i := g i]) [0..<n] m ! f i = g i"
  using assms
proof (induction n)
  case 0
  then show ?case by simp
next
  case (Suc n)
  show ?case
  proof (cases "i = n")
    case True
    with Suc.prems show ?thesis by simp
  next
    case False
    with Suc.prems have "i < n" "inj_on f {..<n}" "f n \<noteq> f i"
      by (auto simp: inj_on_def)
    with Suc.IH Suc.prems(3) show ?thesis by simp
  qed
qed

section \<open>Bytes\<close>

lemma add_div_mod_8_same:
  assumes "b mod 8 + t < (8 :: nat)"
  shows "(b + t) div 8 = b div 8" "(b + t) mod 8 = b mod 8 + t"
proof -
  have "b + t = 8 * (b div 8) + (b mod 8 + t)" by simp
  with assms show "(b + t) div 8 = b div 8" "(b + t) mod 8 = b mod 8 + t"
    by (metis add_0_right div_less div_mult_self4 zero_neq_numeral,
        metis mod_less mod_mult_self4)
qed

lemma add_div_mod_8_next:
  assumes "8 \<le> b mod 8 + t" "b mod 8 + t < (16 :: nat)"
  shows "(b + t) div 8 = b div 8 + 1" "(b + t) mod 8 = b mod 8 + t - 8"
proof -
  have e: "b + t = 8 * (b div 8 + 1) + (b mod 8 + t - 8)" using assms(1) by simp
  have "b mod 8 + t - 8 < 8" using assms by linarith
  with e show "(b + t) div 8 = b div 8 + 1" "(b + t) mod 8 = b mod 8 + t - 8"
    by (metis add_0_right div_less div_mult_self4 zero_neq_numeral,
        metis mod_less mod_mult_self4)
qed

text \<open>
  Bit \<open>k\<close> of a byte string, least significant bit of the first byte first, and \<open>False\<close>
  beyond the end.
\<close>

definition bit_at :: "bytes \<Rightarrow> nat \<Rightarrow> bool" where
  "bit_at bs k \<longleftrightarrow> k div 8 < length bs \<and> bit (bs ! (k div 8)) (k mod 8)"

lemma bit_at_Nil [simp]: "\<not> bit_at [] k"
  by (simp add: bit_at_def)

lemma bit_at_bound: "bit_at bs k \<Longrightarrow> k < 8 * length bs"
  by (auto simp: bit_at_def div_less_iff_less_mult mult.commute)

lemma byte_eqI: "(\<And>t. t < 8 \<Longrightarrow> bit a t = bit b t) \<Longrightarrow> a = (b :: byte)"
  by (rule bit_word_eqI) simp

lemma nat_bit_bound:
  assumes "(x :: nat) < 2 ^ n" and "bit x t"
  shows "t < n"
proof -
  from assms(1) have "take_bit n x = x" by (rule take_bit_nat_eq_self)
  with assms(2) have "bit (take_bit n x) t" by simp
  then show ?thesis by (simp add: bit_take_bit_iff)
qed

lemma byte_nonzero_bit:
  assumes "(w :: byte) \<noteq> 0"
  shows "\<exists>t < 8. bit w t"
proof (rule ccontr)
  assume "\<not> (\<exists>t < 8. bit w t)"
  then have "w = 0" by (intro byte_eqI) simp
  with assms show False ..
qed

lemma bit_byte_bound: "bit (d :: byte) t \<Longrightarrow> t < 8"
  by (metis bit_imp_le_length len_num1 len_bit0 mult_2 numeral_Bit0 numeral_One one_add_one)

lemma unat_byte_less: "unat (w :: byte) < 256"
  using unsigned_less [of w, where 'a = nat] by simp

lemma bytes_eqI:
  assumes "length as = length bs"
    and "\<And>k. k < 8 * length as \<Longrightarrow> bit_at as k = bit_at bs k"
  shows "as = bs"
proof (rule nth_equalityI [OF assms(1)])
  fix i assume i: "i < length as"
  show "as ! i = bs ! i"
  proof (rule byte_eqI)
    fix t :: nat assume t: "t < 8"
    then have "(8 * i + t) div 8 = i" "(8 * i + t) mod 8 = t" "8 * i + t < 8 * length as"
      using i by auto
    with assms(1,2) i show "bit (as ! i) t = bit (bs ! i) t"
      by (metis bit_at_def)
  qed
qed

text \<open>\<^verbatim>\<open>std::string::resize\<close>: cut, or extend with zero bytes.\<close>

definition resize :: "nat \<Rightarrow> bytes \<Rightarrow> bytes" where
  "resize n bs = take n bs @ replicate (n - length bs) 0"

lemma length_resize [simp]: "length (resize n bs) = n"
  by (simp add: resize_def)

lemma nth_resize:
  "i < n \<Longrightarrow> resize n bs ! i = (if i < length bs then bs ! i else 0)"
  by (simp add: resize_def nth_append)

end
