(* ===== verification/Base_Nix32.thy ===== *)
theory Base_Nix32
  imports Prelude
begin

unbundle bit_operations_syntax

text \<open>
  The Nix-specific base-32 encoding (\<^verbatim>\<open>libutil/base-nix-32.cc\<close>, \<^verbatim>\<open>base-nix-32.hh\<close>), in
  which store path hashes are written: the alphabet without E, O, U and T, digits of five
  bits taken from the least significant end, written most significant digit first. The
  loops' \<^verbatim>\<open>unsigned int\<close> bit positions are natural numbers: the model is for strings
  whose bit length fits the 32-bit counter.
\<close>

section \<open>The alphabet and its reverse map\<close>

definition BaseNix32_characters :: string where
  "BaseNix32_characters = ''0123456789abcdfghijklmnpqrsvwxyz''"

definition BaseNix32_invalid :: byte where
  "BaseNix32_invalid = 0xFF"

definition BaseNix32_reverseMap :: "byte list" where
  "BaseNix32_reverseMap =
     fold (\<lambda>i m. m[of_char (BaseNix32_characters ! i) := of_nat i]) [0..<32]
       (replicate 256 BaseNix32_invalid)"

definition BaseNix32_lookupReverse :: "char \<Rightarrow> byte option" where
  "BaseNix32_lookupReverse base32 =
     (let digit = BaseNix32_reverseMap ! of_char base32
      in if digit = BaseNix32_invalid then None else Some digit)"

section \<open>Encoding and decoding\<close>

definition BaseNix32_encodedLength :: "nat \<Rightarrow> nat" where
  "BaseNix32_encodedLength originalLength = (originalLength * 8 - 1) div 5 + 1"

text \<open>The body of the encoding loop for digit \<open>n\<close>.\<close>

definition BaseNix32_digit :: "bytes \<Rightarrow> nat \<Rightarrow> byte" where
  "BaseNix32_digit bs n =
     (let b = n * 5; i = b div 8; j = b mod 8;
          c = drop_bit j (bs ! i) OR
              (if i \<ge> length bs - 1 then 0 else push_bit (8 - j) (bs ! (i + 1)))
      in c AND 0x1f)"

definition BaseNix32_encode :: "bytes \<Rightarrow> string" where
  "BaseNix32_encode bs =
     (if length bs = 0 then []
      else map (\<lambda>n. BaseNix32_characters ! unat (BaseNix32_digit bs n))
             (rev [0..<BaseNix32_encodedLength (length bs)]))"

text \<open>The body of the decoding loop once the digit is known.\<close>

definition BaseNix32_decode_step :: "nat \<Rightarrow> byte \<Rightarrow> bytes \<Rightarrow> bytes" where
  "BaseNix32_decode_step n digit res =
     (let b = n * 5; i = b div 8; j = b mod 8;
          res1 = resize (i + 1) res;
          res2 = res1[i := res1 ! i OR push_bit j digit]
      in if drop_bit (8 - j) digit \<noteq> 0
         then (let res3 = resize (i + 2) res2
               in res3[i + 1 := res3 ! (i + 1) OR drop_bit (8 - j) digit])
         else res2)"

text \<open>The decoding loop, over the characters from the last to the first.\<close>

fun BaseNix32_decode_loop :: "string \<Rightarrow> nat \<Rightarrow> bytes \<Rightarrow> bytes result" where
  "BaseNix32_decode_loop [] n res = Inr res"
| "BaseNix32_decode_loop (c # cs) n res =
     (case BaseNix32_lookupReverse c of
        None \<Rightarrow> Inl (FormatError ''invalid character in Nix32 string'')
      | Some digit \<Rightarrow>
          BaseNix32_decode_loop cs (n + 1) (BaseNix32_decode_step n digit res))"

definition BaseNix32_decode :: "string \<Rightarrow> bytes result" where
  "BaseNix32_decode s = BaseNix32_decode_loop (rev s) 0 []"

section \<open>The reverse map inverts the alphabet\<close>

lemma length_characters [simp]: "length BaseNix32_characters = 32"
  by (simp add: BaseNix32_characters_def)

lemma distinct_characters: "distinct BaseNix32_characters"
  by (simp add: BaseNix32_characters_def)

lemma inj_on_character_codes: "inj_on (\<lambda>i. of_char (BaseNix32_characters ! i) :: nat) {..<32}"
  using distinct_characters by (simp add: inj_on_def nth_eq_iff_index_eq)

lemma lookupReverse_characters:
  assumes "d < 32"
  shows "BaseNix32_lookupReverse (BaseNix32_characters ! unat d) = Some d"
proof -
  from assms have i: "unat d < 32" by (simp add: word_less_nat_alt)
  then have "BaseNix32_reverseMap ! of_char (BaseNix32_characters ! unat d) = of_nat (unat d)"
    unfolding BaseNix32_reverseMap_def
    by (intro nth_fold_update [OF inj_on_character_codes]) simp_all
  moreover have "d \<noteq> BaseNix32_invalid"
    using assms by (auto simp: BaseNix32_invalid_def)
  ultimately show ?thesis by (simp add: BaseNix32_lookupReverse_def)
qed

lemma lookupReverse_sound:
  assumes "BaseNix32_lookupReverse c = Some d"
  shows "d < 32 \<and> BaseNix32_characters ! unat d = c"
proof (cases "of_char c \<in> (\<lambda>i. of_char (BaseNix32_characters ! i) :: nat) ` {..<32}")
  case True
  then obtain i where i: "i < 32" "c = BaseNix32_characters ! i" by auto
  then have "unat (of_nat i :: byte) = i" "of_nat i < (32 :: byte)"
    by (simp_all add: unat_of_nat word_less_nat_alt)
  with i lookupReverse_characters [of "of_nat i"] assms show ?thesis by simp
next
  case False
  then have "BaseNix32_reverseMap ! of_char c = BaseNix32_invalid"
    unfolding BaseNix32_reverseMap_def
    by (subst nth_fold_update_other) simp_all
  with assms show ?thesis by (simp add: BaseNix32_lookupReverse_def)
qed

section \<open>Encoding and decoding as bits\<close>

text \<open>Digit \<open>n\<close> of the encoding holds bits \<open>5 n\<close> to \<open>5 n + 4\<close> of the input.\<close>

lemma bit_digit:
  assumes "n * 5 < 8 * length bs"
  shows "bit (BaseNix32_digit bs n) t \<longleftrightarrow> t < 5 \<and> bit_at bs (n * 5 + t)"
proof -
  let ?i = "n * 5 div 8" and ?j = "n * 5 mod 8"
  have mask: "bit (0x1f :: byte) t \<longleftrightarrow> t < 5"
    using bit_mask_iff [of 5 t, where 'a = "8 word"] bit_byte_bound [of "0x1f" t]
    by (auto simp: mask_eq_decr_exp)
  have i: "?i < length bs" using assms by linarith
  show ?thesis
  proof (cases "?j + t < 8")
    case True
    with i mask show ?thesis
      by (auto simp: BaseNix32_digit_def Let_def bit_at_def bit_simps add_div_mod_8_same)
  next
    case False
    show ?thesis
    proof (cases "t < 5")
      case True
      then have "?j + t < 16" using mod_less_divisor [of 8 "n * 5"] by linarith
      moreover have "t - (8 - ?j) = ?j + t - 8" "8 - ?j \<le> t" using False by auto
      moreover have "\<not> bit (bs ! ?i) (?j + t)"
        using False bit_byte_bound [of "bs ! ?i" "?j + t"] by blast
      moreover have "length bs - 1 \<le> ?i \<longleftrightarrow> \<not> Suc ?i < length bs" using i by auto
      ultimately show ?thesis
        using True False i mask bit_byte_bound [of "bs ! Suc ?i" "?j + t - 8"]
        by (auto simp: BaseNix32_digit_def Let_def bit_at_def bit_and_iff bit_or_iff
              bit_push_bit_iff bit_drop_bit_eq add_div_mod_8_next)
    qed (use mask in \<open>auto simp: BaseNix32_digit_def Let_def bit_and_iff\<close>)
  qed
qed

lemma digit_less_32: "BaseNix32_digit bs n < 32"
proof -
  have "BaseNix32_digit bs n \<le> 0x1f"
    by (simp add: BaseNix32_digit_def Let_def word_and_le1)
  then show ?thesis by (simp add: word_le_nat_alt word_less_nat_alt)
qed

lemma bit_less_32:
  assumes "(d :: byte) < 32" and "bit d t"
  shows "t < 5"
proof -
  have "unat d < 2 ^ 5" using assms(1) by (simp add: word_less_nat_alt)
  moreover have "bit (unat d) t" using assms(2) by (simp add: bit_unsigned_iff)
  ultimately show ?thesis by (rule nat_bit_bound)
qed

text \<open>One decoding step ors the digit into the result, five bits per digit.\<close>

lemma bit_at_decode_step:
  assumes d: "d < 32" and len: "length res \<le> n * 5 div 8 + 1"
  shows "bit_at (BaseNix32_decode_step n d res) k \<longleftrightarrow>
           bit_at res k \<or> n * 5 \<le> k \<and> bit d (k - n * 5)"
proof -
  let ?i = "n * 5 div 8" and ?j = "n * 5 mod 8" and ?q = "k div 8" and ?r = "k mod 8"
  let ?hi = "drop_bit (8 - ?j) d"
  have k: "k = 8 * ?q + ?r" and n: "n * 5 = 8 * ?i + ?j" and j: "?j < 8" and r: "?r < 8"
    by simp_all
  have d8: "\<not> bit d t" if "8 \<le> t" for t
    using that bit_byte_bound [of d t] by linarith
  consider "?q < ?i" | "?q = ?i" | "?q = ?i + 1" | "?i + 1 < ?q" by linarith
  then show ?thesis
  proof cases
    case 1
    then have "\<not> n * 5 \<le> k" using k n r by linarith
    with 1 len show ?thesis
      by (auto simp: BaseNix32_decode_step_def Let_def bit_at_def nth_resize nth_list_update)
  next
    case 2
    then have "n * 5 \<le> k \<longleftrightarrow> ?j \<le> ?r" "k - n * 5 = ?r - ?j" using k n by linarith+
    with 2 len r show ?thesis
      by (auto simp: BaseNix32_decode_step_def Let_def bit_at_def nth_resize nth_list_update
            bit_or_iff bit_push_bit_iff dest: bit_byte_bound)
  next
    case 3
    then have "n * 5 \<le> k" "k - n * 5 = 8 - ?j + ?r" using k n j by linarith+
    then have "n * 5 \<le> k \<and> bit d (k - n * 5) \<longleftrightarrow> bit ?hi ?r"
      by (simp add: bit_drop_bit_eq)
    with 3 len show ?thesis
      by (auto simp: BaseNix32_decode_step_def Let_def bit_at_def nth_resize nth_list_update
            bit_or_iff)
  next
    case 4
    then have "8 \<le> k - n * 5" using k n j by linarith
    with 4 len show ?thesis
      by (auto simp: BaseNix32_decode_step_def Let_def bit_at_def d8)
  qed
qed

lemma high_bits_position:
  assumes "(d :: byte) < 32" and "drop_bit (8 - n * 5 mod 8) d \<noteq> 0"
  shows "(n + 1) * 5 div 8 = n * 5 div 8 + 1"
proof -
  let ?j = "n * 5 mod 8"
  from assms(2) obtain t where "bit (drop_bit (8 - ?j) d) t"
    using byte_nonzero_bit by blast
  then have "8 - ?j + t < 5"
    using bit_less_32 [OF assms(1)] by (simp add: bit_drop_bit_eq)
  then have "8 \<le> ?j + 5" "?j + 5 < 16" by linarith+
  then have "(n * 5 + 5) div 8 = n * 5 div 8 + 1" by (rule add_div_mod_8_next)
  then show ?thesis by (simp add: algebra_simps)
qed

text \<open>The result never shrinks, and a byte beyond the last digit's first one is not zero.\<close>

lemma length_decode_step:
  assumes d: "d < 32"
  shows "length (BaseNix32_decode_step n d res) \<le> (n + 1) * 5 div 8 + 1"
proof (cases "drop_bit (8 - n * 5 mod 8) d = 0")
  case True
  then show ?thesis by (simp add: BaseNix32_decode_step_def Let_def)
next
  case False
  with high_bits_position [OF d False] show ?thesis
    by (simp add: BaseNix32_decode_step_def Let_def)
qed

lemma length_decode_step_cases:
  assumes d: "d < 32"
  shows "length (BaseNix32_decode_step n d res) = n * 5 div 8 + 1 \<or>
         length (BaseNix32_decode_step n d res) = n * 5 div 8 + 2 \<and>
           (\<exists>k \<ge> 8 * (n * 5 div 8 + 1). bit_at (BaseNix32_decode_step n d res) k)"
proof (cases "drop_bit (8 - n * 5 mod 8) d = 0")
  case True
  then show ?thesis by (simp add: BaseNix32_decode_step_def Let_def)
next
  case False
  let ?i = "n * 5 div 8" and ?hi = "drop_bit (8 - n * 5 mod 8) d"
  from False obtain t where t: "bit ?hi t" "t < 8"
    using byte_nonzero_bit by blast
  define k where "k = 8 * (?i + 1) + t"
  have k: "8 * (?i + 1) \<le> k" "k div 8 = ?i + 1" "k mod 8 = t"
    using t(2) unfolding k_def by (simp_all only: le_add1 div_mult_self4 mod_mult_self4) simp_all
  with t False have "bit_at (BaseNix32_decode_step n d res) k"
    by (simp add: BaseNix32_decode_step_def Let_def bit_at_def bit_or_iff)
  with k(1) have "\<exists>k \<ge> 8 * (?i + 1). bit_at (BaseNix32_decode_step n d res) k" by blast
  with False show ?thesis by (simp add: BaseNix32_decode_step_def Let_def)
qed

section \<open>The whole loops\<close>

abbreviation nix32_chars :: "byte list \<Rightarrow> string" where
  "nix32_chars ds \<equiv> map (\<lambda>d. BaseNix32_characters ! unat d) ds"

lemma decode_loop_chars:
  assumes "\<forall>d \<in> set ds. d < 32" and "length res \<le> n * 5 div 8 + 1"
  shows "\<exists>res'. BaseNix32_decode_loop (nix32_chars ds) n res = Inr res' \<and>
    (\<forall>k. bit_at res' k \<longleftrightarrow> bit_at res k \<or>
       (\<exists>m < length ds. (n + m) * 5 \<le> k \<and> bit (ds ! m) (k - (n + m) * 5))) \<and>
    (ds \<noteq> [] \<longrightarrow> length res' = (n + length ds - 1) * 5 div 8 + 1 \<or>
       length res' = (n + length ds - 1) * 5 div 8 + 2 \<and>
         (\<exists>k \<ge> 8 * ((n + length ds - 1) * 5 div 8 + 1). bit_at res' k))"
  using assms
proof (induction ds arbitrary: n res)
  case Nil
  then show ?case by simp
next
  case (Cons d ds)
  let ?res = "BaseNix32_decode_step n d res"
  from Cons.prems have d: "d < 32" and ds: "\<forall>d \<in> set ds. d < 32" by auto
  from Cons.IH [OF ds length_decode_step [OF d, of n res]] obtain res' where
    run: "BaseNix32_decode_loop (nix32_chars ds) (n + 1) ?res = Inr res'"
    and bits: "\<And>k. bit_at res' k \<longleftrightarrow> bit_at ?res k \<or>
       (\<exists>m < length ds. (n + 1 + m) * 5 \<le> k \<and> bit (ds ! m) (k - (n + 1 + m) * 5))"
    and len: "ds \<noteq> [] \<longrightarrow> length res' = (n + 1 + length ds - 1) * 5 div 8 + 1 \<or>
       length res' = (n + 1 + length ds - 1) * 5 div 8 + 2 \<and>
         (\<exists>k \<ge> 8 * ((n + 1 + length ds - 1) * 5 div 8 + 1). bit_at res' k)"
    by blast
  have "BaseNix32_decode_loop (nix32_chars (d # ds)) n res = Inr res'"
    using run d by (simp add: lookupReverse_characters)
  moreover have "bit_at res' k \<longleftrightarrow> bit_at res k \<or>
      (\<exists>m < length (d # ds). (n + m) * 5 \<le> k \<and> bit ((d # ds) ! m) (k - (n + m) * 5))" for k
  proof -
    have "n + 1 + m = n + Suc m" for m by simp
    with bits [of k] bit_at_decode_step [OF d Cons.prems(2), of k] show ?thesis
      unfolding length_Cons Ex_less_Suc2 nth_Cons_0 nth_Cons_Suc add_0_right by metis
  qed
  moreover have "length res' = (n + length (d # ds) - 1) * 5 div 8 + 1 \<or>
       length res' = (n + length (d # ds) - 1) * 5 div 8 + 2 \<and>
         (\<exists>k \<ge> 8 * ((n + length (d # ds) - 1) * 5 div 8 + 1). bit_at res' k)"
  proof (cases "ds = []")
    case True
    with run have "res' = ?res" by simp
    with True length_decode_step_cases [OF d, of n res] show ?thesis by simp
  next
    case False
    with len show ?thesis by simp
  qed
  ultimately show ?case by blast
qed

lemma encodedLength_bounds:
  assumes "0 < l"
  shows "(BaseNix32_encodedLength l - 1) * 5 div 8 + 1 = l"
    and "8 * l \<le> 5 * BaseNix32_encodedLength l"
    and "n < BaseNix32_encodedLength l \<Longrightarrow> n * 5 < 8 * l"
proof -
  define q where "q = (l * 8 - 1) div 5"
  have "5 * q \<le> l * 8 - 1" "l * 8 - 1 < 5 * q + 5"
    unfolding q_def by (simp_all add: mult.commute [of 5] div_times_less_eq_dividend)
  with assms have q: "5 * q + 1 \<le> 8 * l" "8 * l \<le> 5 * q + 5" by simp_all
  have e: "BaseNix32_encodedLength l = q + 1"
    by (simp add: BaseNix32_encodedLength_def q_def)
  from q show "8 * l \<le> 5 * BaseNix32_encodedLength l"
    by (simp add: e)
  show "n * 5 < 8 * l" if "n < BaseNix32_encodedLength l"
    using that q by (simp add: e)
  have "q * 5 div 8 = l - 1"
    using q assms by (intro div_nat_eqI) auto
  with e assms show "(BaseNix32_encodedLength l - 1) * 5 div 8 + 1 = l" by simp
qed

text \<open>
  Decoding any sequence of digits from the start: it succeeds, each digit contributes its
  five bits, and the result has one byte more than the last digit's first one exactly when
  that byte is not zero.
\<close>

lemma decode_digits:
  assumes "\<forall>d \<in> set ds. d < 32" and "ds \<noteq> []"
  obtains res where "BaseNix32_decode (rev (nix32_chars ds)) = Inr res"
    and "\<And>k. bit_at res k \<longleftrightarrow> k div 5 < length ds \<and> bit (ds ! (k div 5)) (k mod 5)"
    and "length res = (length ds - 1) * 5 div 8 + 1 \<or>
       length res = (length ds - 1) * 5 div 8 + 2 \<and>
         (\<exists>k \<ge> 8 * ((length ds - 1) * 5 div 8 + 1). bit_at res k)"
proof -
  have "length ([] :: bytes) \<le> 0 * 5 div 8 + 1" by simp
  from decode_loop_chars [OF assms(1) this] assms(2) obtain res where
    run: "BaseNix32_decode_loop (nix32_chars ds) 0 [] = Inr res"
    and bits: "\<forall>k. bit_at res k \<longleftrightarrow> bit_at [] k \<or>
       (\<exists>m < length ds. (0 + m) * 5 \<le> k \<and> bit (ds ! m) (k - (0 + m) * 5))"
    and sz: "length res = (0 + length ds - 1) * 5 div 8 + 1 \<or>
       length res = (0 + length ds - 1) * 5 div 8 + 2 \<and>
         (\<exists>k \<ge> 8 * ((0 + length ds - 1) * 5 div 8 + 1). bit_at res k)"
    by blast
  have "bit_at res k \<longleftrightarrow> k div 5 < length ds \<and> bit (ds ! (k div 5)) (k mod 5)" for k
  proof
    assume "bit_at res k"
    then obtain m where m: "m < length ds" "m * 5 \<le> k" "bit (ds ! m) (k - m * 5)"
      using bits by auto
    then have "k - m * 5 < 5" using bit_less_32 [of "ds ! m"] assms(1) nth_mem by blast
    with m(2) have q: "k div 5 = m" by (auto intro: div_nat_eqI)
    then have "k mod 5 = k - m * 5" by (metis minus_div_mult_eq_mod)
    with m q show "k div 5 < length ds \<and> bit (ds ! (k div 5)) (k mod 5)" by simp
  next
    assume a: "k div 5 < length ds \<and> bit (ds ! (k div 5)) (k mod 5)"
    moreover have "k div 5 * 5 \<le> k" "k - k div 5 * 5 = k mod 5"
      by (simp_all add: minus_div_mult_eq_mod)
    ultimately show "bit_at res k" using bits by auto
  qed
  with run sz show ?thesis by (intro that [of res]) (simp_all add: BaseNix32_decode_def)
qed

section \<open>Round trips\<close>

lemma encode_as_digits:
  assumes "bs \<noteq> []"
  shows "BaseNix32_encode bs =
    rev (nix32_chars (map (BaseNix32_digit bs) [0..<BaseNix32_encodedLength (length bs)]))"
  using assms by (simp add: BaseNix32_encode_def rev_map o_def)

lemma length_BaseNix32_encode:
  "bs \<noteq> [] \<Longrightarrow> length (BaseNix32_encode bs) = BaseNix32_encodedLength (length bs)"
  by (simp add: encode_as_digits)

lemma BaseNix32_encode_chars: "set (BaseNix32_encode bs) \<subseteq> set BaseNix32_characters"
proof -
  have "unat (BaseNix32_digit bs n) < 32" for n
    using digit_less_32 [of bs n] by (simp add: word_less_nat_alt)
  then show ?thesis by (auto simp: BaseNix32_encode_def)
qed

text \<open>Decoding an encoding gives the encoded bytes back.\<close>

lemma BaseNix32_decode_encode: "BaseNix32_decode (BaseNix32_encode bs) = Inr bs"
proof (cases "bs = []")
  case True
  then show ?thesis by (simp add: BaseNix32_encode_def BaseNix32_decode_def)
next
  case False
  then have pos: "0 < length bs" by simp
  let ?n = "BaseNix32_encodedLength (length bs)" and ?D = "BaseNix32_digit bs"
  let ?ds = "map ?D [0..<?n]"
  have ne: "?ds \<noteq> []" by (simp add: BaseNix32_encodedLength_def)
  have small: "\<forall>d \<in> set ?ds. d < 32" by (simp add: digit_less_32)
  obtain res where run: "BaseNix32_decode (rev (nix32_chars ?ds)) = Inr res"
    and bits: "\<And>k. bit_at res k \<longleftrightarrow> k div 5 < length ?ds \<and> bit (?ds ! (k div 5)) (k mod 5)"
    and sz: "length res = (length ?ds - 1) * 5 div 8 + 1 \<or>
       length res = (length ?ds - 1) * 5 div 8 + 2 \<and>
         (\<exists>k \<ge> 8 * ((length ?ds - 1) * 5 div 8 + 1). bit_at res k)"
    by (rule decode_digits [OF small ne]) (rule that)
  have eq: "bit_at res k \<longleftrightarrow> bit_at bs k" for k
  proof -
    have "k div 5 < ?n" if "bit_at bs k"
      using bit_at_bound [OF that] encodedLength_bounds(2) [OF pos] by auto
    then show ?thesis
      using bits [of k] encodedLength_bounds(3) [OF pos, of "k div 5"]
      by (auto simp: bit_digit)
  qed
  have "\<not> bit_at bs k" if "8 * length bs \<le> k" for k
    using that bit_at_bound [of bs k] by linarith
  with sz eq encodedLength_bounds(1) [OF pos] have "length res = length bs"
    by auto
  with eq have "res = bs" by (intro bytes_eqI) auto
  with run False show ?thesis by (simp add: encode_as_digits)
qed

lemma decode_loop_validD:
  "BaseNix32_decode_loop cs n res = Inr bs \<Longrightarrow>
     \<exists>ds. (\<forall>d \<in> set ds. d < 32) \<and> cs = nix32_chars ds"
proof (induction cs arbitrary: n res)
  case Nil
  show ?case by (rule exI [of _ "[]"]) simp
next
  case (Cons c cs)
  then obtain d where d: "BaseNix32_lookupReverse c = Some d"
    and "BaseNix32_decode_loop cs (n + 1) (BaseNix32_decode_step n d res) = Inr bs"
    by (auto split: option.splits)
  with Cons.IH obtain ds where "\<forall>d \<in> set ds. d < 32" "cs = nix32_chars ds" by blast
  with lookupReverse_sound [OF d] show ?case by (intro exI [of _ "d # ds"]) simp
qed

text \<open>
  C33: a string of the right length that decodes to bytes is their canonical encoding, so
  no two Nix32 spellings of a hash denote the same bytes.
\<close>

theorem BaseNix32_encode_decode:
  assumes "BaseNix32_decode s = Inr bs" and "bs \<noteq> []"
    and "length s = BaseNix32_encodedLength (length bs)"
  shows "BaseNix32_encode bs = s"
proof -
  from assms(2) have pos: "0 < length bs" by simp
  from assms(1) obtain ds where small: "\<forall>d \<in> set ds. d < 32" and "rev s = nix32_chars ds"
    unfolding BaseNix32_decode_def using decode_loop_validD by blast
  then have s: "s = rev (nix32_chars ds)" by (metis rev_rev_ident)
  with assms(3) have len: "length ds = BaseNix32_encodedLength (length bs)" by simp
  then have ne: "ds \<noteq> []" by (auto simp: BaseNix32_encodedLength_def)
  obtain res where run: "BaseNix32_decode (rev (nix32_chars ds)) = Inr res"
    and bits: "\<And>k. bit_at res k \<longleftrightarrow> k div 5 < length ds \<and> bit (ds ! (k div 5)) (k mod 5)"
    by (rule decode_digits [OF small ne]) (rule that)
  from run s assms(1) have res: "res = bs" by simp
  have "ds ! m = BaseNix32_digit bs m" if m: "m < length ds" for m
  proof (rule byte_eqI)
    fix t :: nat
    have "m * 5 < 8 * length bs" using encodedLength_bounds(3) [OF pos] m len by simp
    moreover have "bit (ds ! m) t \<longleftrightarrow> t < 5 \<and> bit_at bs (m * 5 + t)"
      using bits [of "m * 5 + t"] res m small bit_less_32 [of "ds ! m" t] nth_mem by auto
    ultimately show "bit (ds ! m) t = bit (BaseNix32_digit bs m) t" by (simp add: bit_digit)
  qed
  then have "ds = map (BaseNix32_digit bs) [0..<BaseNix32_encodedLength (length bs)]"
    using len by (intro nth_equalityI) simp_all
  with s show ?thesis using encode_as_digits [OF assms(2)] by simp
qed

theorem BaseNix32_encode_decode_witness:
  "BaseNix32_decode ''0h'' = Inr [0x10] \<and> BaseNix32_encode [0x10] = ''0h''"
proof -
  have d: "BaseNix32_decode ''0h'' = Inr [0x10]" by code_simp
  have "BaseNix32_encode [0x10] = ''0h''"
    by (rule BaseNix32_encode_decode [OF d]) (simp_all add: BaseNix32_encodedLength_def)
  with d show ?thesis by simp
qed

end
