(* ===== verification/Base_N.thy ===== *)
theory Base_N
  imports Prelude
begin

unbundle bit_operations_syntax

text \<open>
  Base-16 and base-64 (\<^verbatim>\<open>libutil/base-n.cc\<close>, \<^verbatim>\<open>base-n.hh\<close>), the two standard encodings in
  which hashes and keys are written. The base-64 accumulators are the 32-bit integers of
  the source, which wrap; the theorems show that the wrapped part is never read.
\<close>

section \<open>Base-16\<close>

definition base16Chars :: string where
  "base16Chars = ''0123456789abcdef''"

definition base16_encodedLength :: "nat \<Rightarrow> nat" where
  "base16_encodedLength origSize = origSize * 2"

definition base16_encode :: "bytes \<Rightarrow> string" where
  "base16_encode b =
     concat (map (\<lambda>x. [base16Chars ! unat (drop_bit 4 x), base16Chars ! unat (x AND 0x0f)]) b)"

definition parseHexDigit :: "char \<Rightarrow> byte result" where
  "parseHexDigit c =
     (let n = of_char c :: nat in
      if of_char CHR ''0'' \<le> n \<and> n \<le> of_char CHR ''9'' then Inr (of_nat (n - of_char CHR ''0''))
      else if of_char CHR ''A'' \<le> n \<and> n \<le> of_char CHR ''F'' then
        Inr (of_nat (n - of_char CHR ''A'' + 10))
      else if of_char CHR ''a'' \<le> n \<and> n \<le> of_char CHR ''f'' then
        Inr (of_nat (n - of_char CHR ''a'' + 10))
      else Inl (FormatError ''invalid character in Base16 string''))"

text \<open>The loop reads two characters per step; the assertion on the length precedes it.\<close>

fun base16_decode_loop :: "string \<Rightarrow> bytes result" where
  "base16_decode_loop (h # l # s) =
     result_bind (parseHexDigit h) (\<lambda>hi.
     result_bind (parseHexDigit l) (\<lambda>lo.
     result_bind (base16_decode_loop s) (\<lambda>rest.
       Inr ((push_bit 4 hi OR lo) # rest))))"
| "base16_decode_loop s = Inr []"

definition base16_decode :: "string \<Rightarrow> bytes result" where
  "base16_decode s =
     result_bind (ensure (length s mod 2 = 0) (AssertionFailed ''s.size() % 2 == 0'')) (\<lambda>_.
       base16_decode_loop s)"

section \<open>Base-64\<close>

definition base64Chars :: string where
  "base64Chars = ''ABCDEFGHIJKLMNOPQRSTUVWXYZabcdefghijklmnopqrstuvwxyz0123456789+/''"

definition base64_encodedLength :: "nat \<Rightarrow> nat" where
  "base64_encodedLength origSize = ((4 * origSize div 3) + 3) div 4 * 4"

text \<open>
  The inner loop \<^verbatim>\<open>while (nbits >= 6)\<close>, with \<^verbatim>\<open>data\<close> as the 32-bit signed integer of the
  source (\<^verbatim>\<open>>>\<close> is an arithmetic shift).
\<close>

fun base64_flush :: "32 word \<Rightarrow> nat \<Rightarrow> string \<Rightarrow> nat \<times> string" where
  "base64_flush data nbits res =
     (if nbits \<ge> 6 then
        base64_flush data (nbits - 6)
          (res @ [base64Chars ! unat (signed_drop_bit (nbits - 6) data AND 0x3f)])
      else (nbits, res))"

declare base64_flush.simps [simp del]

fun base64_encode_loop :: "bytes \<Rightarrow> 32 word \<Rightarrow> nat \<Rightarrow> string \<Rightarrow> 32 word \<times> nat \<times> string" where
  "base64_encode_loop [] data nbits res = (data, nbits, res)"
| "base64_encode_loop (c # s) data nbits res =
     (let data' = push_bit 8 data OR ucast c; (nbits', res') = base64_flush data' (nbits + 8) res
      in base64_encode_loop s data' nbits' res')"

text \<open>The final \<^verbatim>\<open>while (res.size() % 4)\<close>.\<close>

definition base64_pad :: "string \<Rightarrow> string" where
  "base64_pad res = res @ replicate ((4 - length res mod 4) mod 4) CHR ''=''"

definition base64_encode :: "bytes \<Rightarrow> string" where
  "base64_encode s =
     (case base64_encode_loop s 0 0 [] of (data, nbits, res) \<Rightarrow>
        base64_pad
          (if nbits \<noteq> 0 then res @ [base64Chars ! unat (push_bit (6 - nbits) data AND 0x3f)]
           else res))"

definition base64_npos :: byte where
  "base64_npos = - 1"

definition base64DecodeChars :: "byte list" where
  "base64DecodeChars =
     fold (\<lambda>i result. result[of_char (base64Chars ! i) := of_nat i]) [0..<64]
       (replicate 256 base64_npos)"

fun base64_decode_loop :: "string \<Rightarrow> 32 word \<Rightarrow> nat \<Rightarrow> bytes \<Rightarrow> bytes result" where
  "base64_decode_loop [] d bits res = Inr res"
| "base64_decode_loop (c # s) d bits res =
     (if c = CHR ''='' then Inr res
      else if c = CHR 0x0A then base64_decode_loop s d bits res
      else (let digit = base64DecodeChars ! of_char c in
        if digit = base64_npos then Inl (FormatError ''invalid character in Base64 string'')
        else (let bits' = bits + 6; d' = push_bit 6 d OR ucast digit in
          if bits' \<ge> 8
          then base64_decode_loop s d' (bits' - 8) (res @ [ucast (drop_bit (bits' - 8) d' AND 0xff)])
          else base64_decode_loop s d' bits' res)))"

definition base64_decode :: "string \<Rightarrow> bytes result" where
  "base64_decode s = base64_decode_loop s 0 0 []"

section \<open>Base-16 round trip\<close>

lemma length_base16_encode: "length (base16_encode bs) = base16_encodedLength (length bs)"
  by (induction bs) (simp_all add: base16_encode_def base16_encodedLength_def)

lemma parseHexDigit_base16Chars:
  assumes "d < 16"
  shows "parseHexDigit (base16Chars ! unat d) = Inr d"
proof -
  have "list_all (\<lambda>i. parseHexDigit (base16Chars ! i) = Inr (of_nat i)) [0..<16]"
    by code_simp
  moreover have "unat d < 16" using assms by (simp add: word_less_nat_alt)
  ultimately show ?thesis by (simp add: list_all_iff)
qed

lemma nibble_bounds: "drop_bit 4 (x :: byte) < 16" "x AND 0x0f < 16"
proof -
  show "x AND 0x0f < 16"
    using word_and_le1 [of x "0x0f"] by (simp add: word_le_nat_alt word_less_nat_alt)
  have "unat (drop_bit 4 x) = unat x div 16" by (simp add: drop_bit_eq_div unat_div)
  then show "drop_bit 4 x < 16" using unat_byte_less [of x] by (simp add: word_less_nat_alt)
qed

lemma nibbles_rejoin: "push_bit 4 (drop_bit 4 (x :: byte)) OR (x AND 0x0f) = x"
proof -
  have m: "(0x0f :: byte) = mask 4" by (simp add: mask_eq_decr_exp)
  show ?thesis
    unfolding m by (intro byte_eqI) (auto simp: bit_simps)
qed

text \<open>Decoding an encoding; the length assertion of the decoder holds on such input.\<close>

lemma base16_decode_encode: "base16_decode (base16_encode bs) = Inr bs"
proof -
  have "base16_decode_loop (base16_encode bs) = Inr bs"
    by (induction bs)
      (simp_all add: base16_encode_def parseHexDigit_base16Chars nibble_bounds nibbles_rejoin)
  then show ?thesis
    by (simp add: base16_decode_def length_base16_encode base16_encodedLength_def)
qed

section \<open>Base-64 as bit streams\<close>

text \<open>The low \<open>n\<close> bits of a number, most significant first.\<close>

definition low_bits :: "nat \<Rightarrow> 'a::semiring_bits \<Rightarrow> bool list" where
  "low_bits n w = map (bit w) (rev [0..<n])"

lemma length_low_bits [simp]: "length (low_bits n w) = n"
  by (simp add: low_bits_def)

lemma low_bits_0 [simp]: "low_bits 0 w = []"
  by (simp add: low_bits_def)

lemma low_bits_eqI: "(\<And>t. t < n \<Longrightarrow> bit v t = bit w t) \<Longrightarrow> low_bits n v = low_bits n w"
  by (simp add: low_bits_def)

lemma low_bits_split:
  assumes "\<And>t. t < n \<Longrightarrow> bit v t = bit w t" and "\<And>t. t < m \<Longrightarrow> bit u t = bit w (t + n)"
  shows "low_bits (m + n) w = low_bits m u @ low_bits n v"
proof -
  have "[0..<m + n] = [0..<n] @ map (\<lambda>t. t + n) [0..<m]"
    using upt_add_eq_append [of 0 n m] by (simp add: map_add_upt add.commute)
  with assms show ?thesis by (simp add: low_bits_def rev_map)
qed

lemma low_bits_byte_inject: "low_bits 8 (a :: byte) = low_bits 8 b \<Longrightarrow> a = b"
  by (rule byte_eqI) (auto simp: low_bits_def)

lemma concat_low_bits_inject:
  assumes "length as = length bs"
    and "concat (map (low_bits 8) as) = concat (map (low_bits 8) bs)"
  shows "as = (bs :: bytes)"
  using assms
  by (induction as bs rule: list_induct2) (auto dest: low_bits_byte_inject)

lemma length_concat_low_bits: "length (concat (map (low_bits n) ds)) = n * length ds"
  by (induction ds) simp_all

text \<open>Feeding a byte to the encoder's accumulator appends its eight bits.\<close>

lemma low_bits_feed:
  fixes data :: "32 word" and c :: "'b :: len word"
  assumes "n + m \<le> 32" and "m \<le> LENGTH('b)"
    and "\<And>t. m \<le> t \<Longrightarrow> \<not> bit c t"
  shows "low_bits (n + m) (push_bit m data OR ucast c) = low_bits n data @ low_bits m c"
proof (rule low_bits_split)
  fix t assume "t < m"
  with assms show "bit c t = bit (push_bit m data OR ucast c) t"
    by (auto simp: bit_simps)
next
  fix t assume "t < n"
  with assms show "bit data t = bit (push_bit m data OR ucast c) (t + m)"
    by (auto simp: bit_simps)
qed

lemma bit_0x3f: "bit (0x3f :: 32 word) t \<longleftrightarrow> t < 6"
  using bit_mask_iff [of 6 t, where 'a = "32 word"] by (auto simp: mask_eq_decr_exp possible_bit_def)

lemma digit6_less: "unat ((w :: 32 word) AND 0x3f) < 64"
  using word_and_le1 [of w "0x3f"] by (simp add: word_le_nat_alt)

lemma bit_digit6: "bit (unat ((w :: 32 word) AND 0x3f)) t \<longleftrightarrow> t < 6 \<and> bit w t"
  using bit_0x3f [of t] by (auto simp: bit_unsigned_iff bit_and_iff)

lemma base64_flush_correct:
  fixes data :: "32 word"
  assumes "nbits < 14"
  shows "\<exists>ds nbits'. base64_flush data nbits res =
      (nbits', res @ map (\<lambda>d. base64Chars ! d) ds) \<and>
    (\<forall>d \<in> set ds. d < 64) \<and> nbits' < 6 \<and>
    low_bits nbits data = concat (map (low_bits 6) ds) @ low_bits nbits' data"
  using assms
proof (induction data nbits res rule: base64_flush.induct)
  case (1 data nbits res)
  show ?case
  proof (cases "nbits \<ge> 6")
    case False
    then show ?thesis
      by (intro exI [of _ "[]"] exI [of _ nbits]) (simp add: base64_flush.simps)
  next
    case True
    define d where "d = unat (signed_drop_bit (nbits - 6) data AND 0x3f)"
    have "nbits - 6 < 14" using "1.prems" by simp
    from "1.IH" [OF True this, folded d_def] obtain ds nbits' where
      run: "base64_flush data (nbits - 6) (res @ [base64Chars ! d]) =
        (nbits', (res @ [base64Chars ! d]) @ map (\<lambda>d. base64Chars ! d) ds)"
      and ds: "\<forall>d \<in> set ds. d < 64" and n: "nbits' < 6"
      and low: "low_bits (nbits - 6) data = concat (map (low_bits 6) ds) @ low_bits nbits' data"
      by blast
    have "low_bits (6 + (nbits - 6)) data = low_bits 6 d @ low_bits (nbits - 6) data"
      using "1.prems" unfolding d_def
      by (intro low_bits_split) (auto simp: bit_digit6 bit_signed_drop_bit_iff add.commute)
    with True low have "low_bits nbits data = concat (map (low_bits 6) (d # ds)) @ low_bits nbits' data"
      by simp
    moreover have "base64_flush data nbits res = (nbits', res @ map (\<lambda>d. base64Chars ! d) (d # ds))"
      using True run by (simp add: base64_flush.simps [of data nbits res] d_def)
    moreover have "d < 64" by (simp add: d_def digit6_less)
    ultimately show ?thesis using ds n by (intro exI [of _ "d # ds"] exI [of _ nbits']) simp
  qed
qed

lemma base64_encode_loop_correct:
  assumes "nbits < 6"
  shows "\<exists>ds data' nbits'. base64_encode_loop s data nbits res =
      (data', nbits', res @ map (\<lambda>d. base64Chars ! d) ds) \<and>
    (\<forall>d \<in> set ds. d < 64) \<and> nbits' < 6 \<and>
    concat (map (low_bits 6) ds) @ low_bits nbits' data' =
      low_bits nbits data @ concat (map (low_bits 8) s)"
  using assms
proof (induction s arbitrary: data nbits res)
  case Nil
  then show ?case by (intro exI [of _ "[]"]) auto
next
  case (Cons c s)
  let ?data = "push_bit 8 data OR ucast c"
  have feed: "low_bits (nbits + 8) ?data = low_bits nbits data @ low_bits 8 c"
    using Cons.prems by (intro low_bits_feed) (auto dest: bit_byte_bound)
  have "nbits + 8 < 14" using Cons.prems by simp
  from base64_flush_correct [OF this, of ?data res] obtain ds1 n1 where
    f1: "base64_flush ?data (nbits + 8) res = (n1, res @ map (\<lambda>d. base64Chars ! d) ds1)"
    and d1: "\<forall>d \<in> set ds1. d < 64" and n1: "n1 < 6"
    and l1: "low_bits (nbits + 8) ?data = concat (map (low_bits 6) ds1) @ low_bits n1 ?data"
    by blast
  from Cons.IH [OF n1, of ?data "res @ map (\<lambda>d. base64Chars ! d) ds1"] obtain ds2 data' n2 where
    f2: "base64_encode_loop s ?data n1 (res @ map (\<lambda>d. base64Chars ! d) ds1) =
      (data', n2, (res @ map (\<lambda>d. base64Chars ! d) ds1) @ map (\<lambda>d. base64Chars ! d) ds2)"
    and d2: "\<forall>d \<in> set ds2. d < 64" and n2: "n2 < 6"
    and l2: "concat (map (low_bits 6) ds2) @ low_bits n2 data' =
      low_bits n1 ?data @ concat (map (low_bits 8) s)"
    by blast
  have "concat (map (low_bits 6) (ds1 @ ds2)) @ low_bits n2 data' =
      low_bits nbits data @ concat (map (low_bits 8) (c # s))"
    using l1 l2 feed by simp
  then show ?case using f1 f2 d1 d2 n2
    by (intro exI [of _ "ds1 @ ds2"] exI [of _ data'] exI [of _ n2]) auto
qed

lemma base64_encode_digits:
  obtains ds p where "base64_encode s = map (\<lambda>d. base64Chars ! d) ds @ replicate p CHR ''=''"
    and "\<forall>d \<in> set ds. d < 64" and "p < 4" and "length (base64_encode s) mod 4 = 0"
    and "\<exists>t < 6. concat (map (low_bits 6) ds) = concat (map (low_bits 8) s) @ replicate t False"
proof -
  from base64_encode_loop_correct [of 0 s 0 "[]"] obtain ds data n where
    run: "base64_encode_loop s 0 0 [] = (data, n, map (\<lambda>d. base64Chars ! d) ds)"
    and ds: "\<forall>d \<in> set ds. d < 64" and n: "n < 6"
    and low: "concat (map (low_bits 6) ds) @ low_bits n data = concat (map (low_bits 8) s)"
    by auto
  let ?d = "unat (push_bit (6 - n) data AND 0x3f)"
  define ds' where "ds' = (if n = 0 then ds else ds @ [?d])"
  have "low_bits (n + (6 - n)) ?d = low_bits n data @ low_bits (6 - n) (0 :: 32 word)"
    using n by (intro low_bits_split) (auto simp: bit_digit6 bit_push_bit_iff)
  moreover have "low_bits (6 - n) (0 :: 32 word) = replicate (6 - n) False"
    by (rule nth_equalityI) (simp_all add: low_bits_def)
  ultimately have "low_bits 6 ?d = low_bits n data @ replicate (6 - n) False" using n by simp
  then have "\<exists>t < 6. concat (map (low_bits 6) ds') = concat (map (low_bits 8) s) @ replicate t False"
    using low [symmetric] n unfolding ds'_def
    by (cases "n = 0") (auto intro: exI [of _ "0 :: nat"] exI [of _ "6 - n"])
  moreover have enc: "base64_encode s = base64_pad (map (\<lambda>d. base64Chars ! d) ds')"
    by (simp add: base64_encode_def run ds'_def)
  moreover have "\<forall>d \<in> set ds'. d < 64" using ds by (auto simp: ds'_def digit6_less)
  moreover have "length (base64_encode s) mod 4 = 0"
    unfolding enc base64_pad_def by (simp add: mod_simps) presburger
  ultimately show ?thesis
    by (intro that [of ds' "(4 - length ds' mod 4) mod 4"]) (auto simp: base64_pad_def)
qed

lemma length_base64Chars [simp]: "length base64Chars = 64"
  by (simp add: base64Chars_def)

lemma inj_on_base64_codes: "inj_on (\<lambda>i. of_char (base64Chars ! i) :: nat) {..<64}"
proof -
  have "distinct base64Chars" by (simp add: base64Chars_def)
  then show ?thesis by (simp add: inj_on_def nth_eq_iff_index_eq)
qed

lemma base64DecodeChars_digit:
  "d < 64 \<Longrightarrow> base64DecodeChars ! of_char (base64Chars ! d) = of_nat d"
  unfolding base64DecodeChars_def
  by (intro nth_fold_update [OF inj_on_base64_codes]) simp_all

lemma base64Chars_not_special:
  assumes "d < 64"
  shows "base64Chars ! d \<noteq> CHR ''=''" and "base64Chars ! d \<noteq> CHR 0x0A"
proof -
  have "CHR ''='' \<notin> set base64Chars" "CHR 0x0A \<notin> set base64Chars"
    by (simp_all add: base64Chars_def)
  with assms show "base64Chars ! d \<noteq> CHR ''=''" and "base64Chars ! d \<noteq> CHR 0x0A"
    by (metis length_base64Chars nth_mem)+
qed

lemma digit_not_npos: "d < 64 \<Longrightarrow> (of_nat d :: byte) \<noteq> base64_npos"
  by (auto simp: base64_npos_def word_unat_eq_iff unat_of_nat unsigned_minus_1_eq_mask
      mask_eq_exp_minus_1)

text \<open>Decoding digits consumes their bits and emits a byte as soon as eight are there.\<close>

lemma base64_decode_loop_digits:
  assumes "bits < 8" and "\<forall>d \<in> set ds. d < 64"
  shows "\<exists>out d' bits'. base64_decode_loop
      (map (\<lambda>d. base64Chars ! d) ds @ replicate p CHR ''='') d bits res = Inr (res @ out) \<and>
    bits' < 8 \<and> concat (map (low_bits 8) out) @ low_bits bits' (d' :: 32 word) =
      low_bits bits d @ concat (map (low_bits 6) ds)"
  using assms
proof (induction ds arbitrary: d bits res)
  case Nil
  have "base64_decode_loop (replicate p CHR ''='') d bits res = Inr res" by (cases p) simp_all
  with Nil show ?case by (intro exI [of _ "[]"]) auto
next
  case (Cons x ds)
  then have x: "x < 64" and ds: "\<forall>d \<in> set ds. d < 64" by auto
  define e where "e = push_bit 6 d OR ucast (of_nat x :: byte)"
  have hi: "\<not> bit (of_nat x :: byte) t" if "6 \<le> t" for t
    using x that nat_bit_bound [of x 6 t] by (auto simp: bit_of_nat_iff)
  have feed: "low_bits (bits + 6) e = low_bits bits d @ low_bits 6 x"
    using Cons.prems(1) hi low_bits_feed [of bits 6 "of_nat x :: byte" d]
    by (simp add: low_bits_def bit_simps e_def)
  show ?case
  proof (cases "bits + 6 \<ge> 8")
    case True
    define b where "b = (ucast (drop_bit (bits + 6 - 8) e AND 0xff) :: byte)"
    have "bits + 6 - 8 < 8" using Cons.prems(1) by simp
    from Cons.IH [OF this ds, of e "res @ [b]"]
    obtain out d' bits' where run: "base64_decode_loop
        (map (\<lambda>d. base64Chars ! d) ds @ replicate p CHR ''='') e (bits + 6 - 8) (res @ [b]) =
        Inr ((res @ [b]) @ out)" and b': "bits' < 8"
      and low: "concat (map (low_bits 8) out) @ low_bits bits' (d' :: 32 word) =
        low_bits (bits + 6 - 8) e @ concat (map (low_bits 6) ds)" by blast
    have m: "(0xff :: 32 word) = mask 8" by (simp add: mask_eq_decr_exp)
    have "low_bits (8 + (bits + 6 - 8)) e = low_bits 8 b @ low_bits (bits + 6 - 8) e"
      using Cons.prems(1) unfolding b_def m
      by (intro low_bits_split) (auto simp: bit_simps add.commute)
    moreover have "8 + (bits + 6 - 8) = bits + 6" using True by simp
    ultimately have "low_bits bits d @ low_bits 6 x = low_bits 8 b @ low_bits (bits + 6 - 8) e"
      using feed by metis
    with low have
      "concat (map (low_bits 8) (b # out)) @ low_bits bits' d' =
        low_bits bits d @ concat (map (low_bits 6) (x # ds))" by simp
    with True run b' x show ?thesis unfolding e_def b_def
      by (intro exI [of _ "b # out"] exI [of _ d'] exI [of _ bits'])
        (simp add: base64Chars_not_special base64DecodeChars_digit digit_not_npos Let_def
          e_def b_def)
  next
    case False
    then have "bits + 6 < 8" by simp
    from Cons.IH [OF this ds, of e res]
    obtain out d' bits' where run: "base64_decode_loop
        (map (\<lambda>d. base64Chars ! d) ds @ replicate p CHR ''='') e (bits + 6) res = Inr (res @ out)"
      and b': "bits' < 8"
      and low: "concat (map (low_bits 8) out) @ low_bits bits' (d' :: 32 word) =
        low_bits (bits + 6) e @ concat (map (low_bits 6) ds)" by blast
    with False feed x show ?thesis
      by (intro exI [of _ out] exI [of _ d'] exI [of _ bits'])
        (simp add: base64Chars_not_special base64DecodeChars_digit digit_not_npos Let_def
          e_def)
  qed
qed

text \<open>
  Decoding an encoding gives the encoded bytes back, whatever their number: the 32-bit
  accumulators of both loops may wrap but no wrapped bit is read.
\<close>

lemma base64_decode_encode: "base64_decode (base64_encode s) = Inr s"
proof -
  obtain ds p t where enc: "base64_encode s = map (\<lambda>d. base64Chars ! d) ds @ replicate p CHR ''=''"
    and ds: "\<forall>d \<in> set ds. d < 64" and t: "t < 6"
    and low: "concat (map (low_bits 6) ds) = concat (map (low_bits 8) s) @ replicate t False"
    by (rule base64_encode_digits [of s]) auto
  from base64_decode_loop_digits [of 0 ds p 0 "[]"] ds obtain out d' bits' where
    run: "base64_decode (base64_encode s) = Inr out" and b: "bits' < 8"
    and out: "concat (map (low_bits 8) out) @ low_bits bits' (d' :: 32 word) =
      concat (map (low_bits 8) s) @ replicate t False"
    by (auto simp: base64_decode_def enc low)
  have "8 * length out + bits' = 8 * length s + t"
    using arg_cong [OF out, of length] by (simp add: length_concat_low_bits)
  with b t have len: "length out = length s" by simp
  then have "concat (map (low_bits 8) out) = concat (map (low_bits 8) s)"
    using out by (simp add: append_eq_append_conv length_concat_low_bits)
  with len have "out = s" by (rule concat_low_bits_inject)
  with run show ?thesis by simp
qed

section \<open>Lengths\<close>

lemma base64_padded_length:
  assumes "6 * N = 8 * n + t" and "t < 6" and "p < 4" and "(N + p) mod 4 = (0 :: nat)"
  shows "N + p = base64_encodedLength n"
proof -
  define k where "k = n div 3"
  from assms(4) obtain q where q: "N + p = 4 * q" by auto
  consider (a) "n = 3 * k" | (b) "n = 3 * k + 1" | (c) "n = 3 * k + 2"
    unfolding k_def by linarith
  then show ?thesis
  proof cases
    case a
    with assms(1,2) have "N = 4 * k" by simp
    with q assms(3) have "q = k" by simp
    moreover have "(4 * n div 3 + 3) div 4 = k" using a by simp
    ultimately show ?thesis using q by (simp add: base64_encodedLength_def)
  next
    case b
    with assms(1,2) have "N = 4 * k + 2" by simp
    with q assms(3) have "q = k + 1" by simp
    moreover have "4 * n div 3 = 4 * k + 1" using b by simp
    ultimately show ?thesis using q by (simp add: base64_encodedLength_def)
  next
    case c
    with assms(1,2) have "N = 4 * k + 3" by simp
    with q assms(3) have "q = k + 1" by simp
    moreover have "4 * n div 3 = 4 * k + 2" using c by simp
    ultimately show ?thesis using q by (simp add: base64_encodedLength_def)
  qed
qed

lemma length_base64_encode: "length (base64_encode s) = base64_encodedLength (length s)"
proof -
  obtain ds p t where enc: "base64_encode s = map (\<lambda>d. base64Chars ! d) ds @ replicate p CHR ''=''"
    and p: "p < 4" and m: "length (base64_encode s) mod 4 = 0" and t: "t < 6"
    and low: "concat (map (low_bits 6) ds) = concat (map (low_bits 8) s) @ replicate t False"
    by (rule base64_encode_digits [of s]) auto
  have "6 * length ds = 8 * length s + t"
    using arg_cong [OF low, of length] by (simp add: length_concat_low_bits)
  from base64_padded_length [OF this t p] m show ?thesis by (simp add: enc)
qed

text \<open>Neither encoding produces the separators of a hash prefix.\<close>

lemma base16_encode_chars: "set (base16_encode bs) \<subseteq> set base16Chars"
proof -
  have "unat (drop_bit 4 x) < 16" "unat (x AND 0x0f) < 16" for x :: byte
    using nibble_bounds [of x] by (simp_all add: word_less_nat_alt)
  moreover have "length base16Chars = 16" by (simp add: base16Chars_def)
  ultimately show ?thesis unfolding base16_encode_def by (auto simp del: set_concat simp: set_concat)
qed

lemma base64_encode_chars: "set (base64_encode bs) \<subseteq> insert CHR ''='' (set base64Chars)"
proof -
  obtain ds p where "base64_encode bs = map (\<lambda>d. base64Chars ! d) ds @ replicate p CHR ''=''"
    and "\<forall>d \<in> set ds. d < 64"
    by (rule base64_encode_digits [of bs]) auto
  then show ?thesis by (auto split: if_splits)
qed

end
