(* ===== verification/Experimental_Features.thy ===== *)
theory Experimental_Features
  imports Prelude
begin

text \<open>
  Experimental features (\<^verbatim>\<open>libutil/experimental-features.cc\<close> and \<^verbatim>\<open>.hh\<close>, and
  \<^verbatim>\<open>ExperimentalFeatureSettings\<close> at the end of \<^verbatim>\<open>libutil/configuration.cc\<close>): the enum, its
  table of names, parsing and printing by that table, and the check that operations on an
  experimental feature make first.
\<close>

section \<open>The enum and its table\<close>

datatype ExperimentalFeature =
    CaDerivations
  | ImpureDerivations
  | Flakes
  | FetchTree
  | NixCommand
  | GitHashing
  | RecursiveNix
  | FetchClosure
  | AutoAllocateUids
  | Cgroups
  | DaemonTrustOverride
  | DynamicDerivations
  | ParseTomlTimestamps
  | ReadOnlyLocalStore
  | LocalOverlayStore
  | ConfigurableImpureEnv
  | MountedSSHStore
  | VerifiedFetches
  | PipeOperators
  | ExternalBuilders
  | BLAKE3Hashes

text \<open>The enum value as the index it is cast to.\<close>

fun xp_index :: "ExperimentalFeature \<Rightarrow> nat" where
  "xp_index CaDerivations = 0"
| "xp_index ImpureDerivations = 1"
| "xp_index Flakes = 2"
| "xp_index FetchTree = 3"
| "xp_index NixCommand = 4"
| "xp_index GitHashing = 5"
| "xp_index RecursiveNix = 6"
| "xp_index FetchClosure = 7"
| "xp_index AutoAllocateUids = 8"
| "xp_index Cgroups = 9"
| "xp_index DaemonTrustOverride = 10"
| "xp_index DynamicDerivations = 11"
| "xp_index ParseTomlTimestamps = 12"
| "xp_index ReadOnlyLocalStore = 13"
| "xp_index LocalOverlayStore = 14"
| "xp_index ConfigurableImpureEnv = 15"
| "xp_index MountedSSHStore = 16"
| "xp_index VerifiedFetches = 17"
| "xp_index PipeOperators = 18"
| "xp_index ExternalBuilders = 19"
| "xp_index BLAKE3Hashes = 20"

text \<open>Tag and name of each entry; the documentation texts of the table are left out.\<close>

definition xpFeatureDetails :: "(ExperimentalFeature \<times> string) list" where
  "xpFeatureDetails =
    [(CaDerivations, ''ca-derivations''),
     (ImpureDerivations, ''impure-derivations''),
     (Flakes, ''flakes''),
     (FetchTree, ''fetch-tree''),
     (NixCommand, ''nix-command''),
     (GitHashing, ''git-hashing''),
     (RecursiveNix, ''recursive-nix''),
     (FetchClosure, ''fetch-closure''),
     (AutoAllocateUids, ''auto-allocate-uids''),
     (Cgroups, ''cgroups''),
     (DaemonTrustOverride, ''daemon-trust-override''),
     (DynamicDerivations, ''dynamic-derivations''),
     (ParseTomlTimestamps, ''parse-toml-timestamps''),
     (ReadOnlyLocalStore, ''read-only-local-store''),
     (LocalOverlayStore, ''local-overlay-store''),
     (ConfigurableImpureEnv, ''configurable-impure-env''),
     (MountedSSHStore, ''mounted-ssh-store''),
     (VerifiedFetches, ''verified-fetches''),
     (PipeOperators, ''pipe-operators''),
     (ExternalBuilders, ''external-builders''),
     (BLAKE3Hashes, ''blake3-hashes'')]"

definition parseExperimentalFeature :: "string \<Rightarrow> ExperimentalFeature option" where
  "parseExperimentalFeature name =
     (fold (\<lambda>(tag, nm) m. m(nm \<mapsto> tag)) xpFeatureDetails Map.empty) name"

definition showExperimentalFeature :: "ExperimentalFeature \<Rightarrow> string result" where
  "showExperimentalFeature tag =
     result_bind (ensure (xp_index tag < length xpFeatureDetails)
       (AssertionFailed ''tag < xpFeatureDetails.size()'')) (\<lambda>_.
       Inr (snd (xpFeatureDetails ! xp_index tag)))"

definition parseFeatures :: "string list \<Rightarrow> ExperimentalFeature set" where
  "parseFeatures rawFeatures =
     fold (\<lambda>raw res. case parseExperimentalFeature raw of
         None \<Rightarrow> res | Some feature \<Rightarrow> insert feature res) rawFeatures {}"

section \<open>Settings\<close>

text \<open>\<^verbatim>\<open>ExperimentalFeatureSettings\<close>: the enabled features.\<close>

record ExperimentalFeatureSettings =
  experimentalFeatures :: "ExperimentalFeature list"

definition xp_isEnabled :: "ExperimentalFeatureSettings \<Rightarrow> ExperimentalFeature \<Rightarrow> bool" where
  "xp_isEnabled s feature = (feature \<in> set (experimentalFeatures s))"

definition xp_require :: "ExperimentalFeatureSettings \<Rightarrow> ExperimentalFeature \<Rightarrow> unit result" where
  "xp_require s feature =
     ensure (xp_isEnabled s feature)
       (MissingExperimentalFeature (snd (xpFeatureDetails ! xp_index feature)))"

definition xp_isEnabled_opt :: "ExperimentalFeatureSettings \<Rightarrow> ExperimentalFeature option \<Rightarrow> bool" where
  "xp_isEnabled_opt s feature = (case feature of None \<Rightarrow> True | Some f \<Rightarrow> xp_isEnabled s f)"

definition xp_require_opt :: "ExperimentalFeatureSettings \<Rightarrow> ExperimentalFeature option \<Rightarrow> unit result" where
  "xp_require_opt s feature = (case feature of None \<Rightarrow> Inr () | Some f \<Rightarrow> xp_require s f)"

section \<open>Table and enum agree\<close>

text \<open>The \<^verbatim>\<open>static_assert\<close> that the array order matches the enum order.\<close>

lemma xpFeatureDetails_order:
  "xp_index tag < length xpFeatureDetails \<and> fst (xpFeatureDetails ! xp_index tag) = tag"
  by (cases tag) (simp_all add: xpFeatureDetails_def)

lemma distinct_feature_names: "distinct (map snd xpFeatureDetails)"
  by (simp add: xpFeatureDetails_def)

lemma distinct_feature_tags: "distinct (map fst xpFeatureDetails)"
  by (simp add: xpFeatureDetails_def)

lemma parseExperimentalFeature_Some_iff:
  "parseExperimentalFeature name = Some tag \<longleftrightarrow> (tag, name) \<in> set xpFeatureDetails"
proof -
  have inv: "fold (\<lambda>(tag, nm) m. m(nm \<mapsto> tag)) xs m nm = Some t \<longleftrightarrow>
      (t, nm) \<in> set xs \<or> nm \<notin> snd ` set xs \<and> m nm = Some t"
    if "distinct (map snd xs)" for xs and m :: "string \<rightharpoonup> ExperimentalFeature" and nm t
    using that by (induction xs arbitrary: m) (force split: prod.splits)+
  show ?thesis
    using inv [OF distinct_feature_names] by (simp add: parseExperimentalFeature_def)
qed

text \<open>
  printing a feature always succeeds and parsing what it printed gives the feature
  back, and parsing accepts nothing but the printed names.
\<close>

theorem experimental_feature_roundtrip:
  "\<exists>s. showExperimentalFeature tag = Inr s \<and>
     (\<forall>name. parseExperimentalFeature name = Some tag \<longleftrightarrow> name = s)"
proof -
  let ?s = "snd (xpFeatureDetails ! xp_index tag)"
  have mem: "(tag, ?s) \<in> set xpFeatureDetails"
  proof -
    obtain t n where e: "xpFeatureDetails ! xp_index tag = (t, n)" by fastforce
    with xpFeatureDetails_order [of tag] nth_mem [of "xp_index tag" xpFeatureDetails]
    show ?thesis by simp
  qed
  have only: "name = ?s" if "(tag, name) \<in> set xpFeatureDetails" for name
    using eq_key_imp_eq_value [OF distinct_feature_tags that mem] .
  have shown: "showExperimentalFeature tag = Inr ?s"
    using xpFeatureDetails_order [of tag] by (simp add: showExperimentalFeature_def)
  have "parseExperimentalFeature name = Some tag \<longleftrightarrow> name = ?s" for name
    unfolding parseExperimentalFeature_Some_iff
  proof
    show "(tag, name) \<in> set xpFeatureDetails" if "name = ?s"
      unfolding that by (rule mem)
  qed (rule only)
  with shown show ?thesis by (intro exI [of _ ?s] conjI allI)
qed

end
