(* ===== verification/Hash.thy ===== *)
theory Hash
  imports Base_Nix32 Base_N Experimental_Features
begin

unbundle bit_operations_syntax

text \<open>
  Hashes (\<^verbatim>\<open>libutil/hash.cc\<close>, \<^verbatim>\<open>hash.hh\<close>): the hash value with its 64-byte buffer, printing
  and parsing in the four formats, equality and order, compression, and hashing itself
  with the digest functions of the cryptographic libraries as a parameter.
\<close>

section \<open>Types\<close>

datatype HashAlgorithm = MD5 | SHA1 | SHA256 | SHA512 | BLAKE3

datatype HashFormat = Base64 | Nix32 | Base16 | SRI

record Hash =
  hashSize :: nat
  hash :: bytes
  algo :: HashAlgorithm

definition maxHashSize :: nat where
  "maxHashSize = 64"

fun regularHashSize :: "HashAlgorithm \<Rightarrow> nat" where
  "regularHashSize BLAKE3 = 32"
| "regularHashSize MD5 = 16"
| "regularHashSize SHA1 = 20"
| "regularHashSize SHA256 = 32"
| "regularHashSize SHA512 = 64"

text \<open>The underlying value of the enum, which \<^verbatim>\<open><=>\<close> compares.\<close>

fun HashAlgorithm_value :: "HashAlgorithm \<Rightarrow> nat" where
  "HashAlgorithm_value MD5 = 42"
| "HashAlgorithm_value SHA1 = 43"
| "HashAlgorithm_value SHA256 = 44"
| "HashAlgorithm_value SHA512 = 45"
| "HashAlgorithm_value BLAKE3 = 46"

section \<open>Construction, equality, order\<close>

definition Hash_new :: "HashAlgorithm \<Rightarrow> ExperimentalFeatureSettings \<Rightarrow> Hash result" where
  "Hash_new a xpSettings =
     result_bind (if a = BLAKE3 then xp_require xpSettings BLAKE3Hashes else Inr ()) (\<lambda>_.
     result_bind (ensure (regularHashSize a \<le> maxHashSize) (AssertionFailed ''hashSize <= maxHashSize'')) (\<lambda>_.
       Inr \<lparr>hashSize = regularHashSize a, hash = replicate maxHashSize 0, algo = a\<rparr>))"

definition Hash_eq :: "Hash \<Rightarrow> Hash \<Rightarrow> bool" where
  "Hash_eq h1 h2 =
     (if hashSize h1 \<noteq> hashSize h2 then False
      else list_all (\<lambda>i. hash h1 ! i = hash h2 ! i) [0..<hashSize h1])"

text \<open>\<^verbatim>\<open>std::strong_ordering\<close>.\<close>

datatype strong_ordering = Less | Equivalent | Greater

definition compare_nat :: "nat \<Rightarrow> nat \<Rightarrow> strong_ordering" where
  "compare_nat a b = (if a < b then Less else if a = b then Equivalent else Greater)"

fun compare_bytes_loop :: "bytes \<Rightarrow> bytes \<Rightarrow> nat list \<Rightarrow> strong_ordering" where
  "compare_bytes_loop as bs [] = Equivalent"
| "compare_bytes_loop as bs (i # is) =
     (case compare_nat (unat (as ! i)) (unat (bs ! i)) of
        Equivalent \<Rightarrow> compare_bytes_loop as bs is
      | c \<Rightarrow> c)"

definition Hash_compare :: "Hash \<Rightarrow> Hash \<Rightarrow> strong_ordering" where
  "Hash_compare h1 h2 =
     (case compare_nat (hashSize h1) (hashSize h2) of
        Equivalent \<Rightarrow>
          (case compare_bytes_loop (hash h1) (hash h2) [0..<hashSize h1] of
             Equivalent \<Rightarrow> compare_nat (HashAlgorithm_value (algo h1)) (HashAlgorithm_value (algo h2))
           | c \<Rightarrow> c)
      | c \<Rightarrow> c)"

section \<open>Names of algorithms and formats\<close>

fun printHashAlgo :: "HashAlgorithm \<Rightarrow> string" where
  "printHashAlgo BLAKE3 = ''blake3''"
| "printHashAlgo MD5 = ''md5''"
| "printHashAlgo SHA1 = ''sha1''"
| "printHashAlgo SHA256 = ''sha256''"
| "printHashAlgo SHA512 = ''sha512''"

definition parseHashAlgoOpt ::
  "string \<Rightarrow> ExperimentalFeatureSettings \<Rightarrow> HashAlgorithm option result" where
  "parseHashAlgoOpt s xpSettings =
     (if s = ''blake3'' then
        result_bind (xp_require xpSettings BLAKE3Hashes) (\<lambda>_. Inr (Some BLAKE3))
      else if s = ''md5'' then Inr (Some MD5)
      else if s = ''sha1'' then Inr (Some SHA1)
      else if s = ''sha256'' then Inr (Some SHA256)
      else if s = ''sha512'' then Inr (Some SHA512)
      else Inr None)"

definition parseHashAlgo :: "string \<Rightarrow> ExperimentalFeatureSettings \<Rightarrow> HashAlgorithm result" where
  "parseHashAlgo s xpSettings =
     result_bind (parseHashAlgoOpt s xpSettings) (\<lambda>opt_h.
       case opt_h of Some h \<Rightarrow> Inr h | None \<Rightarrow> Inl (UsageError ''unknown hash algorithm''))"

fun printHashFormat :: "HashFormat \<Rightarrow> string" where
  "printHashFormat Base64 = ''base64''"
| "printHashFormat Nix32 = ''nix32''"
| "printHashFormat Base16 = ''base16''"
| "printHashFormat SRI = ''sri''"

definition parseHashFormatOpt :: "string \<Rightarrow> HashFormat option" where
  "parseHashFormatOpt hashFormatName =
     (if hashFormatName = ''base16'' then Some Base16
      else if hashFormatName = ''nix32'' then Some Nix32
      else if hashFormatName = ''base32'' then Some Nix32
      else if hashFormatName = ''base64'' then Some Base64
      else if hashFormatName = ''sri'' then Some SRI
      else None)"

definition parseHashFormat :: "string \<Rightarrow> HashFormat result" where
  "parseHashFormat hashFormatName =
     (case parseHashFormatOpt hashFormatName of
        Some f \<Rightarrow> Inr f | None \<Rightarrow> Inl (UsageError ''unknown hash format''))"

section \<open>Printing\<close>

definition hash_bytes :: "Hash \<Rightarrow> bytes" where
  "hash_bytes h = take (hashSize h) (hash h)"

definition Hash_to_string :: "Hash \<Rightarrow> HashFormat \<Rightarrow> bool \<Rightarrow> string result" where
  "Hash_to_string h hashFormat includeAlgo =
     (let s = (if hashFormat = SRI \<or> includeAlgo
               then printHashAlgo (algo h) @ (if hashFormat = SRI then ''-'' else '':'') else [])
      in result_bind (ensure (hashSize h \<noteq> 0) (AssertionFailed ''hashSize'')) (\<lambda>_.
        Inr (s @ (case hashFormat of
             Base16 \<Rightarrow> base16_encode (hash_bytes h)
           | Nix32 \<Rightarrow> BaseNix32_encode (hash_bytes h)
           | Base64 \<Rightarrow> base64_encode (hash_bytes h)
           | SRI \<Rightarrow> base64_encode (hash_bytes h)))))"

definition Hash_gitRev :: "Hash \<Rightarrow> string result" where
  "Hash_gitRev h = Hash_to_string h Base16 False"

definition Hash_gitShortRev :: "Hash \<Rightarrow> string result" where
  "Hash_gitShortRev h = result_bind (Hash_to_string h Base16 False) (\<lambda>s. Inr (take 7 s))"

section \<open>Parsing\<close>

text \<open>\<^verbatim>\<open>baseExplicit\<close>: the decoder of a format; SRI is \<^verbatim>\<open>unreachable()\<close>.\<close>

fun baseExplicit :: "HashFormat \<Rightarrow> (string \<Rightarrow> bytes result) result" where
  "baseExplicit Base16 = Inr base16_decode"
| "baseExplicit Nix32 = Inr BaseNix32_decode"
| "baseExplicit Base64 = Inr base64_decode"
| "baseExplicit SRI = Inl (AssertionFailed ''unreachable'')"

definition baseFromSize :: "string \<Rightarrow> HashAlgorithm \<Rightarrow> HashFormat result" where
  "baseFromSize rest a =
     (if length rest = base16_encodedLength (regularHashSize a) then Inr Base16
      else if length rest = BaseNix32_encodedLength (regularHashSize a) then Inr Nix32
      else if length rest = base64_encodedLength (regularHashSize a) then Inr Base64
      else Inl (BadHash ''wrong length for hash algorithm''))"

text \<open>
  The \<^verbatim>\<open>catch (Error & e)\<close> adds a trace but does not rethrow, so after a decoding error the
  code goes on with the empty string; a failing assertion is not an \<^verbatim>\<open>Error\<close> and aborts.
\<close>

definition swallow_error :: "bytes result \<Rightarrow> bytes result" where
  "swallow_error r = (case r of
     Inl (AssertionFailed m) \<Rightarrow> Inl (AssertionFailed m) | Inl _ \<Rightarrow> Inr [] | Inr d \<Rightarrow> Inr d)"

definition parseLowLevel ::
  "string \<Rightarrow> HashAlgorithm \<Rightarrow> (string \<Rightarrow> bytes result) \<Rightarrow> ExperimentalFeatureSettings \<Rightarrow> Hash result" where
  "parseLowLevel rest a decode xpSettings =
     result_bind (Hash_new a xpSettings) (\<lambda>res.
     result_bind (swallow_error (decode rest)) (\<lambda>d.
     result_bind (ensure (length d = hashSize res) (BadHash ''invalid hash length'')) (\<lambda>_.
     result_bind (ensure (hashSize res \<noteq> 0) (AssertionFailed ''res.hashSize'')) (\<lambda>_.
       Inr (res\<lparr>hash := d @ drop (hashSize res) (hash res)\<rparr>)))))"

definition Hash_parseSRI :: "string \<Rightarrow> ExperimentalFeatureSettings \<Rightarrow> Hash result" where
  "Hash_parseSRI original xpSettings =
     (case splitPrefixTo original CHR ''-'' of
        None \<Rightarrow> Inl (BadHash ''hash is not SRI'')
      | Some (hashRaw, rest) \<Rightarrow>
          result_bind (parseHashAlgo hashRaw xpSettings) (\<lambda>parsedType.
            parseLowLevel rest parsedType base64_decode xpSettings))"

text \<open>
  The type prefix of \<^verbatim>\<open>parseAnyHelper\<close>: before a colon, or before a dash, which makes it
  an SRI hash; what is left of the view; and whether it is SRI.
\<close>

definition split_hash_prefix :: "string \<Rightarrow> string option \<times> string \<times> bool" where
  "split_hash_prefix rest =
     (case splitPrefixTo rest CHR '':'' of
        Some (hashRaw, rest') \<Rightarrow> (Some hashRaw, rest', False)
      | None \<Rightarrow>
          (case splitPrefixTo rest CHR ''-'' of
             Some (hashRaw, rest') \<Rightarrow> (Some hashRaw, rest', True)
           | None \<Rightarrow> (None, rest, False)))"

definition parseAnyHelper ::
  "ExperimentalFeatureSettings \<Rightarrow> string \<Rightarrow> (HashAlgorithm option \<Rightarrow> HashAlgorithm result) \<Rightarrow>
     (Hash \<times> HashFormat) result" where
  "parseAnyHelper xp original resolveAlgo =
     (case split_hash_prefix original of (hashRaw, rest, isSRI) \<Rightarrow>
        result_bind (case hashRaw of None \<Rightarrow> Inr None
          | Some raw \<Rightarrow> result_bind (parseHashAlgo raw xp) (\<lambda>a. Inr (Some a))) (\<lambda>optParsedAlgo.
        result_bind (resolveAlgo optParsedAlgo) (\<lambda>a.
        result_bind (if isSRI then Inr (base64_decode, SRI)
          else result_bind (baseFromSize rest a) (\<lambda>format.
            result_bind (baseExplicit format) (\<lambda>decode. Inr (decode, format))))
          (\<lambda>(decode, format).
            result_bind (parseLowLevel rest a decode xp) (\<lambda>h. Inr (h, format))))))"

definition Hash_parseAnyPrefixed :: "ExperimentalFeatureSettings \<Rightarrow> string \<Rightarrow> Hash result" where
  "Hash_parseAnyPrefixed xp original =
     result_bind (parseAnyHelper xp original (\<lambda>optParsedAlgo. case optParsedAlgo of
         None \<Rightarrow> Inl (BadHash ''hash does not include a type'')
       | Some a \<Rightarrow> Inr a)) (\<lambda>(h, _). Inr h)"

definition Hash_parseAnyReturningFormat ::
  "ExperimentalFeatureSettings \<Rightarrow> string \<Rightarrow> HashAlgorithm option \<Rightarrow> (Hash \<times> HashFormat) result" where
  "Hash_parseAnyReturningFormat xp original optAlgo =
     parseAnyHelper xp original (\<lambda>optParsedAlgo.
       if optParsedAlgo = None \<and> optAlgo = None then
         Inl (BadHash ''hash does not include a type, nor is the type otherwise known'')
       else if optParsedAlgo \<noteq> None \<and> optAlgo \<noteq> None \<and> optParsedAlgo \<noteq> optAlgo then
         Inl (BadHash ''hash should have another type'')
       else (case optParsedAlgo of Some a \<Rightarrow> Inr a | None \<Rightarrow> Inr (the optAlgo)))"

definition Hash_parseAny ::
  "ExperimentalFeatureSettings \<Rightarrow> string \<Rightarrow> HashAlgorithm option \<Rightarrow> Hash result" where
  "Hash_parseAny xp original optAlgo =
     result_bind (Hash_parseAnyReturningFormat xp original optAlgo) (\<lambda>(h, _). Inr h)"

definition Hash_parseExplicitFormatUnprefixed ::
  "string \<Rightarrow> HashAlgorithm \<Rightarrow> HashFormat \<Rightarrow> ExperimentalFeatureSettings \<Rightarrow> Hash result" where
  "Hash_parseExplicitFormatUnprefixed s a format xpSettings =
     result_bind (baseExplicit format) (\<lambda>decode. parseLowLevel s a decode xpSettings)"

definition Hash_parseNonSRIUnprefixed ::
  "ExperimentalFeatureSettings \<Rightarrow> string \<Rightarrow> HashAlgorithm \<Rightarrow> Hash result" where
  "Hash_parseNonSRIUnprefixed xp s a =
     result_bind (baseFromSize s a) (\<lambda>format.
       Hash_parseExplicitFormatUnprefixed s a format xp)"

definition newHashAllowEmpty ::
  "ExperimentalFeatureSettings \<Rightarrow> string \<Rightarrow> HashAlgorithm option \<Rightarrow> Hash result" where
  "newHashAllowEmpty xp hashStr ha =
     (if hashStr = [] then
        (case ha of None \<Rightarrow> Inl (BadHash ''empty hash requires explicit hash algorithm'')
         | Some a \<Rightarrow> Hash_new a xp)
      else Hash_parseAny xp hashStr ha)"

section \<open>Hashing and compression\<close>

text \<open>
  \<^verbatim>\<open>hashString\<close>: \<open>digest\<close> stands for the start, update and finish calls of the
  cryptographic library of the algorithm.
\<close>

definition hashString ::
  "(HashAlgorithm \<Rightarrow> bytes \<Rightarrow> bytes) \<Rightarrow> HashAlgorithm \<Rightarrow> bytes \<Rightarrow>
     ExperimentalFeatureSettings \<Rightarrow> Hash result" where
  "hashString digest ha s xpSettings =
     result_bind (Hash_new ha xpSettings) (\<lambda>h.
       let d = digest ha s in Inr (h\<lparr>hash := d @ drop (length d) (hash h)\<rparr>))"

definition compressHash :: "ExperimentalFeatureSettings \<Rightarrow> Hash \<Rightarrow> nat \<Rightarrow> Hash result" where
  "compressHash xp h newSize =
     result_bind (Hash_new (algo h) xp) (\<lambda>h'.
     result_bind (ensure (newSize \<noteq> 0 \<or> hashSize h = 0) (AssertionFailed ''modulo zero'')) (\<lambda>_.
       Inr (h'\<lparr>hashSize := newSize,
               hash := fold (\<lambda>i a. a[i mod newSize := a ! (i mod newSize) XOR hash h ! i])
                 [0..<hashSize h] (hash h')\<rparr>)))"

section \<open>Well-formed hashes\<close>

text \<open>
  What the constructor, the parsers and \<^verbatim>\<open>hashString\<close> establish: the size is that of the
  algorithm and the rest of the 64-byte buffer is zero.
\<close>

definition hash_wf :: "Hash \<Rightarrow> bool" where
  "hash_wf h \<longleftrightarrow> hashSize h = regularHashSize (algo h) \<and> length (hash h) = maxHashSize \<and>
     drop (hashSize h) (hash h) = replicate (maxHashSize - hashSize h) 0"

definition algo_enabled :: "ExperimentalFeatureSettings \<Rightarrow> HashAlgorithm \<Rightarrow> bool" where
  "algo_enabled xp a \<longleftrightarrow> a = BLAKE3 \<longrightarrow> xp_isEnabled xp BLAKE3Hashes"

lemma regularHashSize_bounds: "0 < regularHashSize a" "regularHashSize a \<le> maxHashSize"
  by (cases a; simp add: maxHashSize_def)+

lemma Hash_new_enabled:
  "algo_enabled xp a \<Longrightarrow> Hash_new a xp =
     Inr \<lparr>hashSize = regularHashSize a, hash = replicate maxHashSize 0, algo = a\<rparr>"
  by (simp add: Hash_new_def algo_enabled_def xp_require_def regularHashSize_bounds)

lemma Hash_new_Inr:
  "Hash_new a xp = Inr h \<Longrightarrow>
     h = \<lparr>hashSize = regularHashSize a, hash = replicate maxHashSize 0, algo = a\<rparr> \<and> algo_enabled xp a"
  by (auto simp: Hash_new_def algo_enabled_def xp_require_def result_simps split: if_splits)

lemma hash_wf_bytes:
  assumes "hash_wf h"
  shows "length (hash_bytes h) = regularHashSize (algo h)"
    and "hash h = hash_bytes h @ replicate (maxHashSize - hashSize h) 0"
proof -
  from assms have "drop (hashSize h) (hash h) = replicate (maxHashSize - hashSize h) 0"
    unfolding hash_wf_def by blast
  then show "hash h = hash_bytes h @ replicate (maxHashSize - hashSize h) 0"
    unfolding hash_bytes_def by (metis append_take_drop_id)
  show "length (hash_bytes h) = regularHashSize (algo h)"
    using assms by (simp add: hash_wf_def hash_bytes_def regularHashSize_bounds)
qed

lemma parseLowLevel_decoded:
  assumes "hash_wf h" and "algo_enabled xp (algo h)" and "decode rest = Inr (hash_bytes h)"
  shows "parseLowLevel rest (algo h) decode xp = Inr h"
  using assms hash_wf_bytes [OF assms(1)] regularHashSize_bounds(1) [of "algo h"]
  by (cases h) (auto simp: parseLowLevel_def Hash_new_enabled swallow_error_def hash_wf_def)

lemma parseLowLevel_wf:
  assumes "parseLowLevel rest a decode xp = Inr h"
  shows "hash_wf h \<and> algo h = a"
  using assms regularHashSize_bounds [of a]
  by (auto simp: parseLowLevel_def result_simps hash_wf_def dest!: Hash_new_Inr)

lemma parseHashAlgo_print:
  "algo_enabled xp a \<Longrightarrow> parseHashAlgo (printHashAlgo a) xp = Inr a"
  by (cases a) (simp_all add: parseHashAlgo_def parseHashAlgoOpt_def algo_enabled_def xp_require_def)

section \<open>Printing, then parsing\<close>

text \<open>The three plain encodings of a hash, by format.\<close>

definition encode_as :: "HashFormat \<Rightarrow> bytes \<Rightarrow> string" where
  "encode_as f bs = (case f of Base16 \<Rightarrow> base16_encode bs | Nix32 \<Rightarrow> BaseNix32_encode bs
     | Base64 \<Rightarrow> base64_encode bs | SRI \<Rightarrow> base64_encode bs)"

lemma encode_as_no_separator: "CHR '':'' \<notin> set (encode_as f bs)" "CHR ''-'' \<notin> set (encode_as f bs)"
  using base16_encode_chars [of bs] BaseNix32_encode_chars [of bs] base64_encode_chars [of bs]
  by (auto simp: encode_as_def base16Chars_def BaseNix32_characters_def base64Chars_def
      split: HashFormat.splits)

lemma baseFromSize_encode_as:
  assumes "length bs = regularHashSize a" and "f \<noteq> SRI"
  shows "baseFromSize (encode_as f bs) a = Inr f"
proof -
  have "bs \<noteq> []" using assms(1) regularHashSize_bounds(1) [of a] by auto
  with assms show ?thesis
    by (cases f; cases a)
      (simp_all add: baseFromSize_def encode_as_def length_base16_encode length_BaseNix32_encode
        length_base64_encode base16_encodedLength_def BaseNix32_encodedLength_def
        base64_encodedLength_def)
qed

lemma baseExplicit_encode_as:
  assumes "f \<noteq> SRI"
  obtains decode where "baseExplicit f = Inr decode" and "decode (encode_as f bs) = Inr bs"
  using assms
  by (cases f) (simp_all add: encode_as_def base16_decode_encode BaseNix32_decode_encode
      base64_decode_encode)

lemma Hash_to_string_eq:
  assumes "hash_wf h"
  shows "Hash_to_string h f includeAlgo = Inr ((if f = SRI then printHashAlgo (algo h) @ ''-''
     else if includeAlgo then printHashAlgo (algo h) @ '':'' else []) @ encode_as f (hash_bytes h))"
  using assms regularHashSize_bounds(1) [of "algo h"]
  by (cases f) (simp_all add: Hash_to_string_def encode_as_def hash_wf_def)

lemma printHashAlgo_no_separator:
  "CHR '':'' \<notin> set (printHashAlgo a)" "CHR ''-'' \<notin> set (printHashAlgo a)"
  by (cases a; simp)+

lemma split_hash_prefix_printed:
  "split_hash_prefix (printHashAlgo a @ ''-'' @ encode_as SRI bs) = (Some (printHashAlgo a), encode_as SRI bs, True)"
  "split_hash_prefix (printHashAlgo a @ '':'' @ encode_as f bs) = (Some (printHashAlgo a), encode_as f bs, False)"
  "split_hash_prefix (encode_as f bs) = (None, encode_as f bs, False)"
proof -
  have "splitPrefixTo (printHashAlgo a @ ''-'' @ encode_as SRI bs) CHR '':'' = None"
    by (simp add: splitPrefixTo_None_iff printHashAlgo_no_separator encode_as_no_separator)
  moreover have "splitPrefixTo (encode_as f bs) c = None" if "c = CHR '':'' \<or> c = CHR ''-''" for c
    using that by (auto simp: splitPrefixTo_None_iff encode_as_no_separator)
  ultimately show
    "split_hash_prefix (printHashAlgo a @ ''-'' @ encode_as SRI bs) = (Some (printHashAlgo a), encode_as SRI bs, True)"
    "split_hash_prefix (printHashAlgo a @ '':'' @ encode_as f bs) = (Some (printHashAlgo a), encode_as f bs, False)"
    "split_hash_prefix (encode_as f bs) = (None, encode_as f bs, False)"
    by (simp_all add: split_hash_prefix_def printHashAlgo_no_separator)
qed

text \<open>Whatever resolves the type to the hash's own, the parser rebuilds hash and format.\<close>

lemma parseAnyHelper_printed:
  assumes wf: "hash_wf h" and en: "algo_enabled xp (algo h)"
    and s: "Hash_to_string h f includeAlgo = Inr s"
    and resolve: "resolve (if f = SRI \<or> includeAlgo then Some (algo h) else None) = Inr (algo h)"
  shows "parseAnyHelper xp s resolve = Inr (h, f)"
proof (cases "f = SRI")
  case True
  have "base64_decode (encode_as SRI (hash_bytes h)) = Inr (hash_bytes h)"
    by (simp add: encode_as_def base64_decode_encode)
  moreover from True s have "s = printHashAlgo (algo h) @ ''-'' @ encode_as SRI (hash_bytes h)"
    by (simp add: Hash_to_string_eq [OF wf])
  ultimately show ?thesis
    using True resolve en
    by (simp add: parseAnyHelper_def split_hash_prefix_printed [simplified] parseHashAlgo_print
        parseLowLevel_decoded [OF wf])
next
  case False
  obtain decode where d: "baseExplicit f = Inr decode"
    "decode (encode_as f (hash_bytes h)) = Inr (hash_bytes h)"
    by (rule baseExplicit_encode_as [OF False, of "hash_bytes h"])
  from False s have "s = (if includeAlgo then printHashAlgo (algo h) @ '':'' else []) @ encode_as f (hash_bytes h)"
    by (simp add: Hash_to_string_eq [OF wf])
  with False resolve en d show ?thesis
    by (cases includeAlgo)
      (simp_all add: parseAnyHelper_def split_hash_prefix_printed [simplified] parseHashAlgo_print
        baseFromSize_encode_as [OF hash_wf_bytes(1) [OF wf]] parseLowLevel_decoded [OF wf])
qed

lemma Hash_parse_printed:
  assumes "hash_wf h" and "algo_enabled xp (algo h)" and "Hash_to_string h f includeAlgo = Inr s"
    and "optAlgo = Some (algo h) \<or> optAlgo = None \<and> (f = SRI \<or> includeAlgo)"
  shows "Hash_parseAnyReturningFormat xp s optAlgo = Inr (h, f)"
  unfolding Hash_parseAnyReturningFormat_def
  by (rule parseAnyHelper_printed [OF assms(1-3)]) (use assms(4) in auto)

text \<open>Every hash the parser returns is well formed and of an enabled algorithm.\<close>

lemma parseAnyHelper_wf:
  "parseAnyHelper xp s resolve = Inr (h, f) \<Longrightarrow> hash_wf h \<and> algo_enabled xp (algo h)"
  by (auto simp: parseAnyHelper_def result_simps parseLowLevel_def hash_wf_def
      regularHashSize_bounds dest!: Hash_new_Inr split: prod.splits)

text \<open>The zero hash of the constructor, and the hash of a string.\<close>

lemma Hash_new_wf: "Hash_new a xp = Inr h \<Longrightarrow> hash_wf h \<and> algo h = a"
  by (auto simp: hash_wf_def regularHashSize_bounds dest!: Hash_new_Inr)

lemma hashString_wf:
  assumes "\<And>s. length (digest ha s) = regularHashSize ha"
    and "hashString digest ha s xp = Inr h"
  shows "hash_wf h \<and> algo h = ha \<and> hash_bytes h = digest ha s"
  using assms regularHashSize_bounds(2) [of ha]
  by (auto simp: hashString_def result_simps hash_wf_def hash_bytes_def Let_def dest!: Hash_new_Inr)

section \<open>Equality and order\<close>

lemma compare_nat_iff [simp]:
  "compare_nat a b = Equivalent \<longleftrightarrow> a = b"
  "compare_nat a b = Less \<longleftrightarrow> a < b"
  "compare_nat a b = Greater \<longleftrightarrow> b < a"
  by (auto simp: compare_nat_def)

lemma HashAlgorithm_value_inject: "HashAlgorithm_value a = HashAlgorithm_value b \<longleftrightarrow> a = b"
  by (cases a; cases b) simp_all

lemma compare_bytes_loop_Equivalent:
  "compare_bytes_loop as bs is = Equivalent \<longleftrightarrow> (\<forall>i \<in> set is. as ! i = bs ! i)"
  by (induction "is") (auto split: strong_ordering.splits simp: word_unat_eq_iff)

definition flip_ordering :: "strong_ordering \<Rightarrow> strong_ordering" where
  "flip_ordering c = (case c of Less \<Rightarrow> Greater | Equivalent \<Rightarrow> Equivalent | Greater \<Rightarrow> Less)"

lemma compare_bytes_loop_flip:
  "compare_bytes_loop as bs is = flip_ordering (compare_bytes_loop bs as is)"
  by (induction "is") (auto simp: flip_ordering_def compare_nat_def)

lemma Hash_eq_bytes:
  assumes "hash_wf h1" and "hash_wf h2"
  shows "Hash_eq h1 h2 \<longleftrightarrow> hash_bytes h1 = hash_bytes h2"
proof
  assume "Hash_eq h1 h2"
  then have sz: "hashSize h1 = hashSize h2" and nth: "\<And>i. i < hashSize h1 \<Longrightarrow> hash h1 ! i = hash h2 ! i"
    by (auto simp: Hash_eq_def list_all_iff split: if_splits)
  with assms show "hash_bytes h1 = hash_bytes h2"
    by (intro nth_equalityI) (auto simp: hash_bytes_def hash_wf_def regularHashSize_bounds)
next
  assume eq: "hash_bytes h1 = hash_bytes h2"
  then have "hashSize h1 = hashSize h2"
    using hash_wf_bytes(1) [OF assms(1)] hash_wf_bytes(1) [OF assms(2)] assms by (simp add: hash_wf_def)
  moreover have "hash h1 ! i = hash h2 ! i" if "i < hashSize h1" for i
    using that eq calculation by (metis hash_bytes_def nth_take)
  ultimately show "Hash_eq h1 h2" by (simp add: Hash_eq_def list_all_iff)
qed

section \<open>Compression\<close>

lemma nth_fold_xor:
  assumes "0 < n" and "n \<le> length a" and "j < n"
  shows "fold (\<lambda>i a. a[i mod n := a ! (i mod n) XOR x i]) [0..<m] a ! j =
     fold (\<lambda>i acc. acc XOR x i) (filter (\<lambda>i. i mod n = j) [0..<m]) (a ! j)"
  using assms
proof (induction m)
  case 0
  then show ?case by simp
next
  case (Suc m)
  have "length (fold (\<lambda>i a. a[i mod n := a ! (i mod n) XOR x i]) [0..<m] a) = length a"
    by (induction m) simp_all
  with Suc show ?case by (auto simp: nth_list_update)
qed

section \<open>Properties\<close>

text \<open>
  C30: printing a hash in any of the four formats and parsing the text gives back the same
  hash and reports the same format, with the type taken from the text when it carries one
  and from the caller otherwise; neither step fails.
\<close>

theorem Hash_roundtrip:
  assumes "hash_wf h" and "algo_enabled xp (algo h)"
    and "optAlgo = Some (algo h) \<or> optAlgo = None \<and> (f = SRI \<or> includeAlgo)"
  shows "result_bind (Hash_to_string h f includeAlgo)
           (\<lambda>s. Hash_parseAnyReturningFormat xp s optAlgo) = Inr (h, f)"
  using Hash_parse_printed [OF assms(1,2) _ assms(3)] Hash_to_string_eq [OF assms(1)]
  by simp

theorem Hash_roundtrip_witness:
  "let h = \<lparr>hashSize = 16, hash = replicate 16 0xA5 @ replicate 48 0, algo = MD5\<rparr>;
       xp = \<lparr>experimentalFeatures = []\<rparr>
   in result_bind (Hash_to_string h Nix32 True)
        (\<lambda>s. Hash_parseAnyReturningFormat xp s None) = Inr (h, Nix32)"
  unfolding Let_def
  by (rule Hash_roundtrip) (simp_all add: hash_wf_def maxHashSize_def algo_enabled_def)

text \<open>
  The order \<^verbatim>\<open><=>\<close> calls two hashes equivalent exactly when \<^verbatim>\<open>==\<close> holds and the
  algorithms agree: \<^verbatim>\<open>==\<close> ignores the algorithm, the order does not, and the order is
  antisymmetric.
\<close>

theorem Hash_order_equality:
  "(Hash_compare h1 h2 = Equivalent \<longleftrightarrow> Hash_eq h1 h2 \<and> algo h1 = algo h2) \<and>
   (Hash_compare h1 h2 = Less \<longleftrightarrow> Hash_compare h2 h1 = Greater)"
proof
  show "Hash_compare h1 h2 = Equivalent \<longleftrightarrow> Hash_eq h1 h2 \<and> algo h1 = algo h2"
    using compare_bytes_loop_Equivalent [of "hash h1" "hash h2" "[0..<hashSize h1]"]
    by (auto simp: Hash_compare_def Hash_eq_def list_all_iff HashAlgorithm_value_inject
        split: strong_ordering.splits)
  show "Hash_compare h1 h2 = Less \<longleftrightarrow> Hash_compare h2 h1 = Greater"
    by (auto simp: Hash_compare_def compare_bytes_loop_flip [of "hash h1" "hash h2"]
        compare_nat_def flip_ordering_def split: strong_ordering.splits)
qed

text \<open>
  Compressing a hash to a number of bytes within its buffer gives, at each position,
  the exclusive or of the bytes at the positions congruent to it.
\<close>

theorem compressHash_bytes:
  assumes "compressHash xp h newSize = Inr h'" and "0 < newSize" and "newSize \<le> maxHashSize"
  shows "hash_bytes h' = map (\<lambda>j. fold (\<lambda>i acc. acc XOR hash h ! i)
           (filter (\<lambda>i. i mod newSize = j) [0..<hashSize h]) 0) [0..<newSize] \<and>
         hashSize h' = newSize \<and> algo h' = algo h"
proof -
  let ?F = "fold (\<lambda>i a. a[i mod newSize := a ! (i mod newSize) XOR hash h ! i]) [0..<hashSize h]
    (replicate maxHashSize 0)"
  from assms(1) have h': "h' = \<lparr>hashSize = newSize, hash = ?F, algo = algo h\<rparr>"
    by (auto simp: compressHash_def result_simps dest!: Hash_new_Inr)
  have "length (fold (\<lambda>i a. a[i mod newSize := a ! (i mod newSize) XOR hash h ! i]) is b) = length b"
    for "is" and b :: bytes
    by (induction "is" arbitrary: b) simp_all
  then have "hash_bytes h' = map (\<lambda>j. fold (\<lambda>i acc. acc XOR hash h ! i)
      (filter (\<lambda>i. i mod newSize = j) [0..<hashSize h]) 0) [0..<newSize]"
    using assms(2,3) by (intro nth_equalityI) (simp_all add: h' hash_bytes_def nth_fold_xor)
  with h' show ?thesis by simp
qed

theorem compressHash_bytes_witness:
  "\<exists>h'. compressHash \<lparr>experimentalFeatures = []\<rparr>
       \<lparr>hashSize = 4, hash = [1, 2, 4, 8] @ replicate 60 0, algo = MD5\<rparr> 2 = Inr h' \<and>
     hash_bytes h' = [5, 10]"
proof -
  let ?h = "\<lparr>hashSize = 4, hash = [1, 2, 4, 8] @ replicate 60 0, algo = MD5\<rparr>"
  obtain h' where h': "compressHash \<lparr>experimentalFeatures = []\<rparr> ?h 2 = Inr h'"
    by (simp add: compressHash_def Hash_new_def maxHashSize_def)
  have "hash_bytes h' = map (\<lambda>j. fold (\<lambda>i acc. acc XOR hash ?h ! i)
      (filter (\<lambda>i. i mod 2 = j) [0..<4]) 0) [0..<2]"
    using compressHash_bytes [OF h'] by (simp add: maxHashSize_def)
  also have "\<dots> = [5, 10]" by (simp add: upt_rec)
  finally show ?thesis using h' by blast
qed

end
