(* ===== verification/Canon_Path.thy ===== *)
theory Canon_Path
  imports Prelude
begin

text \<open>
  Canonical paths (\<^verbatim>\<open>libutil/canon-path.cc\<close>, \<^verbatim>\<open>canon-path.hh\<close>) and the canonicalisation
  algorithm they use (\<^verbatim>\<open>libutil/include/nix/util/file-path-impl.hh\<close>, with the Unix path
  trait and no component hook). A \<^verbatim>\<open>CanonPath\<close> is its string. The theory shows that the
  string operations implement operations on lists of components, that canonicalisation
  normalises, that \<open>makeRelative\<close> is inverted by the two-argument constructor, and when
  \<open>isAllowed\<close> decides what it documents.
\<close>

type_synonym CanonPath = string

abbreviation slash :: char where
  "slash \<equiv> CHR ''/''"

section \<open>Canonicalisation\<close>

text \<open>\<^verbatim>\<open>rfind('/')\<close>.\<close>

definition rfind_char :: "char \<Rightarrow> string \<Rightarrow> nat option" where
  "rfind_char c s = (if c \<in> set s
     then Some (length s - 1 - length (takeWhile (\<lambda>x. x \<noteq> c) (rev s))) else None)"

text \<open>
  The loop of \<^verbatim>\<open>canonPathInner\<close>, one iteration per call. \<^verbatim>\<open>erase(npos)\<close> throws
  \<^verbatim>\<open>std::out_of_range\<close>.
\<close>

function canonPathInner_loop :: "string \<Rightarrow> string \<Rightarrow> string result" where
  "canonPathInner_loop remaining res =
     (let remaining = dropWhile (\<lambda>c. c = slash) remaining in
      if remaining = [] then Inr res
      else (let nextComp = takeWhile (\<lambda>c. c \<noteq> slash) remaining in
        if nextComp = ''.'' then canonPathInner_loop (drop 1 remaining) res
        else if nextComp = ''..'' then
          (if res \<noteq> [] then
             (case rfind_char slash res of
                None \<Rightarrow> Inl (GenericError ''std::out_of_range'')
              | Some n \<Rightarrow> canonPathInner_loop (drop 2 remaining) (take n res))
           else canonPathInner_loop (drop 2 remaining) res)
        else canonPathInner_loop (dropWhile (\<lambda>c. c \<noteq> slash) remaining) (res @ slash # nextComp)))"
  by pat_completeness auto
termination
proof (relation "measure (length \<circ> fst)", goal_cases)
  case (2 remaining res)
  then show ?case
    using length_dropWhile_le [of "\<lambda>c. c = slash" remaining]
    by (cases "dropWhile (\<lambda>c. c = slash) remaining") auto
next
  case (3 remaining res)
  then show ?case
    using length_dropWhile_le [of "\<lambda>c. c = slash" remaining]
    by (cases "dropWhile (\<lambda>c. c = slash) remaining") auto
next
  case (4 remaining res)
  then show ?case
    using length_dropWhile_le [of "\<lambda>c. c = slash" remaining]
    by (cases "dropWhile (\<lambda>c. c = slash) remaining") auto
next
  case (5 remaining res r comp)
  then have "r \<noteq> []" "hd r \<noteq> slash"
    using hd_dropWhile [of "\<lambda>c. c = slash" remaining] by auto
  then have "length (dropWhile (\<lambda>c. c \<noteq> slash) r) < length r"
    using length_dropWhile_le [of "\<lambda>c. c \<noteq> slash" "tl r"] by (cases r) auto
  with 5 show ?case
    using length_dropWhile_le [of "\<lambda>c. c = slash" remaining] by auto
qed simp

declare canonPathInner_loop.simps [simp del]

definition canonPathInner :: "string \<Rightarrow> string result" where
  "canonPathInner remaining =
     result_bind (ensure (remaining \<noteq> []) (AssertionFailed ''remaining != \"\"'')) (\<lambda>_.
     result_bind (canonPathInner_loop remaining []) (\<lambda>res.
       Inr (if res = [] then [slash] else res)))"

definition absPathPure :: "string \<Rightarrow> string result" where
  "absPathPure path = canonPathInner path"

definition ensureNoNullBytes :: "string \<Rightarrow> unit result" where
  "ensureNoNullBytes s = ensure (CHR 0x00 \<notin> set s) (BadCanonPath ''path segment must not contain null bytes'')"

section \<open>Constructors and accessors\<close>

definition CanonPath_of :: "string \<Rightarrow> CanonPath result" where
  "CanonPath_of raw =
     result_bind (absPathPure (slash # raw)) (\<lambda>path.
     result_bind (ensureNoNullBytes raw) (\<lambda>_. Inr path))"

definition CanonPath_root :: CanonPath where
  "CanonPath_root = [slash]"

definition CanonPath_relative_to :: "string \<Rightarrow> CanonPath \<Rightarrow> CanonPath result" where
  "CanonPath_relative_to raw root =
     result_bind (absPathPure (if length raw > 0 \<and> raw ! 0 = slash then raw else root @ slash # raw)) (\<lambda>path.
     result_bind (ensureNoNullBytes raw) (\<lambda>_. Inr path))"

definition isRoot :: "CanonPath \<Rightarrow> bool" where
  "isRoot path = (length path \<le> 1)"

definition abs_path :: "CanonPath \<Rightarrow> string" where
  "abs_path path = path"

definition absOrEmpty :: "CanonPath \<Rightarrow> string" where
  "absOrEmpty path = (if isRoot path then [] else path)"

definition rel :: "CanonPath \<Rightarrow> string" where
  "rel path = drop 1 path"

text \<open>
  The iterator: its state is the remaining view, which is at the end when it is the empty
  view at the end of the string.
\<close>

definition iter_deref :: "string \<Rightarrow> string" where
  "iter_deref remaining = takeWhile (\<lambda>c. c \<noteq> slash) remaining"

definition iter_next :: "string \<Rightarrow> string" where
  "iter_next remaining = (case find_char slash remaining of
     None \<Rightarrow> [] | Some n \<Rightarrow> drop (n + 1) remaining)"

lemma length_iter_next: "remaining \<noteq> [] \<Longrightarrow> length (iter_next remaining) < length remaining"
  by (auto simp: iter_next_def find_char_def split: option.splits)

text \<open>The elements of the range \<^verbatim>\<open>begin()\<close> to \<^verbatim>\<open>end()\<close>.\<close>

function iter_elems :: "string \<Rightarrow> string list" where
  "iter_elems remaining =
     (if remaining = [] then [] else iter_deref remaining # iter_elems (iter_next remaining))"
  by pat_completeness auto
termination
  by (relation "measure length") (simp_all add: length_iter_next)

declare iter_elems.simps [simp del]

definition CanonPath_fromFilename :: "string \<Rightarrow> CanonPath result" where
  "CanonPath_fromFilename segment =
     result_bind (CanonPath_of segment) (\<lambda>res.
       if segment \<noteq> rel res \<or> length (iter_elems (rel res)) \<noteq> 1
       then Inl (BadCanonPath ''invalid filename'') else Inr res)"

text \<open>\<^verbatim>\<open>substr(0, max(1, rfind('/')))\<close>: \<^verbatim>\<open>npos\<close> is the largest \<^verbatim>\<open>size_t\<close>.\<close>

definition up_to_last_slash :: "CanonPath \<Rightarrow> CanonPath" where
  "up_to_last_slash path = (case rfind_char slash path of
     None \<Rightarrow> path | Some n \<Rightarrow> take (max 1 n) path)"

definition CanonPath_parent :: "CanonPath \<Rightarrow> CanonPath option" where
  "CanonPath_parent path = (if isRoot path then None else Some (up_to_last_slash path))"

definition CanonPath_pop :: "CanonPath \<Rightarrow> CanonPath result" where
  "CanonPath_pop path =
     result_bind (ensure (\<not> isRoot path) (AssertionFailed ''!isRoot()'')) (\<lambda>_.
       Inr (up_to_last_slash path))"

definition CanonPath_dirOf :: "CanonPath \<Rightarrow> string option" where
  "CanonPath_dirOf path = (if isRoot path then None
     else Some (case rfind_char slash path of None \<Rightarrow> path | Some n \<Rightarrow> take n path))"

text \<open>\<^verbatim>\<open>rfind('/') + 1\<close> is zero for \<^verbatim>\<open>npos\<close>.\<close>

definition CanonPath_baseName :: "CanonPath \<Rightarrow> string option" where
  "CanonPath_baseName path = (if isRoot path then None
     else Some (case rfind_char slash path of None \<Rightarrow> path | Some n \<Rightarrow> drop (n + 1) path))"

section \<open>Operations\<close>

definition isWithin :: "CanonPath \<Rightarrow> CanonPath \<Rightarrow> bool" where
  "isWithin path parent \<longleftrightarrow>
     \<not> (length path < length parent \<or> take (length parent) path \<noteq> parent \<or>
        (length parent > 1 \<and> length path > length parent \<and> path ! length parent \<noteq> slash))"

definition removePrefix :: "CanonPath \<Rightarrow> CanonPath \<Rightarrow> CanonPath result" where
  "removePrefix path prefix =
     result_bind (ensure (isWithin path prefix) (AssertionFailed ''isWithin(prefix)'')) (\<lambda>_.
       Inr (if isRoot prefix then path
            else if length path = length prefix then CanonPath_root
            else drop (length prefix) path))"

definition extend :: "CanonPath \<Rightarrow> CanonPath \<Rightarrow> CanonPath" where
  "extend path x = (if isRoot x then path
     else if isRoot path then path @ rel x else path @ abs_path x)"

definition push :: "CanonPath \<Rightarrow> string \<Rightarrow> CanonPath result" where
  "push path c =
     result_bind (ensure (slash \<notin> set c) (AssertionFailed ''c.find('/') == c.npos'')) (\<lambda>_.
     result_bind (ensure (c \<noteq> ''.'' \<and> c \<noteq> ''..'') (AssertionFailed ''c != \".\" && c != \"..\"'')) (\<lambda>_.
     result_bind (ensureNoNullBytes c) (\<lambda>_.
       Inr ((if \<not> isRoot path then path @ [slash] else path) @ c))))"

fun CanonPath_of_elems_loop :: "string list \<Rightarrow> CanonPath \<Rightarrow> CanonPath result" where
  "CanonPath_of_elems_loop [] path = Inr path"
| "CanonPath_of_elems_loop (s # elems) path =
     result_bind (push path s) (\<lambda>path'. CanonPath_of_elems_loop elems path')"

definition CanonPath_of_elems :: "string list \<Rightarrow> CanonPath result" where
  "CanonPath_of_elems elems = CanonPath_of_elems_loop elems [slash]"

text \<open>
  The order: \<^verbatim>\<open>char\<close> is signed or not, by platform, and a separator compares as zero.
\<close>

definition char_value :: "bool \<Rightarrow> char \<Rightarrow> int" where
  "char_value char_is_signed c =
     (let n = int (of_char c) in if char_is_signed \<and> n \<ge> 128 then n - 256 else n)"

definition order_key :: "bool \<Rightarrow> char \<Rightarrow> int" where
  "order_key sg c = (if c = slash then 0 else char_value sg c)"

fun CanonPath_less :: "bool \<Rightarrow> CanonPath \<Rightarrow> CanonPath \<Rightarrow> bool" where
  "CanonPath_less sg [] [] = False"
| "CanonPath_less sg [] (d # y) = True"
| "CanonPath_less sg (c # x) [] = False"
| "CanonPath_less sg (c # x) (d # y) =
     (if order_key sg c \<noteq> order_key sg d then order_key sg c < order_key sg d
      else CanonPath_less sg x y)"

text \<open>
  \<^verbatim>\<open>isAllowed\<close>: the set is the sorted sequence of its elements, \<^verbatim>\<open>lower_bound\<close> its first
  element that is not less than the key.
\<close>

definition lower_bound :: "bool \<Rightarrow> CanonPath list \<Rightarrow> CanonPath \<Rightarrow> CanonPath option" where
  "lower_bound sg allowed path = List.find (\<lambda>a. \<not> CanonPath_less sg a path) allowed"

lemma length_up_to_last_slash: "\<not> isRoot path \<Longrightarrow> slash \<in> set path \<Longrightarrow> length (up_to_last_slash path) < length path"
  by (auto simp: isRoot_def up_to_last_slash_def rfind_char_def)

text \<open>The loop over the ancestors; without a separator the loop would not advance.\<close>

function isAllowed_loop :: "CanonPath list \<Rightarrow> CanonPath \<Rightarrow> bool" where
  "isAllowed_loop allowed path =
     (if isRoot path \<or> slash \<notin> set path then False
      else (let path' = up_to_last_slash path in
        if path' \<in> set allowed then True else isAllowed_loop allowed path'))"
  by pat_completeness auto
termination
  by (relation "measure (length \<circ> snd)") (auto simp: length_up_to_last_slash)

declare isAllowed_loop.simps [simp del]

definition isAllowed :: "bool \<Rightarrow> CanonPath \<Rightarrow> CanonPath list \<Rightarrow> bool" where
  "isAllowed sg path allowed =
     ((case lower_bound sg allowed path of Some lb \<Rightarrow> isWithin lb path | None \<Rightarrow> False) \<or>
      isAllowed_loop allowed path)"

text \<open>\<^verbatim>\<open>makeRelative\<close>: skip the common components, then one \<^verbatim>\<open>..\<close> per component left.\<close>

function skip_common :: "string \<Rightarrow> string \<Rightarrow> string \<times> string" where
  "skip_common p1 p2 =
     (if p1 \<noteq> [] \<and> p2 \<noteq> [] \<and> iter_deref p1 = iter_deref p2
      then skip_common (iter_next p1) (iter_next p2) else (p1, p2))"
  by pat_completeness auto
termination
  by (relation "measure (length \<circ> fst)") (simp_all add: length_iter_next)

declare skip_common.simps [simp del]

fun dotdots :: "string list \<Rightarrow> string \<Rightarrow> string" where
  "dotdots [] res = res"
| "dotdots (_ # cs) res = dotdots cs (if res \<noteq> [] then res @ ''/..'' else res @ ''..'')"

definition makeRelative :: "CanonPath \<Rightarrow> CanonPath \<Rightarrow> string" where
  "makeRelative self path =
     (case skip_common (rel self) (rel path) of (p1, p2) \<Rightarrow>
        if p1 = [] \<and> p2 = [] then ''.''
        else if p1 = [] then p2
        else (let res = dotdots (iter_elems p1) [] in
              if p2 \<noteq> [] then (if res \<noteq> [] then res @ ''/'' else res) @ p2 else res))"

section \<open>Paths as lists of components\<close>

text \<open>The specification: split at separators, drop empty components, resolve dots.\<close>

fun split_slashes :: "string \<Rightarrow> string list" where
  "split_slashes [] = [[]]"
| "split_slashes (c # s) =
     (if c = slash then [] # split_slashes s
      else (case split_slashes s of [] \<Rightarrow> [[c]] | x # xs \<Rightarrow> (c # x) # xs))"

definition comps :: "string \<Rightarrow> string list" where
  "comps s = filter (\<lambda>c. c \<noteq> []) (split_slashes s)"

fun normalise :: "string list \<Rightarrow> string list \<Rightarrow> string list" where
  "normalise acc [] = acc"
| "normalise acc (c # cs) =
     normalise (if c = ''.'' then acc else if c = ''..'' then butlast acc else acc @ [c]) cs"

definition joined :: "string list \<Rightarrow> string" where
  "joined cs = concat (map (\<lambda>c. slash # c) cs)"

definition render :: "string list \<Rightarrow> CanonPath" where
  "render cs = (if cs = [] then [slash] else joined cs)"

definition valid_comp :: "string \<Rightarrow> bool" where
  "valid_comp c \<longleftrightarrow> c \<noteq> [] \<and> slash \<notin> set c \<and> CHR 0x00 \<notin> set c \<and> c \<noteq> ''.'' \<and> c \<noteq> ''..''"

abbreviation valid_comps :: "string list \<Rightarrow> bool" where
  "valid_comps cs \<equiv> (\<forall>c \<in> set cs. valid_comp c)"

text \<open>The class invariant: a canonical path is the rendering of valid components.\<close>

definition canonical :: "CanonPath \<Rightarrow> bool" where
  "canonical p \<longleftrightarrow> p = render (comps p) \<and> list_all valid_comp (comps p)"

subsection \<open>Splitting\<close>

lemma joined_simps [simp]:
  "joined [] = []"
  "joined (c # cs) = slash # c @ joined cs"
  "joined (cs @ ds) = joined cs @ joined ds"
  by (simp_all add: joined_def)

lemma split_slashes_ne: "split_slashes s \<noteq> []"
  by (induction s) (auto split: list.splits)

lemma split_slashes_append:
  "slash \<notin> set c \<Longrightarrow> split_slashes (c @ slash # s) = c # split_slashes s"
  by (induction c) auto

lemma split_slashes_single: "slash \<notin> set c \<Longrightarrow> split_slashes c = [c]"
  by (induction c) auto

lemma comps_Nil [simp]: "comps [] = []"
  by (simp add: comps_def)

lemma comps_slash [simp]: "comps (slash # s) = comps s"
  by (simp add: comps_def)

lemma comps_dropWhile [simp]: "comps (dropWhile (\<lambda>c. c = slash) s) = comps s"
  by (induction s) auto

lemma comps_component:
  assumes "slash \<notin> set c" and "c \<noteq> []" and "rest = [] \<or> hd rest = slash"
  shows "comps (c @ rest) = c # comps rest"
proof (cases rest)
  case Nil
  with assms show ?thesis by (simp add: comps_def split_slashes_single)
next
  case (Cons x r)
  with assms have "x = slash" by simp
  with Cons assms show ?thesis by (simp add: comps_def split_slashes_append)
qed

lemma hd_joined: "joined cs = [] \<or> hd (joined cs) = slash"
  by (cases cs) auto

lemma comps_joined_append:
  assumes "\<forall>c \<in> set cs. c \<noteq> [] \<and> slash \<notin> set c" and "rest = [] \<or> hd rest = slash"
  shows "comps (joined cs @ rest) = cs @ comps rest"
  using assms
proof (induction cs)
  case Nil
  then show ?case by simp
next
  case (Cons c cs)
  have "joined cs @ rest = [] \<or> hd (joined cs @ rest) = slash"
    using hd_joined [of cs] Cons.prems(2) by (cases "joined cs = []") auto
  with Cons comps_component [of c "joined cs @ rest"] show ?case by simp
qed

lemma set_split_slashes: "c \<in> set (split_slashes s) \<Longrightarrow> slash \<notin> set c \<and> set c \<subseteq> set s"
proof (induction s arbitrary: c)
  case Nil
  then show ?case by simp
next
  case (Cons x s)
  show ?case
  proof (cases "x = slash")
    case True
    with Cons show ?thesis by auto
  next
    case False
    obtain y ys where s: "split_slashes s = y # ys"
      using split_slashes_ne [of s] by (cases "split_slashes s") auto
    with False Cons.prems have "c = x # y \<or> c \<in> set ys" by auto
    with Cons.IH [of y] Cons.IH [of c] s False show ?thesis by auto
  qed
qed

lemma comps_no_slash: "c \<in> set (comps s) \<Longrightarrow> c \<noteq> [] \<and> slash \<notin> set c \<and> set c \<subseteq> set s"
  by (auto simp: comps_def dest: set_split_slashes)

lemma set_joined: "set (joined cs) \<subseteq> insert slash (\<Union> (set ` set cs))"
  by (induction cs) auto

subsection \<open>Canonicalisation implements the specification\<close>

lemma rfind_char_append: "c \<notin> set s \<Longrightarrow> rfind_char c (r @ c # s) = Some (length r)"
  by (simp add: rfind_char_def takeWhile_append)

lemma canonPathInner_loop_correct:
  assumes "\<forall>c \<in> set cs. slash \<notin> set c"
  shows "canonPathInner_loop rem (joined cs) = Inr (joined (normalise cs (comps rem)))"
  using assms
proof (induction "length rem" arbitrary: rem cs rule: less_induct)
  case less
  define r where "r = dropWhile (\<lambda>c. c = slash) rem"
  define c where "c = takeWhile (\<lambda>c. c \<noteq> slash) r"
  define r' where "r' = dropWhile (\<lambda>c. c \<noteq> slash) r"
  have rc: "comps rem = comps r" by (simp add: r_def)
  show ?case
  proof (cases "r = []")
    case True
    with rc show ?thesis
      by (simp add: canonPathInner_loop.simps [of rem] r_def [symmetric])
  next
    case False
    have hd: "hd r \<noteq> slash" using False hd_dropWhile [of "\<lambda>c. c = slash" rem] by (simp add: r_def)
    have r: "r = c @ r'" by (simp add: c_def r'_def)
    have c: "slash \<notin> set c" "c \<noteq> []"
      using False hd by (cases r; auto simp: c_def dest: set_takeWhileD)+
    have r'0: "r' = [] \<or> hd r' = slash"
      using hd_dropWhile [of "\<lambda>c. c \<noteq> slash" r] by (auto simp: r'_def)
    have "length r \<le> length rem" by (simp add: r_def length_dropWhile_le)
    then have shorter: "length r' < length rem" using r c(2) by (cases c) auto
    have cr: "comps rem = c # comps r'"
      using comps_component [OF c r'0] r rc by simp
    have rest: "drop (length c) r = r'" using r by simp
    have step: "canonPathInner_loop rem (joined cs) =
       (if c = ''.'' then canonPathInner_loop (drop 1 r) (joined cs)
        else if c = ''..'' then
          (if joined cs \<noteq> [] then
             (case rfind_char slash (joined cs) of
                None \<Rightarrow> Inl (GenericError ''std::out_of_range'')
              | Some n \<Rightarrow> canonPathInner_loop (drop 2 r) (take n (joined cs)))
           else canonPathInner_loop (drop 2 r) (joined cs))
        else canonPathInner_loop r' (joined cs @ slash # c))"
      using False by (simp add: canonPathInner_loop.simps [of rem] Let_def flip: r_def c_def r'_def)
    consider "c = ''.''" | "c = ''..''" "cs = []" | ds d where "c = ''..''" "cs = ds @ [d]"
      | "c \<noteq> ''.''" "c \<noteq> ''..''"
      by (metis rev_exhaust)
    then show ?thesis
    proof cases
      case 1
      with step cr rest less.hyps [OF shorter less.prems] show ?thesis by simp
    next
      case 2
      with step cr rest less.hyps [OF shorter less.prems] show ?thesis by (simp add: numeral_2_eq_2)
    next
      case 3
      then have "rfind_char slash (joined cs) = Some (length (joined ds))"
        using less.prems by (simp add: rfind_char_append)
      with 3 step cr rest less.prems less.hyps [OF shorter, of ds] show ?thesis
        by (simp add: numeral_2_eq_2)
    next
      case 4
      with step cr less.prems c less.hyps [OF shorter, of "cs @ [c]"] show ?thesis by simp
    qed
  qed
qed

lemma normalise_ne:
  "\<forall>c \<in> set acc. P c \<Longrightarrow> \<forall>c \<in> set cs. c = ''.'' \<or> c = ''..'' \<or> P c \<Longrightarrow>
     \<forall>c \<in> set (normalise acc cs). P c"
proof (induction acc cs rule: normalise.induct)
  case (1 acc)
  then show ?case by simp
next
  case (2 acc c cs)
  let ?acc = "if c = ''.'' then acc else if c = ''..'' then butlast acc else acc @ [c]"
  have "\<forall>x \<in> set ?acc. P x" using "2.prems" by (auto dest: in_set_butlastD)
  with "2.IH" "2.prems"(2) show ?case by simp
qed

lemma canonPathInner_correct:
  assumes "s \<noteq> []"
  shows "canonPathInner s = Inr (render (normalise [] (comps s)))"
proof -
  have "\<forall>c \<in> set (normalise [] (comps s)). c \<noteq> []"
    by (rule normalise_ne) (auto dest: comps_no_slash)
  then have "joined (normalise [] (comps s)) = [] \<longleftrightarrow> normalise [] (comps s) = []"
    by (cases "normalise [] (comps s)") auto
  with assms canonPathInner_loop_correct [of "[]" s] show ?thesis
    by (simp add: canonPathInner_def render_def)
qed

lemma CanonPath_of_eq:
  "CanonPath_of raw = (if CHR 0x00 \<in> set raw
     then Inl (BadCanonPath ''path segment must not contain null bytes'')
     else Inr (render (normalise [] (comps raw))))"
  by (simp add: CanonPath_of_def absPathPure_def canonPathInner_correct ensureNoNullBytes_def)

lemma normalise_valid:
  assumes "CHR 0x00 \<notin> set raw"
  shows "valid_comps (normalise [] (comps raw))"
  by (rule normalise_ne) (use assms in \<open>auto simp: valid_comp_def dest: comps_no_slash\<close>)

lemma comps_render [simp]:
  assumes "valid_comps cs"
  shows "comps (render cs) = cs"
  using assms comps_joined_append [of cs "[]"] by (auto simp: render_def valid_comp_def)

lemma canonicalI: "valid_comps cs \<Longrightarrow> canonical (render cs)"
  by (simp add: canonical_def list_all_iff)

lemma canonicalE:
  assumes "canonical p"
  obtains cs where "valid_comps cs" and "p = render cs" and "comps p = cs"
  using assms by (auto simp: canonical_def list_all_iff)

lemma normalise_append_valid: "valid_comps cs \<Longrightarrow> normalise acc (cs @ ds) = normalise (acc @ cs) ds"
  by (induction cs arbitrary: acc) (auto simp: valid_comp_def)

lemma normalise_of_valid [simp]: "valid_comps cs \<Longrightarrow> normalise acc cs = acc @ cs"
  using normalise_append_valid [of cs acc "[]"] by simp

lemma render_no_null: "valid_comps cs \<Longrightarrow> CHR 0x00 \<notin> set (render cs)"
  using set_joined [of cs] by (auto simp: render_def valid_comp_def)

subsection \<open>Operations on components\<close>

lemma isRoot_render [simp]: "valid_comps cs \<Longrightarrow> isRoot (render cs) \<longleftrightarrow> cs = []"
  by (cases cs) (auto simp: render_def isRoot_def valid_comp_def)

lemma up_to_last_slash_render:
  assumes "valid_comps (cs @ [c])"
  shows "up_to_last_slash (render (cs @ [c])) = render cs"
proof -
  have "rfind_char slash (joined cs @ slash # c) = Some (length (joined cs))"
    using assms by (intro rfind_char_append) (simp add: valid_comp_def)
  moreover have "joined cs = [] \<longleftrightarrow> cs = []" by (cases cs) auto
  ultimately show ?thesis
    by (cases "joined cs") (auto simp: up_to_last_slash_def render_def max_def)
qed

lemma parent_render:
  assumes "valid_comps cs"
  shows "CanonPath_parent (render cs) = (if cs = [] then None else Some (render (butlast cs)))"
proof (cases cs rule: rev_cases)
  case Nil
  then show ?thesis by (simp add: CanonPath_parent_def)
next
  case (snoc ds d)
  with assms up_to_last_slash_render [of ds d] show ?thesis
    by (simp add: CanonPath_parent_def del: up_to_last_slash_render)
qed

lemma baseName_render:
  assumes "valid_comps (cs @ [c])"
  shows "CanonPath_baseName (render (cs @ [c])) = Some c"
proof -
  have "rfind_char slash (joined cs @ slash # c) = Some (length (joined cs))"
    using assms by (intro rfind_char_append) (simp add: valid_comp_def)
  with assms show ?thesis
    by (simp add: CanonPath_baseName_def) (simp add: render_def)
qed

lemma rel_render: "valid_comps cs \<Longrightarrow> rel (render cs) = drop 1 (joined cs)"
  by (simp add: rel_def render_def)

lemma extend_render:
  assumes "valid_comps cs" and "valid_comps ds"
  shows "extend (render cs) (render ds) = render (cs @ ds)"
  using assms
  by (cases ds; cases cs) (simp_all add: extend_def, simp_all add: rel_def abs_path_def render_def)

lemma push_render:
  assumes "valid_comps cs" and "valid_comp c"
  shows "push (render cs) c = Inr (render (cs @ [c]))"
  using assms
  by (cases cs) (simp_all add: push_def ensureNoNullBytes_def valid_comp_def,
      simp_all add: render_def isRoot_def valid_comp_def)

lemma isWithin_render:
  assumes "valid_comps cs" and "valid_comps ds"
  shows "isWithin (render cs) (render ds) \<longleftrightarrow> (\<exists>xs. cs = ds @ xs)"
proof (cases "ds = []")
  case True
  have "take 1 (render cs) = [slash]" "1 \<le> length (render cs)"
    by (cases cs; simp add: render_def)+
  moreover have "render ds = [slash]" using True by (simp add: render_def)
  ultimately show ?thesis using True by (cases "render cs") (simp_all add: isWithin_def)
next
  case False
  have ds1: "1 < length (joined ds)" "render ds = joined ds"
    using False assms(2) by (cases ds; auto simp: render_def valid_comp_def)+
  show ?thesis
  proof
    assume "isWithin (render cs) (render ds)"
    then have pre: "take (length (joined ds)) (render cs) = joined ds"
      and nxt: "length (joined ds) < length (render cs) \<longrightarrow> render cs ! length (joined ds) = slash"
      using ds1 by (auto simp: isWithin_def)
    define rest where "rest = drop (length (joined ds)) (render cs)"
    have split: "render cs = joined ds @ rest"
      using pre unfolding rest_def by (metis append_take_drop_id)
    have "rest = [] \<or> hd rest = slash"
      using nxt by (cases "length (joined ds) < length (render cs)") (auto simp: rest_def hd_drop_conv_nth)
    with split assms comps_joined_append [of ds rest] have "cs = ds @ comps rest"
      by (metis comps_render valid_comp_def)
    then show "\<exists>xs. cs = ds @ xs" ..
  next
    assume "\<exists>xs. cs = ds @ xs"
    then obtain xs where "cs = ds @ xs" ..
    with ds1 False show "isWithin (render cs) (render ds)"
      by (cases xs) (auto simp: isWithin_def render_def nth_append)
  qed
qed

lemma removePrefix_render:
  assumes "valid_comps (ds @ xs)"
  shows "removePrefix (render (ds @ xs)) (render ds) = Inr (render xs)"
proof -
  have "isWithin (render (ds @ xs)) (render ds)" using assms by (simp add: isWithin_render)
  with assms show ?thesis
    by (cases ds; cases xs) (simp_all add: removePrefix_def CanonPath_root_def,
        simp_all add: render_def)
qed

subsection \<open>Iteration and relative paths\<close>

text \<open>The view of a canonical path without its leading separator.\<close>

definition rel_of :: "string list \<Rightarrow> string" where
  "rel_of cs = drop 1 (joined cs)"

lemma rel_of_simps:
  "rel_of [] = []"
  "rel_of (c # cs) = c @ joined cs"
  by (simp_all add: rel_of_def)

lemma iter_step:
  assumes "valid_comps (c # cs)"
  shows "iter_deref (rel_of (c # cs)) = c" and "iter_next (rel_of (c # cs)) = rel_of cs"
    and "rel_of (c # cs) \<noteq> []"
proof -
  have c: "slash \<notin> set c" "c \<noteq> []" using assms by (auto simp: valid_comp_def)
  show "rel_of (c # cs) \<noteq> []" using c by (simp add: rel_of_simps)
  show "iter_deref (rel_of (c # cs)) = c" and "iter_next (rel_of (c # cs)) = rel_of cs"
    using c by (cases cs;
        auto simp: rel_of_simps iter_deref_def iter_next_def find_char_def takeWhile_append takeWhile_eq_all_conv
          split: option.splits)+
qed

lemma iter_elems_rel_of: "valid_comps cs \<Longrightarrow> iter_elems (rel_of cs) = cs"
proof (induction cs)
  case Nil
  then show ?case by (simp add: rel_of_simps iter_elems.simps [of "[]"])
next
  case (Cons c cs)
  with iter_step [of c cs] show ?case by (simp add: iter_elems.simps [of "rel_of (c # cs)"])
qed

lemma skip_common_correct:
  assumes "valid_comps cs" and "valid_comps ds"
  shows "\<exists>pre xs ys. cs = pre @ xs \<and> ds = pre @ ys \<and>
           skip_common (rel_of cs) (rel_of ds) = (rel_of xs, rel_of ys)"
  using assms
proof (induction cs arbitrary: ds)
  case Nil
  have "skip_common (rel_of []) (rel_of ds) = (rel_of [], rel_of ds)"
    by (simp add: rel_of_simps skip_common.simps [of "[]"])
  then show ?case by (metis append_Nil)
next
  case (Cons c cs)
  note c = iter_step [OF Cons.prems(1)]
  show ?case
  proof (cases ds)
    case Nil
    then have "skip_common (rel_of (c # cs)) (rel_of ds) = (rel_of (c # cs), rel_of ds)"
      by (simp add: rel_of_simps skip_common.simps [of _ "[]"])
    then show ?thesis by (metis append_Nil)
  next
    case (Cons d ds')
    have d: "iter_deref (rel_of ds) = d" "iter_next (rel_of ds) = rel_of ds'" "rel_of ds \<noteq> []"
      using iter_step [of d ds'] Cons.prems(2) Cons by auto
    show ?thesis
    proof (cases "c = d")
      case True
      from Cons.IH [of ds'] Cons.prems Cons obtain pre xs ys where
        e: "cs = pre @ xs" "ds' = pre @ ys"
          "skip_common (rel_of cs) (rel_of ds') = (rel_of xs, rel_of ys)"
        by auto
      have "skip_common (rel_of (c # cs)) (rel_of ds) = skip_common (rel_of cs) (rel_of ds')"
        by (subst skip_common.simps) (use True c d in simp)
      with e(3) have "skip_common (rel_of (c # cs)) (rel_of ds) = (rel_of xs, rel_of ys)" by simp
      moreover have "c # cs = (c # pre) @ xs" "ds = (c # pre) @ ys" using e True Cons by simp_all
      ultimately show ?thesis by blast
    next
      case False
      with c d have "skip_common (rel_of (c # cs)) (rel_of ds) = (rel_of (c # cs), rel_of ds)"
        by (simp add: skip_common.simps [of "rel_of (c # cs)"])
      then show ?thesis by (metis append_Nil)
    qed
  qed
qed

lemma comps_rel_of:
  assumes "\<forall>c \<in> set cs. c \<noteq> [] \<and> slash \<notin> set c"
  shows "comps (rel_of cs) = cs"
proof (cases cs)
  case (Cons c ds)
  with assms comps_joined_append [of cs "[]"] show ?thesis by (simp add: rel_of_simps)
qed (simp add: rel_of_simps)

lemma dotdots_eq:
  "dotdots cs (rel_of (replicate n ''..'')) = rel_of (replicate (n + length cs) ''..'')"
proof (induction cs arbitrary: n)
  case Nil
  then show ?case by simp
next
  case (Cons c cs)
  have snoc: "rel_of (replicate (Suc n) ''..'') =
      (if rel_of (replicate n ''..'') \<noteq> [] then rel_of (replicate n ''..'') @ ''/..''
       else rel_of (replicate n ''..'') @ ''..'')"
  proof (cases n)
    case (Suc m)
    then have "rel_of (replicate n ''..'' @ [''..'']) = rel_of (replicate n ''..'') @ ''/..''"
      and "rel_of (replicate n ''..'') \<noteq> []"
      by (simp_all add: rel_of_simps)
    then show ?thesis by (simp only: replicate_Suc flip: replicate_append_same) simp
  qed (simp add: rel_of_simps)
  from Cons.IH [of "Suc n"] show ?case unfolding dotdots.simps snoc [symmetric] by simp
qed

lemma makeRelative_components:
  assumes "valid_comps cs" and "valid_comps ds"
  obtains pre xs ys where "cs = pre @ xs" and "ds = pre @ ys"
    and "makeRelative (render cs) (render ds) =
      (if xs = [] \<and> ys = [] then ''.'' else rel_of (replicate (length xs) ''..'' @ ys))"
proof -
  from skip_common_correct [OF assms] obtain pre xs ys where
    s: "cs = pre @ xs" "ds = pre @ ys" "skip_common (rel_of cs) (rel_of ds) = (rel_of xs, rel_of ys)"
    by blast
  have xs: "valid_comps xs" "valid_comps ys" using assms s by auto
  have ne: "rel_of zs = [] \<longleftrightarrow> zs = []" if "valid_comps zs" for zs
    using that by (cases zs) (auto simp: rel_of_simps valid_comp_def)
  have dd: "dotdots (iter_elems (rel_of xs)) [] = rel_of (replicate (length xs) ''..'')"
    using dotdots_eq [of xs 0] by (simp add: iter_elems_rel_of [OF xs(1)] rel_of_simps)
  have ne2: "rel_of (replicate (length xs) ''..'') = [] \<longleftrightarrow> xs = []"
    by (cases xs) (auto simp: rel_of_simps)
  have "makeRelative (render cs) (render ds) =
      (if xs = [] \<and> ys = [] then ''.'' else rel_of (replicate (length xs) ''..'' @ ys))"
    unfolding makeRelative_def rel_render [OF assms(1)] rel_render [OF assms(2)]
      rel_of_def [symmetric] s(3) prod.case dd Let_def ne [OF xs(1)] ne [OF xs(2)] ne2
    by (cases xs; cases ys) (simp_all add: rel_of_simps)
  with s that show ?thesis by blast
qed

lemma normalise_dotdots:
  "length xs \<le> length acc \<Longrightarrow>
     normalise acc (replicate (length xs) ''..'' @ ys) = normalise (take (length acc - length xs) acc) ys"
proof (induction xs arbitrary: acc)
  case Nil
  then show ?case by simp
next
  case (Cons x xs)
  then have "length xs \<le> length (butlast acc)" by simp
  from Cons.IH [OF this] Cons.prems show ?case
    by (simp add: take_butlast)
qed

lemma CanonPath_relative_to_eq:
  assumes "valid_comps cs" and "CHR 0x00 \<notin> set raw" and "raw = [] \<or> hd raw \<noteq> slash"
  shows "CanonPath_relative_to raw (render cs) = Inr (render (normalise cs (comps raw)))"
proof -
  have abs: "\<not> (length raw > 0 \<and> raw ! 0 = slash)" using assms(3) by (cases raw) auto
  have "comps (render cs @ slash # raw) = cs @ comps raw"
    using assms(1) comps_joined_append [of cs "slash # raw"]
    by (auto simp: render_def valid_comp_def)
  with abs assms(1,2) show ?thesis
    by (simp only: if_False CanonPath_relative_to_def) (simp add: absPathPure_def canonPathInner_correct
        ensureNoNullBytes_def normalise_append_valid)
qed

lemma makeRelative_inverse:
  assumes "valid_comps cs" and "valid_comps ds"
  shows "CanonPath_relative_to (makeRelative (render cs) (render ds)) (render cs) = Inr (render ds)"
proof -
  obtain pre xs ys where s: "cs = pre @ xs" "ds = pre @ ys"
    and m: "makeRelative (render cs) (render ds) =
      (if xs = [] \<and> ys = [] then ''.'' else rel_of (replicate (length xs) ''..'' @ ys))"
    by (rule makeRelative_components [OF assms])
  show ?thesis
  proof (cases "xs = [] \<and> ys = []")
    case True
    have "comps ''.'' = [''.'']" by (simp add: comps_def)
    with True m s assms CanonPath_relative_to_eq [of cs "''.''"] show ?thesis by simp
  next
    case False
    define zs where "zs = replicate (length xs) ''..'' @ ys"
    have ys: "valid_comps ys" using assms s by auto
    moreover have "''..'' \<noteq> [] \<and> slash \<notin> set ''..'' \<and> CHR 0x00 \<notin> set ''..''" by simp
    ultimately have ok: "\<forall>c \<in> set zs. c \<noteq> [] \<and> slash \<notin> set c \<and> CHR 0x00 \<notin> set c"
      unfolding zs_def set_append by (metis Un_iff in_set_replicate valid_comp_def)
    have "set (rel_of zs) \<subseteq> set (joined zs)" by (auto simp: rel_of_def dest: in_set_dropD)
    with ok set_joined [of zs] have nul: "CHR 0x00 \<notin> set (rel_of zs)" by auto
    have "zs \<noteq> []" using False by (auto simp: zs_def)
    then obtain z zs' where z: "zs = z # zs'" by (cases zs) auto
    with ok have "z \<noteq> []" "slash \<notin> set z" by auto
    with z have "hd (rel_of zs) \<noteq> slash" by (cases z) (auto simp: rel_of_simps)
    with CanonPath_relative_to_eq [OF assms(1) nul] comps_rel_of [of zs] ok
    have "CanonPath_relative_to (rel_of zs) (render cs) = Inr (render (normalise cs zs))" by simp
    moreover have "normalise cs zs = normalise pre ys"
      using normalise_dotdots [of xs cs ys] s by (simp add: zs_def)
    moreover have "makeRelative (render cs) (render ds) = rel_of zs"
      unfolding zs_def using m False by presburger
    ultimately show ?thesis using ys s by simp
  qed
qed

subsection \<open>The order and access control\<close>

text \<open>The characters the order compares correctly: no \<^verbatim>\<open>char\<close> below the separator's zero.\<close>

definition ordered_chars :: "bool \<Rightarrow> string \<Rightarrow> bool" where
  "ordered_chars sg s \<longleftrightarrow> list_all (\<lambda>c. c = slash \<or> 0 < char_value sg c) s"

lemma char_value_inject: "char_value sg c = char_value sg d \<Longrightarrow> c = d"
proof -
  assume "char_value sg c = char_value sg d"
  moreover obtain m n :: nat where "of_char c = m" "of_char d = n" "m < 256" "n < 256" by simp
  ultimately have "of_char c = (of_char d :: nat)"
    by (auto simp: char_value_def Let_def split: if_splits)
  then show "c = d" by simp
qed

lemma CanonPath_less_irrefl: "\<not> CanonPath_less sg x x"
  by (induction x) auto

lemma CanonPath_less_asym: "CanonPath_less sg x y \<Longrightarrow> \<not> CanonPath_less sg y x"
  by (induction sg x y rule: CanonPath_less.induct) (auto split: if_splits)

lemma CanonPath_less_trans:
  "CanonPath_less sg x y \<Longrightarrow> CanonPath_less sg y z \<Longrightarrow> CanonPath_less sg x z"
proof (induction sg x y arbitrary: z rule: CanonPath_less.induct)
  case (4 sg c x d y)
  then show ?case by (cases z) (auto split: if_splits)
next
  case (2 sg d y)
  then show ?case by (cases z) auto
qed auto

lemma order_key_inject:
  assumes "c = slash \<or> 0 < char_value sg c" and "d = slash \<or> 0 < char_value sg d"
    and "order_key sg c = order_key sg d"
  shows "c = d"
  using assms by (auto simp: order_key_def dest: char_value_inject split: if_splits)

text \<open>
  Between a path and one below it there are only paths below it: in the order, a directory
  is followed directly by its contents.
\<close>

lemma order_interval:
  assumes "ordered_chars sg p" and "ordered_chars sg lb"
    and "\<not> CanonPath_less sg lb p" and "\<not> CanonPath_less sg (p @ r) lb"
    and "r = [] \<or> hd r = slash"
  shows "\<exists>r'. lb = p @ r' \<and> (r' = [] \<or> hd r' = slash)"
  using assms
proof (induction p arbitrary: lb)
  case Nil
  show ?case
  proof (cases lb)
    case (Cons d y)
    with Nil.prems obtain r'' where "r = slash # r''" by (cases r) auto
    with Nil.prems Cons have "\<not> 0 < order_key sg d"
      by (auto simp: order_key_def split: if_splits)
    with Nil.prems(2) Cons have "d = slash" by (auto simp: ordered_chars_def order_key_def split: if_splits)
    with Cons show ?thesis by simp
  qed simp
next
  case (Cons c p)
  from Cons.prems(3) obtain d y where lb: "lb = d # y" by (cases lb) auto
  have "order_key sg c = order_key sg d"
    using Cons.prems(3,4) lb by (auto split: if_splits)
  then have "d = c"
    using order_key_inject [of d sg c] Cons.prems(1,2) lb by (auto simp: ordered_chars_def)
  with Cons.IH [of y] Cons.prems lb show ?case by (auto simp: ordered_chars_def)
qed

lemma lower_bound_least:
  assumes "sorted_wrt (CanonPath_less sg) allowed" and "a \<in> set allowed"
    and "\<not> CanonPath_less sg a p"
  shows "\<exists>lb \<in> set allowed. lower_bound sg allowed p = Some lb \<and>
    \<not> CanonPath_less sg lb p \<and> \<not> CanonPath_less sg a lb"
  using assms
proof (induction allowed)
  case Nil
  then show ?case by simp
next
  case (Cons x allowed)
  show ?case
  proof (cases "CanonPath_less sg x p")
    case True
    with Cons show ?thesis by (auto simp: lower_bound_def)
  next
    case False
    then have "\<not> CanonPath_less sg a x"
      using Cons.prems CanonPath_less_asym CanonPath_less_irrefl by auto
    with False show ?thesis by (auto simp: lower_bound_def)
  qed
qed

lemma lower_bound_mem: "lower_bound sg allowed p = Some lb \<Longrightarrow> lb \<in> set allowed"
  by (auto simp: lower_bound_def find_Some_iff)

lemma CanonPath_less_append: "\<not> CanonPath_less sg (p @ r) p"
  by (induction p) (auto, cases r, auto)

lemma isWithin_append:
  assumes "valid_comps cs" and "valid_comps ds"
  shows "isWithin (render ds) (render cs) \<longleftrightarrow>
    cs = [] \<or> (\<exists>r. render ds = render cs @ r \<and> (r = [] \<or> hd r = slash))"
proof (cases "cs = []")
  case True
  with assms show ?thesis by (simp add: isWithin_render)
next
  case False
  have "isWithin (render ds) (render cs)"
    if "render ds = render cs @ r" "r = [] \<or> hd r = slash" for r
  proof -
    have "comps (joined cs @ r) = cs @ comps r"
      using assms(1) that(2) by (intro comps_joined_append) (auto simp: valid_comp_def)
    with that False have "comps (render ds) = cs @ comps r" by (simp add: render_def)
    with assms have "ds = cs @ comps r" by simp
    with assms show ?thesis by (simp add: isWithin_render)
  qed
  moreover have "\<exists>r. render ds = render cs @ r \<and> (r = [] \<or> hd r = slash)"
    if "ds = cs @ xs" for xs
    using that False hd_joined [of xs] by (intro exI [of _ "joined xs"]) (simp add: render_def)
  ultimately show ?thesis using assms False isWithin_render by blast
qed

lemma isAllowed_loop_correct:
  assumes "valid_comps cs"
  shows "isAllowed_loop allowed (render cs) \<longleftrightarrow>
    (\<exists>pre xs. cs = pre @ xs \<and> xs \<noteq> [] \<and> render pre \<in> set allowed)"
  using assms
proof (induction cs rule: rev_induct)
  case Nil
  then show ?case by (simp add: isAllowed_loop.simps [of allowed])
next
  case (snoc c cs)
  have "slash \<in> set (render (cs @ [c]))" by (simp add: render_def)
  with snoc have step: "isAllowed_loop allowed (render (cs @ [c])) \<longleftrightarrow>
      render cs \<in> set allowed \<or> isAllowed_loop allowed (render cs)"
    using up_to_last_slash_render [OF snoc.prems]
    by (subst isAllowed_loop.simps) (simp add: Let_def)
  have "(\<exists>pre xs. cs @ [c] = pre @ xs \<and> xs \<noteq> [] \<and> render pre \<in> set allowed) \<longleftrightarrow>
      render cs \<in> set allowed \<or> (\<exists>pre xs. cs = pre @ xs \<and> xs \<noteq> [] \<and> render pre \<in> set allowed)"
    by (auto simp: append_eq_append_conv2 Cons_eq_append_conv append_eq_Cons_conv) force+
  with step snoc show ?case by simp
qed

lemma ordered_chars_canonical:
  assumes "canonical p" and "\<not> sg \<or> (\<forall>c \<in> set p. of_char c < (128 :: nat))"
  shows "ordered_chars sg p"
proof -
  have pos: "0 < (of_char c :: nat)" if "c \<in> set p" for c
  proof -
    have "c \<noteq> CHR 0x00" using that assms(1) render_no_null by (metis canonicalE)
    then have "of_char c \<noteq> (of_char CHR 0x00 :: nat)" by (simp only: of_char_eq_iff) simp
    then show ?thesis by simp
  qed
  show ?thesis
    unfolding ordered_chars_def list_all_iff
  proof (intro ballI disjI2)
    fix c assume c: "c \<in> set p"
    with pos assms(2) show "0 < char_value sg c"
      by (auto simp: char_value_def Let_def)
  qed
qed

lemma isAllowed_correct:
  assumes "valid_comps cs" and "\<forall>a \<in> set allowed. canonical a"
    and "sorted_wrt (CanonPath_less sg) allowed"
    and "\<forall>a \<in> insert (render cs) (set allowed). ordered_chars sg a"
  shows "isAllowed sg (render cs) allowed \<longleftrightarrow>
    (\<exists>a \<in> set allowed. isWithin (render cs) a \<or> isWithin a (render cs))"
proof
  assume "isAllowed sg (render cs) allowed"
  then consider lb where "lb \<in> set allowed" "isWithin lb (render cs)"
    | pre xs where "cs = pre @ xs" "render pre \<in> set allowed"
    unfolding isAllowed_def isAllowed_loop_correct [OF assms(1)]
    by (auto split: option.splits dest: lower_bound_mem)
  then show "\<exists>a \<in> set allowed. isWithin (render cs) a \<or> isWithin a (render cs)"
  proof cases
    case 2
    with assms(1) isWithin_render [of cs pre] show ?thesis by auto
  qed auto
next
  assume "\<exists>a \<in> set allowed. isWithin (render cs) a \<or> isWithin a (render cs)"
  then obtain a where a: "a \<in> set allowed" "isWithin (render cs) a \<or> isWithin a (render cs)" by blast
  from a(1) assms(2) obtain ds where ds: "valid_comps ds" "a = render ds" by (metis canonicalE)
  have below: "isAllowed sg (render cs) allowed" if "isWithin a (render cs)"
  proof -
    have "\<exists>r. a = render cs @ r \<and> (cs \<noteq> [] \<longrightarrow> r = [] \<or> hd r = slash)"
    proof (cases "cs = []")
      case True
      have "render ds = [slash] @ tl (render ds)" by (cases ds) (simp_all add: render_def)
      with True ds(2) show ?thesis
        by (intro exI [of _ "tl (render ds)"]) (simp add: render_def [of "[]"])
    next
      case False
      with that isWithin_append [OF assms(1) ds(1)] ds(2) show ?thesis by auto
    qed
    then obtain r where r: "a = render cs @ r" "cs \<noteq> [] \<longrightarrow> r = [] \<or> hd r = slash" by blast
    from lower_bound_least [OF assms(3) a(1), of "render cs"] r CanonPath_less_append
    obtain lb where lb: "lb \<in> set allowed" "lower_bound sg allowed (render cs) = Some lb"
      "\<not> CanonPath_less sg lb (render cs)" "\<not> CanonPath_less sg a lb" by auto
    from lb(1) assms(2) obtain es where es: "valid_comps es" "lb = render es" by (metis canonicalE)
    have "isWithin lb (render cs)"
    proof (cases "cs = []")
      case True
      then show ?thesis using es assms(1) by (simp add: isWithin_append)
    next
      case False
      with r order_interval [of sg "render cs" lb r] lb assms(4) have
        "\<exists>r'. lb = render cs @ r' \<and> (r' = [] \<or> hd r' = slash)" by auto
      with es assms(1) show ?thesis by (simp add: isWithin_append)
    qed
    with lb show ?thesis by (simp add: isAllowed_def)
  qed
  show "isAllowed sg (render cs) allowed"
  proof (cases "isWithin a (render cs)")
    case False
    with a ds assms(1) obtain xs where xs: "cs = ds @ xs" by (auto simp: isWithin_render)
    with False ds assms(1) have "xs \<noteq> []" by (auto simp: isWithin_render)
    with xs a(1) ds show ?thesis
      unfolding isAllowed_def isAllowed_loop_correct [OF assms(1)] by auto
  qed (rule below)
qed

section \<open>Properties\<close>

text \<open>
  C31: constructing a path from any string without NUL bytes succeeds; the result is
  canonical, its components are those of the string with empty and dot components dropped
  and each dot-dot resolved (at the root it is dropped), and constructing again changes
  nothing.
\<close>

theorem CanonPath_of_normalises:
  assumes "CHR 0x00 \<notin> set raw"
  shows "\<exists>p. CanonPath_of raw = Inr p \<and> canonical p \<and>
    comps p = normalise [] (comps raw) \<and> CanonPath_of p = Inr p"
proof -
  let ?cs = "normalise [] (comps raw)"
  have v: "valid_comps ?cs" by (rule normalise_valid [OF assms])
  then have "CanonPath_of (render ?cs) = Inr (render ?cs)"
    by (simp add: CanonPath_of_eq render_no_null)
  with v assms show ?thesis by (simp add: CanonPath_of_eq canonicalI)
qed

theorem CanonPath_of_normalises_witness:
  "\<exists>p. CanonPath_of ''a/../..//b/./c'' = Inr p \<and> canonical p \<and> comps p = [''b'', ''c'']"
proof -
  have "normalise [] (comps ''a/../..//b/./c'') = [''b'', ''c'']" by (simp add: comps_def)
  with CanonPath_of_normalises [of "''a/../..//b/./c''"] show ?thesis by auto
qed

text \<open>
  C32: on canonical paths the string operations are the list operations on components:
  parent drops the last, extending concatenates, within is the prefix relation and
  removing a prefix drops it; every result is canonical and no assertion fails.
\<close>

theorem CanonPath_operations_refine:
  assumes "canonical p" and "canonical q"
  shows "CanonPath_parent p = (if comps p = [] then None else Some (render (butlast (comps p)))) \<and>
    canonical (extend p q) \<and> comps (extend p q) = comps p @ comps q \<and>
    (isWithin p q \<longleftrightarrow> take (length (comps q)) (comps p) = comps q) \<and>
    removePrefix (extend p q) p = Inr q \<and>
    iter_elems (rel p) = comps p"
proof -
  from assms obtain cs ds where c: "valid_comps cs" "p = render cs" "comps p = cs"
    and d: "valid_comps ds" "q = render ds" "comps q = ds" by (metis canonicalE)
  have v: "valid_comps (cs @ ds)" using c d by auto
  have "isWithin p q \<longleftrightarrow> take (length ds) cs = ds"
    unfolding c(2) d(2) isWithin_render [OF c(1) d(1)] by (metis append_eq_conv_conj)
  moreover have e: "extend p q = render (cs @ ds)"
    unfolding c(2) d(2) by (rule extend_render [OF c(1) d(1)])
  moreover have "removePrefix (extend p q) p = Inr q"
    unfolding e unfolding c(2) d(2) by (rule removePrefix_render [OF v])
  moreover have "iter_elems (rel p) = cs"
    unfolding c(2) rel_render [OF c(1)] rel_of_def [symmetric] by (rule iter_elems_rel_of [OF c(1)])
  moreover have "CanonPath_parent p = (if cs = [] then None else Some (render (butlast cs)))"
    unfolding c(2) by (rule parent_render [OF c(1)])
  ultimately show ?thesis
    unfolding c(3) d(3) using comps_render [OF v] canonicalI [OF v] by simp
qed

theorem CanonPath_operations_refine_witness:
  "canonical ''/a/b'' \<and> canonical ''/a'' \<and> comps (extend ''/a/b'' ''/a'') = [''a'', ''b'', ''a'']"
proof -
  have "canonical ''/a/b''" "canonical ''/a''"
    by (simp_all add: canonical_def comps_def render_def valid_comp_def)
  with CanonPath_operations_refine [of "''/a/b''" "''/a''"] show ?thesis by (simp add: comps_def)
qed

text \<open>
  Resolving the relative path from one canonical path to another against the first
  gives the second, as the header of \<^verbatim>\<open>makeRelative\<close> promises.
\<close>

theorem makeRelative_roundtrip:
  assumes "canonical p" and "canonical q"
  shows "CanonPath_relative_to (makeRelative p q) p = Inr q"
  using assms by (metis canonicalE makeRelative_inverse)

theorem makeRelative_roundtrip_witness:
  "CanonPath_relative_to (makeRelative ''/a/b'' ''/a/c/d'') ''/a/b'' = Inr ''/a/c/d''"
  by (rule makeRelative_roundtrip)
    (simp_all add: canonical_def comps_def render_def valid_comp_def)

text \<open>
  Where \<^verbatim>\<open>char\<close> is unsigned, or all paths are ASCII, \<^verbatim>\<open>isAllowed\<close> decides what its
  header says: the path is within an allowed path or an allowed path is within it.
\<close>

theorem isAllowed_iff:
  assumes "canonical p" and "\<forall>a \<in> set allowed. canonical a"
    and "sorted_wrt (CanonPath_less sg) allowed"
    and "\<not> sg \<or> (\<forall>a \<in> insert p (set allowed). \<forall>c \<in> set a. of_char c < (128 :: nat))"
  shows "isAllowed sg p allowed \<longleftrightarrow> (\<exists>a \<in> set allowed. isWithin p a \<or> isWithin a p)"
proof -
  have "\<forall>a \<in> insert p (set allowed). ordered_chars sg a"
    using assms by (auto intro: ordered_chars_canonical)
  moreover obtain cs where "valid_comps cs" "p = render cs" using assms(1) by (metis canonicalE)
  ultimately show ?thesis using isAllowed_correct assms(2,3) by auto
qed

theorem isAllowed_iff_witness:
  "isAllowed True ''/a'' [''/a/b'', ''/c''] \<longleftrightarrow>
     (\<exists>a \<in> set [''/a/b'', ''/c'']. isWithin ''/a'' a \<or> isWithin a ''/a'')"
  by (rule isAllowed_iff)
    (simp_all add: canonical_def comps_def render_def valid_comp_def order_key_def char_value_def)

text \<open>
  Where \<^verbatim>\<open>char\<close> is signed, bytes above 127 sort before the separator, the contents of a
  directory no longer follow it directly, and \<^verbatim>\<open>isAllowed\<close> denies a directory although an
  allowed path is within it.
\<close>

theorem isAllowed_signed_char_denies:
  "let allowed = [''/foo'' @ [CHR 0xC3], ''/foo/bar''] in
   sorted_wrt (CanonPath_less True) allowed \<and> list_all canonical allowed \<and>
   isWithin ''/foo/bar'' ''/foo'' \<and> \<not> isAllowed True ''/foo'' allowed"
proof -
  have "isAllowed_loop [''/foo'' @ [CHR 0xC3], ''/foo/bar''] ''/foo'' = False"
    by (simp add: isAllowed_loop.simps isRoot_def up_to_last_slash_def rfind_char_def)
  then show ?thesis
    by (simp add: isAllowed_def lower_bound_def isWithin_def canonical_def comps_def render_def
        valid_comp_def order_key_def char_value_def)
qed

end
