(* ===== verification/Strings.thy ===== *)
theory Strings
  imports Prelude
begin

text \<open>
  String utilities (\<^verbatim>\<open>libutil/strings-inline.hh\<close>, \<^verbatim>\<open>strings.cc\<close>, \<^verbatim>\<open>util.cc\<close>): tokenising,
  splitting and joining, splitting and quoting of shell words, trimming, replacement and
  rewriting. A position that only moves forward through a string is modelled by the rest of
  the string from that position.
\<close>

section \<open>Tokenising, splitting, joining\<close>

text \<open>
  \<^verbatim>\<open>find_first_not_of\<close> skips separators; the token starts there and, as the search for its
  end starts one character further, runs to the next separator.
\<close>

function tokenizeString :: "string \<Rightarrow> string \<Rightarrow> string list" where
  "tokenizeString s separators =
     (case dropWhile (\<lambda>c. c \<in> set separators) s of
        [] \<Rightarrow> []
      | c # cs \<Rightarrow>
          (let n = length (takeWhile (\<lambda>c. c \<notin> set separators) cs)
           in (c # take n cs) # tokenizeString (drop n cs) separators))"
  by pat_completeness auto
termination
proof (relation "measure (\<lambda>(s, separators). length s)", goal_cases)
  case (2 s separators c cs n)
  have "length (dropWhile (\<lambda>c. c \<in> set separators) s) \<le> length s"
    by (rule length_dropWhile_le)
  with 2 show ?case by simp
qed simp

declare tokenizeString.simps [simp del]

text \<open>
  \<^verbatim>\<open>basicSplitStringInto\<close> on a sequence container: one piece per separator and one more; the
  loop ends when the last piece reached the end of the string.
\<close>

function splitString :: "string \<Rightarrow> string \<Rightarrow> string list" where
  "splitString s separators =
     (let end = length (takeWhile (\<lambda>c. c \<notin> set separators) s)
      in take end s # (if end < length s then splitString (drop (end + 1) s) separators else []))"
  by pat_completeness auto
termination by (relation "measure (\<lambda>(s, separators). length s)") auto

declare splitString.simps [simp del]

definition concatStringsSep :: "string \<Rightarrow> string list \<Rightarrow> string" where
  "concatStringsSep sep ss =
     snd (foldl (\<lambda>(tail, s) i. (True, (if tail then s @ sep else s) @ i)) (False, []) ss)"

definition dropEmptyInitThenConcatStringsSep :: "string \<Rightarrow> string list \<Rightarrow> string" where
  "dropEmptyInitThenConcatStringsSep sep ss =
     foldl (\<lambda>s i. (if length s \<noteq> 0 then s @ sep else s) @ i) [] ss"

section \<open>Shell words\<close>

text \<open>The local variables of \<^verbatim>\<open>shellSplitString\<close> that its lambdas share.\<close>

record shell_state =
  sh_result :: "string list"
  sh_current :: string
  sh_startedCurrent :: bool
  sh_escaping :: bool

definition pushCurrent :: "shell_state \<Rightarrow> shell_state" where
  "pushCurrent st =
     (if sh_startedCurrent st
      then st\<lparr>sh_result := sh_result st @ [sh_current st], sh_current := [], sh_startedCurrent := False\<rparr>
      else st)"

definition pushChar :: "char \<Rightarrow> shell_state \<Rightarrow> shell_state" where
  "pushChar c st = st\<lparr>sh_current := sh_current st @ [c], sh_startedCurrent := True\<rparr>"

fun inDoubleQuotes_loop :: "string \<Rightarrow> shell_state \<Rightarrow> (string \<times> shell_state) result" where
  "inDoubleQuotes_loop [] st = Inl (GenericError ''unterminated double quote'')"
| "inDoubleQuotes_loop (c # s) st =
     (if sh_escaping st then
        (if c = CHR ''$'' \<or> c = CHR 0x60 \<or> c = CHR 0x22 \<or> c = CHR 0x5C
         then inDoubleQuotes_loop s (pushChar c st\<lparr>sh_escaping := False\<rparr>)
         else inDoubleQuotes_loop s (pushChar c (pushChar (CHR 0x5C) st\<lparr>sh_escaping := False\<rparr>)))
      else if c = CHR 0x5C then inDoubleQuotes_loop s (st\<lparr>sh_escaping := True\<rparr>)
      else if c = CHR 0x22 then Inr (s, st)
      else inDoubleQuotes_loop s (pushChar c st))"

definition inDoubleQuotes :: "string \<Rightarrow> shell_state \<Rightarrow> (string \<times> shell_state) result" where
  "inDoubleQuotes s st = inDoubleQuotes_loop s (st\<lparr>sh_startedCurrent := True\<rparr>)"

fun inSingleQuotes_loop :: "string \<Rightarrow> shell_state \<Rightarrow> (string \<times> shell_state) result" where
  "inSingleQuotes_loop [] st = Inl (GenericError ''unterminated single quote'')"
| "inSingleQuotes_loop (c # s) st =
     (if c = CHR 0x27 then Inr (s, st) else inSingleQuotes_loop s (pushChar c st))"

definition inSingleQuotes :: "string \<Rightarrow> shell_state \<Rightarrow> (string \<times> shell_state) result" where
  "inSingleQuotes s st = inSingleQuotes_loop s (st\<lparr>sh_startedCurrent := True\<rparr>)"

lemma inDoubleQuotes_loop_length:
  "inDoubleQuotes_loop s st = Inr (s', st') \<Longrightarrow> length s' < length s"
  by (induction s st rule: inDoubleQuotes_loop.induct) (auto split: if_splits)

lemma inSingleQuotes_loop_length:
  "inSingleQuotes_loop s st = Inr (s', st') \<Longrightarrow> length s' < length s"
  by (induction s st rule: inSingleQuotes_loop.induct) (auto split: if_splits)

function shellSplit_loop :: "string \<Rightarrow> shell_state \<Rightarrow> shell_state result" where
  "shellSplit_loop [] st = Inr st"
| "shellSplit_loop (c # s) st =
     (if sh_escaping st then shellSplit_loop s (pushChar c st\<lparr>sh_escaping := False\<rparr>)
      else if c = CHR 0x5C then shellSplit_loop s (st\<lparr>sh_escaping := True\<rparr>)
      else if c = CHR '' '' \<or> c = CHR 0x09 then shellSplit_loop s (pushCurrent st)
      else if c = CHR 0x22 then
        result_bind (inDoubleQuotes s st) (\<lambda>p. shellSplit_loop (fst p) (snd p))
      else if c = CHR 0x27 then
        result_bind (inSingleQuotes s st) (\<lambda>p. shellSplit_loop (fst p) (snd p))
      else shellSplit_loop s (pushChar c st))"
  by pat_completeness auto
termination
  by (relation "measure (\<lambda>(s, st). length s)")
     (auto simp: inDoubleQuotes_def inSingleQuotes_def
       dest!: inDoubleQuotes_loop_length inSingleQuotes_loop_length)

definition shellSplitString :: "string \<Rightarrow> string list result" where
  "shellSplitString s =
     result_bind
       (shellSplit_loop s \<lparr>sh_result = [], sh_current = [], sh_startedCurrent = False, sh_escaping = False\<rparr>)
       (\<lambda>st. Inr (sh_result (pushCurrent st)))"

definition escapeShellArgAlways :: "string \<Rightarrow> string" where
  "escapeShellArgAlways s =
     foldl (\<lambda>r i. if i = CHR 0x27 then r @ [CHR 0x27, CHR 0x5C, CHR 0x27, CHR 0x27] else r @ [i])
       [CHR 0x27] s @ [CHR 0x27]"

definition optionalBracket :: "string \<Rightarrow> string \<Rightarrow> string \<Rightarrow> string" where
  "optionalBracket pre content suff = (if content = [] then [] else pre @ content @ suff)"

definition requireCString :: "string \<Rightarrow> string result" where
  "requireCString s =
     (if CHR 0x00 \<in> set s
      then Inl (GenericError ''string with null bytes used where it's not allowed'') else Inr s)"

section \<open>Trimming, prefixes, lines\<close>

text \<open>\<^verbatim>\<open>find_last_not_of\<close> followed by the prefix that ends there.\<close>

definition drop_last_of :: "string \<Rightarrow> string \<Rightarrow> string" where
  "drop_last_of ws s = rev (dropWhile (\<lambda>c. c \<in> set ws) (rev s))"

definition whitespace_chars :: string where
  "whitespace_chars = [CHR '' '', CHR 0x0A, CHR 0x0D, CHR 0x09]"

definition chomp :: "string \<Rightarrow> string" where
  "chomp s = drop_last_of whitespace_chars s"

definition trim :: "string \<Rightarrow> string \<Rightarrow> string" where
  "trim s whitespace = drop_last_of whitespace (dropWhile (\<lambda>c. c \<in> set whitespace) s)"

definition hasPrefix :: "string \<Rightarrow> string \<Rightarrow> bool" where
  "hasPrefix s pre = (take (length pre) s = pre)"

definition hasSuffix :: "string \<Rightarrow> string \<Rightarrow> bool" where
  "hasSuffix s suff = (length s \<ge> length suff \<and> drop (length s - length suff) s = suff)"

definition getLine :: "string \<Rightarrow> string \<times> string" where
  "getLine s = (case find_char (CHR 0x0A) s of
     None \<Rightarrow> (s, [])
   | Some newline \<Rightarrow>
       (let line = take newline s;
            line' = (if line \<noteq> [] \<and> last line = CHR 0x0D then butlast line else line)
        in (line', drop (newline + 1) s)))"

section \<open>Replacement and rewriting\<close>

text \<open>\<^verbatim>\<open>s.find(pat, pos)\<close> and \<^verbatim>\<open>s.replace(pos, n, to)\<close>.\<close>

definition find_str :: "string \<Rightarrow> string \<Rightarrow> nat \<Rightarrow> nat option" where
  "find_str s pat pos =
     List.find (\<lambda>i. i + length pat \<le> length s \<and> take (length pat) (drop i s) = pat) [pos..<Suc (length s)]"

definition replace_at :: "string \<Rightarrow> nat \<Rightarrow> nat \<Rightarrow> string \<Rightarrow> string" where
  "replace_at s pos n to = take pos s @ to @ drop (pos + n) s"

lemma find_str_SomeD:
  assumes "find_str s pat pos = Some i"
  shows "pos \<le> i" "i + length pat \<le> length s" "take (length pat) (drop i s) = pat"
    "\<forall>j. pos \<le> j \<and> j < i \<longrightarrow> take (length pat) (drop j s) \<noteq> pat"
proof -
  obtain k where k: "k < Suc (length s) - pos" "i = pos + k"
      "i + length pat \<le> length s" "take (length pat) (drop i s) = pat"
      "\<forall>j<k. \<not> (pos + j + length pat \<le> length s \<and> take (length pat) (drop (pos + j) s) = pat)"
    using assms by (auto simp: find_str_def find_Some_iff simp del: upt_Suc)
  then show "pos \<le> i" "i + length pat \<le> length s" "take (length pat) (drop i s) = pat"
    by simp_all
  show "\<forall>j. pos \<le> j \<and> j < i \<longrightarrow> take (length pat) (drop j s) \<noteq> pat"
  proof (intro allI impI)
    fix j assume j: "pos \<le> j \<and> j < i"
    then have "j - pos < k" "pos + (j - pos) = j" using k(2) by auto
    with k(5) have "\<not> (j + length pat \<le> length s \<and> take (length pat) (drop j s) = pat)"
      by metis
    moreover have "j + length pat \<le> length s" using j k(3) by simp
    ultimately show "take (length pat) (drop j s) \<noteq> pat" by simp
  qed
qed

lemma find_str_bounds: "find_str s pat pos = Some i \<Longrightarrow> pos \<le> i \<and> i + length pat \<le> length s"
  using find_str_SomeD by blast

lemma find_str_None_iff:
  "find_str s pat pos = None \<longleftrightarrow>
     (\<forall>i. pos \<le> i \<and> i + length pat \<le> length s \<longrightarrow> take (length pat) (drop i s) \<noteq> pat)"
  by (auto simp: find_str_def find_None_iff)

function replaceStrings_loop :: "string \<Rightarrow> string \<Rightarrow> string \<Rightarrow> nat \<Rightarrow> string" where
  "replaceStrings_loop res from to pos =
     (if from = [] then res
      else case find_str res from pos of
        None \<Rightarrow> res
      | Some p \<Rightarrow> replaceStrings_loop (replace_at res p (length from) to) from to (p + length to))"
  by pat_completeness auto
termination
proof (relation "measure (\<lambda>(res, from, to, pos). length res - pos)", goal_cases)
  case (2 res pat to pos p)
  then have p: "pos \<le> p" "p + length pat \<le> length res" "0 < length pat"
    using find_str_bounds by auto
  then have "length res - (length pat + p) < length res - pos" by linarith
  with p show ?case by (simp add: replace_at_def)
qed simp

declare replaceStrings_loop.simps [simp del]

definition replaceStrings :: "string \<Rightarrow> string \<Rightarrow> string \<Rightarrow> string" where
  "replaceStrings res from to = (if from = [] then res else replaceStrings_loop res from to 0)"

text \<open>
  The loop of \<^verbatim>\<open>rewriteStrings\<close> searches again from the position of the replacement it just
  made, so it need not end; \<open>None\<close> is a loop that does not. The rewrites are the entries of
  the \<^verbatim>\<open>StringMap\<close> in its order; the matches are collected in the order they are found.
\<close>

partial_function (option) rewrite_loop ::
  "string \<Rightarrow> string \<Rightarrow> string \<Rightarrow> nat \<Rightarrow> nat list \<Rightarrow> (string \<times> nat list) option" where
  [code]: "rewrite_loop from to s j ms = (case find_str s from j of
     None \<Rightarrow> Some (s, ms)
   | Some k \<Rightarrow> rewrite_loop from to (replace_at s k (length from) to) k (ms @ [k]))"

fun rewriteStrings_from ::
  "(string \<times> string) list \<Rightarrow> string \<Rightarrow> nat list \<Rightarrow> (string \<times> nat list) option" where
  "rewriteStrings_from [] s ms = Some (s, ms)"
| "rewriteStrings_from (i # rewrites) s ms =
     (if fst i = snd i then rewriteStrings_from rewrites s ms
      else case rewrite_loop (fst i) (snd i) s 0 ms of
        None \<Rightarrow> None
      | Some (s', ms') \<Rightarrow> rewriteStrings_from rewrites s' ms')"

definition rewriteStrings ::
  "string \<Rightarrow> (string \<times> string) list \<Rightarrow> nat \<Rightarrow> (string \<times> nat list) option" where
  "rewriteStrings s rewrites offsetShift =
     map_option (\<lambda>(s', ms). (s', map (\<lambda>j. j + offsetShift) ms)) (rewriteStrings_from rewrites s [])"

section \<open>Splitting and joining\<close>

lemma concatStringsSep_loop:
  "snd (foldl (\<lambda>(tail, s) i. (True, (if tail then s @ sep else s) @ i)) (True, acc) ss) =
     acc @ concat (map (\<lambda>i. sep @ i) ss)"
  by (induction ss arbitrary: acc) auto

lemma concatStringsSep_simps [simp]:
  "concatStringsSep sep [] = []"
  "concatStringsSep sep (x # ss) = x @ concat (map (\<lambda>i. sep @ i) ss)"
  by (simp_all add: concatStringsSep_def concatStringsSep_loop)

lemma dropEmptyInitThenConcatStringsSep_eq:
  "dropEmptyInitThenConcatStringsSep sep ss = concatStringsSep sep (dropWhile (\<lambda>s. s = []) ss)"
proof (induction ss)
  case (Cons x ss)
  have loop: "acc \<noteq> [] \<Longrightarrow>
      foldl (\<lambda>s i. (if length s \<noteq> 0 then s @ sep else s) @ i) acc ss =
        acc @ concat (map (\<lambda>i. sep @ i) ss)" for acc ss
    by (induction ss arbitrary: acc) auto
  show ?case
    using Cons loop [of x ss] by (simp add: dropEmptyInitThenConcatStringsSep_def)
qed (simp add: dropEmptyInitThenConcatStringsSep_def)

lemma splitString_no_separator:
  "set s \<inter> set separators = {} \<Longrightarrow> splitString s separators = [s]"
proof -
  assume "set s \<inter> set separators = {}"
  then have tw: "takeWhile (\<lambda>c. c \<notin> set separators) s = s"
    by (auto simp: takeWhile_eq_all_conv)
  show ?thesis by (subst splitString.simps) (simp only: tw Let_def, simp)
qed

lemma splitString_append:
  assumes "set p \<inter> set separators = {}" "c \<in> set separators"
  shows "splitString (p @ c # s) separators = p # splitString s separators"
proof -
  have "takeWhile (\<lambda>c. c \<notin> set separators) (p @ c # s) = p"
    using assms by (subst takeWhile_append2) auto
  then show ?thesis by (subst splitString.simps) (simp add: Let_def)
qed

lemma splitString_cases:
  obtains (last) "set s \<inter> set separators = {}"
  | (more) p c r where "s = p @ c # r" "set p \<inter> set separators = {}" "c \<in> set separators"
proof (cases "set s \<inter> set separators = {}")
  case False
  then have "\<exists>c\<in>set s. c \<in> set separators" by auto
  then obtain p c r where "s = p @ c # r" "c \<in> set separators" "\<forall>x\<in>set p. x \<notin> set separators"
    using split_list_first_prop [of s "\<lambda>c. c \<in> set separators"] by blast
  then show ?thesis using more [of p c r] by blast
qed (rule last)

lemma splitString_nonempty: "splitString s separators \<noteq> []"
  by (subst splitString.simps) (simp add: Let_def)

lemma splitString_pieces: "p \<in> set (splitString s separators) \<Longrightarrow> set p \<inter> set separators = {}"
proof (induction "length s" arbitrary: s rule: less_induct)
  case less
  show ?case
  proof (cases rule: splitString_cases [of s separators])
    case last
    with less show ?thesis by (simp add: splitString_no_separator)
  next
    case (more q c r)
    with less.prems have "p = q \<or> p \<in> set (splitString r separators)"
      by (simp add: splitString_append)
    with more less.hyps [of r] show ?thesis by auto
  qed
qed

lemma concat_splitString: "concatStringsSep [sep] (splitString s [sep]) = s"
proof (induction "length s" arbitrary: s rule: less_induct)
  case less
  show ?case
  proof (cases rule: splitString_cases [of s "[sep]"])
    case last
    then show ?thesis by (simp add: splitString_no_separator)
  next
    case (more p c r)
    then have s: "s = p @ sep # r" by simp
    obtain x xs where x: "splitString r [sep] = x # xs"
      using splitString_nonempty [of r "[sep]"] by (cases "splitString r [sep]") auto
    have "concatStringsSep [sep] (splitString r [sep]) = r" using less s by simp
    with x s more show ?thesis by (simp add: splitString_append)
  qed
qed

lemma splitString_concat:
  assumes "ss \<noteq> []" "\<forall>p\<in>set ss. sep \<notin> set p"
  shows "splitString (concatStringsSep [sep] ss) [sep] = ss"
  using assms
proof (induction ss rule: induct_list012)
  case (3 x y zs)
  have "concatStringsSep [sep] (x # y # zs) = x @ sep # concatStringsSep [sep] (y # zs)"
    by simp
  then show ?case using 3 by (simp only: splitString_append) (simp add: splitString_append)
qed (simp_all add: splitString_no_separator)

lemma tokenizeString_skip:
  "c \<in> set separators \<Longrightarrow> tokenizeString (c # s) separators = tokenizeString s separators"
  by (subst (1 2) tokenizeString.simps) simp

lemma tokenizeString_Nil [simp]: "tokenizeString [] separators = []"
  by (simp add: tokenizeString.simps)

lemma tokenizeString_last:
  assumes "set s \<inter> set separators = {}" "s \<noteq> []"
  shows "tokenizeString s separators = [s]"
proof -
  obtain c cs where s: "s = c # cs" using assms(2) by (cases s) auto
  have tw: "takeWhile (\<lambda>c. c \<notin> set separators) cs = cs"
    using assms(1) s by (auto simp: takeWhile_eq_all_conv)
  have dw: "dropWhile (\<lambda>c. c \<in> set separators) s = c # cs" using assms(1) s by simp
  show ?thesis by (subst tokenizeString.simps) (simp only: dw tw Let_def list.case, simp add: s)
qed

lemma tokenizeString_append:
  assumes "set p \<inter> set separators = {}" "p \<noteq> []" "c \<in> set separators"
  shows "tokenizeString (p @ c # s) separators = p # tokenizeString s separators"
proof -
  obtain d ds where p: "p = d # ds" using assms(2) by (cases p) auto
  have tw: "takeWhile (\<lambda>c. c \<notin> set separators) (ds @ c # s) = ds"
    using assms p by (subst takeWhile_append2) auto
  have "tokenizeString (p @ c # s) separators = p # tokenizeString (c # s) separators"
    using assms(1) p by (subst tokenizeString.simps) (simp add: tw Let_def)
  then show ?thesis using assms(3) by (simp add: tokenizeString_skip)
qed

lemma tokenizeString_splitString:
  "tokenizeString s separators = filter (\<lambda>p. p \<noteq> []) (splitString s separators)"
proof (induction "length s" arbitrary: s rule: less_induct)
  case less
  show ?case
  proof (cases rule: splitString_cases [of s separators])
    case last
    then show ?thesis
      by (cases "s = []") (simp_all add: splitString_no_separator tokenizeString_last)
  next
    case (more p c r)
    then have "tokenizeString r separators = filter (\<lambda>p. p \<noteq> []) (splitString r separators)"
      using less by simp
    with more show ?thesis
      by (cases "p = []") (simp_all add: splitString_append splitString_append [of "[]", simplified]
        tokenizeString_append tokenizeString_skip)
  qed
qed

text \<open>
  Splitting and joining are inverse for a one-character separator, the pieces of a split
  never contain a separator, and \<open>tokenizeString\<close> gives exactly the non-empty pieces
  that \<open>splitString\<close> gives.
\<close>

theorem splitString_concat_roundtrip:
  assumes "ss \<noteq> []" "\<forall>p\<in>set ss. sep \<notin> set p"
  shows "concatStringsSep [sep] (splitString s [sep]) = s \<and>
    splitString (concatStringsSep [sep] ss) [sep] = ss \<and>
    (\<forall>p\<in>set (splitString s separators). set p \<inter> set separators = {}) \<and>
    tokenizeString s separators = filter (\<lambda>p. p \<noteq> []) (splitString s separators)"
  using concat_splitString splitString_concat [OF assms] splitString_pieces tokenizeString_splitString
  by blast

theorem splitString_concat_roundtrip_witness:
  "splitString (concatStringsSep '':'' [''a'', '''', ''bc'']) '':'' = [''a'', '''', ''bc'']"
  by (rule splitString_concat_roundtrip [THEN conjunct2, THEN conjunct1]) simp_all

section \<open>Shell words\<close>

lemma escapeShellArgAlways_eq:
  "escapeShellArgAlways s = CHR 0x27 #
     concat (map (\<lambda>i. if i = CHR 0x27 then [CHR 0x27, CHR 0x5C, CHR 0x27, CHR 0x27] else [i]) s)
     @ [CHR 0x27]"
proof -
  have "foldl (\<lambda>r i. if i = CHR 0x27 then r @ [CHR 0x27, CHR 0x5C, CHR 0x27, CHR 0x27] else r @ [i]) r s
      = r @ concat (map (\<lambda>i. if i = CHR 0x27 then [CHR 0x27, CHR 0x5C, CHR 0x27, CHR 0x27] else [i]) s)"
    for r
    by (induction s arbitrary: r) auto
  then show ?thesis by (simp add: escapeShellArgAlways_def)
qed

lemma quoted_body:
  assumes "\<not> sh_escaping st"
  shows "result_bind (inSingleQuotes
       (concat (map (\<lambda>i. if i = CHR 0x27 then [CHR 0x27, CHR 0x5C, CHR 0x27, CHR 0x27] else [i]) s)
        @ CHR 0x27 # t) st) (\<lambda>p. shellSplit_loop (fst p) (snd p)) =
     shellSplit_loop t (st\<lparr>sh_current := sh_current st @ s, sh_startedCurrent := True\<rparr>)"
  using assms
proof (induction s arbitrary: st)
  case Nil
  then show ?case by (simp add: inSingleQuotes_def)
next
  case (Cons c s)
  let ?st = "st\<lparr>sh_current := sh_current st @ [c], sh_startedCurrent := True\<rparr>"
  have "\<not> sh_escaping ?st" using Cons.prems by simp
  from Cons.IH [OF this] Cons.prems show ?case
    by (cases st; cases "c = CHR 0x27") (simp_all add: inSingleQuotes_def pushChar_def)
qed

lemma shellSplit_escaped:
  assumes "\<not> sh_escaping st"
  shows "shellSplit_loop (escapeShellArgAlways s @ t) st =
     shellSplit_loop t (st\<lparr>sh_current := sh_current st @ s, sh_startedCurrent := True\<rparr>)"
  using quoted_body [OF assms, of s t] assms by (simp add: escapeShellArgAlways_eq)

lemma shellSplit_args:
  assumes "\<not> sh_escaping st" "sh_startedCurrent st"
  shows "shellSplit_loop (concat (map (\<lambda>i. '' '' @ i) (map escapeShellArgAlways args))) st =
     Inr (if args = [] then st else
       st\<lparr>sh_result := sh_result st @ sh_current st # butlast args, sh_current := last args\<rparr>)"
  using assms
proof (induction args arbitrary: st)
  case (Cons a args)
  let ?st = "st\<lparr>sh_result := sh_result st @ [sh_current st], sh_current := a\<rparr>"
  have "shellSplit_loop (concat (map (\<lambda>i. '' '' @ i) (map escapeShellArgAlways args))) ?st =
      Inr (if args = [] then ?st else
        ?st\<lparr>sh_result := sh_result ?st @ sh_current ?st # butlast args, sh_current := last args\<rparr>)"
    by (rule Cons.IH) (use Cons.prems in simp_all)
  with Cons.prems show ?case
    using shellSplit_escaped [of "pushCurrent st" a "[]"]
    by (cases st; cases "args = []") (simp_all add: shellSplit_escaped pushCurrent_def)
qed simp

text \<open>
  Quoting every argument with \<open>escapeShellArgAlways\<close>, joining with spaces and
  splitting with \<open>shellSplitString\<close> gives back the arguments, whatever characters
  they contain (quotes, backslashes, blanks, empty arguments).
\<close>

theorem shellSplitString_escape_roundtrip:
  "shellSplitString (concatStringsSep '' '' (map escapeShellArgAlways args)) = Inr args"
proof (cases args)
  case (Cons a as)
  show ?thesis
    by (simp add: Cons shellSplitString_def shellSplit_escaped shellSplit_args [simplified]
      pushCurrent_def)
qed (simp add: shellSplitString_def pushCurrent_def)

lemma shellSplit_plain:
  assumes "set s \<inter> {CHR 0x5C, CHR 0x22, CHR 0x27} = {}" "\<not> sh_escaping st"
    "sh_startedCurrent st \<longleftrightarrow> sh_current st \<noteq> []" "set (sh_current st) \<inter> set [CHR '' '', CHR 0x09] = {}"
  shows "result_bind (shellSplit_loop s st) (\<lambda>st. Inr (sh_result (pushCurrent st))) =
     Inr (sh_result st @ tokenizeString (sh_current st @ s) [CHR '' '', CHR 0x09])"
  using assms
proof (induction s arbitrary: st)
  case Nil
  then show ?case
    by (cases "sh_current st = []") (simp_all add: pushCurrent_def tokenizeString_last)
next
  case (Cons c s)
  show ?case
  proof (cases "c = CHR '' '' \<or> c = CHR 0x09")
    case True
    have inv: "\<not> sh_escaping (pushCurrent st)" "sh_current (pushCurrent st) = []"
        "\<not> sh_startedCurrent (pushCurrent st)"
      using Cons.prems by (auto simp: pushCurrent_def)
    then have IH: "result_bind (shellSplit_loop s (pushCurrent st)) (\<lambda>st. Inr (sh_result (pushCurrent st))) =
        Inr (sh_result (pushCurrent st) @ tokenizeString s [CHR '' '', CHR 0x09])"
      using Cons.IH [of "pushCurrent st"] Cons.prems by simp
    show ?thesis
    proof (cases "sh_current st = []")
      case empty: True
      with True IH Cons.prems show ?thesis
        by (auto simp: tokenizeString_skip pushCurrent_def)
    next
      case False
      then have "tokenizeString (sh_current st @ c # s) [CHR '' '', CHR 0x09] =
          sh_current st # tokenizeString s [CHR '' '', CHR 0x09]"
        using True Cons.prems by (intro tokenizeString_append) auto
      with False True IH Cons.prems show ?thesis by (auto simp: pushCurrent_def)
    qed
  next
    case False
    have inv: "\<not> sh_escaping (pushChar c st)"
      "sh_startedCurrent (pushChar c st) \<longleftrightarrow> sh_current (pushChar c st) \<noteq> []"
      "set (sh_current (pushChar c st)) \<inter> set [CHR '' '', CHR 0x09] = {}"
      using Cons.prems False by (auto simp: pushChar_def)
    from False Cons.prems Cons.IH [OF _ inv] show ?thesis by (auto simp: pushChar_def)
  qed
qed

text \<open>
  On a string without quotes and backslashes \<open>shellSplitString\<close> never fails and gives
  the tokens between blanks, as the \<open>tokenizeString\<close> it replaced.
\<close>

theorem shellSplitString_plain:
  assumes "set s \<inter> {CHR 0x5C, CHR 0x22, CHR 0x27} = {}"
  shows "shellSplitString s = Inr (tokenizeString s [CHR '' '', CHR 0x09])"
  using shellSplit_plain [OF assms, of "\<lparr>sh_result = [], sh_current = [], sh_startedCurrent = False, sh_escaping = False\<rparr>"]
  by (simp add: shellSplitString_def)

theorem shellSplitString_plain_witness:
  "shellSplitString ''-p 22 x'' = Inr (tokenizeString ''-p 22 x'' [CHR '' '', CHR 0x09])"
  by (rule shellSplitString_plain) simp

section \<open>Rewriting\<close>

lemma rewrite_loop_same_length:
  assumes "length to = length from" "from \<noteq> to"
  shows "\<exists>s' ms'. rewrite_loop from to s j ms = Some (s', ms') \<and> length s' = length s"
proof (induction "Suc (length s) - j" arbitrary: s j ms rule: less_induct)
  case less
  show ?case
  proof (cases "find_str s from j")
    case None
    then show ?thesis by (subst rewrite_loop.simps) simp
  next
    case (Some k)
    note k = find_str_SomeD [OF Some]
    define s1 where "s1 = replace_at s k (length from) to"
    have len: "length s1 = length s" using k(2) assms(1) by (simp add: s1_def replace_at_def)
    have at_k: "take (length from) (drop k s1) = to" using k(2) assms(1) by (simp add: s1_def replace_at_def)
    have step: "rewrite_loop from to s j ms = rewrite_loop from to s1 k (ms @ [k])"
      by (subst rewrite_loop.simps) (simp add: Some s1_def)
    show ?thesis
    proof (cases "find_str s1 from k")
      case None
      then have "rewrite_loop from to s1 k (ms @ [k]) = Some (s1, ms @ [k])"
        by (subst rewrite_loop.simps) simp
      then show ?thesis using len step by simp
    next
      case more: (Some k')
      note k' = find_str_SomeD [OF more]
      have "k' \<noteq> k" using k'(3) at_k assms(2) by auto
      with k'(1,2) k(1) len have "k < k'" "k' \<le> length s" by simp_all
      define s2 where "s2 = replace_at s1 k' (length from) to"
      have len2: "length s2 = length s" using k'(2) assms(1) len by (simp add: s2_def replace_at_def)
      have "rewrite_loop from to s1 k (ms @ [k]) = rewrite_loop from to s2 k' (ms @ [k] @ [k'])"
        by (subst rewrite_loop.simps) (simp add: more s2_def)
      moreover have "Suc (length s2) - k' < Suc (length s) - j"
        using \<open>k < k'\<close> \<open>k' \<le> length s\<close> k(1) len2 by simp
      ultimately show ?thesis using less [of s2 k' "ms @ [k] @ [k']"] step len2 by simp
    qed
  qed
qed

lemma rewriteStrings_from_same_length:
  "\<forall>(a, b)\<in>set rws. length a = length b \<Longrightarrow>
     \<exists>s' ms'. rewriteStrings_from rws s ms = Some (s', ms') \<and> length s' = length s"
proof (induction rws arbitrary: s ms)
  case (Cons i rws)
  show ?case
  proof (cases "fst i = snd i")
    case True
    with Cons show ?thesis by simp
  next
    case False
    have "length (snd i) = length (fst i)" using Cons.prems by (cases i) auto
    then obtain s1 ms1 where "rewrite_loop (fst i) (snd i) s 0 ms = Some (s1, ms1)" "length s1 = length s"
      using rewrite_loop_same_length False by blast
    moreover obtain s2 ms2 where "rewriteStrings_from rws s1 ms1 = Some (s2, ms2)" "length s2 = length s1"
      using Cons.IH [of s1 ms1] Cons.prems by auto
    ultimately show ?thesis using False by simp
  qed
qed simp

text \<open>A replacement that contains its key is found again at or after the position it was put.\<close>

lemma find_str_replaced:
  assumes "find_str s pat j = Some k" "find_str to pat 0 \<noteq> None"
  shows "find_str (replace_at s k (length pat) to) pat k \<noteq> None"
proof -
  obtain m where m: "m + length pat \<le> length to" "take (length pat) (drop m to) = pat"
    using assms(2) find_str_bounds find_str_SomeD(3) by blast
  have "k \<le> length s" using find_str_bounds [OF assms(1)] by simp
  then have "take (length pat) (drop (k + m) (replace_at s k (length pat) to)) = pat"
      "k + m + length pat \<le> length (replace_at s k (length pat) to)"
    using m by (simp_all add: replace_at_def)
  then show ?thesis unfolding find_str_None_iff by (meson le_add1)
qed

lemma rewrite_loop_returned:
  "rewrite_loop pat to s j ms = Some r \<Longrightarrow> find_str to pat 0 \<noteq> None \<Longrightarrow> find_str s pat j = None"
proof (rule ccontr)
  assume r: "rewrite_loop pat to s j ms = Some r" and to: "find_str to pat 0 \<noteq> None"
  have "find_str to pat 0 \<noteq> None \<longrightarrow> find_str s pat j = None"
  proof (rule rewrite_loop.raw_induct [OF _ r,
      where P = "\<lambda>pat to s j ms r. find_str to pat 0 \<noteq> None \<longrightarrow> find_str s pat j = None"], goal_cases)
    case (1 rl pat to s j ms r)
    show ?case
    proof (cases "find_str s pat j")
      case (Some k)
      with 1 have "find_str to pat 0 \<noteq> None \<longrightarrow>
          find_str (replace_at s k (length pat) to) pat k = None" by simp
      with find_str_replaced [OF Some] show ?thesis by blast
    qed simp
  qed
  moreover assume "find_str s pat j \<noteq> None"
  ultimately show False using to by simp
qed

text \<open>
  \<open>rewriteStrings\<close> returns, and keeps the length of the string, when every rewrite
  replaces a key by a string of the same length, as hash rewriting does. It does not return
  when the string contains a key that is also part of the key's own (different) replacement.
\<close>

theorem rewriteStrings_returns:
  "((\<forall>(a, b)\<in>set rws. length a = length b) \<longrightarrow>
     (\<exists>s' ms. rewriteStrings s rws offsetShift = Some (s', ms) \<and> length s' = length s)) \<and>
   (a \<noteq> b \<and> find_str b a 0 \<noteq> None \<and> find_str s a 0 \<noteq> None \<longrightarrow>
     rewriteStrings s ((a, b) # rws) offsetShift = None)"
proof
  show "(\<forall>(a, b)\<in>set rws. length a = length b) \<longrightarrow>
     (\<exists>s' ms. rewriteStrings s rws offsetShift = Some (s', ms) \<and> length s' = length s)"
    using rewriteStrings_from_same_length [of rws s "[]"] by (auto simp: rewriteStrings_def)
  have "rewrite_loop a b s 0 [] = None" if "find_str b a 0 \<noteq> None" "find_str s a 0 \<noteq> None"
    using rewrite_loop_returned [of a b s 0 "[]"] that by (cases "rewrite_loop a b s 0 []") auto
  then show "a \<noteq> b \<and> find_str b a 0 \<noteq> None \<and> find_str s a 0 \<noteq> None \<longrightarrow>
     rewriteStrings s ((a, b) # rws) offsetShift = None"
    by (simp add: rewriteStrings_def)
qed

theorem rewriteStrings_returns_witness:
  "(\<exists>s' ms. rewriteStrings ''abb'' [(''ab'', ''xa'')] 7 = Some (s', ms) \<and> length s' = length ''abb'') \<and>
   rewriteStrings ''cat'' [(''a'', ''aa'')] 0 = None"
proof
  show "\<exists>s' ms. rewriteStrings ''abb'' [(''ab'', ''xa'')] 7 = Some (s', ms) \<and> length s' = length ''abb''"
    by (rule rewriteStrings_returns [THEN conjunct1, THEN mp]) simp
  show "rewriteStrings ''cat'' [(''a'', ''aa'')] 0 = None"
    by (rule rewriteStrings_returns [THEN conjunct2, THEN mp]) (simp add: find_str_def)
qed

end
