(* ===== verification/Store_Path.thy ===== *)
theory Store_Path
  imports Hash Canon_Path Strings "HOL-Library.Char_ord" "HOL-Library.List_Lexorder"
begin

text \<open>
  Store paths (\<^verbatim>\<open>libstore/path.cc\<close>, \<^verbatim>\<open>path.hh\<close>) and the store directory
  (\<^verbatim>\<open>store-dir-config.cc\<close>): validation of names and base names, printing and parsing
  relative to the store directory, and the construction of a store path from a fingerprint.
\<close>

section \<open>Names and base names\<close>

datatype StorePath = StorePath (baseName: string)

definition HashLen :: nat where
  "HashLen = 32"

definition MaxPathLen :: nat where
  "MaxPathLen = 211"

definition in_range :: "char \<Rightarrow> char \<Rightarrow> char \<Rightarrow> bool" where
  "in_range lo hi c \<longleftrightarrow> (of_char lo :: nat) \<le> of_char c \<and> of_char c \<le> (of_char hi :: nat)"

definition name_char :: "char \<Rightarrow> bool" where
  "name_char c \<longleftrightarrow> in_range CHR ''0'' CHR ''9'' c \<or> in_range CHR ''a'' CHR ''z'' c \<or>
     in_range CHR ''A'' CHR ''Z'' c \<or> c = CHR ''+'' \<or> c = CHR ''-'' \<or> c = CHR ''.'' \<or> c = CHR ''_'' \<or>
     c = CHR ''?'' \<or> c = CHR ''=''"

definition checkName :: "string \<Rightarrow> unit result" where
  "checkName name =
     (if name = [] then Inl (BadStorePathName ''name must not be empty'')
      else if length name > MaxPathLen then Inl (BadStorePathName ''name must be no longer than 211 characters'')
      else result_bind
        (if name ! 0 = CHR ''.'' then
           (if length name = 1 then Inl (BadStorePathName ''name is not valid'')
            else if name ! 1 = CHR ''-'' then
              Inl (BadStorePathName ''first dash-separated component must not be .'')
            else if name ! 1 = CHR ''.'' then
              (if length name = 2 then Inl (BadStorePathName ''name is not valid'')
               else if name ! 2 = CHR ''-'' then
                 Inl (BadStorePathName ''first dash-separated component must not be ..'')
               else Inr ())
            else Inr ())
         else Inr ())
        (\<lambda>_. ensure (list_all name_char name) (BadStorePathName ''name contains illegal character'')))"

definition checkPathName :: "string \<Rightarrow> string \<Rightarrow> unit result" where
  "checkPathName path name = (case checkName name of
     Inl (BadStorePathName m) \<Rightarrow> Inl (BadStorePath m)
   | r \<Rightarrow> r)"

definition hash_char :: "char \<Rightarrow> bool" where
  "hash_char c \<longleftrightarrow> \<not> (c = CHR ''e'' \<or> c = CHR ''o'' \<or> c = CHR ''u'' \<or> c = CHR ''t'' \<or>
     \<not> (in_range CHR ''0'' CHR ''9'' c \<or> in_range CHR ''a'' CHR ''z'' c))"

definition StorePath_hashPart :: "StorePath \<Rightarrow> string" where
  "StorePath_hashPart p = take HashLen (baseName p)"

text \<open>\<^verbatim>\<open>substr\<close> throws when the base name is shorter than the start position.\<close>

definition StorePath_name :: "StorePath \<Rightarrow> string" where
  "StorePath_name p = drop (HashLen + 1) (baseName p)"

definition StorePath_of :: "string \<Rightarrow> StorePath result" where
  "StorePath_of base =
     result_bind (ensure (\<not> length base < HashLen + 1) (BadStorePath ''too short to be a valid store path'')) (\<lambda>_.
     result_bind (ensure (list_all hash_char (StorePath_hashPart (StorePath base)))
       (BadStorePath ''contains illegal base-32 character'')) (\<lambda>_.
     result_bind (checkPathName base (StorePath_name (StorePath base))) (\<lambda>_. Inr (StorePath base))))"

definition StorePath_of_hash :: "Hash \<Rightarrow> string \<Rightarrow> StorePath result" where
  "StorePath_of_hash h name =
     result_bind (Hash_to_string h Nix32 False) (\<lambda>s.
       let base = s @ ''-'' @ name in
       result_bind (ensure (\<not> length base < HashLen + 1) (GenericError ''std::out_of_range'')) (\<lambda>_.
       result_bind (checkPathName base (StorePath_name (StorePath base))) (\<lambda>_. Inr (StorePath base))))"

definition drvExtension :: string where
  "drvExtension = ''.drv''"

definition isDerivation :: "StorePath \<Rightarrow> bool" where
  "isDerivation p = hasSuffix (StorePath_name p) drvExtension"

definition requireDerivation :: "StorePath \<Rightarrow> unit result" where
  "requireDerivation p =
     ensure (isDerivation p) (FormatError ''store path is not a valid derivation path'')"

text \<open>\<^verbatim>\<open>operator<=>\<close> is that of the base names; the sets of store paths iterate in it.\<close>

instantiation StorePath :: linorder
begin

definition less_eq_StorePath :: "StorePath \<Rightarrow> StorePath \<Rightarrow> bool" where
  "less_eq_StorePath p q \<longleftrightarrow> baseName p \<le> baseName q"

definition less_StorePath :: "StorePath \<Rightarrow> StorePath \<Rightarrow> bool" where
  "less_StorePath p q \<longleftrightarrow> baseName p < baseName q"

instance
  by standard (auto simp: less_eq_StorePath_def less_StorePath_def intro: StorePath.expand)

end

section \<open>The store directory\<close>

record StoreDirConfig =
  storeDir :: string

text \<open>
  \<^verbatim>\<open>std::filesystem::path\<close>: an absolute path starts with a separator; comparison is by
  elements, where a trailing separator counts as an empty last element.
\<close>

definition fs_is_absolute :: "string \<Rightarrow> bool" where
  "fs_is_absolute s \<longleftrightarrow> s \<noteq> [] \<and> hd s = slash"

definition fs_elems :: "string \<Rightarrow> string list" where
  "fs_elems s = comps s @ (if comps s \<noteq> [] \<and> last s = slash then [[]] else [])"

definition fs_eq :: "string \<Rightarrow> string \<Rightarrow> bool" where
  "fs_eq a b \<longleftrightarrow> fs_is_absolute a = fs_is_absolute b \<and> fs_elems a = fs_elems b"

definition fs_filename :: "string \<Rightarrow> string" where
  "fs_filename s = rev (takeWhile (\<lambda>c. c \<noteq> slash) (rev s))"

definition fs_parent_path :: "string \<Rightarrow> string" where
  "fs_parent_path s =
     (let dir = rev (dropWhile (\<lambda>c. c = slash) (dropWhile (\<lambda>c. c \<noteq> slash) (rev s)))
      in if comps s = [] then s else if dir = [] \<and> fs_is_absolute s then [slash] else dir)"

text \<open>\<^verbatim>\<open>canonPath\<close> without resolving symbolic links.\<close>

definition canonPath :: "string \<Rightarrow> string result" where
  "canonPath path =
     result_bind (ensure (path \<noteq> []) (GenericError ''cannot canonicalise an empty path'')) (\<lambda>_.
     result_bind (ensure (fs_is_absolute path) (GenericError ''not an absolute path'')) (\<lambda>_.
       canonPathInner path))"

definition parseStorePath :: "StoreDirConfig \<Rightarrow> string \<Rightarrow> StorePath result" where
  "parseStorePath cfg path =
     result_bind (ensure (path \<noteq> []) (BadStorePath ''empty path is not a valid store path'')) (\<lambda>_.
     result_bind (canonPath path) (\<lambda>p.
     result_bind (ensure (fs_eq (fs_parent_path p) (storeDir cfg)) (BadStorePath ''path is not in the Nix store'')) (\<lambda>_.
       StorePath_of (fs_filename p))))"

text \<open>A failing assertion is not an exception and is not caught.\<close>

definition maybeParseStorePath :: "StoreDirConfig \<Rightarrow> string \<Rightarrow> StorePath option result" where
  "maybeParseStorePath cfg path = (case parseStorePath cfg path of
     Inr p \<Rightarrow> Inr (Some p)
   | Inl (AssertionFailed m) \<Rightarrow> Inl (AssertionFailed m)
   | Inl _ \<Rightarrow> Inr None)"

definition isStorePath :: "StoreDirConfig \<Rightarrow> string \<Rightarrow> bool result" where
  "isStorePath cfg path = result_bind (maybeParseStorePath cfg path) (\<lambda>r. Inr (r \<noteq> None))"

text \<open>The set is traversed in its order and the first error is thrown.\<close>

definition parseStorePathSet :: "StoreDirConfig \<Rightarrow> string set \<Rightarrow> StorePath set result" where
  "parseStorePathSet cfg paths =
     result_bind (map_result (parseStorePath cfg) (sorted_list_of_set paths)) (\<lambda>ps. Inr (set ps))"

definition printStorePath :: "StoreDirConfig \<Rightarrow> StorePath \<Rightarrow> string" where
  "printStorePath cfg path = storeDir cfg @ ''/'' @ baseName path"

definition printStorePathSet :: "StoreDirConfig \<Rightarrow> StorePath set \<Rightarrow> string set" where
  "printStorePathSet cfg paths = printStorePath cfg ` paths"

text \<open>The characters of a string as the bytes a hash function reads.\<close>

definition string_bytes :: "string \<Rightarrow> bytes" where
  "string_bytes s = map of_char s"

type_synonym digests = "HashAlgorithm \<Rightarrow> bytes \<Rightarrow> bytes"

text \<open>E.g. \<^verbatim>\<open>source:sha256:1abc...:/nix/store:foo.tar.gz\<close>.\<close>

definition store_path_fingerprint :: "StoreDirConfig \<Rightarrow> string \<Rightarrow> string \<Rightarrow> string \<Rightarrow> string" where
  "store_path_fingerprint cfg type hash_str name =
     type @ '':'' @ hash_str @ '':'' @ storeDir cfg @ '':'' @ name"

definition makeStorePath ::
  "digests \<Rightarrow> ExperimentalFeatureSettings \<Rightarrow> StoreDirConfig \<Rightarrow> string \<Rightarrow> string \<Rightarrow> string \<Rightarrow> StorePath result" where
  "makeStorePath digest xp cfg type hash_str name =
     (let s = store_path_fingerprint cfg type hash_str name in
      result_bind (hashString digest SHA256 (string_bytes s) xp) (\<lambda>h0.
      result_bind (compressHash xp h0 20) (\<lambda>h. StorePath_of_hash h name)))"

definition makeStorePath_hash ::
  "digests \<Rightarrow> ExperimentalFeatureSettings \<Rightarrow> StoreDirConfig \<Rightarrow> string \<Rightarrow> Hash \<Rightarrow> string \<Rightarrow> StorePath result" where
  "makeStorePath_hash digest xp cfg type h name =
     result_bind (Hash_to_string h Base16 True) (\<lambda>s. makeStorePath digest xp cfg type s name)"

section \<open>Validity\<close>

definition valid_name :: "string \<Rightarrow> bool" where
  "valid_name n \<longleftrightarrow> n \<noteq> [] \<and> length n \<le> MaxPathLen \<and> list_all name_char n \<and>
     takeWhile (\<lambda>c. c \<noteq> CHR ''-'') n \<notin> {''.'', ''..''}"

definition valid_base :: "string \<Rightarrow> bool" where
  "valid_base s \<longleftrightarrow> HashLen + 1 \<le> length s \<and> set (take HashLen s) \<subseteq> set BaseNix32_characters \<and>
     valid_name (drop (HashLen + 1) s)"

lemma checkName_iff: "checkName n = Inr () \<longleftrightarrow> valid_name n"
proof -
  consider "n = []" | c where "n = [c]" | c d where "n = [c, d]" | c d e r where "n = c # d # e # r"
    by (metis list.exhaust)
  then show ?thesis
    by cases (auto simp: checkName_def valid_name_def ensure_def result_simps MaxPathLen_def)
qed

lemma checkName_error: "checkName n = Inl e \<Longrightarrow> \<exists>m. e = BadStorePathName m"
  by (auto simp: checkName_def ensure_def result_simps split: if_splits)

lemma checkPathName_iff: "checkPathName p n = Inr () \<longleftrightarrow> valid_name n"
  using checkName_iff [of n] by (auto simp: checkPathName_def split: sum.splits nix_error.splits)

lemma checkPathName_error: "\<not> valid_name n \<Longrightarrow> \<exists>m. checkPathName p n = Inl (BadStorePath m)"
  using checkName_iff [of n] checkName_error [of n]
  by (auto simp: checkPathName_def split: sum.splits nix_error.splits)

lemma char_eq_code: "c = d \<longleftrightarrow> (of_char c :: nat) = of_char d"
  by simp

lemma hash_char_iff: "hash_char c \<longleftrightarrow> c \<in> set BaseNix32_characters"
proof -
  define n where "n = (of_char c :: nat)"
  have "hash_char c \<longleftrightarrow> n \<in> set [48..<58] \<union> set [97..<101] \<union> set [102..<111] \<union> set [112..<116] \<union>
      set [118..<123]"
  proof -
    have codes: "hash_char c \<longleftrightarrow> n \<noteq> 101 \<and> n \<noteq> 111 \<and> n \<noteq> 117 \<and> n \<noteq> 116 \<and>
        (48 \<le> n \<and> n \<le> 57 \<or> 97 \<le> n \<and> n \<le> 122)"
      by (simp add: hash_char_def in_range_def char_eq_code n_def del: of_char_eq_iff)
    show ?thesis unfolding codes set_upt Un_iff atLeastLessThan_iff by linarith
  qed
  moreover have "c \<in> set BaseNix32_characters \<longleftrightarrow> n \<in> set (map of_char BaseNix32_characters)"
    by (auto simp: n_def)
  moreover have "map of_char BaseNix32_characters = [48..<58] @ [97..<101] @ [102..<111] @ [112..<116] @
      [118..<123::nat]"
    by (simp add: BaseNix32_characters_def upt_rec)
  ultimately show ?thesis by (simp only: set_append Un_iff) blast
qed

lemma StorePath_of_iff: "StorePath_of s = Inr p \<longleftrightarrow> p = StorePath s \<and> valid_base s"
  by (auto simp: StorePath_of_def result_simps valid_base_def checkPathName_iff StorePath_hashPart_def
    StorePath_name_def list_all_iff hash_char_iff)

lemma StorePath_of_error_iff: "(\<exists>m. StorePath_of s = Inl (BadStorePath m)) \<longleftrightarrow> \<not> valid_base s"
proof
  assume "\<not> valid_base s"
  then have "\<not> (HashLen + 1 \<le> length s) \<or> \<not> list_all hash_char (take HashLen s) \<or>
      \<not> valid_name (drop (HashLen + 1) s)"
    by (auto simp: valid_base_def list_all_iff hash_char_iff)
  then show "\<exists>m. StorePath_of s = Inl (BadStorePath m)"
    using checkPathName_error [of "drop (HashLen + 1) s" s]
    by (auto simp: StorePath_of_def StorePath_hashPart_def StorePath_name_def ensure_def
      checkPathName_iff [of s, symmetric])
next
  assume "\<exists>m. StorePath_of s = Inl (BadStorePath m)"
  then show "\<not> valid_base s" using StorePath_of_iff [of s "StorePath s"] by auto
qed

text \<open>
  The constructor from a base name accepts exactly the strings of at least 33 characters
  whose first 32 are Nix32 digits and whose rest after one more character is a valid name:
  non-empty, at most 211 of the allowed characters, and with a first dash-separated component
  other than \<^verbatim>\<open>.\<close> and \<^verbatim>\<open>..\<close>; everything else is a \<open>BadStorePath\<close> error. The separator
  at position 32 is not inspected: replacing it changes nothing.
\<close>

theorem StorePath_of_accepts:
  "(StorePath_of s = Inr p \<longleftrightarrow> p = StorePath s \<and> valid_base s) \<and>
   ((\<exists>m. StorePath_of s = Inl (BadStorePath m)) \<longleftrightarrow> \<not> valid_base s) \<and>
   (StorePath_of (s[HashLen := c]) = Inr (StorePath (s[HashLen := c])) \<longleftrightarrow>
     StorePath_of s = Inr (StorePath s))"
  by (simp add: StorePath_of_iff StorePath_of_error_iff valid_base_def)

section \<open>Printing and parsing\<close>

text \<open>The separator a constructed store path has and the constructor from a base name ignores.\<close>

definition wf_path :: "StorePath \<Rightarrow> bool" where
  "wf_path p \<longleftrightarrow> valid_base (baseName p) \<and> baseName p ! HashLen = CHR ''-''"

lemma name_char_plain: "name_char c \<Longrightarrow> c \<noteq> slash \<and> c \<noteq> CHR 0x00"
  by (auto simp: name_char_def in_range_def)

lemma BaseNix32_plain: "c \<in> set BaseNix32_characters \<Longrightarrow> c \<noteq> slash \<and> c \<noteq> CHR 0x00"
  by (auto simp: BaseNix32_characters_def)

lemma wf_path_split:
  assumes "wf_path p"
  shows "baseName p = StorePath_hashPart p @ CHR ''-'' # StorePath_name p"
  using assms id_take_nth_drop [of HashLen "baseName p"]
  by (simp add: wf_path_def valid_base_def StorePath_hashPart_def StorePath_name_def)

lemma valid_base_comp:
  assumes "wf_path p"
  shows "valid_comp (baseName p)"
proof -
  have len: "HashLen + 1 \<le> length (baseName p)" using assms by (simp add: wf_path_def valid_base_def)
  have "set (StorePath_hashPart p) \<subseteq> set BaseNix32_characters" "\<forall>c\<in>set (StorePath_name p). name_char c"
    using assms
    by (simp_all add: wf_path_def valid_base_def valid_name_def StorePath_hashPart_def StorePath_name_def
      list_all_iff)
  then have "c \<noteq> slash \<and> c \<noteq> CHR 0x00" if "c \<in> set (baseName p)" for c
    using that wf_path_split [OF assms] name_char_plain BaseNix32_plain by force
  moreover have "baseName p \<noteq> []" "baseName p \<noteq> ''.''" "baseName p \<noteq> ''..''"
    using len by (auto simp: HashLen_def)
  ultimately show ?thesis unfolding valid_comp_def by blast
qed

lemma render_absolute: "valid_comps cs \<Longrightarrow> fs_is_absolute (render cs)"
  by (cases cs) (auto simp: render_def fs_is_absolute_def)

lemma last_joined: "valid_comp c \<Longrightarrow> last (joined (cs @ [c])) \<noteq> slash"
  by (auto simp: valid_comp_def dest: last_in_set)

lemma fs_elems_render:
  assumes "valid_comps cs"
  shows "fs_elems (render cs) = cs"
proof (cases cs rule: rev_cases)
  case (snoc ds d)
  then have "last (render cs) \<noteq> slash"
    using assms last_joined [of d ds] by (simp add: render_def del: joined_simps)
  with assms show ?thesis by (simp add: fs_elems_def)
qed (simp add: fs_elems_def render_def comps_def)

lemma fs_filename_render:
  assumes "valid_comps (cs @ [c])"
  shows "fs_filename (render (cs @ [c])) = c"
proof -
  have "\<forall>x\<in>set (rev c). x \<noteq> slash" using assms by (auto simp: valid_comp_def)
  then have "takeWhile (\<lambda>c. c \<noteq> slash) (rev c @ slash # rev (joined cs)) = rev c"
    by (subst takeWhile_append2) auto
  then show ?thesis by (simp add: fs_filename_def render_def)
qed

lemma fs_parent_path_render:
  assumes "valid_comps (cs @ [c])"
  shows "fs_parent_path (render (cs @ [c])) = render cs"
proof -
  have c: "\<forall>x\<in>set (rev c). x \<noteq> slash" using assms by (auto simp: valid_comp_def)
  have 1: "dropWhile (\<lambda>c. c \<noteq> slash) (rev c @ slash # rev (joined cs)) = slash # rev (joined cs)"
    using c by (subst dropWhile_append2) auto
  have 2: "dropWhile (\<lambda>c. c = slash) (rev (joined cs)) = rev (joined cs)"
  proof (cases cs rule: rev_cases)
    case (snoc ds d)
    with assms have "valid_comp d" by simp
    then have "last (joined cs) \<noteq> slash" "joined cs \<noteq> []"
      using last_joined [of d ds] snoc by auto
    then show ?thesis by (cases "joined cs" rule: rev_cases) auto
  qed simp
  have "joined cs = [] \<longleftrightarrow> cs = []" by (cases cs) auto
  moreover have "comps (render (cs @ [c])) \<noteq> []" using assms by simp
  moreover have "fs_is_absolute (render (cs @ [c]))" using assms by (rule render_absolute)
  ultimately show ?thesis
    using 1 2 by (auto simp: fs_parent_path_def Let_def render_def)
qed

lemma printed_comps:
  assumes "valid_comps cs" "valid_comp c"
  shows "comps (render cs @ slash # c) = cs @ [c]"
proof -
  have c: "comps (slash # c) = [c]"
    using assms(2) comps_render [of "[c]"] by (simp add: render_def)
  show ?thesis
    using assms comps_joined_append [of cs "slash # c"] c by (auto simp: render_def valid_comp_def)
qed

lemma canonPath_Inr:
  assumes "canonPath s = Inr q" "CHR 0x00 \<notin> set s"
  obtains ds where "valid_comps ds" "q = render ds"
  using assms normalise_valid [OF assms(2)]
  by (auto simp: canonPath_def result_simps canonPathInner_correct)

lemma parse_printed:
  assumes "canonical (storeDir cfg)" "wf_path p"
  shows "parseStorePath cfg (printStorePath cfg p) = Inr p"
proof -
  obtain cs where cs: "valid_comps cs" "storeDir cfg = render cs"
    using assms(1) by (rule canonicalE) (rule that)
  have base: "valid_comp (baseName p)" using assms(2) by (rule valid_base_comp)
  have abs: "fs_is_absolute (printStorePath cfg p)"
    using render_absolute [OF cs(1)] cs(2) by (auto simp: fs_is_absolute_def printStorePath_def)
  have "canonPath (printStorePath cfg p) = Inr (render (cs @ [baseName p]))"
    using abs cs base printed_comps [OF cs(1) base]
    by (simp add: canonPath_def canonPathInner_correct printStorePath_def)
  then show ?thesis
    using cs base assms(2) fs_parent_path_render [of cs "baseName p"] fs_filename_render [of cs "baseName p"]
    by (cases p) (simp add: parseStorePath_def fs_eq_def StorePath_of_iff wf_path_def,
      simp add: printStorePath_def StorePath_of_iff)
qed

lemma print_parsed:
  assumes "canonical (storeDir cfg)" "storeDir cfg \<noteq> [slash]" "CHR 0x00 \<notin> set s"
    and "parseStorePath cfg s = Inr p"
  shows "canonPath s = Inr (printStorePath cfg p) \<and> valid_base (baseName p)"
proof -
  obtain cs where cs: "valid_comps cs" "storeDir cfg = render cs"
    using assms(1) by (rule canonicalE) (rule that)
  from assms(4) obtain q where q: "canonPath s = Inr q" "fs_eq (fs_parent_path q) (render cs)"
      "StorePath_of (fs_filename q) = Inr p"
    by (auto simp: parseStorePath_def result_simps cs(2))
  obtain ds where ds: "valid_comps ds" "q = render ds"
    using canonPath_Inr [OF q(1) assms(3)] by blast
  have p: "p = StorePath (fs_filename q)" "valid_base (fs_filename q)"
    using q(3) by (simp_all add: StorePath_of_iff)
  show ?thesis
  proof (cases ds rule: rev_cases)
    case Nil
    with ds p(2) show ?thesis by (simp add: fs_filename_def render_def valid_base_def)
  next
    case (snoc es e)
    with ds q(2) cs have "es = cs"
      by (auto simp: fs_eq_def fs_parent_path_render fs_elems_render)
    moreover have "cs \<noteq> []" using assms(2) cs(2) by (auto simp: render_def)
    ultimately show ?thesis
      using snoc ds p q(1) cs fs_filename_render [of es e] by (simp add: printStorePath_def render_def)
  qed
qed

text \<open>
  C34: For a canonical store directory, parsing a printed store path gives it back; and what
  parses is, canonicalised, the printed form of the result. Parsing therefore accepts exactly
  the direct children of the store directory with a valid base name.
\<close>

theorem StorePath_print_parse:
  assumes "canonical (storeDir cfg)"
  shows "(wf_path p \<longrightarrow> parseStorePath cfg (printStorePath cfg p) = Inr p) \<and>
    (storeDir cfg \<noteq> ''/'' \<and> CHR 0x00 \<notin> set s \<and> parseStorePath cfg s = Inr q \<longrightarrow>
      canonPath s = Inr (printStorePath cfg q) \<and> valid_base (baseName q))"
  using parse_printed [OF assms] print_parsed [OF assms, of s q] by simp

theorem StorePath_print_parse_witness:
  "parseStorePath \<lparr>storeDir = ''/nix/store''\<rparr>
     (printStorePath \<lparr>storeDir = ''/nix/store''\<rparr> (StorePath ''ffffffffffffffffffffffffffffffff-x'')) =
   Inr (StorePath ''ffffffffffffffffffffffffffffffff-x'')"
proof -
  have "canonical (storeDir \<lparr>storeDir = ''/nix/store''\<rparr>)" by code_simp
  moreover have "wf_path (StorePath ''ffffffffffffffffffffffffffffffff-x'')" by code_simp
  ultimately show ?thesis using StorePath_print_parse by blast
qed

section \<open>Constructed store paths\<close>

lemma compressHash_20:
  assumes "compressHash xp h0 20 = Inr h"
  shows "length (hash_bytes h) = 20 \<and> hashSize h = 20"
proof -
  have len: "length (fold (\<lambda>i a. a[i mod 20 := a ! (i mod 20) XOR hash h0 ! i]) is b) = length b"
    for "is" b by (induction "is" arbitrary: b) auto
  from assms len show ?thesis
    by (auto simp: compressHash_def result_simps hash_bytes_def maxHashSize_def dest!: Hash_new_Inr)
qed

lemma StorePath_of_hash_20:
  assumes "length (hash_bytes h) = 20" "hashSize h = 20"
  shows "StorePath_of_hash h name =
     result_bind (checkPathName (BaseNix32_encode (hash_bytes h) @ ''-'' @ name) name)
       (\<lambda>_. Inr (StorePath (BaseNix32_encode (hash_bytes h) @ ''-'' @ name)))"
proof -
  have "hash_bytes h \<noteq> []" using assms by auto
  then have "length (BaseNix32_encode (hash_bytes h)) = 32"
    using assms by (simp add: length_BaseNix32_encode BaseNix32_encodedLength_def)
  with assms show ?thesis
    by (simp add: StorePath_of_hash_def Hash_to_string_def StorePath_name_def HashLen_def Let_def)
qed

lemma makeStorePath_eq:
  "\<exists>d. length d = 20 \<and> makeStorePath digest xp cfg type hash_str name =
     result_bind (checkPathName (BaseNix32_encode d @ ''-'' @ name) name)
       (\<lambda>_. Inr (StorePath (BaseNix32_encode d @ ''-'' @ name)))"
proof -
  let ?s = "string_bytes (store_path_fingerprint cfg type hash_str name)"
  obtain h0 where h0: "hashString digest SHA256 ?s xp = Inr h0" "algo h0 = SHA256"
    by (simp add: hashString_def Hash_new_enabled algo_enabled_def Let_def)
  then obtain h where h: "compressHash xp h0 20 = Inr h"
    by (simp add: compressHash_def Hash_new_enabled algo_enabled_def)
  with h0 compressHash_20 [OF h] show ?thesis
    by (intro exI [of _ "hash_bytes h"]) (simp add: makeStorePath_def Let_def StorePath_of_hash_20)
qed

lemma wf_path_constructed:
  assumes "length d = 20" "valid_name name"
  shows "wf_path (StorePath (BaseNix32_encode d @ ''-'' @ name))"
    and "StorePath_name (StorePath (BaseNix32_encode d @ ''-'' @ name)) = name"
proof -
  have "d \<noteq> []" using assms(1) by auto
  then have "length (BaseNix32_encode d) = HashLen"
    using assms(1) by (simp add: length_BaseNix32_encode BaseNix32_encodedLength_def HashLen_def)
  then show "wf_path (StorePath (BaseNix32_encode d @ ''-'' @ name))"
      "StorePath_name (StorePath (BaseNix32_encode d @ ''-'' @ name)) = name"
    using assms(2) BaseNix32_encode_chars [of d]
    by (simp_all add: wf_path_def valid_base_def StorePath_name_def nth_append)
qed

text \<open>
  \<open>makeStorePath\<close> succeeds exactly for valid names, whatever the digest function
  returns; the result carries the name, has the dash separator and is accepted again by the
  constructor from a base name. An invalid name is a \<open>BadStorePath\<close> error.
\<close>

theorem makeStorePath_valid:
  "if valid_name name
   then \<exists>p. makeStorePath digest xp cfg type hash_str name = Inr p \<and> wf_path p \<and>
     StorePath_name p = name \<and> StorePath_of (baseName p) = Inr p
   else \<exists>m. makeStorePath digest xp cfg type hash_str name = Inl (BadStorePath m)"
proof -
  obtain d where d: "length d = 20" "makeStorePath digest xp cfg type hash_str name =
     result_bind (checkPathName (BaseNix32_encode d @ ''-'' @ name) name)
       (\<lambda>_. Inr (StorePath (BaseNix32_encode d @ ''-'' @ name)))"
    using makeStorePath_eq by blast
  show ?thesis
  proof (cases "valid_name name")
    case True
    with d wf_path_constructed [OF d(1) True] show ?thesis
      by (simp add: checkPathName_iff [of _ name, THEN iffD2] StorePath_of_iff) (simp add: wf_path_def)
  next
    case False
    with d checkPathName_error [OF False, of "BaseNix32_encode d @ ''-'' @ name"] show ?thesis by auto
  qed
qed

end
