(* ===== verification/Content_Address.thy ===== *)
theory Content_Address
  imports Store_Path
begin

text \<open>
  Content addresses (\<^verbatim>\<open>libstore/content-address.cc\<close>, \<^verbatim>\<open>libutil/file-content-address.cc\<close>) and the
  store paths computed from them (\<^verbatim>\<open>libstore/store-dir-config.cc\<close>): rendering and parsing of
  methods and addresses, and the fingerprints of fixed-output and text paths.
\<close>

section \<open>Methods\<close>

datatype FileIngestionMethod = FIM_Flat | FIM_NixArchive | FIM_Git

datatype FileSerialisationMethod = FSM_Flat | FSM_NixArchive

datatype ContentAddressMethod = CAM_Flat | CAM_NixArchive | CAM_Git | CAM_Text

definition parseFileSerialisationMethodOpt :: "string \<Rightarrow> FileSerialisationMethod option" where
  "parseFileSerialisationMethodOpt input =
     (if input = ''flat'' then Some FSM_Flat
      else if input = ''nar'' then Some FSM_NixArchive else None)"

definition parseFileSerialisationMethod :: "string \<Rightarrow> FileSerialisationMethod result" where
  "parseFileSerialisationMethod input = (case parseFileSerialisationMethodOpt input of
     Some r \<Rightarrow> Inr r | None \<Rightarrow> Inl (UsageError ''Unknown file serialiation method''))"

text \<open>The \<^verbatim>\<open>static_cast\<close>s between the two enumerations, which share their first two values.\<close>

fun ingestion_of_serialisation :: "FileSerialisationMethod \<Rightarrow> FileIngestionMethod" where
  "ingestion_of_serialisation FSM_Flat = FIM_Flat"
| "ingestion_of_serialisation FSM_NixArchive = FIM_NixArchive"

definition parseFileIngestionMethod :: "string \<Rightarrow> FileIngestionMethod result" where
  "parseFileIngestionMethod input =
     (if input = ''git'' then Inr FIM_Git
      else case parseFileSerialisationMethodOpt input of
        Some r \<Rightarrow> Inr (ingestion_of_serialisation r)
      | None \<Rightarrow> Inl (UsageError ''Unknown file ingestion method''))"

fun renderFileSerialisationMethod :: "FileSerialisationMethod \<Rightarrow> string" where
  "renderFileSerialisationMethod FSM_Flat = ''flat''"
| "renderFileSerialisationMethod FSM_NixArchive = ''nar''"

fun renderFileIngestionMethod :: "FileIngestionMethod \<Rightarrow> string" where
  "renderFileIngestionMethod FIM_Flat = renderFileSerialisationMethod FSM_Flat"
| "renderFileIngestionMethod FIM_NixArchive = renderFileSerialisationMethod FSM_NixArchive"
| "renderFileIngestionMethod FIM_Git = ''git''"

fun makeFileIngestionPrefix ::
  "ExperimentalFeatureSettings \<Rightarrow> FileIngestionMethod \<Rightarrow> string result" where
  "makeFileIngestionPrefix xp FIM_Flat = Inr []"
| "makeFileIngestionPrefix xp FIM_NixArchive = Inr ''r:''"
| "makeFileIngestionPrefix xp FIM_Git = result_bind (xp_require xp GitHashing) (\<lambda>_. Inr ''git:'')"

fun getFileIngestionMethod :: "ContentAddressMethod \<Rightarrow> FileIngestionMethod" where
  "getFileIngestionMethod CAM_Flat = FIM_Flat"
| "getFileIngestionMethod CAM_NixArchive = FIM_NixArchive"
| "getFileIngestionMethod CAM_Git = FIM_Git"
| "getFileIngestionMethod CAM_Text = FIM_Flat"

definition ContentAddressMethod_render :: "ContentAddressMethod \<Rightarrow> string" where
  "ContentAddressMethod_render m =
     (if m = CAM_Text then ''text'' else renderFileIngestionMethod (getFileIngestionMethod m))"

fun fileIngestionMethodToContentAddressMethod :: "FileIngestionMethod \<Rightarrow> ContentAddressMethod" where
  "fileIngestionMethodToContentAddressMethod FIM_Flat = CAM_Flat"
| "fileIngestionMethodToContentAddressMethod FIM_NixArchive = CAM_NixArchive"
| "fileIngestionMethodToContentAddressMethod FIM_Git = CAM_Git"

definition ContentAddressMethod_parse :: "string \<Rightarrow> ContentAddressMethod result" where
  "ContentAddressMethod_parse m =
     (if m = ''text'' then Inr CAM_Text
      else result_bind (parseFileIngestionMethod m)
        (\<lambda>fim. Inr (fileIngestionMethodToContentAddressMethod fim)))"

definition ContentAddressMethod_renderPrefix ::
  "ExperimentalFeatureSettings \<Rightarrow> ContentAddressMethod \<Rightarrow> string result" where
  "ContentAddressMethod_renderPrefix xp m =
     (if m = CAM_Text then Inr ''text:'' else makeFileIngestionPrefix xp (getFileIngestionMethod m))"

text \<open>\<^verbatim>\<open>splitPrefix\<close>: whether the view had the prefix, and the view after the call.\<close>

definition splitPrefix :: "string \<Rightarrow> string \<Rightarrow> bool \<times> string" where
  "splitPrefix str pre =
     (if hasPrefix str pre then (True, drop (length pre) str) else (False, str))"

definition ContentAddressMethod_parsePrefix ::
  "ExperimentalFeatureSettings \<Rightarrow> string \<Rightarrow> (ContentAddressMethod \<times> string) result" where
  "ContentAddressMethod_parsePrefix xp m =
     (if fst (splitPrefix m ''r:'') then Inr (CAM_NixArchive, snd (splitPrefix m ''r:''))
      else if fst (splitPrefix m ''git:'') then
        result_bind (xp_require xp GitHashing) (\<lambda>_. Inr (CAM_Git, snd (splitPrefix m ''git:'')))
      else if fst (splitPrefix m ''text:'') then Inr (CAM_Text, snd (splitPrefix m ''text:''))
      else Inr (CAM_Flat, m))"

definition renderPrefixModern ::
  "ExperimentalFeatureSettings \<Rightarrow> ContentAddressMethod \<Rightarrow> string result" where
  "renderPrefixModern xp ca =
     (if ca = CAM_Text then Inr ''text:''
      else result_bind (makeFileIngestionPrefix xp (getFileIngestionMethod ca)) (\<lambda>s. Inr (''fixed:'' @ s)))"

definition ContentAddressMethod_renderWithAlgo ::
  "ExperimentalFeatureSettings \<Rightarrow> ContentAddressMethod \<Rightarrow> HashAlgorithm \<Rightarrow> string result" where
  "ContentAddressMethod_renderWithAlgo xp m ha =
     result_bind (renderPrefixModern xp m) (\<lambda>s. Inr (s @ printHashAlgo ha))"

section \<open>Content addresses\<close>

record ContentAddress =
  ca_method :: ContentAddressMethod
  ca_hash :: Hash

definition ContentAddress_render :: "ExperimentalFeatureSettings \<Rightarrow> ContentAddress \<Rightarrow> string result" where
  "ContentAddress_render xp ca =
     result_bind (renderPrefixModern xp (ca_method ca)) (\<lambda>s.
     result_bind (Hash_to_string (ca_hash ca) Nix32 True) (\<lambda>h. Inr (s @ h)))"

definition parseHashAlgorithm_rest ::
  "ExperimentalFeatureSettings \<Rightarrow> string \<Rightarrow> (HashAlgorithm \<times> string) result" where
  "parseHashAlgorithm_rest xp rest = (case splitPrefixTo rest CHR '':'' of
     None \<Rightarrow> Inl (UsageError ''content address hash must be in form <algo>:<hash>'')
   | Some (hashAlgoRaw, rest') \<Rightarrow>
       result_bind (parseHashAlgo hashAlgoRaw xp) (\<lambda>a. Inr (a, rest')))"

definition parseContentAddressMethodPrefix ::
  "ExperimentalFeatureSettings \<Rightarrow> string \<Rightarrow> ((ContentAddressMethod \<times> HashAlgorithm) \<times> string) result" where
  "parseContentAddressMethodPrefix xp rest = (case splitPrefixTo rest CHR '':'' of
     None \<Rightarrow> Inl (UsageError ''not a content address because it is not in the form <prefix>:<rest>'')
   | Some (pre, rest') \<Rightarrow>
       if pre = ''text'' then
         result_bind (parseHashAlgorithm_rest xp rest') (\<lambda>p. Inr ((CAM_Text, fst p), snd p))
       else if pre = ''fixed'' then
         result_bind
           (if fst (splitPrefix rest' ''r:'') then Inr (CAM_NixArchive, snd (splitPrefix rest' ''r:''))
            else if fst (splitPrefix rest' ''git:'') then
              result_bind (xp_require xp GitHashing) (\<lambda>_. Inr (CAM_Git, snd (splitPrefix rest' ''git:'')))
            else Inr (CAM_Flat, rest')) (\<lambda>mr.
         result_bind (parseHashAlgorithm_rest xp (snd mr)) (\<lambda>p. Inr ((fst mr, fst p), snd p)))
       else Inl (UsageError ''content address prefix is unrecognized''))"

definition ContentAddress_parse :: "ExperimentalFeatureSettings \<Rightarrow> string \<Rightarrow> ContentAddress result" where
  "ContentAddress_parse xp rawCa =
     result_bind (parseContentAddressMethodPrefix xp rawCa) (\<lambda>p.
     result_bind (Hash_parseNonSRIUnprefixed xp (snd p) (snd (fst p))) (\<lambda>h.
       Inr \<lparr>ca_method = fst (fst p), ca_hash = h\<rparr>))"

definition ContentAddressMethod_parseWithAlgo ::
  "ExperimentalFeatureSettings \<Rightarrow> string \<Rightarrow> (ContentAddressMethod \<times> HashAlgorithm) result" where
  "ContentAddressMethod_parseWithAlgo xp caMethod =
     result_bind (parseContentAddressMethodPrefix xp (caMethod @ '':'')) (\<lambda>p. Inr (fst p))"

definition ContentAddress_parseOpt ::
  "ExperimentalFeatureSettings \<Rightarrow> string \<Rightarrow> ContentAddress option result" where
  "ContentAddress_parseOpt xp rawCaOpt =
     (if rawCaOpt = [] then Inr None
      else result_bind (ContentAddress_parse xp rawCaOpt) (\<lambda>ca. Inr (Some ca)))"

definition renderContentAddress ::
  "ExperimentalFeatureSettings \<Rightarrow> ContentAddress option \<Rightarrow> string result" where
  "renderContentAddress xp ca = (case ca of None \<Rightarrow> Inr [] | Some c \<Rightarrow> ContentAddress_render xp c)"

definition ContentAddress_printMethodAlgo ::
  "ExperimentalFeatureSettings \<Rightarrow> ContentAddress \<Rightarrow> string result" where
  "ContentAddress_printMethodAlgo xp ca =
     result_bind (ContentAddressMethod_renderPrefix xp (ca_method ca)) (\<lambda>s.
       Inr (s @ printHashAlgo (algo (ca_hash ca))))"

section \<open>References\<close>

record StoreReferences =
  sr_others :: "StorePath set"
  sr_self :: bool

definition StoreReferences_empty :: "StoreReferences \<Rightarrow> bool" where
  "StoreReferences_empty r \<longleftrightarrow> \<not> sr_self r \<and> sr_others r = {}"

definition StoreReferences_size :: "StoreReferences \<Rightarrow> nat" where
  "StoreReferences_size r = (if sr_self r then 1 else 0) + card (sr_others r)"

record TextInfo =
  ti_hash :: Hash
  ti_references :: "StorePath set"

record FixedOutputInfo =
  foi_method :: FileIngestionMethod
  foi_hash :: Hash
  foi_references :: StoreReferences

datatype ContentAddressWithReferences = CA_TextInfo TextInfo | CA_FixedOutputInfo FixedOutputInfo

definition withoutRefs :: "ContentAddress \<Rightarrow> ContentAddressWithReferences" where
  "withoutRefs ca =
     (if ca_method ca = CAM_Text
      then CA_TextInfo \<lparr>ti_hash = ca_hash ca, ti_references = {}\<rparr>
      else CA_FixedOutputInfo \<lparr>foi_method = getFileIngestionMethod (ca_method ca), foi_hash = ca_hash ca,
        foi_references = \<lparr>sr_others = {}, sr_self = False\<rparr>\<rparr>)"

definition fromParts ::
  "ContentAddressMethod \<Rightarrow> Hash \<Rightarrow> StoreReferences \<Rightarrow> ContentAddressWithReferences result" where
  "fromParts m h refs =
     (if m = CAM_Text then
        (if sr_self refs then Inl (GenericError ''self-reference not allowed with text hashing'')
         else Inr (CA_TextInfo \<lparr>ti_hash = h, ti_references = sr_others refs\<rparr>))
      else Inr (CA_FixedOutputInfo \<lparr>foi_method = getFileIngestionMethod m, foi_hash = h,
        foi_references = refs\<rparr>))"

fun getMethod :: "ContentAddressWithReferences \<Rightarrow> ContentAddressMethod" where
  "getMethod (CA_TextInfo th) = CAM_Text"
| "getMethod (CA_FixedOutputInfo fsh) = fileIngestionMethodToContentAddressMethod (foi_method fsh)"

fun getHash :: "ContentAddressWithReferences \<Rightarrow> Hash" where
  "getHash (CA_TextInfo th) = ti_hash th"
| "getHash (CA_FixedOutputInfo fsh) = foi_hash fsh"

section \<open>Store paths of content-addressed objects\<close>

definition makeType :: "StoreDirConfig \<Rightarrow> string \<Rightarrow> StoreReferences \<Rightarrow> string" where
  "makeType store type refs =
     (let type' = foldl (\<lambda>t i. t @ '':'' @ printStorePath store i) type (sorted_list_of_set (sr_others refs))
      in if sr_self refs then type' @ '':self'' else type')"

definition makeFixedOutputPath ::
  "digests \<Rightarrow> ExperimentalFeatureSettings \<Rightarrow> StoreDirConfig \<Rightarrow> string \<Rightarrow> FixedOutputInfo \<Rightarrow> StorePath result" where
  "makeFixedOutputPath digest xp cfg name info =
     result_bind (ensure (\<not> (foi_method info = FIM_Git \<and>
         \<not> (algo (foi_hash info) = SHA1 \<or> algo (foi_hash info) = SHA256)))
       (GenericError ''Git file ingestion must use SHA-1 or SHA-256 hash'')) (\<lambda>_.
     if algo (foi_hash info) = SHA256 \<and> foi_method info = FIM_NixArchive then
       makeStorePath_hash digest xp cfg (makeType cfg ''source'' (foi_references info)) (foi_hash info) name
     else
       result_bind (ensure (StoreReferences_empty (foi_references info))
         (GenericError ''fixed output derivation is not allowed to refer to other store paths'')) (\<lambda>_.
       result_bind (makeFileIngestionPrefix xp (foi_method info)) (\<lambda>pre.
       result_bind (Hash_to_string (foi_hash info) Base16 True) (\<lambda>hs.
       result_bind (hashString digest SHA256 (string_bytes (''fixed:out:'' @ pre @ hs @ '':'')) xp) (\<lambda>d.
         makeStorePath_hash digest xp cfg ''output:out'' d name)))))"

definition makeFixedOutputPathFromCA ::
  "digests \<Rightarrow> ExperimentalFeatureSettings \<Rightarrow> StoreDirConfig \<Rightarrow> string \<Rightarrow> ContentAddressWithReferences \<Rightarrow>
     StorePath result" where
  "makeFixedOutputPathFromCA digest xp cfg name ca = (case ca of
     CA_TextInfo ti \<Rightarrow>
       result_bind (ensure (algo (ti_hash ti) = SHA256) (AssertionFailed ''ti.hash.algo == HashAlgorithm::SHA256'')) (\<lambda>_.
         makeStorePath_hash digest xp cfg
           (makeType cfg ''text'' \<lparr>sr_others = ti_references ti, sr_self = False\<rparr>) (ti_hash ti) name)
   | CA_FixedOutputInfo foi \<Rightarrow> makeFixedOutputPath digest xp cfg name foi)"

section \<open>Rendering, then parsing\<close>

definition method_enabled :: "ExperimentalFeatureSettings \<Rightarrow> ContentAddressMethod \<Rightarrow> bool" where
  "method_enabled xp m \<longleftrightarrow> m = CAM_Git \<longrightarrow> xp_isEnabled xp GitHashing"

lemma renderPrefixModern_eq:
  "method_enabled xp m \<Longrightarrow> renderPrefixModern xp m = Inr (case m of
     CAM_Text \<Rightarrow> ''text:'' | CAM_Flat \<Rightarrow> ''fixed:'' | CAM_NixArchive \<Rightarrow> ''fixed:r:'' | CAM_Git \<Rightarrow> ''fixed:git:'')"
  by (cases m) (simp_all add: renderPrefixModern_def method_enabled_def xp_require_def)

lemma parse_method_prefix:
  assumes "method_enabled xp m" "algo_enabled xp a" "renderPrefixModern xp m = Inr s"
  shows "parseContentAddressMethodPrefix xp (s @ printHashAlgo a @ CHR '':'' # rest) = Inr ((m, a), rest)"
proof -
  have algo: "parseHashAlgorithm_rest xp (printHashAlgo a @ CHR '':'' # rest) = Inr (a, rest)"
    using assms(2) printHashAlgo_no_separator [of a]
    by (simp add: parseHashAlgorithm_rest_def parseHashAlgo_print)
  have pre_text: "splitPrefixTo (''text'' @ CHR '':'' # t) CHR '':'' = Some (''text'', t)" for t
    by (rule splitPrefixTo_append) simp
  have pre_fixed: "splitPrefixTo (''fixed'' @ CHR '':'' # t) CHR '':'' = Some (''fixed'', t)" for t
    by (rule splitPrefixTo_append) simp
  have flat: "\<not> hasPrefix (printHashAlgo a @ CHR '':'' # rest) ''r:''"
    "\<not> hasPrefix (printHashAlgo a @ CHR '':'' # rest) ''git:''"
    by (cases a; simp add: hasPrefix_def)+
  from assms(1,3) show ?thesis
    using pre_text [simplified] pre_fixed [simplified] algo flat
    by (cases m) (auto simp: renderPrefixModern_eq parseContentAddressMethodPrefix_def splitPrefix_def
      hasPrefix_def xp_require_def method_enabled_def)
qed

lemma parseNonSRIUnprefixed_printed:
  assumes "hash_wf h" "algo_enabled xp (algo h)" "f \<noteq> SRI"
  shows "Hash_parseNonSRIUnprefixed xp (encode_as f (hash_bytes h)) (algo h) = Inr h"
proof -
  obtain decode where "baseExplicit f = Inr decode" "decode (encode_as f (hash_bytes h)) = Inr (hash_bytes h)"
    using baseExplicit_encode_as [OF assms(3), of "hash_bytes h"] by blast
  then show ?thesis
    using baseFromSize_encode_as [of "hash_bytes h" "algo h" f] hash_wf_bytes(1) [OF assms(1)] assms(3)
      parseLowLevel_decoded [OF assms(1,2), of decode "encode_as f (hash_bytes h)"]
    by (simp add: Hash_parseNonSRIUnprefixed_def Hash_parseExplicitFormatUnprefixed_def)
qed

lemma parse_rendered:
  assumes "method_enabled xp (ca_method ca)" "hash_wf (ca_hash ca)" "algo_enabled xp (algo (ca_hash ca))"
  shows "\<exists>s. ContentAddress_render xp ca = Inr s \<and> s \<noteq> [] \<and> ContentAddress_parse xp s = Inr ca"
proof -
  obtain pre where pre: "renderPrefixModern xp (ca_method ca) = Inr pre"
    using assms(1) renderPrefixModern_eq by blast
  let ?s = "pre @ printHashAlgo (algo (ca_hash ca)) @ '':'' @ encode_as Nix32 (hash_bytes (ca_hash ca))"
  have "ContentAddress_render xp ca = Inr ?s"
    using pre assms(2) by (simp add: ContentAddress_render_def Hash_to_string_eq)
  moreover have "ContentAddress_parse xp ?s = Inr ca"
    using parse_method_prefix [OF assms(1,3) pre] parseNonSRIUnprefixed_printed [OF assms(2,3), of Nix32]
    by (simp add: ContentAddress_parse_def)
  ultimately show ?thesis by auto
qed

text \<open>
  Rendering a content address with a well-formed hash succeeds and parsing the text gives
  the address back, also through the optional versions; a rendered method with algorithm and
  a rendered method name parse back too. The Git method needs its experimental feature.
\<close>

theorem ContentAddress_roundtrip:
  assumes "method_enabled xp (ca_method ca)" "hash_wf (ca_hash ca)" "algo_enabled xp (algo (ca_hash ca))"
  shows "(\<exists>s. ContentAddress_render xp ca = Inr s \<and> ContentAddress_parse xp s = Inr ca) \<and>
    (\<exists>s. renderContentAddress xp (Some ca) = Inr s \<and> ContentAddress_parseOpt xp s = Inr (Some ca)) \<and>
    (\<exists>s. renderContentAddress xp None = Inr s \<and> ContentAddress_parseOpt xp s = Inr None) \<and>
    (\<exists>s. ContentAddressMethod_renderWithAlgo xp (ca_method ca) (algo (ca_hash ca)) = Inr s \<and>
      ContentAddressMethod_parseWithAlgo xp s = Inr (ca_method ca, algo (ca_hash ca))) \<and>
    ContentAddressMethod_parse (ContentAddressMethod_render (ca_method ca)) = Inr (ca_method ca)"
proof (intro conjI)
  obtain s where s: "ContentAddress_render xp ca = Inr s" "s \<noteq> []" "ContentAddress_parse xp s = Inr ca"
    using parse_rendered [OF assms] by blast
  then show "\<exists>s. ContentAddress_render xp ca = Inr s \<and> ContentAddress_parse xp s = Inr ca" by blast
  show "\<exists>s. renderContentAddress xp (Some ca) = Inr s \<and> ContentAddress_parseOpt xp s = Inr (Some ca)"
    using s by (simp add: renderContentAddress_def ContentAddress_parseOpt_def)
  show "\<exists>s. renderContentAddress xp None = Inr s \<and> ContentAddress_parseOpt xp s = Inr None"
    by (simp add: renderContentAddress_def ContentAddress_parseOpt_def)
  obtain pre where pre: "renderPrefixModern xp (ca_method ca) = Inr pre"
    using assms(1) renderPrefixModern_eq by blast
  then show "\<exists>s. ContentAddressMethod_renderWithAlgo xp (ca_method ca) (algo (ca_hash ca)) = Inr s \<and>
      ContentAddressMethod_parseWithAlgo xp s = Inr (ca_method ca, algo (ca_hash ca))"
    using parse_method_prefix [OF assms(1,3) pre, of "[]"]
    by (simp add: ContentAddressMethod_renderWithAlgo_def ContentAddressMethod_parseWithAlgo_def)
  show "ContentAddressMethod_parse (ContentAddressMethod_render (ca_method ca)) = Inr (ca_method ca)"
    by (cases "ca_method ca") (simp_all add: ContentAddressMethod_parse_def ContentAddressMethod_render_def
      parseFileIngestionMethod_def parseFileSerialisationMethodOpt_def)
qed

theorem ContentAddress_roundtrip_witness:
  "\<exists>s. ContentAddress_render \<lparr>experimentalFeatures = []\<rparr>
       \<lparr>ca_method = CAM_NixArchive, ca_hash = \<lparr>hashSize = 20, hash = replicate 64 0, algo = SHA1\<rparr>\<rparr> = Inr s \<and>
     ContentAddress_parse \<lparr>experimentalFeatures = []\<rparr> s =
       Inr \<lparr>ca_method = CAM_NixArchive, ca_hash = \<lparr>hashSize = 20, hash = replicate 64 0, algo = SHA1\<rparr>\<rparr>"
  by (rule ContentAddress_roundtrip [THEN conjunct1])
     (simp_all add: method_enabled_def algo_enabled_def hash_wf_def maxHashSize_def)

section \<open>Fingerprints are unambiguous\<close>

lemma foldl_append_pieces: "foldl (\<lambda>t i. t @ sep @ f i) t xs = t @ concat (map (\<lambda>i. sep @ i) (map f xs))"
  by (induction xs arbitrary: t) auto

lemma fingerprint_pieces:
  "store_path_fingerprint cfg (makeType cfg t r) (printHashAlgo a @ '':'' @ hex) n =
     concatStringsSep '':'' ((t # map (printStorePath cfg) (sorted_list_of_set (sr_others r)) @
       (if sr_self r then [''self''] else [])) @ [printHashAlgo a, hex, storeDir cfg, n])"
  using foldl_append_pieces [of "'':''" "printStorePath cfg"]
  by (simp add: store_path_fingerprint_def makeType_def Let_def)

definition colon_free :: "string \<Rightarrow> bool" where
  "colon_free s \<longleftrightarrow> CHR '':'' \<notin> set s"

lemma valid_name_colon_free: "valid_name n \<Longrightarrow> colon_free n"
  by (auto simp: valid_name_def colon_free_def list_all_iff name_char_def in_range_def)

lemma printed_path_colon_free:
  assumes "colon_free (storeDir cfg)" "wf_path p"
  shows "colon_free (printStorePath cfg p)"
proof -
  have "set (StorePath_hashPart p) \<subseteq> set BaseNix32_characters" "valid_name (StorePath_name p)"
    using assms(2) by (simp_all add: wf_path_def valid_base_def StorePath_hashPart_def StorePath_name_def)
  moreover have "colon_free (BaseNix32_characters)" by (simp add: colon_free_def BaseNix32_characters_def)
  ultimately have "colon_free (baseName p)"
    using valid_name_colon_free unfolding wf_path_split [OF assms(2)] by (auto simp: colon_free_def)
  with assms(1) show ?thesis by (simp add: colon_free_def printStorePath_def)
qed

lemma printStorePath_inject: "printStorePath cfg p = printStorePath cfg q \<longleftrightarrow> p = q"
  by (auto simp: printStorePath_def intro: StorePath.expand)

lemma printStorePath_not_self: "fs_is_absolute (storeDir cfg) \<Longrightarrow> printStorePath cfg p \<noteq> ''self''"
  by (cases "storeDir cfg") (auto simp: printStorePath_def fs_is_absolute_def)

lemma hash_string_inject:
  assumes "hash_wf h1" "hash_wf h2" "algo h1 = algo h2" "base16_encode (hash_bytes h1) = base16_encode (hash_bytes h2)"
  shows "h1 = h2"
proof -
  have "hash_bytes h1 = hash_bytes h2"
    using assms(4) base16_decode_encode by (metis sum.inject(2))
  with assms hash_wf_bytes(2) [OF assms(1)] hash_wf_bytes(2) [OF assms(2)] show ?thesis
    by (auto simp: hash_wf_def intro!: Hash.equality)
qed

text \<open>What a text or source fingerprint is made of is legal.\<close>

definition fingerprint_parts :: "StoreReferences \<Rightarrow> Hash \<Rightarrow> string \<Rightarrow> bool" where
  "fingerprint_parts r h n \<longleftrightarrow> finite (sr_others r) \<and> (\<forall>p\<in>sr_others r. wf_path p) \<and> hash_wf h \<and> valid_name n"

definition fingerprint_list :: "StoreDirConfig \<Rightarrow> string \<Rightarrow> StoreReferences \<Rightarrow> Hash \<Rightarrow> string \<Rightarrow> string list" where
  "fingerprint_list cfg t r h n = t # map (printStorePath cfg) (sorted_list_of_set (sr_others r)) @
     (if sr_self r then [''self''] else []) @
     [printHashAlgo (algo h), base16_encode (hash_bytes h), storeDir cfg, n]"

lemma fingerprint_list_colon_free:
  assumes "colon_free (storeDir cfg)" "fingerprint_parts r h n" "colon_free t"
  shows "\<forall>p\<in>set (fingerprint_list cfg t r h n). CHR '':'' \<notin> set p"
  using assms printed_path_colon_free [OF assms(1)] valid_name_colon_free [of n]
    encode_as_no_separator(1) [of Base16 "hash_bytes h"] printHashAlgo_no_separator [of "algo h"]
  by (auto simp: fingerprint_list_def fingerprint_parts_def colon_free_def encode_as_def)

lemma refs_list_inject:
  assumes "map (printStorePath cfg) xs @ (if b then [''self''] else []) =
      map (printStorePath cfg) ys @ (if c then [''self''] else [])" "fs_is_absolute (storeDir cfg)"
  shows "xs = ys \<and> b = c"
  using assms(1)
proof (induction xs arbitrary: ys)
  case Nil
  then show ?case
    using printStorePath_not_self [OF assms(2)] by (cases ys) (auto split: if_splits)
next
  case (Cons x xs)
  then show ?case
    using printStorePath_not_self [OF assms(2)]
    by (cases ys) (auto simp: printStorePath_inject split: if_splits)
qed

lemma fingerprint_list_inject:
  assumes "fingerprint_list cfg t1 r1 h1 n1 = fingerprint_list cfg t2 r2 h2 n2"
    "fingerprint_parts r1 h1 n1" "fingerprint_parts r2 h2 n2" "fs_is_absolute (storeDir cfg)"
  shows "t1 = t2 \<and> r1 = r2 \<and> h1 = h2 \<and> n1 = n2"
proof -
  have split4: "xs @ [a, b, c, d] = ys @ [a', b', c', d'] \<longleftrightarrow>
      xs = ys \<and> a = a' \<and> b = b' \<and> c = c' \<and> d = d'" for xs ys :: "string list" and a b c d a' b' c' d'
    by (subst append_eq_append_conv) auto
  from assms(1) have eq: "t1 = t2"
      "map (printStorePath cfg) (sorted_list_of_set (sr_others r1)) @ (if sr_self r1 then [''self''] else []) =
       map (printStorePath cfg) (sorted_list_of_set (sr_others r2)) @ (if sr_self r2 then [''self''] else [])"
      "printHashAlgo (algo h1) = printHashAlgo (algo h2)"
      "base16_encode (hash_bytes h1) = base16_encode (hash_bytes h2)" "n1 = n2"
    unfolding fingerprint_list_def list.inject append_assoc [symmetric] split4 by blast+
  have "sr_others r1 = sr_others r2 \<and> sr_self r1 = sr_self r2"
    using refs_list_inject [OF eq(2) assms(4)] assms(2,3) set_sorted_list_of_set
    unfolding fingerprint_parts_def by metis
  moreover have "algo h1 = algo h2"
    using eq(3) by (cases "algo h1"; cases "algo h2") simp_all
  then have "h1 = h2"
    using hash_string_inject eq(4) assms(2,3) unfolding fingerprint_parts_def by blast
  ultimately show ?thesis using eq(1,5) by (auto intro!: StoreReferences.equality)
qed

text \<open>
  C36: The string hashed into a text or source store path determines everything it was made
  from: the kind, the set of references and the self-reference that are packed into the
  type, the content hash and the name. Two different inputs can therefore only get the same
  store path through a collision of the digest or its compression.
\<close>

theorem fingerprint_unambiguous:
  assumes "colon_free (storeDir cfg)" "fs_is_absolute (storeDir cfg)"
    and "fingerprint_parts r1 h1 n1" "fingerprint_parts r2 h2 n2"
    and "t1 \<in> {''text'', ''source''}" "t2 \<in> {''text'', ''source''}"
    and "Hash_to_string h1 Base16 True = Inr s1" "Hash_to_string h2 Base16 True = Inr s2"
  shows "store_path_fingerprint cfg (makeType cfg t1 r1) s1 n1 = store_path_fingerprint cfg (makeType cfg t2 r2) s2 n2
    \<longleftrightarrow> t1 = t2 \<and> r1 = r2 \<and> h1 = h2 \<and> n1 = n2"
proof
  assume "t1 = t2 \<and> r1 = r2 \<and> h1 = h2 \<and> n1 = n2"
  then show "store_path_fingerprint cfg (makeType cfg t1 r1) s1 n1 = store_path_fingerprint cfg (makeType cfg t2 r2) s2 n2"
    using assms(7,8) by simp
next
  assume eq: "store_path_fingerprint cfg (makeType cfg t1 r1) s1 n1 = store_path_fingerprint cfg (makeType cfg t2 r2) s2 n2"
  have t: "colon_free t1" "colon_free t2" using assms(5,6) by (auto simp: colon_free_def)
  have s: "s1 = printHashAlgo (algo h1) @ '':'' @ base16_encode (hash_bytes h1)"
    "s2 = printHashAlgo (algo h2) @ '':'' @ base16_encode (hash_bytes h2)"
    using assms(3,4,7,8) by (simp_all add: fingerprint_parts_def Hash_to_string_eq encode_as_def)
  from eq have "concatStringsSep '':'' (fingerprint_list cfg t1 r1 h1 n1) =
      concatStringsSep '':'' (fingerprint_list cfg t2 r2 h2 n2)"
    unfolding s fingerprint_pieces fingerprint_list_def by (simp only: append_Cons append_assoc)
  then have "fingerprint_list cfg t1 r1 h1 n1 = fingerprint_list cfg t2 r2 h2 n2"
    using splitString_concat [OF _ fingerprint_list_colon_free [OF assms(1,3) t(1)]]
      splitString_concat [OF _ fingerprint_list_colon_free [OF assms(1,4) t(2)]]
    by (metis fingerprint_list_def list.distinct(1))
  then show "t1 = t2 \<and> r1 = r2 \<and> h1 = h2 \<and> n1 = n2" using fingerprint_list_inject assms(2-4) by blast
qed

theorem fingerprint_unambiguous_witness:
  "let cfg = \<lparr>storeDir = ''/nix/store''\<rparr>; h = \<lparr>hashSize = 20, hash = replicate 64 0, algo = SHA1\<rparr>;
       s = printHashAlgo (algo h) @ '':'' @ base16_encode (hash_bytes h)
   in store_path_fingerprint cfg (makeType cfg ''source'' \<lparr>sr_others = {}, sr_self = True\<rparr>) s ''x'' \<noteq>
      store_path_fingerprint cfg (makeType cfg ''source'' \<lparr>sr_others = {}, sr_self = False\<rparr>) s ''x''"
proof -
  define h :: Hash where "h = \<lparr>hashSize = 20, hash = replicate 64 0, algo = SHA1\<rparr>"
  have parts: "fingerprint_parts \<lparr>sr_others = {}, sr_self = b\<rparr> h ''x''" for b
    by (simp add: fingerprint_parts_def h_def hash_wf_def maxHashSize_def valid_name_def
      MaxPathLen_def name_char_def in_range_def)
  have s: "Hash_to_string h Base16 True = Inr (printHashAlgo (algo h) @ '':'' @ base16_encode (hash_bytes h))"
    by (simp add: Hash_to_string_def h_def)
  have "colon_free (storeDir \<lparr>storeDir = ''/nix/store''\<rparr>)" "fs_is_absolute (storeDir \<lparr>storeDir = ''/nix/store''\<rparr>)"
    by (simp_all add: colon_free_def fs_is_absolute_def)
  from fingerprint_unambiguous [OF this parts [of True] parts [of False] _ _ s s, of "''source''" "''source''"]
  show ?thesis unfolding Let_def h_def [symmetric] by simp
qed

end
