(* ===== verification/Serialise.thy ===== *)
theory Serialise
  imports Prelude
begin

unbundle bit_operations_syntax

text \<open>
  The binary serialisation (\<^verbatim>\<open>libutil/serialise.cc\<close>, \<^verbatim>\<open>serialise.hh\<close>) that Nix archives and the
  daemon protocols use: 64-bit little-endian integers, strings padded to eight bytes, lists of
  strings, and the framed streams that let a receiver resynchronise. A sink is the text
  written so far, a source the text that is still to be read.
\<close>

section \<open>Sources\<close>

type_synonym 'a reader = "string \<Rightarrow> ('a \<times> string) result"

text \<open>\<^verbatim>\<open>Source::operator()\<close> on a \<^verbatim>\<open>StringSource\<close>: reads until it has all bytes asked for.\<close>

definition source_read :: "nat \<Rightarrow> string reader" where
  "source_read n s =
     (if n \<le> length s then Inr (take n s, drop n s) else Inl (EndOfFile ''end of string reached''))"

text \<open>A computation that never runs out of fuel and whose results satisfy a predicate.\<close>

definition fine :: "('a \<Rightarrow> bool) \<Rightarrow> 'a result \<Rightarrow> bool" where
  "fine P r \<longleftrightarrow> (case r of Inl e \<Rightarrow> e \<noteq> OutOfFuel | Inr x \<Rightarrow> P x)"

lemma fine_simps [simp]: "fine P (Inr x) \<longleftrightarrow> P x" "fine P (Inl e) \<longleftrightarrow> e \<noteq> OutOfFuel"
  by (simp_all add: fine_def)

lemma fine_bind: "fine Q m \<Longrightarrow> (\<And>x. Q x \<Longrightarrow> fine P (f x)) \<Longrightarrow> fine P (result_bind m f)"
  by (cases m) simp_all

lemma fine_mono: "fine Q r \<Longrightarrow> (\<And>x. Q x \<Longrightarrow> P x) \<Longrightarrow> fine P r"
  by (auto simp: fine_def split: sum.splits)

lemma fine_ensure: "e \<noteq> OutOfFuel \<Longrightarrow> fine (\<lambda>_. p) (ensure p e)"
  by (simp add: ensure_def)

section \<open>Integers\<close>

definition writeNum :: "64 word \<Rightarrow> string" where
  "writeNum n = map (\<lambda>i. char_of (unat (drop_bit (8 * i) n AND 0xff))) [0..<8]"

text \<open>The value of the eight bytes on a little-endian or byte-swapped big-endian machine.\<close>

definition le_value :: "string \<Rightarrow> nat" where
  "le_value p = foldr (\<lambda>c x. of_char c + 256 * x) p 0"

definition readLittleEndian :: "string \<Rightarrow> 64 word" where
  "readLittleEndian p = word_of_nat (le_value p)"

definition readNum :: "64 word \<Rightarrow> 64 word reader" where
  "readNum max_T source =
     result_bind (source_read 8 source) (\<lambda>(buf, source).
       let n = readLittleEndian buf in
       if n > max_T then Inl (SerialisationError ''serialised integer is too large'') else Inr (n, source))"

definition max_size_t :: "64 word" where
  "max_size_t = - 1"

definition max_uint :: "64 word" where
  "max_uint = 0xffffffff"

definition readInt :: "64 word reader" where
  "readInt source = readNum max_uint source"

definition readLongLong :: "64 word reader" where
  "readLongLong source = readNum max_size_t source"

section \<open>Strings\<close>

definition writePadding :: "nat \<Rightarrow> string" where
  "writePadding len = (if len mod 8 \<noteq> 0 then replicate (8 - len mod 8) (CHR 0x00) else [])"

definition writeString :: "string \<Rightarrow> string" where
  "writeString data = writeNum (word_of_nat (length data)) @ data @ writePadding (length data)"

definition readPadding :: "nat \<Rightarrow> unit reader" where
  "readPadding len source =
     (if len mod 8 \<noteq> 0 then
        result_bind (source_read (8 - len mod 8) source) (\<lambda>(zero, source).
          if list_all (\<lambda>c. c = CHR 0x00) zero then Inr ((), source)
          else Inl (SerialisationError ''non-zero padding''))
      else Inr ((), source))"

definition readString :: "nat \<Rightarrow> string reader" where
  "readString max_len source =
     result_bind (readNum max_size_t source) (\<lambda>(len, source).
     result_bind (ensure (\<not> unat len > max_len) (SerialisationError ''string is too long'')) (\<lambda>_.
     result_bind (source_read (unat len) source) (\<lambda>(res, source).
     result_bind (readPadding (unat len) source) (\<lambda>(_, source). Inr (res, source)))))"

definition writeStrings :: "string list \<Rightarrow> string" where
  "writeStrings ss = foldl (\<lambda>sink i. sink @ writeString i) (writeNum (word_of_nat (length ss))) ss"

fun readStrings_loop :: "nat \<Rightarrow> string list \<Rightarrow> string list reader" where
  "readStrings_loop 0 ss source = Inr (ss, source)"
| "readStrings_loop (Suc count) ss source =
     result_bind (readString (2 ^ 64 - 1) source) (\<lambda>(s, source). readStrings_loop count (ss @ [s]) source)"

definition readStrings :: "string list reader" where
  "readStrings source =
     result_bind (readNum max_size_t source) (\<lambda>(count, source). readStrings_loop (unat count) [] source)"

section \<open>The contract of a serialiser\<close>

text \<open>
  What clients rely on: reading what was written returns it and leaves the rest of the
  stream, and whatever reads successfully is the one encoding of a legal value.
\<close>

locale serialiser =
  fixes enc :: "'a \<Rightarrow> string" and dec :: "'a reader" and legal :: "'a \<Rightarrow> bool"
  assumes read_write: "legal x \<Longrightarrow> dec (enc x @ rest) = Inr (x, rest)"
    and read_canonical: "dec s = Inr (x, rest) \<Longrightarrow> s = enc x @ rest \<and> legal x"
begin

lemma enc_prefix_free:
  assumes "legal x" "legal y" "enc x @ r = enc y @ r'"
  shows "x = y \<and> r = r'"
proof -
  have "dec (enc y @ r') = Inr (x, r)" unfolding assms(3) [symmetric] by (rule read_write) (rule assms(1))
  with read_write [OF assms(2), of r'] show ?thesis by simp
qed

lemma read_shrinks: "dec s = Inr (x, rest) \<Longrightarrow> length rest \<le> length s"
  by (drule read_canonical) simp

lemma read_iff: "dec s = Inr (x, rest) \<longleftrightarrow> s = enc x @ rest \<and> legal x"
  using read_write read_canonical by blast

end

section \<open>Integers and strings meet the contract\<close>

lemma le_value_simps [simp]:
  "le_value [] = 0"
  "le_value (c # p) = of_char c + 256 * le_value p"
  by (simp_all add: le_value_def)

lemma upt_shift: "[0..<Suc k] = 0 # map Suc [0..<k]"
  by (simp add: map_Suc_upt upt_conv_Cons del: upt_Suc)

lemma le_value_digits: "le_value (map (\<lambda>i. char_of (m div 256 ^ i)) [0..<k]) = m mod 256 ^ k"
proof (induction k arbitrary: m)
  case (Suc k)
  have "m div 256 ^ Suc i = m div 256 div 256 ^ i" for i by (simp add: div_mult2_eq)
  then have "le_value (map (\<lambda>i. char_of (m div 256 ^ i)) [0..<Suc k]) = m mod 256 + 256 * (m div 256 mod 256 ^ k)"
    unfolding upt_shift using Suc.IH [of "m div 256"] by (simp add: o_def del: power_Suc)
  then show ?case by (simp add: mod_mult2_eq)
qed simp

lemma unat_less: "unat (n :: 64 word) < 2 ^ 64"
  using unsigned_less [of n] by simp

lemma writeNum_nat: "writeNum n = map (\<lambda>i. char_of (unat n div 256 ^ i)) [0..<8]"
proof -
  have "char_of (unat (drop_bit (8 * i) n AND 0xff)) = char_of (unat n div 256 ^ i)" for i
  proof -
    have "drop_bit (8 * i) n AND 0xff = take_bit 8 (drop_bit (8 * i) n)"
      by (simp add: take_bit_eq_mask mask_eq_exp_minus_1)
    moreover have "take_bit 64 (unat n) = unat n" using unat_less [of n] by (simp add: take_bit_nat_eq_self)
    then have "unat (take_bit 8 (drop_bit (8 * i) n)) = take_bit 8 (drop_bit (8 * i) (unat n))"
      by (simp add: unsigned_take_bit_eq unsigned_drop_bit_eq)
    ultimately show ?thesis
      by (simp add: take_bit_eq_mod drop_bit_eq_div power_mult)
  qed
  then show ?thesis by (simp add: writeNum_def)
qed

lemma length_writeNum [simp]: "length (writeNum n) = 8"
  by (simp add: writeNum_def)

lemma readLittleEndian_writeNum [simp]: "readLittleEndian (writeNum n) = n"
proof -
  have "unat n < 256 ^ 8" using unat_less [of n] by simp
  then show ?thesis unfolding readLittleEndian_def writeNum_nat le_value_digits by simp
qed

lemma digits_of_value: "map (\<lambda>i. char_of (le_value p div 256 ^ i)) [0..<length p] = p"
proof (induction p)
  case (Cons c p)
  have "(of_char c + 256 * le_value p) div 256 ^ Suc i = le_value p div 256 ^ i" for i
    using of_char_less_256 [of c] by (simp add: div_mult2_eq)
  moreover have "char_of (of_char c + 256 * le_value p) = c"
  proof -
    have "(of_char c + 256 * le_value p) mod 256 = of_char c"
      using of_char_less_256 [of c] by (simp only: mod_mult_self2 mod_less)
    then have "char_of ((of_char c + 256 * le_value p) mod 256) = c" by (simp only: char_of_char)
    then show ?thesis by (simp only: char_of_mod_256)
  qed
  moreover have "[0..<length (c # p)] = 0 # map Suc [0..<length p]" unfolding list.size by (simp add: upt_shift del: upt_Suc)
  ultimately show ?case using Cons by (simp add: o_def del: upt_Suc power_Suc)
qed simp

lemma le_value_bound: "le_value p < 256 ^ length p"
proof (induction p)
  case (Cons c p)
  have "256 * Suc (le_value p) \<le> 256 * 256 ^ length p" using Cons by (intro mult_le_mono2) simp
  moreover have "of_char c + 256 * le_value p < 256 * Suc (le_value p)"
    using of_char_less_256 [of c] by simp
  ultimately have "of_char c + 256 * le_value p < 256 * 256 ^ length p" by (rule less_le_trans [rotated])
  then show ?case by simp
qed simp

lemma writeNum_readLittleEndian: "length p = 8 \<Longrightarrow> writeNum (readLittleEndian p) = p"
  using le_value_bound [of p] digits_of_value [of p]
  by (simp add: writeNum_nat readLittleEndian_def unat_of_nat)

lemma source_read_append [simp]: "source_read (length a) (a @ b) = Inr (a, b)"
  by (simp add: source_read_def)

lemma source_read_Inr: "source_read n s = Inr (a, b) \<longleftrightarrow> s = a @ b \<and> length a = n"
  by (auto simp: source_read_def)

lemma readNum_write: "n \<le> max_T \<Longrightarrow> readNum max_T (writeNum n @ rest) = Inr (n, rest)"
  using source_read_append [of "writeNum n" rest] by (simp add: readNum_def del: source_read_append)

lemma readNum_canonical:
  "readNum max_T s = Inr (n, rest) \<Longrightarrow> s = writeNum n @ rest \<and> n \<le> max_T"
  by (auto simp: readNum_def result_simps source_read_Inr Let_def writeNum_readLittleEndian split: if_splits)

interpretation num: serialiser writeNum "readNum max_T" "\<lambda>n. n \<le> max_T" for max_T
  by unfold_locales (simp_all add: readNum_write readNum_canonical)

lemma readPadding_iff: "readPadding len s = Inr (u, rest) \<longleftrightarrow> s = writePadding len @ rest"
proof -
  have "list_all (\<lambda>c. c = CHR 0x00) zero \<and> length zero = n \<longleftrightarrow> zero = replicate n (CHR 0x00)" for zero n
    by (auto simp: list_all_iff intro: replicate_eqI)
  then show ?thesis
    by (auto simp: readPadding_def writePadding_def result_simps source_read_Inr split: if_splits)
qed

definition string_legal :: "nat \<Rightarrow> string \<Rightarrow> bool" where
  "string_legal max_len s \<longleftrightarrow> length s \<le> max_len \<and> length s < 2 ^ 64"

lemma le_max_size_t [simp]: "n \<le> max_size_t"
  by (simp add: max_size_t_def)

lemma readString_iff:
  "readString max_len s = Inr (x, rest) \<longleftrightarrow> s = writeString x @ rest \<and> string_legal max_len x"
proof -
  have "readString max_len s = Inr (x, rest) \<longleftrightarrow> (\<exists>len. s = writeNum len @ x @ writePadding (unat len) @ rest \<and>
      unat len \<le> max_len \<and> length x = unat len)"
    by (auto simp: readString_def result_simps num.read_iff source_read_Inr readPadding_iff)
  also have "\<dots> \<longleftrightarrow> s = writeString x @ rest \<and> string_legal max_len x"
  proof
    assume "\<exists>len. s = writeNum len @ x @ writePadding (unat len) @ rest \<and> unat len \<le> max_len \<and> length x = unat len"
    then obtain len where "s = writeNum len @ x @ writePadding (unat len) @ rest" "unat len \<le> max_len"
        "length x = unat len" by blast
    moreover from this(3) have "word_of_nat (length x) = len" by simp
    moreover have "unat len < 2 ^ 64" by (rule unat_less)
    ultimately show "s = writeString x @ rest \<and> string_legal max_len x"
      by (simp add: writeString_def string_legal_def)
  next
    assume "s = writeString x @ rest \<and> string_legal max_len x"
    then show "\<exists>len. s = writeNum len @ x @ writePadding (unat len) @ rest \<and> unat len \<le> max_len \<and> length x = unat len"
      by (intro exI [of _ "word_of_nat (length x)"]) (simp add: writeString_def string_legal_def unat_of_nat)
  qed
  finally show ?thesis .
qed

interpretation str: serialiser writeString "readString max_len" "string_legal max_len" for max_len
  by unfold_locales (simp_all add: readString_iff)

section \<open>Lists of strings\<close>

definition strings_legal :: "string list \<Rightarrow> bool" where
  "strings_legal ss \<longleftrightarrow> length ss < 2 ^ 64 \<and> list_all (string_legal (2 ^ 64 - 1)) ss"

lemma writeStrings_eq: "writeStrings ss = writeNum (word_of_nat (length ss)) @ concat (map writeString ss)"
proof -
  have "foldl (\<lambda>sink i. sink @ writeString i) acc ss = acc @ concat (map writeString ss)" for acc
    by (induction ss arbitrary: acc) auto
  then show ?thesis by (simp add: writeStrings_def)
qed

lemma ex_length_Suc: "(\<exists>zs. length zs = Suc n \<and> P zs) \<longleftrightarrow> (\<exists>x zs. length zs = n \<and> P (x # zs))"
  by (metis Suc_length_conv)

lemma readStrings_loop_iff:
  "readStrings_loop n acc s = Inr (r, rest) \<longleftrightarrow>
     (\<exists>ss. r = acc @ ss \<and> length ss = n \<and> s = concat (map writeString ss) @ rest \<and>
       list_all (string_legal (2 ^ 64 - 1)) ss)"
proof (induction n arbitrary: acc s)
  case (Suc n)
  have "readStrings_loop (Suc n) acc s = Inr (r, rest) \<longleftrightarrow>
      (\<exists>x s'. s = writeString x @ s' \<and> string_legal (2 ^ 64 - 1) x \<and>
        readStrings_loop n (acc @ [x]) s' = Inr (r, rest))"
    by (auto simp: result_simps str.read_iff)
  also have "\<dots> \<longleftrightarrow> (\<exists>x ss. r = acc @ x # ss \<and> length ss = n \<and>
      s = writeString x @ concat (map writeString ss) @ rest \<and> string_legal (2 ^ 64 - 1) x \<and>
      list_all (string_legal (2 ^ 64 - 1)) ss)"
    by (auto simp: Suc.IH)
  also have "\<dots> \<longleftrightarrow> (\<exists>zs. length zs = Suc n \<and> r = acc @ zs \<and> s = concat (map writeString zs) @ rest \<and>
      list_all (string_legal (2 ^ 64 - 1)) zs)"
    unfolding ex_length_Suc by auto
  finally show ?case by blast
qed auto

lemma readStrings_iff: "readStrings s = Inr (ss, rest) \<longleftrightarrow> s = writeStrings ss @ rest \<and> strings_legal ss"
proof -
  have "readStrings s = Inr (ss, rest) \<longleftrightarrow> (\<exists>n. s = writeNum n @ concat (map writeString ss) @ rest \<and>
      length ss = unat n \<and> list_all (string_legal (2 ^ 64 - 1)) ss)"
    by (auto simp: readStrings_def result_simps num.read_iff readStrings_loop_iff)
  also have "\<dots> \<longleftrightarrow> s = writeNum (word_of_nat (length ss)) @ concat (map writeString ss) @ rest \<and> strings_legal ss"
    (is "?L \<longleftrightarrow> ?R")
  proof
    assume ?L
    then obtain n where n: "s = writeNum n @ concat (map writeString ss) @ rest" "length ss = unat n"
      "list_all (string_legal (2 ^ 64 - 1)) ss" by blast
    moreover from n(2) have "word_of_nat (length ss) = n" by simp
    ultimately show ?R using unat_less [of n] by (simp add: strings_legal_def)
  next
    assume ?R
    then show ?L by (intro exI [of _ "word_of_nat (length ss)"]) (simp add: strings_legal_def unat_of_nat)
  qed
  finally show ?thesis by (simp add: writeStrings_eq)
qed

interpretation strs: serialiser writeStrings readStrings strings_legal
  by unfold_locales (simp_all add: readStrings_iff)

text \<open>
  C35: Serialised integers, strings and lists of strings are read back with the rest of the
  stream left over, and nothing else is readable: whatever parses is byte for byte the one
  encoding of the result, so non-zero padding, oversized lengths and values above the limit
  of the type are rejected.
\<close>

theorem serialisation_canonical:
  "(readNum max_T s = Inr (n, rest) \<longleftrightarrow> s = writeNum n @ rest \<and> n \<le> max_T) \<and>
   (readString max_len s = Inr (x, rest) \<longleftrightarrow>
     s = writeString x @ rest \<and> length x \<le> max_len \<and> length x < 2 ^ 64) \<and>
   (readStrings s = Inr (xs, rest) \<longleftrightarrow>
     s = writeStrings xs @ rest \<and> length xs < 2 ^ 64 \<and> list_all (\<lambda>x. length x < 2 ^ 64) xs)"
proof -
  have "string_legal (2 ^ 64 - 1) = (\<lambda>x. length x < 2 ^ 64)" by (auto simp: string_legal_def)
  then show ?thesis
    using num.read_iff [of max_T s n rest] str.read_iff [of max_len s x rest] strs.read_iff [of s xs rest]
    by (simp add: string_legal_def [of max_len] strings_legal_def)
qed

section \<open>Buffered and framed streams\<close>

text \<open>
  A buffered sink with the bytes in its buffer (\<^verbatim>\<open>bufPos\<close> is their number) and the calls
  of \<^verbatim>\<open>writeUnbuffered\<close> it made so far.
\<close>

record BufferedSink =
  bufSize :: nat
  buffer :: string
  unbuffered :: "string list"

definition writeUnbuffered :: "string \<Rightarrow> BufferedSink \<Rightarrow> BufferedSink" where
  "writeUnbuffered data sink = sink\<lparr>unbuffered := unbuffered sink @ [data]\<rparr>"

definition BufferedSink_flush :: "BufferedSink \<Rightarrow> BufferedSink" where
  "BufferedSink_flush sink =
     (if length (buffer sink) = 0 then sink
      else writeUnbuffered (buffer sink) (sink\<lparr>buffer := []\<rparr>))"

function BufferedSink_write :: "string \<Rightarrow> BufferedSink \<Rightarrow> BufferedSink" where
  "BufferedSink_write data sink =
     (if data = [] then sink
      else if length data \<ge> bufSize sink - length (buffer sink) then
        writeUnbuffered data (BufferedSink_flush sink)
      else
        (let n = (if length data > bufSize sink - length (buffer sink)
                  then bufSize sink - length (buffer sink) else length data);
             sink' = sink\<lparr>buffer := buffer sink @ take n data\<rparr>
         in BufferedSink_write (drop n data)
              (if length (buffer sink') = bufSize sink' then BufferedSink_flush sink' else sink')))"
  by pat_completeness auto
termination by (relation "measure (\<lambda>(data, sink). length data)") auto

declare BufferedSink_write.simps [simp del]

text \<open>
  \<^verbatim>\<open>FramedSink\<close> (with a \<^verbatim>\<open>checkError\<close> that does not throw): every unbuffered write is a
  frame, the destructor ends the stream with an empty one.
\<close>

definition FramedSink_frame :: "string \<Rightarrow> string" where
  "FramedSink_frame data = writeNum (word_of_nat (length data)) @ data"

definition FramedSink_close :: "BufferedSink \<Rightarrow> string" where
  "FramedSink_close sink = concat (map FramedSink_frame (unbuffered sink)) @ writeNum 0"

text \<open>A sequence of writes to a fresh framed sink, the flush of the writer, the destructor.\<close>

definition framed_session :: "nat \<Rightarrow> string list \<Rightarrow> string" where
  "framed_session n datas =
     FramedSink_close (BufferedSink_flush
       (fold BufferedSink_write datas \<lparr>bufSize = n, buffer = [], unbuffered = []\<rparr>))"

record FramedSource =
  fs_from :: string
  fs_eof :: bool
  fs_pending :: string
  fs_pos :: nat

definition FramedSource_read :: "nat \<Rightarrow> FramedSource \<Rightarrow> (string \<times> FramedSource) result" where
  "FramedSource_read len src =
     (if fs_eof src then Inl (EndOfFile ''reached end of FramedSource'')
      else result_bind
        (if fs_pos src \<ge> length (fs_pending src) then
           result_bind (readInt (fs_from src)) (\<lambda>(n, from).
             if n = 0 then Inr (src\<lparr>fs_from := from, fs_eof := True\<rparr>)
             else result_bind (source_read (unat n) from) (\<lambda>(data, from).
               Inr (src\<lparr>fs_from := from, fs_pending := data, fs_pos := 0\<rparr>)))
         else Inr src) (\<lambda>src.
        if fs_eof src then Inr ([], src)
        else result_bind (ensure (length (fs_pending src) > fs_pos src) (AssertionFailed ''pending.size() > pos'')) (\<lambda>_.
          let n = min len (length (fs_pending src) - fs_pos src)
          in Inr (take n (drop (fs_pos src) (fs_pending src)), src\<lparr>fs_pos := fs_pos src + n\<rparr>))))"

definition framed_left :: "FramedSource \<Rightarrow> nat" where
  "framed_left src = length (fs_from src) + (length (fs_pending src) - fs_pos src) + (if fs_eof src then 0 else 1)"

lemma FramedSource_read_decreases:
  assumes "FramedSource_read len src = Inr (data, src')" "0 < len"
  shows "framed_left src' < framed_left src"
proof (cases "fs_pos src \<ge> length (fs_pending src)")
  case True
  with assms(1) obtain n rest where n: "readInt (fs_from src) = Inr (n, rest)" "\<not> fs_eof src"
    by (auto simp: FramedSource_read_def result_simps split: if_splits)
  then have f: "fs_from src = writeNum n @ rest" by (simp add: readInt_def num.read_iff)
  show ?thesis
  proof (cases "n = 0")
    case True
    with assms n f \<open>fs_pos src \<ge> _\<close> show ?thesis
      by (auto simp: FramedSource_read_def framed_left_def)
  next
    case False
    with assms(1) n \<open>fs_pos src \<ge> _\<close> obtain d rest' where "source_read (unat n) rest = Inr (d, rest')"
      by (auto simp: FramedSource_read_def result_simps)
    moreover from this have "length d = unat n" "rest = d @ rest'" by (simp_all add: source_read_Inr)
    ultimately show ?thesis
      using assms n f False \<open>fs_pos src \<ge> _\<close>
      by (auto simp: FramedSource_read_def framed_left_def result_simps Let_def)
  qed
next
  case False
  with assms show ?thesis
    by (auto simp: FramedSource_read_def framed_left_def result_simps Let_def split: if_splits)
qed

text \<open>\<^verbatim>\<open>Source::drain\<close>: reads of 8192 bytes until the end-of-file exception.\<close>

function FramedSource_drain :: "FramedSource \<Rightarrow> string \<Rightarrow> (string \<times> FramedSource) result" where
  "FramedSource_drain src sink = (case FramedSource_read 8192 src of
     Inl (EndOfFile m) \<Rightarrow> Inr (sink, src)
   | Inl e \<Rightarrow> Inl e
   | Inr (data, src') \<Rightarrow> FramedSource_drain src' (sink @ data))"
  by pat_completeness auto
termination
  by (relation "measure (\<lambda>(src, sink). framed_left src)") (auto intro: FramedSource_read_decreases)

declare FramedSource_drain.simps [simp del]

lemma BufferedSink_write_eq:
  "BufferedSink_write data sink =
     (if data = [] then sink
      else if length data \<ge> bufSize sink - length (buffer sink) then writeUnbuffered data (BufferedSink_flush sink)
      else sink\<lparr>buffer := buffer sink @ data\<rparr>)"
  by (subst BufferedSink_write.simps) (simp add: Let_def BufferedSink_write.simps [of "[]"])

text \<open>The frames a receiver can read: not empty and with a size that fits an \<^verbatim>\<open>unsigned int\<close>.\<close>

definition frame_legal :: "string \<Rightarrow> bool" where
  "frame_legal c \<longleftrightarrow> c \<noteq> [] \<and> length c < 2 ^ 32"

definition sink_inv :: "BufferedSink \<Rightarrow> bool" where
  "sink_inv sink \<longleftrightarrow> length (buffer sink) < bufSize sink \<and> bufSize sink < 2 ^ 32 \<and>
     list_all frame_legal (unbuffered sink)"

definition sink_content :: "BufferedSink \<Rightarrow> string" where
  "sink_content sink = concat (unbuffered sink) @ buffer sink"

lemma flush_inv:
  assumes "sink_inv sink"
  shows "sink_inv (BufferedSink_flush sink)" "sink_content (BufferedSink_flush sink) = sink_content sink"
    "buffer (BufferedSink_flush sink) = []"
  using assms by (auto simp: sink_inv_def sink_content_def BufferedSink_flush_def writeUnbuffered_def frame_legal_def)

lemma write_inv:
  assumes "sink_inv sink" "length data < 2 ^ 32"
  shows "sink_inv (BufferedSink_write data sink) \<and>
    sink_content (BufferedSink_write data sink) = sink_content sink @ data"
  using flush_inv [OF assms(1)] assms
  by (auto simp: BufferedSink_write_eq writeUnbuffered_def sink_inv_def sink_content_def frame_legal_def)

lemma writes_inv:
  assumes "sink_inv sink" "\<forall>d\<in>set datas. length d < 2 ^ 32"
  shows "sink_inv (fold BufferedSink_write datas sink) \<and>
    sink_content (fold BufferedSink_write datas sink) = sink_content sink @ concat datas"
  using assms
proof (induction datas arbitrary: sink)
  case (Cons d datas)
  then show ?case using write_inv [of sink d] by simp
qed simp

lemma readInt_frame:
  assumes "length c < 2 ^ 32"
  shows "readInt (writeNum (word_of_nat (length c)) @ rest) = Inr (word_of_nat (length c), rest)"
proof -
  have "unat (word_of_nat (length c) :: 64 word) = length c" using assms by (simp add: unat_of_nat)
  then have "(word_of_nat (length c) :: 64 word) \<le> max_uint"
    using assms by (simp add: word_le_nat_alt max_uint_def)
  then show ?thesis unfolding readInt_def by (rule num.read_write)
qed

lemma FramedSource_read_frame:
  assumes "\<not> fs_eof src" "fs_pos src \<ge> length (fs_pending src)" "frame_legal c"
    and "fs_from src = FramedSink_frame c @ rest"
  shows "FramedSource_read len src = Inr (take len c,
    src\<lparr>fs_from := rest, fs_pending := c, fs_pos := min len (length c)\<rparr>)"
proof -
  have len: "unat (word_of_nat (length c) :: 64 word) = length c" "length c < 2 ^ 32" "c \<noteq> []"
    using assms(3) by (simp_all add: frame_legal_def unat_of_nat)
  then have "(word_of_nat (length c) :: 64 word) \<noteq> 0" by (metis length_0_conv unsigned_0)
  with assms len readInt_frame [OF len(2), of "c @ rest"] show ?thesis
    by (auto simp: FramedSource_read_def FramedSink_frame_def Let_def min_def)
qed

lemma FramedSource_read_pending:
  assumes "\<not> fs_eof src" "fs_pos src < length (fs_pending src)"
  shows "FramedSource_read len src = Inr (take len (drop (fs_pos src) (fs_pending src)),
    src\<lparr>fs_pos := fs_pos src + min len (length (fs_pending src) - fs_pos src)\<rparr>)"
  using assms by (auto simp: FramedSource_read_def Let_def min_def)

lemma FramedSource_read_end:
  assumes "\<not> fs_eof src" "fs_pos src \<ge> length (fs_pending src)" "fs_from src = writeNum 0 @ rest"
  shows "FramedSource_read len src = Inr ([], src\<lparr>fs_from := rest, fs_eof := True\<rparr>)"
  using assms num.read_write [of 0 max_uint rest] by (simp add: FramedSource_read_def readInt_def)

lemma drain_framed:
  assumes "\<not> fs_eof src" "list_all frame_legal cs"
    and "fs_from src = concat (map FramedSink_frame cs) @ writeNum 0 @ rest"
  shows "\<exists>src'. FramedSource_drain src sink =
      Inr (sink @ drop (fs_pos src) (fs_pending src) @ concat cs, src') \<and> fs_from src' = rest"
  using assms
proof (induction "framed_left src" arbitrary: src cs sink rule: less_induct)
  case less
  let ?p = "drop (fs_pos src) (fs_pending src)"
  have next_read: ?case
    if r: "FramedSource_read 8192 src = Inr (d, src1)" and p: "d @ drop (fs_pos src1) (fs_pending src1) @ concat cs1 =
        ?p @ concat cs" and s1: "\<not> fs_eof src1" "list_all frame_legal cs1"
        "fs_from src1 = concat (map FramedSink_frame cs1) @ writeNum 0 @ rest" for d src1 cs1
  proof -
    have "framed_left src1 < framed_left src" using FramedSource_read_decreases [OF r] by simp
    from less.hyps [OF this s1, of "sink @ d"] obtain src' where
      "FramedSource_drain src1 (sink @ d) = Inr (sink @ d @ drop (fs_pos src1) (fs_pending src1) @ concat cs1, src')"
      "fs_from src' = rest" by auto
    with r p show ?thesis by (subst FramedSource_drain.simps) simp
  qed
  show ?case
  proof (cases "fs_pos src < length (fs_pending src)")
    case True
    have "take n x @ drop (min n (length x)) x = x" for n and x :: string by (simp add: min_def)
    from this [of 8192 ?p]
    have "take 8192 ?p @ drop (fs_pos src + min 8192 (length ?p)) (fs_pending src) = ?p"
      unfolding drop_drop by (simp only: add.commute)
    then show ?thesis
      by (intro next_read [OF FramedSource_read_pending [OF less.prems(1) True], of cs])
         (use less.prems in simp_all)
  next
    case False
    then have done_pending: "fs_pos src \<ge> length (fs_pending src)" "?p = []" by simp_all
    show ?thesis
    proof (cases cs)
      case Nil
      define src1 where "src1 = src\<lparr>fs_from := rest, fs_eof := True\<rparr>"
      have "FramedSource_read 8192 src = Inr ([], src1)"
        using FramedSource_read_end less.prems done_pending Nil by (simp add: src1_def)
      moreover have "FramedSource_read 8192 src1 = Inl (EndOfFile ''reached end of FramedSource'')"
        by (simp add: FramedSource_read_def src1_def)
      then have "FramedSource_drain src1 sink = Inr (sink, src1)" by (subst FramedSource_drain.simps) simp
      ultimately show ?thesis
        using Nil done_pending(2) by (subst FramedSource_drain.simps) (simp add: src1_def)
    next
      case (Cons c cs1)
      have r: "FramedSource_read 8192 src = Inr (take 8192 c, src\<lparr>
          fs_from := concat (map FramedSink_frame cs1) @ writeNum 0 @ rest, fs_pending := c,
          fs_pos := min 8192 (length c)\<rparr>)"
        by (rule FramedSource_read_frame) (use less.prems done_pending Cons in simp_all)
      show ?thesis
        by (rule next_read [OF r, of cs1]) (use less.prems done_pending Cons in \<open>simp_all add: min_def\<close>)
    qed
  qed
qed

text \<open>
  Whatever is written to a framed sink, in pieces of any size below 4 GiB and with any
  buffer size, draining the framed source on the other side returns exactly the concatenated
  data and leaves the underlying stream just behind the end-of-stream frame. No empty frame,
  which would end the stream early, is ever sent.
\<close>

theorem framed_stream_roundtrip:
  assumes "0 < n" "n < 2 ^ 32" "\<forall>d\<in>set datas. length d < 2 ^ 32"
  shows "\<exists>src. FramedSource_drain
      \<lparr>fs_from = framed_session n datas @ rest, fs_eof = False, fs_pending = [], fs_pos = 0\<rparr> [] =
      Inr (concat datas, src) \<and> fs_from src = rest"
proof -
  define sink where "sink = fold BufferedSink_write datas \<lparr>bufSize = n, buffer = [], unbuffered = []\<rparr>"
  have "sink_inv sink" "sink_content sink = concat datas"
    using writes_inv [of "\<lparr>bufSize = n, buffer = [], unbuffered = []\<rparr>" datas] assms
    by (simp_all add: sink_def sink_inv_def sink_content_def)
  then have f: "list_all frame_legal (unbuffered (BufferedSink_flush sink))"
      "concat (unbuffered (BufferedSink_flush sink)) = concat datas"
    using flush_inv [of sink] by (simp_all add: sink_inv_def sink_content_def)
  show ?thesis
    using drain_framed [of "\<lparr>fs_from = framed_session n datas @ rest, fs_eof = False, fs_pending = [], fs_pos = 0\<rparr>"
        "unbuffered (BufferedSink_flush sink)" rest "[]"] f
    by (simp add: framed_session_def FramedSink_close_def sink_def)
qed

theorem framed_stream_roundtrip_witness:
  "\<exists>src. FramedSource_drain
      \<lparr>fs_from = framed_session 4 [''ab'', '''', ''cdefg''] @ ''tail'', fs_eof = False, fs_pending = [], fs_pos = 0\<rparr> [] =
      Inr (concat [''ab'', '''', ''cdefg''], src) \<and> fs_from src = ''tail''"
  by (rule framed_stream_roundtrip) simp_all

end
