(* ===== verification/Ordered_Map.thy ===== *)
theory Ordered_Map
  imports Main
begin

text \<open>
  \<^verbatim>\<open>std::map\<close> as the sources use it: a list of key and value pairs in strictly ascending order of
  the keys, which is the order an iteration visits them in. The interface \<open>finite_map\<close> is what
  the components rely on; it is interpreted on the ordered lists.
\<close>

section \<open>The interface\<close>

locale finite_map =
  fixes find :: "'m \<Rightarrow> 'k \<Rightarrow> 'v option" and assign :: "'k \<Rightarrow> 'v \<Rightarrow> 'm \<Rightarrow> 'm"
    and emplace :: "'k \<Rightarrow> 'v \<Rightarrow> 'm \<Rightarrow> 'm" and empty_map :: 'm and ok :: "'m \<Rightarrow> bool"
  assumes ok_empty: "ok empty_map"
    and ok_assign: "ok m \<Longrightarrow> ok (assign k v m)"
    and ok_emplace: "ok m \<Longrightarrow> ok (emplace k v m)"
    and find_empty: "find empty_map k = None"
    and find_assign: "ok m \<Longrightarrow> find (assign k v m) k' = (if k' = k then Some v else find m k')"
    and find_emplace: "ok m \<Longrightarrow>
      find (emplace k v m) k' = (if k' = k \<and> find m k = None then Some v else find m k')"
begin

lemma ok_fold_assign: "ok m \<Longrightarrow> ok (fold (\<lambda>(k, v). assign k v) kvs m)"
  by (induction kvs arbitrary: m) (auto intro: ok_assign)

lemma find_fold_assign:
  "ok m \<Longrightarrow> find (fold (\<lambda>(k, v). assign k v) kvs m) k =
     (case map_of (rev kvs) k of Some v \<Rightarrow> Some v | None \<Rightarrow> find m k)"
  by (induction kvs arbitrary: m)
    (auto simp: find_assign ok_assign map_add_def split: option.splits)

lemma find_fold_emplace:
  "ok m \<Longrightarrow> find (fold (\<lambda>(k, v). emplace k v) kvs m) k =
     (case find m k of Some v \<Rightarrow> Some v | None \<Rightarrow> map_of kvs k)"
  by (induction kvs arbitrary: m)
    (auto simp: find_emplace ok_emplace split: option.splits)

text \<open>With distinct keys the two ways to fill a map agree.\<close>

lemma fold_emplace_assign:
  assumes "distinct (map fst kvs)"
  shows "find (fold (\<lambda>(k, v). emplace k v) kvs empty_map) k =
    find (fold (\<lambda>(k, v). assign k v) kvs empty_map) k"
  using assms map_of_inject_set [of "rev kvs" kvs]
  by (simp add: find_fold_emplace find_fold_assign ok_empty find_empty rev_map [symmetric] split: option.splits)

end

section \<open>Ordered lists\<close>

type_synonym ('k, 'v) omap = "('k \<times> 'v) list"

fun insert_or_assign :: "'k::linorder \<Rightarrow> 'v \<Rightarrow> ('k, 'v) omap \<Rightarrow> ('k, 'v) omap" where
  "insert_or_assign k v [] = [(k, v)]"
| "insert_or_assign k v ((k', v') # m) =
     (if k < k' then (k, v) # (k', v') # m
      else if k = k' then (k, v) # m
      else (k', v') # insert_or_assign k v m)"

text \<open>\<^verbatim>\<open>emplace\<close> and \<^verbatim>\<open>insert\<close>: an entry that is there stays.\<close>

fun map_emplace :: "'k::linorder \<Rightarrow> 'v \<Rightarrow> ('k, 'v) omap \<Rightarrow> ('k, 'v) omap" where
  "map_emplace k v [] = [(k, v)]"
| "map_emplace k v ((k', v') # m) =
     (if k < k' then (k, v) # (k', v') # m
      else if k = k' then (k', v') # m
      else (k', v') # map_emplace k v m)"

fun map_erase :: "'k \<Rightarrow> ('k, 'v) omap \<Rightarrow> ('k, 'v) omap" where
  "map_erase k [] = []"
| "map_erase k ((k', v') # m) = (if k = k' then m else (k', v') # map_erase k m)"

definition omap_ok :: "('k::linorder, 'v) omap \<Rightarrow> bool" where
  "omap_ok m \<longleftrightarrow> sorted_wrt (<) (map fst m)"

lemma omap_ok_simps [simp]:
  "omap_ok []"
  "omap_ok ((k, v) # m) \<longleftrightarrow> (\<forall>x\<in>set m. k < fst x) \<and> omap_ok m"
  by (auto simp: omap_ok_def)

lemma fst_insert_or_assign [simp]: "fst ` set (insert_or_assign k v m) = insert k (fst ` set m)"
  by (induction k v m rule: insert_or_assign.induct) auto

lemma fst_map_emplace [simp]: "fst ` set (map_emplace k v m) = insert k (fst ` set m)"
  by (induction k v m rule: map_emplace.induct) auto

lemma all_keys: "(\<forall>x\<in>set m. P (fst x)) \<longleftrightarrow> (\<forall>k\<in>fst ` set m. P k)"
  by simp

lemma omap_ok_assign: "omap_ok m \<Longrightarrow> omap_ok (insert_or_assign k v m)"
proof (induction k v m rule: insert_or_assign.induct)
  case (2 k v k' v' m)
  then show ?case using all_keys [of "insert_or_assign k v m" "\<lambda>x. k' < x"] by auto
qed simp

lemma omap_ok_emplace: "omap_ok m \<Longrightarrow> omap_ok (map_emplace k v m)"
proof (induction k v m rule: map_emplace.induct)
  case (2 k v k' v' m)
  then show ?case using all_keys [of "map_emplace k v m" "\<lambda>x. k' < x"] by auto
qed simp

lemma omap_ok_not_less: "omap_ok m \<Longrightarrow> \<forall>x\<in>set m. k < fst x \<Longrightarrow> map_of m k = None"
  by (force simp: map_of_eq_None_iff)

lemma map_of_assign:
  "omap_ok m \<Longrightarrow> map_of (insert_or_assign k v m) k' = (if k' = k then Some v else map_of m k')"
  by (induction k v m rule: insert_or_assign.induct) auto

lemma map_of_emplace:
  "omap_ok m \<Longrightarrow>
     map_of (map_emplace k v m) k' = (if k' = k \<and> map_of m k = None then Some v else map_of m k')"
proof (induction k v m rule: map_emplace.induct)
  case (2 k v k2 v2 m)
  have "k < k2 \<Longrightarrow> map_of ((k2, v2) # m) k = None"
    using 2(2) omap_ok_not_less [of "(k2, v2) # m" k] by force
  with 2 show ?case by auto
qed simp

interpretation std_map: finite_map map_of insert_or_assign map_emplace "[]" omap_ok
  by unfold_locales (auto simp: omap_ok_assign omap_ok_emplace map_of_assign map_of_emplace)

section \<open>Equality, erasure and insertion in order\<close>

text \<open>Two ordered lists with the same entries are equal: the list is determined by the map.\<close>

lemma omap_ext:
  assumes "omap_ok m" "omap_ok n" "map_of m = map_of n"
  shows "m = n"
proof -
  have "distinct (map fst m)" "distinct (map fst n)"
    using assms(1,2) by (simp_all add: omap_ok_def strict_sorted_iff)
  with assms have "set m = set n" by (metis map_of_inject_set)
  then show ?thesis
    using assms(1,2) map_sorted_distinct_set_unique [of fst m n] \<open>distinct (map fst m)\<close> \<open>distinct (map fst n)\<close>
    by (simp add: omap_ok_def strict_sorted_iff inj_on_def) (metis eq_key_imp_eq_value prod.collapse)
qed

lemma assign_last: "\<forall>x\<in>set m. fst x < k \<Longrightarrow> insert_or_assign k v m = m @ [(k, v)]"
  by (induction m) auto

lemma emplace_last: "\<forall>x\<in>set m. fst x < k \<Longrightarrow> map_emplace k v m = m @ [(k, v)]"
  by (induction m) auto

lemma omap_ok_append:
  "omap_ok (m @ n) \<longleftrightarrow> omap_ok m \<and> omap_ok n \<and> (\<forall>x\<in>set m. \<forall>y\<in>set n. fst x < fst y)"
  by (auto simp: omap_ok_def sorted_wrt_append)

text \<open>Inserting the entries of an ordered list one after the other gives that list.\<close>

lemma fold_in_order:
  assumes "\<And>k v m. \<forall>x\<in>set m. fst x < k \<Longrightarrow> ins k v m = m @ [(k, v)]" and "omap_ok (m @ n)"
  shows "fold (\<lambda>(k, v). ins k v) n m = m @ n"
  using assms(2)
proof (induction n arbitrary: m)
  case (Cons kv n)
  obtain k v where kv: "kv = (k, v)" by fastforce
  have "ins k v m = m @ [(k, v)]" using Cons.prems by (intro assms(1)) (auto simp: kv omap_ok_append)
  with Cons.IH [of "m @ [kv]"] Cons.prems show ?case by (simp add: kv)
qed simp

lemmas fold_assign_in_order = fold_in_order [where ins = insert_or_assign, OF assign_last]
lemmas fold_emplace_in_order = fold_in_order [where ins = map_emplace, OF emplace_last]

lemma map_of_erase: "omap_ok m \<Longrightarrow> map_of (map_erase k m) k' = (if k' = k then None else map_of m k')"
  by (induction k m rule: map_erase.induct) (auto simp: omap_ok_not_less)

lemma set_map_erase: "set (map_erase k m) \<subseteq> set m"
  by (induction k m rule: map_erase.induct) auto

lemma omap_ok_erase: "omap_ok m \<Longrightarrow> omap_ok (map_erase k m)"
  by (induction k m rule: map_erase.induct) (use set_map_erase in fastforce)+

lemma erase_emplace: "omap_ok m \<Longrightarrow> map_of m k = None \<Longrightarrow> map_erase k (map_emplace k v m) = m"
  by (rule omap_ext) (auto simp: omap_ok_erase omap_ok_emplace map_of_erase map_of_emplace fun_eq_iff)

end
