(* ===== verification/Derivation.thy ===== *)
theory Derivation
  imports Content_Address Serialise Ordered_Map
begin

text \<open>
  Store derivations (\<^verbatim>\<open>libstore/derivations.cc\<close>, \<^verbatim>\<open>derivations.hh\<close>, \<^verbatim>\<open>derived-path-map.hh\<close>,
  \<^verbatim>\<open>parsed-derivations.cc\<close>): the data type and its ATerm text format, read and written. The JSON
  library behind structured attributes is a parameter: a parser and a printer on an arbitrary
  type of documents. The settings the code reads from the global
  \<^verbatim>\<open>experimentalFeatureSettings\<close> and those it is passed are one argument.
\<close>

section \<open>Data\<close>

datatype DerivationOutput =
    DO_InputAddressed StorePath
  | DO_CAFixed ContentAddress
  | DO_CAFloating ContentAddressMethod HashAlgorithm
  | DO_Deferred
  | DO_Impure ContentAddressMethod HashAlgorithm

text \<open>\<^verbatim>\<open>DerivedPathMap<StringSet>::ChildNode\<close>; its maps are ordered lists.\<close>

datatype ChildNode = ChildNode (node_value: "string set") (childMap: "(string \<times> ChildNode) list")

text \<open>\<^verbatim>\<open>BasicDerivation\<close> and, with the input derivations, \<^verbatim>\<open>Derivation\<close>.\<close>

record 'j BasicDerivation =
  drv_outputs :: "(string, DerivationOutput) omap"
  inputSrcs :: "StorePath set"
  platform :: string
  builder :: string
  drv_args :: "string list"
  drv_env :: "(string, string) omap"
  structuredAttrs :: "'j option"
  drv_name :: string

record 'j Derivation = "'j BasicDerivation" +
  inputDrvs :: "(StorePath, ChildNode) omap"

text \<open>The JSON library: parsing may fail, and so may printing (on text that is not UTF-8).\<close>

record 'j json_lib =
  json_parse :: "string \<Rightarrow> 'j option"
  json_dump :: "'j \<Rightarrow> string option"

section \<open>Structured attributes\<close>

definition envVarName :: string where
  "envVarName = ''__json''"

definition StructuredAttrs_parse :: "'j json_lib \<Rightarrow> string \<Rightarrow> 'j result" where
  "StructuredAttrs_parse J encoded = (case json_parse J encoded of
     Some j \<Rightarrow> Inr j
   | None \<Rightarrow> Inl (GenericError ''cannot process __json attribute''))"

definition StructuredAttrs_tryExtract ::
  "'j json_lib \<Rightarrow> (string, string) omap \<Rightarrow> ('j option \<times> (string, string) omap) result" where
  "StructuredAttrs_tryExtract J env = (case map_of env envVarName of
     Some encoded \<Rightarrow>
       result_bind (StructuredAttrs_parse J encoded) (\<lambda>j. Inr (Some j, map_erase envVarName env))
   | None \<Rightarrow> Inr (None, env))"

definition StructuredAttrs_unparse :: "'j json_lib \<Rightarrow> 'j \<Rightarrow> (string \<times> string) result" where
  "StructuredAttrs_unparse J j = (case json_dump J j of
     Some s \<Rightarrow> Inr (envVarName, s)
   | None \<Rightarrow> Inl (GenericError ''json.exception.type_error.316''))"

definition checkKeyNotInUse :: "(string, string) omap \<Rightarrow> unit result" where
  "checkKeyNotInUse env =
     ensure (map_of env envVarName = None) (GenericError ''Cannot have an environment variable named __json'')"

section \<open>Paths of outputs\<close>

definition outputPathName :: "string \<Rightarrow> string \<Rightarrow> string" where
  "outputPathName drvName outputName =
     drvName @ (if outputName \<noteq> ''out'' then ''-'' @ outputName else [])"

definition CAFixed_path ::
  "digests \<Rightarrow> ExperimentalFeatureSettings \<Rightarrow> StoreDirConfig \<Rightarrow> string \<Rightarrow> string \<Rightarrow> ContentAddress \<Rightarrow>
     StorePath result" where
  "CAFixed_path digest xp store drvName outputName ca =
     makeFixedOutputPathFromCA digest xp store (outputPathName drvName outputName) (withoutRefs ca)"

fun DerivationOutput_path ::
  "digests \<Rightarrow> ExperimentalFeatureSettings \<Rightarrow> StoreDirConfig \<Rightarrow> string \<Rightarrow> string \<Rightarrow> DerivationOutput \<Rightarrow>
     StorePath option result" where
  "DerivationOutput_path digest xp store drvName outputName (DO_InputAddressed p) = Inr (Some p)"
| "DerivationOutput_path digest xp store drvName outputName (DO_CAFixed ca) =
     result_bind (CAFixed_path digest xp store drvName outputName ca) (\<lambda>p. Inr (Some p))"
| "DerivationOutput_path digest xp store drvName outputName (DO_CAFloating m a) = Inr None"
| "DerivationOutput_path digest xp store drvName outputName DO_Deferred = Inr None"
| "DerivationOutput_path digest xp store drvName outputName (DO_Impure m a) = Inr None"

text \<open>The method and algorithm of an output that is not fixed.\<close>

definition printMethodAlgo :: "ExperimentalFeatureSettings \<Rightarrow> ContentAddressMethod \<Rightarrow> HashAlgorithm \<Rightarrow> string result" where
  "printMethodAlgo xp m a =
     result_bind (ContentAddressMethod_renderPrefix xp m) (\<lambda>pre. Inr (pre @ printHashAlgo a))"

section \<open>Reading the text\<close>

definition quote_char :: char where
  "quote_char = CHR 0x22"

definition backslash :: char where
  "backslash = CHR 0x5C"

definition expect_str :: "string \<Rightarrow> unit reader" where
  "expect_str s str =
     result_bind (ensure (hasPrefix str s) (FormatError ''expected string'')) (\<lambda>_. Inr ((), drop (length s) str))"

definition expect_char :: "char \<Rightarrow> unit reader" where
  "expect_char c str =
     result_bind (ensure (str \<noteq> [] \<and> hd str = c) (FormatError ''expected string'')) (\<lambda>_. Inr ((), tl str))"

definition escapes :: "char \<Rightarrow> char" where
  "escapes c = (if c = CHR ''n'' then CHR 0x0A else if c = CHR ''r'' then CHR 0x0D
     else if c = CHR ''t'' then CHR 0x09 else c)"

text \<open>Where the run of backslashes that ends before a position begins.\<close>

fun run_start :: "string \<Rightarrow> nat \<Rightarrow> nat" where
  "run_start data 0 = 0"
| "run_start data (Suc pos) = (if data ! pos = backslash then run_start data pos else Suc pos)"

text \<open>The search for the closing quote: one with an even number of backslashes in front of it.\<close>

function find_close :: "string \<Rightarrow> nat \<Rightarrow> nat option" where
  "find_close remaining start =
     (if start < length remaining then
        case find_char quote_char (drop start remaining) of
          None \<Rightarrow> None
        | Some k \<Rightarrow>
            if (start + k - run_start remaining (start + k)) mod 2 = 0 then Some (start + k)
            else find_close remaining (start + k + 1)
      else None)"
  by auto

termination
  by (relation "measure (\<lambda>(r, s). length r - s)") auto

function unescape :: "string \<Rightarrow> nat \<Rightarrow> string result" where
  "unescape content start = (case find_char backslash (drop start content) of
     None \<Rightarrow> Inr (drop start content)
   | Some k \<Rightarrow>
       if start + k = length content - 1 then Inl (FormatError ''unterminated string in derivation'')
       else result_bind (unescape content (start + k + 2)) (\<lambda>res.
         Inr (take k (drop start content) @ escapes (content ! (start + k + 1)) # res)))"
  by auto

termination
proof (relation "measure (\<lambda>(c, s). length c - s)", goal_cases)
  case (2 content start k)
  then have "drop start content \<noteq> []" by (auto simp: find_char_def split: if_splits)
  then show ?case by simp
qed simp

declare find_close.simps [simp del] unescape.simps [simp del]

definition parseString :: "string reader" where
  "parseString str =
     result_bind (expect_char quote_char str) (\<lambda>(_, remaining).
       case find_close remaining 0 of
         None \<Rightarrow> Inl (FormatError ''unterminated string in derivation'')
       | Some end \<Rightarrow>
           let content = take end remaining; remaining = drop (end + 1) remaining in
           if find_char backslash content = None then Inr (content, remaining)
           else result_bind (unescape content 0) (\<lambda>res. Inr (res, remaining)))"

definition validatePath :: "string \<Rightarrow> unit result" where
  "validatePath s = ensure (\<not> (s = [] \<or> hd s \<noteq> slash)) (FormatError ''bad path in derivation'')"

definition parsePath :: "string reader" where
  "parsePath str = result_bind (parseString str) (\<lambda>(s, str). result_bind (validatePath s) (\<lambda>_. Inr (s, str)))"

definition endOfList :: "string \<Rightarrow> bool \<times> string" where
  "endOfList str = (case str of
     c # cs \<Rightarrow> if c = CHR '','' then (False, cs) else if c = CHR '']'' then (True, cs) else (False, str)
   | [] \<Rightarrow> (False, str))"

text \<open>
  The loops \<^verbatim>\<open>while (!endOfList(str))\<close>, with the state the body updates. The number of iterations
  is bounded by the length of the text, since every body reads at least one character.
\<close>

fun list_loop :: "nat \<Rightarrow> ('a \<Rightarrow> 'a reader) \<Rightarrow> 'a \<Rightarrow> 'a reader" where
  "list_loop 0 body acc str = Inl OutOfFuel"
| "list_loop (Suc fuel) body acc str = (case endOfList str of
     (True, str) \<Rightarrow> Inr (acc, str)
   | (False, str) \<Rightarrow> result_bind (body acc str) (\<lambda>(acc, str). list_loop fuel body acc str))"

definition parse_list :: "('a \<Rightarrow> 'a reader) \<Rightarrow> 'a \<Rightarrow> 'a reader" where
  "parse_list body acc str = list_loop (Suc (length str)) body acc str"

definition parseStrings :: "bool \<Rightarrow> string set reader" where
  "parseStrings arePaths str =
     result_bind (expect_char (CHR ''['') str) (\<lambda>(_, str).
       parse_list (\<lambda>res str.
         result_bind ((if arePaths then parsePath else parseString) str) (\<lambda>(x, str). Inr (insert x res, str))) {} str)"

definition parseDerivationOutput_strings ::
  "ExperimentalFeatureSettings \<Rightarrow> StoreDirConfig \<Rightarrow> string \<Rightarrow> string \<Rightarrow> string \<Rightarrow> DerivationOutput result" where
  "parseDerivationOutput_strings xp store pathS hashAlgoStr hashS =
     (if hashAlgoStr \<noteq> [] then
        result_bind (ContentAddressMethod_parsePrefix xp hashAlgoStr) (\<lambda>(method, hashAlgoStr).
        result_bind (if method = CAM_Text then xp_require xp DynamicDerivations else Inr ()) (\<lambda>_.
        result_bind (parseHashAlgo hashAlgoStr xp) (\<lambda>hashAlgo.
          if hashS = ''impure'' then
            result_bind (xp_require xp ImpureDerivations) (\<lambda>_.
            result_bind (ensure (pathS = [])
              (FormatError ''impure derivation output should not specify output path'')) (\<lambda>_.
              Inr (DO_Impure method hashAlgo)))
          else if hashS \<noteq> [] then
            result_bind (validatePath pathS) (\<lambda>_.
            result_bind (Hash_parseNonSRIUnprefixed xp hashS hashAlgo) (\<lambda>h.
              Inr (DO_CAFixed \<lparr>ca_method = method, ca_hash = h\<rparr>)))
          else
            result_bind (xp_require xp CaDerivations) (\<lambda>_.
            result_bind (ensure (pathS = [])
              (FormatError ''content-addressing derivation output should not specify output path'')) (\<lambda>_.
              Inr (DO_CAFloating method hashAlgo))))))
      else if pathS = [] then Inr DO_Deferred
      else
        result_bind (validatePath pathS) (\<lambda>_.
        result_bind (parseStorePath store pathS) (\<lambda>p. Inr (DO_InputAddressed p))))"

definition parseDerivationOutput ::
  "ExperimentalFeatureSettings \<Rightarrow> StoreDirConfig \<Rightarrow> DerivationOutput reader" where
  "parseDerivationOutput xp store str =
     result_bind (expect_char (CHR '','') str) (\<lambda>(_, str).
     result_bind (parseString str) (\<lambda>(pathS, str).
     result_bind (expect_char (CHR '','') str) (\<lambda>(_, str).
     result_bind (parseString str) (\<lambda>(hashAlgo, str).
     result_bind (expect_char (CHR '','') str) (\<lambda>(_, str).
     result_bind (parseString str) (\<lambda>(hash, str).
     result_bind (expect_char (CHR '')'') str) (\<lambda>(_, str).
     result_bind (parseDerivationOutput_strings xp store pathS hashAlgo hash) (\<lambda>out.
       Inr (out, str)))))))))"

datatype DerivationATermVersion = Traditional | ATerm_DynamicDerivations

text \<open>\<open>levels\<close> bounds the depth of the nesting, which is less than the length of the text.\<close>

fun parseDerivedPathMapNode :: "nat \<Rightarrow> DerivationATermVersion \<Rightarrow> ChildNode reader" where
  "parseDerivedPathMapNode 0 version str = Inl OutOfFuel"
| "parseDerivedPathMapNode (Suc levels) version str =
     (let parseNonDynamic = result_bind (parseStrings False str) (\<lambda>(v, str). Inr (ChildNode v [], str)) in
      case version of
        Traditional \<Rightarrow> parseNonDynamic
      | ATerm_DynamicDerivations \<Rightarrow>
          if str \<noteq> [] \<and> hd str = CHR ''['' then parseNonDynamic
          else if str \<noteq> [] \<and> hd str = CHR ''('' then
            result_bind (expect_char (CHR ''('') str) (\<lambda>(_, str).
            result_bind (parseStrings False str) (\<lambda>(v, str).
            result_bind (expect_str '',['' str) (\<lambda>(_, str).
            result_bind (parse_list (\<lambda>m str.
                result_bind (expect_char (CHR ''('') str) (\<lambda>(_, str).
                result_bind (parseString str) (\<lambda>(outputName, str).
                result_bind (expect_char (CHR '','') str) (\<lambda>(_, str).
                result_bind (parseDerivedPathMapNode levels version str) (\<lambda>(child, str).
                result_bind (expect_char (CHR '')'') str) (\<lambda>(_, str).
                  Inr (insert_or_assign outputName child m, str))))))) [] str) (\<lambda>(m, str).
            result_bind (expect_char (CHR '')'') str) (\<lambda>(_, str).
              Inr (ChildNode v m, str))))))
          else Inl (FormatError ''invalid inputDrvs entry in derivation''))"

declare parseDerivedPathMapNode.simps(2) [simp del]

definition parse_version :: "ExperimentalFeatureSettings \<Rightarrow> DerivationATermVersion reader" where
  "parse_version xp str =
     result_bind (expect_char (CHR ''D'') str) (\<lambda>(_, str).
       if str \<noteq> [] \<and> hd str = CHR ''e'' then
         result_bind (expect_str ''erive('' str) (\<lambda>(_, str). Inr (Traditional, str))
       else if str \<noteq> [] \<and> hd str = CHR ''r'' then
         result_bind (expect_str ''rvWithVersion('' str) (\<lambda>(_, str).
         result_bind (parseString str) (\<lambda>(versionS, str).
         result_bind (ensure (versionS = ''xp-dyn-drv'')
           (FormatError ''Unknown derivation ATerm format version'')) (\<lambda>_.
         result_bind (xp_require xp DynamicDerivations) (\<lambda>_.
         result_bind (expect_char (CHR '','') str) (\<lambda>(_, str).
           Inr (ATerm_DynamicDerivations, str))))))
       else Inl (GenericError ''derivation does not start with Derive or DrvWithVersion''))"

definition parse_outputs ::
  "ExperimentalFeatureSettings \<Rightarrow> StoreDirConfig \<Rightarrow> (string, DerivationOutput) omap reader" where
  "parse_outputs xp store str =
     result_bind (expect_char (CHR ''['') str) (\<lambda>(_, str).
       parse_list (\<lambda>outputs str.
         result_bind (expect_char (CHR ''('') str) (\<lambda>(_, str).
         result_bind (parseString str) (\<lambda>(id, str).
         result_bind (parseDerivationOutput xp store str) (\<lambda>(out, str).
           Inr (map_emplace id out outputs, str))))) [] str)"

definition parse_inputDrvs ::
  "StoreDirConfig \<Rightarrow> DerivationATermVersion \<Rightarrow> (StorePath, ChildNode) omap reader" where
  "parse_inputDrvs store version str =
     result_bind (expect_str '',['' str) (\<lambda>(_, str).
       parse_list (\<lambda>inputs str.
         result_bind (expect_char (CHR ''('') str) (\<lambda>(_, str).
         result_bind (parsePath str) (\<lambda>(drvPath, str).
         result_bind (expect_char (CHR '','') str) (\<lambda>(_, str).
         result_bind (parseStorePath store drvPath) (\<lambda>p.
         result_bind (parseDerivedPathMapNode (Suc (length str)) version str) (\<lambda>(node, str).
         result_bind (expect_char (CHR '')'') str) (\<lambda>(_, str).
           Inr (insert_or_assign p node inputs, str)))))))) [] str)"

definition parse_args :: "string list reader" where
  "parse_args str =
     result_bind (expect_str '',['' str) (\<lambda>(_, str).
       parse_list (\<lambda>args str. result_bind (parseString str) (\<lambda>(x, str). Inr (args @ [x], str))) [] str)"

definition parse_env :: "'j json_lib \<Rightarrow> ((string, string) omap \<times> 'j option) reader" where
  "parse_env J str =
     result_bind (expect_str '',['' str) (\<lambda>(_, str).
       parse_list (\<lambda>(env, sa) str.
         result_bind (expect_char (CHR ''('') str) (\<lambda>(_, str).
         result_bind (parseString str) (\<lambda>(name, str).
         result_bind (expect_char (CHR '','') str) (\<lambda>(_, str).
         result_bind (parseString str) (\<lambda>(val, str).
         result_bind
           (if name = envVarName then
              result_bind (StructuredAttrs_parse J val) (\<lambda>j. Inr (env, Some j))
            else Inr (insert_or_assign name val env, sa)) (\<lambda>acc.
         result_bind (expect_char (CHR '')'') str) (\<lambda>(_, str).
           Inr (acc, str)))))))) ([], None) str)"

definition parseDerivation ::
  "'j json_lib \<Rightarrow> ExperimentalFeatureSettings \<Rightarrow> StoreDirConfig \<Rightarrow> string \<Rightarrow> string \<Rightarrow> 'j Derivation result" where
  "parseDerivation J xp store s name =
     result_bind (parse_version xp s) (\<lambda>(version, str).
     result_bind (parse_outputs xp store str) (\<lambda>(outputs, str).
     result_bind (parse_inputDrvs store version str) (\<lambda>(inputs, str).
     result_bind (expect_char (CHR '','') str) (\<lambda>(_, str).
     result_bind (parseStrings True str) (\<lambda>(srcs, str).
     result_bind (parseStorePathSet store srcs) (\<lambda>srcs.
     result_bind (expect_char (CHR '','') str) (\<lambda>(_, str).
     result_bind (parseString str) (\<lambda>(plat, str).
     result_bind (expect_char (CHR '','') str) (\<lambda>(_, str).
     result_bind (parseString str) (\<lambda>(bld, str).
     result_bind (parse_args str) (\<lambda>(args, str).
     result_bind (parse_env J str) (\<lambda>((env, sa), str).
     result_bind (expect_char (CHR '')'') str) (\<lambda>(_, str).
       Inr \<lparr>drv_outputs = outputs, inputSrcs = srcs, platform = plat, builder = bld, drv_args = args,
         drv_env = env, structuredAttrs = sa, drv_name = name, inputDrvs = inputs\<rparr>)))))))))))))"

section \<open>Writing the text\<close>

definition chunkSize :: nat where
  "chunkSize = 1024"

definition escape_char :: "char \<Rightarrow> string" where
  "escape_char c =
     (if c = quote_char \<or> c = backslash then [backslash, c]
      else if c = CHR 0x0A then [backslash, CHR ''n'']
      else if c = CHR 0x0D then [backslash, CHR ''r'']
      else if c = CHR 0x09 then [backslash, CHR ''t'']
      else [c])"

text \<open>What one iteration puts in the buffer of \<^verbatim>\<open>2 * chunkSize + 2\<close> characters.\<close>

definition escape_chunk :: "string \<Rightarrow> string" where
  "escape_chunk chunk = concat (map escape_char chunk)"

function print_chunks :: "string \<Rightarrow> string \<Rightarrow> string" where
  "print_chunks res s =
     (if s = [] then res else print_chunks (res @ escape_chunk (take chunkSize s)) (drop chunkSize s))"
  by auto

termination
  by (relation "measure (\<lambda>(res, s). length s)") (auto simp: chunkSize_def)

declare print_chunks.simps [simp del]

definition printString :: "string \<Rightarrow> string" where
  "printString s = print_chunks [quote_char] s @ [quote_char]"

definition printUnquotedString :: "string \<Rightarrow> string" where
  "printUnquotedString s = quote_char # s @ [quote_char]"

text \<open>The flag \<^verbatim>\<open>first\<close> of the printing loops: a comma before every element but the first.\<close>

definition comma_separated :: "string list \<Rightarrow> string" where
  "comma_separated ss = concatStringsSep '','' ss"

definition printStrings :: "string list \<Rightarrow> string" where
  "printStrings ss = ''['' @ comma_separated (map printString ss) @ '']''"

definition printUnquotedStrings :: "string list \<Rightarrow> string" where
  "printUnquotedStrings ss = ''['' @ comma_separated (map printUnquotedString ss) @ '']''"

fun unparseDerivedPathMapNode :: "ChildNode \<Rightarrow> string" where
  "unparseDerivedPathMapNode (ChildNode v m) = '','' @
     (if m = [] then printUnquotedStrings (sorted_list_of_set v)
      else ''('' @ printUnquotedStrings (sorted_list_of_set v) @ '',['' @
        comma_separated (map (\<lambda>(outputName, childNode).
          ''('' @ printUnquotedString outputName @ unparseDerivedPathMapNode childNode @ '')'') m) @
        ''])'')"

definition hasDynamicDrvDep :: "('j, 'a) Derivation_scheme \<Rightarrow> bool" where
  "hasDynamicDrvDep drv \<longleftrightarrow> list_ex (\<lambda>kv. childMap (snd kv) \<noteq> []) (inputDrvs drv)"

fun unparse_output ::
  "digests \<Rightarrow> ExperimentalFeatureSettings \<Rightarrow> StoreDirConfig \<Rightarrow> bool \<Rightarrow> string \<Rightarrow> string \<times> DerivationOutput \<Rightarrow>
     (string \<times> string \<times> string) result" where
  "unparse_output digest xp store maskOutputs name (outputName, DO_InputAddressed path) =
     Inr (if maskOutputs then [] else printStorePath store path, [], [])"
| "unparse_output digest xp store maskOutputs name (outputName, DO_CAFixed ca) =
     result_bind (if maskOutputs then Inr []
       else result_bind (CAFixed_path digest xp store name outputName ca) (\<lambda>p. Inr (printStorePath store p))) (\<lambda>p.
     result_bind (ContentAddress_printMethodAlgo xp ca) (\<lambda>ma.
     result_bind (Hash_to_string (ca_hash ca) Base16 False) (\<lambda>h. Inr (p, ma, h))))"
| "unparse_output digest xp store maskOutputs name (outputName, DO_CAFloating method hashAlgo) =
     result_bind (printMethodAlgo xp method hashAlgo) (\<lambda>ma. Inr ([], ma, []))"
| "unparse_output digest xp store maskOutputs name (outputName, DO_Deferred) = Inr ([], [], [])"
| "unparse_output digest xp store maskOutputs name (outputName, DO_Impure method hashAlgo) =
     result_bind (printMethodAlgo xp method hashAlgo) (\<lambda>ma. Inr ([], ma, ''impure''))"

definition print_output :: "string \<Rightarrow> string \<times> string \<times> string \<Rightarrow> string" where
  "print_output outputName f = (case f of (p, ma, h) \<Rightarrow>
     ''('' @ printUnquotedString outputName @ '','' @ printUnquotedString p @ '','' @
       printUnquotedString ma @ '','' @ printUnquotedString h @ '')'')"

definition unparse_outputs ::
  "digests \<Rightarrow> ExperimentalFeatureSettings \<Rightarrow> StoreDirConfig \<Rightarrow> bool \<Rightarrow> string \<Rightarrow>
     (string, DerivationOutput) omap \<Rightarrow> string result" where
  "unparse_outputs digest xp store maskOutputs name outputs =
     result_bind (map_result (\<lambda>i.
         result_bind (unparse_output digest xp store maskOutputs name i) (\<lambda>f. Inr (print_output (fst i) f))) outputs)
       (\<lambda>ss. Inr (comma_separated ss))"

definition unparse_input :: "string \<times> ChildNode \<Rightarrow> string" where
  "unparse_input kv = ''('' @ printUnquotedString (fst kv) @ unparseDerivedPathMapNode (snd kv) @ '')''"

definition unparse_env :: "bool \<Rightarrow> (string, DerivationOutput) omap \<Rightarrow> (string, string) omap \<Rightarrow> string" where
  "unparse_env maskOutputs outputs atermEnv =
     comma_separated (map (\<lambda>(k, v).
       ''('' @ printString k @ '','' @ printString (if maskOutputs \<and> map_of outputs k \<noteq> None then [] else v) @ '')'')
       atermEnv)"

text \<open>The environment with the structured attributes put back under their reserved name.\<close>

definition env_with_attrs ::
  "'j json_lib \<Rightarrow> ('j, 'a) BasicDerivation_scheme \<Rightarrow> (string, string) omap result" where
  "env_with_attrs J drv =
     result_bind (checkKeyNotInUse (drv_env drv)) (\<lambda>_.
       case structuredAttrs drv of
         None \<Rightarrow> Inr (drv_env drv)
       | Some j \<Rightarrow> result_bind (StructuredAttrs_unparse J j) (\<lambda>(k, v). Inr (map_emplace k v (drv_env drv))))"

definition Derivation_unparse ::
  "'j json_lib \<Rightarrow> digests \<Rightarrow> ExperimentalFeatureSettings \<Rightarrow> StoreDirConfig \<Rightarrow> bool \<Rightarrow>
     (string, ChildNode) omap option \<Rightarrow> 'j Derivation \<Rightarrow> string result" where
  "Derivation_unparse J digest xp store maskOutputs actualInputs drv =
     (let s = (if hasDynamicDrvDep drv then ''DrvWithVersion('' @ printUnquotedString ''xp-dyn-drv'' @ '',''
               else ''Derive('') in
      result_bind (unparse_outputs digest xp store maskOutputs (drv_name drv) (drv_outputs drv)) (\<lambda>outs.
      result_bind (env_with_attrs J drv) (\<lambda>env.
        Inr (s @ ''['' @ outs @ ''],['' @
          comma_separated (map unparse_input (case actualInputs of
            Some inputs \<Rightarrow> inputs
          | None \<Rightarrow> map (\<lambda>(drvPath, node). (printStorePath store drvPath, node)) (inputDrvs drv))) @
          ''],'' @ printUnquotedStrings (sorted_list_of_set (printStorePathSet store (inputSrcs drv))) @
          '','' @ printUnquotedString (platform drv) @ '','' @ printString (builder drv) @
          '','' @ printStrings (drv_args drv) @ '',['' @
          unparse_env maskOutputs (drv_outputs drv) env @ ''])''))))"

section \<open>String literals\<close>

lemma escape_char_length: "length (escape_char c) \<le> 2"
  by (simp add: escape_char_def)

lemma escape_char_cases:
  obtains (two) d where "escape_char c = [backslash, d]" "escapes d = c"
    | (one) "escape_char c = [c]" "c \<noteq> quote_char" "c \<noteq> backslash"
proof (cases "escape_char c = [c]")
  case True
  then show ?thesis using that(2) by (auto simp: escape_char_def split: if_splits)
next
  case False
  then show ?thesis using that(1)
    by (auto simp: escape_char_def escapes_def quote_char_def backslash_def split: if_splits)
qed

lemma escape_chunk_length: "length (escape_chunk s) \<le> 2 * length s"
proof (induction s)
  case (Cons c s)
  then show ?case using escape_char_length [of c] by (simp add: escape_chunk_def)
qed (simp add: escape_chunk_def)

lemma escape_chunk_append [simp]: "escape_chunk (a @ b) = escape_chunk a @ escape_chunk b"
  by (simp add: escape_chunk_def)

lemma escape_chunk_simps [simp]:
  "escape_chunk [] = []"
  "escape_chunk (c # s) = escape_char c @ escape_chunk s"
  by (simp_all add: escape_chunk_def)

text \<open>The chunks are an optimisation only.\<close>

lemma print_chunks_eq: "print_chunks res s = res @ escape_chunk s"
proof (induction res s rule: print_chunks.induct)
  case (1 res s)
  then show ?case
    using escape_chunk_append [of "take chunkSize s" "drop chunkSize s"] by (simp add: print_chunks.simps [of res s])
qed

lemma printString_eq: "printString s = quote_char # escape_chunk s @ [quote_char]"
  by (simp add: printString_def print_chunks_eq)

text \<open>The backslashes at the end of a string.\<close>

definition trail :: "string \<Rightarrow> nat" where
  "trail s = length (takeWhile (\<lambda>c. c = backslash) (rev s))"

lemma trail_simps [simp]:
  "trail [] = 0"
  "trail (s @ [c]) = (if c = backslash then Suc (trail s) else 0)"
  by (simp_all add: trail_def)

lemma run_start_trail: "i \<le> length s \<Longrightarrow> i - run_start s i = trail (take i s)"
proof (induction i)
  case (Suc i)
  have "run_start s i \<le> i" by (induction i) auto
  with Suc show ?case by (simp add: take_Suc_conv_app_nth Suc_diff_le)
qed simp

lemma find_char_drop:
  assumes "find_char c (drop n s) = Some k"
  shows "n + k < length s" "s ! (n + k) = c" "\<forall>j. n \<le> j \<and> j < n + k \<longrightarrow> s ! j \<noteq> c"
proof -
  have k: "k = length (takeWhile (\<lambda>x. x \<noteq> c) (drop n s))" "c \<in> set (drop n s)"
    using assms by (auto simp: find_char_def split: if_splits)
  then have "takeWhile (\<lambda>x. x \<noteq> c) (drop n s) \<noteq> drop n s" by (metis (mono_tags, lifting) takeWhile_eq_all_conv)
  then have less: "k < length (drop n s)"
    using k(1) length_takeWhile_le [of "\<lambda>x. x \<noteq> c" "drop n s"] takeWhile_eq_take [of "\<lambda>x. x \<noteq> c" "drop n s"]
    by (metis le_neq_implies_less order_refl take_all)
  then show "n + k < length s" by simp
  show "s ! (n + k) = c" using nth_length_takeWhile [of "\<lambda>x. x \<noteq> c" "drop n s"] less k by simp
  show "\<forall>j. n \<le> j \<and> j < n + k \<longrightarrow> s ! j \<noteq> c"
  proof (intro allI impI)
    fix j assume j: "n \<le> j \<and> j < n + k"
    then have "takeWhile (\<lambda>x. x \<noteq> c) (drop n s) ! (j - n) \<in> set (takeWhile (\<lambda>x. x \<noteq> c) (drop n s))"
      using k by (intro nth_mem) auto
    moreover have "takeWhile (\<lambda>x. x \<noteq> c) (drop n s) ! (j - n) = s ! j"
      using j k less nth_drop [of n s "j - n"] by (subst takeWhile_nth) auto
    ultimately show "s ! j \<noteq> c" by (auto dest: set_takeWhileD)
  qed
qed

lemma find_close_intro:
  assumes "start \<le> i" "i < length s" "s ! i = quote_char" "even (trail (take i s))"
    and "\<forall>j. start \<le> j \<and> j < i \<and> s ! j = quote_char \<longrightarrow> odd (trail (take j s))"
  shows "find_close s start = Some i"
  using assms
proof (induction s start rule: find_close.induct)
  case (1 s start)
  have "quote_char \<in> set (drop start s)"
    using 1(2,3,4) by (auto simp: in_set_conv_nth intro!: exI [of _ "i - start"])
  then obtain k where k: "find_char quote_char (drop start s) = Some k" by (simp add: find_char_def)
  note found = find_char_drop [OF k]
  have le: "start + k \<le> i" using found(3) 1(2,4) by (meson not_le)
  have run: "(start + k - run_start s (start + k)) mod 2 = 0 \<longleftrightarrow> even (trail (take (start + k) s))"
    using found(1) by (simp add: run_start_trail even_iff_mod_2_eq_zero)
  show ?case
  proof (cases "start + k = i")
    case True
    with k run 1(2-5) show ?thesis by (simp add: find_close.simps [of s start])
  next
    case False
    then have "odd (trail (take (start + k) s))" using 1(6) found(2) le by auto
    moreover have "find_close s (start + k + 1) = Some i"
      using False le 1(2-6) run \<open>odd _\<close> by (intro "1.IH" [OF _ k]) auto
    ultimately show ?thesis using k run 1(2,3) by (simp add: find_close.simps [of s start])
  qed
qed

lemma escaped_parity:
  "even (trail (escape_chunk s)) \<and>
   (\<forall>j < length (escape_chunk s). escape_chunk s ! j = quote_char \<longrightarrow> odd (trail (take j (escape_chunk s))))"
proof (induction s rule: rev_induct)
  case (snoc c s)
  define e where "e = escape_chunk s"
  have IH: "even (trail e)" "\<And>j. j < length e \<Longrightarrow> e ! j = quote_char \<Longrightarrow> odd (trail (take j e))"
    using snoc.IH by (auto simp: e_def)
  show ?case
  proof (cases c rule: escape_char_cases)
    case (two d)
    have "trail (e @ [backslash, d]) = trail ((e @ [backslash]) @ [d])" by simp
    then show ?thesis using IH two
      by (auto simp: e_def [symmetric] nth_append less_Suc_eq quote_char_def backslash_def simp del: append_assoc split: if_splits)
  next
    case one
    with IH show ?thesis by (auto simp: e_def [symmetric] nth_append less_Suc_eq)
  qed
qed simp

text \<open>Unescaping, one character after the other.\<close>

fun unesc :: "string \<Rightarrow> string result" where
  "unesc [] = Inr []"
| "unesc (c # s) =
     (if c = backslash then
        (case s of
           [] \<Rightarrow> Inl (FormatError ''unterminated string in derivation'')
         | d # s' \<Rightarrow> result_bind (unesc s') (\<lambda>r. Inr (escapes d # r)))
      else result_bind (unesc s) (\<lambda>r. Inr (c # r)))"

lemma unesc_plain: "backslash \<notin> set p \<Longrightarrow> unesc (p @ s) = result_bind (unesc s) (\<lambda>r. Inr (p @ r))"
proof (induction p)
  case Nil
  show ?case by (cases "unesc s") simp_all
next
  case (Cons c p)
  then show ?case by (cases "unesc s") auto
qed

lemma unescape_eq: "unescape content start = unesc (drop start content)"
proof (induction content start rule: unescape.induct)
  case (1 content start)
  let ?d = "drop start content"
  show ?case
  proof (cases "find_char backslash ?d")
    case None
    then have "backslash \<notin> set ?d" by (auto simp: find_char_def split: if_splits)
    with None unesc_plain [of ?d "[]"] show ?thesis by (simp add: unescape.simps [of content])
  next
    case (Some k)
    note found = find_char_drop [OF Some]
    have d: "?d = take k ?d @ backslash # drop (start + k + 1) content"
      using found(1,2) id_take_nth_drop [of k ?d] by (simp add: add.commute add.left_commute)
    have plain: "backslash \<notin> set (take k ?d)"
      using found(1,3) by (auto simp: in_set_conv_nth)
    show ?thesis
    proof (cases "start + k = length content - 1")
      case True
      then have "drop (start + k + 1) content = []" using found(1) by simp
      with d plain unesc_plain [OF plain, of "[backslash]"] True Some show ?thesis
        by (simp add: unescape.simps [of content])
    next
      case False
      then have "drop (start + k + 1) content = content ! (start + k + 1) # drop (start + k + 2) content"
        using found(1) Cons_nth_drop_Suc [of "start + k + 1" content] by simp
      with d have "unesc ?d = result_bind (unesc (drop (start + k + 2) content))
          (\<lambda>r. Inr (take k ?d @ escapes (content ! (start + k + 1)) # r))"
        using unesc_plain [OF plain, of "backslash # content ! (start + k + 1) # drop (start + k + 2) content"]
        by (cases "unesc (drop (start + k + 2) content)") simp_all
      with 1 [OF Some False] False Some show ?thesis by (simp add: unescape.simps [of content start])
    qed
  qed
qed

lemma unesc_escaped: "unesc (escape_chunk s) = Inr s"
proof (induction s)
  case (Cons c s)
  then show ?case by (cases c rule: escape_char_cases) simp_all
qed simp

lemma parseString_intro:
  assumes "even (trail s)" "\<forall>j < length s. s ! j = quote_char \<longrightarrow> odd (trail (take j s))" "unesc s = Inr t"
  shows "parseString (quote_char # s @ quote_char # rest) = Inr (t, rest)"
proof -
  have "find_close (s @ quote_char # rest) 0 = Some (length s)"
    using assms(1,2) by (intro find_close_intro) (auto simp: nth_append)
  moreover have "find_char backslash s = None \<Longrightarrow> t = s"
    using assms(3) unesc_plain [of s "[]"] by (auto simp: find_char_def split: if_splits)
  ultimately show ?thesis using assms(3) by (auto simp: parseString_def expect_char_def unescape_eq)
qed

lemma parse_printString: "parseString (printString s @ rest) = Inr (s, rest)"
  using parseString_intro [of "escape_chunk s" s rest] escaped_parity [of s] unesc_escaped [of s]
  by (simp add: printString_eq)

definition plain :: "string \<Rightarrow> bool" where
  "plain s \<longleftrightarrow> quote_char \<notin> set s \<and> backslash \<notin> set s"

lemma parse_unquoted: "plain s \<Longrightarrow> parseString (printUnquotedString s @ rest) = Inr (s, rest)"
proof -
  assume p: "plain s"
  have "trail s = 0"
    using p by (cases s rule: rev_cases) (auto simp: plain_def)
  with p show ?thesis
    using parseString_intro [of s s rest] unesc_plain [of s "[]"]
    by (auto simp: printUnquotedString_def plain_def in_set_conv_nth)
qed

text \<open>
  A string literal of the text format reads back as the string, whatever characters the string
  has and whatever follows the literal: the closing quote the reader finds, by counting the
  backslashes before each quote, is the one the writer put there. The writer's chunks never
  overrun its buffer of \<open>2 * chunkSize + 2\<close> characters, and how the string is cut into chunks
  does not show in the result.
\<close>

theorem printString_roundtrip:
  "parseString (printString s @ rest) = Inr (s, rest) \<and>
   length (escape_chunk (take chunkSize s)) \<le> 2 * chunkSize \<and>
   printString s = quote_char # concat (map escape_char s) @ [quote_char]"
proof -
  have "length (escape_chunk (take chunkSize s)) \<le> 2 * chunkSize"
    using escape_chunk_length [of "take chunkSize s"] by simp
  then show ?thesis using parse_printString [of s rest] by (simp add: printString_eq) (simp add: escape_chunk_def)
qed

section \<open>Lists\<close>

lemma expect_char_hit [simp]: "expect_char c (c # s) = Inr ((), s)"
  by (simp add: expect_char_def)

lemma expect_str_hit [simp]: "expect_str p (p @ s) = Inr ((), s)"
  by (simp add: expect_str_def hasPrefix_def)

lemma expect_list_start [simp]: "expect_str '',['' (CHR '','' # CHR ''['' # s) = Inr ((), s)"
  using expect_str_hit [of "'',[''" s] by simp

lemma endOfList_simps [simp]:
  "endOfList (CHR '','' # s) = (False, s)"
  "endOfList (CHR '']'' # s) = (True, s)"
  by (simp_all add: endOfList_def)

text \<open>
  What the body of a list loop does on the printed form of an element: it takes exactly
  that text and updates the state.
\<close>

definition reads_item :: "('a \<Rightarrow> 'a reader) \<Rightarrow> ('b \<Rightarrow> string) \<Rightarrow> ('b \<Rightarrow> 'a \<Rightarrow> 'a) \<Rightarrow> 'b \<Rightarrow> bool" where
  "reads_item body p upd x \<longleftrightarrow> (\<exists>c s. p x = c # s \<and> c \<noteq> CHR '','' \<and> c \<noteq> CHR '']'') \<and>
     (\<forall>acc rest. body acc (p x @ rest) = Inr (upd x acc, rest))"

lemma list_loop_printed:
  assumes "\<forall>x\<in>set xs. reads_item body p upd x" "length xs < fuel"
  shows "list_loop fuel body acc (concat (map (\<lambda>i. '','' @ i) (map p xs)) @ CHR '']'' # rest) =
    Inr (fold upd xs acc, rest)"
  using assms
proof (induction xs arbitrary: fuel acc)
  case Nil
  then show ?case by (cases fuel) simp_all
next
  case (Cons x xs)
  then obtain n where n: "fuel = Suc n" "length xs < n" by (cases fuel) auto
  have "body acc (p x @ r) = Inr (upd x acc, r)" for r using Cons.prems by (simp add: reads_item_def)
  with Cons.IH [of n "upd x acc"] Cons.prems n show ?case by simp
qed

lemma parse_list_printed:
  assumes "\<forall>x\<in>set xs. reads_item body p upd x"
  shows "parse_list body acc (comma_separated (map p xs) @ CHR '']'' # rest) = Inr (fold upd xs acc, rest)"
proof (cases xs)
  case Nil
  then show ?thesis by (simp add: parse_list_def comma_separated_def)
next
  case (Cons x ys)
  define t where "t = concat (map (\<lambda>i. '','' @ i) (map p ys)) @ CHR '']'' # rest"
  have x: "reads_item body p upd x" using assms Cons by simp
  then obtain c s where c: "p x = c # s" "c \<noteq> CHR '',''" "c \<noteq> CHR '']''" by (auto simp: reads_item_def)
  have body: "body acc (p x @ t) = Inr (upd x acc, t)" using x unfolding reads_item_def by blast
  have len: "length ys \<le> length (concat (map (\<lambda>i. '','' @ i) (map p ys)))" by (induction ys) auto
  have rest: "list_loop (length (p x @ t)) body (upd x acc) t = Inr (fold upd ys (upd x acc), rest)"
    unfolding t_def using assms Cons len by (intro list_loop_printed) (auto simp del: append.simps)
  have "endOfList (p x @ t) = (False, p x @ t)" using c by (simp add: endOfList_def)
  with body rest have "parse_list body acc (p x @ t) = Inr (fold upd xs acc, rest)"
    by (simp add: parse_list_def Cons)
  then show ?thesis by (simp add: comma_separated_def Cons t_def)
qed

lemma reads_itemI:
  assumes "\<And>acc rest. body acc (p x @ rest) = Inr (upd x acc, rest)" "p x \<noteq> []"
    and "hd (p x) \<noteq> CHR '',''" "hd (p x) \<noteq> CHR '']''"
  shows "reads_item body p upd x"
  using assms by (cases "p x") (auto simp: reads_item_def)

lemma literal_start [simp]:
  "printUnquotedString s \<noteq> []" "hd (printUnquotedString s) = quote_char"
  "printString s \<noteq> []" "hd (printString s) = quote_char"
  by (simp_all add: printUnquotedString_def printString_eq)

lemma quote_char_not_end [simp]: "quote_char \<noteq> CHR '',''" "quote_char \<noteq> CHR '']''"
  by (simp_all add: quote_char_def)

lemma fold_insert_set: "fold insert xs A = set xs \<union> A"
  by (induction xs arbitrary: A) auto

lemma parseStrings_printed:
  assumes "finite v" "\<forall>x\<in>v. plain x" "arePaths \<Longrightarrow> \<forall>x\<in>v. fs_is_absolute x"
  shows "parseStrings arePaths (printUnquotedStrings (sorted_list_of_set v) @ rest) = Inr (v, rest)"
proof -
  have "\<forall>x\<in>set (sorted_list_of_set v). reads_item (\<lambda>res str.
      result_bind ((if arePaths then parsePath else parseString) str) (\<lambda>(x, str). Inr (insert x res, str)))
      printUnquotedString insert x"
    using assms
    by (auto intro!: reads_itemI simp: parsePath_def parse_unquoted validatePath_def fs_is_absolute_def)
  from parse_list_printed [OF this, of "{}" rest] assms(1) show ?thesis
    by (simp add: parseStrings_def printUnquotedStrings_def fold_insert_set)
qed

section \<open>Nested input derivations\<close>

fun node_wf :: "ChildNode \<Rightarrow> bool" where
  "node_wf (ChildNode v m) \<longleftrightarrow> finite v \<and> (\<forall>x\<in>v. plain x) \<and> omap_ok m \<and>
     (\<forall>(k, c)\<in>set m. plain k \<and> node_wf c)"

lemma comma_separated_member: "x \<in> set ss \<Longrightarrow> length x \<le> length (comma_separated ss)"
proof (cases ss)
  case (Cons y ys)
  have "z \<in> set zs \<Longrightarrow> length z \<le> length (concat (map (\<lambda>i. '','' @ i) zs))" for z :: string and zs
    by (induction zs) auto
  from this [of x ys] show "x \<in> set ss \<Longrightarrow> length x \<le> length (comma_separated ss)"
    using Cons by (auto simp: comma_separated_def simp del: append.simps)
qed simp

abbreviation child_text :: "string \<times> ChildNode \<Rightarrow> string" where
  "child_text \<equiv> \<lambda>(outputName, childNode).
     ''('' @ printUnquotedString outputName @ unparseDerivedPathMapNode childNode @ '')''"

lemma child_length:
  assumes "(k, c) \<in> set m"
  shows "length (unparseDerivedPathMapNode c) < length (unparseDerivedPathMapNode (ChildNode v m))"
proof -
  have "length (child_text (k, c)) \<le> length (comma_separated (map child_text m))"
    using assms by (intro comma_separated_member) force
  with assms show ?thesis by auto
qed

lemma unparse_node_comma:
  "unparseDerivedPathMapNode n @ rest = CHR '','' # tl (unparseDerivedPathMapNode n) @ rest"
  by (cases n) simp

lemma parse_node_printed:
  assumes "node_wf n" "childMap n = [] \<or> version = ATerm_DynamicDerivations"
    and "length (unparseDerivedPathMapNode n) \<le> levels"
  shows "parseDerivedPathMapNode levels version (tl (unparseDerivedPathMapNode n) @ rest) = Inr (n, rest)"
  using assms
proof (induction n arbitrary: levels rest)
  case (ChildNode v m)
  obtain l where l: "levels = Suc l" using ChildNode.prems(3) by (cases levels) auto
  have strings: "parseStrings False (printUnquotedStrings (sorted_list_of_set v) @ r) = Inr (v, r)" for r
    using ChildNode.prems by (intro parseStrings_printed) auto
  show ?case
  proof (cases "m = []")
    case True
    have "printUnquotedStrings (sorted_list_of_set v) @ rest =
        CHR ''['' # tl (printUnquotedStrings (sorted_list_of_set v) @ rest)"
      by (simp add: printUnquotedStrings_def)
    then have "hd (printUnquotedStrings (sorted_list_of_set v) @ rest) = CHR ''[''"
      "printUnquotedStrings (sorted_list_of_set v) @ rest \<noteq> []" by (metis list.sel(1), auto)
    with strings [of rest] True l show ?thesis
      by (auto simp: parseDerivedPathMapNode.simps(2) Let_def split: DerivationATermVersion.split)
  next
    case False
    let ?body = "\<lambda>m str.
        result_bind (expect_char (CHR ''('') str) (\<lambda>(_, str).
        result_bind (parseString str) (\<lambda>(outputName, str).
        result_bind (expect_char (CHR '','') str) (\<lambda>(_, str).
        result_bind (parseDerivedPathMapNode l version str) (\<lambda>(child, str).
        result_bind (expect_char (CHR '')'') str) (\<lambda>(_, str).
          Inr (insert_or_assign outputName child m, str))))))"
    have "\<forall>kc\<in>set m. reads_item ?body child_text (\<lambda>(k, c). insert_or_assign k c) kc"
    proof safe
      fix k c assume kc: "(k, c) \<in> set m"
      have node: "parseDerivedPathMapNode l version (tl (unparseDerivedPathMapNode c) @ r) = Inr (c, r)" for r
        using kc ChildNode.prems False child_length [OF kc, of v] l by (intro ChildNode.IH) auto
      have "plain k" using kc ChildNode.prems by auto
      with node show "reads_item ?body child_text (\<lambda>(k, c). insert_or_assign k c) (k, c)"
        by (auto intro!: reads_itemI simp: parse_unquoted unparse_node_comma)
    qed
    note children = parse_list_printed [OF this]
    have "fold (\<lambda>(k, c). insert_or_assign k c) m [] = m"
      using fold_assign_in_order [of "[]" m] ChildNode.prems by simp
    with False children strings ChildNode.prems(2) l show ?thesis
      by (simp add: parseDerivedPathMapNode.simps(2))
  qed
qed

section \<open>Outputs\<close>

definition method_algo_ok :: "ExperimentalFeatureSettings \<Rightarrow> ContentAddressMethod \<Rightarrow> HashAlgorithm \<Rightarrow> bool" where
  "method_algo_ok xp m a \<longleftrightarrow> method_enabled xp m \<and> algo_enabled xp a \<and>
     (m = CAM_Text \<longrightarrow> xp_isEnabled xp DynamicDerivations)"

definition output_ok ::
  "digests \<Rightarrow> ExperimentalFeatureSettings \<Rightarrow> StoreDirConfig \<Rightarrow> string \<Rightarrow> string \<times> DerivationOutput \<Rightarrow> bool" where
  "output_ok digest xp store drvName i = (case snd i of
     DO_InputAddressed p \<Rightarrow> wf_path p
   | DO_CAFixed ca \<Rightarrow> method_algo_ok xp (ca_method ca) (algo (ca_hash ca)) \<and> hash_wf (ca_hash ca) \<and>
       (case CAFixed_path digest xp store drvName (fst i) ca of Inr p \<Rightarrow> True | Inl e \<Rightarrow> False)
   | DO_CAFloating m a \<Rightarrow> method_algo_ok xp m a \<and> xp_isEnabled xp CaDerivations
   | DO_Deferred \<Rightarrow> True
   | DO_Impure m a \<Rightarrow> method_algo_ok xp m a \<and> xp_isEnabled xp ImpureDerivations)"

definition store_ok :: "StoreDirConfig \<Rightarrow> bool" where
  "store_ok store \<longleftrightarrow> canonical (storeDir store) \<and> plain (storeDir store)"

lemma ContentAddress_printMethodAlgo_eq [simp]:
  "ContentAddress_printMethodAlgo xp ca = printMethodAlgo xp (ca_method ca) (algo (ca_hash ca))"
  by (simp add: ContentAddress_printMethodAlgo_def printMethodAlgo_def)

lemma method_algo_roundtrip:
  assumes "method_algo_ok xp m a"
  obtains s where "printMethodAlgo xp m a = Inr s" "plain s" "s \<noteq> []"
    "ContentAddressMethod_parsePrefix xp s = Inr (m, printHashAlgo a)"
proof -
  define s where "s = (case m of CAM_Text \<Rightarrow> ''text:'' | CAM_Flat \<Rightarrow> '''' | CAM_NixArchive \<Rightarrow> ''r:'' | CAM_Git \<Rightarrow> ''git:'')
    @ printHashAlgo a"
  have git: "m = CAM_Git \<Longrightarrow> xp_require xp GitHashing = Inr ()"
    using assms by (simp add: method_algo_ok_def method_enabled_def xp_require_def)
  have "printMethodAlgo xp m a = Inr s"
    using git by (cases m) (simp_all add: printMethodAlgo_def ContentAddressMethod_renderPrefix_def s_def)
  moreover have "plain s" "s \<noteq> []"
    by (cases m; cases a; simp add: s_def plain_def quote_char_def backslash_def)+
  moreover have "ContentAddressMethod_parsePrefix xp s = Inr (m, printHashAlgo a)"
    using git by (cases m; cases a)
      (simp_all add: s_def ContentAddressMethod_parsePrefix_def splitPrefix_def hasPrefix_def)
  ultimately show thesis by (rule that)
qed

lemma wf_path_plain: "wf_path p \<Longrightarrow> plain (baseName p)"
proof -
  assume p: "wf_path p"
  have "name_char c \<Longrightarrow> c \<noteq> quote_char \<and> c \<noteq> backslash" for c
    by (auto simp: name_char_def in_range_def quote_char_def backslash_def)
  moreover have "c \<in> set BaseNix32_characters \<Longrightarrow> c \<noteq> quote_char \<and> c \<noteq> backslash" for c
    by (auto simp: BaseNix32_characters_def quote_char_def backslash_def)
  moreover have "CHR ''-'' \<noteq> quote_char" "CHR ''-'' \<noteq> backslash" by (simp_all add: quote_char_def backslash_def)
  moreover have "set (StorePath_hashPart p) \<subseteq> set BaseNix32_characters" "\<forall>c\<in>set (StorePath_name p). name_char c"
    using p by (auto simp: wf_path_def valid_base_def valid_name_def list_all_iff StorePath_hashPart_def StorePath_name_def)
  ultimately show ?thesis unfolding wf_path_split [OF p] plain_def by (auto dest: subsetD)
qed

lemma printStorePath_plain: "store_ok store \<Longrightarrow> wf_path p \<Longrightarrow> plain (printStorePath store p)"
  using wf_path_plain [of p] by (auto simp: store_ok_def plain_def printStorePath_def quote_char_def backslash_def)

lemma store_ok_absolute: "store_ok store \<Longrightarrow> fs_is_absolute (printStorePath store p)"
proof -
  assume "store_ok store"
  then have "fs_is_absolute (storeDir store)"
    using render_absolute unfolding store_ok_def canonical_def list_all_iff by metis
  then show ?thesis by (cases "storeDir store") (auto simp: printStorePath_def fs_is_absolute_def)
qed

lemma makeStorePath_wf: "makeStorePath digest xp cfg type h name = Inr p \<Longrightarrow> wf_path p"
proof -
  assume p: "makeStorePath digest xp cfg type h name = Inr p"
  obtain d where d: "length d = 20" "makeStorePath digest xp cfg type h name =
     result_bind (checkPathName (BaseNix32_encode d @ ''-'' @ name) name)
       (\<lambda>_. Inr (StorePath (BaseNix32_encode d @ ''-'' @ name)))"
    using makeStorePath_eq [of digest xp cfg type h name] by blast
  with p have "p = StorePath (BaseNix32_encode d @ ''-'' @ name)" "valid_name name"
    by (auto simp: result_simps checkPathName_iff)
  with wf_path_constructed(1) [OF d(1)] show "wf_path p" by simp
qed

lemma makeFixedOutputPathFromCA_wf: "makeFixedOutputPathFromCA digest xp cfg name ca = Inr p \<Longrightarrow> wf_path p"
  by (auto simp: makeFixedOutputPathFromCA_def makeFixedOutputPath_def makeStorePath_hash_def result_simps
    split: ContentAddressWithReferences.splits if_splits intro: makeStorePath_wf)

lemma base16_hash_text:
  assumes "hash_wf h"
  shows "Hash_to_string h Base16 False = Inr (base16_encode (hash_bytes h))"
    and "plain (base16_encode (hash_bytes h))" "base16_encode (hash_bytes h) \<noteq> []"
    and "base16_encode (hash_bytes h) \<noteq> ''impure''"
proof -
  have len: "length (base16_encode (hash_bytes h)) = 2 * regularHashSize (algo h)"
    using hash_wf_bytes(1) [OF assms] by (simp add: length_base16_encode base16_encodedLength_def)
  show "base16_encode (hash_bytes h) \<noteq> []" using len regularHashSize_bounds(1) [of "algo h"] by auto
  show "base16_encode (hash_bytes h) \<noteq> ''impure''" using len by (cases "algo h") auto
  show "plain (base16_encode (hash_bytes h))"
    using base16_encode_chars [of "hash_bytes h"] by (auto simp: plain_def base16Chars_def quote_char_def backslash_def)
qed (simp add: Hash_to_string_eq [OF assms] encode_as_def)

lemma validatePath_absolute [simp]: "fs_is_absolute s \<Longrightarrow> validatePath s = Inr ()"
  by (auto simp: validatePath_def fs_is_absolute_def ensure_def)

lemma output_roundtrip:
  assumes "output_ok digest xp store drvName i" "store_ok store"
  obtains p ma h where "unparse_output digest xp store False drvName i = Inr (p, ma, h)"
    "plain p" "plain ma" "plain h" "parseDerivationOutput_strings xp store p ma h = Inr (snd i)"
proof -
  obtain outName out where i: "i = (outName, out)" by fastforce
  have req: "xp_isEnabled xp f \<Longrightarrow> xp_require xp f = Inr ()" for f by (simp add: xp_require_def)
  have empty: "plain []" by (simp add: plain_def)
  have impure: "plain ''impure''" by (simp add: plain_def quote_char_def backslash_def)
  show thesis
  proof (cases out)
    case (DO_InputAddressed p)
    then have p: "wf_path p" using assms(1) by (simp add: output_ok_def i)
    have "printStorePath store p \<noteq> []" "fs_is_absolute (printStorePath store p)"
      using store_ok_absolute [OF assms(2), of p] by (auto simp: fs_is_absolute_def)
    then show ?thesis
      using that [of "printStorePath store p" "[]" "[]"] p assms(2) printStorePath_plain empty
        parse_printed [of store p]
      by (simp add: i DO_InputAddressed parseDerivationOutput_strings_def store_ok_def)
  next
    case (DO_CAFixed ca)
    then obtain p where ok: "method_algo_ok xp (ca_method ca) (algo (ca_hash ca))" "hash_wf (ca_hash ca)"
      "CAFixed_path digest xp store drvName outName ca = Inr p"
      using assms(1) by (auto simp: output_ok_def i split: sum.splits)
    obtain ma where ma: "printMethodAlgo xp (ca_method ca) (algo (ca_hash ca)) = Inr ma" "plain ma" "ma \<noteq> []"
      "ContentAddressMethod_parsePrefix xp ma = Inr (ca_method ca, printHashAlgo (algo (ca_hash ca)))"
      using method_algo_roundtrip [OF ok(1)] by blast
    have en: "algo_enabled xp (algo (ca_hash ca))" using ok(1) by (simp add: method_algo_ok_def)
    have wf: "wf_path p" using ok(3) makeFixedOutputPathFromCA_wf by (auto simp: CAFixed_path_def)
    have dyn: "ca_method ca = CAM_Text \<Longrightarrow> xp_require xp DynamicDerivations = Inr ()"
      using ok(1) req by (simp add: method_algo_ok_def)
    have hash: "Hash_parseNonSRIUnprefixed xp (base16_encode (hash_bytes (ca_hash ca))) (algo (ca_hash ca)) = Inr (ca_hash ca)"
      using parseNonSRIUnprefixed_printed [OF ok(2) en, of Base16] by (simp add: encode_as_def)
    show ?thesis
      using that [of "printStorePath store p" ma "base16_encode (hash_bytes (ca_hash ca))"] ok ma dyn hash
        printStorePath_plain [OF assms(2) wf] store_ok_absolute [OF assms(2), of p] base16_hash_text [OF ok(2)]
        parseHashAlgo_print [OF en]
      by (simp add: i DO_CAFixed parseDerivationOutput_strings_def)
  next
    case (DO_CAFloating m a)
    then have ok: "method_algo_ok xp m a" "xp_isEnabled xp CaDerivations" using assms(1) by (simp_all add: output_ok_def i)
    obtain ma where ma: "printMethodAlgo xp m a = Inr ma" "plain ma" "ma \<noteq> []"
      "ContentAddressMethod_parsePrefix xp ma = Inr (m, printHashAlgo a)"
      using method_algo_roundtrip [OF ok(1)] by blast
    show ?thesis
      using that [of "[]" ma "[]"] ma ok req empty parseHashAlgo_print [of xp a]
      by (auto simp: i DO_CAFloating parseDerivationOutput_strings_def method_algo_ok_def)
  next
    case DO_Deferred
    then show ?thesis using that empty by (simp add: i parseDerivationOutput_strings_def)
  next
    case (DO_Impure m a)
    then have ok: "method_algo_ok xp m a" "xp_isEnabled xp ImpureDerivations" using assms(1) by (simp_all add: output_ok_def i)
    obtain ma where ma: "printMethodAlgo xp m a = Inr ma" "plain ma" "ma \<noteq> []"
      "ContentAddressMethod_parsePrefix xp ma = Inr (m, printHashAlgo a)"
      using method_algo_roundtrip [OF ok(1)] by blast
    show ?thesis
      using that [of "[]" ma "''impure''"] ma ok req empty impure parseHashAlgo_print [of xp a]
      by (auto simp: i DO_Impure parseDerivationOutput_strings_def method_algo_ok_def)
  qed
qed

section \<open>Whole derivations\<close>

definition attrs_ok :: "'j json_lib \<Rightarrow> ('j, 'a) BasicDerivation_scheme \<Rightarrow> bool" where
  "attrs_ok J drv \<longleftrightarrow> omap_ok (drv_env drv) \<and> map_of (drv_env drv) envVarName = None \<and>
     (case structuredAttrs drv of None \<Rightarrow> True
      | Some j \<Rightarrow> (case json_dump J j of None \<Rightarrow> False | Some s \<Rightarrow> json_parse J s = Some j))"

definition basic_ok ::
  "'j json_lib \<Rightarrow> digests \<Rightarrow> ExperimentalFeatureSettings \<Rightarrow> StoreDirConfig \<Rightarrow>
     ('j, 'a) BasicDerivation_scheme \<Rightarrow> bool" where
  "basic_ok J digest xp store drv \<longleftrightarrow> omap_ok (drv_outputs drv) \<and>
     (\<forall>i\<in>set (drv_outputs drv). output_ok digest xp store (drv_name drv) i) \<and>
     finite (inputSrcs drv) \<and> (\<forall>p\<in>inputSrcs drv. wf_path p) \<and> attrs_ok J drv"

definition derivation_ok ::
  "'j json_lib \<Rightarrow> digests \<Rightarrow> ExperimentalFeatureSettings \<Rightarrow> StoreDirConfig \<Rightarrow> 'j Derivation \<Rightarrow> bool" where
  "derivation_ok J digest xp store drv \<longleftrightarrow> basic_ok J digest xp store drv \<and>
     (\<forall>i\<in>set (drv_outputs drv). plain (fst i)) \<and> plain (platform drv) \<and>
     omap_ok (inputDrvs drv) \<and> (\<forall>(p, n)\<in>set (inputDrvs drv). wf_path p \<and> node_wf n) \<and>
     (hasDynamicDrvDep drv \<longrightarrow> xp_isEnabled xp DynamicDerivations)"

lemma parse_version_printed:
  assumes "dyn \<longrightarrow> xp_isEnabled xp DynamicDerivations"
  shows "parse_version xp ((if dyn then ''DrvWithVersion('' @ printUnquotedString ''xp-dyn-drv'' @ '','' else ''Derive('')
      @ rest) = Inr (if dyn then ATerm_DynamicDerivations else Traditional, rest)"
proof -
  have "expect_str ''rvWithVersion('' (''rvWithVersion('' @ s) = Inr ((), s)"
    "expect_str ''erive('' (''erive('' @ s) = Inr ((), s)" for s by (simp_all only: expect_str_hit)
  moreover have "plain ''xp-dyn-drv''" by (simp add: plain_def quote_char_def backslash_def)
  ultimately show ?thesis using assms by (simp add: parse_version_def parse_unquoted xp_require_def)
qed

lemma parse_outputs_printed:
  assumes "omap_ok outputs" "\<forall>i\<in>set outputs. plain (fst i) \<and> output_ok digest xp store name i" "store_ok store"
  obtains outs where "unparse_outputs digest xp store False name outputs = Inr outs"
    "\<And>rest. parse_outputs xp store (CHR ''['' # outs @ CHR '']'' # rest) = Inr (outputs, rest)"
proof -
  define t where "t i = (case unparse_output digest xp store False name i of Inr f \<Rightarrow> print_output (fst i) f)" for i
  let ?body = "\<lambda>outputs str.
      result_bind (expect_char (CHR ''('') str) (\<lambda>(_, str).
      result_bind (parseString str) (\<lambda>(id, str).
      result_bind (parseDerivationOutput xp store str) (\<lambda>(out, str).
        Inr (map_emplace id out outputs, str))))"
  have item: "result_bind (unparse_output digest xp store False name i) (\<lambda>f. Inr (print_output (fst i) f)) = Inr (t i) \<and>
      reads_item ?body t (\<lambda>(k, v). map_emplace k v) i" if i: "i \<in> set outputs" for i
  proof -
    obtain p ma h where o: "unparse_output digest xp store False name i = Inr (p, ma, h)"
      "plain p" "plain ma" "plain h" "parseDerivationOutput_strings xp store p ma h = Inr (snd i)"
      using output_roundtrip [OF _ assms(3), of digest xp name i] assms(2) i by blast
    have "?body acc (t i @ rest) = Inr ((\<lambda>(k, v). map_emplace k v) i acc, rest)" for acc rest
      using o assms(2) i
      by (simp add: t_def print_output_def parse_unquoted parseDerivationOutput_def split: prod.split)
    then show ?thesis using o(1) by (auto intro!: reads_itemI simp: t_def print_output_def)
  qed
  have "map_result (\<lambda>i. result_bind (unparse_output digest xp store False name i)
      (\<lambda>f. Inr (print_output (fst i) f))) outputs = Inr (map t outputs)"
    using item by (intro map_result_map) blast
  then have "unparse_outputs digest xp store False name outputs = Inr (comma_separated (map t outputs))"
    by (simp add: unparse_outputs_def)
  moreover have "parse_outputs xp store (CHR ''['' # comma_separated (map t outputs) @ CHR '']'' # rest) =
      Inr (outputs, rest)" for rest
  proof -
    have "fold (\<lambda>(k, v). map_emplace k v) outputs [] = outputs"
      using fold_emplace_in_order [of "[]" outputs] assms(1) by simp
    with parse_list_printed [of outputs ?body t "\<lambda>(k, v). map_emplace k v" "[]" rest] item show ?thesis
      by (simp add: parse_outputs_def)
  qed
  ultimately show thesis by (rule that)
qed

lemma parse_inputDrvs_printed:
  assumes "omap_ok inputs" "\<forall>(p, n)\<in>set inputs. wf_path p \<and> node_wf n" "store_ok store"
    and "version = ATerm_DynamicDerivations \<or> (\<forall>kv\<in>set inputs. childMap (snd kv) = [])"
  shows "parse_inputDrvs store version (CHR '','' # CHR ''['' #
      comma_separated (map unparse_input (map (\<lambda>(p, n). (printStorePath store p, n)) inputs)) @ CHR '']'' # rest) =
    Inr (inputs, rest)"
proof -
  let ?body = "\<lambda>inputs str.
      result_bind (expect_char (CHR ''('') str) (\<lambda>(_, str).
      result_bind (parsePath str) (\<lambda>(drvPath, str).
      result_bind (expect_char (CHR '','') str) (\<lambda>(_, str).
      result_bind (parseStorePath store drvPath) (\<lambda>p.
      result_bind (parseDerivedPathMapNode (Suc (length str)) version str) (\<lambda>(node, str).
      result_bind (expect_char (CHR '')'') str) (\<lambda>(_, str).
        Inr (insert_or_assign p node inputs, str)))))))"
  let ?t = "unparse_input \<circ> (\<lambda>(p, n). (printStorePath store p, n))"
  have "reads_item ?body ?t (\<lambda>(p, n). insert_or_assign p n) kv" if kv: "kv \<in> set inputs" for kv
  proof -
    obtain p n where pn: "kv = (p, n)" by fastforce
    then have ok: "wf_path p" "node_wf n" "childMap n = [] \<or> version = ATerm_DynamicDerivations"
      using assms(2,4) kv by auto
    have "length (unparseDerivedPathMapNode n) - Suc 0 < l \<Longrightarrow>
        parseDerivedPathMapNode l version (tl (unparseDerivedPathMapNode n) @ r) = Inr (n, r)" for l r
      using ok by (intro parse_node_printed) auto
    moreover have "parseStorePath store (printStorePath store p) = Inr p"
      using parse_printed assms(3) ok by (simp add: store_ok_def)
    ultimately show ?thesis
      using printStorePath_plain [OF assms(3) ok(1)] store_ok_absolute [OF assms(3), of p]
      by (auto intro!: reads_itemI simp: pn unparse_input_def parse_unquoted parsePath_def unparse_node_comma)
  qed
  note parse_list_printed [of inputs ?body ?t, OF ballI, OF this]
  moreover have "fold (\<lambda>(p, n). insert_or_assign p n) inputs [] = inputs"
    using fold_assign_in_order [of "[]" inputs] assms(1) by simp
  ultimately show ?thesis by (simp add: parse_inputDrvs_def)
qed

lemma parseStorePathSet_printed:
  assumes "finite ps" "\<forall>p\<in>ps. wf_path p" "store_ok store"
  shows "parseStorePathSet store (printStorePathSet store ps) = Inr ps"
    and "finite (printStorePathSet store ps)" "\<forall>x\<in>printStorePathSet store ps. plain x \<and> fs_is_absolute x"
proof -
  show fin: "finite (printStorePathSet store ps)" using assms(1) by (simp add: printStorePathSet_def)
  show "\<forall>x\<in>printStorePathSet store ps. plain x \<and> fs_is_absolute x"
    using assms(2,3) by (auto simp: printStorePathSet_def printStorePath_plain store_ok_absolute)
  define g where "g s = (case parseStorePath store s of Inr p \<Rightarrow> p)" for s
  have g: "p \<in> ps \<Longrightarrow> parseStorePath store (printStorePath store p) = Inr p" for p
    using parse_printed assms(2,3) by (simp add: store_ok_def)
  then have "map_result (parseStorePath store) (sorted_list_of_set (printStorePathSet store ps)) =
      Inr (map g (sorted_list_of_set (printStorePathSet store ps)))"
    using fin by (intro map_result_map) (auto simp: printStorePathSet_def g_def)
  moreover have "g ` printStorePathSet store ps = ps" using g by (force simp: printStorePathSet_def g_def)
  ultimately show "parseStorePathSet store (printStorePathSet store ps) = Inr ps"
    using fin by (simp add: parseStorePathSet_def)
qed

lemma parse_args_printed: "parse_args (CHR '','' # printStrings args @ rest) = Inr (args, rest)"
proof -
  have "\<forall>x\<in>set args. reads_item
      (\<lambda>args str. result_bind (parseString str) (\<lambda>(x, str). Inr (args @ [x], str))) printString (\<lambda>x xs. xs @ [x]) x"
    by (auto intro!: reads_itemI simp: parse_printString)
  moreover have "fold (\<lambda>x xs. xs @ [x]) args [] = args" by (induction args rule: rev_induct) auto
  ultimately show ?thesis
    using parse_list_printed [of args _ printString "\<lambda>x xs. xs @ [x]" "[]" rest]
    by (simp add: parse_args_def printStrings_def)
qed

lemma omap_ok_filter: "omap_ok m \<Longrightarrow> omap_ok (filter P m)"
  by (simp add: omap_ok_def sorted_wrt_map sorted_wrt_filter)

lemma filter_absent: "map_of m k = None \<Longrightarrow> filter (\<lambda>kv. fst kv \<noteq> k) m = m"
  by (force simp: map_of_eq_None_iff filter_id_conv)

lemma filter_emplace:
  "map_of m k = None \<Longrightarrow> filter (\<lambda>kv. fst kv \<noteq> k) (map_emplace k v m) = m"
proof (induction k v m rule: map_emplace.induct)
  case (2 k v k' v' m)
  with filter_absent [of m k] show ?case by (auto split: if_splits)
qed simp

lemma env_with_attrs_ok:
  assumes "attrs_ok J drv"
  obtains env where "env_with_attrs J drv = Inr env" "omap_ok env"
    "filter (\<lambda>kv. fst kv \<noteq> envVarName) env = drv_env drv"
    "\<forall>v. map_of env envVarName = Some v \<longrightarrow> json_parse J v \<noteq> None"
    "structuredAttrs drv = Option.bind (map_of env envVarName) (json_parse J)"
proof (cases "structuredAttrs drv")
  case None
  with assms show ?thesis using that [of "drv_env drv"]
    by (simp add: attrs_ok_def env_with_attrs_def checkKeyNotInUse_def filter_absent)
next
  case (Some j)
  with assms obtain s where "json_dump J j = Some s" "json_parse J s = Some j" "omap_ok (drv_env drv)"
    "map_of (drv_env drv) envVarName = None" by (auto simp: attrs_ok_def split: option.splits)
  with Some show ?thesis using that [of "map_emplace envVarName s (drv_env drv)"]
    by (simp add: env_with_attrs_def checkKeyNotInUse_def StructuredAttrs_unparse_def filter_emplace
        omap_ok_emplace map_of_emplace)
qed

lemma parse_env_printed:
  assumes "omap_ok env" "\<forall>v. map_of env envVarName = Some v \<longrightarrow> json_parse J v \<noteq> None"
  shows "parse_env J (CHR '','' # CHR ''['' # unparse_env False outputs env @ CHR '']'' # rest) =
    Inr ((filter (\<lambda>kv. fst kv \<noteq> envVarName) env, Option.bind (map_of env envVarName) (json_parse J)), rest)"
proof -
  let ?upd = "\<lambda>(k, v) (m, sa). if k = envVarName then (m, json_parse J v) else (insert_or_assign k v m, sa)"
  let ?t = "\<lambda>(k, v). ''('' @ printString k @ '','' @ printString v @ '')''"
  let ?body = "\<lambda>(env, sa) str.
      result_bind (expect_char (CHR ''('') str) (\<lambda>(_, str).
      result_bind (parseString str) (\<lambda>(name, str).
      result_bind (expect_char (CHR '','') str) (\<lambda>(_, str).
      result_bind (parseString str) (\<lambda>(val, str).
      result_bind
        (if name = envVarName then result_bind (StructuredAttrs_parse J val) (\<lambda>j. Inr (env, Some j))
         else Inr (insert_or_assign name val env, sa)) (\<lambda>acc.
      result_bind (expect_char (CHR '')'') str) (\<lambda>(_, str).
        Inr (acc, str)))))))"
  have dist: "distinct (map fst env)" using assms(1) by (simp add: omap_ok_def strict_sorted_iff)
  have "reads_item ?body ?t ?upd kv" if kv: "kv \<in> set env" for kv
  proof -
    obtain k v where e: "kv = (k, v)" by fastforce
    have "k = envVarName \<Longrightarrow> \<exists>j. json_parse J v = Some j" using assms(2) kv dist e by auto
    then show ?thesis by (auto intro!: reads_itemI simp: e parse_printString StructuredAttrs_parse_def)
  qed
  note list = parse_list_printed [of env ?body ?t ?upd, OF ballI, OF this]
  have "distinct (map fst kvs) \<Longrightarrow> fold ?upd kvs (m, sa) =
      (fold (\<lambda>(k, v). insert_or_assign k v) (filter (\<lambda>kv. fst kv \<noteq> envVarName) kvs) m,
       (case map_of kvs envVarName of None \<Rightarrow> sa | Some v \<Rightarrow> json_parse J v))" for kvs m sa
    by (induction kvs arbitrary: m sa) (force dest: map_of_SomeD split: option.split)+
  from this [OF dist, of "[]" None]
  have "fold ?upd env ([], None) =
      (filter (\<lambda>kv. fst kv \<noteq> envVarName) env, Option.bind (map_of env envVarName) (json_parse J))"
    using fold_assign_in_order [of "[]" "filter (\<lambda>kv. fst kv \<noteq> envVarName) env"] assms(1)
    by (simp add: omap_ok_filter split: option.split)
  with list [of "([], None)" rest] show ?thesis by (simp add: parse_env_def unparse_env_def)
qed

lemma parse_unparsed:
  assumes "derivation_ok J digest xp store drv" "store_ok store"
  shows "\<exists>s. Derivation_unparse J digest xp store False None drv = Inr s \<and>
    (\<forall>rest. parseDerivation J xp store (s @ rest) (drv_name drv) = Inr drv)"
proof -
  have basic: "basic_ok J digest xp store drv" and plat: "plain (platform drv)"
    and ins: "omap_ok (inputDrvs drv)" "\<forall>(p, n)\<in>set (inputDrvs drv). wf_path p \<and> node_wf n"
    and dyn: "hasDynamicDrvDep drv \<longrightarrow> xp_isEnabled xp DynamicDerivations"
    using assms(1) by (auto simp: derivation_ok_def)
  obtain outs where outs: "unparse_outputs digest xp store False (drv_name drv) (drv_outputs drv) = Inr outs"
    "\<And>rest. parse_outputs xp store (CHR ''['' # outs @ CHR '']'' # rest) = Inr (drv_outputs drv, rest)"
    using parse_outputs_printed [of "drv_outputs drv" digest xp store "drv_name drv"] assms
    by (auto simp: derivation_ok_def basic_ok_def)
  obtain env where env: "env_with_attrs J drv = Inr env" "omap_ok env"
    "filter (\<lambda>kv. fst kv \<noteq> envVarName) env = drv_env drv"
    "\<forall>v. map_of env envVarName = Some v \<longrightarrow> json_parse J v \<noteq> None"
    "structuredAttrs drv = Option.bind (map_of env envVarName) (json_parse J)"
    using env_with_attrs_ok [of J drv] basic by (auto simp: basic_ok_def)
  let ?version = "if hasDynamicDrvDep drv then ATerm_DynamicDerivations else Traditional"
  have inputs: "parse_inputDrvs store ?version (CHR '','' # CHR ''['' #
      comma_separated (map unparse_input (map (\<lambda>(p, n). (printStorePath store p, n)) (inputDrvs drv))) @ CHR '']'' # r) =
    Inr (inputDrvs drv, r)" for r
    using ins assms(2) by (intro parse_inputDrvs_printed) (auto simp: hasDynamicDrvDep_def list_ex_iff)
  note srcs = parseStorePathSet_printed [of "inputSrcs drv" store]
  have "finite (inputSrcs drv)" "\<forall>p\<in>inputSrcs drv. wf_path p" using basic by (auto simp: basic_ok_def)
  with srcs assms(2) have src: "parseStorePathSet store (printStorePathSet store (inputSrcs drv)) = Inr (inputSrcs drv)"
    "parseStrings True (printUnquotedStrings (sorted_list_of_set (printStorePathSet store (inputSrcs drv))) @ r) =
       Inr (printStorePathSet store (inputSrcs drv), r)" for r
    by (auto intro!: parseStrings_printed)
  show ?thesis
    using outs(1) env(1)
    by (simp add: Derivation_unparse_def parseDerivation_def Let_def parse_version_printed [OF dyn, simplified]
      outs(2) inputs [simplified] src parse_unquoted [OF plat] parse_printString parse_args_printed
      parse_env_printed [OF env(2,4)] env(3,5))
qed

text \<open>
  C21: The text of a derivation reads back as the derivation: for every derivation that is well formed
  (outputs whose features are enabled and whose paths can be computed, store paths that are
  valid, no reserved environment variable) and whose output names and platform have no quotes and no
  backslashes, printing without masking succeeds and parsing the result, under the same name and
  whatever text follows it, gives the same derivation, nested dynamic inputs and structured
  attributes included. The arguments, the builder and the environment are arbitrary strings.
\<close>

theorem Derivation_roundtrip:
  assumes "derivation_ok J digest xp store drv" "store_ok store"
  shows "\<exists>s. Derivation_unparse J digest xp store False None drv = Inr s \<and>
    (\<forall>rest. parseDerivation J xp store (s @ rest) (drv_name drv) = Inr drv)"
  by (rule parse_unparsed [OF assms])

definition sample_store :: StoreDirConfig where
  "sample_store = \<lparr>storeDir = ''/nix/store''\<rparr>"

definition sample_json :: "string json_lib" where
  "sample_json = \<lparr>json_parse = Some, json_dump = Some\<rparr>"

definition sample_path :: StorePath where
  "sample_path = StorePath ''ffffffffffffffffffffffffffffffff-x''"

definition sample_drv :: "string Derivation" where
  "sample_drv = \<lparr>drv_outputs = [(''out'', DO_InputAddressed sample_path)], inputSrcs = {sample_path},
     platform = ''x86_64-linux'', builder = ''/bin/sh'', drv_args = [''-c'', ''echo'' @ [quote_char, backslash]],
     drv_env = [(''PATH'', []), (''out'', ''x'')], structuredAttrs = Some ''{}'', drv_name = ''x'',
     inputDrvs = [(sample_path, ChildNode {''out''} [(''dev'', ChildNode {''bin''} [])])]\<rparr>"

lemma sample_store_ok: "store_ok sample_store"
  by code_simp

lemma sample_path_wf: "wf_path sample_path"
  by (simp add: sample_path_def wf_path_def valid_base_def valid_name_def HashLen_def MaxPathLen_def
      BaseNix32_characters_def name_char_def in_range_def)

lemma sample_drv_ok:
  "derivation_ok sample_json digest \<lparr>experimentalFeatures = [DynamicDerivations]\<rparr> sample_store sample_drv"
  by (simp add: derivation_ok_def basic_ok_def sample_drv_def sample_json_def attrs_ok_def output_ok_def sample_path_wf
    plain_def quote_char_def backslash_def envVarName_def xp_isEnabled_def)

theorem Derivation_roundtrip_witness:
  "\<exists>s. Derivation_unparse sample_json (\<lambda>a b. []) \<lparr>experimentalFeatures = [DynamicDerivations]\<rparr> sample_store False None
      sample_drv = Inr s \<and>
    (\<forall>rest. parseDerivation sample_json \<lparr>experimentalFeatures = [DynamicDerivations]\<rparr> sample_store (s @ rest)
      (drv_name sample_drv) = Inr sample_drv)"
  by (rule Derivation_roundtrip [OF sample_drv_ok sample_store_ok])

section \<open>Derivations whose text does not read back\<close>

definition injected_platform :: string where
  "injected_platform = ''x'' @ [quote_char] @ '','' @ [quote_char] @ ''/evil'' @ [quote_char] @ '',[],[])''"

definition simple_drv :: "string \<Rightarrow> string \<Rightarrow> string list \<Rightarrow> string \<Rightarrow> 'j Derivation" where
  "simple_drv plat bld args name = \<lparr>drv_outputs = [], inputSrcs = {}, platform = plat, builder = bld,
     drv_args = args, drv_env = [], structuredAttrs = None, drv_name = name, inputDrvs = []\<rparr>"

lemma simple_drv_ok: "plain plat \<Longrightarrow> derivation_ok J digest xp store (simple_drv plat bld args name)"
  by (simp add: simple_drv_def derivation_ok_def basic_ok_def attrs_ok_def hasDynamicDrvDep_def)


section \<open>The loops end\<close>

lemma fine_expect_char: "fine (\<lambda>(_, r). length r < length s) (expect_char c s)"
  by (cases s) (simp_all add: expect_char_def ensure_def)

lemma fine_expect_str: "fine (\<lambda>(_, r). length r \<le> length s) (expect_str p s)"
  by (simp add: expect_str_def ensure_def)

lemma fine_unesc: "fine (\<lambda>_. True) (unesc s)"
proof (induction s rule: unesc.induct)
  case (2 c s)
  show ?case
  proof (cases "c = backslash")
    case True
    with 2(1) show ?thesis by (cases s) (auto intro: fine_bind [where Q = "\<lambda>_. True"])
  next
    case False
    with 2(2) show ?thesis by (auto intro: fine_bind [where Q = "\<lambda>_. True"])
  qed
qed simp

lemma fine_parseString: "fine (\<lambda>(_, r). length r < length s) (parseString s)"
  unfolding parseString_def
  by (rule fine_bind [OF fine_expect_char])
    (auto simp: Let_def unescape_eq split: option.split intro!: fine_bind [OF fine_unesc])

lemma fine_validatePath: "fine (\<lambda>_. True) (validatePath s)"
  by (simp add: validatePath_def ensure_def)

lemma fine_parsePath: "fine (\<lambda>(_, r). length r < length s) (parsePath s)"
  unfolding parsePath_def
  by (rule fine_bind [OF fine_parseString]) (auto intro!: fine_bind [OF fine_validatePath])

lemma fine_endOfList: "length (snd (endOfList s)) \<le> length s" "fst (endOfList s) \<Longrightarrow> length (snd (endOfList s)) < length s"
  by (auto simp: endOfList_def split: list.split if_splits)

lemma fine_list_loop:
  assumes "\<And>acc str. length str \<le> n \<Longrightarrow> fine (\<lambda>(_, r). length r < length str) (body acc str)"
    and "length s \<le> n" "length s < fuel"
  shows "fine (\<lambda>(_, r). length r < length s) (list_loop fuel body acc s)"
  using assms(2,3)
proof (induction fuel arbitrary: acc s)
  case (Suc fuel)
  obtain b s' where e: "endOfList s = (b, s')" by fastforce
  have len: "length s' \<le> length s" "b \<Longrightarrow> length s' < length s" using fine_endOfList [of s] e by auto
  show ?case
  proof (cases b)
    case False
    then show ?thesis
      using e len Suc.prems
      by (auto intro!: fine_bind [OF assms(1)] fine_mono [OF Suc.IH])
  qed (use e len in simp)
qed simp

lemma fine_parse_list:
  "(\<And>acc str. length str \<le> length s \<Longrightarrow> fine (\<lambda>(_, r). length r < length str) (body acc str)) \<Longrightarrow>
     fine (\<lambda>(_, r). length r < length s) (parse_list body acc s)"
  unfolding parse_list_def by (rule fine_list_loop) auto

lemma fine_weaken: "fine (\<lambda>(_, r). length r < length s) m \<Longrightarrow> length s \<le> n \<Longrightarrow> fine (\<lambda>(_, r). length r < n) m"
  by (erule fine_mono) auto

lemmas parse_steps = fine_bind [OF fine_expect_char] fine_bind [OF fine_expect_str] fine_bind [OF fine_parseString]
  fine_bind [OF fine_parsePath]

lemma fine_parseStrings: "fine (\<lambda>(_, r). length r < length s) (parseStrings b s)"
  unfolding parseStrings_def
  by (rule fine_bind [OF fine_expect_char])
    (auto intro!: fine_weaken [OF fine_parse_list] fine_bind [OF fine_parsePath] fine_bind [OF fine_parseString])

lemma fine_parse_node:
  "length s < levels \<Longrightarrow> fine (\<lambda>(_, r). length r < length s) (parseDerivedPathMapNode levels version s)"
proof (induction levels arbitrary: s)
  case (Suc levels)
  have strings: "fine (\<lambda>(_, r). length r < length s)
      (result_bind (parseStrings False s) (\<lambda>(v, str). Inr (ChildNode v [], str)))"
    by (rule fine_bind [OF fine_parseStrings]) auto
  let ?body = "\<lambda>m str.
      result_bind (expect_char (CHR ''('') str) (\<lambda>(_, str).
      result_bind (parseString str) (\<lambda>(outputName, str).
      result_bind (expect_char (CHR '','') str) (\<lambda>(_, str).
      result_bind (parseDerivedPathMapNode levels version str) (\<lambda>(child, str).
      result_bind (expect_char (CHR '')'') str) (\<lambda>(_, str).
        Inr (insert_or_assign outputName child m, str))))))"
  have body: "fine (\<lambda>(_, r). length r < length str) (?body acc str)" if "length str \<le> levels" for acc str
    apply (rule parse_steps, clarsimp)+
    apply (rule fine_bind [OF Suc.IH], use that in simp, clarsimp)
    apply (rule parse_steps, clarsimp)
    done
  have "fine (\<lambda>(_, r). length r < length s)
      (result_bind (expect_char (CHR ''('') s) (\<lambda>(_, str).
       result_bind (parseStrings False str) (\<lambda>(v, str).
       result_bind (expect_str '',['' str) (\<lambda>(_, str).
       result_bind (parse_list ?body [] str) (\<lambda>(m, str).
       result_bind (expect_char (CHR '')'') str) (\<lambda>(_, str).
         Inr (ChildNode v m, str)))))))"
    apply (rule parse_steps, clarsimp)
    apply (rule fine_bind [OF fine_parseStrings], clarsimp)
    apply (rule parse_steps, clarsimp)
    apply (rule fine_bind [OF fine_parse_list])
     apply (rule body, use Suc.prems in simp)
    apply clarsimp
    apply (rule parse_steps, clarsimp)
    done
  with strings show ?case
    unfolding parseDerivedPathMapNode.simps(2) Let_def
    by (cases version; simp only: DerivationATermVersion.case split: if_split) simp
qed simp

lemma fine_any: "r \<noteq> Inl OutOfFuel \<Longrightarrow> fine (\<lambda>_. True) r"
  by (auto simp: fine_def split: sum.split)

lemma canonPathInner_loop_fuel: "canonPathInner_loop s r \<noteq> Inl OutOfFuel"
  by (induction s r rule: canonPathInner_loop.induct) (subst canonPathInner_loop.simps, auto simp: Let_def split: option.splits)

lemma fine_parseStorePath: "fine (\<lambda>_. True) (parseStorePath store s)"
proof (rule fine_any)
  have "StorePath_of t \<noteq> Inl OutOfFuel" for t
    using StorePath_of_iff [of t "StorePath t"] StorePath_of_error_iff [of t] by (cases "valid_base t") auto
  moreover have "canonPathInner s \<noteq> Inl OutOfFuel"
    using canonPathInner_loop_fuel [of s "[]"] by (auto simp: canonPathInner_def ensure_def result_simps split: if_splits)
  ultimately show "parseStorePath store s \<noteq> Inl OutOfFuel"
    by (auto simp: parseStorePath_def canonPath_def ensure_def result_simps split: if_splits)
qed

lemma fine_parse_hash: "fine (\<lambda>_. True) (Hash_parseNonSRIUnprefixed xp h a)"
proof -
  have swallow: "fine (\<lambda>_. True) (swallow_error r)" for r
    by (simp add: swallow_error_def fine_def split: sum.split nix_error.split)
  have new: "fine (\<lambda>_. True) (Hash_new a xp)"
    by (simp add: Hash_new_def xp_require_def ensure_def)
  have low: "fine (\<lambda>_. True) (parseLowLevel h a decode xp)" for decode
    unfolding parseLowLevel_def
    by (rule fine_bind [OF new], rule fine_bind [OF swallow]) (simp add: ensure_def)
  have "fine (\<lambda>_. True) (baseExplicit f)" for f by (cases f) simp_all
  then have "fine (\<lambda>_. True) (Hash_parseExplicitFormatUnprefixed h a f xp)" for f
    unfolding Hash_parseExplicitFormatUnprefixed_def by (rule fine_bind [OF _ low])
  then show ?thesis
    by (auto simp: Hash_parseNonSRIUnprefixed_def baseFromSize_def)
qed

lemma fine_parseDerivationOutput_strings:
  "fine (\<lambda>_. True) (parseDerivationOutput_strings xp store p ma h)"
proof (rule fine_any)
  have "parseStorePath store p \<noteq> Inl OutOfFuel" using fine_parseStorePath [of store p] by auto
  moreover have "xp_require xp f \<noteq> Inl OutOfFuel" for f by (simp add: xp_require_def ensure_def)
  moreover from this have "parseHashAlgo s xp \<noteq> Inl OutOfFuel" "ContentAddressMethod_parsePrefix xp s \<noteq> Inl OutOfFuel" for s
    by (auto simp: parseHashAlgo_def parseHashAlgoOpt_def ContentAddressMethod_parsePrefix_def result_simps
      split: if_splits option.splits)
  moreover have "Hash_parseNonSRIUnprefixed xp h a \<noteq> Inl OutOfFuel" for a using fine_parse_hash [of xp h a] by auto
  ultimately show "parseDerivationOutput_strings xp store p ma h \<noteq> Inl OutOfFuel"
    by (auto simp: parseDerivationOutput_strings_def validatePath_def ensure_def result_simps split: if_splits)
qed

lemma fine_parseDerivationOutput: "fine (\<lambda>(_, r). length r < length s) (parseDerivationOutput xp store s)"
  unfolding parseDerivationOutput_def
  apply (rule parse_steps, clarsimp)+
  apply (rule fine_bind [OF fine_parseDerivationOutput_strings], clarsimp)
  done

lemma fine_parse_outputs: "fine (\<lambda>(_, r). length r < length s) (parse_outputs xp store s)"
  unfolding parse_outputs_def
  apply (rule parse_steps, clarsimp)
  apply (rule fine_weaken [OF fine_parse_list])
   apply (rule parse_steps, clarsimp)+
   apply (rule fine_bind [OF fine_parseDerivationOutput], clarsimp)
  apply simp
  done

lemma fine_parse_inputDrvs: "fine (\<lambda>(_, r). length r < length s) (parse_inputDrvs store version s)"
  unfolding parse_inputDrvs_def
  apply (rule parse_steps, clarsimp)
  apply (rule fine_weaken [OF fine_parse_list])
   apply (rule parse_steps, clarsimp)+
   apply (rule fine_bind [OF fine_parseStorePath])
   apply (rule fine_bind [OF fine_parse_node], simp, clarsimp)
   apply (rule parse_steps, clarsimp)
  apply simp
  done

lemma fine_parse_args: "fine (\<lambda>(_, r). length r < length s) (parse_args s)"
  unfolding parse_args_def
  apply (rule parse_steps, clarsimp)
  apply (rule fine_weaken [OF fine_parse_list])
   apply (rule parse_steps, clarsimp)
  apply simp
  done

lemma fine_parse_env: "fine (\<lambda>(_, r). length r < length s) (parse_env J s)"
  unfolding parse_env_def
  apply (rule parse_steps, clarsimp)
  apply (rule fine_weaken [OF fine_parse_list])
   apply clarsimp
   apply (rule parse_steps, clarsimp)+
   apply (auto simp: StructuredAttrs_parse_def split: option.split intro!: parse_steps)
  done

lemma fine_parse_version: "fine (\<lambda>(_, r). length r < length s) (parse_version xp s)"
  unfolding parse_version_def
  apply (rule parse_steps, clarsimp)
  apply (intro conjI impI)
     apply (rule parse_steps, clarsimp)+
    apply (rule fine_bind [OF fine_ensure], simp)
    apply (rule fine_bind [where Q = "\<lambda>_. True"], simp add: xp_require_def ensure_def)
    apply (rule parse_steps, clarsimp)+
  done

text \<open>
  C22: Parsing a derivation ends on every text: no list loop and no nesting of input
  derivations runs longer than the text, so the bounds of the model's loops are never reached and the
  result is always a derivation or one of the errors of the code.
\<close>

theorem parseDerivation_ends: "parseDerivation J xp store s name \<noteq> Inl OutOfFuel"
proof -
  have set_fine: "fine (\<lambda>_. True) (parseStorePathSet store ps)" for ps
  proof -
    have "fine (\<lambda>_. True) (map_result (parseStorePath store) xs)" for xs
      by (induction xs) (auto intro!: fine_bind [OF fine_parseStorePath] fine_bind [where Q = "\<lambda>_. True"])
    then show ?thesis by (auto simp: parseStorePathSet_def intro!: fine_bind [where Q = "\<lambda>_. True"])
  qed
  have "fine (\<lambda>_. True) (parseDerivation J xp store s name)"
    unfolding parseDerivation_def
    apply (rule fine_bind [OF fine_parse_version] fine_bind [OF fine_parse_outputs] fine_bind [OF fine_parse_inputDrvs]
        fine_bind [OF fine_parseStrings] fine_bind [OF fine_parse_args] fine_bind [OF fine_parse_env]
        fine_bind [OF set_fine] parse_steps, clarsimp)+
    done
  then show ?thesis by auto
qed

end
