(* ===== verification/Derivation_Hash.thy ===== *)
theory Derivation_Hash
  imports Derivation
begin

text \<open>
  What kind of derivation a derivation is, the hash modulo fixed outputs that input-addressed output
  paths are made of, and the filling in and checking of those paths
  (\<^verbatim>\<open>libstore/derivations.cc\<close>, \<^verbatim>\<open>derivations.hh\<close>). Reading a derivation from the store is a
  parameter. The table \<^verbatim>\<open>drvHashes\<close> that memoises the hashes is passed from call to call.
\<close>

section \<open>Types of derivations\<close>

datatype DerivationType =
    DT_InputAddressed (deferred: bool)
  | DT_ContentAddressed (sandboxed: bool) (fixed_output: bool)
  | DT_Impure

fun DerivationType_isCA :: "DerivationType \<Rightarrow> bool" where
  "DerivationType_isCA (DT_InputAddressed d) = False"
| "DerivationType_isCA (DT_ContentAddressed s f) = True"
| "DerivationType_isCA DT_Impure = True"

fun DerivationType_isFixed :: "DerivationType \<Rightarrow> bool" where
  "DerivationType_isFixed (DT_InputAddressed d) = False"
| "DerivationType_isFixed (DT_ContentAddressed s f) = f"
| "DerivationType_isFixed DT_Impure = False"

fun DerivationType_hasKnownOutputPaths :: "DerivationType \<Rightarrow> bool" where
  "DerivationType_hasKnownOutputPaths (DT_InputAddressed d) = (\<not> d)"
| "DerivationType_hasKnownOutputPaths (DT_ContentAddressed s f) = f"
| "DerivationType_hasKnownOutputPaths DT_Impure = False"

fun DerivationType_isSandboxed :: "DerivationType \<Rightarrow> bool" where
  "DerivationType_isSandboxed (DT_InputAddressed d) = True"
| "DerivationType_isSandboxed (DT_ContentAddressed s f) = s"
| "DerivationType_isSandboxed DT_Impure = False"

fun DerivationType_isImpure :: "DerivationType \<Rightarrow> bool" where
  "DerivationType_isImpure (DT_InputAddressed d) = False"
| "DerivationType_isImpure (DT_ContentAddressed s f) = False"
| "DerivationType_isImpure DT_Impure = True"

definition decide :: "DerivationType \<Rightarrow> DerivationType option \<Rightarrow> DerivationType option result" where
  "decide newTy ty = (case ty of
     None \<Rightarrow> Inr (Some newTy)
   | Some t \<Rightarrow>
       if t \<noteq> newTy then Inl (GenericError ''cannot mix derivation output types'')
       else if t = DT_ContentAddressed False True then Inl (GenericError ''only one fixed output is allowed for now'')
       else Inr ty)"

text \<open>One output of the loop: the type decided so far and the algorithm of the floating outputs.\<close>

fun type_step ::
  "string \<times> DerivationOutput \<Rightarrow> DerivationType option \<times> HashAlgorithm option \<Rightarrow>
     (DerivationType option \<times> HashAlgorithm option) result" where
  "type_step (n, DO_InputAddressed p) (ty, fha) =
     result_bind (decide (DT_InputAddressed False) ty) (\<lambda>ty. Inr (ty, fha))"
| "type_step (n, DO_CAFixed ca) (ty, fha) =
     result_bind (decide (DT_ContentAddressed False True) ty) (\<lambda>ty.
     result_bind (ensure (n = ''out'') (GenericError ''single fixed output must be named out'')) (\<lambda>_.
       Inr (ty, fha)))"
| "type_step (n, DO_CAFloating m a) (ty, fha) =
     result_bind (decide (DT_ContentAddressed True False) ty) (\<lambda>ty.
       case fha of
         None \<Rightarrow> Inr (ty, Some a)
       | Some b \<Rightarrow> result_bind (ensure (b = a)
           (GenericError ''all floating outputs must use the same hash algorithm'')) (\<lambda>_. Inr (ty, fha)))"
| "type_step (n, DO_Deferred) (ty, fha) =
     result_bind (decide (DT_InputAddressed True) ty) (\<lambda>ty. Inr (ty, fha))"
| "type_step (n, DO_Impure m a) (ty, fha) =
     result_bind (decide DT_Impure ty) (\<lambda>ty. Inr (ty, fha))"

definition BasicDerivation_type :: "('j, 'a) BasicDerivation_scheme \<Rightarrow> DerivationType result" where
  "BasicDerivation_type drv =
     result_bind (fold_result type_step (drv_outputs drv) (None, None)) (\<lambda>(ty, _).
       case ty of
         None \<Rightarrow> Inl (GenericError ''must have at least one output'')
       | Some ty \<Rightarrow> Inr ty)"

definition isBuiltin :: "('j, 'a) BasicDerivation_scheme \<Rightarrow> bool" where
  "isBuiltin drv \<longleftrightarrow> take 8 (builder drv) = ''builtin:''"

definition outputNames :: "('j, 'a) BasicDerivation_scheme \<Rightarrow> string set" where
  "outputNames drv = fold (\<lambda>i names. insert (fst i) names) (drv_outputs drv) {}"

definition outputsAndOptPaths ::
  "digests \<Rightarrow> ExperimentalFeatureSettings \<Rightarrow> StoreDirConfig \<Rightarrow> ('j, 'a) BasicDerivation_scheme \<Rightarrow>
     (string, DerivationOutput \<times> StorePath option) omap result" where
  "outputsAndOptPaths digest xp store drv =
     fold_result (\<lambda>(outputName, out) m.
       result_bind (DerivationOutput_path digest xp store (drv_name drv) outputName out) (\<lambda>p.
         Inr (map_emplace outputName (out, p) m))) (drv_outputs drv) []"

definition nameFromPath :: "StorePath \<Rightarrow> string result" where
  "nameFromPath drvPath =
     result_bind (requireDerivation drvPath) (\<lambda>_.
       Inr (take (length (StorePath_name drvPath) - length drvExtension) (StorePath_name drvPath)))"

section \<open>Hashes modulo fixed outputs\<close>

datatype DrvHashModulo = DrvHash Hash | CaOutputHashes "(string, Hash) omap" | DeferredDrv

text \<open>The store as these functions use it, and the table of known hashes.\<close>

record 'j store_ctx =
  sc_json :: "'j json_lib"
  sc_digest :: digests
  sc_xp :: ExperimentalFeatureSettings
  sc_dir :: StoreDirConfig
  readInvalidDerivation :: "StorePath \<Rightarrow> 'j Derivation result"

type_synonym drv_hashes = "StorePath \<Rightarrow> DrvHashModulo option"

type_synonym 'a hashing = "drv_hashes \<Rightarrow> ('a \<times> drv_hashes) result"

definition hash_text :: "('j, 'a) store_ctx_scheme \<Rightarrow> string \<Rightarrow> Hash result" where
  "hash_text ctx s = hashString (sc_digest ctx) SHA256 (string_bytes s) (sc_xp ctx)"

definition fixed_output_hash ::
  "('j, 'a) store_ctx_scheme \<Rightarrow> string \<Rightarrow> string \<times> DerivationOutput \<Rightarrow> (string, Hash) omap \<Rightarrow>
     (string, Hash) omap result" where
  "fixed_output_hash ctx name i outputHashes = (case snd i of
     DO_CAFixed ca \<Rightarrow>
       result_bind (ContentAddress_printMethodAlgo (sc_xp ctx) ca) (\<lambda>ma.
       result_bind (Hash_to_string (ca_hash ca) Base16 False) (\<lambda>h.
       result_bind (CAFixed_path (sc_digest ctx) (sc_xp ctx) (sc_dir ctx) name (fst i) ca) (\<lambda>p.
       result_bind (hash_text ctx (''fixed:out:'' @ ma @ '':'' @ h @ '':'' @ printStorePath (sc_dir ctx) p)) (\<lambda>hash.
         Inr (insert_or_assign (fst i) hash outputHashes)))))
   | _ \<Rightarrow> Inl (GenericError ''std::bad_variant_access''))"

text \<open>\<^verbatim>\<open>pathDerivationModulo\<close>, with the function that hashes the derivation it reads.\<close>

definition pathDerivationModulo ::
  "('j, 'a) store_ctx_scheme \<Rightarrow> ('j Derivation \<Rightarrow> DrvHashModulo hashing) \<Rightarrow> StorePath \<Rightarrow> DrvHashModulo hashing" where
  "pathDerivationModulo ctx hash_drv drvPath drvHashes = (case drvHashes drvPath of
     Some h \<Rightarrow> Inr (h, drvHashes)
   | None \<Rightarrow>
       result_bind (readInvalidDerivation ctx drvPath) (\<lambda>drv.
       result_bind (hash_drv drv drvHashes) (\<lambda>(h, drvHashes).
         Inr (h, drvHashes(drvPath \<mapsto> h)))))"

text \<open>The hashes of the outputs an input names, each in with a single output called out.\<close>

definition ca_inputs ::
  "(string, Hash) omap \<Rightarrow> string list \<Rightarrow> (string, ChildNode) omap \<Rightarrow> (string, ChildNode) omap result" where
  "ca_inputs outputHashes names inputs2 =
     fold_result (\<lambda>outputName inputs2. case map_of outputHashes outputName of
         None \<Rightarrow> Inl (GenericError ''no hash for output of derivation'')
       | Some h \<Rightarrow> result_bind (Hash_to_string h Base16 False) (\<lambda>s.
           Inr (insert_or_assign s (ChildNode {''out''} []) inputs2))) names inputs2"

text \<open>The loop over the input derivations: \<open>None\<close> when one of them has no known hash yet.\<close>

fun hash_inputs ::
  "(StorePath \<Rightarrow> DrvHashModulo hashing) \<Rightarrow> (StorePath, ChildNode) omap \<Rightarrow> (string, ChildNode) omap \<Rightarrow>
     (string, ChildNode) omap option hashing" where
  "hash_inputs path_modulo [] inputs2 drvHashes = Inr (Some inputs2, drvHashes)"
| "hash_inputs path_modulo ((drvPath, node) # rest) inputs2 drvHashes =
     (if childMap node \<noteq> [] then Inr (None, drvHashes)
      else result_bind (path_modulo drvPath drvHashes) (\<lambda>(res, drvHashes). case res of
        DeferredDrv \<Rightarrow> Inr (None, drvHashes)
      | DrvHash h \<Rightarrow>
          result_bind (Hash_to_string h Base16 False) (\<lambda>s.
            hash_inputs path_modulo rest (insert_or_assign s node inputs2) drvHashes)
      | CaOutputHashes hs \<Rightarrow>
          result_bind (ca_inputs hs (sorted_list_of_set (node_value node)) inputs2) (\<lambda>inputs2.
            hash_inputs path_modulo rest inputs2 drvHashes)))"

text \<open>
  One call of \<^verbatim>\<open>hashDerivationModulo\<close>, given what the calls it makes on input derivations
  return. A derivation graph has no cycles; the recursion is bounded by a number of levels and the
  bound is shown to be immaterial below.
\<close>

definition hash_modulo_step ::
  "('j, 'a) store_ctx_scheme \<Rightarrow> (StorePath \<Rightarrow> DrvHashModulo hashing) \<Rightarrow> 'j Derivation \<Rightarrow> bool \<Rightarrow>
     DrvHashModulo hashing" where
  "hash_modulo_step ctx path_modulo drv maskOutputs drvHashes =
     result_bind (BasicDerivation_type drv) (\<lambda>ty.
       if DerivationType_isFixed ty then
         result_bind (fold_result (fixed_output_hash ctx (drv_name drv)) (drv_outputs drv) []) (\<lambda>hs.
           Inr (CaOutputHashes hs, drvHashes))
       else if (case ty of DT_InputAddressed d \<Rightarrow> False | DT_ContentAddressed s f \<Rightarrow> True | DT_Impure \<Rightarrow> True) then
         Inr (DeferredDrv, drvHashes)
       else
         result_bind (hash_inputs path_modulo (inputDrvs drv) [] drvHashes) (\<lambda>(inputs2, drvHashes). case inputs2 of
           None \<Rightarrow> Inr (DeferredDrv, drvHashes)
         | Some inputs2 \<Rightarrow>
             result_bind (Derivation_unparse (sc_json ctx) (sc_digest ctx) (sc_xp ctx) (sc_dir ctx) maskOutputs
               (Some inputs2) drv) (\<lambda>s.
             result_bind (hash_text ctx s) (\<lambda>h. Inr (DrvHash h, drvHashes)))))"

fun hashDerivationModulo ::
  "nat \<Rightarrow> ('j, 'a) store_ctx_scheme \<Rightarrow> 'j Derivation \<Rightarrow> bool \<Rightarrow> DrvHashModulo hashing" where
  "hashDerivationModulo 0 ctx drv maskOutputs drvHashes = Inl OutOfFuel"
| "hashDerivationModulo (Suc levels) ctx drv maskOutputs drvHashes =
     hash_modulo_step ctx
       (pathDerivationModulo ctx (\<lambda>d. hashDerivationModulo levels ctx d False)) drv maskOutputs drvHashes"

section \<open>The table of hashes does not change the hashes\<close>

text \<open>The recursion without the table.\<close>

definition plain_path ::
  "('j, 'a) store_ctx_scheme \<Rightarrow> ('j Derivation \<Rightarrow> DrvHashModulo result) \<Rightarrow> StorePath \<Rightarrow> DrvHashModulo hashing" where
  "plain_path ctx hash_drv p c =
     result_bind (readInvalidDerivation ctx p) (\<lambda>d. result_bind (hash_drv d) (\<lambda>h. Inr (h, c)))"

fun plain_modulo :: "nat \<Rightarrow> ('j, 'a) store_ctx_scheme \<Rightarrow> 'j Derivation \<Rightarrow> bool \<Rightarrow> DrvHashModulo result" where
  "plain_modulo 0 ctx drv masked = Inl OutOfFuel"
| "plain_modulo (Suc n) ctx drv masked =
     result_bind (hash_modulo_step ctx (plain_path ctx (\<lambda>d. plain_modulo n ctx d False)) drv masked Map.empty)
       (\<lambda>(h, _). Inr h)"

definition known_hash :: "('j, 'a) store_ctx_scheme \<Rightarrow> StorePath \<Rightarrow> DrvHashModulo \<Rightarrow> bool" where
  "known_hash ctx p h \<longleftrightarrow> (\<exists>n d. readInvalidDerivation ctx p = Inr d \<and> plain_modulo n ctx d False = Inr h)"

definition hashes_ok :: "('j, 'a) store_ctx_scheme \<Rightarrow> drv_hashes \<Rightarrow> bool" where
  "hashes_ok ctx c \<longleftrightarrow> (\<forall>p h. c p = Some h \<longrightarrow> known_hash ctx p h)"

text \<open>
  Two runs of the loop over the inputs: a simulation, where the second run knows what the first one
  found out about each path.
\<close>

lemma hash_inputs_simulation:
  assumes "\<And>p c e r c'. I c e \<Longrightarrow> pm1 p c = Inr (r, c') \<Longrightarrow> \<exists>e'. pm2 p e = Inr (r, e') \<and> I c' e'"
    and "hash_inputs pm1 ins i2 c = Inr (out, c')" "I c e"
  shows "\<exists>e'. hash_inputs pm2 ins i2 e = Inr (out, e') \<and> I c' e'"
  using assms(2,3)
proof (induction ins arbitrary: i2 c e)
  case (Cons kv ins)
  obtain p node where kv: "kv = (p, node)" by fastforce
  show ?case
  proof (cases "childMap node \<noteq> []")
    case False
    then obtain r c1 where r: "pm1 p c = Inr (r, c1)" using Cons.prems by (auto simp: kv result_simps)
    then obtain e1 where e: "pm2 p e = Inr (r, e1)" "I c1 e1" using assms(1) Cons.prems by blast
    show ?thesis
    proof (cases r)
      case (DrvHash h)
      with r e False Cons.prems(1) Cons.IH [OF _ e(2)] show ?thesis by (auto simp: kv result_simps)
    next
      case (CaOutputHashes hs)
      with r e False Cons.prems(1) Cons.IH [OF _ e(2)] show ?thesis by (auto simp: kv result_simps)
    qed (use r e False Cons.prems(1) in \<open>auto simp: kv\<close>)
  qed (use Cons.prems in \<open>auto simp: kv\<close>)
qed auto

lemma step_simulation:
  assumes "\<And>p c e r c'. I c e \<Longrightarrow> pm1 p c = Inr (r, c') \<Longrightarrow> \<exists>e'. pm2 p e = Inr (r, e') \<and> I c' e'"
    and "hash_modulo_step ctx pm1 drv masked c = Inr (h, c')" "I c e"
  shows "\<exists>e'. hash_modulo_step ctx pm2 drv masked e = Inr (h, e') \<and> I c' e'"
proof -
  obtain ty where ty: "BasicDerivation_type drv = Inr ty" using assms(2) by (auto simp: hash_modulo_step_def result_simps)
  show ?thesis
  proof (cases "DerivationType_isFixed ty \<or> (case ty of DT_InputAddressed d \<Rightarrow> False | _ \<Rightarrow> True)")
    case True
    with assms(2,3) ty show ?thesis
      by (cases ty) (auto simp: hash_modulo_step_def result_simps split: if_splits)
  next
    case False
    then obtain out c1 where run: "hash_inputs pm1 (inputDrvs drv) [] c = Inr (out, c1)"
      using assms(2) ty by (cases ty) (auto simp: hash_modulo_step_def result_simps)
    have "\<exists>e'. hash_inputs pm2 (inputDrvs drv) [] e = Inr (out, e') \<and> I c1 e'"
      by (rule hash_inputs_simulation [where I = I, OF _ run assms(3)]) (rule assms(1))
    then obtain e1 where "hash_inputs pm2 (inputDrvs drv) [] e = Inr (out, e1)" "I c1 e1" by blast
    with False assms(2) ty run show ?thesis
      by (cases ty; cases out) (auto simp: hash_modulo_step_def result_simps)
  qed
qed

lemma plain_path_cache:
  "plain_path ctx f p c = Inr (r, c') \<longleftrightarrow>
     c' = c \<and> (\<exists>d. readInvalidDerivation ctx p = Inr d \<and> f d = Inr r)"
  by (auto simp: plain_path_def result_simps)

lemma plain_step_cache:
  assumes "hash_modulo_step ctx (plain_path ctx f) drv masked c = Inr (h, c')"
  shows "hash_modulo_step ctx (plain_path ctx f) drv masked e = Inr (h, e)"
proof -
  have "\<exists>e'. hash_modulo_step ctx (plain_path ctx f) drv masked e = Inr (h, e') \<and> e' = e"
    by (rule step_simulation [where I = "\<lambda>_ x. x = e", OF _ assms refl]) (auto simp: plain_path_cache)
  then show ?thesis by simp
qed

lemma plain_modulo_step:
  "plain_modulo (Suc n) ctx drv masked = Inr h \<longleftrightarrow>
     hash_modulo_step ctx (plain_path ctx (\<lambda>d. plain_modulo n ctx d False)) drv masked c = Inr (h, c)"
proof
  assume "plain_modulo (Suc n) ctx drv masked = Inr h"
  then show "hash_modulo_step ctx (plain_path ctx (\<lambda>d. plain_modulo n ctx d False)) drv masked c = Inr (h, c)"
    using plain_step_cache by (fastforce simp: result_simps)
next
  assume "hash_modulo_step ctx (plain_path ctx (\<lambda>d. plain_modulo n ctx d False)) drv masked c = Inr (h, c)"
  from plain_step_cache [OF this, of Map.empty] show "plain_modulo (Suc n) ctx drv masked = Inr h" by simp
qed

text \<open>More levels never change a hash.\<close>

lemma plain_modulo_Suc: "plain_modulo n ctx drv masked = Inr h \<Longrightarrow> plain_modulo (Suc n) ctx drv masked = Inr h"
proof (induction n arbitrary: drv masked h)
  case (Suc n)
  let ?pm = "\<lambda>k. plain_path ctx (\<lambda>d. plain_modulo k ctx d False)"
  have run: "hash_modulo_step ctx (?pm n) drv masked Map.empty = Inr (h, Map.empty)"
    using Suc.prems plain_modulo_step by blast
  have sim: "\<exists>e'. ?pm (Suc n) p e = Inr (r, e') \<and> e' = c'" if "e = c" "?pm n p c = Inr (r, c')" for p c e r c'
    using that Suc.IH by (auto simp: plain_path_cache simp del: plain_modulo.simps)
  from step_simulation [where I = "\<lambda>x y. y = x", OF sim run refl]
  show ?case by (simp add: plain_modulo_step [of "Suc n" ctx drv masked h Map.empty] del: plain_modulo.simps)
qed simp

lemma plain_modulo_mono: "plain_modulo n ctx drv masked = Inr h \<Longrightarrow> n \<le> m \<Longrightarrow> plain_modulo m ctx drv masked = Inr h"
  by (rotate_tac, induction m rule: dec_induct) (use plain_modulo_Suc in blast)+

lemma plain_modulo_unique:
  "plain_modulo n ctx drv masked = Inr h \<Longrightarrow> plain_modulo m ctx drv masked = Inr h' \<Longrightarrow> h = h'"
  using plain_modulo_mono [of n ctx drv masked h "max n m"] plain_modulo_mono [of m ctx drv masked h' "max n m"] by simp

lemma known_hash_unique: "known_hash ctx p h \<Longrightarrow> known_hash ctx p h' \<Longrightarrow> h = h'"
  using plain_modulo_unique by (fastforce simp: known_hash_def)

text \<open>The hash of a path as the limit of the plain recursion; a run that uses it needs finitely many levels.\<close>

definition limit_path :: "('j, 'a) store_ctx_scheme \<Rightarrow> StorePath \<Rightarrow> DrvHashModulo hashing" where
  "limit_path ctx p e = (if \<exists>r. known_hash ctx p r then Inr (SOME r. known_hash ctx p r, e) else Inl OutOfFuel)"

lemma limit_path_Inr: "limit_path ctx p e = Inr (r, e') \<longleftrightarrow> known_hash ctx p r \<and> e' = e"
proof (cases "\<exists>x. known_hash ctx p x")
  case True
  then obtain x where x: "known_hash ctx p x" by blast
  have all: "known_hash ctx p y \<longleftrightarrow> y = x" for y using x known_hash_unique by blast
  then have "(SOME r. known_hash ctx p r) = x" by simp
  with all show ?thesis by (auto simp: limit_path_def)
qed (auto simp: limit_path_def)

lemma known_hash_levels:
  assumes "known_hash ctx p r"
  obtains m where "\<And>k e. m \<le> k \<Longrightarrow> plain_path ctx (\<lambda>d. plain_modulo k ctx d False) p e = Inr (r, e)"
  using assms plain_modulo_mono unfolding known_hash_def plain_path_cache by blast

lemma hash_inputs_levels:
  "hash_inputs (limit_path ctx) ins i2 e = Inr (out, e') \<Longrightarrow>
     \<exists>m. \<forall>k\<ge>m. hash_inputs (plain_path ctx (\<lambda>d. plain_modulo k ctx d False)) ins i2 e = Inr (out, e)"
proof (induction ins arbitrary: i2)
  case (Cons kv ins)
  obtain p node where kv: "kv = (p, node)" by fastforce
  show ?case
  proof (cases "childMap node \<noteq> []")
    case False
    then obtain r where r: "known_hash ctx p r" "limit_path ctx p e = Inr (r, e)"
      using Cons.prems by (auto simp: kv result_simps limit_path_Inr)
    obtain m where m: "\<And>k e. m \<le> k \<Longrightarrow> plain_path ctx (\<lambda>d. plain_modulo k ctx d False) p e = Inr (r, e)"
      using known_hash_levels [OF r(1)] by blast
    have rest: "\<exists>m'. \<forall>k\<ge>m'. hash_inputs (plain_path ctx (\<lambda>d. plain_modulo k ctx d False)) ins i3 e = Inr (out, e)"
      if "hash_inputs (limit_path ctx) ins i3 e = Inr (out, e')" for i3
      using Cons.IH [OF that] .
    show ?thesis
    proof (cases r)
      case (DrvHash h)
      then obtain s where s: "Hash_to_string h Base16 False = Inr s"
        "hash_inputs (limit_path ctx) ins (insert_or_assign s node i2) e = Inr (out, e')"
        using Cons.prems r False by (auto simp: kv result_simps)
      obtain m' where "\<forall>k\<ge>m'. hash_inputs (plain_path ctx (\<lambda>d. plain_modulo k ctx d False)) ins
          (insert_or_assign s node i2) e = Inr (out, e)" using rest [OF s(2)] by blast
      with m s False DrvHash show ?thesis by (intro exI [of _ "max m m'"]) (simp add: kv)
    next
      case (CaOutputHashes hs)
      then obtain i3 where s: "ca_inputs hs (sorted_list_of_set (node_value node)) i2 = Inr i3"
        "hash_inputs (limit_path ctx) ins i3 e = Inr (out, e')"
        using Cons.prems r False by (auto simp: kv result_simps)
      obtain m' where "\<forall>k\<ge>m'. hash_inputs (plain_path ctx (\<lambda>d. plain_modulo k ctx d False)) ins i3 e = Inr (out, e)"
        using rest [OF s(2)] by blast
      with m s False CaOutputHashes show ?thesis by (intro exI [of _ "max m m'"]) (simp add: kv)
    next
      case DeferredDrv
      with m r False Cons.prems show ?thesis by (intro exI [of _ m]) (auto simp: kv)
    qed
  qed (use Cons.prems in \<open>auto simp: kv\<close>)
qed auto

lemma step_levels:
  assumes "hash_modulo_step ctx (limit_path ctx) drv masked Map.empty = Inr (h, e)"
  shows "\<exists>m. plain_modulo m ctx drv masked = Inr h"
proof -
  obtain ty where ty: "BasicDerivation_type drv = Inr ty" using assms by (auto simp: hash_modulo_step_def result_simps)
  have "\<exists>m. hash_modulo_step ctx (plain_path ctx (\<lambda>d. plain_modulo m ctx d False)) drv masked Map.empty = Inr (h, Map.empty)"
  proof (cases "DerivationType_isFixed ty \<or> (case ty of DT_InputAddressed d \<Rightarrow> False | _ \<Rightarrow> True)")
    case True
    with assms ty show ?thesis
      by (cases ty) (auto simp: hash_modulo_step_def result_simps split: if_splits)
  next
    case False
    then obtain out c1 where run: "hash_inputs (limit_path ctx) (inputDrvs drv) [] Map.empty = Inr (out, c1)"
      using assms ty by (cases ty) (auto simp: hash_modulo_step_def result_simps)
    obtain m where "hash_inputs (plain_path ctx (\<lambda>d. plain_modulo m ctx d False)) (inputDrvs drv) [] Map.empty = Inr (out, Map.empty)"
      using hash_inputs_levels [OF run] by blast
    with False assms ty run show ?thesis
      by (cases ty; cases out) (auto simp: hash_modulo_step_def result_simps intro!: exI [of _ m])
  qed
  then show ?thesis using plain_modulo_step by blast
qed

text \<open>What a run with the table returns is what the plain recursion returns with enough levels.\<close>

lemma hashed_path_sound:
  assumes "hashes_ok ctx c" "pathDerivationModulo ctx f p c = Inr (r, c')"
    and "\<And>d c1. f d c = Inr (r, c1) \<Longrightarrow> hashes_ok ctx c1 \<and> (\<exists>m. plain_modulo m ctx d False = Inr r)"
  shows "hashes_ok ctx c' \<and> known_hash ctx p r"
proof (cases "c p")
  case None
  with assms(2) obtain d c1 where d: "readInvalidDerivation ctx p = Inr d" "f d c = Inr (r, c1)" "c' = c1(p \<mapsto> r)"
    by (auto simp: pathDerivationModulo_def result_simps)
  with assms(3) [OF d(2)] show ?thesis by (auto simp: known_hash_def hashes_ok_def)
qed (use assms in \<open>auto simp: pathDerivationModulo_def hashes_ok_def\<close>)

lemma hashed_sound:
  assumes "hashes_ok ctx c" "hashDerivationModulo n ctx drv masked c = Inr (h, c')"
  shows "hashes_ok ctx c' \<and> (\<exists>m. plain_modulo m ctx drv masked = Inr h)"
  using assms
proof (induction n arbitrary: drv masked c h c')
  case (Suc n)
  let ?pm = "pathDerivationModulo ctx (\<lambda>d. hashDerivationModulo n ctx d False)"
  have sim: "\<exists>e'. limit_path ctx p e = Inr (r, e') \<and> hashes_ok ctx c' \<and> e' = Map.empty"
    if "hashes_ok ctx c \<and> e = Map.empty" "?pm p c = Inr (r, c')" for p c e r c'
    using hashed_path_sound [OF _ that(2)] Suc.IH that(1) by (auto simp: limit_path_Inr)
  have "\<exists>e'. hash_modulo_step ctx (limit_path ctx) drv masked Map.empty = Inr (h, e') \<and> hashes_ok ctx c' \<and> e' = Map.empty"
    by (rule step_simulation [where I = "\<lambda>c e. hashes_ok ctx c \<and> e = Map.empty" and ?pm1.0 = ?pm])
      (use sim Suc.prems in \<open>auto\<close>)
  then show ?case using step_levels by blast
qed simp

lemma hashed_complete:
  assumes "hashes_ok ctx c" "plain_modulo n ctx drv masked = Inr h"
  shows "\<exists>c'. hashDerivationModulo n ctx drv masked c = Inr (h, c') \<and> hashes_ok ctx c'"
  using assms
proof (induction n arbitrary: drv masked c h)
  case (Suc n)
  let ?pm = "pathDerivationModulo ctx (\<lambda>d. hashDerivationModulo n ctx d False)"
  let ?plain = "plain_path ctx (\<lambda>d. plain_modulo n ctx d False)"
  have sim: "\<exists>e'. ?pm p e = Inr (r, e') \<and> hashes_ok ctx e'" if e: "hashes_ok ctx e" and run: "?plain p c = Inr (r, c')" for p c e r c'
  proof -
    obtain d where d: "readInvalidDerivation ctx p = Inr d" "plain_modulo n ctx d False = Inr r"
      using run by (auto simp: plain_path_cache)
    then have known: "known_hash ctx p r" by (auto simp: known_hash_def)
    obtain e1 where e1: "hashDerivationModulo n ctx d False e = Inr (r, e1)" "hashes_ok ctx e1" using Suc.IH [OF e d(2)] by blast
    show ?thesis
    proof (cases "e p")
      case None
      with d e1 known show ?thesis by (auto simp: pathDerivationModulo_def hashes_ok_def)
    next
      case (Some r')
      with e have "known_hash ctx p r'" by (auto simp: hashes_ok_def)
      then have "r' = r" using known by (rule known_hash_unique)
      with Some e show ?thesis by (simp add: pathDerivationModulo_def)
    qed
  qed
  have run: "hash_modulo_step ctx ?plain drv masked Map.empty = Inr (h, Map.empty)"
    using Suc.prems(2) plain_modulo_step by blast
  have "\<exists>e'. hash_modulo_step ctx ?pm drv masked c = Inr (h, e') \<and> hashes_ok ctx e'"
    by (rule step_simulation [where I = "\<lambda>c e. hashes_ok ctx e" and ?pm1.0 = ?plain, OF _ run Suc.prems(1)]) (rule sim)
  then show ?case by simp
qed simp

text \<open>
  C20: Memoising the hashes in the table \<^verbatim>\<open>drvHashes\<close> is transparent: as long as the table holds
  only hashes that the recursion without the table would compute, every run of
  \<^verbatim>\<open>hashDerivationModulo\<close> leaves it so, the hash it returns is the one the plain recursion
  returns, whatever the table holds, and a hash the plain recursion finds is found with the table too,
  with no more levels of recursion.
\<close>

theorem hash_table_transparent:
  assumes "hashes_ok ctx c"
  shows "((\<exists>n c'. hashDerivationModulo n ctx drv masked c = Inr (h, c')) \<longleftrightarrow> (\<exists>n. plain_modulo n ctx drv masked = Inr h)) \<and>
    (\<forall>n c'. hashDerivationModulo n ctx drv masked c = Inr (h, c') \<longrightarrow> hashes_ok ctx c')"
  using hashed_sound [OF assms] hashed_complete [OF assms] by blast

definition sample_ctx :: "string store_ctx" where
  "sample_ctx = \<lparr>sc_json = sample_json, sc_digest = (\<lambda>a b. []),
     sc_xp = \<lparr>experimentalFeatures = [DynamicDerivations]\<rparr>, sc_dir = sample_store,
     readInvalidDerivation = (\<lambda>p. Inr sample_drv)\<rparr>"

theorem hash_table_transparent_witness:
  "hashes_ok sample_ctx Map.empty \<and> (\<exists>n. plain_modulo n sample_ctx sample_drv True = Inr DeferredDrv)"
proof -
  have "hashes_ok sample_ctx Map.empty" by (simp add: hashes_ok_def)
  moreover have "hashDerivationModulo 1 sample_ctx sample_drv True Map.empty = Inr (DeferredDrv, Map.empty)"
    by (simp add: hash_modulo_step_def BasicDerivation_type_def sample_drv_def decide_def)
  ultimately show ?thesis using hash_table_transparent [of sample_ctx Map.empty sample_drv True DeferredDrv] by blast
qed

section \<open>Which combinations of outputs are allowed\<close>

fun output_type :: "DerivationOutput \<Rightarrow> DerivationType" where
  "output_type (DO_InputAddressed p) = DT_InputAddressed False"
| "output_type (DO_CAFixed ca) = DT_ContentAddressed False True"
| "output_type (DO_CAFloating m a) = DT_ContentAddressed True False"
| "output_type DO_Deferred = DT_InputAddressed True"
| "output_type (DO_Impure m a) = DT_Impure"

definition floating_algo :: "DerivationOutput \<Rightarrow> HashAlgorithm option" where
  "floating_algo out = (case out of DO_CAFloating m a \<Rightarrow> Some a | _ \<Rightarrow> None)"

text \<open>What the loop has established when it has gone over some outputs.\<close>

definition uniform_outputs ::
  "(string \<times> DerivationOutput) list \<Rightarrow> DerivationType option \<Rightarrow> HashAlgorithm option \<Rightarrow> bool" where
  "uniform_outputs outs ty fha \<longleftrightarrow> (ty = None \<longleftrightarrow> outs = []) \<and>
     (\<forall>i\<in>set outs. ty = Some (output_type (snd i))) \<and>
     (ty = Some (DT_ContentAddressed False True) \<longrightarrow> (\<exists>out. outs = [(''out'', out)])) \<and>
     (if ty = Some (DT_ContentAddressed True False) then \<forall>i\<in>set outs. floating_algo (snd i) = fha else fha = None)"

lemma type_step_uniform:
  assumes "uniform_outputs outs ty fha"
  shows "type_step i (ty, fha) = Inr (ty', fha') \<longleftrightarrow> uniform_outputs (outs @ [i]) ty' fha'"
proof -
  obtain n out where i: "i = (n, out)" by fastforce
  show ?thesis
  proof (cases ty)
    case None
    then have "outs = []" "fha = None" using assms by (auto simp: uniform_outputs_def)
    with None show ?thesis
      by (cases out) (auto simp: i decide_def uniform_outputs_def floating_algo_def ensure_def result_simps split: if_splits)
  next
    case (Some t)
    then have "outs \<noteq> []" "\<forall>i\<in>set outs. output_type (snd i) = t" using assms by (auto simp: uniform_outputs_def)
    then obtain j js where outs: "outs = j # js" "output_type (snd j) = t" "\<forall>i\<in>set js. output_type (snd i) = t"
      by (cases outs) auto
    show ?thesis
    proof (cases "t = output_type out")
      case True
      show ?thesis
      proof (cases out)
        case (DO_CAFloating m a)
        then have "floating_algo (snd j) = fha" "\<exists>b. floating_algo (snd j) = Some b"
          using assms Some True outs by (auto simp: uniform_outputs_def floating_algo_def split: DerivationOutput.splits)
        then obtain b where "fha = Some b" by auto
        with assms Some True outs DO_CAFloating show ?thesis
          by (auto simp: i decide_def uniform_outputs_def floating_algo_def ensure_def result_simps split: if_splits)
      qed (use assms Some True outs in \<open>auto simp: i decide_def uniform_outputs_def result_simps\<close>)
    next
      case False
      then have "decide (output_type out) ty = Inl (GenericError ''cannot mix derivation output types'')"
        using Some by (simp add: decide_def)
      then have "type_step i (ty, fha) = Inl (GenericError ''cannot mix derivation output types'')"
        by (cases out) (simp_all add: i)
      with False Some outs show ?thesis by (auto simp: uniform_outputs_def i)
    qed
  qed
qed

lemma type_loop_uniform:
  "uniform_outputs done_outs ty fha \<Longrightarrow>
     fold_result type_step outs (ty, fha) = Inr (ty', fha') \<longleftrightarrow> uniform_outputs (done_outs @ outs) ty' fha'"
proof (induction outs arbitrary: done_outs ty fha)
  case Nil
  show ?case
  proof
    assume "uniform_outputs (done_outs @ []) ty' fha'"
    with Nil show "fold_result type_step [] (ty, fha) = Inr (ty', fha')"
      by (cases done_outs) (auto simp: uniform_outputs_def split: if_splits)
  qed (use Nil in simp)
next
  case (Cons i outs)
  show ?case
  proof (cases "type_step i (ty, fha)")
    case (Inr st)
    obtain t f where st: "st = (t, f)" by fastforce
    from Inr st have "uniform_outputs (done_outs @ [i]) t f" using type_step_uniform [OF Cons.prems] by simp
    from Cons.IH [OF this] Inr st show ?thesis by simp
  next
    case (Inl e)
    have "\<not> uniform_outputs ((done_outs @ [i]) @ outs) ty' fha'"
    proof
      assume u: "uniform_outputs ((done_outs @ [i]) @ outs) ty' fha'"
      define f where "f = (if ty' = Some (DT_ContentAddressed True False) then fha' else None)"
      from u have "uniform_outputs (done_outs @ [i]) ty' f" by (auto simp: uniform_outputs_def f_def append_eq_Cons_conv split: if_splits)
      with type_step_uniform [OF Cons.prems, of i ty' f] Inl show False by simp
    qed
    with Inl show ?thesis by simp
  qed
qed

lemma type_uniform: "BasicDerivation_type drv = Inr ty \<longleftrightarrow> (\<exists>fha. uniform_outputs (drv_outputs drv) (Some ty) fha)"
proof -
  have "uniform_outputs [] None None" by (simp add: uniform_outputs_def)
  from type_loop_uniform [OF this, of "drv_outputs drv"]
  have loop: "fold_result type_step (drv_outputs drv) (None, None) = Inr (t, f) \<longleftrightarrow>
      uniform_outputs (drv_outputs drv) t f" for t f by simp
  then show ?thesis
    by (auto simp: BasicDerivation_type_def result_simps split: option.splits)
qed

text \<open>
  C25: A derivation has a type exactly when its outputs are uniform: there is at least one, all of them are
  of the kind the type says, a fixed output stands alone and is called out, and all floating
  outputs use one hash algorithm. Every other combination of outputs is refused with an error.
\<close>

theorem derivation_type_iff:
  "BasicDerivation_type drv = Inr ty \<longleftrightarrow>
     drv_outputs drv \<noteq> [] \<and>
     list_all (\<lambda>i. output_type (snd i) = ty \<and>
       floating_algo (snd i) = floating_algo (snd (hd (drv_outputs drv)))) (drv_outputs drv) \<and>
     (if DerivationType_isFixed ty then map fst (drv_outputs drv) = [''out''] else True)"
proof -
  have float: "floating_algo out = None" if "output_type out \<noteq> DT_ContentAddressed True False" for out
    using that by (cases out) (auto simp: floating_algo_def)
  have fixed_iff: "DerivationType_isFixed (output_type out) \<longleftrightarrow> output_type out = DT_ContentAddressed False True" for out
    by (cases out) auto
  have names: "map fst outs = [''out''] \<longleftrightarrow> (\<exists>out. outs = [(''out'', out)])" for outs :: "(string \<times> DerivationOutput) list"
    by auto
  show ?thesis
  proof (cases "drv_outputs drv")
    case Nil
    then show ?thesis by (simp add: type_uniform uniform_outputs_def)
  next
    case (Cons i outs)
    then show ?thesis
      using float fixed_iff [of "snd i"]
      unfolding type_uniform uniform_outputs_def names by (auto simp: list_all_iff)
  qed
qed

end
