(* ===== verification/Derivation_Paths.thy ===== *)
theory Derivation_Paths
  imports Derivation_Hash
begin

text \<open>
  The output paths of derivations (\<^verbatim>\<open>libstore/derivations.cc\<close>): filling them in, checking them, and
  the store path of the derivation itself.
\<close>

section \<open>Filling in and checking\<close>

definition makeOutputPath ::
  "('j, 'a) store_ctx_scheme \<Rightarrow> string \<Rightarrow> Hash \<Rightarrow> string \<Rightarrow> StorePath result" where
  "makeOutputPath ctx outId h name =
     makeStorePath_hash (sc_digest ctx) (sc_xp ctx) (sc_dir ctx) (''output:'' @ outId) h (outputPathName name outId)"

text \<open>
  \<^verbatim>\<open>envHasRightPath\<close>: in fill-in mode a missing or empty variable is set first, then the variable
  is checked. No caller asks for the deferred variant that only warns.
\<close>

definition envHasRightPath ::
  "bool \<Rightarrow> StoreDirConfig \<Rightarrow> string \<Rightarrow> StorePath \<Rightarrow> (string, string) omap \<Rightarrow> (string, string) omap result" where
  "envHasRightPath fillIn store outputName actual env =
     (let env = (if fillIn then
          (case map_of env outputName of
             None \<Rightarrow> map_emplace outputName (printStorePath store actual) env
           | Some v \<Rightarrow> if v = [] then insert_or_assign outputName (printStorePath store actual) env else env)
        else env)
      in case map_of env outputName of
           None \<Rightarrow> Inl (GenericError ''derivation has missing environment variable'')
         | Some v \<Rightarrow>
             if v \<noteq> printStorePath store actual
             then Inl (GenericError ''derivation has incorrect environment variable'')
             else Inr env)"

record 'j output_state =
  po_drv :: "'j Derivation"
  po_hash :: "DrvHashModulo option"
  po_table :: drv_hashes

text \<open>The hash is computed at most once, from the derivation as it is when an output first needs it.\<close>

definition lazy_hash ::
  "('j Derivation \<Rightarrow> DrvHashModulo hashing) \<Rightarrow> 'j output_state \<Rightarrow> (DrvHashModulo \<times> 'j output_state) result" where
  "lazy_hash hashModulo st = (case po_hash st of
     Some h \<Rightarrow> Inr (h, st)
   | None \<Rightarrow> result_bind (hashModulo (po_drv st) (po_table st)) (\<lambda>(h, table).
       Inr (h, st\<lparr>po_hash := Some h, po_table := table\<rparr>)))"

definition check_env ::
  "bool \<Rightarrow> StoreDirConfig \<Rightarrow> string \<Rightarrow> StorePath \<Rightarrow> 'j output_state \<Rightarrow> 'j output_state result" where
  "check_env fillIn store outputName actual st =
     result_bind (envHasRightPath fillIn store outputName actual (drv_env (po_drv st))) (\<lambda>env.
       Inr (st\<lparr>po_drv := (po_drv st)\<lparr>drv_env := env\<rparr>\<rparr>))"

definition process_output ::
  "bool \<Rightarrow> ('j, 'a) store_ctx_scheme \<Rightarrow> ('j Derivation \<Rightarrow> DrvHashModulo hashing) \<Rightarrow> string \<Rightarrow>
     string \<times> DerivationOutput \<Rightarrow> 'j output_state \<Rightarrow> 'j output_state result" where
  "process_output fillIn ctx hashModulo drvName i st = (case i of (outputName, out) \<Rightarrow> (case out of
     DO_InputAddressed path \<Rightarrow>
       result_bind (lazy_hash hashModulo st) (\<lambda>(h, st). case h of
         DrvHash drvHash \<Rightarrow>
           result_bind (makeOutputPath ctx outputName drvHash drvName) (\<lambda>outPath.
             if path = outPath then check_env fillIn (sc_dir ctx) outputName outPath st
             else Inl (GenericError ''derivation has incorrect output''))
       | CaOutputHashes hs \<Rightarrow> Inl (AssertionFailed ''false'')
       | DeferredDrv \<Rightarrow> Inl (GenericError ''derivation has incorrect output, should be deferred''))
   | DO_Deferred \<Rightarrow>
       result_bind (lazy_hash hashModulo st) (\<lambda>(h, st). case h of
         DrvHash drvHash \<Rightarrow>
           result_bind (makeOutputPath ctx outputName drvHash drvName) (\<lambda>outPath.
             if fillIn then
               check_env fillIn (sc_dir ctx) outputName outPath
                 (st\<lparr>po_drv := (po_drv st)\<lparr>drv_outputs :=
                   insert_or_assign outputName (DO_InputAddressed outPath) (drv_outputs (po_drv st))\<rparr>\<rparr>)
             else Inr st)
       | CaOutputHashes hs \<Rightarrow> Inl (AssertionFailed ''false'')
       | DeferredDrv \<Rightarrow> Inr st)
   | DO_CAFixed ca \<Rightarrow>
       result_bind (CAFixed_path (sc_digest ctx) (sc_xp ctx) (sc_dir ctx) drvName outputName ca) (\<lambda>p.
         check_env fillIn (sc_dir ctx) outputName p st)
   | _ \<Rightarrow> Inr st))"

definition processDerivationOutputPaths ::
  "bool \<Rightarrow> ('j, 'a) store_ctx_scheme \<Rightarrow> ('j Derivation \<Rightarrow> DrvHashModulo hashing) \<Rightarrow> 'j Derivation \<Rightarrow>
     'j Derivation hashing" where
  "processDerivationOutputPaths fillIn ctx hashModulo drv table =
     result_bind (fold_result (process_output fillIn ctx hashModulo (drv_name drv)) (drv_outputs drv)
       \<lparr>po_drv = drv, po_hash = None, po_table = table\<rparr>) (\<lambda>st.
     result_bind (BasicDerivation_type (po_drv st)) (\<lambda>_. Inr (po_drv st, po_table st)))"

definition checkInvariants :: "nat \<Rightarrow> ('j, 'a) store_ctx_scheme \<Rightarrow> 'j Derivation \<Rightarrow> unit hashing" where
  "checkInvariants levels ctx drv table =
     result_bind (processDerivationOutputPaths False ctx (\<lambda>d. hashDerivationModulo levels ctx d True) drv table)
       (\<lambda>(_, table). Inr ((), table))"

definition checkInvariants_path ::
  "nat \<Rightarrow> ('j, 'a) store_ctx_scheme \<Rightarrow> StorePath \<Rightarrow> 'j Derivation \<Rightarrow> unit hashing" where
  "checkInvariants_path levels ctx drvPath drv table =
     result_bind (ensure (isDerivation drvPath) (AssertionFailed ''drvPath.isDerivation()'')) (\<lambda>_.
       let drvName = take (length (StorePath_name drvPath) - length drvExtension) (StorePath_name drvPath) in
       result_bind (ensure (drvName = drv_name drv)
         (GenericError ''derivation has name which does not match its path'')) (\<lambda>_.
         checkInvariants levels ctx drv table))"

definition fillInOutputPaths :: "nat \<Rightarrow> ('j, 'a) store_ctx_scheme \<Rightarrow> 'j Derivation \<Rightarrow> 'j Derivation hashing" where
  "fillInOutputPaths levels ctx drv table =
     processDerivationOutputPaths True ctx (\<lambda>d. hashDerivationModulo levels ctx d True) drv table"

text \<open>After the conversion from JSON: fill in, then check.\<close>

definition fill_and_validate :: "nat \<Rightarrow> ('j, 'a) store_ctx_scheme \<Rightarrow> 'j Derivation \<Rightarrow> 'j Derivation hashing" where
  "fill_and_validate levels ctx drv table =
     result_bind (fillInOutputPaths levels ctx drv table) (\<lambda>(drv, table).
     result_bind (checkInvariants levels ctx drv table) (\<lambda>(_, table). Inr (drv, table)))"

section \<open>The store path of a derivation\<close>

definition infoForDerivation ::
  "('j, 'a) store_ctx_scheme \<Rightarrow> 'j Derivation \<Rightarrow> (string \<times> string \<times> StorePath set \<times> StorePath) result" where
  "infoForDerivation ctx drv =
     (let references = fold (\<lambda>i refs. insert (fst i) refs) (inputDrvs drv) (inputSrcs drv);
          suffix = drv_name drv @ drvExtension in
      result_bind (Derivation_unparse (sc_json ctx) (sc_digest ctx) (sc_xp ctx) (sc_dir ctx) False None drv) (\<lambda>contents.
      result_bind (hash_text ctx contents) (\<lambda>hash.
      result_bind (makeFixedOutputPathFromCA (sc_digest ctx) (sc_xp ctx) (sc_dir ctx) suffix
          (CA_TextInfo \<lparr>ti_hash = hash, ti_references = references\<rparr>)) (\<lambda>path.
        Inr (suffix, contents, references, path)))))"

definition computeStorePath :: "('j, 'a) store_ctx_scheme \<Rightarrow> 'j Derivation \<Rightarrow> StorePath result" where
  "computeStorePath ctx drv = result_bind (infoForDerivation ctx drv) (\<lambda>(_, _, _, path). Inr path)"

section \<open>The masked text\<close>

lemma keys_assign:
  "omap_ok m \<Longrightarrow> map_of m k \<noteq> None \<Longrightarrow> map fst (insert_or_assign k v m) = map fst m"
proof (induction k v m rule: insert_or_assign.induct)
  case (2 k v k' v' m)
  have "k < k' \<Longrightarrow> map_of ((k', v') # m) k = None"
    using omap_ok_not_less [OF 2(2), of k] 2(2) by force
  with 2 show ?case by (auto split: if_splits)
qed simp

lemma keys_emplace: "map fst m = map fst n \<Longrightarrow> map fst (map_emplace k v m) = map fst (map_emplace k v n)"
proof (induction m arbitrary: n)
  case (Cons kv m)
  then obtain w n' where n: "n = (fst kv, w) # n'" "map fst m = map fst n'" by (cases n) auto
  with Cons.IH [OF n(2)] show ?case by (cases kv) simp
qed simp

lemma omap_entries: "omap_ok m \<Longrightarrow> m = map (\<lambda>k. (k, the (map_of m k))) (map fst m)"
proof (induction m)
  case (Cons kv m)
  obtain k v where kv: "kv = (k, v)" by fastforce
  have "\<forall>x\<in>set m. fst x \<noteq> k" using Cons.prems kv by fastforce
  then have "map (\<lambda>x. (x, the (map_of (kv # m) x))) (map fst m) = map (\<lambda>x. (x, the (map_of m x))) (map fst m)"
    by (simp add: kv)
  with Cons kv show ?case by simp
qed simp

lemma map_of_keys: "map fst m = map fst n \<Longrightarrow> map_of m k = None \<longleftrightarrow> map_of n k = None"
  by (metis map_of_eq_None_iff list.set_map)

lemma env_filled:
  assumes "omap_ok env" "envHasRightPath True store n p env = Inr env'"
  shows "omap_ok env'" "map_of env' k = (if k = n then Some (printStorePath store p) else map_of env k)"
    and "map_of env n \<noteq> None \<Longrightarrow> map fst env' = map fst env"
  using assms
  by (auto simp: envHasRightPath_def Let_def omap_ok_emplace omap_ok_assign map_of_emplace map_of_assign keys_assign
      split: option.splits if_splits)

lemma env_checked: "envHasRightPath False store n p env = Inr env \<longleftrightarrow> map_of env n = Some (printStorePath store p)"
  by (auto simp: envHasRightPath_def split: option.splits)

text \<open>The environment as it is printed with the outputs masked: only the values of other variables show.\<close>

lemma unparse_env_masked:
  assumes "omap_ok env" "omap_ok env'" "map fst env' = map fst env"
    and "\<forall>k. map_of outs k = None \<longrightarrow> map_of env' k = map_of env k"
    and "\<forall>k. map_of outs' k = None \<longleftrightarrow> map_of outs k = None"
  shows "unparse_env True outs' env' = unparse_env True outs env"
proof -
  let ?t = "\<lambda>o' (k, v). ''('' @ printString k @ '','' @ printString (if True \<and> map_of o' k \<noteq> None then [] else v) @ '')''"
  have "map (?t outs') env' = map (?t outs') (map (\<lambda>k. (k, the (map_of env' k))) (map fst env))"
    using omap_entries [OF assms(2)] assms(3) by metis
  also have "\<dots> = map (?t outs) (map (\<lambda>k. (k, the (map_of env k))) (map fst env))"
    using assms(4,5) by auto
  also have "\<dots> = map (?t outs) env" using omap_entries [OF assms(1)] by metis
  finally show ?thesis unfolding unparse_env_def by (rule arg_cong)
qed

definition hidden_output :: "DerivationOutput \<Rightarrow> bool" where
  "hidden_output out \<longleftrightarrow> (case out of DO_InputAddressed p \<Rightarrow> True | DO_Deferred \<Rightarrow> True | _ \<Rightarrow> False)"

lemma unparse_output_hidden: "hidden_output (snd i) \<Longrightarrow> unparse_output digest xp store True name i = Inr ([], [], [])"
  by (cases i; cases "snd i") (auto simp: hidden_output_def)

text \<open>Two derivations that differ only in what masking hides.\<close>

definition masked_eq :: "'j Derivation \<Rightarrow> 'j Derivation \<Rightarrow> bool" where
  "masked_eq d d' \<longleftrightarrow> (\<exists>outs env. d' = d\<lparr>drv_outputs := outs, drv_env := env\<rparr> \<and>
     map fst outs = map fst (drv_outputs d) \<and>
     (\<forall>i\<in>set outs \<union> set (drv_outputs d). hidden_output (snd i)) \<and>
     omap_ok env \<and> omap_ok (drv_env d) \<and> map fst env = map fst (drv_env d) \<and>
     (\<forall>k. map_of (drv_outputs d) k = None \<longrightarrow> map_of env k = map_of (drv_env d) k) \<and>
     (\<exists>b. BasicDerivation_type d = Inr (DT_InputAddressed b)) \<and> (\<exists>b. BasicDerivation_type d' = Inr (DT_InputAddressed b)))"

lemma map_result_eq: "map f xs = map g ys \<Longrightarrow> map_result f xs = map_result g ys"
  by (induction xs arbitrary: ys) (auto simp: Cons_eq_map_conv)

lemma masked_unparse:
  assumes "masked_eq d d'"
  shows "Derivation_unparse J digest xp store True (Some inputs) d' = Derivation_unparse J digest xp store True (Some inputs) d"
proof -
  obtain outs env where d': "d' = d\<lparr>drv_outputs := outs, drv_env := env\<rparr>"
    and keys: "map fst outs = map fst (drv_outputs d)" "map fst env = map fst (drv_env d)"
    and hidden: "\<forall>i\<in>set outs \<union> set (drv_outputs d). hidden_output (snd i)"
    and ok: "omap_ok env" "omap_ok (drv_env d)"
    and same: "\<forall>k. map_of (drv_outputs d) k = None \<longrightarrow> map_of env k = map_of (drv_env d) k"
    using assms by (auto simp: masked_eq_def)
  let ?t = "\<lambda>i. result_bind (unparse_output digest xp store True (drv_name d) i) (\<lambda>f. Inr (print_output (fst i) f))"
  have masked: "map ?t outs = map ((\<lambda>n. Inr (print_output n ([], [], []))) \<circ> fst) outs"
    "map ?t (drv_outputs d) = map ((\<lambda>n. Inr (print_output n ([], [], []))) \<circ> fst) (drv_outputs d)"
    using hidden by (auto simp: unparse_output_hidden)
  have "map ?t outs = map ?t (drv_outputs d)" unfolding masked map_map [symmetric] keys ..
  then have outputs: "unparse_outputs digest xp store True (drv_name d) outs =
      unparse_outputs digest xp store True (drv_name d) (drv_outputs d)"
    using map_result_eq [of ?t outs ?t "drv_outputs d"] by (simp add: unparse_outputs_def)
  have absent: "map_of outs k = None \<longleftrightarrow> map_of (drv_outputs d) k = None" for k using map_of_keys [OF keys(1)] .
  have absent_env: "map_of env k = None \<longleftrightarrow> map_of (drv_env d) k = None" for k using map_of_keys [OF keys(2)] .
  have plain: "unparse_env True outs env = unparse_env True (drv_outputs d) (drv_env d)"
    using ok keys same absent by (intro unparse_env_masked) auto
  have attrs: "unparse_env True outs (map_emplace k v env) = unparse_env True (drv_outputs d) (map_emplace k v (drv_env d))" for k v
    using ok same absent absent_env keys_emplace [OF keys(2)]
    by (intro unparse_env_masked) (auto simp: omap_ok_emplace map_of_emplace)
  show ?thesis
    using outputs plain attrs absent_env
    by (simp add: Derivation_unparse_def d' hasDynamicDrvDep_def env_with_attrs_def checkKeyNotInUse_def ensure_def
      StructuredAttrs_unparse_def split: option.split)
qed

text \<open>Hence they have the same masked hash.\<close>

lemma masked_eq_fields:
  assumes "masked_eq d d'"
  shows "inputDrvs d' = inputDrvs d" "\<exists>b. BasicDerivation_type d = Inr (DT_InputAddressed b)"
    "\<exists>b. BasicDerivation_type d' = Inr (DT_InputAddressed b)"
  using assms by (auto simp: masked_eq_def)

lemma masked_step:
  assumes "masked_eq d d'"
  shows "hash_modulo_step ctx pm d' True c = hash_modulo_step ctx pm d True c"
  using masked_eq_fields [OF assms] masked_unparse [OF assms, of "sc_json ctx" "sc_digest ctx" "sc_xp ctx" "sc_dir ctx"]
  by (auto simp: hash_modulo_step_def cong: option.case_cong)

lemma masked_plain: "masked_eq d d' \<Longrightarrow> plain_modulo n ctx d' True = plain_modulo n ctx d True"
  by (cases n) (simp_all add: masked_step)

section \<open>The interface between hashing and output paths\<close>

text \<open>
  What filling in and checking rely on: hashing keeps the table consistent, refuses derivations without a
  type, and gives derivations that differ only in what masking hides the same hash, with any consistent table.
\<close>

locale masked_hashing =
  fixes hm :: "nat \<Rightarrow> 'j Derivation \<Rightarrow> DrvHashModulo hashing" and ok :: "drv_hashes \<Rightarrow> bool"
  assumes hm_ok: "ok c \<Longrightarrow> hm n d c = Inr (h, c') \<Longrightarrow> ok c'"
    and hm_type: "hm n d c = Inr (h, c') \<Longrightarrow> \<exists>ty. BasicDerivation_type d = Inr ty"
    and hm_stable: "ok c \<Longrightarrow> hm n d c = Inr (h, c') \<Longrightarrow> masked_eq d d' \<Longrightarrow> ok e \<Longrightarrow>
      \<exists>m e'. hm m d' e = Inr (h, e')"

interpretation masked: masked_hashing "\<lambda>n d. hashDerivationModulo n ctx d True" "hashes_ok ctx" for ctx
proof
  fix c n h c' and d :: "'a Derivation"
  assume run: "hashDerivationModulo n ctx d True c = Inr (h, c')"
  then obtain k where "n = Suc k" by (cases n) auto
  with run show "\<exists>ty. BasicDerivation_type d = Inr ty" by (auto simp: hash_modulo_step_def result_simps)
  assume ok: "hashes_ok ctx c"
  then show "hashes_ok ctx c'" using hashed_sound [OF ok run] by blast
  fix d' e assume d': "masked_eq d d'" and e: "hashes_ok ctx e"
  obtain m where "plain_modulo m ctx d True = Inr h" using hashed_sound [OF ok run] by blast
  then have "plain_modulo m ctx d' True = Inr h" by (simp add: masked_plain [OF d'])
  from hashed_complete [OF e this] show "\<exists>m e'. hashDerivationModulo m ctx d' True e = Inr (h, e')" by blast
qed

section \<open>Filling in makes the check succeed\<close>

definition needs_hash :: "DerivationOutput \<Rightarrow> bool" where
  "needs_hash out \<longleftrightarrow> hidden_output out"

text \<open>An output that the check accepts, once the hash is known.\<close>

definition output_fine ::
  "('j, 'a) store_ctx_scheme \<Rightarrow> string \<Rightarrow> DrvHashModulo option \<Rightarrow> (string, string) omap \<Rightarrow> string \<times> DerivationOutput \<Rightarrow> bool" where
  "output_fine ctx name h env i = (case snd i of
     DO_InputAddressed p \<Rightarrow> (\<exists>dh. h = Some (DrvHash dh) \<and> makeOutputPath ctx (fst i) dh name = Inr p \<and>
       map_of env (fst i) = Some (printStorePath (sc_dir ctx) p))
   | DO_CAFixed ca \<Rightarrow> (\<exists>p. CAFixed_path (sc_digest ctx) (sc_xp ctx) (sc_dir ctx) name (fst i) ca = Inr p \<and>
       map_of env (fst i) = Some (printStorePath (sc_dir ctx) p))
   | DO_Deferred \<Rightarrow> h = Some DeferredDrv
   | _ \<Rightarrow> True)"

lemma check_env_fine:
  "map_of (drv_env (po_drv st)) n = Some (printStorePath store p) \<Longrightarrow> check_env False store n p st = Inr st"
  using env_checked [of store n p "drv_env (po_drv st)"] by (simp add: check_env_def)

lemma process_fine:
  assumes "output_fine ctx name (po_hash st) (drv_env (po_drv st)) i"
  shows "process_output False ctx H name i st = Inr st"
  using assms
  by (cases i; cases "snd i") (auto simp: output_fine_def process_output_def lazy_hash_def check_env_fine)

lemma fold_result_id: "(\<And>x. x \<in> set xs \<Longrightarrow> f x s = Inr s) \<Longrightarrow> fold_result f xs s = Inr s"
  by (induction xs) auto

lemma process_after_hash:
  assumes "needs_hash (snd i)" "po_hash st = None" "H (po_drv st) (po_table st) = Inr (h, c)"
  shows "process_output fillIn ctx H name i st = process_output fillIn ctx H name i (st\<lparr>po_hash := Some h, po_table := c\<rparr>)"
  using assms
  by (cases i; cases "snd i")
    (auto simp: needs_hash_def hidden_output_def process_output_def lazy_hash_def)

text \<open>The loop of the filling in, once the hash is known and there are only outputs that need it.\<close>

lemma fill_loop:
  assumes "fold_result (process_output True ctx H name) todo st = Inr st'"
    and "po_hash st = Some (DrvHash dh)" "distinct (map fst todo)"
    and "\<forall>i\<in>set todo. needs_hash (snd i) \<and> map_of outs (fst i) = Some (snd i) \<and> map_of env (fst i) \<noteq> None"
    and "po_drv st = d\<lparr>drv_outputs := outs, drv_env := env\<rparr>" "omap_ok outs" "omap_ok env"
  shows "\<exists>outs' env'. st' = st\<lparr>po_drv := d\<lparr>drv_outputs := outs', drv_env := env'\<rparr>\<rparr> \<and> omap_ok outs' \<and> omap_ok env' \<and>
    map fst outs' = map fst outs \<and> map fst env' = map fst env \<and>
    (\<forall>k. k \<notin> fst ` set todo \<longrightarrow> map_of outs' k = map_of outs k \<and> map_of env' k = map_of env k) \<and>
    (\<forall>i\<in>set todo. \<exists>p. map_of outs' (fst i) = Some (DO_InputAddressed p) \<and> makeOutputPath ctx (fst i) dh name = Inr p \<and>
       map_of env' (fst i) = Some (printStorePath (sc_dir ctx) p))"
  using assms
proof (induction todo arbitrary: st outs env)
  case Nil
  then show ?case by (intro exI [of _ outs] exI [of _ env]) auto
next
  case (Cons i todo)
  obtain n out where i: "i = (n, out)" by fastforce
  have n: "map_of outs n = Some out" "map_of env n \<noteq> None" "needs_hash out" using Cons.prems(4) by (auto simp: i)
  obtain st1 where st1: "process_output True ctx H name i st = Inr st1"
    "fold_result (process_output True ctx H name) todo st1 = Inr st'" using Cons.prems(1) by (auto simp: result_simps)
  obtain p env1 where p: "makeOutputPath ctx n dh name = Inr p" "envHasRightPath True (sc_dir ctx) n p env = Inr env1"
    "st1 = st\<lparr>po_drv := d\<lparr>drv_outputs := insert_or_assign n (DO_InputAddressed p) outs, drv_env := env1\<rparr>\<rparr>"
  proof (cases out)
    case (DO_InputAddressed q)
    then obtain p env1 where *: "makeOutputPath ctx n dh name = Inr p" "q = p"
      "envHasRightPath True (sc_dir ctx) n p env = Inr env1" "st1 = st\<lparr>po_drv := d\<lparr>drv_outputs := outs, drv_env := env1\<rparr>\<rparr>"
      using st1(1) Cons.prems(2,5)
      by (auto simp: i process_output_def lazy_hash_def check_env_def result_simps split: if_splits)
    have "insert_or_assign n (DO_InputAddressed p) outs = outs"
      using n(1) DO_InputAddressed *(2) Cons.prems(6)
      by (intro omap_ext) (auto simp: omap_ok_assign map_of_assign fun_eq_iff)
    with * show thesis by (intro that) auto
  next
    case DO_Deferred
    with st1(1) Cons.prems(2,5) show thesis
      by (auto simp: i process_output_def lazy_hash_def check_env_def result_simps intro!: that)
  qed (use n(3) in \<open>auto simp: needs_hash_def hidden_output_def\<close>)
  note env1 = env_filled [OF Cons.prems(7) p(2)]
  have fresh: "n \<notin> fst ` set todo" using Cons.prems(3) by (auto simp: i)
  have keys: "map fst (insert_or_assign n (DO_InputAddressed p) outs) = map fst outs" "map fst env1 = map fst env"
    using keys_assign [OF Cons.prems(6), of n] n env1(3) by auto
  have "\<forall>j\<in>set todo. needs_hash (snd j) \<and> map_of (insert_or_assign n (DO_InputAddressed p) outs) (fst j) = Some (snd j) \<and>
      map_of env1 (fst j) \<noteq> None"
    using Cons.prems(4,6) fresh by (auto simp: map_of_assign env1(2))
  from Cons.IH [OF st1(2) _ _ this _ omap_ok_assign [OF Cons.prems(6)] env1(1)] Cons.prems(2,3,5) p(3)
  obtain outs' env' where IH: "st' = st1\<lparr>po_drv := d\<lparr>drv_outputs := outs', drv_env := env'\<rparr>\<rparr>" "omap_ok outs'" "omap_ok env'"
    "map fst outs' = map fst outs" "map fst env' = map fst env"
    "\<forall>k. k \<notin> fst ` set todo \<longrightarrow> map_of outs' k = map_of (insert_or_assign n (DO_InputAddressed p) outs) k \<and>
       map_of env' k = map_of env1 k"
    "\<forall>i\<in>set todo. \<exists>p. map_of outs' (fst i) = Some (DO_InputAddressed p) \<and> makeOutputPath ctx (fst i) dh name = Inr p \<and>
       map_of env' (fst i) = Some (printStorePath (sc_dir ctx) p)"
    using keys by auto
  have "map_of outs' n = Some (DO_InputAddressed p)" "map_of env' n = Some (printStorePath (sc_dir ctx) p)"
    using IH(6) fresh Cons.prems(6) by (auto simp: map_of_assign env1(2))
  then show ?case
    using IH p Cons.prems(6)
    by (intro exI [of _ outs'] exI [of _ env']) (auto simp: i map_of_assign env1(2))
qed

lemma type_cong:
  fixes d d' :: "('j, 'a) BasicDerivation_scheme"
  shows "drv_outputs d = drv_outputs d' \<Longrightarrow> BasicDerivation_type d = BasicDerivation_type d'"
  by (simp add: BasicDerivation_type_def)

lemma type_outputs: "BasicDerivation_type d = Inr ty \<Longrightarrow> i \<in> set (drv_outputs d) \<Longrightarrow> output_type (snd i) = ty"
  by (auto simp: type_uniform uniform_outputs_def)

lemma needs_hash_type: "needs_hash out \<longleftrightarrow> (\<exists>b. output_type out = DT_InputAddressed b)"
  by (cases out) (auto simp: needs_hash_def hidden_output_def)

lemma masked_eq_refl:
  "BasicDerivation_type d = Inr (DT_InputAddressed b) \<Longrightarrow> omap_ok (drv_env d) \<Longrightarrow> masked_eq d d"
  using type_outputs [of d "DT_InputAddressed b"] needs_hash_type
  by (auto simp: masked_eq_def needs_hash_def intro!: exI [of _ "drv_outputs d"] exI [of _ "drv_env d"])

lemma check_succeeds:
  assumes "hm drv c = Inr (h, c')" "\<forall>i\<in>set (drv_outputs drv). needs_hash (snd i) \<and> output_fine ctx (drv_name drv) (Some h) (drv_env drv) i"
    and "BasicDerivation_type drv = Inr ty"
  shows "processDerivationOutputPaths False ctx hm drv c = Inr (drv, c')"
proof -
  let ?f = "process_output False ctx hm (drv_name drv)"
  let ?st = "\<lparr>po_drv = drv, po_hash = Some h, po_table = c'\<rparr>"
  obtain i rest where outs: "drv_outputs drv = i # rest"
    using assms(3) by (cases "drv_outputs drv") (auto simp: type_uniform uniform_outputs_def)
  have fine: "?f j ?st = Inr ?st" if "j \<in> set (drv_outputs drv)" for j
    using assms(2) that by (intro process_fine) auto
  have "?f i \<lparr>po_drv = drv, po_hash = None, po_table = c\<rparr> = ?f i ?st"
    using assms(1,2) outs process_after_hash [of i "\<lparr>po_drv = drv, po_hash = None, po_table = c\<rparr>" hm h c'] by simp
  with fine have "fold_result ?f (drv_outputs drv) \<lparr>po_drv = drv, po_hash = None, po_table = c\<rparr> = Inr ?st"
    by (simp add: outs fold_result_id)
  with assms(3) show ?thesis by (simp add: processDerivationOutputPaths_def)
qed

context masked_hashing
begin

lemma type_before:
  assumes "processDerivationOutputPaths True ctx (hm n) drv c = Inr (drv', c')"
  shows "\<exists>ty. BasicDerivation_type drv = Inr ty"
proof -
  obtain st ty where st: "fold_result (process_output True ctx (hm n) (drv_name drv)) (drv_outputs drv)
      \<lparr>po_drv = drv, po_hash = None, po_table = c\<rparr> = Inr st" "BasicDerivation_type (po_drv st) = Inr ty"
    using assms by (auto simp: processDerivationOutputPaths_def result_simps)
  let ?I = "\<lambda>s. (po_hash s = None \<and> drv_outputs (po_drv s) = drv_outputs drv) \<or> (\<exists>ty. BasicDerivation_type drv = Inr ty)"
  have "?I st"
  proof (rule fold_result_invariant [OF st(1)])
    fix i s s' assume s: "?I s" "process_output True ctx (hm n) (drv_name drv) i s = Inr s'"
    show "?I s'"
    proof (cases "\<exists>ty. BasicDerivation_type drv = Inr ty")
      case False
      then have "\<not> (\<exists>h c'. hm n (po_drv s) (po_table s) = Inr (h, c'))"
        using s(1) hm_type type_cong by metis
      with s False show ?thesis
        by (cases i; cases "snd i")
          (auto simp: process_output_def lazy_hash_def check_env_def result_simps)
    qed simp
  qed simp
  with st(2) type_cong show ?thesis by metis
qed

text \<open>With outputs that need it, the hash is computed first, from the derivation as it was passed in.\<close>

lemma fill_hash_first:
  assumes fold: "fold_result (process_output True ctx (hm n) (drv_name drv)) (drv_outputs drv)
      \<lparr>po_drv = drv, po_hash = None, po_table = c\<rparr> = Inr st"
    and needs: "\<forall>j\<in>set (drv_outputs drv). needs_hash (snd j)" and outs: "drv_outputs drv = i # rest"
  obtains h c1 where "hm n drv c = Inr (h, c1)"
    "fold_result (process_output True ctx (hm n) (drv_name drv)) (drv_outputs drv)
      \<lparr>po_drv = drv, po_hash = Some h, po_table = c1\<rparr> = Inr st"
proof (cases "hm n drv c")
  case (Inl e)
  then have "process_output True ctx (hm n) (drv_name drv) i \<lparr>po_drv = drv, po_hash = None, po_table = c\<rparr> = Inl e"
    using needs outs by (cases i; cases "snd i") (auto simp: process_output_def lazy_hash_def needs_hash_def hidden_output_def)
  with fold outs show thesis by simp
next
  case (Inr hc)
  obtain h c1 where hc: "hc = (h, c1)" by fastforce
  have "process_output True ctx (hm n) (drv_name drv) i \<lparr>po_drv = drv, po_hash = None, po_table = c\<rparr> =
      process_output True ctx (hm n) (drv_name drv) i \<lparr>po_drv = drv, po_hash = Some h, po_table = c1\<rparr>"
    using needs outs Inr hc process_after_hash [of i "\<lparr>po_drv = drv, po_hash = None, po_table = c\<rparr>" "hm n" h c1] by simp
  with Inr hc fold outs show thesis by (intro that) auto
qed

lemma check_hashed:
  assumes ok: "ok c" and run: "hm n drv c = Inr (DrvHash dh, c1)"
    and loop: "fold_result (process_output True ctx (hm n) (drv_name drv)) (drv_outputs drv)
      \<lparr>po_drv = drv, po_hash = Some (DrvHash dh), po_table = c1\<rparr> = Inr st"
    and needs: "\<forall>j\<in>set (drv_outputs drv). needs_hash (snd j) \<and> map_of (drv_env drv) (fst j) \<noteq> None"
    and oks: "omap_ok (drv_outputs drv)" "omap_ok (drv_env drv)"
    and ty: "BasicDerivation_type drv = Inr (DT_InputAddressed b)" "BasicDerivation_type (po_drv st) = Inr ty'"
  shows "\<exists>m c''. processDerivationOutputPaths False ctx (hm m) (po_drv st) (po_table st) = Inr (po_drv st, c'')"
proof -
  let ?outs = "drv_outputs drv"
  have dist: "distinct (map fst ?outs)" using oks by (simp add: omap_ok_def strict_sorted_iff)
  then have "\<forall>i\<in>set ?outs. needs_hash (snd i) \<and> map_of ?outs (fst i) = Some (snd i) \<and> map_of (drv_env drv) (fst i) \<noteq> None"
    using needs by (auto intro: map_of_is_SomeI)
  from fill_loop [OF loop _ dist this _ oks, of dh drv]
  obtain outs' env' where st: "st = \<lparr>po_drv = drv\<lparr>drv_outputs := outs', drv_env := env'\<rparr>, po_hash = Some (DrvHash dh), po_table = c1\<rparr>"
    and r: "omap_ok outs'" "omap_ok env'" "map fst outs' = map fst ?outs" "map fst env' = map fst (drv_env drv)"
      "\<forall>k. k \<notin> fst ` set ?outs \<longrightarrow> map_of env' k = map_of (drv_env drv) k"
    and paths: "\<forall>i\<in>set ?outs. \<exists>p. map_of outs' (fst i) = Some (DO_InputAddressed p) \<and>
         makeOutputPath ctx (fst i) dh (drv_name drv) = Inr p \<and>
         map_of env' (fst i) = Some (printStorePath (sc_dir ctx) p)" by auto
  define drv' where "drv' = drv\<lparr>drv_outputs := outs', drv_env := env'\<rparr>"
  have fst_eq: "fst ` set outs' = fst ` set ?outs" using r(3) by (metis list.set_map)
  have out': "\<exists>p. snd j = DO_InputAddressed p \<and> makeOutputPath ctx (fst j) dh (drv_name drv) = Inr p \<and>
      map_of env' (fst j) = Some (printStorePath (sc_dir ctx) p)" if j: "j \<in> set outs'" for j
  proof -
    have "distinct (map fst outs')" using r(1) by (simp add: omap_ok_def strict_sorted_iff)
    then have "map_of outs' (fst j) = Some (snd j)" using j by (auto intro: map_of_is_SomeI)
    moreover obtain k where "k \<in> set ?outs" "fst k = fst j" using fst_eq j by (metis image_iff)
    ultimately show ?thesis using paths by force
  qed
  have ty'': "BasicDerivation_type drv' = Inr ty'" using ty(2) by (simp add: st drv'_def)
  have hidden: "\<forall>j\<in>set outs'. hidden_output (snd j)" using out' by (fastforce simp: hidden_output_def)
  have "ty' = DT_InputAddressed False"
    using type_outputs [OF ty''] ty'' out' by (cases outs') (fastforce simp: drv'_def type_uniform uniform_outputs_def)+
  with ty'' have "masked_eq drv drv'"
    unfolding masked_eq_def using r hidden needs ty(1) oks
    by (intro exI [of _ outs'] exI [of _ env']) (auto simp: drv'_def map_of_eq_None_iff needs_hash_def)
  from hm_stable [OF ok run this hm_ok [OF ok run]] obtain m e where m: "hm m drv' c1 = Inr (DrvHash dh, e)" by blast
  have "\<forall>j\<in>set (drv_outputs drv'). needs_hash (snd j) \<and> output_fine ctx (drv_name drv') (Some (DrvHash dh)) (drv_env drv') j"
    using out' hidden by (fastforce simp: drv'_def needs_hash_def output_fine_def)
  from check_succeeds [where hm = "hm m", OF m this ty''] show ?thesis by (auto simp: st drv'_def)
qed

lemma check_deferred:
  assumes ok: "ok c" and run: "hm n drv c = Inr (DeferredDrv, c1)"
    and loop: "fold_result (process_output True ctx (hm n) (drv_name drv)) (drv_outputs drv)
      \<lparr>po_drv = drv, po_hash = Some DeferredDrv, po_table = c1\<rparr> = Inr st"
    and needs: "\<forall>j\<in>set (drv_outputs drv). needs_hash (snd j)" and env: "omap_ok (drv_env drv)"
    and ty: "BasicDerivation_type drv = Inr (DT_InputAddressed b)" and outs: "drv_outputs drv = i # rest"
  shows "\<exists>m c''. processDerivationOutputPaths False ctx (hm m) (po_drv st) (po_table st) = Inr (po_drv st, c'')"
proof -
  have "snd i = DO_Deferred"
    using loop outs needs
    by (cases i; cases "snd i") (auto simp: process_output_def lazy_hash_def needs_hash_def hidden_output_def)
  then have b: "b" using type_outputs [OF ty, of i] outs by auto
  have deferred: "snd j = DO_Deferred" if "j \<in> set (drv_outputs drv)" for j
    using type_outputs [OF ty that] b by (cases "snd j") auto
  have "fold_result (process_output True ctx (hm n) (drv_name drv)) (drv_outputs drv)
      \<lparr>po_drv = drv, po_hash = Some DeferredDrv, po_table = c1\<rparr> = Inr \<lparr>po_drv = drv, po_hash = Some DeferredDrv, po_table = c1\<rparr>"
    by (intro fold_result_id) (auto simp: process_output_def lazy_hash_def dest!: deferred)
  with loop have st: "st = \<lparr>po_drv = drv, po_hash = Some DeferredDrv, po_table = c1\<rparr>" by simp
  from hm_stable [OF ok run masked_eq_refl [OF ty env] hm_ok [OF ok run]]
  obtain m e where m: "hm m drv c1 = Inr (DeferredDrv, e)" by blast
  have "\<forall>j\<in>set (drv_outputs drv). needs_hash (snd j) \<and> output_fine ctx (drv_name drv) (Some DeferredDrv) (drv_env drv) j"
    using deferred needs by (auto simp: output_fine_def)
  from check_succeeds [where hm = "hm m", OF m this ty] st show ?thesis by auto
qed

lemma check_without_hash:
  assumes loop: "fold_result (process_output True ctx (hm n) (drv_name drv)) (drv_outputs drv)
      \<lparr>po_drv = drv, po_hash = None, po_table = c\<rparr> = Inr st"
    and env: "omap_ok (drv_env drv)" and ty: "BasicDerivation_type drv = Inr ty" "\<nexists>b. ty = DT_InputAddressed b"
    and ty': "BasicDerivation_type (po_drv st) = Inr ty'"
  shows "\<exists>m c''. processDerivationOutputPaths False ctx (hm m) (po_drv st) (po_table st) = Inr (po_drv st, c'')"
proof -
  define drv' where "drv' = po_drv st"
  have fine: "drv_name drv' = drv_name drv \<and> (\<forall>j\<in>set (drv_outputs drv'). output_fine ctx (drv_name drv') None (drv_env drv') j)"
  proof (cases "ty = DT_ContentAddressed False True")
    case True
    then obtain out where out: "drv_outputs drv = [(''out'', out)]" using ty by (auto simp: type_uniform uniform_outputs_def)
    then obtain ca where ca: "out = DO_CAFixed ca" using type_outputs [OF ty(1), of "(''out'', out)"] True by (cases out) auto
    with loop out show ?thesis
      by (auto simp: drv'_def process_output_def check_env_def result_simps output_fine_def env_filled(2) [OF env])
  next
    case False
    have kinds: "(\<exists>m a. snd j = DO_CAFloating m a) \<or> (\<exists>m a. snd j = DO_Impure m a)" if "j \<in> set (drv_outputs drv)" for j
      using type_outputs [OF ty(1) that] False ty(2) by (cases "snd j") auto
    then have "fold_result (process_output True ctx (hm n) (drv_name drv)) (drv_outputs drv)
        \<lparr>po_drv = drv, po_hash = None, po_table = c\<rparr> = Inr \<lparr>po_drv = drv, po_hash = None, po_table = c\<rparr>"
      by (intro fold_result_id) (fastforce simp: process_output_def)
    with loop kinds show ?thesis by (fastforce simp: drv'_def output_fine_def)
  qed
  have "fold_result (process_output False ctx (hm n) (drv_name drv')) (drv_outputs drv')
      \<lparr>po_drv = drv', po_hash = None, po_table = po_table st\<rparr> = Inr \<lparr>po_drv = drv', po_hash = None, po_table = po_table st\<rparr>"
    using fine by (intro fold_result_id process_fine) auto
  with ty' have "processDerivationOutputPaths False ctx (hm n) drv' (po_table st) = Inr (drv', po_table st)"
    by (simp add: processDerivationOutputPaths_def drv'_def)
  then show ?thesis unfolding drv'_def by blast
qed

lemma fill_then_check:
  assumes ok: "ok c" and fill: "processDerivationOutputPaths True ctx (hm n) drv c = Inr (drv', c')"
    and oks: "omap_ok (drv_outputs drv)" "omap_ok (drv_env drv)"
    and present: "\<forall>i\<in>set (drv_outputs drv). needs_hash (snd i) \<longrightarrow> map_of (drv_env drv) (fst i) \<noteq> None"
  shows "\<exists>m c''. processDerivationOutputPaths False ctx (hm m) drv' c' = Inr (drv', c'')"
proof -
  obtain ty where ty: "BasicDerivation_type drv = Inr ty" using type_before [OF fill] by blast
  obtain st ty' where fold: "fold_result (process_output True ctx (hm n) (drv_name drv)) (drv_outputs drv)
      \<lparr>po_drv = drv, po_hash = None, po_table = c\<rparr> = Inr st"
    and st: "drv' = po_drv st" "c' = po_table st" "BasicDerivation_type (po_drv st) = Inr ty'"
    using fill by (auto simp: processDerivationOutputPaths_def result_simps)
  show ?thesis
  proof (cases "\<exists>b. ty = DT_InputAddressed b")
    case True
    then obtain b where b: "BasicDerivation_type drv = Inr (DT_InputAddressed b)" using ty by blast
    obtain i rest where outs: "drv_outputs drv = i # rest"
      using ty by (cases "drv_outputs drv") (auto simp: type_uniform uniform_outputs_def)
    have needs: "\<forall>j\<in>set (drv_outputs drv). needs_hash (snd j)" using type_outputs [OF b] needs_hash_type by blast
    obtain h c1 where run: "hm n drv c = Inr (h, c1)"
      and loop: "fold_result (process_output True ctx (hm n) (drv_name drv)) (drv_outputs drv)
        \<lparr>po_drv = drv, po_hash = Some h, po_table = c1\<rparr> = Inr st"
      using fill_hash_first [OF fold needs outs] by blast
    show ?thesis
    proof (cases h)
      case (DrvHash dh)
      with check_hashed [OF ok, of n drv dh c1 ctx st b ty'] run loop needs present oks b st show ?thesis by simp
    next
      case (CaOutputHashes hs)
      with loop outs needs show ?thesis
        by (cases i; cases "snd i") (auto simp: process_output_def lazy_hash_def needs_hash_def hidden_output_def)
    next
      case DeferredDrv
      with check_deferred [OF ok, of n drv c1 ctx st b i rest] run loop needs oks b outs st show ?thesis by simp
    qed
  qed (use check_without_hash [OF fold oks(2) ty _ st(3)] st in simp)
qed

end

text \<open>
  C19: Filling in makes the check succeed: whenever \<^verbatim>\<open>fillInOutputPaths\<close> returns and the environment
  already had a variable for every input-addressed or deferred output, \<^verbatim>\<open>checkInvariants\<close>
  accepts the derivation it returns, whatever its outputs are, however far the table of
  hashes was filled, and although the check computes the hash anew from the derivation with
  the paths filled in.
\<close>

theorem fill_in_then_check:
  assumes "hashes_ok ctx table" "fillInOutputPaths levels ctx drv table = Inr (drv', table')"
    and "omap_ok (drv_outputs drv)" "omap_ok (drv_env drv)"
    and "\<forall>i\<in>set (drv_outputs drv). needs_hash (snd i) \<longrightarrow> map_of (drv_env drv) (fst i) \<noteq> None"
  shows "\<exists>levels' table''. checkInvariants levels' ctx drv' table' = Inr ((), table'')"
proof -
  obtain m c where "processDerivationOutputPaths False ctx (\<lambda>d. hashDerivationModulo m ctx d True) drv' table' = Inr (drv', c)"
    using masked.fill_then_check [OF assms(1) assms(2) [unfolded fillInOutputPaths_def] assms(3,4,5)] by blast
  then show ?thesis by (auto simp: checkInvariants_def intro!: exI [of _ m])
qed

definition deferred_drv :: "(string, string) omap \<Rightarrow> string Derivation" where
  "deferred_drv env = \<lparr>drv_outputs = [(''out'', DO_Deferred)], inputSrcs = {}, platform = ''x'', builder = ''x'',
     drv_args = [], drv_env = env, structuredAttrs = None, drv_name = ''x'', inputDrvs = []\<rparr>"

lemma hash_text_Inr: "\<exists>h. hash_text ctx s = Inr h \<and> (\<exists>t. Hash_to_string h Base16 True = Inr t)"
  by (simp add: hash_text_def hashString_def Hash_new_def Let_def Hash_to_string_def maxHashSize_def)

lemma makeOutputPath_Inr:
  assumes "hash_text ctx s = Inr h" "valid_name (outputPathName name n)"
  shows "\<exists>p. makeOutputPath ctx n h name = Inr p"
proof -
  obtain t where t: "Hash_to_string h Base16 True = Inr t" using hash_text_Inr [of ctx s] assms(1) by auto
  obtain d where "makeStorePath (sc_digest ctx) (sc_xp ctx) (sc_dir ctx) (''output:'' @ n) t (outputPathName name n) =
      result_bind (checkPathName (BaseNix32_encode d @ ''-'' @ outputPathName name n) (outputPathName name n))
        (\<lambda>_. Inr (StorePath (BaseNix32_encode d @ ''-'' @ outputPathName name n)))"
    using makeStorePath_eq [of "sc_digest ctx" "sc_xp ctx" "sc_dir ctx" "''output:'' @ n" t "outputPathName name n"] by blast
  moreover have "checkPathName (BaseNix32_encode d @ ''-'' @ outputPathName name n) (outputPathName name n) = Inr ()"
    using assms(2) checkPathName_iff by blast
  ultimately show ?thesis using t by (simp add: makeOutputPath_def makeStorePath_hash_def)
qed

definition masked_text :: "string \<Rightarrow> string" where
  "masked_text env = ''Derive([('' @ printUnquotedString ''out'' @ '','' @ printUnquotedString [] @ '','' @
     printUnquotedString [] @ '','' @ printUnquotedString [] @ '')],[],[],'' @ printUnquotedString ''x'' @ '','' @
     printString ''x'' @ '',[],['' @ env @ ''])''"

abbreviation filled_drv :: "StorePath \<Rightarrow> string \<Rightarrow> string Derivation" where
  "filled_drv p v \<equiv> (deferred_drv [(''out'', v)])\<lparr>drv_outputs := [(''out'', DO_InputAddressed p)]\<rparr>"

lemmas unparse_defs = Derivation_unparse_def deferred_drv_def hasDynamicDrvDep_def unparse_outputs_def print_output_def
  env_with_attrs_def checkKeyNotInUse_def envVarName_def comma_separated_def printStorePathSet_def printStrings_def
  printUnquotedStrings_def unparse_env_def masked_text_def Let_def

lemma deferred_hash:
  "hashDerivationModulo (Suc n) ctx (deferred_drv []) True c =
     result_bind (hash_text ctx (masked_text [])) (\<lambda>h. Inr (DrvHash h, c))"
  by (simp add: hash_modulo_step_def BasicDerivation_type_def decide_def unparse_defs)

lemma filled_hash:
  "hashDerivationModulo (Suc n) ctx (filled_drv p v) True c =
     result_bind (hash_text ctx (masked_text (''('' @ printString ''out'' @ '','' @ printString [] @ '')''))) (\<lambda>h. Inr (DrvHash h, c))"
  by (simp add: hash_modulo_step_def BasicDerivation_type_def decide_def unparse_defs)


lemma present_hash:
  "hashDerivationModulo (Suc n) ctx (deferred_drv [(''out'', v)]) True c =
     result_bind (hash_text ctx (masked_text (''('' @ printString ''out'' @ '','' @ printString [] @ '')''))) (\<lambda>h. Inr (DrvHash h, c))"
  by (simp add: hash_modulo_step_def BasicDerivation_type_def decide_def unparse_defs)

theorem fill_in_then_check_witness:
  "\<exists>drv' levels' table''. fillInOutputPaths (Suc 0) sample_ctx (deferred_drv [(''out'', [])]) Map.empty = Inr (drv', Map.empty) \<and>
     checkInvariants levels' sample_ctx drv' Map.empty = Inr ((), table'')"
proof -
  have name: "valid_name (outputPathName ''x'' ''out'')" by (simp add: outputPathName_def) code_simp
  obtain h where h: "hash_text sample_ctx (masked_text (''('' @ printString ''out'' @ '','' @ printString [] @ '')'')) = Inr h"
    using hash_text_Inr by metis
  obtain p where p: "makeOutputPath sample_ctx ''out'' h ''x'' = Inr p" using makeOutputPath_Inr [OF h name] by blast
  have "hashDerivationModulo (Suc 0) sample_ctx (deferred_drv [(''out'', [])]) True Map.empty = Inr (DrvHash h, Map.empty)"
    using h by (simp add: present_hash del: hashDerivationModulo.simps)
  then have "\<exists>drv'. fillInOutputPaths (Suc 0) sample_ctx (deferred_drv [(''out'', [])]) Map.empty = Inr (drv', Map.empty)"
    using p by (simp add: fillInOutputPaths_def processDerivationOutputPaths_def process_output_def lazy_hash_def check_env_def
      envHasRightPath_def BasicDerivation_type_def decide_def deferred_drv_def del: hashDerivationModulo.simps)
  then obtain drv' where fill: "fillInOutputPaths (Suc 0) sample_ctx (deferred_drv [(''out'', [])]) Map.empty = Inr (drv', Map.empty)"
    by blast
  have "hashes_ok sample_ctx Map.empty" by (simp add: hashes_ok_def)
  from fill_in_then_check [OF this fill] fill show ?thesis by (simp add: deferred_drv_def)
qed

end
