(* ===== verification/Common_Proto.thy ===== *)
theory Common_Proto
  imports Derivation
begin

text \<open>
  Values on the wire (\<^verbatim>\<open>libstore/common-protocol.cc\<close>, \<^verbatim>\<open>length-prefixed-protocol-helper.hh\<close>,
  \<^verbatim>\<open>build-result.hh\<close>) and the binary form of derivations (\<^verbatim>\<open>libstore/derivations.cc\<close>). The contract
  \<open>wire\<close> is weaker than that of a serialiser of the byte format: what is written is read
  back, but a set or a map may have other encodings that read as the same value.
\<close>

section \<open>The contract\<close>

locale wire =
  fixes wr :: "'a \<Rightarrow> string result" and rd :: "'a reader" and legal :: "'a \<Rightarrow> bool"
  assumes wire_read: "legal x \<Longrightarrow> \<exists>s. wr x = Inr s \<and> (\<forall>rest. rd (s @ rest) = Inr (x, rest))"
begin

lemma wire_unique:
  assumes "legal x" "legal y" "wr x = Inr s" "wr y = Inr (s @ t)"
  shows "x = y \<and> t = []"
proof -
  have "\<forall>rest. rd (s @ rest) = Inr (x, rest)" "\<forall>rest. rd ((s @ t) @ rest) = Inr (y, rest)"
    using wire_read [OF assms(1)] wire_read [OF assms(2)] assms(3,4) by auto
  from this(1) [rule_format, of "t"] this(2) [rule_format, of "[]"] show ?thesis by simp
qed

end

text \<open>Every serialiser of the byte format satisfies it.\<close>

sublocale serialiser \<subseteq> wire "\<lambda>x. Inr (enc x)" dec legal
  by unfold_locales (simp add: read_write)

section \<open>Collections\<close>

fun read_items :: "nat \<Rightarrow> 'a reader \<Rightarrow> ('a \<Rightarrow> 'b \<Rightarrow> 'b) \<Rightarrow> 'b \<Rightarrow> 'b reader" where
  "read_items 0 rd add acc source = Inr (acc, source)"
| "read_items (Suc n) rd add acc source =
     result_bind (rd source) (\<lambda>(x, source). read_items n rd add (add x acc) source)"

definition read_prefixed :: "'a reader \<Rightarrow> ('a \<Rightarrow> 'b \<Rightarrow> 'b) \<Rightarrow> 'b \<Rightarrow> 'b reader" where
  "read_prefixed rd add acc source =
     result_bind (readNum max_size_t source) (\<lambda>(n, source). read_items (unat n) rd add acc source)"

definition write_prefixed :: "('a \<Rightarrow> string result) \<Rightarrow> 'a list \<Rightarrow> string result" where
  "write_prefixed wr xs =
     result_bind (map_result wr xs) (\<lambda>ss. Inr (writeNum (word_of_nat (length xs)) @ concat ss))"

definition vector_read :: "'a reader \<Rightarrow> 'a list reader" where
  "vector_read rd source = read_prefixed rd (\<lambda>x resSet. resSet @ [x]) [] source"

definition vector_write :: "('a \<Rightarrow> string result) \<Rightarrow> 'a list \<Rightarrow> string result" where
  "vector_write wr resSet = write_prefixed wr resSet"

definition set_read :: "'a reader \<Rightarrow> 'a set reader" where
  "set_read rd source = read_prefixed rd insert {} source"

definition set_write :: "('a::linorder \<Rightarrow> string result) \<Rightarrow> 'a set \<Rightarrow> string result" where
  "set_write wr resSet = write_prefixed wr (sorted_list_of_set resSet)"

definition tuple_read :: "'a reader \<Rightarrow> 'b reader \<Rightarrow> ('a \<times> 'b) reader" where
  "tuple_read rd1 rd2 source =
     result_bind (rd1 source) (\<lambda>(x, source). result_bind (rd2 source) (\<lambda>(y, source). Inr ((x, y), source)))"

definition tuple_write :: "('a \<Rightarrow> string result) \<Rightarrow> ('b \<Rightarrow> string result) \<Rightarrow> 'a \<times> 'b \<Rightarrow> string result" where
  "tuple_write wr1 wr2 res =
     result_bind (wr1 (fst res)) (\<lambda>s. result_bind (wr2 (snd res)) (\<lambda>t. Inr (s @ t)))"

definition map_read :: "'k::linorder reader \<Rightarrow> 'v reader \<Rightarrow> ('k, 'v) omap reader" where
  "map_read rdk rdv source = read_prefixed (tuple_read rdk rdv) (\<lambda>(k, v). insert_or_assign k v) [] source"

definition map_write :: "('k \<Rightarrow> string result) \<Rightarrow> ('v \<Rightarrow> string result) \<Rightarrow> ('k, 'v) omap \<Rightarrow> string result" where
  "map_write wrk wrv resMap = write_prefixed (tuple_write wrk wrv) resMap"

section \<open>Single values\<close>

definition string_read :: "string reader" where
  "string_read source = readString (2 ^ 64 - 1) source"

definition string_write :: "string \<Rightarrow> string result" where
  "string_write str = Inr (writeString str)"

text \<open>Values that travel as a string: \<open>parse\<close> what is read, \<open>show\<close> what is written.\<close>

definition parsed_read :: "(string \<Rightarrow> 'a result) \<Rightarrow> 'a reader" where
  "parsed_read parse source =
     result_bind (string_read source) (\<lambda>(s, source). result_bind (parse s) (\<lambda>x. Inr (x, source)))"

definition shown_write :: "('a \<Rightarrow> string result) \<Rightarrow> 'a \<Rightarrow> string result" where
  "shown_write pr x = result_bind (pr x) string_write"

definition StorePath_read :: "StoreDirConfig \<Rightarrow> StorePath reader" where
  "StorePath_read store = parsed_read (parseStorePath store)"

definition StorePath_write :: "StoreDirConfig \<Rightarrow> StorePath \<Rightarrow> string result" where
  "StorePath_write store = shown_write (\<lambda>p. Inr (printStorePath store p))"

definition optStorePath_read :: "StoreDirConfig \<Rightarrow> StorePath option reader" where
  "optStorePath_read store = parsed_read (\<lambda>s. if s = [] then Inr None
     else result_bind (parseStorePath store s) (\<lambda>p. Inr (Some p)))"

definition optStorePath_write :: "StoreDirConfig \<Rightarrow> StorePath option \<Rightarrow> string result" where
  "optStorePath_write store = shown_write (\<lambda>p. Inr (case p of Some p \<Rightarrow> printStorePath store p | None \<Rightarrow> []))"

definition ContentAddress_read :: "ExperimentalFeatureSettings \<Rightarrow> ContentAddress reader" where
  "ContentAddress_read xp = parsed_read (ContentAddress_parse xp)"

definition ContentAddress_write :: "ExperimentalFeatureSettings \<Rightarrow> ContentAddress \<Rightarrow> string result" where
  "ContentAddress_write xp = shown_write (\<lambda>ca. renderContentAddress xp (Some ca))"

definition optContentAddress_read :: "ExperimentalFeatureSettings \<Rightarrow> ContentAddress option reader" where
  "optContentAddress_read xp = parsed_read (ContentAddress_parseOpt xp)"

definition optContentAddress_write :: "ExperimentalFeatureSettings \<Rightarrow> ContentAddress option \<Rightarrow> string result" where
  "optContentAddress_write xp = shown_write (\<lambda>ca. case ca of Some ca \<Rightarrow> renderContentAddress xp (Some ca) | None \<Rightarrow> Inr [])"

section \<open>Build result statuses\<close>

datatype BuildResultSuccessStatus = Built | Substituted | AlreadyValid | ResolvesToAlreadyValid

datatype BuildResultFailureStatus =
    PermanentFailure
  | InputRejected
  | OutputRejected
  | TransientFailure
  | CachedFailure
  | TimedOut
  | MiscFailure
  | DependencyFailed
  | LogLimitExceeded
  | NotDeterministic
  | NoSubstituters
  | HashMismatch

type_synonym BuildResultStatus = "BuildResultSuccessStatus + BuildResultFailureStatus"

definition buildResultStatusTable :: "BuildResultStatus list" where
  "buildResultStatusTable =
     [Inl Built, Inl Substituted, Inl AlreadyValid, Inr PermanentFailure, Inr InputRejected, Inr OutputRejected,
      Inr TransientFailure, Inr CachedFailure, Inr TimedOut, Inr MiscFailure, Inr DependencyFailed,
      Inr LogLimitExceeded, Inr NotDeterministic, Inl ResolvesToAlreadyValid, Inr NoSubstituters]"

definition BuildResultStatus_read :: "BuildResultStatus reader" where
  "BuildResultStatus_read source =
     result_bind (readNum 0xff source) (\<lambda>(rawStatus, source).
       if unat rawStatus \<ge> length buildResultStatusTable then Inl (GenericError ''Invalid BuildResult status from remote'')
       else Inr (buildResultStatusTable ! unat rawStatus, source))"

text \<open>The search through the table, from a position on; falling off its end is \<^verbatim>\<open>unreachable()\<close>.\<close>

fun status_index :: "nat \<Rightarrow> BuildResultStatus list \<Rightarrow> BuildResultStatus \<Rightarrow> string result" where
  "status_index wire_value [] status = Inl (AssertionFailed ''unreachable'')"
| "status_index wire_value (val # vals) status =
     (if val = status then Inr (writeNum (word_of_nat wire_value)) else status_index (Suc wire_value) vals status)"

definition BuildResultStatus_write :: "BuildResultStatus \<Rightarrow> string result" where
  "BuildResultStatus_write status =
     status_index 0 buildResultStatusTable (if status = Inr HashMismatch then Inr OutputRejected else status)"

section \<open>Derivations\<close>

definition readDerivationOutput ::
  "ExperimentalFeatureSettings \<Rightarrow> StoreDirConfig \<Rightarrow> DerivationOutput reader" where
  "readDerivationOutput xp store source =
     result_bind (string_read source) (\<lambda>(pathS, source).
     result_bind (string_read source) (\<lambda>(hashAlgo, source).
     result_bind (string_read source) (\<lambda>(hash, source).
     result_bind (parseDerivationOutput_strings xp store pathS hashAlgo hash) (\<lambda>out. Inr (out, source)))))"

text \<open>The counted loops of the reader use the same helper as the collections.\<close>

definition readDerivation ::
  "'j json_lib \<Rightarrow> ExperimentalFeatureSettings \<Rightarrow> StoreDirConfig \<Rightarrow> string \<Rightarrow> 'j BasicDerivation reader" where
  "readDerivation J xp store name source =
     result_bind (read_prefixed (tuple_read string_read (readDerivationOutput xp store))
       (\<lambda>(n, out). map_emplace n out) [] source) (\<lambda>(outputs, source).
     result_bind (set_read (StorePath_read store) source) (\<lambda>(srcs, source).
     result_bind (string_read source) (\<lambda>(plat, source).
     result_bind (string_read source) (\<lambda>(bld, source).
     result_bind (readStrings source) (\<lambda>(args, source).
     result_bind (read_prefixed (tuple_read string_read string_read)
       (\<lambda>(key, val). insert_or_assign key val) [] source) (\<lambda>(env, source).
     result_bind (StructuredAttrs_tryExtract J env) (\<lambda>(sa, env).
       Inr (\<lparr>drv_outputs = outputs, inputSrcs = srcs, platform = plat, builder = bld, drv_args = args, drv_env = env,
         structuredAttrs = sa, drv_name = name\<rparr>, source))))))))"

definition write_output ::
  "digests \<Rightarrow> ExperimentalFeatureSettings \<Rightarrow> StoreDirConfig \<Rightarrow> string \<Rightarrow> string \<times> DerivationOutput \<Rightarrow> string result" where
  "write_output digest xp store name i =
     result_bind (unparse_output digest xp store False name i) (\<lambda>(p, ma, h).
       Inr (writeString (fst i) @ writeString p @ writeString ma @ writeString h))"

definition writeDerivation ::
  "'j json_lib \<Rightarrow> digests \<Rightarrow> ExperimentalFeatureSettings \<Rightarrow> StoreDirConfig \<Rightarrow> 'j BasicDerivation \<Rightarrow> string result" where
  "writeDerivation J digest xp store drv =
     result_bind (write_prefixed (write_output digest xp store (drv_name drv)) (drv_outputs drv)) (\<lambda>outs.
     result_bind (set_write (StorePath_write store) (inputSrcs drv)) (\<lambda>srcs.
     result_bind (env_with_attrs J drv) (\<lambda>env.
     result_bind (map_write string_write string_write env) (\<lambda>es.
       Inr (outs @ srcs @ writeString (platform drv) @ writeString (builder drv) @ writeStrings (drv_args drv) @ es)))))"

section \<open>Collections of values on the wire\<close>

definition short :: "'a list \<Rightarrow> bool" where
  "short xs \<longleftrightarrow> length xs < 2 ^ 64"

lemma read_items_written:
  assumes "map_result wr xs = Inr ss" "\<forall>x\<in>set xs. \<forall>s. wr x = Inr s \<longrightarrow> (\<forall>rest. rd (s @ rest) = Inr (x, rest))"
  shows "read_items (length xs) rd add acc (concat ss @ rest) = Inr (fold add xs acc, rest)"
  using assms by (induction xs arbitrary: ss acc) (auto simp: result_simps)

lemma count_read: "short xs \<Longrightarrow> readNum max_size_t (writeNum (word_of_nat (length xs)) @ rest) = Inr (word_of_nat (length xs), rest)"
  by (rule num.read_write) (simp add: max_size_t_def)

lemma unat_short: "short xs \<Longrightarrow> unat (word_of_nat (length xs) :: 64 word) = length xs"
  by (simp add: short_def unsigned_of_nat take_bit_nat_eq_self)

lemma all_written: "\<forall>x\<in>set xs. \<exists>s. f x = Inr s \<Longrightarrow> \<exists>ss. map_result f xs = Inr ss"
  by (induction xs) auto

context wire
begin

lemma prefixed_read:
  assumes "\<forall>x\<in>set xs. legal x" "short xs"
  shows "\<exists>s. write_prefixed wr xs = Inr s \<and> (\<forall>rest. read_prefixed rd add acc (s @ rest) = Inr (fold add xs acc, rest))"
proof -
  obtain ss where ss: "map_result wr xs = Inr ss" using all_written [of xs wr] assms(1) wire_read by blast
  have "\<forall>x\<in>set xs. \<forall>s. wr x = Inr s \<longrightarrow> (\<forall>rest. rd (s @ rest) = Inr (x, rest))" using assms(1) wire_read by fastforce
  from read_items_written [OF ss this] ss assms(2) show ?thesis
    by (auto simp: write_prefixed_def read_prefixed_def count_read unat_short)
qed

lemma vector_wire: "wire (vector_write wr) (vector_read rd) (\<lambda>xs. (\<forall>x\<in>set xs. legal x) \<and> short xs)"
proof
  fix xs assume "(\<forall>x\<in>set xs. legal x) \<and> short xs"
  moreover have "fold (\<lambda>x ys. ys @ [x]) xs [] = xs" by (induction xs rule: rev_induct) auto
  ultimately show "\<exists>s. vector_write wr xs = Inr s \<and> (\<forall>rest. vector_read rd (s @ rest) = Inr (xs, rest))"
    using prefixed_read [of xs "\<lambda>x ys. ys @ [x]" "[]"] by (simp add: vector_write_def vector_read_def)
qed

end

lemma set_wire:
  assumes "wire wr rd legal"
  shows "wire (set_write wr) (set_read rd) (\<lambda>A. finite A \<and> (\<forall>x\<in>A. legal x) \<and> card A < 2 ^ 64)"
proof
  fix A :: "'a set" assume A: "finite A \<and> (\<forall>x\<in>A. legal x) \<and> card A < 2 ^ 64"
  then have "short (sorted_list_of_set A)" by (simp add: short_def)
  with wire.prefixed_read [OF assms, of "sorted_list_of_set A" insert "{}"] A
  show "\<exists>s. set_write wr A = Inr s \<and> (\<forall>rest. set_read rd (s @ rest) = Inr (A, rest))"
    by (simp add: set_write_def set_read_def fold_insert_set)
qed

lemma tuple_wire:
  assumes "wire wr1 rd1 legal1" "wire wr2 rd2 legal2"
  shows "wire (tuple_write wr1 wr2) (tuple_read rd1 rd2) (\<lambda>(x, y). legal1 x \<and> legal2 y)"
proof
  fix z :: "'a \<times> 'b" assume "case z of (x, y) \<Rightarrow> legal1 x \<and> legal2 y"
  then obtain x y where z: "z = (x, y)" "legal1 x" "legal2 y" by auto
  then obtain s t where "wr1 x = Inr s" "\<forall>rest. rd1 (s @ rest) = Inr (x, rest)"
    "wr2 y = Inr t" "\<forall>rest. rd2 (t @ rest) = Inr (y, rest)"
    using wire.wire_read [OF assms(1)] wire.wire_read [OF assms(2)] by blast
  then show "\<exists>s. tuple_write wr1 wr2 z = Inr s \<and> (\<forall>rest. tuple_read rd1 rd2 (s @ rest) = Inr (z, rest))"
    by (simp add: z tuple_write_def tuple_read_def)
qed

lemma map_wire:
  assumes "wire wrk rdk legalk" "wire wrv rdv legalv"
  shows "wire (map_write wrk wrv) (map_read rdk rdv) (\<lambda>m. omap_ok m \<and> (\<forall>(k, v)\<in>set m. legalk k \<and> legalv v) \<and> short m)"
proof
  fix m :: "('a, 'b) omap" assume m: "omap_ok m \<and> (\<forall>(k, v)\<in>set m. legalk k \<and> legalv v) \<and> short m"
  with wire.prefixed_read [OF tuple_wire [OF assms], of m "\<lambda>(k, v). insert_or_assign k v" "[]"]
    fold_assign_in_order [of "[]" m]
  show "\<exists>s. map_write wrk wrv m = Inr s \<and> (\<forall>rest. map_read rdk rdv (s @ rest) = Inr (m, rest))"
    by (auto simp: map_write_def map_read_def)
qed

section \<open>Values that satisfy the contract\<close>

interpretation string_wire: wire string_write string_read short
  unfolding wire_def string_write_def string_read_def
  using str.read_write [of "2 ^ 64 - 1"] by (auto simp: short_def string_legal_def)

lemma parsed_wire:
  assumes "\<And>x. legal x \<Longrightarrow> \<exists>s. pr x = Inr s \<and> short s \<and> parse s = Inr x"
  shows "wire (shown_write pr) (parsed_read parse) legal"
proof
  fix x assume "legal x"
  then obtain s where s: "pr x = Inr s" "short s" "parse s = Inr x" using assms by blast
  then obtain t where "string_write s = Inr t" "\<forall>rest. string_read (t @ rest) = Inr (s, rest)"
    using string_wire.wire_read by blast
  with s show "\<exists>s. shown_write pr x = Inr s \<and> (\<forall>rest. parsed_read parse (s @ rest) = Inr (x, rest))"
    by (simp add: shown_write_def parsed_read_def)
qed

definition path_legal :: "StoreDirConfig \<Rightarrow> StorePath \<Rightarrow> bool" where
  "path_legal store p \<longleftrightarrow> canonical (storeDir store) \<and> length (storeDir store) < 2 ^ 63 \<and> wf_path p"

lemma printStorePath_short: "path_legal store p \<Longrightarrow> short (printStorePath store p)"
proof -
  assume p: "path_legal store p"
  then have "length (StorePath_name p) \<le> 211" "length (StorePath_hashPart p) \<le> 32"
    by (auto simp: path_legal_def wf_path_def valid_base_def valid_name_def StorePath_name_def StorePath_hashPart_def
        MaxPathLen_def HashLen_def)
  moreover have "length (baseName p) = length (StorePath_hashPart p) + 1 + length (StorePath_name p)"
    using p by (subst wf_path_split) (simp_all add: path_legal_def)
  ultimately show ?thesis using p by (simp add: short_def printStorePath_def path_legal_def)
qed

interpretation path_wire: wire "StorePath_write store" "StorePath_read store" "path_legal store" for store
  unfolding StorePath_write_def StorePath_read_def
  by (rule parsed_wire) (auto simp: printStorePath_short parse_printed path_legal_def)

interpretation opt_path_wire: wire "optStorePath_write store" "optStorePath_read store"
  "\<lambda>p. case p of None \<Rightarrow> True | Some p \<Rightarrow> path_legal store p" for store
  unfolding optStorePath_write_def optStorePath_read_def
proof (rule parsed_wire)
  fix p assume p: "case p of None \<Rightarrow> True | Some p \<Rightarrow> path_legal store p"
  have "short []" by (simp add: short_def)
  with p printStorePath_short [of store] parse_printed [of store]
  show "\<exists>s. Inr (case p of None \<Rightarrow> [] | Some p \<Rightarrow> printStorePath store p) = Inr s \<and> short s \<and>
      (if s = [] then Inr None else result_bind (parseStorePath store s) (\<lambda>p. Inr (Some p))) = Inr p"
    by (cases p) (auto simp: path_legal_def printStorePath_def)
qed

lemma status_index_found:
  "x \<in> set vals \<Longrightarrow> \<exists>i < length vals. status_index n vals x = Inr (writeNum (word_of_nat (n + i))) \<and> vals ! i = x"
proof (induction vals arbitrary: n)
  case (Cons v vals)
  show ?case
  proof (cases "v = x")
    case False
    then obtain i where "i < length vals" "status_index (Suc n) vals x = Inr (writeNum (word_of_nat (Suc n + i)))" "vals ! i = x"
      using Cons by fastforce
    with False show ?thesis by (intro exI [of _ "Suc i"]) simp
  qed (intro exI [of _ 0], simp)
qed simp

lemma status_in_table: "x \<noteq> Inr HashMismatch \<Longrightarrow> x \<in> set buildResultStatusTable"
  by (cases x; cases "projl x"; cases "projr x") (auto simp: buildResultStatusTable_def)

interpretation status_wire: wire BuildResultStatus_write BuildResultStatus_read "\<lambda>s. s \<noteq> Inr HashMismatch"
proof
  have at: "\<exists>s. writeNum (word_of_nat i) = s \<and> (\<forall>rest. BuildResultStatus_read (s @ rest) = Inr (buildResultStatusTable ! i, rest))"
    if "i < 15" for i
  proof -
    have i: "word_of_nat i \<le> (0xff :: 64 word)" "unat (word_of_nat i :: 64 word) = i"
      using that by (simp_all add: word_le_nat_alt unsigned_of_nat take_bit_nat_eq_self)
    have "length buildResultStatusTable = 15" by (simp add: buildResultStatusTable_def)
    with that num.read_write [OF i(1)] i(2) show ?thesis by (simp add: BuildResultStatus_read_def)
  qed
  have len: "length buildResultStatusTable = 15" by (simp add: buildResultStatusTable_def)
  fix x :: BuildResultStatus assume x: "x \<noteq> Inr HashMismatch"
  then have "\<exists>i < 15. BuildResultStatus_write x = Inr (writeNum (word_of_nat i)) \<and> buildResultStatusTable ! i = x"
    using status_index_found [OF status_in_table [OF x], of 0] by (simp add: BuildResultStatus_write_def len)
  with at show "\<exists>s. BuildResultStatus_write x = Inr s \<and> (\<forall>rest. BuildResultStatus_read (s @ rest) = Inr (x, rest))" by metis
qed

section \<open>Derivations on the wire\<close>

definition output_legal ::
  "digests \<Rightarrow> ExperimentalFeatureSettings \<Rightarrow> StoreDirConfig \<Rightarrow> string \<Rightarrow> string \<times> DerivationOutput \<Rightarrow> bool" where
  "output_legal digest xp store name i \<longleftrightarrow> output_ok digest xp store name i \<and> short (fst i) \<and>
     store_ok store \<and> length (storeDir store) < 2 ^ 63"

lemma method_algo_short: "printMethodAlgo xp m a = Inr s \<Longrightarrow> length s \<le> 11"
  by (cases m; cases a)
    (auto simp: printMethodAlgo_def ContentAddressMethod_renderPrefix_def result_simps)

lemma output_fields_short:
  assumes "unparse_output digest xp store False name i = Inr (p, ma, h)" "output_legal digest xp store name i"
  shows "short p" "short ma" "short h"
proof -
  obtain n out where i: "i = (n, out)" by fastforce
  have ok: "canonical (storeDir store)" "length (storeDir store) < 2 ^ 63"
    using assms(2) by (auto simp: output_legal_def store_ok_def)
  have empty: "short []" "short ''impure''" by (simp_all add: short_def)
  have ma: "printMethodAlgo xp m a = Inr s \<Longrightarrow> short s" for m a s using method_algo_short [of xp m a s] by (simp add: short_def)
  have path: "wf_path q \<Longrightarrow> short (printStorePath store q)" for q
    using printStorePath_short ok by (simp add: path_legal_def)
  have "short p \<and> short ma \<and> short h"
  proof (cases out)
    case (DO_CAFixed ca)
    then obtain q where q: "CAFixed_path digest xp store name n ca = Inr q" "p = printStorePath store q"
      "printMethodAlgo xp (ca_method ca) (algo (ca_hash ca)) = Inr ma" "Hash_to_string (ca_hash ca) Base16 False = Inr h"
      using assms(1) by (auto simp: i result_simps)
    have wf: "hash_wf (ca_hash ca)" using assms(2) DO_CAFixed by (simp add: i output_legal_def output_ok_def)
    have "length (base16_encode (hash_bytes (ca_hash ca))) \<le> 128"
      using hash_wf_bytes(1) [OF wf] regularHashSize_bounds(2) [of "algo (ca_hash ca)"]
      by (simp add: length_base16_encode base16_encodedLength_def maxHashSize_def)
    with q(4) base16_hash_text(1) [OF wf] have "short h" by (simp add: short_def)
    moreover have "wf_path q" using q(1) makeFixedOutputPathFromCA_wf by (auto simp: CAFixed_path_def)
    ultimately show ?thesis using q ma path by simp
  qed (use assms empty ma path in \<open>auto simp: i result_simps output_legal_def output_ok_def\<close>)
  then show "short p" "short ma" "short h" by simp_all
qed

interpretation output_wire: wire "write_output digest xp store name" "tuple_read string_read (readDerivationOutput xp store)"
  "output_legal digest xp store name" for digest xp store name
proof
  fix i assume i: "output_legal digest xp store name i"
  then have ok: "output_ok digest xp store name i" "store_ok store" "short (fst i)" by (auto simp: output_legal_def)
  obtain p ma h where o: "unparse_output digest xp store False name i = Inr (p, ma, h)"
    "parseDerivationOutput_strings xp store p ma h = Inr (snd i)"
    using output_roundtrip [OF ok(1,2)] by metis
  have rd: "short s \<Longrightarrow> string_read (writeString s @ rest) = Inr (s, rest)" for s rest
    using string_wire.wire_read [of s] by (simp add: string_write_def)
  show "\<exists>s. write_output digest xp store name i = Inr s \<and>
      (\<forall>rest. tuple_read string_read (readDerivationOutput xp store) (s @ rest) = Inr (i, rest))"
    using o ok(3) output_fields_short [OF o(1) i]
    by (simp add: write_output_def tuple_read_def readDerivationOutput_def rd)
qed

definition wire_sizes :: "'j json_lib \<Rightarrow> StoreDirConfig \<Rightarrow> ('j, 'a) BasicDerivation_scheme \<Rightarrow> bool" where
  "wire_sizes J store drv \<longleftrightarrow> length (storeDir store) < 2 ^ 63 \<and> short (drv_outputs drv) \<and> (\<forall>i\<in>set (drv_outputs drv). short (fst i)) \<and>
     card (inputSrcs drv) < 2 ^ 64 \<and> short (platform drv) \<and> short (builder drv) \<and> short (drv_args drv) \<and>
     (\<forall>a\<in>set (drv_args drv). short a) \<and>
     (case env_with_attrs J drv of Inl e \<Rightarrow> True | Inr env \<Rightarrow> short env \<and> (\<forall>(k, v)\<in>set env. short k \<and> short v))"

lemma tryExtract_env:
  assumes "attrs_ok J drv" "env_with_attrs J drv = Inr env"
  shows "StructuredAttrs_tryExtract J env = Inr (structuredAttrs drv, drv_env drv)"
proof (cases "structuredAttrs drv")
  case None
  with assms show ?thesis
    by (auto simp: attrs_ok_def env_with_attrs_def checkKeyNotInUse_def StructuredAttrs_tryExtract_def)
next
  case (Some j)
  with assms show ?thesis
    by (auto simp: attrs_ok_def env_with_attrs_def checkKeyNotInUse_def StructuredAttrs_tryExtract_def StructuredAttrs_unparse_def
        StructuredAttrs_parse_def map_of_emplace erase_emplace split: option.splits)
qed

text \<open>
  C23: The binary form of a derivation, as the daemon and the build hook receive it, reads back as the
  derivation and leaves the rest of the stream, for every well-formed derivation whose strings and
  collections fit 64-bit sizes. Unlike in the text form, output names and the platform
  are arbitrary strings.
\<close>

theorem writeDerivation_roundtrip:
  assumes "basic_ok J digest xp store drv" "store_ok store" "wire_sizes J store drv"
  shows "\<exists>s. writeDerivation J digest xp store drv = Inr s \<and>
    (\<forall>rest. readDerivation J xp store (drv_name drv) (s @ rest) = Inr (drv, rest))"
proof -
  have ok: "attrs_ok J drv" "omap_ok (drv_outputs drv)" "finite (inputSrcs drv)" using assms(1) by (auto simp: basic_ok_def)
  obtain env where env: "env_with_attrs J drv = Inr env" "omap_ok env" using env_with_attrs_ok [OF ok(1)] by metis
  have outs: "\<exists>s. write_prefixed (write_output digest xp store (drv_name drv)) (drv_outputs drv) = Inr s \<and>
      (\<forall>rest. read_prefixed (tuple_read string_read (readDerivationOutput xp store)) (\<lambda>(n, out). map_emplace n out) [] (s @ rest) =
        Inr (drv_outputs drv, rest))"
    using output_wire.prefixed_read [of "drv_outputs drv" digest xp store "drv_name drv" "\<lambda>(n, out). map_emplace n out" "[]"]
      fold_emplace_in_order [of "[]" "drv_outputs drv"] assms
    by (auto simp: output_legal_def basic_ok_def wire_sizes_def)
  have srcs: "\<exists>s. set_write (StorePath_write store) (inputSrcs drv) = Inr s \<and>
      (\<forall>rest. set_read (StorePath_read store) (s @ rest) = Inr (inputSrcs drv, rest))"
    using wire.wire_read [OF set_wire [OF path_wire.wire_axioms [of store]]] assms
    by (auto simp: basic_ok_def wire_sizes_def path_legal_def store_ok_def)
  have envs: "\<exists>s. map_write string_write string_write env = Inr s \<and>
      (\<forall>rest. read_prefixed (tuple_read string_read string_read) (\<lambda>(key, val). insert_or_assign key val) [] (s @ rest) = Inr (env, rest))"
    using wire.wire_read [OF map_wire [OF string_wire.wire_axioms string_wire.wire_axioms], of env] assms(3) env
    by (auto simp: wire_sizes_def map_read_def)
  have rd: "short s \<Longrightarrow> string_read (writeString s @ rest) = Inr (s, rest)" for s rest
    using string_wire.wire_read [of s] by (simp add: string_write_def)
  have args: "readStrings (writeStrings (drv_args drv) @ rest) = Inr (drv_args drv, rest)" for rest
    using assms(3) by (intro strs.read_write)
      (auto simp: strings_legal_def wire_sizes_def short_def string_legal_def list_all_iff)
  obtain s1 s2 s3 where "write_prefixed (write_output digest xp store (drv_name drv)) (drv_outputs drv) = Inr s1"
    "\<And>rest. read_prefixed (tuple_read string_read (readDerivationOutput xp store)) (\<lambda>(n, out). map_emplace n out) [] (s1 @ rest) =
        Inr (drv_outputs drv, rest)"
    "set_write (StorePath_write store) (inputSrcs drv) = Inr s2"
    "\<And>rest. set_read (StorePath_read store) (s2 @ rest) = Inr (inputSrcs drv, rest)"
    "map_write string_write string_write env = Inr s3"
    "\<And>rest. read_prefixed (tuple_read string_read string_read) (\<lambda>(key, val). insert_or_assign key val) [] (s3 @ rest) = Inr (env, rest)"
    using outs srcs envs by blast
  then show ?thesis
    using env tryExtract_env [OF ok(1) env(1)] args rd assms(3)
    by (simp add: writeDerivation_def readDerivation_def wire_sizes_def)
qed

definition sample_basic :: "string BasicDerivation" where
  "sample_basic = \<lparr>drv_outputs = [([quote_char], DO_Deferred), (''out'', DO_InputAddressed sample_path)], inputSrcs = {sample_path},
     platform = [quote_char], builder = ''/bin/sh'', drv_args = [''-c''], drv_env = [(''PATH'', [])],
     structuredAttrs = Some ''{}'', drv_name = ''x''\<rparr>"

theorem writeDerivation_roundtrip_witness:
  "\<exists>s. writeDerivation sample_json (\<lambda>a b. []) \<lparr>experimentalFeatures = []\<rparr> sample_store sample_basic = Inr s \<and>
    (\<forall>rest. readDerivation sample_json \<lparr>experimentalFeatures = []\<rparr> sample_store (drv_name sample_basic) (s @ rest) =
      Inr (sample_basic, rest))"
proof (rule writeDerivation_roundtrip [OF _ sample_store_ok])
  show "basic_ok sample_json (\<lambda>a b. []) \<lparr>experimentalFeatures = []\<rparr> sample_store sample_basic"
    by (simp add: basic_ok_def sample_basic_def sample_json_def attrs_ok_def output_ok_def sample_path_wf quote_char_def envVarName_def)
  have "env_with_attrs sample_json sample_basic = Inr [(''PATH'', []), (''__json'', ''{}'')]"
    by (simp add: env_with_attrs_def sample_basic_def sample_json_def checkKeyNotInUse_def StructuredAttrs_unparse_def envVarName_def)
  then show "wire_sizes sample_json sample_store sample_basic"
    by (simp add: wire_sizes_def sample_store_def sample_basic_def short_def)
qed

end
