(* ===== verification/Derived_Path.thy ===== *)
theory Derived_Path
  imports Store_Path
begin

text \<open>
  Output specifications (\<^verbatim>\<open>libstore/outputs-spec.cc\<close>) and derived paths
  (\<^verbatim>\<open>libstore/derived-path.cc\<close>): sets of output names with their parser and printer, and
  store paths named by the output of a (possibly itself derived) derivation.
\<close>

section \<open>Output specifications\<close>

datatype OutputsSpec = OS_All | OS_Names "string set"

text \<open>The converting constructors of \<^verbatim>\<open>Names\<close> assert that the set is not empty.\<close>

definition OutputsSpec_Names :: "string set \<Rightarrow> OutputsSpec result" where
  "OutputsSpec_Names names =
     result_bind (ensure (names \<noteq> {}) (AssertionFailed ''!empty()'')) (\<lambda>_. Inr (OS_Names names))"

fun OutputsSpec_contains :: "OutputsSpec \<Rightarrow> string \<Rightarrow> bool" where
  "OutputsSpec_contains OS_All outputName = True"
| "OutputsSpec_contains (OS_Names outputNames) outputName = (outputName \<in> outputNames)"

definition OutputsSpec_parse :: "string \<Rightarrow> OutputsSpec result" where
  "OutputsSpec_parse s =
     (if s = ''*'' then Inr OS_All
      else let names = set (splitString s '','') in
        result_bind (map_result checkName (sorted_list_of_set names)) (\<lambda>_. OutputsSpec_Names names))"

definition OutputsSpec_parseOpt :: "string \<Rightarrow> OutputsSpec option result" where
  "OutputsSpec_parseOpt s = (case OutputsSpec_parse s of
     Inr spec \<Rightarrow> Inr (Some spec)
   | Inl (BadStorePathName m) \<Rightarrow> Inr None
   | Inl e \<Rightarrow> Inl e)"

datatype ExtendedOutputsSpec = EOS_Default | EOS_Explicit OutputsSpec

definition ExtendedOutputsSpec_parseOpt :: "string \<Rightarrow> (string \<times> ExtendedOutputsSpec) option result" where
  "ExtendedOutputsSpec_parseOpt s = (case rfind_char CHR ''^'' s of
     None \<Rightarrow> Inr (Some (s, EOS_Default))
   | Some found \<Rightarrow>
       result_bind (OutputsSpec_parseOpt (drop (found + 1) s)) (\<lambda>specOpt. Inr (case specOpt of
         None \<Rightarrow> None
       | Some spec \<Rightarrow> Some (take found s, EOS_Explicit spec))))"

definition ExtendedOutputsSpec_parse :: "string \<Rightarrow> (string \<times> ExtendedOutputsSpec) result" where
  "ExtendedOutputsSpec_parse s =
     result_bind (ExtendedOutputsSpec_parseOpt s) (\<lambda>spec. case spec of
       None \<Rightarrow> Inl (GenericError ''invalid extended outputs specifier'')
     | Some p \<Rightarrow> Inr p)"

fun OutputsSpec_to_string :: "OutputsSpec \<Rightarrow> string" where
  "OutputsSpec_to_string OS_All = ''*''"
| "OutputsSpec_to_string (OS_Names outputNames) = concatStringsSep '','' (sorted_list_of_set outputNames)"

fun ExtendedOutputsSpec_to_string :: "ExtendedOutputsSpec \<Rightarrow> string" where
  "ExtendedOutputsSpec_to_string EOS_Default = []"
| "ExtendedOutputsSpec_to_string (EOS_Explicit outputSpec) = ''^'' @ OutputsSpec_to_string outputSpec"

fun OutputsSpec_union :: "OutputsSpec \<Rightarrow> OutputsSpec \<Rightarrow> OutputsSpec" where
  "OutputsSpec_union OS_All that = OS_All"
| "OutputsSpec_union (OS_Names theseNames) OS_All = OS_All"
| "OutputsSpec_union (OS_Names theseNames) (OS_Names thoseNames) = OS_Names (theseNames \<union> thoseNames)"

fun OutputsSpec_isSubsetOf :: "OutputsSpec \<Rightarrow> OutputsSpec \<Rightarrow> bool" where
  "OutputsSpec_isSubsetOf this OS_All = True"
| "OutputsSpec_isSubsetOf OS_All (OS_Names thoseNames) = False"
| "OutputsSpec_isSubsetOf (OS_Names theseNames) (OS_Names thoseNames) = (\<forall>o'\<in>theseNames. o' \<in> thoseNames)"

section \<open>Derived paths\<close>

datatype SingleDerivedPath = SDP_Opaque StorePath | SDP_Built SingleDerivedPath string

datatype DerivedPath = DP_Opaque StorePath | DP_Built SingleDerivedPath OutputsSpec

fun SingleDerivedPath_to_string :: "StoreDirConfig \<Rightarrow> SingleDerivedPath \<Rightarrow> string" where
  "SingleDerivedPath_to_string store (SDP_Opaque path) = printStorePath store path"
| "SingleDerivedPath_to_string store (SDP_Built drvPath output) =
     SingleDerivedPath_to_string store drvPath @ ''^'' @ output"

fun SingleDerivedPath_to_string_legacy :: "StoreDirConfig \<Rightarrow> SingleDerivedPath \<Rightarrow> string" where
  "SingleDerivedPath_to_string_legacy store (SDP_Opaque path) = printStorePath store path"
| "SingleDerivedPath_to_string_legacy store (SDP_Built drvPath output) =
     SingleDerivedPath_to_string store drvPath @ ''!'' @ output"

fun DerivedPath_to_string :: "StoreDirConfig \<Rightarrow> DerivedPath \<Rightarrow> string" where
  "DerivedPath_to_string store (DP_Opaque path) = printStorePath store path"
| "DerivedPath_to_string store (DP_Built drvPath outputs) =
     SingleDerivedPath_to_string store drvPath @ ''^'' @ OutputsSpec_to_string outputs"

fun DerivedPath_to_string_legacy :: "StoreDirConfig \<Rightarrow> DerivedPath \<Rightarrow> string" where
  "DerivedPath_to_string_legacy store (DP_Opaque path) = printStorePath store path"
| "DerivedPath_to_string_legacy store (DP_Built drvPath outputs) =
     SingleDerivedPath_to_string_legacy store drvPath @ ''!'' @ OutputsSpec_to_string outputs"

definition drvRequireExperiment ::
  "SingleDerivedPath \<Rightarrow> ExperimentalFeatureSettings \<Rightarrow> unit result" where
  "drvRequireExperiment drv xpSettings = (case drv of
     SDP_Opaque p \<Rightarrow> Inr ()
   | SDP_Built d out \<Rightarrow> xp_require xpSettings DynamicDerivations)"

definition SingleDerivedPathBuilt_parse ::
  "SingleDerivedPath \<Rightarrow> string \<Rightarrow> ExperimentalFeatureSettings \<Rightarrow> SingleDerivedPath result" where
  "SingleDerivedPathBuilt_parse drv output xpSettings =
     result_bind (drvRequireExperiment drv xpSettings) (\<lambda>_. Inr (SDP_Built drv output))"

definition DerivedPathBuilt_parse ::
  "SingleDerivedPath \<Rightarrow> string \<Rightarrow> ExperimentalFeatureSettings \<Rightarrow> DerivedPath result" where
  "DerivedPathBuilt_parse drv outputsS xpSettings =
     result_bind (drvRequireExperiment drv xpSettings) (\<lambda>_.
     result_bind (OutputsSpec_parse outputsS) (\<lambda>outputs. Inr (DP_Built drv outputs)))"

lemma rfind_char_less: "rfind_char c s = Some n \<Longrightarrow> n < length s"
proof -
  assume a: "rfind_char c s = Some n"
  then have "s \<noteq> []" by (auto simp: rfind_char_def split: if_splits)
  with a show ?thesis by (auto simp: rfind_char_def split: if_splits)
qed

function parseWithSingle ::
  "StoreDirConfig \<Rightarrow> string \<Rightarrow> char \<Rightarrow> ExperimentalFeatureSettings \<Rightarrow> SingleDerivedPath result" where
  "parseWithSingle store s separator xpSettings = (case rfind_char separator s of
     None \<Rightarrow> result_bind (parseStorePath store s) (\<lambda>p. Inr (SDP_Opaque p))
   | Some n \<Rightarrow>
       result_bind (parseWithSingle store (take n s) separator xpSettings) (\<lambda>drv.
         SingleDerivedPathBuilt_parse drv (drop (n + 1) s) xpSettings))"
  by pat_completeness auto
termination
  by (relation "measure (\<lambda>(store, s, separator, xp). length s)") (auto dest: rfind_char_less)

declare parseWithSingle.simps [simp del]

definition SingleDerivedPath_parse ::
  "StoreDirConfig \<Rightarrow> string \<Rightarrow> ExperimentalFeatureSettings \<Rightarrow> SingleDerivedPath result" where
  "SingleDerivedPath_parse store s xpSettings = parseWithSingle store s CHR ''^'' xpSettings"

definition SingleDerivedPath_parseLegacy ::
  "StoreDirConfig \<Rightarrow> string \<Rightarrow> ExperimentalFeatureSettings \<Rightarrow> SingleDerivedPath result" where
  "SingleDerivedPath_parseLegacy store s xpSettings = parseWithSingle store s CHR ''!'' xpSettings"

definition parseWith ::
  "StoreDirConfig \<Rightarrow> string \<Rightarrow> char \<Rightarrow> ExperimentalFeatureSettings \<Rightarrow> DerivedPath result" where
  "parseWith store s separator xpSettings = (case rfind_char separator s of
     None \<Rightarrow> result_bind (parseStorePath store s) (\<lambda>p. Inr (DP_Opaque p))
   | Some n \<Rightarrow>
       result_bind (parseWithSingle store (take n s) separator xpSettings) (\<lambda>drv.
         DerivedPathBuilt_parse drv (drop (n + 1) s) xpSettings))"

definition DerivedPath_parse ::
  "StoreDirConfig \<Rightarrow> string \<Rightarrow> ExperimentalFeatureSettings \<Rightarrow> DerivedPath result" where
  "DerivedPath_parse store s xpSettings = parseWith store s CHR ''^'' xpSettings"

definition DerivedPath_parseLegacy ::
  "StoreDirConfig \<Rightarrow> string \<Rightarrow> ExperimentalFeatureSettings \<Rightarrow> DerivedPath result" where
  "DerivedPath_parseLegacy store s xpSettings = parseWith store s CHR ''!'' xpSettings"

fun DerivedPath_fromSingle :: "SingleDerivedPath \<Rightarrow> DerivedPath" where
  "DerivedPath_fromSingle (SDP_Opaque p) = DP_Opaque p"
| "DerivedPath_fromSingle (SDP_Built drvPath output) = DP_Built drvPath (OS_Names {output})"

fun SingleDerivedPath_getBaseStorePath :: "SingleDerivedPath \<Rightarrow> StorePath" where
  "SingleDerivedPath_getBaseStorePath (SDP_Opaque p) = p"
| "SingleDerivedPath_getBaseStorePath (SDP_Built drvPath output) = SingleDerivedPath_getBaseStorePath drvPath"

fun DerivedPath_getBaseStorePath :: "DerivedPath \<Rightarrow> StorePath" where
  "DerivedPath_getBaseStorePath (DP_Opaque p) = p"
| "DerivedPath_getBaseStorePath (DP_Built drvPath outputs) = SingleDerivedPath_getBaseStorePath drvPath"

section \<open>Output specifications: printing, parsing, set semantics\<close>

fun spec_wf :: "OutputsSpec \<Rightarrow> bool" where
  "spec_wf OS_All \<longleftrightarrow> True"
| "spec_wf (OS_Names ns) \<longleftrightarrow> finite ns \<and> ns \<noteq> {} \<and> (\<forall>n\<in>ns. valid_name n)"

lemma valid_name_chars:
  "valid_name n \<Longrightarrow> c \<in> set n \<Longrightarrow> name_char c"
  by (simp add: valid_name_def list_all_iff)

lemma valid_name_plain:
  assumes "valid_name n"
  shows "CHR '','' \<notin> set n" "CHR ''^'' \<notin> set n" "CHR ''!'' \<notin> set n" "CHR ''*'' \<notin> set n" "slash \<notin> set n"
proof -
  have "\<not> name_char CHR '',''" "\<not> name_char CHR ''^''" "\<not> name_char CHR ''!''" "\<not> name_char CHR ''*''"
      "\<not> name_char slash"
    by (simp_all add: name_char_def in_range_def)
  then show "CHR '','' \<notin> set n" "CHR ''^'' \<notin> set n" "CHR ''!'' \<notin> set n" "CHR ''*'' \<notin> set n" "slash \<notin> set n"
    using valid_name_chars [OF assms] by blast+
qed

lemma concatStringsSep_set: "set (concatStringsSep sep ss) \<subseteq> set sep \<union> \<Union> (set ` set ss)"
  by (cases ss) auto

lemma spec_chars:
  assumes "spec_wf spec"
  shows "CHR ''^'' \<notin> set (OutputsSpec_to_string spec)" "CHR ''!'' \<notin> set (OutputsSpec_to_string spec)"
proof -
  have "CHR ''^'' \<notin> set (OutputsSpec_to_string spec) \<and> CHR ''!'' \<notin> set (OutputsSpec_to_string spec)"
  proof (cases spec)
    case (OS_Names ns)
    with assms have "set (OutputsSpec_to_string spec) \<subseteq> {CHR '',''} \<union> \<Union> (set ` ns)"
      using concatStringsSep_set [of "'',''" "sorted_list_of_set ns"] by simp
    moreover have "\<forall>n\<in>ns. valid_name n" using assms OS_Names by simp
    moreover have "CHR ''^'' \<noteq> CHR '',''" "CHR ''!'' \<noteq> CHR '',''" by simp_all
    ultimately show ?thesis using valid_name_plain(2,3) by blast
  qed simp
  then show "CHR ''^'' \<notin> set (OutputsSpec_to_string spec)" "CHR ''!'' \<notin> set (OutputsSpec_to_string spec)"
    by simp_all
qed

lemma OutputsSpec_parse_printed:
  assumes "spec_wf spec"
  shows "OutputsSpec_parse (OutputsSpec_to_string spec) = Inr spec"
proof (cases spec)
  case (OS_Names ns)
  with assms have ns: "finite ns" "ns \<noteq> {}" "\<forall>n\<in>ns. valid_name n" by simp_all
  define xs where "xs = sorted_list_of_set ns"
  have xs: "xs \<noteq> []" "set xs = ns" using ns by (simp_all add: xs_def)
  have split: "splitString (concatStringsSep '','' xs) '','' = xs"
    using xs ns(3) valid_name_plain(1) by (intro splitString_concat) auto
  have "concatStringsSep '','' xs \<noteq> ''*''"
  proof
    assume "concatStringsSep '','' xs = ''*''"
    then have "splitString ''*'' '','' = xs" using split by simp
    then have "xs = [''*'']" by (simp add: splitString_no_separator)
    then have "valid_name ''*''" using xs ns(3) by auto
    then show False using valid_name_plain(4) [of "''*''"] by simp
  qed
  moreover have "map_result checkName (sorted_list_of_set ns) = Inr (map (\<lambda>_. ()) (sorted_list_of_set ns))"
    using ns by (intro map_result_map) (simp add: checkName_iff)
  ultimately show ?thesis
    using OS_Names split xs ns(2)
    by (simp add: OutputsSpec_parse_def Let_def OutputsSpec_Names_def flip: xs_def)
qed (simp add: OutputsSpec_parse_def)

text \<open>
  A printed output specification parses back to itself, alone and after a \<^verbatim>\<open>^\<close> prefix;
  union and the subset test are those of the sets of outputs that \<open>contains\<close> accepts.
\<close>

theorem OutputsSpec_roundtrip_sets:
  assumes "spec_wf a" "spec_wf b"
  shows "OutputsSpec_parse (OutputsSpec_to_string a) = Inr a \<and>
    ExtendedOutputsSpec_parse (pre @ ExtendedOutputsSpec_to_string (EOS_Explicit a)) = Inr (pre, EOS_Explicit a) \<and>
    (OutputsSpec_contains (OutputsSpec_union a b) x \<longleftrightarrow> OutputsSpec_contains a x \<or> OutputsSpec_contains b x) \<and>
    (OutputsSpec_isSubsetOf a b \<longleftrightarrow> (\<forall>x. OutputsSpec_contains a x \<longrightarrow> OutputsSpec_contains b x))"
proof (intro conjI)
  show "OutputsSpec_parse (OutputsSpec_to_string a) = Inr a"
    using assms(1) by (rule OutputsSpec_parse_printed)
  have "rfind_char CHR ''^'' (pre @ CHR ''^'' # OutputsSpec_to_string a) = Some (length pre)"
    using spec_chars(1) [OF assms(1)] by (rule rfind_char_append)
  then show "ExtendedOutputsSpec_parse (pre @ ExtendedOutputsSpec_to_string (EOS_Explicit a)) =
      Inr (pre, EOS_Explicit a)"
    by (simp add: ExtendedOutputsSpec_parse_def ExtendedOutputsSpec_parseOpt_def OutputsSpec_parseOpt_def
      OutputsSpec_parse_printed [OF assms(1)])
  show "OutputsSpec_contains (OutputsSpec_union a b) x \<longleftrightarrow> OutputsSpec_contains a x \<or> OutputsSpec_contains b x"
    by (cases a; cases b) auto
  show "OutputsSpec_isSubsetOf a b \<longleftrightarrow> (\<forall>x. OutputsSpec_contains a x \<longrightarrow> OutputsSpec_contains b x)"
  proof (cases a; cases b)
    fix ns assume "a = OS_All" "b = OS_Names ns"
    moreover from this assms(2) have "\<exists>x. x \<notin> ns" by (simp add: ex_new_if_finite infinite_UNIV_listI)
    ultimately show ?thesis by auto
  qed auto
qed

theorem OutputsSpec_roundtrip_sets_witness:
  "OutputsSpec_parse (OutputsSpec_to_string (OS_Names {''out'', ''dev''})) = Inr (OS_Names {''out'', ''dev''})"
  by (rule OutputsSpec_roundtrip_sets [THEN conjunct1, of _ OS_All])
     (simp_all add: valid_name_def MaxPathLen_def name_char_def in_range_def)

section \<open>Derived paths: printing, then parsing\<close>

text \<open>
  What may appear in a printed derived path with the given separator: a well-formed base path,
  output names without the separator, and nesting only with dynamic derivations enabled.
\<close>

fun single_wf :: "char \<Rightarrow> ExperimentalFeatureSettings \<Rightarrow> SingleDerivedPath \<Rightarrow> bool" where
  "single_wf sep xp (SDP_Opaque p) \<longleftrightarrow> wf_path p"
| "single_wf sep xp (SDP_Built drv out) \<longleftrightarrow> single_wf sep xp drv \<and> sep \<notin> set out \<and>
     (case drv of SDP_Opaque p \<Rightarrow> True | SDP_Built d x \<Rightarrow> xp_isEnabled xp DynamicDerivations)"

fun derived_wf :: "char \<Rightarrow> ExperimentalFeatureSettings \<Rightarrow> DerivedPath \<Rightarrow> bool" where
  "derived_wf sep xp (DP_Opaque p) \<longleftrightarrow> wf_path p"
| "derived_wf sep xp (DP_Built drv outs) \<longleftrightarrow> single_wf sep xp drv \<and> spec_wf outs \<and>
     (case drv of SDP_Opaque p \<Rightarrow> True | SDP_Built d x \<Rightarrow> xp_isEnabled xp DynamicDerivations)"

lemma printed_path_no_separator:
  assumes "wf_path p" "sep \<in> {CHR ''^'', CHR ''!''}" "sep \<notin> set (storeDir cfg)"
  shows "sep \<notin> set (printStorePath cfg p)"
proof -
  have hp: "set (StorePath_hashPart p) \<subseteq> set BaseNix32_characters" "valid_name (StorePath_name p)"
    using assms(1) by (simp_all add: wf_path_def valid_base_def StorePath_hashPart_def StorePath_name_def)
  have "sep \<notin> set BaseNix32_characters" "sep \<noteq> CHR ''-''" "sep \<noteq> slash"
    using assms(2) by (auto simp: BaseNix32_characters_def)
  moreover have "sep \<notin> set (StorePath_name p)"
    using assms(2) valid_name_plain(2,3) [OF hp(2)] by auto
  ultimately have "sep \<notin> set (baseName p)"
    using hp(1) unfolding wf_path_split [OF assms(1)] by auto
  with assms(3) \<open>sep \<noteq> slash\<close> show ?thesis by (simp add: printStorePath_def)
qed

lemma rfind_char_None: "c \<notin> set s \<Longrightarrow> rfind_char c s = None"
  by (simp add: rfind_char_def)

lemma parseWithSingle_opaque:
  assumes "canonical (storeDir cfg)" "sep \<in> {CHR ''^'', CHR ''!''}" "sep \<notin> set (storeDir cfg)" "wf_path p"
  shows "parseWithSingle cfg (printStorePath cfg p) sep xp = Inr (SDP_Opaque p)"
  using assms printed_path_no_separator [OF assms(4,2,3)] parse_printed [OF assms(1,4)]
  by (subst parseWithSingle.simps) (simp add: rfind_char_None)

lemma parseWithSingle_built:
  assumes "sep \<notin> set out"
  shows "parseWithSingle cfg (s @ sep # out) sep xp =
     result_bind (parseWithSingle cfg s sep xp) (\<lambda>drv. SingleDerivedPathBuilt_parse drv out xp)"
  by (subst parseWithSingle.simps) (simp add: rfind_char_append [OF assms])

lemma parseWithSingle_printed:
  assumes "canonical (storeDir cfg)" "CHR ''^'' \<notin> set (storeDir cfg)" "single_wf CHR ''^'' xp p"
  shows "parseWithSingle cfg (SingleDerivedPath_to_string cfg p) CHR ''^'' xp = Inr p"
  using assms(3)
proof (induction p)
  case (SDP_Opaque p)
  then show ?case using parseWithSingle_opaque [OF assms(1) _ assms(2)] by simp
next
  case (SDP_Built drv out)
  then have "SingleDerivedPathBuilt_parse drv out xp = Inr (SDP_Built drv out)"
    by (cases drv) (simp_all add: SingleDerivedPathBuilt_parse_def drvRequireExperiment_def xp_require_def)
  with SDP_Built show ?case by (simp add: parseWithSingle_built)
qed

lemma DerivedPathBuilt_parse_printed:
  assumes "derived_wf sep xp (DP_Built drv outs)"
  shows "DerivedPathBuilt_parse drv (OutputsSpec_to_string outs) xp = Inr (DP_Built drv outs)"
  using assms OutputsSpec_parse_printed [of outs]
  by (cases drv) (simp_all add: DerivedPathBuilt_parse_def drvRequireExperiment_def xp_require_def)

text \<open>
  A derived path printed with \<^verbatim>\<open>^\<close> parses back to itself, single and with an output
  specification, at any depth of nesting.
\<close>

theorem DerivedPath_roundtrip:
  assumes "canonical (storeDir cfg)" "CHR ''^'' \<notin> set (storeDir cfg)"
    and "single_wf CHR ''^'' xp p" "derived_wf CHR ''^'' xp d"
  shows "SingleDerivedPath_parse cfg (SingleDerivedPath_to_string cfg p) xp = Inr p \<and>
    DerivedPath_parse cfg (DerivedPath_to_string cfg d) xp = Inr d"
proof
  show "SingleDerivedPath_parse cfg (SingleDerivedPath_to_string cfg p) xp = Inr p"
    using parseWithSingle_printed [OF assms(1-3)] by (simp add: SingleDerivedPath_parse_def)
  show "DerivedPath_parse cfg (DerivedPath_to_string cfg d) xp = Inr d"
  proof (cases d)
    case (DP_Opaque q)
    then show ?thesis
      using assms printed_path_no_separator [of q "CHR ''^''" cfg] parse_printed [OF assms(1), of q]
      by (simp add: DerivedPath_parse_def parseWith_def rfind_char_None)
  next
    case (DP_Built drv outs)
    then have "rfind_char CHR ''^'' (SingleDerivedPath_to_string cfg drv @ CHR ''^'' # OutputsSpec_to_string outs) =
        Some (length (SingleDerivedPath_to_string cfg drv))"
      using assms(4) spec_chars(1) by (intro rfind_char_append) simp
    with DP_Built assms show ?thesis
      using parseWithSingle_printed [OF assms(1,2), of xp drv] DerivedPathBuilt_parse_printed [of "CHR ''^''" xp drv outs]
      by (simp add: DerivedPath_parse_def parseWith_def)
  qed
qed

theorem DerivedPath_roundtrip_witness:
  "let cfg = \<lparr>storeDir = ''/nix/store''\<rparr>; xp = \<lparr>experimentalFeatures = [DynamicDerivations]\<rparr>;
       p = SDP_Built (SDP_Built (SDP_Opaque (StorePath ''ffffffffffffffffffffffffffffffff-x'')) ''out'') ''dev''
   in SingleDerivedPath_parse cfg (SingleDerivedPath_to_string cfg p) xp = Inr p"
proof -
  have "canonical (storeDir \<lparr>storeDir = ''/nix/store''\<rparr>)" by code_simp
  moreover have "wf_path (StorePath ''ffffffffffffffffffffffffffffffff-x'')" by code_simp
  ultimately show ?thesis
    unfolding Let_def
    by (intro DerivedPath_roundtrip [where d =
        "DP_Opaque (StorePath ''ffffffffffffffffffffffffffffffff-x'')", THEN conjunct1])
      (simp_all add: xp_isEnabled_def)
qed

text \<open>The base name of a path printed with a caret in it is not valid.\<close>

lemma caret_not_in_store:
  assumes "canonical (storeDir cfg)" "wf_path p" "slash \<notin> set a" "CHR 0x00 \<notin> set a"
  shows "\<exists>e. parseStorePath cfg (printStorePath cfg p @ ''^'' @ a) = Inl e"
proof -
  obtain cs where cs: "valid_comps cs" "storeDir cfg = render cs"
    using assms(1) by (rule canonicalE) (rule that)
  let ?c = "baseName p @ ''^'' @ a"
  have len: "HashLen + 1 \<le> length (baseName p)" using assms(2) by (simp add: wf_path_def valid_base_def)
  have "length ?c > 2" using len by (simp add: HashLen_def)
  then have "?c \<noteq> ''.''" "?c \<noteq> ''..''" by (metis length_Cons list.size(3) less_nat_zero_code not_less_iff_gr_or_eq
    Suc_less_eq numeral_2_eq_2 zero_less_Suc)+
  then have c: "valid_comp ?c"
    using valid_base_comp [OF assms(2)] assms(3,4) unfolding valid_comp_def by simp
  have "canonPath (printStorePath cfg p @ ''^'' @ a) = Inr (render (cs @ [?c]))"
    using printed_comps [OF cs(1) c] cs c render_absolute [OF cs(1)]
    by (auto simp: canonPath_def canonPathInner_correct printStorePath_def fs_is_absolute_def)
  moreover have "\<not> valid_base ?c"
  proof
    assume "valid_base ?c"
    moreover have "CHR ''^'' \<in> set (drop (HashLen + 1) ?c)" using len by simp
    ultimately show False using valid_name_plain(2) unfolding valid_base_def by blast
  qed
  then obtain m where "StorePath_of ?c = Inl (BadStorePath m)" using StorePath_of_error_iff by blast
  ultimately show ?thesis
    using cs c fs_parent_path_render [of cs ?c] fs_filename_render [of cs ?c]
    by (simp add: parseStorePath_def) (auto simp: printStorePath_def fs_eq_def)
qed

text \<open>
  The legacy printer mixes separators: the inner path of a nested single derived path is
  printed with \<^verbatim>\<open>^\<close>. A path nested once is read back by the legacy parser, but a path nested
  twice never is: the legacy parser rejects what the legacy printer wrote.
\<close>

theorem DerivedPath_legacy_roundtrip_fails:
  assumes "canonical (storeDir cfg)" "CHR ''!'' \<notin> set (storeDir cfg)" "wf_path p"
    and "valid_name a" "valid_name b"
  shows "SingleDerivedPath_parseLegacy cfg (SingleDerivedPath_to_string_legacy cfg (SDP_Built (SDP_Opaque p) a)) xp =
      Inr (SDP_Built (SDP_Opaque p) a) \<and>
    (\<exists>e. SingleDerivedPath_parseLegacy cfg
      (SingleDerivedPath_to_string_legacy cfg (SDP_Built (SDP_Built (SDP_Opaque p) a) b)) xp = Inl e)"
proof
  show "SingleDerivedPath_parseLegacy cfg (SingleDerivedPath_to_string_legacy cfg (SDP_Built (SDP_Opaque p) a)) xp =
      Inr (SDP_Built (SDP_Opaque p) a)"
    using parseWithSingle_opaque [OF assms(1) _ assms(2,3)] valid_name_plain(3) [OF assms(4)]
    by (simp add: SingleDerivedPath_parseLegacy_def parseWithSingle_built SingleDerivedPathBuilt_parse_def
      drvRequireExperiment_def)
  have "CHR ''!'' \<notin> set (printStorePath cfg p @ ''^'' @ a)"
    using printed_path_no_separator [OF assms(3) _ assms(2)] valid_name_plain(3) [OF assms(4)] by simp
  moreover have "CHR 0x00 \<notin> set a"
    using valid_name_chars [OF assms(4)] name_char_plain by blast
  then obtain e where "parseStorePath cfg (printStorePath cfg p @ ''^'' @ a) = Inl e"
    using caret_not_in_store [OF assms(1,3)] valid_name_plain(5) [OF assms(4)] by blast
  ultimately have "parseWithSingle cfg (printStorePath cfg p @ ''^'' @ a) CHR ''!'' xp = Inl e"
    by (subst parseWithSingle.simps) (simp add: rfind_char_None)
  then show "\<exists>e. SingleDerivedPath_parseLegacy cfg
      (SingleDerivedPath_to_string_legacy cfg (SDP_Built (SDP_Built (SDP_Opaque p) a) b)) xp = Inl e"
    using valid_name_plain(3) [OF assms(5)] parseWithSingle_built [of "CHR ''!''" b cfg "printStorePath cfg p @ ''^'' @ a"]
    by (simp add: SingleDerivedPath_parseLegacy_def)
qed

theorem DerivedPath_legacy_roundtrip_fails_witness:
  "\<exists>e. SingleDerivedPath_parseLegacy \<lparr>storeDir = ''/nix/store''\<rparr>
     (SingleDerivedPath_to_string_legacy \<lparr>storeDir = ''/nix/store''\<rparr> (SDP_Built (SDP_Built
       (SDP_Opaque (StorePath ''ffffffffffffffffffffffffffffffff-x'')) ''out'') ''dev''))
     \<lparr>experimentalFeatures = [DynamicDerivations]\<rparr> = Inl e"
proof -
  have "canonical (storeDir \<lparr>storeDir = ''/nix/store''\<rparr>)" by code_simp
  moreover have "wf_path (StorePath ''ffffffffffffffffffffffffffffffff-x'')" by code_simp
  ultimately show ?thesis
    by (intro DerivedPath_legacy_roundtrip_fails [THEN conjunct2])
       (simp_all add: valid_name_def MaxPathLen_def name_char_def in_range_def)
qed

end
