(* ===== verification/Archive.thy ===== *)
theory Archive
  imports Serialise Canon_Path Strings "HOL-Library.Char_ord" "HOL-Library.List_Lexorder" "HOL-Library.AList"
begin

text \<open>
  Nix archives (\<^verbatim>\<open>libutil/archive.cc\<close>): the dump of a file system object as a sequence of
  serialised strings and the parser that restores it, with the case hack for case-insensitive
  file systems. The accessor that is dumped and the sink that is restored to are modelled by
  the tree of file system objects they hold.
\<close>

section \<open>File system objects\<close>

datatype fso = Regular bool string | Directory "(string \<times> fso) list" | Symlink string

definition narMaxDepth :: nat where
  "narMaxDepth = 64"

definition narMaxTag :: nat where
  "narMaxTag = 32"

definition narMaxName :: nat where
  "narMaxName = 255"

definition narMaxTarget :: nat where
  "narMaxTarget = 4095"

definition narVersionMagic1 :: string where
  "narVersionMagic1 = ''nix-archive-1''"

definition caseHackSuffix :: string where
  "caseHackSuffix = ''~nix~case~hack~''"

section \<open>Dumping\<close>

definition dumpContents :: "string \<Rightarrow> string" where
  "dumpContents data = writeString ''contents'' @
     writeNum (word_of_nat (length data)) @ data @ writePadding (length data)"

text \<open>
  \<^verbatim>\<open>unhacked\<close>: a map from the name in the archive to the entry, in the order of the names.
  With the case hack the suffix is cut off and a collision is an error.
\<close>

fun unhack :: "bool \<Rightarrow> (string \<times> fso) list \<Rightarrow> (string \<times> string \<times> fso) list \<Rightarrow>
    (string \<times> string \<times> fso) list result" where
  "unhack useCaseHack [] unhacked = Inr unhacked"
| "unhack useCaseHack ((n, t) # entries) unhacked =
     (let name = (if useCaseHack then
          (case find_str n caseHackSuffix 0 of None \<Rightarrow> n | Some pos \<Rightarrow> take pos n) else n) in
      if name \<in> fst ` set unhacked then
        (if useCaseHack then Inl (GenericError ''file name collision'')
         else unhack useCaseHack entries unhacked)
      else unhack useCaseHack entries (insort_key fst (name, n, t) unhacked))"

lemma unhack_nodes:
  "unhack h es m = Inr u \<Longrightarrow> (n, n', t) \<in> set u \<Longrightarrow> (n', t) \<in> set es \<or> (n, n', t) \<in> set m"
  by (induction h es m rule: unhack.induct) (auto simp: Let_def set_insort_key split: if_splits)

lemma map_result_cong [fundef_cong]:
  "xs = ys \<Longrightarrow> (\<And>x. x \<in> set ys \<Longrightarrow> f x = g x) \<Longrightarrow> map_result f xs = map_result g ys"
  by (induction ys arbitrary: xs) (auto cong: result_bind_cong)

lemma size_entry: "(n, t) \<in> set es \<Longrightarrow> size t < size (Directory es)"
  by (induction es) auto

text \<open>\<^verbatim>\<open>filterPath / name\<close> is \<open>push\<close>, which asserts that the name is a plain component.\<close>

function dump_node ::
  "bool \<Rightarrow> (string \<Rightarrow> bool) \<Rightarrow> CanonPath \<Rightarrow> nat \<Rightarrow> fso \<Rightarrow> string result" where
  "dump_node useCaseHack flt filterPath depth node =
     (if depth \<ge> narMaxDepth then Inl (GenericError ''exceeds maximum NAR directory depth'')
      else case node of
        Regular isExecutable contents \<Rightarrow>
          Inr (writeString ''('' @ writeString ''type'' @ writeString ''regular'' @
            (if isExecutable then writeString ''executable'' @ writeString [] else []) @
            dumpContents contents @ writeString '')'')
      | Directory entries \<Rightarrow>
          result_bind (unhack useCaseHack entries []) (\<lambda>unhacked.
          result_bind (map_result (\<lambda>i.
              result_bind (push filterPath (fst i)) (\<lambda>fp.
              if flt fp then
                result_bind (push filterPath (fst (snd i))) (\<lambda>fp'.
                result_bind (dump_node useCaseHack flt fp' (depth + 1) (snd (snd i))) (\<lambda>d.
                  Inr (writeString ''entry'' @ writeString ''('' @ writeString ''name'' @ writeString (fst i) @
                    writeString ''node'' @ d @ writeString '')'')))
              else Inr [])) unhacked) (\<lambda>ds.
            Inr (writeString ''('' @ writeString ''type'' @ writeString ''directory'' @ concat ds @ writeString '')'')))
      | Symlink target \<Rightarrow>
          Inr (writeString ''('' @ writeString ''type'' @ writeString ''symlink'' @ writeString ''target'' @
            writeString target @ writeString '')''))"
  by pat_completeness auto
termination
  by (relation "measure (\<lambda>(h, f, fp, d, node). size node)")
     (auto dest!: unhack_nodes [where m = "[]"] size_entry)

declare dump_node.simps [simp del]

definition dumpPath :: "bool \<Rightarrow> (string \<Rightarrow> bool) \<Rightarrow> CanonPath \<Rightarrow> fso \<Rightarrow> string result" where
  "dumpPath useCaseHack flt path node =
     result_bind (dump_node useCaseHack flt path 0 node) (\<lambda>d. Inr (writeString narVersionMagic1 @ d))"

definition dumpString :: "string \<Rightarrow> string" where
  "dumpString s = writeString narVersionMagic1 @ writeString ''('' @ writeString ''type'' @
     writeString ''regular'' @ writeString ''contents'' @ writeString s @ writeString '')''"

section \<open>Parsing\<close>

definition badArchive :: "string \<Rightarrow> nix_error" where
  "badArchive s = SerialisationError (''bad archive: '' @ s)"

definition expectTag :: "string \<Rightarrow> unit reader" where
  "expectTag expected source =
     result_bind (readString narMaxTag source) (\<lambda>(tag, source).
       if tag \<noteq> expected then Inl (badArchive ''expected tag'') else Inr ((), source))"

definition parseContents :: "string reader" where
  "parseContents source =
     result_bind (readLongLong source) (\<lambda>(n, source).
     result_bind (source_read (unat n) source) (\<lambda>(data, source).
     result_bind (readPadding (unat n) source) (\<lambda>(_, source). Inr (data, source))))"

text \<open>The keys of a map ordered by \<^verbatim>\<open>strcasecmp\<close>, and \<^verbatim>\<open>std::to_string\<close>.\<close>

definition to_lower :: "char \<Rightarrow> char" where
  "to_lower c = (if 65 \<le> (of_char c :: nat) \<and> (of_char c :: nat) \<le> 90 then char_of ((of_char c :: nat) + 32) else c)"

definition case_key :: "string \<Rightarrow> string" where
  "case_key s = map to_lower s"

fun to_string :: "nat \<Rightarrow> string" where
  "to_string n = (if n < 10 then [char_of (48 + n)] else to_string (n div 10) @ [char_of (48 + n mod 10)])"

declare to_string.simps [simp del]

text \<open>The name under which an entry is restored, and the map of names after it.\<close>

definition hack_name :: "bool \<Rightarrow> string \<Rightarrow> (string \<times> nat) list \<Rightarrow> (string \<times> (string \<times> nat) list) result" where
  "hack_name useCaseHack name names =
     (if useCaseHack then
        (case map_of names (case_key name) of
           Some i \<Rightarrow>
             (let name' = name @ caseHackSuffix @ to_string (i + 1) in
              case map_of names (case_key name') of
                Some j \<Rightarrow> Inl (badArchive ''file name collides with case-hacked file name'')
              | None \<Rightarrow> Inr (name', AList.update (case_key name) (i + 1) names))
         | None \<Rightarrow> Inr (name, AList.update (case_key name) 0 names))
      else Inr (name, names))"

definition entry_name_ok :: "string \<Rightarrow> bool" where
  "entry_name_ok name \<longleftrightarrow> \<not> (name = [] \<or> name = ''.'' \<or> name = ''..'' \<or> slash \<in> set name \<or> CHR 0x00 \<in> set name)"

text \<open>
  The loop over the entries of a directory, with the parser of a node as an argument. The
  fuel bounds the number of iterations; one more than the length of the source is always enough,
  because every iteration reads a tag.
\<close>

fun parse_entries ::
  "nat \<Rightarrow> fso reader \<Rightarrow> bool \<Rightarrow> string \<Rightarrow> (string \<times> nat) list \<Rightarrow> (string \<times> fso) list reader" where
  "parse_entries 0 parse useCaseHack prevName names source = Inl OutOfFuel"
| "parse_entries (Suc fuel) parse useCaseHack prevName names source =
     result_bind (readString narMaxTag source) (\<lambda>(tag, source).
     if tag = '')'' then Inr ([], source)
     else if tag \<noteq> ''entry'' then Inl (badArchive ''expected tag entry or )'')
     else
       result_bind (expectTag ''('' source) (\<lambda>(_, source).
       result_bind (expectTag ''name'' source) (\<lambda>(_, source).
       result_bind (readString narMaxName source) (\<lambda>(name, source).
       result_bind (ensure (entry_name_ok name) (badArchive ''NAR contains invalid file name'')) (\<lambda>_.
       result_bind (ensure (\<not> name \<le> prevName) (badArchive ''NAR directory is not sorted'')) (\<lambda>_.
       result_bind (hack_name useCaseHack name names) (\<lambda>(name', names).
       result_bind (expectTag ''node'' source) (\<lambda>(_, source).
       result_bind (parse source) (\<lambda>(node, source).
       result_bind (expectTag '')'' source) (\<lambda>(_, source).
       result_bind (parse_entries fuel parse useCaseHack name names source) (\<lambda>(entries, source).
         Inr ((name', node) # entries, source))))))))))))"

text \<open>The three kinds of nodes, after their type was read; \<open>parse\<close> reads the nodes of entries.\<close>

definition parse_regular :: "fso reader" where
  "parse_regular source =
     result_bind (readString narMaxTag source) (\<lambda>(tag, source).
     result_bind
       (if tag = ''executable'' then
          result_bind (readString 0 source) (\<lambda>(s2, source).
          result_bind (ensure (s2 = []) (badArchive ''executable marker has non-empty value'')) (\<lambda>_.
          result_bind (readString narMaxTag source) (\<lambda>(tag, source). Inr ((True, tag), source))))
        else Inr ((False, tag), source)) (\<lambda>((isExecutable, tag), source).
     result_bind (ensure (tag = ''contents'') (badArchive ''expected tag contents'')) (\<lambda>_.
     result_bind (parseContents source) (\<lambda>(data, source).
     result_bind (expectTag '')'' source) (\<lambda>(_, source). Inr (Regular isExecutable data, source))))))"

definition parse_symlink :: "fso reader" where
  "parse_symlink source =
     result_bind (expectTag ''target'' source) (\<lambda>(_, source).
     result_bind (readString narMaxTarget source) (\<lambda>(target, source).
     result_bind (ensure (\<not> (target = [] \<or> CHR 0x00 \<in> set target)) (badArchive ''NAR contains invalid symlink target'')) (\<lambda>_.
     result_bind (expectTag '')'' source) (\<lambda>(_, source). Inr (Symlink target, source)))))"

definition parse_typed :: "fso reader \<Rightarrow> bool \<Rightarrow> string \<Rightarrow> fso reader" where
  "parse_typed parse useCaseHack type source =
     (if type = ''regular'' then parse_regular source
      else if type = ''directory'' then
        result_bind (parse_entries (Suc (length source)) parse useCaseHack [] [] source)
          (\<lambda>(entries, source). Inr (Directory entries, source))
      else if type = ''symlink'' then parse_symlink source
      else Inl (badArchive ''unknown file type''))"

text \<open>A node; the first argument is \<open>narMaxDepth - depth\<close>.\<close>

fun parse_node :: "nat \<Rightarrow> bool \<Rightarrow> fso reader" where
  "parse_node 0 useCaseHack source = Inl (badArchive ''NAR directory nesting exceeds maximum depth'')"
| "parse_node (Suc levels) useCaseHack source =
     result_bind (expectTag ''('' source) (\<lambda>(_, source).
     result_bind (expectTag ''type'' source) (\<lambda>(_, source).
     result_bind (readString narMaxTag source) (\<lambda>(type, source).
       parse_typed (parse_node levels useCaseHack) useCaseHack type source)))"

definition parseDump :: "bool \<Rightarrow> fso reader" where
  "parseDump useCaseHack source =
     result_bind (case readString (length narVersionMagic1) source of
         Inl (SerialisationError m) \<Rightarrow> Inr ([], source)
       | r \<Rightarrow> r) (\<lambda>(version, source).
     result_bind (ensure (version = narVersionMagic1) (badArchive ''input does not look like a Nix archive'')) (\<lambda>_.
       parse_node narMaxDepth useCaseHack source))"

section \<open>The archive format\<close>

text \<open>The encoding of a node, without the checks and the order of evaluation of the code.\<close>

fun nar_node :: "fso \<Rightarrow> string" where
  "nar_node (Regular isExecutable contents) = writeString ''('' @ writeString ''type'' @ writeString ''regular'' @
     (if isExecutable then writeString ''executable'' @ writeString [] else []) @
     writeString ''contents'' @ writeString contents @ writeString '')''"
| "nar_node (Directory entries) = writeString ''('' @ writeString ''type'' @ writeString ''directory'' @
     concat (map (\<lambda>(n, t). writeString ''entry'' @ writeString ''('' @ writeString ''name'' @ writeString n @
       writeString ''node'' @ nar_node t @ writeString '')'') entries) @ writeString '')''"
| "nar_node (Symlink target) = writeString ''('' @ writeString ''type'' @ writeString ''symlink'' @
     writeString ''target'' @ writeString target @ writeString '')''"

definition nar_entry :: "('a \<Rightarrow> string) \<Rightarrow> string \<times> 'a \<Rightarrow> string" where
  "nar_entry enc = (\<lambda>(n, t). writeString ''entry'' @ writeString ''('' @ writeString ''name'' @ writeString n @
     writeString ''node'' @ enc t @ writeString '')'')"

lemma nar_node_Directory:
  "nar_node (Directory entries) = writeString ''('' @ writeString ''type'' @ writeString ''directory'' @
     concat (map (nar_entry nar_node) entries) @ writeString '')''"
  by (simp add: nar_entry_def)

fun entries_wf :: "('a \<Rightarrow> bool) \<Rightarrow> string \<Rightarrow> (string \<times> 'a) list \<Rightarrow> bool" where
  "entries_wf legal prevName [] \<longleftrightarrow> True"
| "entries_wf legal prevName ((n, t) # entries) \<longleftrightarrow> entry_name_ok n \<and> length n \<le> narMaxName \<and> prevName < n \<and>
     legal t \<and> entries_wf legal n entries"

fun node_wf :: "nat \<Rightarrow> fso \<Rightarrow> bool" where
  "node_wf 0 node \<longleftrightarrow> False"
| "node_wf (Suc levels) (Regular isExecutable contents) \<longleftrightarrow> length contents < 2 ^ 64"
| "node_wf (Suc levels) (Directory entries) \<longleftrightarrow> entries_wf (node_wf levels) [] entries"
| "node_wf (Suc levels) (Symlink target) \<longleftrightarrow> target \<noteq> [] \<and> CHR 0x00 \<notin> set target \<and> length target \<le> narMaxTarget"

section \<open>The parser accepts exactly the archive format\<close>

lemma tag_legal: "length t \<le> 32 \<Longrightarrow> string_legal narMaxTag t"
  by (simp add: string_legal_def narMaxTag_def)

lemma readTag_iff: "readString narMaxTag s = Inr (t, rest) \<longleftrightarrow> s = writeString t @ rest \<and> length t \<le> 32"
  by (auto simp: readString_iff string_legal_def narMaxTag_def)

lemma expectTag_iff:
  "length t \<le> 32 \<Longrightarrow> expectTag t s = Inr (u, rest) \<longleftrightarrow> s = writeString t @ rest"
  by (auto simp: expectTag_def result_simps readTag_iff split: if_splits)

lemma expectTag_write [simp]: "length t \<le> 32 \<Longrightarrow> expectTag t (writeString t @ rest) = Inr ((), rest)"
  by (simp add: expectTag_iff)

lemma readTag_write [simp]: "length t \<le> 32 \<Longrightarrow> readString narMaxTag (writeString t @ rest) = Inr (t, rest)"
  by (simp add: readTag_iff)

lemma readName_iff:
  "readString narMaxName s = Inr (t, rest) \<longleftrightarrow> s = writeString t @ rest \<and> length t \<le> narMaxName"
  by (auto simp: readString_iff string_legal_def narMaxName_def)

lemma readTarget_iff:
  "readString narMaxTarget s = Inr (t, rest) \<longleftrightarrow> s = writeString t @ rest \<and> length t \<le> narMaxTarget"
  by (auto simp: readString_iff string_legal_def narMaxTarget_def)

lemma readEmpty_iff: "readString 0 s = Inr (t, rest) \<longleftrightarrow> t = [] \<and> s = writeString [] @ rest"
  by (auto simp: readString_iff string_legal_def)

lemma parseContents_iff:
  "parseContents s = Inr (x, rest) \<longleftrightarrow> s = writeString x @ rest \<and> length x < 2 ^ 64"
proof -
  have "parseContents s = readString (2 ^ 64 - 1) s"
  proof -
    have "\<not> unat len > 2 ^ 64 - 1" for len :: "64 word" using unat_less [of len] by linarith
    then show ?thesis by (simp add: parseContents_def readString_def readLongLong_def)
  qed
  then show ?thesis by (auto simp: readString_iff string_legal_def)
qed

lemmas archive_read_iffs = readTag_iff readName_iff readTarget_iff readEmpty_iff parseContents_iff expectTag_iff

lemma parse_entries_sound:
  assumes "serialiser enc parse legal"
    and "parse_entries fuel parse False prevName names s = Inr (es, rest)"
  shows "s = concat (map (nar_entry enc) es) @ writeString '')'' @ rest \<and> entries_wf legal prevName es"
  using assms(2)
proof (induction fuel arbitrary: prevName names s es)
  case (Suc fuel)
  from Suc.prems show ?case
    by (auto simp: result_simps archive_read_iffs hack_name_def nar_entry_def not_le
      serialiser.read_iff [OF assms(1)] dest!: Suc.IH split: if_splits)
qed simp

lemma parse_entries_complete:
  assumes "serialiser enc parse legal" "entries_wf legal prevName es" "length es < fuel"
  shows "parse_entries fuel parse False prevName names (concat (map (nar_entry enc) es) @ writeString '')'' @ rest) =
    Inr (es, rest)"
  using assms(2,3)
proof (induction es arbitrary: prevName fuel names)
  case Nil
  then show ?case by (cases fuel) simp_all
next
  case (Cons e es)
  obtain n t where e: "e = (n, t)" by (cases e)
  obtain fuel' where fuel: "fuel = Suc fuel'" "length es < fuel'" using Cons.prems by (cases fuel) auto
  have name: "readString narMaxName (writeString n @ r) = Inr (n, r)" for r
    using Cons.prems e by (simp add: readName_iff)
  have node: "parse (enc t @ r) = Inr (t, r)" for r
    using Cons.prems e serialiser.read_write [OF assms(1)] by simp
  have IH: "parse_entries fuel' parse False n names (concat (map (nar_entry enc) es) @ writeString '')'' @ rest) =
      Inr (es, rest)"
    using Cons.IH [of n fuel'] Cons.prems e fuel by simp
  show ?case
    using Cons.prems by (simp add: e fuel nar_entry_def name node hack_name_def not_le)
      (simp add: IH [unfolded nar_entry_def])
qed

lemma length_nar_entries: "length es \<le> length (concat (map (nar_entry enc) es))"
proof (induction es)
  case (Cons e es)
  have "1 \<le> length (nar_entry enc e)" by (cases e) (simp add: nar_entry_def writeString_def)
  with Cons show ?case by simp
qed simp

lemma parse_regular_sound:
  "parse_regular s = Inr (t, rest) \<Longrightarrow>
     \<exists>x c. t = Regular x c \<and> writeString ''('' @ writeString ''type'' @ writeString ''regular'' @ s = nar_node t @ rest \<and>
       node_wf (Suc levels) t"
  by (auto simp: parse_regular_def result_simps archive_read_iffs split: if_splits)

lemma parse_symlink_sound:
  "parse_symlink s = Inr (t, rest) \<Longrightarrow>
     \<exists>l. t = Symlink l \<and> writeString ''('' @ writeString ''type'' @ writeString ''symlink'' @ s = nar_node t @ rest \<and>
       node_wf (Suc levels) t"
  by (auto simp: parse_symlink_def result_simps archive_read_iffs)

lemma parse_node_sound:
  assumes "serialiser nar_node (parse_node levels False) (node_wf levels)"
    and "parse_node (Suc levels) False s = Inr (t, rest)"
  shows "s = nar_node t @ rest \<and> node_wf (Suc levels) t"
proof -
  from assms(2) obtain type s1 where type: "s = writeString ''('' @ writeString ''type'' @ writeString type @ s1"
      "parse_typed (parse_node levels False) False type s1 = Inr (t, rest)"
    by (auto simp: result_simps archive_read_iffs)
  from type(2) consider "type = ''regular''" "parse_regular s1 = Inr (t, rest)"
    | "type = ''symlink''" "parse_symlink s1 = Inr (t, rest)"
    | es where "type = ''directory''" "t = Directory es"
        "parse_entries (Suc (length s1)) (parse_node levels False) False [] [] s1 = Inr (es, rest)"
    by (auto simp: parse_typed_def result_simps split: if_splits)
  then show ?thesis
  proof cases
    case 1
    with parse_regular_sound [of s1 t rest levels] type(1) show ?thesis by auto
  next
    case 2
    with parse_symlink_sound [of s1 t rest levels] type(1) show ?thesis by auto
  next
    case 3
    with parse_entries_sound [OF assms(1) 3(3)] type(1) show ?thesis
      by (simp add: nar_node_Directory del: nar_node.simps)
  qed
qed

lemma parse_node_complete:
  assumes "serialiser nar_node (parse_node levels False) (node_wf levels)" "node_wf (Suc levels) t"
  shows "parse_node (Suc levels) False (nar_node t @ rest) = Inr (t, rest)"
proof (cases t)
  case (Regular x c)
  have "parseContents (writeString c @ r) = Inr (c, r)" for r
    using assms(2) Regular by (simp add: parseContents_iff)
  moreover have "readString 0 (writeString [] @ r) = Inr ([], r)" for r by (simp add: readEmpty_iff)
  ultimately show ?thesis by (simp add: Regular parse_typed_def parse_regular_def)
next
  case (Directory es)
  have "length es < Suc (length (concat (map (nar_entry nar_node) es) @ writeString '')'' @ rest))"
    using length_nar_entries [of es nar_node] by (simp add: writeString_def)
  from parse_entries_complete [OF assms(1) _ this] assms(2) Directory show ?thesis
    by (simp add: nar_node_Directory parse_typed_def del: nar_node.simps length_append)
next
  case (Symlink target)
  have "readString narMaxTarget (writeString target @ r) = Inr (target, r)" for r
    using assms(2) Symlink by (simp add: readTarget_iff)
  with assms(2) show ?thesis by (simp add: Symlink parse_typed_def parse_symlink_def)
qed

lemma parse_node_serialiser: "serialiser nar_node (parse_node levels False) (node_wf levels)"
proof (induction levels)
  case 0
  show ?case by unfold_locales simp_all
next
  case (Suc levels)
  show ?case
    by unfold_locales
       (blast intro: parse_node_complete [OF Suc] dest: parse_node_sound [OF Suc])+
qed

interpretation node: serialiser nar_node "parse_node levels False" "node_wf levels" for levels
  by (rule parse_node_serialiser)

text \<open>Legal archives: the version string and a node within the depth limit.\<close>

definition nar :: "fso \<Rightarrow> string" where
  "nar t = writeString narVersionMagic1 @ nar_node t"

lemma parseDump_iff: "parseDump False s = Inr (t, rest) \<longleftrightarrow> s = nar t @ rest \<and> node_wf narMaxDepth t"
proof -
  have "parseDump False s = Inr (t, rest) \<longleftrightarrow>
      (\<exists>s'. readString (length narVersionMagic1) s = Inr (narVersionMagic1, s') \<and>
        parse_node narMaxDepth False s' = Inr (t, rest))"
    by (auto simp: parseDump_def result_simps narVersionMagic1_def split: sum.splits nix_error.splits)
  also have "\<dots> \<longleftrightarrow> s = nar t @ rest \<and> node_wf narMaxDepth t"
    by (auto simp: readString_iff string_legal_def node.read_iff nar_def narVersionMagic1_def)
  finally show ?thesis .
qed

interpretation dump: serialiser nar "parseDump False" "node_wf narMaxDepth"
  by unfold_locales (simp_all add: parseDump_iff)

section \<open>The dump writes the archive format\<close>

lemma insort_sorted_last: "\<forall>x\<in>set m. fst x < n \<Longrightarrow> insort_key fst (n, a) m = m @ [(n, a)]"
  by (induction m) auto

lemma entries_wf_less: "entries_wf legal p es \<Longrightarrow> (n, t) \<in> set es \<Longrightarrow> p < n \<and> entry_name_ok n \<and> legal t"
proof (induction legal p es rule: entries_wf.induct)
  case (2 legal p n' t' es)
  then show ?case by (auto intro: less_trans)
qed simp

lemma unhack_sorted:
  assumes "entries_wf legal p es" "\<forall>x\<in>set m. fst x \<le> p"
  shows "unhack False es m = Inr (m @ map (\<lambda>(n, t). (n, n, t)) es)"
  using assms
proof (induction legal p es arbitrary: m rule: entries_wf.induct)
  case (2 legal p n t es)
  then have less: "\<forall>x\<in>set m. fst x < n" by auto
  then have "n \<notin> fst ` set m" by auto
  moreover have "unhack False es (m @ [(n, n, t)]) = Inr ((m @ [(n, n, t)]) @ map (\<lambda>(n, t). (n, n, t)) es)"
    using 2 less by (intro "2.IH") (auto intro: less_imp_le)
  ultimately show ?case using less by (simp add: Let_def insort_sorted_last)
qed simp

lemma push_ok: "entry_name_ok n \<Longrightarrow> \<exists>q. push p n = Inr q"
  by (auto simp: push_def entry_name_ok_def ensureNoNullBytes_def)

lemma dumpContents_eq: "dumpContents c = writeString ''contents'' @ writeString c"
  by (simp add: dumpContents_def writeString_def)

lemma dump_node_nar:
  assumes "node_wf levels t" "depth + levels = narMaxDepth"
  shows "dump_node False (\<lambda>_. True) fp depth t = Inr (nar_node t)"
  using assms
proof (induction levels arbitrary: fp depth t)
  case (Suc levels)
  then have depth: "\<not> depth \<ge> narMaxDepth" by simp
  show ?case
  proof (cases t)
    case (Directory es)
    with Suc.prems have wf: "entries_wf (node_wf levels) [] es" by simp
    let ?u = "map (\<lambda>(n, t). (n, n, t)) es"
    let ?e = "\<lambda>i. nar_entry nar_node (fst i, snd (snd i))"
    have entry: "result_bind (push fp (fst i)) (\<lambda>q.
        result_bind (push fp (fst (snd i))) (\<lambda>fp'.
        result_bind (dump_node False (\<lambda>_. True) fp' (Suc depth) (snd (snd i))) (\<lambda>d.
          Inr (writeString ''entry'' @ writeString ''('' @ writeString ''name'' @ writeString (fst i) @
            writeString ''node'' @ d @ writeString '')'')))) = Inr (?e i)"
      if i: "i \<in> set ?u" for i
    proof -
      obtain n n' t' where x: "i = (n, n', t')" by (cases i)
      with i have "(n, t') \<in> set es" "n' = n" by auto
      then have "entry_name_ok n" "node_wf levels t'" using entries_wf_less [OF wf] by blast+
      then show ?thesis
        using push_ok [of n fp] Suc.IH [of t' "Suc depth"] Suc.prems(2) x \<open>n' = n\<close> by (auto simp: nar_entry_def)
    qed
    have "map_result (\<lambda>i. result_bind (push fp (fst i)) (\<lambda>q.
        result_bind (push fp (fst (snd i))) (\<lambda>fp'.
        result_bind (dump_node False (\<lambda>_. True) fp' (Suc depth) (snd (snd i))) (\<lambda>d.
          Inr (writeString ''entry'' @ writeString ''('' @ writeString ''name'' @ writeString (fst i) @
            writeString ''node'' @ d @ writeString '')''))))) ?u = Inr (map ?e ?u)"
      by (rule map_result_map) (rule entry)
    also have "map ?e ?u = map (nar_entry nar_node) es" by (auto simp: nar_entry_def)
    finally show ?thesis
      using depth unhack_sorted [OF wf, of "[]"]
      by (subst dump_node.simps) (simp add: Directory nar_node_Directory del: nar_node.simps)
  qed (use depth in \<open>simp_all add: dump_node.simps dumpContents_eq\<close>)
qed simp

text \<open>
  C28: Nix archives are a canonical form. The parser accepts a stream exactly when it starts
  with the dump of a file system object that is within the limits of the format (entries
  strictly sorted with safe names, bounded names, targets and nesting), and it returns that
  object and the rest of the stream: dumping and parsing are inverse, and no two different
  archives restore to the same object.
\<close>

theorem NAR_canonical:
  "parseDump False s = Inr (t, rest) \<longleftrightarrow>
     node_wf narMaxDepth t \<and> (\<exists>d. dumpPath False (\<lambda>_. True) path t = Inr d \<and> s = d @ rest)"
proof -
  have "dumpPath False (\<lambda>_. True) path t = Inr (nar t)" if "node_wf narMaxDepth t"
    using dump_node_nar [OF that, of 0 path] by (simp add: dumpPath_def nar_def)
  then show ?thesis by (auto simp: dump.read_iff)
qed

section \<open>Safety of what is restored\<close>

text \<open>No entry name can leave its directory; with the case hack too.\<close>

fun names_safe :: "fso \<Rightarrow> bool" where
  "names_safe (Directory entries) \<longleftrightarrow> list_all (\<lambda>(n, t). entry_name_ok n \<and> names_safe t) entries"
| "names_safe _ \<longleftrightarrow> True"

lemma to_string_digits: "c \<in> set (to_string n) \<Longrightarrow> 48 \<le> (of_char c :: nat) \<and> (of_char c :: nat) \<le> 57"
proof (induction n rule: to_string.induct)
  case (1 n)
  show ?case
  proof (cases "n < 10")
    case True
    then show ?thesis using "1.prems" by (subst (asm) to_string.simps) auto
  next
    case False
    have "n mod 10 < 10" by simp
    moreover have "c \<in> set (to_string (n div 10)) \<or> c = char_of (48 + n mod 10)"
      using "1.prems" False by (subst (asm) to_string.simps) auto
    ultimately show ?thesis using 1 False by auto
  qed
qed

lemma hacked_name_ok:
  assumes "entry_name_ok name"
  shows "entry_name_ok (name @ caseHackSuffix @ to_string k)"
proof -
  have digits: "slash \<notin> set (to_string k)" "CHR 0x00 \<notin> set (to_string k)"
    using to_string_digits [of slash k] to_string_digits [of "CHR 0x00" k] by auto
  have "2 < length (name @ caseHackSuffix @ to_string k)" by (simp add: caseHackSuffix_def)
  then have "name @ caseHackSuffix @ to_string k \<noteq> []" "name @ caseHackSuffix @ to_string k \<noteq> ''.''"
      "name @ caseHackSuffix @ to_string k \<noteq> ''..''"
    by (metis length_Cons list.size(3) less_nat_zero_code Suc_less_eq numeral_2_eq_2)+
  with assms digits show ?thesis by (auto simp: entry_name_ok_def caseHackSuffix_def)
qed

lemma hack_name_ok:
  "hack_name h name names = Inr (name', names') \<Longrightarrow> entry_name_ok name \<Longrightarrow> entry_name_ok name'"
  by (auto simp: hack_name_def Let_def hacked_name_ok split: if_splits option.splits)

lemma fine_readString: "fine (\<lambda>(x, r). length r < length s) (readString m s)"
proof (cases "readString m s")
  case (Inl e)
  then show ?thesis
    by (auto simp: readString_def readNum_def source_read_def readPadding_def Let_def ensure_def result_simps
      split: if_splits)
next
  case (Inr p)
  then have "s = writeString (fst p) @ snd p" by (cases p) (simp add: readString_iff)
  then have "length (snd p) < length s" by (simp add: writeString_def)
  with Inr show ?thesis by (simp add: case_prod_beta)
qed

lemma fine_expectTag: "fine (\<lambda>(_, r). length r < length s) (expectTag t s)"
  unfolding expectTag_def by (rule fine_bind [OF fine_readString]) (auto simp: badArchive_def)

lemma fine_parseContents: "fine (\<lambda>(_, r). length r < length s) (parseContents s)"
proof (cases "parseContents s")
  case (Inl e)
  then show ?thesis
    by (auto simp: parseContents_def readLongLong_def readNum_def source_read_def readPadding_def Let_def
      result_simps split: if_splits)
next
  case (Inr p)
  then have "s = writeString (fst p) @ snd p" by (cases p) (simp add: parseContents_iff)
  then have "length (snd p) < length s" by (simp add: writeString_def)
  with Inr show ?thesis by (simp add: case_prod_beta)
qed

lemma fine_hack_name: "entry_name_ok name \<Longrightarrow> fine (\<lambda>(name', _). entry_name_ok name') (hack_name h name names)"
  using hack_name_ok [of h name names]
  by (cases "hack_name h name names") (auto simp: hack_name_def badArchive_def Let_def split: if_splits option.splits)

lemmas fine_steps = fine_bind [OF fine_readString] fine_bind [OF fine_expectTag] fine_bind [OF fine_parseContents]
  fine_bind [OF fine_ensure]

definition node_reader :: "fso reader \<Rightarrow> bool" where
  "node_reader parse \<longleftrightarrow> (\<forall>s. fine (\<lambda>(t, r). length r \<le> length s \<and> names_safe t) (parse s))"

lemma fine_parse_entries:
  assumes "node_reader parse" "length s < fuel"
  shows "fine (\<lambda>(es, r). length r \<le> length s \<and> list_all (\<lambda>(n, t). entry_name_ok n \<and> names_safe t) es)
    (parse_entries fuel parse h prevName names s)"
  using assms(2)
proof (induction fuel arbitrary: prevName names s)
  case (Suc fuel)
  have parse: "fine (\<lambda>(t, r). length r \<le> length s' \<and> names_safe t) (parse s')" for s'
    using assms(1) by (simp add: node_reader_def)
  show ?case
    unfolding parse_entries.simps
    apply (rule fine_steps, clarsimp simp: badArchive_def)+
    apply (rule fine_bind [OF fine_hack_name], assumption, clarsimp)
    apply (rule fine_steps, clarsimp)
    apply (rule fine_bind [OF parse], clarsimp)
    apply (rule fine_steps, clarsimp)
    apply (rule fine_bind [OF Suc.IH])
    using Suc.prems by auto
qed simp

lemma fine_parse_regular: "fine (\<lambda>(t, r). length r \<le> length s \<and> names_safe t) (parse_regular s)"
proof -
  have marker: "fine (\<lambda>(_, r). length r \<le> length s')
      (if tag = ''executable'' then
         result_bind (readString 0 s') (\<lambda>(s2, source).
         result_bind (ensure (s2 = []) (badArchive ''executable marker has non-empty value'')) (\<lambda>_.
         result_bind (readString narMaxTag source) (\<lambda>(tag, source). Inr ((True, tag), source))))
       else Inr ((False, tag), s'))" for tag s'
    by (auto intro!: fine_steps simp: badArchive_def)
  show ?thesis
    unfolding parse_regular_def
  proof (rule fine_steps(1), goal_cases)
    case (1 x)
    obtain tag s' where x: "x = (tag, s')" by (cases x)
    then have s': "length s' < length s" using 1 by simp
    show ?case
      unfolding x prod.case
      by (rule fine_bind [OF marker]) (use s' in \<open>auto intro!: fine_steps simp: badArchive_def\<close>)
  qed
qed

lemma fine_parse_symlink: "fine (\<lambda>(t, r). length r \<le> length s \<and> names_safe t) (parse_symlink s)"
  unfolding parse_symlink_def by (auto intro!: fine_steps simp: badArchive_def)

lemma node_reader_parse_node: "node_reader (parse_node levels h)"
proof (induction levels)
  case (Suc levels)
  have typed: "fine (\<lambda>(t, r). length r \<le> length s \<and> names_safe t) (parse_typed (parse_node levels h) h type s)" for type s
    using fine_parse_regular [of s] fine_parse_symlink [of s]
    by (auto simp: parse_typed_def badArchive_def simp del: parse_entries.simps
      intro!: fine_bind [OF fine_parse_entries [OF Suc]])
  have "fine (\<lambda>(t, r). length r \<le> length s \<and> names_safe t) (parse_node (Suc levels) h s)" for s
    unfolding parse_node.simps by (auto intro!: fine_steps fine_mono [OF typed])
  then show ?case by (simp add: node_reader_def)
qed (simp add: node_reader_def badArchive_def)



section \<open>The case hack\<close>

lemma to_string_1: "to_string 1 = ''1''"
  by code_simp

lemma parse_symlink_node:
  assumes "node_wf (Suc 0) (Symlink l)"
  shows "parse_node (Suc k) h (nar_node (Symlink l) @ rest) = Inr (Symlink l, rest)"
proof -
  have "readString narMaxTarget (writeString l @ r) = Inr (l, r)" for r
    using assms by (simp add: readTarget_iff)
  with assms show ?thesis by (simp add: parse_typed_def parse_symlink_def)
qed

lemma parse_entries_step:
  assumes "entry_name_ok n" "length n \<le> 255" "prevName < n" "hack_name h n names = Inr (n', names')"
    and "\<And>r. parse (enc t @ r) = Inr (t, r)"
  shows "parse_entries (Suc fuel) parse h prevName names (nar_entry enc (n, t) @ rest) =
    result_bind (parse_entries fuel parse h n names' rest) (\<lambda>(es, source). Inr ((n', t) # es, source))"
proof -
  have "readString narMaxName (writeString n @ r) = Inr (n, r)" for r
    using assms(2) by (simp add: readName_iff) (simp add: narMaxName_def)
  with assms show ?thesis by (simp add: nar_entry_def not_le)
qed

text \<open>
  With the case hack, the check for collisions looks only at plain names seen before. An
  archive that has an entry spelled like a hacked name after the pair that produces the
  hacked name is accepted, and two entries of the restored directory have the same name.
\<close>

theorem case_hack_duplicate_names:
  "parseDump True (nar (Directory [(''A'', Symlink ''x''), (''a'', Symlink ''y''), (''a~nix~case~hack~1'', Symlink ''z'')])) =
     Inr (Directory [(''A'', Symlink ''x''), (''a~nix~case~hack~1'', Symlink ''y''),
       (''a~nix~case~hack~1'', Symlink ''z'')], [])"
proof -
  let ?es = "[(''A'', Symlink ''x''), (''a'', Symlink ''y''), (''a~nix~case~hack~1'', Symlink ''z'')]"
  let ?s = "concat (map (nar_entry nar_node) ?es) @ writeString '')''"
  define k where "k = Suc 62"
  let ?p = "parse_node k True"
  have depth: "narMaxDepth = Suc k" by (simp add: narMaxDepth_def k_def)
  have link: "?p (nar_node (Symlink l) @ r) = Inr (Symlink l, r)" if "l \<in> {''x'', ''y'', ''z''}" for l r
    unfolding k_def by (rule parse_symlink_node) (use that in \<open>auto simp: narMaxTarget_def\<close>)
  have keys: "case_key ''A'' = ''a''" "case_key ''a'' = ''a''"
      "case_key ''a~nix~case~hack~1'' = ''a~nix~case~hack~1''"
    by code_simp+
  have hacks: "hack_name True ''A'' [] = Inr (''A'', [(''a'', 0)])"
      "hack_name True ''a'' [(''a'', 0)] = Inr (''a~nix~case~hack~1'', [(''a'', Suc 0)])"
      "hack_name True ''a~nix~case~hack~1'' [(''a'', Suc 0)] =
        Inr (''a~nix~case~hack~1'', [(''a'', Suc 0), (''a~nix~case~hack~1'', 0)])"
    by (simp_all add: hack_name_def keys caseHackSuffix_def to_string_1 [simplified] Let_def)
  have ok: "entry_name_ok ''A''" "entry_name_ok ''a''" "entry_name_ok ''a~nix~case~hack~1''"
    by (simp_all add: entry_name_ok_def)
  have less: "[] < ''A''" "''A'' < ''a''" "''a'' < ''a~nix~case~hack~1''"
    by (simp_all add: less_char_def)
  have last_tag: "parse_entries (Suc n) ?p True prev names (writeString '')'') = Inr ([], [])" for n prev names
    using readTag_write [of "'')''" "[]"] by simp
  have entries: "parse_entries (Suc (Suc (Suc (Suc n)))) ?p True [] [] ?s =
      Inr ([(''A'', Symlink ''x''), (''a~nix~case~hack~1'', Symlink ''y''), (''a~nix~case~hack~1'', Symlink ''z'')], [])"
    for n
    by (simp add: parse_entries_step [where parse = ?p, OF ok(1) _ less(1) hacks(1)]
      parse_entries_step [where parse = ?p, OF ok(2) _ less(2) hacks(2)]
      parse_entries_step [where parse = ?p, OF ok(3) _ less(3) hacks(3)]
      link last_tag del: parse_entries.simps nar_node.simps parse_node.simps)
  have three: "Suc (Suc (Suc 0)) \<le> m \<Longrightarrow> \<exists>n. m = Suc (Suc (Suc n))" for m by presburger
  have "\<exists>n. length ?s = Suc (Suc (Suc n))"
  proof -
    have "length ?es \<le> length (concat (map (nar_entry nar_node) ?es))" by (rule length_nar_entries)
    also have "\<dots> \<le> length ?s" by (simp only: length_append le_add1)
    finally have "Suc (Suc (Suc 0)) \<le> length ?s" by (simp only: list.size)
    then show ?thesis by (rule three)
  qed
  then obtain n where n: "length ?s = Suc (Suc (Suc n))" by (rule exE)
  have "parse_entries (Suc (length ?s)) ?p True [] [] ?s =
      Inr ([(''A'', Symlink ''x''), (''a~nix~case~hack~1'', Symlink ''y''), (''a~nix~case~hack~1'', Symlink ''z'')], [])"
    unfolding n by (rule entries)
  then have "parse_node narMaxDepth True (nar_node (Directory ?es)) =
      Inr (Directory [(''A'', Symlink ''x''), (''a~nix~case~hack~1'', Symlink ''y''),
        (''a~nix~case~hack~1'', Symlink ''z'')], [])"
    unfolding depth parse_node.simps(2) [of k] nar_node_Directory
    by (simp add: parse_typed_def del: parse_entries.simps parse_node.simps nar_node.simps concat.simps list.map length_append)
  moreover have "readString (length narVersionMagic1) (writeString narVersionMagic1 @ r) = Inr (narVersionMagic1, r)" for r
    by (simp add: readString_iff string_legal_def narVersionMagic1_def)
  ultimately show ?thesis by (simp add: parseDump_def nar_def del: nar_node.simps parse_node.simps)
qed

end
