(* ===== verification/References.thy ===== *)
theory References
  imports Store_Path Ordered_Map Archive "HOL-Library.Sublist"
begin

text \<open>
  The scanner that finds references to store paths in streamed data (\<^verbatim>\<open>libstore/references.cc\<close>,
  \<^verbatim>\<open>path-references.cc\<close>): it looks for the hash parts of candidate paths, fragment by fragment, and
  skips over characters that cannot be part of a hash.
\<close>

section \<open>Searching one string\<close>

definition refLength :: nat where
  "refLength = HashLen"

text \<open>The inner loop: the last character of the window that is not a base-32 digit.\<close>

fun last_invalid :: "string \<Rightarrow> nat \<Rightarrow> nat \<Rightarrow> nat option" where
  "last_invalid s i 0 = None"
| "last_invalid s i (Suc j) = (if BaseNix32_lookupReverse (s ! (i + j)) = None then Some j else last_invalid s i j)"

function search :: "string \<Rightarrow> nat \<Rightarrow> string set \<times> string set \<Rightarrow> string set \<times> string set" where
  "search s i (hashes, seen) =
     (if i + refLength \<le> length s then
        (case last_invalid s i refLength of
           Some j \<Rightarrow> search s (i + j + 1) (hashes, seen)
         | None \<Rightarrow>
             let ref = take refLength (drop i s) in
             search s (i + 1) (if ref \<in> hashes then (hashes - {ref}, insert ref seen) else (hashes, seen)))
      else (hashes, seen))"
  by pat_completeness auto

termination
  by (relation "measure (\<lambda>(s, i, _). Suc (length s) - i)") (auto simp: refLength_def HashLen_def)

declare search.simps [simp del]

section \<open>The scanning sink\<close>

record RefScanSink =
  rs_hashes :: "string set"
  rs_seen :: "string set"
  rs_tail :: string

definition RefScanSink_new :: "string set \<Rightarrow> RefScanSink" where
  "RefScanSink_new hashes = \<lparr>rs_hashes = hashes, rs_seen = {}, rs_tail = []\<rparr>"

definition RefScanSink_write :: "string \<Rightarrow> RefScanSink \<Rightarrow> RefScanSink" where
  "RefScanSink_write data sink =
     (let tailLen = min (length data) refLength;
          s = rs_tail sink @ take tailLen data;
          (hashes, seen) = search data 0 (search s 0 (rs_hashes sink, rs_seen sink));
          rest = refLength - tailLen;
          tail = (if rest < length (rs_tail sink) then drop (length (rs_tail sink) - rest) (rs_tail sink) else rs_tail sink)
      in \<lparr>rs_hashes = hashes, rs_seen = seen, rs_tail = tail @ drop (length data - tailLen) data\<rparr>)"

text \<open>\<^verbatim>\<open>PathRefScanSink\<close> derives from \<^verbatim>\<open>RefScanSink\<close>; its base object is the field \<open>base\<close>.\<close>

record PathRefScanSink =
  base :: RefScanSink
  backMap :: "(string, StorePath) omap"

text \<open>\<^verbatim>\<open>fromPaths\<close> asserts that no two candidates have the same hash part.\<close>

definition PathRefScanSink_fromPaths :: "StorePath set \<Rightarrow> PathRefScanSink result" where
  "PathRefScanSink_fromPaths refs =
     result_bind (fold_result (\<lambda>i (hashes, bm).
         let hashPart = StorePath_hashPart i in
         result_bind (ensure (map_of bm hashPart = None) (AssertionFailed ''inserted'')) (\<lambda>_.
           Inr (insert hashPart hashes, map_emplace hashPart i bm))) (sorted_list_of_set refs) ({}, [])) (\<lambda>(hashes, bm).
       Inr \<lparr>base = RefScanSink_new hashes, backMap = bm\<rparr>)"

definition PathRefScanSink_write :: "string \<Rightarrow> PathRefScanSink \<Rightarrow> PathRefScanSink" where
  "PathRefScanSink_write data sink = sink\<lparr>base := RefScanSink_write data (base sink)\<rparr>"

definition getResultPaths :: "PathRefScanSink \<Rightarrow> StorePath set result" where
  "getResultPaths sink =
     fold_result (\<lambda>i found. case map_of (backMap sink) i of
         None \<Rightarrow> Inl (AssertionFailed ''j != backMap.end()'')
       | Some p \<Rightarrow> Inr (insert p found)) (sorted_list_of_set (rs_seen (base sink))) {}"

text \<open>
  \<^verbatim>\<open>scanForReferences\<close> on the object dumped. How the dump is cut into fragments depends on the
  buffers of the accessor and the operating system: \<open>fragment\<close> is a parameter.
\<close>

definition scanForReferences ::
  "(string \<Rightarrow> string list) \<Rightarrow> bool \<Rightarrow> CanonPath \<Rightarrow> fso \<Rightarrow> StorePath set \<Rightarrow> (StorePath set \<times> string) result" where
  "scanForReferences fragment useCaseHack path node refs =
     result_bind (PathRefScanSink_fromPaths refs) (\<lambda>refsSink.
     result_bind (dumpPath useCaseHack (\<lambda>_. True) path node) (\<lambda>dump.
     result_bind (getResultPaths (fold PathRefScanSink_write (fragment dump) refsSink)) (\<lambda>found.
       Inr (found, concat (fragment dump)))))"

section \<open>Scanning file by file\<close>

record FileRefScanResult =
  filePath :: CanonPath
  foundRefs :: "StorePath set"

text \<open>A fresh sink for every file; the callback is called when the sink found something.\<close>

definition scan_leaf :: "StorePath set \<Rightarrow> CanonPath \<Rightarrow> string list \<Rightarrow> FileRefScanResult list result" where
  "scan_leaf refs path data =
     result_bind (PathRefScanSink_fromPaths refs) (\<lambda>sink.
     result_bind (getResultPaths (fold PathRefScanSink_write data sink)) (\<lambda>found.
       Inr (if found \<noteq> {} then [\<lparr>filePath = path, foundRefs = found\<rparr>] else [])))"

function scanForReferencesDeep_walk ::
  "(string \<Rightarrow> string list) \<Rightarrow> StorePath set \<Rightarrow> CanonPath \<Rightarrow> fso \<Rightarrow> FileRefScanResult list result" where
  "scanForReferencesDeep_walk fragment refs path (Regular x contents) = scan_leaf refs path (fragment contents)"
| "scanForReferencesDeep_walk fragment refs path (Directory entries) =
     result_bind (map_result (\<lambda>e. result_bind (push path (fst e)) (\<lambda>p.
       scanForReferencesDeep_walk fragment refs p (snd e))) entries) (\<lambda>rs. Inr (concat rs))"
| "scanForReferencesDeep_walk fragment refs path (Symlink target) = scan_leaf refs path [target]"
  by pat_completeness auto
termination
  by (relation "measure (\<lambda>(f, refs, p, node). size node)") (auto dest!: size_entry)

definition scanForReferencesDeep ::
  "(string \<Rightarrow> string list) \<Rightarrow> StorePath set \<Rightarrow> CanonPath \<Rightarrow> fso \<Rightarrow> (CanonPath \<rightharpoonup> StorePath set) result" where
  "scanForReferencesDeep fragment refs rootPath node =
     result_bind (scanForReferencesDeep_walk fragment refs rootPath node) (\<lambda>rs.
       Inr (fold (\<lambda>r results. results(filePath r \<mapsto> foundRefs r)) rs Map.empty))"

section \<open>The search finds what occurs\<close>

text \<open>Strings that can be hash parts.\<close>

definition is_ref :: "string \<Rightarrow> bool" where
  "is_ref r \<longleftrightarrow> length r = refLength \<and> set r \<subseteq> set BaseNix32_characters"

lemma lookupReverse_None: "BaseNix32_lookupReverse c = None \<longleftrightarrow> c \<notin> set BaseNix32_characters"
proof
  assume none: "BaseNix32_lookupReverse c = None"
  show "c \<notin> set BaseNix32_characters"
  proof
    assume "c \<in> set BaseNix32_characters"
    then obtain i where i: "i < 32" "c = BaseNix32_characters ! i"
      unfolding in_set_conv_nth by auto
    then have "unat (word_of_nat i :: byte) = i" "word_of_nat i < (32 :: byte)" by (simp_all add: unat_of_nat word_less_nat_alt)
    with i lookupReverse_characters [of "word_of_nat i"] none show False by simp
  qed
next
  assume c: "c \<notin> set BaseNix32_characters"
  show "BaseNix32_lookupReverse c = None"
  proof (cases "BaseNix32_lookupReverse c")
    case (Some d)
    from lookupReverse_sound [OF this] have "d < 32" "c = BaseNix32_characters ! unat d" by simp_all
    with nth_mem [of "unat d" BaseNix32_characters] c show ?thesis by (simp add: word_less_nat_alt)
  qed
qed

lemma last_invalid_None:
  "last_invalid s i n = None \<longleftrightarrow> (\<forall>j < n. s ! (i + j) \<in> set BaseNix32_characters)"
  by (induction n) (auto simp: lookupReverse_None less_Suc_eq)

lemma last_invalid_Some:
  "last_invalid s i n = Some j \<Longrightarrow> j < n \<and> s ! (i + j) \<notin> set BaseNix32_characters"
  by (induction n) (auto simp: lookupReverse_None split: if_splits)

definition occurs_from :: "nat \<Rightarrow> string \<Rightarrow> string \<Rightarrow> bool" where
  "occurs_from i s r \<longleftrightarrow> (\<exists>k\<ge>i. k + refLength \<le> length s \<and> take refLength (drop k s) = r)"

lemma occurs_from_mono: "occurs_from j s r \<Longrightarrow> i \<le> j \<Longrightarrow> occurs_from i s r"
  unfolding occurs_from_def using le_trans by blast

lemma occurs_from_sublist: "length r = refLength \<Longrightarrow> occurs_from 0 s r \<longleftrightarrow> sublist r s"
proof
  assume r: "length r = refLength" and "sublist r s"
  then obtain xs ys where "s = xs @ r @ ys" by (auto simp: sublist_def)
  with r show "occurs_from 0 s r" by (auto simp: occurs_from_def intro!: exI [of _ "length xs"])
next
  assume "occurs_from 0 s r"
  then show "sublist r s"
    unfolding occurs_from_def using sublist_take sublist_drop sublist_order.order_trans by blast
qed

lemma occurs_from_step:
  assumes "i + refLength \<le> length s"
  shows "occurs_from i s r \<longleftrightarrow> r = take refLength (drop i s) \<or> occurs_from (i + 1) s r"
proof
  assume "occurs_from i s r"
  then obtain k where "i \<le> k" "k + refLength \<le> length s" "take refLength (drop k s) = r" by (auto simp: occurs_from_def)
  then show "r = take refLength (drop i s) \<or> occurs_from (i + 1) s r"
    unfolding occurs_from_def by (cases "k = i") (simp, intro disjI2 exI [of _ k], simp)
next
  assume "r = take refLength (drop i s) \<or> occurs_from (i + 1) s r"
  then show "occurs_from i s r" using assms occurs_from_mono [of "i + 1" s r i] by (auto simp: occurs_from_def)
qed

lemma occurs_from_skip:
  assumes "j < refLength \<and> s ! (i + j) \<notin> set BaseNix32_characters" and "is_ref r"
  shows "occurs_from i s r \<longleftrightarrow> occurs_from (i + j + 1) s r"
proof
  assume "occurs_from i s r"
  then obtain k where k: "i \<le> k" "k + refLength \<le> length s" "take refLength (drop k s) = r" by (auto simp: occurs_from_def)
  have "\<not> k \<le> i + j"
  proof
    assume "k \<le> i + j"
    then have "r ! (i + j - k) = s ! (i + j)" and len: "i + j - k < length r" using assms(1) k by auto
    with nth_mem [OF len] assms show False by (auto simp: is_ref_def)
  qed
  with k show "occurs_from (i + j + 1) s r" unfolding occurs_from_def by (intro exI [of _ k]) simp
qed (erule occurs_from_mono, simp)

lemma search_correct:
  "\<forall>r\<in>H. is_ref r \<Longrightarrow>
     search s i (H, S) = (H - {r. occurs_from i s r}, S \<union> {r\<in>H. occurs_from i s r})"
proof (induction s i "(H, S)" arbitrary: H S rule: search.induct)
  case (1 s i H S)
  show ?case
  proof (cases "i + refLength \<le> length s")
    case True
    show ?thesis
    proof (cases "last_invalid s i refLength")
      case (Some j)
      note j = last_invalid_Some [OF Some]
      have "occurs_from i s r \<longleftrightarrow> occurs_from (i + j + 1) s r" if r: "r \<in> H" for r
        using occurs_from_skip [OF j] 1(3) r by blast
      then show ?thesis using 1(2) [OF True Some 1(3)] True Some by (auto simp: search.simps [of s i])
    next
      case None
      let ?ref = "take refLength (drop i s)"
      have step: "occurs_from i s r \<longleftrightarrow> r = ?ref \<or> occurs_from (i + 1) s r" for r
        by (rule occurs_from_step [OF True])
      show ?thesis
      proof (cases "?ref \<in> H")
        case in_H: True
        have "search s (i + 1) (H - {?ref}, insert ?ref S) =
            (H - {?ref} - {r. occurs_from (i + 1) s r}, insert ?ref S \<union> {r \<in> H - {?ref}. occurs_from (i + 1) s r})"
          using 1(1) [OF True None refl, of "H - {?ref}" "insert ?ref S"] 1(3) in_H by auto
        with True None in_H step show ?thesis by (auto simp: search.simps [of s i] Let_def)
      next
        case False
        then have "search s (i + 1) (H, S) = (H - {r. occurs_from (i + 1) s r}, S \<union> {r \<in> H. occurs_from (i + 1) s r})"
          using 1(1) [OF True None refl, of H S] 1(3) by auto
        with True None False step show ?thesis by (auto simp: search.simps [of s i] Let_def)
      qed
    qed
  next
    case False
    then show ?thesis by (auto simp: search.simps [of s i] occurs_from_def)
  qed
qed

section \<open>The sink sees every occurrence\<close>

definition last_chars :: "string \<Rightarrow> string" where
  "last_chars x = drop (length x - refLength) x"

lemma sublist_seam:
  assumes r: "length r = refLength"
  shows "sublist r (x @ d) \<longleftrightarrow>
    sublist r x \<or> sublist r (last_chars x @ take refLength d) \<or> sublist r d"
proof
  assume "sublist r (x @ d)"
  then consider "sublist r x" | "sublist r d" | r1 r2 where "r = r1 @ r2" "suffix r1 x" "prefix r2 d"
    by (auto simp: sublist_append)
  then show "sublist r x \<or> sublist r (last_chars x @ take refLength d) \<or> sublist r d"
  proof cases
    case 3
    then have len: "length r1 \<le> refLength" "length r2 \<le> refLength" using r by auto
    obtain a b where ab: "x = a @ r1" "d = r2 @ b" using 3 by (auto simp: suffix_def prefix_def)
    have "suffix r1 (last_chars x)" using ab len by (simp add: last_chars_def suffix_def)
    moreover have "prefix r2 (take refLength d)" using ab len by simp
    ultimately show ?thesis using 3 by (auto simp: sublist_append)
  qed auto
next
  have "x @ d = take (length x - refLength) x @ (last_chars x @ take refLength d) @ drop refLength d"
    by (simp add: last_chars_def)
  then have "sublist (last_chars x @ take refLength d) (x @ d)" by (metis sublist_appendI)
  moreover have "sublist x (x @ d)" "sublist d (x @ d)" by simp_all
  moreover assume "sublist r x \<or> sublist r (last_chars x @ take refLength d) \<or> sublist r d"
  ultimately show "sublist r (x @ d)" using sublist_order.order_trans by blast
qed

lemma tail_step:
  fixes data x :: string
  defines "n \<equiv> min (length data) refLength"
  shows "(if refLength - n < length (last_chars x)
     then drop (length (last_chars x) - (refLength - n)) (last_chars x) else last_chars x) @ drop (length data - n) data =
     last_chars (x @ data)"
proof (cases "refLength \<le> length data")
  case True
  then show ?thesis by (auto simp: n_def last_chars_def)
next
  case False
  moreover have "drop (length x - refLength) x = drop (length x + length data - refLength) x"
    if "\<not> refLength - length data < length x - (length x - refLength)"
  proof -
    from that False have "data = [] \<or> length x - refLength = 0 \<and> length x + length data - refLength = 0"
      by (cases "length data") auto
    then show ?thesis by auto
  qed
  ultimately show ?thesis by (auto simp: n_def last_chars_def)
qed

text \<open>The state of the sink after a stream, as the set of candidates and the stream determine it.\<close>

definition sink_after :: "string set \<Rightarrow> string \<Rightarrow> RefScanSink" where
  "sink_after H x = \<lparr>rs_hashes = {r\<in>H. \<not> sublist r x}, rs_seen = {r\<in>H. sublist r x}, rs_tail = last_chars x\<rparr>"

lemma RefScanSink_new_after:
  assumes "\<forall>r\<in>H. is_ref r"
  shows "RefScanSink_new H = sink_after H []"
  using assms by (auto simp: RefScanSink_new_def sink_after_def last_chars_def is_ref_def refLength_def HashLen_def)

lemma search_sublist:
  assumes "\<forall>r\<in>H. is_ref r"
  shows "search s 0 (H, S) = ({r\<in>H. \<not> sublist r s}, S \<union> {r\<in>H. sublist r s})"
proof -
  have "occurs_from 0 s r \<longleftrightarrow> sublist r s" if "r \<in> H" for r
    using assms that by (auto simp: is_ref_def occurs_from_sublist)
  then show ?thesis by (auto simp: search_correct [OF assms])
qed

lemma RefScanSink_write_after:
  assumes H: "\<forall>r\<in>H. is_ref r"
  shows "RefScanSink_write data (sink_after H x) = sink_after H (x @ data)"
proof -
  let ?s = "last_chars x @ take refLength data"
  have t: "take (min (length data) refLength) data = take refLength data" by (simp add: min_def)
  have seam: "sublist r (x @ data) \<longleftrightarrow> sublist r x \<or> sublist r ?s \<or> sublist r data" if "r \<in> H" for r
    by (rule sublist_seam) (use H that is_ref_def in blast)
  have "search data 0 (search ?s 0 (rs_hashes (sink_after H x), rs_seen (sink_after H x))) =
      (rs_hashes (sink_after H (x @ data)), rs_seen (sink_after H (x @ data)))"
  proof -
    have 1: "\<forall>r\<in>{r\<in>H. \<not> sublist r x}. is_ref r"
      and 2: "\<forall>r\<in>{r\<in>{r\<in>H. \<not> sublist r x}. \<not> sublist r ?s}. is_ref r"
      using H by simp_all
    show ?thesis
      unfolding sink_after_def RefScanSink.select_convs search_sublist [OF 1] search_sublist [OF 2] prod.inject
      using seam by blast
  qed
  then show ?thesis
    using tail_step [of data x]
    by (simp only: RefScanSink_write_def Let_def t sink_after_def RefScanSink.select_convs prod.case)
qed

lemma RefScanSink_stream:
  assumes "\<forall>r\<in>H. is_ref r"
  shows "fold RefScanSink_write data (sink_after H x) = sink_after H (x @ concat data)"
  by (induction data arbitrary: x) (simp_all add: RefScanSink_write_after [OF assms])

lemma PathRefScanSink_stream:
  assumes "\<forall>r\<in>H. is_ref r"
  shows "fold PathRefScanSink_write data \<lparr>base = sink_after H x, backMap = bm\<rparr> =
    \<lparr>base = sink_after H (x @ concat data), backMap = bm\<rparr>"
  by (induction data arbitrary: x) (simp_all add: PathRefScanSink_write_def RefScanSink_write_after [OF assms])

section \<open>Candidates and results\<close>

lemma valid_hashPart:
  assumes "valid_base (baseName p)"
  shows "is_ref (StorePath_hashPart p)"
  using assms by (auto simp: valid_base_def is_ref_def StorePath_hashPart_def refLength_def)

definition back_map :: "StorePath list \<Rightarrow> (string, StorePath) omap \<Rightarrow> (string, StorePath) omap" where
  "back_map ps bm = fold (\<lambda>(k, v). map_emplace k v) (map (\<lambda>p. (StorePath_hashPart p, p)) ps) bm"

lemma fromPaths_loop:
  assumes "omap_ok bm" "dom (map_of bm) = hashes"
  shows "fold_result (\<lambda>i (hashes, bm).
         let hashPart = StorePath_hashPart i in
         result_bind (ensure (map_of bm hashPart = None) (AssertionFailed ''inserted'')) (\<lambda>_.
           Inr (insert hashPart hashes, map_emplace hashPart i bm))) ps (hashes, bm) =
    (if distinct (map StorePath_hashPart ps) \<and> StorePath_hashPart ` set ps \<inter> hashes = {}
     then Inr (hashes \<union> StorePath_hashPart ` set ps, back_map ps bm) else Inl (AssertionFailed ''inserted''))"
  using assms
proof (induction ps arbitrary: hashes bm)
  case (Cons p ps)
  show ?case
  proof (cases "StorePath_hashPart p \<in> hashes")
    case True
    with Cons.prems obtain q where "map_of bm (StorePath_hashPart p) = Some q" by auto
    with True show ?thesis by (simp add: Let_def ensure_def)
  next
    case False
    with Cons.prems have new: "map_of bm (StorePath_hashPart p) = None" by auto
    have "dom (map_of (map_emplace (StorePath_hashPart p) p bm)) = insert (StorePath_hashPart p) hashes"
      using Cons.prems new by (auto simp: map_of_emplace dom_def)
    from Cons.IH [OF omap_ok_emplace [OF Cons.prems(1)] this] new False show ?thesis
      by (auto simp: Let_def ensure_def back_map_def)
  qed
qed (simp add: back_map_def)

lemma fromPaths_eq:
  assumes "finite refs"
  shows "PathRefScanSink_fromPaths refs =
    (if inj_on StorePath_hashPart refs
     then Inr \<lparr>base = RefScanSink_new (StorePath_hashPart ` refs), backMap = back_map (sorted_list_of_set refs) []\<rparr>
     else Inl (AssertionFailed ''inserted''))"
  using assms fromPaths_loop [of "[]" "{}" "sorted_list_of_set refs"]
  by (auto simp: PathRefScanSink_fromPaths_def distinct_map)

lemma map_of_back_map:
  assumes "finite refs" "inj_on StorePath_hashPart refs"
  shows "map_of (back_map (sorted_list_of_set refs) []) h = Some p \<longleftrightarrow> p \<in> refs \<and> StorePath_hashPart p = h"
proof -
  let ?kvs = "map (\<lambda>p. (StorePath_hashPart p, p)) (sorted_list_of_set refs)"
  have "distinct (map fst ?kvs)" using assms by (simp add: distinct_map comp_def)
  then have "map_of ?kvs h = Some p \<longleftrightarrow> (h, p) \<in> set ?kvs" by (rule map_of_eq_Some_iff)
  moreover have "map_of (back_map (sorted_list_of_set refs) []) h = map_of ?kvs h"
    unfolding back_map_def by (subst std_map.find_fold_emplace) simp_all
  ultimately show ?thesis using assms(1) by auto
qed

lemma getResultPaths_eq:
  assumes "finite (rs_seen (base sink))" "\<forall>h\<in>rs_seen (base sink). map_of (backMap sink) h \<noteq> None"
  shows "getResultPaths sink = Inr {p. \<exists>h\<in>rs_seen (base sink). map_of (backMap sink) h = Some p}"
proof -
  let ?S = "rs_seen (base sink)" and ?m = "map_of (backMap sink)"
  have "getResultPaths sink = Inr (fold (\<lambda>h. insert (the (?m h))) (sorted_list_of_set ?S) {})"
    unfolding getResultPaths_def using assms by (intro fold_result_fold) auto
  moreover have "fold (\<lambda>h. insert (f h)) hs A = A \<union> f ` set hs" for f :: "string \<Rightarrow> StorePath" and hs A
    by (induction hs arbitrary: A) auto
  moreover have "(\<lambda>h. the (?m h)) ` ?S = {p. \<exists>h\<in>?S. ?m h = Some p}"
    using assms(2) by force
  ultimately show ?thesis using assms(1) by simp
qed

text \<open>Feeding any fragments of a string to the sink of a set of candidates.\<close>

definition mentions :: "string \<Rightarrow> StorePath set \<Rightarrow> StorePath set" where
  "mentions x refs = {p\<in>refs. sublist (StorePath_hashPart p) x}"

lemma scan_fragments:
  assumes refs: "finite refs" "\<forall>p\<in>refs. valid_base (baseName p)" and inj: "inj_on StorePath_hashPart refs"
    and sink: "PathRefScanSink_fromPaths refs = Inr sink"
  shows "getResultPaths (fold PathRefScanSink_write data sink) = Inr (mentions (concat data) refs)"
proof -
  let ?H = "StorePath_hashPart ` refs" and ?bm = "back_map (sorted_list_of_set refs) []"
  have H: "\<forall>r\<in>?H. is_ref r" using refs valid_hashPart by auto
  have "fold PathRefScanSink_write data sink = \<lparr>base = sink_after ?H (concat data), backMap = ?bm\<rparr>"
    using sink inj refs H PathRefScanSink_stream [OF H, of data "[]" ?bm]
    by (simp add: fromPaths_eq RefScanSink_new_after [OF H])
  moreover have "\<forall>h\<in>{r\<in>?H. sublist r (concat data)}. map_of ?bm h \<noteq> None"
    using map_of_back_map [OF refs(1) inj] by fastforce
  ultimately show ?thesis
    using refs(1) map_of_back_map [OF refs(1) inj]
    by (subst getResultPaths_eq) (auto simp: sink_after_def mentions_def)
qed

text \<open>
  C17: Scanning a dump for references finds exactly the candidates whose hash part occurs in the
  archive, wherever the archive is cut into fragments, and passes the archive on unchanged. An
  archive that cannot be written is an error; two candidates with one hash part fail an assertion.
\<close>

theorem scanForReferences_exact:
  assumes "finite refs" "\<forall>p\<in>refs. valid_base (baseName p)" and "\<And>d. concat (fragment d) = d"
  shows "scanForReferences fragment useCaseHack path node refs =
    (if inj_on StorePath_hashPart refs
     then result_bind (dumpPath useCaseHack (\<lambda>_. True) path node) (\<lambda>dump. Inr (mentions dump refs, dump))
     else Inl (AssertionFailed ''inserted''))"
proof (cases "inj_on StorePath_hashPart refs")
  case True
  with assms(1) obtain sink where sink: "PathRefScanSink_fromPaths refs = Inr sink" by (simp add: fromPaths_eq)
  show ?thesis
    using True sink scan_fragments [OF assms(1,2) True sink] assms(3) by (simp add: scanForReferences_def)
next
  case False
  with assms(1) show ?thesis by (simp add: scanForReferences_def fromPaths_eq)
qed

text \<open>The files and symbolic links of a tree with their contents.\<close>

function leaves :: "CanonPath \<Rightarrow> fso \<Rightarrow> (CanonPath \<times> string) list result" where
  "leaves path (Regular x contents) = Inr [(path, contents)]"
| "leaves path (Directory entries) =
     result_bind (map_result (\<lambda>e. result_bind (push path (fst e)) (\<lambda>p. leaves p (snd e))) entries)
       (\<lambda>ls. Inr (concat ls))"
| "leaves path (Symlink target) = Inr [(path, target)]"
  by pat_completeness auto
termination
  by (relation "measure (\<lambda>(p, node). size node)") (auto dest!: size_entry)

definition scanned :: "StorePath set \<Rightarrow> (CanonPath \<times> string) list \<Rightarrow> FileRefScanResult list" where
  "scanned refs ls = [\<lparr>filePath = p, foundRefs = mentions x refs\<rparr>. (p, x) \<leftarrow> ls, mentions x refs \<noteq> {}]"

lemma map_result_bind_map:
  "(\<And>x. x \<in> set xs \<Longrightarrow> f x = result_bind (g x) (\<lambda>y. Inr (h y))) \<Longrightarrow>
     map_result f xs = result_bind (map_result g xs) (\<lambda>ys. Inr (map h ys))"
  by (induction xs) (auto simp: result_bind_def split: sum.splits)

lemma scan_leaf_eq:
  assumes "finite refs" "\<forall>p\<in>refs. valid_base (baseName p)" "inj_on StorePath_hashPart refs"
  shows "scan_leaf refs path data = Inr (scanned refs [(path, concat data)])"
proof -
  from assms obtain sink where sink: "PathRefScanSink_fromPaths refs = Inr sink" by (simp add: fromPaths_eq)
  show ?thesis
    using sink scan_fragments [OF assms(1,2,3) sink] by (simp add: scan_leaf_def scanned_def)
qed

lemma scanned_concat: "scanned refs (concat lss) = concat (map (scanned refs) lss)"
  by (induction lss) (simp_all add: scanned_def)

text \<open>
  C24: The file-by-file scan reports, for each file and symbolic link in the order of the walk,
  the candidates whose hash part occurs in its contents or target, and nothing for the others.
\<close>

theorem scanForReferencesDeep_exact:
  assumes "finite refs" "\<forall>p\<in>refs. valid_base (baseName p)" "inj_on StorePath_hashPart refs"
    and "\<And>d. concat (fragment d) = d"
  shows "scanForReferencesDeep_walk fragment refs path node =
    result_bind (leaves path node) (\<lambda>ls. Inr (scanned refs ls))"
proof (induction path node rule: leaves.induct)
  case (2 path entries)
  have "map_result (\<lambda>e. result_bind (push path (fst e)) (\<lambda>p. scanForReferencesDeep_walk fragment refs p (snd e))) entries =
    result_bind (map_result (\<lambda>e. result_bind (push path (fst e)) (\<lambda>p. leaves p (snd e))) entries)
      (\<lambda>lss. Inr (map (scanned refs) lss))"
  proof (rule map_result_bind_map)
    fix e assume "e \<in> set entries"
    with 2 show "result_bind (push path (fst e)) (\<lambda>p. scanForReferencesDeep_walk fragment refs p (snd e)) =
      result_bind (result_bind (push path (fst e)) (\<lambda>p. leaves p (snd e))) (\<lambda>ls. Inr (scanned refs ls))"
      by (cases "push path (fst e)") simp_all
  qed
  then show ?case by (cases "map_result (\<lambda>e. result_bind (push path (fst e)) (\<lambda>p. leaves p (snd e))) entries")
    (simp_all add: scanned_concat)
qed (simp_all add: scan_leaf_eq [OF assms(1-3)] assms(4))

text \<open>Two candidates, and a tree with a file that mentions one of them across a fragment boundary.\<close>

definition sample_refs :: "StorePath set" where
  "sample_refs = {StorePath ''00000000000000000000000000000000-a'', StorePath ''11111111111111111111111111111111-b''}"

definition sample_chunks :: "string \<Rightarrow> string list" where
  "sample_chunks d = (if length d < 7 then [d] else [take 7 d, drop 7 d])"

lemma sample_refs_ok:
  "finite sample_refs" "\<forall>p\<in>sample_refs. valid_base (baseName p)" "inj_on StorePath_hashPart sample_refs"
  by (simp_all add: sample_refs_def valid_base_def HashLen_def BaseNix32_characters_def valid_name_def MaxPathLen_def
    name_char_def in_range_def StorePath_hashPart_def)

lemma sample_chunks_ok: "concat (sample_chunks d) = d"
  by (simp add: sample_chunks_def)

definition sample_tree :: fso where
  "sample_tree = Directory [(''f'', Regular False ''xx 11111111111111111111111111111111-b'')]"

lemma leaves_sample_tree: "leaves ''/'' sample_tree = Inr [(''/f'', ''xx 11111111111111111111111111111111-b'')]"
  by (simp add: sample_tree_def push_def ensureNoNullBytes_def isRoot_def)

lemma scanned_sample:
  "scanned sample_refs [(''/f'', ''xx 11111111111111111111111111111111-b'')] =
    [\<lparr>filePath = ''/f'', foundRefs = {StorePath ''11111111111111111111111111111111-b''}\<rparr>]"
proof -
  have "mentions ''xx 11111111111111111111111111111111-b'' sample_refs = {StorePath ''11111111111111111111111111111111-b''}"
  proof -
    have "sublist ''11111111111111111111111111111111'' (''xx '' @ ''11111111111111111111111111111111'' @ ''-b'')"
      by (rule sublist_appendI)
    moreover have "\<not> sublist ''00000000000000000000000000000000'' ''xx 11111111111111111111111111111111-b''"
      by (auto dest: set_mono_sublist)
    ultimately show ?thesis
      by (auto simp: mentions_def sample_refs_def StorePath_hashPart_def HashLen_def)
  qed
  then show ?thesis by (simp add: scanned_def)
qed

theorem scanForReferences_exact_witness:
  "scanForReferences sample_chunks False ''/'' sample_tree sample_refs =
    result_bind (dumpPath False (\<lambda>_. True) ''/'' sample_tree) (\<lambda>dump. Inr (mentions dump sample_refs, dump))"
  using scanForReferences_exact [OF sample_refs_ok(1,2) sample_chunks_ok] sample_refs_ok(3) by simp

theorem scanForReferencesDeep_exact_witness:
  "scanForReferencesDeep_walk sample_chunks sample_refs ''/'' sample_tree =
   Inr [\<lparr>filePath = ''/f'', foundRefs = {StorePath ''11111111111111111111111111111111-b''}\<rparr>]"
  by (simp add: scanForReferencesDeep_exact [OF sample_refs_ok sample_chunks_ok] leaves_sample_tree scanned_sample)

end
