(* ===== verification/Hash_Modulo.thy ===== *)
theory Hash_Modulo
  imports References Hash
begin

text \<open>
  Rewriting sinks and hashes modulo self-references (\<^verbatim>\<open>libstore/references.cc\<close>). A store object
  that mentions its own hash part is hashed with those occurrences replaced by null bytes and
  their positions appended. The theory shows that the stream may be cut anywhere, and that the
  text that is hashed determines the object.
\<close>

section \<open>The rewriting sink\<close>

text \<open>\<open>written\<close> is what the next sink has received.\<close>

record RewritingSink =
  rs_rewrites :: "(string \<times> string) list"
  maxRewriteSize :: nat
  prev :: string
  rs_pos :: nat
  matches :: "nat set"
  written :: string

definition RewritingSink_new :: "(string \<times> string) list \<Rightarrow> RewritingSink result" where
  "RewritingSink_new rws =
     result_bind (fold_result (\<lambda>(from, to) m.
         result_bind (ensure (length from = length to) (AssertionFailed ''from.size() == to.size()'')) (\<lambda>_.
           Inr (max m (length from)))) rws 0) (\<lambda>m.
       Inr \<lparr>rs_rewrites = rws, maxRewriteSize = m, prev = [], rs_pos = 0, matches = {}, written = []\<rparr>)"

definition RewritingSink_write :: "string \<Rightarrow> RewritingSink \<Rightarrow> RewritingSink option" where
  "RewritingSink_write data sink =
     (case rewriteStrings (prev sink @ data) (rs_rewrites sink) (rs_pos sink) of
        None \<Rightarrow> None
      | Some (s, ms) \<Rightarrow>
          let p = (if length s < maxRewriteSize sink then s
                   else if maxRewriteSize sink = 0 then []
                   else take (maxRewriteSize sink - 1) (drop (length s - maxRewriteSize sink + 1) s));
              consumed = length s - length p
          in Some (sink\<lparr>matches := matches sink \<union> set ms, prev := p, rs_pos := rs_pos sink + consumed,
                        written := written sink @ take consumed s\<rparr>))"

definition RewritingSink_flush :: "RewritingSink \<Rightarrow> RewritingSink" where
  "RewritingSink_flush sink =
     (if prev sink = [] then sink
      else sink\<lparr>rs_pos := rs_pos sink + length (prev sink), written := written sink @ prev sink, prev := []\<rparr>)"

fun RewritingSink_writes :: "string list \<Rightarrow> RewritingSink \<Rightarrow> RewritingSink option" where
  "RewritingSink_writes [] sink = Some sink"
| "RewritingSink_writes (data # ds) sink = Option.bind (RewritingSink_write data sink) (RewritingSink_writes ds)"

section \<open>The hash modulo a string\<close>

definition null_char :: char where
  "null_char = CHR 0x00"

definition HashModuloSink_new :: "string \<Rightarrow> RewritingSink result" where
  "HashModuloSink_new modulus = RewritingSink_new [(modulus, replicate (length modulus) null_char)]"

text \<open>What the hash function is given: the rewritten stream and the positions of the rewrites.\<close>

definition hashed_text :: "RewritingSink \<Rightarrow> string" where
  "hashed_text sink = written sink @ concat (map (\<lambda>pos. CHR ''|'' # to_string pos) (sorted_list_of_set (matches sink)))"

definition HashModuloSink_finish :: "digests \<Rightarrow> HashAlgorithm \<Rightarrow> RewritingSink \<Rightarrow> bytes \<times> nat" where
  "HashModuloSink_finish digest ha sink =
     (let sink = RewritingSink_flush sink in (digest ha (string_bytes (hashed_text sink)), rs_pos sink))"

text \<open>A stream hashed modulo a string; \<^term>\<open>None\<close> if the rewriting did not end.\<close>

definition hash_modulo :: "digests \<Rightarrow> HashAlgorithm \<Rightarrow> string \<Rightarrow> string list \<Rightarrow> (bytes \<times> nat) option result" where
  "hash_modulo digest ha modulus data =
     result_bind (HashModuloSink_new modulus) (\<lambda>sink.
       Inr (map_option (HashModuloSink_finish digest ha) (RewritingSink_writes data sink)))"

section \<open>Rewriting as a pass over the string\<close>

text \<open>
  The reference: one pass that replaces the occurrences of \<open>pat\<close> from the left by null bytes and
  lists their positions.
\<close>

function zero_out :: "string \<Rightarrow> nat \<Rightarrow> string \<Rightarrow> string \<times> nat list" where
  "zero_out pat i s =
     (if s = [] \<or> pat = [] then (s, [])
      else if prefix pat s then
        (let (t, ps) = zero_out pat (i + length pat) (drop (length pat) s)
         in (replicate (length pat) null_char @ t, i # ps))
      else (let (t, ps) = zero_out pat (i + 1) (tl s) in (hd s # t, ps)))"
  by pat_completeness auto
termination
  by (relation "measure (\<lambda>(p, i, s). length s)") (auto simp: diff_less)

declare zero_out.simps [simp del]

lemma zero_out_Nil [simp]: "zero_out pat i [] = ([], [])"
  by (simp add: zero_out.simps)

lemma zero_out_match:
  "pat \<noteq> [] \<Longrightarrow> zero_out pat i (pat @ s) =
     (replicate (length pat) null_char @ fst (zero_out pat (i + length pat) s), i # snd (zero_out pat (i + length pat) s))"
  by (subst zero_out.simps) (simp add: case_prod_unfold Let_def)

lemma zero_out_skip:
  "\<not> prefix pat (c # s) \<Longrightarrow> zero_out pat i (c # s) =
     (c # fst (zero_out pat (Suc i) s), snd (zero_out pat (Suc i) s))"
  by (subst zero_out.simps) (auto simp: case_prod_unfold Let_def)

text \<open>Case analysis and induction along the pass.\<close>

lemma zero_out_induct [consumes 1, case_names Nil Match Skip]:
  assumes "pat \<noteq> []"
    and "\<And>i. P i []"
    and "\<And>i s. P (i + length pat) s \<Longrightarrow> P i (pat @ s)"
    and "\<And>i c s. \<not> prefix pat (c # s) \<Longrightarrow> P (Suc i) s \<Longrightarrow> P i (c # s)"
  shows "P i s"
proof (induction s arbitrary: i rule: length_induct)
  case (1 s)
  consider "s = []" | s' where "s = pat @ s'" | c s' where "s = c # s'" "\<not> prefix pat s"
    by (metis list.exhaust prefix_def)
  then show ?case
  proof cases
    case 2
    with assms(1) have "length s' < length s" by simp
    with 1 2 assms(3) show ?thesis by blast
  qed (use 1 assms(2,4) in auto)
qed

section \<open>The loop of rewriteStrings makes the pass\<close>

lemma find_str_here: "prefix pat s \<Longrightarrow> find_str (u @ s) pat (length u) = Some (length u)"
proof -
  assume "prefix pat s"
  then obtain r where "s = pat @ r" by (auto simp: prefix_def)
  moreover have "[length u..<Suc (length (u @ s))] = length u # [Suc (length u)..<Suc (length (u @ s))]"
    by (subst upt_rec) simp
  ultimately show ?thesis by (simp add: find_str_def del: upt_Suc)
qed

lemma find_str_skip:
  assumes "\<not> prefix pat (c # s)"
  shows "find_str (u @ c # s) pat (length u) = find_str (u @ c # s) pat (Suc (length u))"
proof -
  have "[length u..<Suc (length (u @ c # s))] = length u # [Suc (length u)..<Suc (length (u @ c # s))]"
    by (subst upt_rec) simp
  moreover have "\<not> take (length pat) (c # s) = pat"
    using assms take_is_prefix by metis
  ultimately show ?thesis by (simp add: find_str_def del: upt_Suc)
qed

lemma rewrite_loop_skip:
  assumes "\<not> prefix pat (c # s)"
  shows "rewrite_loop pat to (u @ c # s) (length u) ms = rewrite_loop pat to (u @ c # s) (Suc (length u)) ms"
  by (subst (1 2) rewrite_loop.simps) (simp add: find_str_skip [OF assms])

lemma not_prefix_null: "pat \<noteq> [] \<Longrightarrow> null_char \<notin> set pat \<Longrightarrow> \<not> prefix pat (null_char # s)"
  by (cases pat) auto

lemma rewrite_loop_nulls:
  assumes "pat \<noteq> []" "null_char \<notin> set pat"
  shows "rewrite_loop pat to (u @ replicate n null_char @ s) (length u) ms =
    rewrite_loop pat to (u @ replicate n null_char @ s) (length u + n) ms"
proof (induction n arbitrary: u)
  case (Suc n)
  have "rewrite_loop pat to (u @ replicate (Suc n) null_char @ s) (length u) ms =
      rewrite_loop pat to ((u @ [null_char]) @ replicate n null_char @ s) (length (u @ [null_char])) ms"
    using rewrite_loop_skip [OF not_prefix_null [OF assms]] by simp
  also have "\<dots> = rewrite_loop pat to ((u @ [null_char]) @ replicate n null_char @ s) (length (u @ [null_char]) + n) ms"
    by (rule Suc.IH)
  finally show ?case by simp
qed simp

lemma rewrite_loop_zero_out:
  assumes pat: "pat \<noteq> []" "null_char \<notin> set pat"
  shows "rewrite_loop pat (replicate (length pat) null_char) (u @ s) (length u) ms =
    Some (u @ fst (zero_out pat (length u) s), ms @ snd (zero_out pat (length u) s))"
  using pat(1)
proof (induction "length u" s arbitrary: u ms rule: zero_out_induct)
  case Nil
  have "find_str u pat (length u) = None" using pat by (auto simp: find_str_None_iff)
  then show ?case by (subst rewrite_loop.simps) simp
next
  case (Match s)
  let ?z = "replicate (length pat) null_char"
  have "rewrite_loop pat ?z (u @ pat @ s) (length u) ms = rewrite_loop pat ?z (u @ ?z @ s) (length u) (ms @ [length u])"
    by (subst rewrite_loop.simps) (simp add: find_str_here replace_at_def)
  also have "\<dots> = rewrite_loop pat ?z ((u @ ?z) @ s) (length (u @ ?z)) (ms @ [length u])"
    using rewrite_loop_nulls [OF pat] by simp
  also have "\<dots> = Some ((u @ ?z) @ fst (zero_out pat (length (u @ ?z)) s),
      (ms @ [length u]) @ snd (zero_out pat (length (u @ ?z)) s))"
    by (rule Match) simp
  finally show ?case by (simp add: zero_out_match [OF pat(1)])
next
  case (Skip c s)
  have "rewrite_loop pat (replicate (length pat) null_char) (u @ c # s) (length u) ms =
      rewrite_loop pat (replicate (length pat) null_char) ((u @ [c]) @ s) (length (u @ [c])) ms"
    using rewrite_loop_skip [OF Skip(1)] by simp
  also have "\<dots> = Some ((u @ [c]) @ fst (zero_out pat (length (u @ [c])) s), ms @ snd (zero_out pat (length (u @ [c])) s))"
    by (rule Skip) simp
  finally show ?case by (simp add: zero_out_skip [OF Skip(1)])
qed

section \<open>Cutting the stream\<close>

lemma zero_out_length [simp]: "length (fst (zero_out pat i s)) = length s"
proof (cases "pat = []")
  case False
  then show ?thesis by (induction i s rule: zero_out_induct) (simp_all add: zero_out_match [OF False] zero_out_skip)
qed (simp add: zero_out.simps)

lemma zero_out_short: "length s < length pat \<Longrightarrow> zero_out pat i s = (s, [])"
proof (induction s arbitrary: i)
  case (Cons c s)
  then have "\<not> prefix pat (c # s)" using prefix_length_le by fastforce
  with Cons show ?case by (simp add: zero_out_skip)
qed simp

text \<open>The pass only writes null bytes.\<close>

definition nulled :: "string \<Rightarrow> string \<Rightarrow> bool" where
  "nulled = list_all2 (\<lambda>a b. a = b \<or> a = null_char)"

lemma nulled_simps [simp]:
  "nulled [] []" "nulled (a # t) (b # s) \<longleftrightarrow> (a = b \<or> a = null_char) \<and> nulled t s"
  by (simp_all add: nulled_def)

lemma nulled_replicate: "nulled (replicate (length p) null_char) p"
  by (induction p) simp_all

lemma nulled_append: "nulled t s \<Longrightarrow> nulled t' s' \<Longrightarrow> nulled (t @ t') (s @ s')"
  unfolding nulled_def by (rule list_all2_appendI)

lemma zero_out_nulled: "nulled (fst (zero_out pat i s)) s"
proof (cases "pat = []")
  case False
  then show ?thesis
    by (induction i s rule: zero_out_induct) (simp_all add: zero_out_match [OF False] zero_out_skip nulled_append nulled_replicate)
qed (simp add: zero_out.simps nulled_def list_all2_refl)

lemma prefix_nulled:
  "nulled t s \<Longrightarrow> null_char \<notin> set pat \<Longrightarrow> prefix pat (t @ y) \<Longrightarrow> prefix pat (s @ y)"
  unfolding nulled_def
proof (induction t s arbitrary: pat rule: list_all2_induct)
  case (Cons a t b s)
  then show ?case by (cases pat) auto
qed simp

lemma sublist_nulls:
  assumes "pat \<noteq> []" "null_char \<notin> set pat"
  shows "sublist pat (replicate n null_char @ t) \<longleftrightarrow> sublist pat t"
  by (induction n) (simp_all add: sublist_Cons_right not_prefix_null [OF assms])

lemma zero_out_no_match:
  assumes "pat \<noteq> []" "null_char \<notin> set pat"
  shows "\<not> sublist pat (fst (zero_out pat i s))"
  using assms(1)
proof (induction i s rule: zero_out_induct)
  case (Skip i c s)
  have "\<not> prefix pat (c # fst (zero_out pat (Suc i) s))"
    using Skip prefix_nulled [of "c # fst (zero_out pat (Suc i) s)" "c # s" pat "[]"] zero_out_nulled assms(2) by auto
  with Skip show ?case by (simp add: zero_out_skip sublist_Cons_right)
qed (simp_all add: assms zero_out_match sublist_nulls)

lemma zero_out_stable:
  assumes "\<not> sublist pat (a @ b)" "length pat \<le> Suc (length b)"
  shows "zero_out pat i (a @ b @ y) = (a @ fst (zero_out pat (i + length a) (b @ y)), snd (zero_out pat (i + length a) (b @ y)))"
  using assms
proof (induction a arbitrary: i)
  case (Cons c a)
  have "\<not> prefix pat (c # a @ b @ y)"
  proof
    assume "prefix pat (c # a @ b @ y)"
    with Cons.prems(2) have "prefix pat (c # a @ b)"
      using prefix_length_prefix [of pat "c # a @ b @ y" "c # a @ b"] by simp
    with Cons.prems(1) show False by auto
  qed
  moreover have "\<not> sublist pat (a @ b)" using Cons.prems(1) by (simp add: sublist_Cons_right)
  ultimately show ?case using Cons by (simp add: zero_out_skip)
qed simp

lemma zero_out_nulls:
  assumes "pat \<noteq> []" "null_char \<notin> set pat"
  shows "zero_out pat i (replicate n null_char @ s) =
    (replicate n null_char @ fst (zero_out pat (i + n) s), snd (zero_out pat (i + n) s))"
  by (induction n arbitrary: i) (simp_all add: zero_out_skip not_prefix_null [OF assms])

lemma zero_out_append:
  assumes "pat \<noteq> []" "null_char \<notin> set pat"
  shows "fst (zero_out pat i (x @ y)) = fst (zero_out pat i (fst (zero_out pat i x) @ y)) \<and>
    set (snd (zero_out pat i (x @ y))) = set (snd (zero_out pat i x)) \<union> set (snd (zero_out pat i (fst (zero_out pat i x) @ y)))"
  using assms(1)
proof (induction i x rule: zero_out_induct)
  case (Match i x)
  let ?z = "replicate (length pat) null_char"
  have "zero_out pat i (?z @ s) = (?z @ fst (zero_out pat (i + length pat) s), snd (zero_out pat (i + length pat) s))" for s
    using zero_out_nulls [OF assms] by simp
  with Match show ?case by (simp add: zero_out_match assms)
next
  case (Skip i c x)
  show ?case
  proof (cases "prefix pat (c # x @ y)")
    case True
    with Skip(1) have "length (c # x) < length pat"
      using prefix_length_prefix [of pat "c # x @ y" "c # x"] by (force simp: not_less)
    then show ?thesis by (simp add: zero_out_short)
  next
    case False
    have "\<not> prefix pat (c # fst (zero_out pat (Suc i) x) @ y)"
      using False prefix_nulled [of "c # fst (zero_out pat (Suc i) x)" "c # x" pat y] zero_out_nulled assms(2) by auto
    with Skip False show ?thesis by (simp add: zero_out_skip)
  qed
qed simp

section \<open>The state of the sink\<close>

lemma zero_out_shift: "zero_out pat (i + k) s = (fst (zero_out pat i s), map (\<lambda>p. p + k) (snd (zero_out pat i s)))"
proof (cases "pat = []")
  case False
  then show ?thesis
  proof (induction i s rule: zero_out_induct)
    case (Match i s)
    then show ?case by (simp add: zero_out_match [OF False] add.assoc add.left_commute add.commute)
  qed (simp_all add: zero_out_skip)
qed (simp add: zero_out.simps)

lemma rewriteStrings_zero_out:
  assumes "pat \<noteq> []" "null_char \<notin> set pat"
  shows "rewriteStrings s [(pat, replicate (length pat) null_char)] k = Some (zero_out pat k s)"
proof -
  have "pat \<noteq> replicate (length pat) null_char" using assms by (cases pat) auto
  then show ?thesis
    using rewrite_loop_zero_out [OF assms, of "[]" s "[]"] zero_out_shift [of pat 0 k s]
    by (simp add: rewriteStrings_def case_prod_unfold)
qed

text \<open>How much of the rewritten stream the sink keeps back.\<close>

definition kept :: "string \<Rightarrow> nat \<Rightarrow> nat" where
  "kept pat n = (if n < length pat then n else length pat - 1)"

definition modulo_after :: "string \<Rightarrow> string \<Rightarrow> RewritingSink" where
  "modulo_after pat x =
     (let t = fst (zero_out pat 0 x); k = length x - kept pat (length x)
      in \<lparr>rs_rewrites = [(pat, replicate (length pat) null_char)], maxRewriteSize = length pat,
          prev = drop k t, rs_pos = k, matches = set (snd (zero_out pat 0 x)), written = take k t\<rparr>)"

lemma kept_step:
  assumes "pat \<noteq> []" "n \<ge> kept pat k0"
  shows "k0 - kept pat k0 + n - kept pat (k0 - kept pat k0 + n) = k0 - kept pat k0 + (n - kept pat n)"
  using assms by (cases pat) (auto simp: kept_def split: if_splits)

lemma sink_split:
  fixes pat x y :: string
  assumes pat: "pat \<noteq> []" "null_char \<notin> set pat"
  defines "k \<equiv> length x - kept pat (length x)" and "t \<equiv> fst (zero_out pat 0 x)"
  shows "fst (zero_out pat 0 (x @ y)) = take k t @ fst (zero_out pat k (drop k t @ y))"
    and "set (snd (zero_out pat 0 (x @ y))) = set (snd (zero_out pat 0 x)) \<union> set (snd (zero_out pat k (drop k t @ y)))"
proof -
  have "zero_out pat 0 (t @ y) = (take k t @ fst (zero_out pat k (drop k t @ y)), snd (zero_out pat k (drop k t @ y)))"
  proof (cases "k = 0")
    case False
    then have "length pat \<le> Suc (length (drop k t))" "length (take k t) = k"
      by (auto simp: k_def t_def kept_def split: if_splits)
    moreover have "\<not> sublist pat (take k t @ drop k t)" using zero_out_no_match [OF pat] by (simp add: t_def)
    ultimately show ?thesis using zero_out_stable [of pat "take k t" "drop k t" 0 y] by (simp flip: append_assoc)
  qed simp
  then show "fst (zero_out pat 0 (x @ y)) = take k t @ fst (zero_out pat k (drop k t @ y))"
    and "set (snd (zero_out pat 0 (x @ y))) = set (snd (zero_out pat 0 x)) \<union> set (snd (zero_out pat k (drop k t @ y)))"
    using zero_out_append [OF pat, of 0 x y] by (simp_all add: t_def)
qed

lemma RewritingSink_write_after:
  assumes pat: "pat \<noteq> []" "null_char \<notin> set pat"
  shows "RewritingSink_write y (modulo_after pat x) = Some (modulo_after pat (x @ y))"
proof -
  define k where "k = length x - kept pat (length x)"
  define t where "t = fst (zero_out pat 0 x)"
  define s where "s = fst (zero_out pat k (drop k t @ y))"
  have len: "length s = kept pat (length x) + length y" "k + length s = length (x @ y)" "length (take k t) = k"
    by (auto simp: s_def t_def k_def kept_def)
  have last: "(if length s < length pat then s else if length pat = 0 then []
      else take (length pat - 1) (drop (length s - length pat + 1) s)) = drop (length s - kept pat (length s)) s"
    using pat(1) by (cases pat) (auto simp: kept_def Suc_diff_Suc)
  have k': "length (x @ y) - kept pat (length (x @ y)) = k + (length s - kept pat (length s))"
    using kept_step [OF pat(1), of "length x" "length s"] len by (simp add: k_def)
  have "fst (zero_out pat 0 (x @ y)) = take k t @ s"
    using sink_split(1) [OF pat, of x y] by (simp add: k_def t_def s_def)
  then have new: "modulo_after pat (x @ y) = (modulo_after pat x)\<lparr>
      matches := matches (modulo_after pat x) \<union> set (snd (zero_out pat k (drop k t @ y))),
      prev := drop (length s - kept pat (length s)) s, rs_pos := k + (length s - kept pat (length s)),
      written := take k t @ take (length s - kept pat (length s)) s\<rparr>"
    using sink_split(2) [OF pat, of x y] k' len(3)
    by (simp add: modulo_after_def Let_def flip: k_def t_def del: length_append)
  have "kept pat (length s) \<le> length s" by (auto simp: kept_def)
  then have "length s - length (drop (length s - kept pat (length s)) s) = length s - kept pat (length s)" by simp
  moreover have "prev (modulo_after pat x) = drop k t" "rs_pos (modulo_after pat x) = k"
      "written (modulo_after pat x) = take k t" "maxRewriteSize (modulo_after pat x) = length pat"
      "rs_rewrites (modulo_after pat x) = [(pat, replicate (length pat) null_char)]"
    by (simp_all add: modulo_after_def Let_def k_def t_def)
  ultimately show ?thesis
    unfolding new RewritingSink_write_def Let_def
    by (simp only: rewriteStrings_zero_out [OF pat] option.case case_prod_unfold last flip: s_def)
qed

lemma HashModuloSink_writes:
  assumes pat: "pat \<noteq> []" "null_char \<notin> set pat"
  shows "RewritingSink_writes ds (modulo_after pat x) = Some (modulo_after pat (x @ concat ds))"
  by (induction ds arbitrary: x) (simp_all add: RewritingSink_write_after [OF pat])

lemma HashModuloSink_new_after: "HashModuloSink_new pat = Inr (modulo_after pat [])"
  by (simp add: HashModuloSink_new_def RewritingSink_new_def modulo_after_def Let_def kept_def ensure_def)

section \<open>The text that is hashed\<close>

definition position_text :: "nat list \<Rightarrow> string" where
  "position_text ps = concat (map (\<lambda>pos. CHR ''|'' # to_string pos) ps)"

definition modulo_text :: "string \<Rightarrow> string \<Rightarrow> string" where
  "modulo_text pat x = fst (zero_out pat 0 x) @ position_text (snd (zero_out pat 0 x))"

lemma zero_out_positions:
  assumes "pat \<noteq> []"
  shows "sorted_wrt (<) (snd (zero_out pat i s)) \<and> (\<forall>p\<in>set (snd (zero_out pat i s)). i \<le> p)"
  using assms
proof (induction i s rule: zero_out_induct)
  case (Match i s)
  have "0 < length pat" using assms by simp
  then have later: "i < p" if "i + length pat \<le> p" for p using that by linarith
  with Match show ?case by (auto simp: zero_out_match [OF assms] intro: less_imp_le)
next
  case (Skip i c s)
  then show ?case by (auto simp: zero_out_skip)
qed simp

lemma hashed_text_after:
  assumes "pat \<noteq> []"
  shows "hashed_text (RewritingSink_flush (modulo_after pat x)) = modulo_text pat x"
    and "rs_pos (RewritingSink_flush (modulo_after pat x)) = length x"
proof -
  have "sorted_list_of_set (set (snd (zero_out pat 0 x))) = snd (zero_out pat 0 x)"
    using zero_out_positions [OF assms, of 0 x]
    by (metis sorted_list_of_set.idem_if_sorted_distinct strict_sorted_iff)
  then show "hashed_text (RewritingSink_flush (modulo_after pat x)) = modulo_text pat x"
    by (auto simp: hashed_text_def RewritingSink_flush_def modulo_after_def Let_def modulo_text_def position_text_def
      simp flip: append_assoc)
  show "rs_pos (RewritingSink_flush (modulo_after pat x)) = length x"
    by (auto simp: RewritingSink_flush_def modulo_after_def Let_def kept_def)
qed

text \<open>Writing the self-references back.\<close>

definition put_back :: "string \<Rightarrow> nat list \<Rightarrow> string \<Rightarrow> string" where
  "put_back pat ps t = fold (\<lambda>i t. replace_at t i (length pat) pat) ps t"

lemma put_back_zero_out:
  assumes "pat \<noteq> []"
  shows "put_back pat (snd (zero_out pat (length u) s)) (u @ fst (zero_out pat (length u) s)) = u @ s"
  using assms
proof (induction "length u" s arbitrary: u rule: zero_out_induct)
  case (Match s)
  from Match(1) [of "u @ pat"] show ?case
    by (simp add: zero_out_match [OF assms] put_back_def replace_at_def)
next
  case (Skip c s)
  from Skip(2) [of "u @ [c]"] Skip(1) show ?case by (simp add: zero_out_skip put_back_def)
qed (simp add: put_back_def)

section \<open>The text determines the object\<close>

lemma to_string_not_Nil [simp]: "to_string n \<noteq> []"
  by (subst to_string.simps) simp

lemma last_digit: "last (to_string n) = char_of (48 + n mod 10)"
  by (subst to_string.simps) simp

lemma butlast_digits: "butlast (to_string n) = (if n < 10 then [] else to_string (n div 10))"
  by (subst to_string.simps) (simp add: butlast_append)

lemma to_string_inj: "to_string m = to_string n \<Longrightarrow> m = n"
proof (induction m arbitrary: n rule: less_induct)
  case (less m)
  have "of_char (char_of (48 + k mod 10) :: char) = (48 + k mod 10 :: nat)" for k
    using mod_less_divisor [of 10 k] by (simp del: mod_less_divisor)
  then have digit: "m mod 10 = n mod 10" using arg_cong [OF less.prems, of last] by (metis last_digit add_left_cancel)
  have rest: "(if m < 10 then [] else to_string (m div 10)) = (if n < 10 then [] else to_string (n div 10))"
    using arg_cong [OF less.prems, of butlast] by (simp only: butlast_digits)
  show ?case
  proof (cases "m < 10")
    case True
    with rest have "n < 10" by (metis to_string_not_Nil)
    with True digit show ?thesis by simp
  next
    case False
    with rest have "to_string (m div 10) = to_string (n div 10)" by (metis to_string_not_Nil)
    with False have "m div 10 = n div 10" by (intro less.IH) auto
    with digit show ?thesis by (metis div_mult_mod_eq)
  qed
qed

lemma to_string_no:
  "CHR ''|'' \<notin> set (to_string n)" "null_char \<notin> set (to_string n)"
  using to_string_digits [of "CHR ''|''" n] to_string_digits [of null_char n] by (auto simp: null_char_def)

lemma position_text_inj: "position_text ps = position_text qs \<Longrightarrow> ps = qs"
proof (induction ps arbitrary: qs)
  case Nil
  then show ?case by (cases qs) (simp_all add: position_text_def)
next
  case (Cons p ps)
  then obtain q qs' where qs: "qs = q # qs'" by (cases qs) (simp_all add: position_text_def)
  have bar: "takeWhile (\<lambda>c. c \<noteq> CHR ''|'') (position_text rs) = []" for rs
    by (cases rs) (simp_all add: position_text_def)
  have split: "takeWhile (\<lambda>c. c \<noteq> CHR ''|'') (to_string n @ position_text rs) = to_string n" for n rs
    using to_string_no(1) [of n] bar by (subst takeWhile_append2) auto
  from Cons.prems qs have eq: "to_string p @ position_text ps = to_string q @ position_text qs'"
    by (simp add: position_text_def)
  then have "to_string p = to_string q" using split by metis
  with eq Cons.IH to_string_inj qs show ?case by auto
qed

lemma position_text_no_null: "null_char \<notin> set (position_text ps)"
  using to_string_no(2) by (auto simp: position_text_def null_char_def)

lemma null_split:
  assumes "a @ b = a' @ b'" "a \<noteq> []" "a' \<noteq> []" "last a = c" "last a' = c" "c \<notin> set b" "c \<notin> set b'"
  shows "a = a' \<and> b = b'"
proof -
  have tw: "takeWhile (\<lambda>d. d \<noteq> c) (rev (u @ v)) = rev v" if "u \<noteq> []" "last u = c" "c \<notin> set v" for u v
  proof -
    from that obtain w where "rev u = c # w" by (cases u rule: rev_cases) auto
    moreover have "takeWhile (\<lambda>d. d \<noteq> c) (rev v @ rev u) = rev v @ takeWhile (\<lambda>d. d \<noteq> c) (rev u)"
      using that(3) by (intro takeWhile_append2) auto
    ultimately show ?thesis by simp
  qed
  from tw [of a b] tw [of a' b'] assms have "rev b = rev b'" by metis
  with assms(1) show ?thesis by simp
qed

lemma nulled_last: "nulled t s \<Longrightarrow> s \<noteq> [] \<Longrightarrow> last s = null_char \<Longrightarrow> t \<noteq> [] \<and> last t = null_char"
  unfolding nulled_def by (induction t s rule: list_all2_induct) (auto split: if_splits)

lemma modulo_text_determines:
  assumes pat: "p \<noteq> []" "q \<noteq> []" and x: "x \<noteq> []" "last x = null_char" and y: "y \<noteq> []" "last y = null_char"
    and eq: "modulo_text p x = modulo_text q y"
  shows "\<exists>t ps. x = put_back p ps t \<and> y = put_back q ps t"
proof -
  let ?X = "zero_out p 0 x" and ?Y = "zero_out q 0 y"
  have X: "fst ?X \<noteq> []" "last (fst ?X) = null_char" and Y: "fst ?Y \<noteq> []" "last (fst ?Y) = null_char"
    using nulled_last [OF zero_out_nulled] x y by blast+
  have "fst ?X = fst ?Y \<and> position_text (snd ?X) = position_text (snd ?Y)"
    by (rule null_split [where c = null_char]) (use eq X Y position_text_no_null in \<open>simp_all add: modulo_text_def\<close>)
  then have "fst ?X = fst ?Y" "snd ?X = snd ?Y" using position_text_inj by blast+
  with put_back_zero_out [OF pat(1), of "[]" x] put_back_zero_out [OF pat(2), of "[]" y] show ?thesis
    by (intro exI [of _ "fst ?X"] exI [of _ "snd ?X"]) simp
qed

section \<open>Hashing archives\<close>

lemma hash_modulo_eq:
  assumes "modulus \<noteq> []" "null_char \<notin> set modulus"
  shows "hash_modulo digest ha modulus data =
    Inr (Some (digest ha (string_bytes (modulo_text modulus (concat data))), length (concat data)))"
  using HashModuloSink_writes [OF assms, of data "[]"] hashed_text_after [OF assms(1)]
  by (simp add: hash_modulo_def HashModuloSink_new_after HashModuloSink_finish_def Let_def)

text \<open>
  C18: The hash modulo a string and the number of bytes do not depend on how the stream is cut
  into fragments: they are those of one pass that replaces the occurrences of the string from the
  left by null bytes, with the positions of the occurrences appended.
\<close>

theorem hash_modulo_streams:
  assumes "modulus \<noteq> []" "null_char \<notin> set modulus"
  shows "hash_modulo digest ha modulus data =
    Inr (Some (digest ha (string_bytes (modulo_text modulus (concat data))), length (concat data)))"
  using assms by (rule hash_modulo_eq)

theorem hash_modulo_streams_witness:
  "hash_modulo (\<lambda>_ b. b) SHA256 ''abc'' [''xa'', ''bcab'', ''c''] =
    Inr (Some (string_bytes (modulo_text ''abc'' ''xabcabc''), 7))"
  using hash_modulo_streams [of "''abc''" "\<lambda>_ b. b" SHA256 "[''xa'', ''bcab'', ''c'']"] by (simp add: null_char_def)

lemma writeString_close: "writeString '')'' = writeNum 1 @ CHR '')'' # replicate 7 null_char"
  by (simp add: writeString_def writePadding_def null_char_def)

lemma archive_ends:
  assumes "dumpPath useCaseHack flt path node = Inr d"
  shows "d \<noteq> [] \<and> last d = null_char"
proof -
  obtain e where "d = e @ writeString '')''"
    using assms by (auto simp: dumpPath_def dump_node.simps [of _ _ _ _ node] result_simps split: if_splits fso.splits)
  then show ?thesis by (simp add: writeString_close)
qed

lemma of_char_byte_inj: "(of_char c :: byte) = of_char d \<longleftrightarrow> c = d"
proof
  assume "(of_char c :: byte) = of_char d"
  moreover have "unat (of_char e :: byte) = of_char e" for e
  proof -
    have "(of_char e :: byte) = word_of_nat (of_char e)" by (simp add: of_nat_of_char)
    moreover have "(of_char e :: nat) < 256" by (rule of_char_less_256)
    ultimately show ?thesis by (simp add: unsigned_of_nat take_bit_nat_eq_self)
  qed
  ultimately have "(of_char c :: nat) = of_char d" by metis
  then show "c = d" by simp
qed simp

lemma string_bytes_inj: "string_bytes x = string_bytes y \<Longrightarrow> x = y"
  unfolding string_bytes_def by (erule map_injective) (simp add: inj_def of_char_byte_inj)

text \<open>
  C16: Two archives for which the hash function is given the same text are equal up to the
  replacement of their self-references by each other: they arise from one text by writing their
  own hash part at the same positions. In particular archives with the same hash part, one of
  which has self-references that are null bytes in the other, are never given the same text.
\<close>

theorem hash_modulo_determines_archive:
  assumes dumps: "dumpPath h flt path node = Inr (concat xs)" "dumpPath h' flt' path' node' = Inr (concat ys)"
    and p: "p \<noteq> []" "null_char \<notin> set p" and q: "q \<noteq> []" "null_char \<notin> set q"
    and hashed: "hash_modulo (\<lambda>_ bytes. bytes) ha p xs = Inr (Some (bs, m))"
      "hash_modulo (\<lambda>_ bytes. bytes) ha' q ys = Inr (Some (bs, n))"
  shows "(\<exists>t ps. concat xs = put_back p ps t \<and> concat ys = put_back q ps t) \<and> (p = q \<longrightarrow> concat xs = concat ys)"
proof -
  have "modulo_text p (concat xs) = modulo_text q (concat ys)"
    using hashed p q by (auto simp: hash_modulo_eq intro: string_bytes_inj)
  with archive_ends [OF dumps(1)] archive_ends [OF dumps(2)] p q
  have "\<exists>t ps. concat xs = put_back p ps t \<and> concat ys = put_back q ps t" by (intro modulo_text_determines) auto
  then show ?thesis by auto
qed

text \<open>Symbolic links to themselves under two different hash parts.\<close>

definition sample_head :: string where
  "sample_head = writeString narVersionMagic1 @ writeString ''('' @ writeString ''type'' @ writeString ''symlink'' @
     writeString ''target'' @ writeNum 3"

definition sample_end :: string where
  "sample_end = writePadding 3 @ writeString '')''"

lemma dump_sample: "length t = 3 \<Longrightarrow> dumpPath False (\<lambda>_. True) ''/'' (Symlink t) = Inr (sample_head @ t @ sample_end)"
  by (simp add: dumpPath_def dump_node.simps narMaxDepth_def sample_head_def sample_end_def writeString_def [of t])

lemma zero_out_absent:
  assumes "pat \<noteq> []" "hd pat \<notin> set a"
  shows "zero_out pat i (a @ s) = (a @ fst (zero_out pat (i + length a) s), snd (zero_out pat (i + length a) s))"
  using assms(2)
proof (induction a arbitrary: i)
  case (Cons c a)
  with assms(1) have "\<not> prefix pat (c # a @ s)" by (cases pat) auto
  with Cons show ?case by (simp add: zero_out_skip)
qed simp

lemma sample_absent: "CHR ''P'' \<notin> set (sample_head @ sample_end)" "CHR ''Q'' \<notin> set (sample_head @ sample_end)"
  by (simp_all add: sample_head_def sample_end_def narVersionMagic1_def writeString_def writeNum_def upt_rec
    writePadding_def char_of_def)

lemma sample_text:
  assumes "t \<noteq> []" "hd t \<notin> set (sample_head @ sample_end)"
  shows "modulo_text t (sample_head @ t @ sample_end) =
    sample_head @ replicate (length t) null_char @ sample_end @ position_text [length sample_head]"
  using assms zero_out_absent [of t sample_head 0 "t @ sample_end"]
    zero_out_absent [of t sample_end "length sample_head + length t" "[]"]
  by (simp add: modulo_text_def zero_out_match)

theorem hash_modulo_determines_archive_witness:
  "\<exists>t ps. sample_head @ ''P12'' @ sample_end = put_back ''P12'' ps t \<and> sample_head @ ''Q34'' @ sample_end = put_back ''Q34'' ps t"
  using hash_modulo_determines_archive [of False "\<lambda>_. True" "''/''" "Symlink ''P12''" "[sample_head @ ''P12'' @ sample_end]"
      False "\<lambda>_. True" "''/''" "Symlink ''Q34''" "[sample_head @ ''Q34'' @ sample_end]" "''P12''" "''Q34''" SHA256 _ _ SHA256]
    sample_text [of "''P12''"] sample_text [of "''Q34''"] sample_absent
  by (simp add: dump_sample hash_modulo_eq null_char_def)

end
