(* ===== verification/Closure.thy ===== *)
theory Closure
  imports Prelude "HOL-Library.Multiset" "HOL-Library.FSet"
begin

text \<open>
  The traversal that computes closures (\<^verbatim>\<open>libutil/include/nix/util/closure.hh\<close>): workers that run
  concurrently, a limit on their number with a queue of nodes that wait, the first error, and
  the completion handler. The handlers run one at a time on a strand; which of the handlers that
  are posted or wait for the edges of a node runs next is left open.
\<close>

section \<open>The state\<close>

text \<open>
  \<open>Begin\<close> is the handler that enqueues the start elements. \<open>Work\<close> is a worker, from the moment
  it is posted to the moment its \<^verbatim>\<open>getEdges\<close> returns. \<open>Spawn\<close> is the handler posted for an element
  taken from the queue, \<open>Complete\<close> that which calls the completion handler.
\<close>

datatype ('a, 'e) handler =
  is_Begin: Begin "'a fset" | is_Work: Work 'a | is_Spawn: Spawn 'a | is_Complete: Complete "'e option"

record ('a, 'e) State =
  res :: "'a set"
  workGuard :: bool
  pending :: nat
  inFlight :: nat
  todo :: "'a list"
  error :: "'e option"
  posted :: "('a, 'e) handler multiset"
  handled :: "'e option list"

definition maxConcurrent :: nat where
  "maxConcurrent = 1024"

section \<open>The operations\<close>

definition complete :: "'e option \<Rightarrow> ('a, 'e) State \<Rightarrow> ('a, 'e) State" where
  "complete ex st = st\<lparr>workGuard := False, posted := add_mset (Complete ex) (posted st)\<rparr>"

definition fail :: "'e \<Rightarrow> ('a, 'e) State \<Rightarrow> ('a, 'e) State" where
  "fail ex st = (if error st = None then st\<lparr>error := Some ex\<rparr> else st)"

definition spawnWorker :: "'a \<Rightarrow> ('a, 'e) State \<Rightarrow> ('a, 'e) State" where
  "spawnWorker elt st = st\<lparr>inFlight := inFlight st + 1, posted := add_mset (Work elt) (posted st)\<rparr>"

definition enqueue :: "nat \<Rightarrow> 'a \<Rightarrow> ('a, 'e) State \<Rightarrow> ('a, 'e) State" where
  "enqueue limit elt st =
     (if error st \<noteq> None then st
      else if elt \<in> res st then st
      else let st = st\<lparr>res := insert elt (res st), pending := pending st + 1\<rparr> in
        if inFlight st < limit then spawnWorker elt st else st\<lparr>todo := todo st @ [elt]\<rparr>)"

definition enqueue_set :: "nat \<Rightarrow> 'a::linorder fset \<Rightarrow> ('a, 'e) State \<Rightarrow> ('a, 'e) State" where
  "enqueue_set limit elts st = fold (enqueue limit) (sorted_list_of_fset elts) st"

definition onWorkDone :: "('a, 'e) State \<Rightarrow> ('a, 'e) State" where
  "onWorkDone st =
     (let st = st\<lparr>inFlight := inFlight st - 1, pending := pending st - 1\<rparr> in
      if todo st \<noteq> [] \<and> error st = None then
        st\<lparr>todo := tl (todo st), posted := add_mset (Spawn (hd (todo st))) (posted st)\<rparr>
      else let st = (if error st \<noteq> None then st\<lparr>pending := pending st - length (todo st), todo := []\<rparr> else st) in
        if pending st = 0 then complete (error st) st else st)"

text \<open>The end of a worker: what \<^verbatim>\<open>getEdges\<close> returned is enqueued, what it threw is recorded.\<close>

definition work_done :: "nat \<Rightarrow> 'e + 'a::linorder fset \<Rightarrow> ('a, 'e) State \<Rightarrow> ('a, 'e) State" where
  "work_done limit edges st =
     onWorkDone (case edges of Inr elts \<Rightarrow> enqueue_set limit elts st | Inl ex \<Rightarrow> fail ex st)"

definition computeClosure_start :: "'a fset \<Rightarrow> 'a set \<Rightarrow> ('a, 'e) State" where
  "computeClosure_start startElts res0 =
     (let st = \<lparr>res = res0, workGuard = True, pending = 0, inFlight = 0, todo = [], error = None, posted = {#}, handled = []\<rparr>
      in if startElts = {||} then complete None st else st\<lparr>posted := {#Begin startElts#}\<rparr>)"

text \<open>One handler of the executor.\<close>

definition take_handler :: "('a, 'e) handler \<Rightarrow> ('a, 'e) State \<Rightarrow> ('a, 'e) State" where
  "take_handler h st = st\<lparr>posted := posted st - {#h#}\<rparr>"

fun run_handler :: "nat \<Rightarrow> ('a \<Rightarrow> 'e + 'a::linorder fset) \<Rightarrow> ('a, 'e) handler \<Rightarrow> ('a, 'e) State \<Rightarrow> ('a, 'e) State" where
  "run_handler limit getEdges (Begin elts) st = enqueue_set limit elts st"
| "run_handler limit getEdges (Work elt) st = work_done limit (getEdges elt) st"
| "run_handler limit getEdges (Spawn elt) st = spawnWorker elt st"
| "run_handler limit getEdges (Complete ex) st = st\<lparr>handled := handled st @ [ex]\<rparr>"

inductive step :: "nat \<Rightarrow> ('a \<Rightarrow> 'e + 'a::linorder fset) \<Rightarrow> ('a, 'e) State \<Rightarrow> ('a, 'e) State \<Rightarrow> bool"
  for limit getEdges where
  handler: "h \<in># posted st \<Longrightarrow> step limit getEdges st (run_handler limit getEdges h (take_handler h st))"

inductive_cases stepE: "step limit getEdges st st'"
inductive_simps step_simps: "step limit getEdges st st'"

abbreviation run :: "nat \<Rightarrow> ('a \<Rightarrow> 'e + 'a::linorder fset) \<Rightarrow> ('a, 'e) State \<Rightarrow> ('a, 'e) State \<Rightarrow> bool" where
  "run limit getEdges \<equiv> (step limit getEdges)\<^sup>*\<^sup>*"

text \<open>
  The synchronous version runs the executor until it has no work left; it throws what the
  completion handler was given and otherwise returns the set.
\<close>

definition computeClosure_outcome :: "('a, 'e) State \<Rightarrow> 'e + 'a set" where
  "computeClosure_outcome st = (case fold (\<lambda>ex2 ex. ex2) (handled st) None of Some ex \<Rightarrow> Inl ex | None \<Rightarrow> Inr (res st))"

section \<open>What is reachable\<close>

text \<open>The elements reached from the start through edges, not entering elements already known.\<close>

inductive_set reach :: "('a \<Rightarrow> 'e + 'a fset) \<Rightarrow> 'a fset \<Rightarrow> 'a set \<Rightarrow> 'a set"
  for getEdges startElts res0 where
  start: "a |\<in>| startElts \<Longrightarrow> a \<notin> res0 \<Longrightarrow> a \<in> reach getEdges startElts res0"
| edge: "a \<in> reach getEdges startElts res0 \<Longrightarrow> getEdges a = Inr es \<Longrightarrow> b |\<in>| es \<Longrightarrow> b \<notin> res0 \<Longrightarrow>
    b \<in> reach getEdges startElts res0"

section \<open>The invariant\<close>

abbreviation works :: "('a, 'e) State \<Rightarrow> nat" where
  "works st \<equiv> size (filter_mset is_Work (posted st))"

abbreviation spawns :: "('a, 'e) State \<Rightarrow> nat" where
  "spawns st \<equiv> size (filter_mset is_Spawn (posted st))"

definition active :: "('a, 'e) State \<Rightarrow> 'a set" where
  "active st = {a. Work a \<in># posted st} \<union> {a. Spawn a \<in># posted st} \<union> set (todo st)"

text \<open>
  The counters and the sets while a handler runs: \<open>k\<close> workers are running (none between
  handlers) and the elements of \<open>X\<close> are being handled.
\<close>

definition counted :: "nat \<Rightarrow> ('a, 'e) State \<Rightarrow> bool" where
  "counted k st \<longleftrightarrow> inFlight st = works st + k \<and> pending st = works st + spawns st + length (todo st) + k \<and>
     (k = 0 \<and> error st \<noteq> None \<longrightarrow> todo st = []) \<and> (todo st \<noteq> [] \<longrightarrow> 0 < works st + spawns st + k)"

definition explored ::
  "('a \<Rightarrow> 'e + 'a fset) \<Rightarrow> 'a fset \<Rightarrow> 'a set \<Rightarrow> 'a set \<Rightarrow> ('a, 'e) State \<Rightarrow> bool" where
  "explored getEdges S R0 X st \<longleftrightarrow>
     R0 \<subseteq> res st \<and> res st \<subseteq> R0 \<union> reach getEdges S R0 \<and> active st \<subseteq> reach getEdges S R0 \<and> active st \<subseteq> res st \<and>
     (\<forall>e. error st = Some e \<longrightarrow> (\<exists>a\<in>reach getEdges S R0. getEdges a = Inl e)) \<and>
     (error st = None \<longrightarrow> (\<forall>a\<in>res st - R0 - active st - X. \<exists>es. getEdges a = Inr es \<and> fset es \<subseteq> res st))"

definition core where
  "core getEdges S R0 k X st \<longleftrightarrow> counted k st \<and> explored getEdges S R0 X st"

lemma explored_add:
  assumes "explored getEdges S R0 X st" "elt \<in> reach getEdges S R0"
    and "res st' = insert elt (res st)" "active st' = insert elt (active st)" "error st' = error st"
  shows "explored getEdges S R0 X st'"
  using assms(1) unfolding explored_def assms(3,4,5) using assms(2) by blast

lemma core_spawn_new:
  assumes "core getEdges S R0 k X st" "elt \<in> reach getEdges S R0"
  shows "core getEdges S R0 k X (spawnWorker elt (st\<lparr>res := insert elt (res st), pending := pending st + 1\<rparr>))"
proof -
  let ?st = "spawnWorker elt (st\<lparr>res := insert elt (res st), pending := pending st + 1\<rparr>)"
  have cnt: "counted k ?st" using assms(1) by (simp add: core_def counted_def spawnWorker_def)
  have act: "active ?st = insert elt (active st)" by (auto simp: active_def spawnWorker_def)
  have "explored getEdges S R0 X ?st"
    by (rule explored_add [of _ _ _ _ st elt]) (use assms act in \<open>simp_all add: core_def spawnWorker_def\<close>)
  with cnt show ?thesis by (simp add: core_def)
qed

lemma core_queue_new:
  assumes "core getEdges S R0 k X st" "elt \<in> reach getEdges S R0" "error st = None" "0 < inFlight st"
  shows "core getEdges S R0 k X (st\<lparr>res := insert elt (res st), pending := pending st + 1, todo := todo st @ [elt]\<rparr>)"
proof -
  let ?st = "st\<lparr>res := insert elt (res st), pending := pending st + 1, todo := todo st @ [elt]\<rparr>"
  have cnt: "counted k ?st" using assms by (simp add: core_def counted_def) blast
  have act: "active ?st = insert elt (active st)" by (auto simp: active_def)
  have "explored getEdges S R0 X ?st"
    by (rule explored_add [of _ _ _ _ st elt]) (use assms act in \<open>simp_all add: core_def\<close>)
  with cnt show ?thesis by (simp add: core_def)
qed

lemma core_enqueue:
  assumes "core getEdges S R0 k X st" "elt \<in> R0 \<union> reach getEdges S R0" "0 < limit"
  shows "core getEdges S R0 k X (enqueue limit elt st)"
proof (cases "error st \<noteq> None \<or> elt \<in> res st")
  case True
  then show ?thesis using assms by (auto simp: enqueue_def)
next
  case False
  then have "elt \<in> reach getEdges S R0" using assms by (auto simp: core_def explored_def)
  with False assms core_spawn_new [OF assms(1)] core_queue_new [OF assms(1)] show ?thesis
    by (auto simp: enqueue_def Let_def)
qed

text \<open>What enqueueing leaves alone.\<close>

lemma enqueue_frame:
  "error (enqueue limit elt st) = error st" "handled (enqueue limit elt st) = handled st"
  "workGuard (enqueue limit elt st) = workGuard st"
  "filter_mset is_Begin (posted (enqueue limit elt st)) = filter_mset is_Begin (posted st)"
  "filter_mset is_Complete (posted (enqueue limit elt st)) = filter_mset is_Complete (posted st)"
  "res (enqueue limit elt st) = (if error st = None then insert elt (res st) else res st)"
  by (auto simp: enqueue_def Let_def spawnWorker_def)

lemma enqueue_set_frame:
  "error (enqueue_set limit elts st) = error st" "handled (enqueue_set limit elts st) = handled st"
  "workGuard (enqueue_set limit elts st) = workGuard st"
  "filter_mset is_Begin (posted (enqueue_set limit elts st)) = filter_mset is_Begin (posted st)"
  "filter_mset is_Complete (posted (enqueue_set limit elts st)) = filter_mset is_Complete (posted st)"
  "res (enqueue_set limit elts st) = (if error st = None then fset elts \<union> res st else res st)"
proof -
  have "error (fold (enqueue limit) xs st) = error st \<and> handled (fold (enqueue limit) xs st) = handled st \<and>
      workGuard (fold (enqueue limit) xs st) = workGuard st \<and>
      filter_mset is_Begin (posted (fold (enqueue limit) xs st)) = filter_mset is_Begin (posted st) \<and>
      filter_mset is_Complete (posted (fold (enqueue limit) xs st)) = filter_mset is_Complete (posted st) \<and>
      res (fold (enqueue limit) xs st) = (if error st = None then set xs \<union> res st else res st)" for xs
    by (induction xs arbitrary: st) (simp_all add: enqueue_frame)
  from this [of "sorted_list_of_fset elts"] show
    "error (enqueue_set limit elts st) = error st" "handled (enqueue_set limit elts st) = handled st"
    "workGuard (enqueue_set limit elts st) = workGuard st"
    "filter_mset is_Begin (posted (enqueue_set limit elts st)) = filter_mset is_Begin (posted st)"
    "filter_mset is_Complete (posted (enqueue_set limit elts st)) = filter_mset is_Complete (posted st)"
    "res (enqueue_set limit elts st) = (if error st = None then fset elts \<union> res st else res st)"
    by (simp_all add: enqueue_set_def)
qed

lemma core_enqueue_set:
  assumes "core getEdges S R0 k X st" "fset elts \<subseteq> R0 \<union> reach getEdges S R0" "0 < limit"
  shows "core getEdges S R0 k X (enqueue_set limit elts st)"
proof -
  have "set xs \<subseteq> R0 \<union> reach getEdges S R0 \<Longrightarrow> core getEdges S R0 k X (fold (enqueue limit) xs st)" for xs
    using assms(1) by (induction xs arbitrary: st) (simp_all add: core_enqueue [OF _ _ assms(3)])
  then show ?thesis using assms(2) by (simp add: enqueue_set_def)
qed

lemma explored_done:
  assumes "explored getEdges S R0 {a} st" and "error st = None \<longrightarrow> (\<exists>es. getEdges a = Inr es \<and> fset es \<subseteq> res st)"
    and "res st' = res st" "error st' = error st" "active st' \<subseteq> active st" "error st = None \<longrightarrow> active st' = active st"
  shows "explored getEdges S R0 {} st'"
proof -
  have "\<exists>es. getEdges b = Inr es \<and> fset es \<subseteq> res st" if "error st = None" "b \<in> res st - R0 - active st" for b
    using assms(1,2) that by (cases "b = a") (auto simp: explored_def)
  moreover have "active st' \<subseteq> reach getEdges S R0" "active st' \<subseteq> res st"
    using assms(1,5) unfolding explored_def by blast+
  ultimately show ?thesis using assms(1,6) unfolding explored_def assms(3,4) by simp
qed

lemma complete_frame [simp]:
  "res (complete ex st) = res st" "error (complete ex st) = error st" "active (complete ex st) = active st"
  "counted k (complete ex st) = counted k st" "pending (complete ex st) = pending st" "todo (complete ex st) = todo st"
  "handled (complete ex st) = handled st" "posted (complete ex st) = add_mset (Complete ex) (posted st)"
  by (auto simp: complete_def active_def counted_def)

text \<open>The branches of \<^verbatim>\<open>onWorkDone\<close>.\<close>

lemma onWorkDone_next:
  "todo st \<noteq> [] \<Longrightarrow> error st = None \<Longrightarrow> onWorkDone st =
     st\<lparr>inFlight := inFlight st - 1, pending := pending st - 1, todo := tl (todo st),
        posted := add_mset (Spawn (hd (todo st))) (posted st)\<rparr>"
  by (simp add: onWorkDone_def)

lemma onWorkDone_rest:
  assumes "todo st = [] \<or> error st \<noteq> None"
  shows "onWorkDone st = (let st' = st\<lparr>inFlight := inFlight st - 1, pending := pending st - 1 - length (todo st), todo := []\<rparr>
     in if pending st' = 0 then complete (error st) st' else st')"
  using assms by (cases st) (auto simp: onWorkDone_def Let_def complete_def)

lemma core_onWorkDone:
  assumes core: "core getEdges S R0 1 {a} st"
    and a: "error st = None \<longrightarrow> (\<exists>es. getEdges a = Inr es \<and> fset es \<subseteq> res st)"
  shows "core getEdges S R0 0 {} (onWorkDone st)"
proof (cases "todo st \<noteq> [] \<and> error st = None")
  case True
  have "counted 0 (onWorkDone st)" using core True by (auto simp: onWorkDone_next core_def counted_def)
  moreover have "active (onWorkDone st) = active st"
    using True by (cases "todo st") (auto simp: onWorkDone_next active_def)
  ultimately show ?thesis
    using explored_done [of getEdges S R0 a st "onWorkDone st"] core a True by (simp add: core_def onWorkDone_next)
next
  case False
  let ?st = "st\<lparr>inFlight := inFlight st - 1, pending := pending st - 1 - length (todo st), todo := []\<rparr>"
  have "counted 0 ?st" using core by (auto simp: core_def counted_def)
  moreover have "active ?st \<subseteq> active st" "error st = None \<longrightarrow> active ?st = active st"
    using False by (auto simp: active_def)
  then have "explored getEdges S R0 {} ?st"
    using explored_done [of getEdges S R0 a st ?st] core a by (simp add: core_def)
  ultimately have "core getEdges S R0 0 {} ?st" by (simp add: core_def)
  moreover have "core getEdges S R0 0 {} (complete ex st') = core getEdges S R0 0 {} st'" for ex st'
    unfolding core_def explored_def by simp
  ultimately have "core getEdges S R0 0 {} (if b then complete ex ?st else ?st)" for b ex by (cases b) simp_all
  moreover have "todo st = [] \<or> error st \<noteq> None" using False by auto
  ultimately show ?thesis by (simp only: onWorkDone_rest Let_def)
qed

section \<open>Every handler keeps the invariant\<close>

abbreviation begins :: "('a, 'e) State \<Rightarrow> ('a, 'e) handler multiset" where
  "begins st \<equiv> filter_mset is_Begin (posted st)"

abbreviation completes :: "('a, 'e) State \<Rightarrow> ('a, 'e) handler multiset" where
  "completes st \<equiv> filter_mset is_Complete (posted st)"

declare filter_mset_eq_mempty_iff [simp del]

text \<open>The completion handler is posted when the last pending element is done, and once.\<close>

definition outcome_ok :: "'a fset \<Rightarrow> 'a set \<Rightarrow> ('a, 'e) State \<Rightarrow> bool" where
  "outcome_ok S R0 st \<longleftrightarrow>
     (if 0 < pending st \<or> S \<noteq> {||} \<and> fset S \<subseteq> R0 then completes st = {#} \<and> handled st = []
      else handled st = [] \<and> completes st = {#Complete (error st)#} \<or> handled st = [error st] \<and> completes st = {#})"

definition closure_inv :: "('a \<Rightarrow> 'e + 'a fset) \<Rightarrow> 'a fset \<Rightarrow> 'a set \<Rightarrow> ('a, 'e) State \<Rightarrow> bool" where
  "closure_inv getEdges S R0 st \<longleftrightarrow> core getEdges S R0 0 {} st \<and>
     (if begins st = {#} then fset S \<subseteq> res st \<and> outcome_ok S R0 st
      else posted st = {#Begin S#} \<and> res st = R0 \<and> handled st = [] \<and> error st = None \<and> S \<noteq> {||})"

lemma reach_new_start: "a \<in> reach getEdges S R0 \<Longrightarrow> \<exists>s. s |\<in>| S \<and> s \<notin> R0"
  by (induction rule: reach.induct) auto

lemma closure_inv_start: "closure_inv getEdges S R0 (computeClosure_start S R0)"
  by (auto simp: closure_inv_def computeClosure_start_def Let_def core_def counted_def explored_def active_def
    outcome_ok_def complete_def)

lemma enqueue_pending:
  "pending (enqueue limit elt st) = pending st + (if error st = None \<and> elt \<notin> res st then 1 else 0)"
  by (simp add: enqueue_def Let_def spawnWorker_def)

lemma enqueue_pending_mono: "pending st \<le> pending (fold (enqueue limit) xs st)"
proof (induction xs arbitrary: st)
  case (Cons x xs)
  have "pending st \<le> pending (enqueue limit x st)" by (simp add: enqueue_pending)
  also have "\<dots> \<le> pending (fold (enqueue limit) xs (enqueue limit x st))" by (rule Cons.IH)
  finally show ?case by simp
qed simp

lemma enqueue_pending_new:
  "\<not> set xs \<subseteq> res st \<Longrightarrow> error st = None \<Longrightarrow> pending st < pending (fold (enqueue limit) xs st)"
proof (induction xs arbitrary: st)
  case (Cons x xs)
  show ?case
  proof (cases "x \<in> res st")
    case True
    with Cons show ?thesis by (simp add: enqueue_def)
  next
    case False
    with Cons.prems enqueue_pending_mono [of "enqueue limit x st" limit xs] show ?thesis
      by (simp add: enqueue_pending less_eq_Suc_le)
  qed
qed simp

lemma enqueue_set_pending:
  "error st = None \<Longrightarrow> \<not> fset elts \<subseteq> res st \<Longrightarrow> pending st < pending (enqueue_set limit elts st)"
  using enqueue_pending_new [of "sorted_list_of_fset elts" st] by (simp add: enqueue_set_def)

lemma onWorkDone_frame:
  assumes "counted 1 st" "completes st = {#}" "handled st = []"
  shows "begins (onWorkDone st) = begins st" "res (onWorkDone st) = res st" "error (onWorkDone st) = error st"
    "handled (onWorkDone st) = []" "completes (onWorkDone st) = (if pending (onWorkDone st) = 0 then {#Complete (error st)#} else {#})"
proof -
  consider "todo st \<noteq> []" "error st = None" | "todo st = [] \<or> error st \<noteq> None" by auto
  then have "begins (onWorkDone st) = begins st \<and> res (onWorkDone st) = res st \<and> error (onWorkDone st) = error st \<and>
    handled (onWorkDone st) = [] \<and> completes (onWorkDone st) = (if pending (onWorkDone st) = 0 then {#Complete (error st)#} else {#})"
  proof cases
    case 1
    moreover from 1 assms have "pending st - 1 \<noteq> 0" by (cases "todo st") (auto simp: counted_def)
    ultimately show ?thesis using assms by (simp add: onWorkDone_next)
  next
    case 2
    with assms show ?thesis by (simp add: onWorkDone_rest Let_def)
  qed
  then show "begins (onWorkDone st) = begins st" "res (onWorkDone st) = res st" "error (onWorkDone st) = error st"
    "handled (onWorkDone st) = []" "completes (onWorkDone st) = (if pending (onWorkDone st) = 0 then {#Complete (error st)#} else {#})"
    by blast+
qed

text \<open>Taking a worker or a spawned element from the handlers.\<close>

lemma core_take_work:
  assumes "core getEdges S R0 0 {} st" "Work a \<in># posted st"
  shows "core getEdges S R0 1 {a} (take_handler (Work a) st)" "a \<in> reach getEdges S R0"
proof -
  obtain P where P: "posted st = add_mset (Work a) P" using multi_member_split [OF assms(2)] by blast
  have "counted 1 (take_handler (Work a) st)" using assms(1) P by (auto simp: core_def counted_def take_handler_def)
  moreover have "active st = insert a (active (take_handler (Work a) st))" using P by (auto simp: active_def take_handler_def)
  then have "explored getEdges S R0 {a} (take_handler (Work a) st)"
    using assms(1) by (auto simp: core_def explored_def take_handler_def)
  ultimately show "core getEdges S R0 1 {a} (take_handler (Work a) st)" by (simp add: core_def)
  show "a \<in> reach getEdges S R0" using assms by (auto simp: core_def explored_def active_def)
qed

lemma core_spawn:
  assumes "core getEdges S R0 0 {} st" "Spawn a \<in># posted st"
  shows "core getEdges S R0 0 {} (spawnWorker a (take_handler (Spawn a) st))"
proof -
  obtain P where P: "posted st = add_mset (Spawn a) P" using multi_member_split [OF assms(2)] by blast
  let ?st = "spawnWorker a (take_handler (Spawn a) st)"
  have "counted 0 ?st" using assms(1) P by (auto simp: core_def counted_def take_handler_def spawnWorker_def)
  moreover have "active ?st = active st" using P by (auto simp: active_def take_handler_def spawnWorker_def)
  then have "explored getEdges S R0 {} ?st"
    using assms(1) by (simp add: core_def explored_def take_handler_def spawnWorker_def)
  ultimately show ?thesis by (simp add: core_def)
qed

lemma core_fail:
  assumes "core getEdges S R0 1 X st" "a \<in> reach getEdges S R0" "getEdges a = Inl e"
  shows "core getEdges S R0 1 X (fail e st)"
  using assms by (auto simp: core_def counted_def explored_def active_def fail_def)

lemma fail_frame:
  "error (fail e st) \<noteq> None" "begins (fail e st) = begins st" "completes (fail e st) = completes st"
  "handled (fail e st) = handled st" "res (fail e st) = res st" "pending (fail e st) = pending st"
  by (auto simp: fail_def)

text \<open>What a worker does before it is done.\<close>

definition worked :: "nat \<Rightarrow> 'e + 'a::linorder fset \<Rightarrow> ('a, 'e) State \<Rightarrow> ('a, 'e) State" where
  "worked limit edges st = (case edges of Inr elts \<Rightarrow> enqueue_set limit elts st | Inl ex \<Rightarrow> fail ex st)"

lemma core_worked:
  assumes "core getEdges S R0 1 {a} st" "a \<in> reach getEdges S R0" "0 < limit"
  shows "core getEdges S R0 1 {a} (worked limit (getEdges a) st)"
proof (cases "getEdges a")
  case (Inr es)
  have "fset es \<subseteq> R0 \<union> reach getEdges S R0" using reach.edge [OF assms(2) Inr] by auto
  with core_enqueue_set [OF assms(1) this assms(3)] Inr show ?thesis by (simp add: worked_def)
next
  case (Inl e)
  with core_fail [OF assms(1,2)] show ?thesis by (simp add: worked_def)
qed

lemma worked_frame:
  "begins (worked limit edges st) = begins st" "completes (worked limit edges st) = completes st"
  "handled (worked limit edges st) = handled st" "res st \<subseteq> res (worked limit edges st)"
  "error (worked limit edges st) = None \<longrightarrow> (\<exists>es. edges = Inr es \<and> fset es \<subseteq> res (worked limit edges st))"
  by (cases edges; auto simp: worked_def enqueue_set_frame fail_frame)+

lemma pending_handlers:
  assumes "core getEdges S R0 0 {} st" "h \<in># posted st" "is_Work h \<or> is_Spawn h"
  shows "0 < pending st" "\<exists>s. s |\<in>| S \<and> s \<notin> R0"
proof -
  from assms(2,3) have "filter_mset is_Work (posted st) + filter_mset is_Spawn (posted st) \<noteq> {#}"
    by (auto simp: filter_mset_eq_mempty_iff)
  with assms(1) show "0 < pending st" by (auto simp: core_def counted_def)
  have "\<exists>a. a \<in> active st" using assms(2,3) by (cases h) (auto simp: active_def)
  then show "\<exists>s. s |\<in>| S \<and> s \<notin> R0"
    using assms(1) reach_new_start by (fastforce simp: core_def explored_def)
qed

lemma inv_work:
  assumes inv: "closure_inv getEdges S R0 st" and h: "Work a \<in># posted st" and limit: "0 < limit"
  shows "closure_inv getEdges S R0 (work_done limit (getEdges a) (take_handler (Work a) st))"
proof -
  let ?st = "take_handler (Work a) st"
  let ?w = "worked limit (getEdges a) ?st"
  have core: "core getEdges S R0 0 {} st" using inv by (simp add: closure_inv_def)
  note taken = core_take_work [OF core h]
  have begun: "begins st = {#}" using inv h by (auto simp: closure_inv_def split: if_splits)
  note new = pending_handlers [OF core h]
  have out: "completes st = {#}" "handled st = []" "fset S \<subseteq> res st"
    using inv begun new by (auto simp: closure_inv_def outcome_ok_def)
  have frame: "begins ?st = {#}" "completes ?st = {#}" "handled ?st = []" "res ?st = res st"
    using begun out by (simp_all add: take_handler_def)
  have w: "core getEdges S R0 1 {a} ?w" by (rule core_worked [OF taken limit])
  then have fin: "core getEdges S R0 0 {} (onWorkDone ?w)" using worked_frame(5) by (rule core_onWorkDone)
  have cnt: "counted 1 ?w" "completes ?w = {#}" "handled ?w = []" using w frame by (simp_all add: core_def worked_frame)
  have "begins (onWorkDone ?w) = {#} \<and> fset S \<subseteq> res (onWorkDone ?w) \<and> outcome_ok S R0 (onWorkDone ?w)"
    using onWorkDone_frame [OF cnt] worked_frame(4) [of ?st limit "getEdges a"] worked_frame(1) [of limit "getEdges a" ?st] frame out new
    by (auto simp: outcome_ok_def)
  with fin show ?thesis by (simp add: closure_inv_def work_done_def worked_def)
qed

lemma inv_spawn:
  assumes inv: "closure_inv getEdges S R0 st" and h: "Spawn a \<in># posted st"
  shows "closure_inv getEdges S R0 (spawnWorker a (take_handler (Spawn a) st))"
proof -
  have core: "core getEdges S R0 0 {} st" using inv by (simp add: closure_inv_def)
  have begun: "begins st = {#}" using inv h by (auto simp: closure_inv_def split: if_splits)
  have "outcome_ok S R0 st" "0 < pending st" using inv begun pending_handlers [OF core h] by (auto simp: closure_inv_def)
  then show ?thesis
    using core_spawn [OF core h] inv begun
    by (simp add: closure_inv_def outcome_ok_def spawnWorker_def take_handler_def)
qed

lemma inv_begin:
  assumes inv: "closure_inv getEdges S R0 st" and h: "Begin T \<in># posted st" and limit: "0 < limit"
  shows "closure_inv getEdges S R0 (enqueue_set limit T (take_handler (Begin T) st))"
proof -
  let ?st = "take_handler (Begin T) st"
  have b: "posted st = {#Begin S#}" "res st = R0" "handled st = []" "error st = None" "S \<noteq> {||}"
    using inv h by (auto simp: closure_inv_def filter_mset_eq_mempty_iff split: if_splits)
  have T: "T = S" using h b by simp
  have "core getEdges S R0 0 {} ?st"
    using inv b T by (auto simp: closure_inv_def core_def counted_def explored_def active_def take_handler_def)
  then have "core getEdges S R0 0 {} (enqueue_set limit S ?st)"
    by (rule core_enqueue_set) (use limit in \<open>auto intro: reach.start\<close>)
  moreover have "outcome_ok S R0 (enqueue_set limit S ?st)"
  proof (cases "fset S \<subseteq> R0")
    case False
    then have "0 < pending (enqueue_set limit S ?st)"
      using enqueue_set_pending [of ?st S limit] b by (simp add: take_handler_def)
    with b T show ?thesis by (simp add: outcome_ok_def enqueue_set_frame take_handler_def)
  qed (use b T in \<open>simp add: outcome_ok_def enqueue_set_frame take_handler_def\<close>)
  ultimately show ?thesis
    using enqueue_set_frame [of limit S ?st] b T by (auto simp: closure_inv_def take_handler_def)
qed

lemma inv_complete:
  assumes inv: "closure_inv getEdges S R0 st" and h: "Complete ex \<in># posted st"
  shows "closure_inv getEdges S R0 ((take_handler (Complete ex) st)\<lparr>handled := handled (take_handler (Complete ex) st) @ [ex]\<rparr>)"
proof -
  have begun: "begins st = {#}" using inv h by (auto simp: closure_inv_def split: if_splits)
  have "Complete ex \<in># completes st" using h by simp
  have nonempty: "completes st \<noteq> {#}" using h by (auto simp: filter_mset_eq_mempty_iff)
  then have c: "handled st = []" "completes st = {#Complete (error st)#}" "pending st = 0"
      "\<not> (S \<noteq> {||} \<and> fset S \<subseteq> R0)"
    using inv begun by (auto simp: closure_inv_def outcome_ok_def split: if_splits)
  with \<open>Complete ex \<in># completes st\<close> have "ex = error st" unfolding c(2) by simp
  obtain P where P: "posted st = add_mset (Complete ex) P" using multi_member_split [OF h] by blast
  let ?st = "st\<lparr>posted := P, handled := [ex]\<rparr>"
  have "counted 0 ?st = counted 0 st" "active ?st = active st" using P by (auto simp: counted_def active_def)
  then have "core getEdges S R0 0 {} ?st" using inv by (simp add: closure_inv_def core_def explored_def)
  moreover have "completes ?st = {#}" "begins ?st = {#}" using c(2) begun P by simp_all
  ultimately show ?thesis
    using c \<open>ex = error st\<close> inv begun P by (simp add: closure_inv_def outcome_ok_def take_handler_def)
qed

lemma step_inv:
  assumes "step limit getEdges st st'" "closure_inv getEdges S R0 st" "0 < limit"
  shows "closure_inv getEdges S R0 st'"
  using assms(1)
proof cases
  case (handler h)
  then show ?thesis
    using assms inv_work inv_spawn inv_begin inv_complete by (cases h) simp_all
qed

lemma run_inv:
  "run limit getEdges st st' \<Longrightarrow> closure_inv getEdges S R0 st \<Longrightarrow> 0 < limit \<Longrightarrow> closure_inv getEdges S R0 st'"
  by (induction rule: rtranclp_induct) (auto intro: step_inv)

section \<open>The result\<close>

lemma reach_not_known: "a \<in> reach getEdges S R0 \<Longrightarrow> a \<notin> R0"
  by (induction rule: reach.induct) simp_all

lemma final_state:
  assumes inv: "closure_inv getEdges S R0 st" and none: "posted st = {#}"
  shows "pending st = 0" "active st = {}" "fset S \<subseteq> res st"
    "handled st = (if S \<noteq> {||} \<and> fset S \<subseteq> R0 then [] else [error st])"
proof -
  have "counted 0 st" using inv by (simp add: closure_inv_def core_def)
  then have "todo st = []" using none by (auto simp: counted_def)
  then show "pending st = 0" "active st = {}"
    using none \<open>counted 0 st\<close> by (auto simp: counted_def active_def)
  with inv none show "fset S \<subseteq> res st" "handled st = (if S \<noteq> {||} \<and> fset S \<subseteq> R0 then [] else [error st])"
    by (auto simp: closure_inv_def outcome_ok_def split: if_splits)
qed

lemma final_no_error:
  assumes inv: "closure_inv getEdges S R0 st" and none: "posted st = {#}" and ok: "error st = None"
  shows "res st = R0 \<union> reach getEdges S R0" "\<forall>a\<in>reach getEdges S R0. \<exists>es. getEdges a = Inr es"
proof -
  note final = final_state [OF inv none]
  have closed: "\<exists>es. getEdges a = Inr es \<and> fset es \<subseteq> res st" if "a \<in> res st" "a \<notin> R0" for a
    using inv ok that final(2) by (auto simp: closure_inv_def core_def explored_def)
  have "a \<in> res st" if "a \<in> reach getEdges S R0" for a
    using that
  proof (induction rule: reach.induct)
    case (edge a es b)
    then show ?case using closed [of a] reach_not_known by fastforce
  qed (use final(3) in auto)
  then show "res st = R0 \<union> reach getEdges S R0" "\<forall>a\<in>reach getEdges S R0. \<exists>es. getEdges a = Inr es"
    using inv closed reach_not_known by (fastforce simp: closure_inv_def core_def explored_def)+
qed

lemma final_error:
  assumes "closure_inv getEdges S R0 st" "error st = Some e"
  shows "\<exists>a\<in>reach getEdges S R0. getEdges a = Inl e"
  using assms by (auto simp: closure_inv_def core_def explored_def)

lemma computeClosure_correctness:
  assumes "run limit getEdges (computeClosure_start S R0) st" "posted st = {#}" "0 < limit"
  shows "(if \<forall>a\<in>reach getEdges S R0. \<exists>es. getEdges a = Inr es
      then computeClosure_outcome st = Inr (R0 \<union> reach getEdges S R0)
      else \<exists>a\<in>reach getEdges S R0. \<exists>e. getEdges a = Inl e \<and> computeClosure_outcome st = Inl e) \<and>
    length (handled st) = (if S \<noteq> {||} \<and> fset S \<subseteq> R0 then 0 else 1)"
proof -
  have inv: "closure_inv getEdges S R0 st" by (rule run_inv [OF assms(1) closure_inv_start assms(3)])
  note final = final_state [OF inv assms(2)]
  have "computeClosure_outcome st = (case error st of Some e \<Rightarrow> Inl e | None \<Rightarrow> Inr (res st))"
  proof (cases "error st")
    case (Some e)
    from final_error [OF inv Some] have "\<not> (S \<noteq> {||} \<and> fset S \<subseteq> R0)" using reach_new_start by fastforce
    with final(4) Some show ?thesis by (simp add: computeClosure_outcome_def)
  qed (use final(4) in \<open>simp add: computeClosure_outcome_def\<close>)
  moreover have "(error st = None) = (\<forall>a\<in>reach getEdges S R0. \<exists>es. getEdges a = Inr es)"
    using final_no_error(2) [OF inv assms(2)] final_error [OF inv] by (cases "error st") fastforce+
  ultimately show ?thesis
    using final(4) final_no_error(1) [OF inv assms(2)] final_error [OF inv] by (cases "error st") auto
qed

text \<open>
  C4: When the executor has no handler left, whatever the order in which the handlers ran and
  the edges arrived, the computation of a closure returns the elements known before and all
  elements reachable from the start through elements not known before; if the edges of one of
  these cannot be computed it throws the error of one of these. The completion handler was called
  once, except that it is not called when there were start elements and all were known.
\<close>

theorem computeClosure_correct:
  assumes "run limit getEdges (computeClosure_start S R0) st" "posted st = {#}" "0 < limit"
  shows "(if \<forall>a\<in>reach getEdges S R0. \<exists>es. getEdges a = Inr es
      then computeClosure_outcome st = Inr (R0 \<union> reach getEdges S R0)
      else \<exists>a\<in>reach getEdges S R0. \<exists>e. getEdges a = Inl e \<and> computeClosure_outcome st = Inl e) \<and>
    length (handled st) = (if S \<noteq> {||} \<and> fset S \<subseteq> R0 then 0 else 1)"
  using assms by (rule computeClosure_correctness)

section \<open>The computation ends\<close>

definition weight :: "('a \<Rightarrow> 'e + 'a fset) \<Rightarrow> 'a fset \<Rightarrow> 'a set \<Rightarrow> ('a, 'e) State \<Rightarrow> nat" where
  "weight getEdges S R0 st = 5 * card (reach getEdges S R0 - res st) + 4 * length (todo st) + 3 * spawns st +
     2 * works st + size (completes st) + size (begins st)"

lemma weight_enqueue:
  assumes "finite (reach getEdges S R0)" "elt \<in> R0 \<union> reach getEdges S R0" "R0 \<subseteq> res st"
  shows "weight getEdges S R0 (enqueue limit elt st) \<le> weight getEdges S R0 st"
proof (cases "error st \<noteq> None \<or> elt \<in> res st")
  case False
  with assms have eq: "reach getEdges S R0 - res st = insert elt (reach getEdges S R0 - insert elt (res st))" by auto
  have "card (reach getEdges S R0 - res st) = Suc (card (reach getEdges S R0 - insert elt (res st)))"
    by (subst eq) (simp add: assms(1))
  with False show ?thesis by (simp add: enqueue_def Let_def weight_def spawnWorker_def)
qed (auto simp: enqueue_def)

lemma weight_enqueue_set:
  assumes "finite (reach getEdges S R0)" "fset elts \<subseteq> R0 \<union> reach getEdges S R0" "R0 \<subseteq> res st"
  shows "weight getEdges S R0 (enqueue_set limit elts st) \<le> weight getEdges S R0 st"
proof -
  have "set xs \<subseteq> R0 \<union> reach getEdges S R0 \<Longrightarrow> weight getEdges S R0 (fold (enqueue limit) xs st) \<le> weight getEdges S R0 st" for xs
    using assms(3)
  proof (induction xs arbitrary: st)
    case (Cons x xs)
    have "R0 \<subseteq> res (enqueue limit x st)" using Cons.prems(2) by (auto simp: enqueue_frame)
    with Cons have "weight getEdges S R0 (fold (enqueue limit) xs (enqueue limit x st)) \<le> weight getEdges S R0 (enqueue limit x st)"
      by simp
    also have "\<dots> \<le> weight getEdges S R0 st" using Cons.prems by (intro weight_enqueue [OF assms(1)]) auto
    finally show ?case by simp
  qed simp
  with assms(2) show ?thesis by (simp add: enqueue_set_def)
qed

lemma weight_onWorkDone: "weight getEdges S R0 (onWorkDone st) \<le> weight getEdges S R0 st + 1"
proof -
  consider "todo st \<noteq> []" "error st = None" | "todo st = [] \<or> error st \<noteq> None" by auto
  then show ?thesis
  proof cases
    case 1
    then show ?thesis by (cases "todo st") (simp_all add: onWorkDone_next weight_def)
  next
    case 2
    then show ?thesis unfolding onWorkDone_rest [OF 2] by (simp add: Let_def weight_def)
  qed
qed

lemma weight_take:
  assumes "h \<in># posted st"
  shows "weight getEdges S R0 st = weight getEdges S R0 (take_handler h st) +
    (case h of Begin _ \<Rightarrow> 1 | Work _ \<Rightarrow> 2 | Spawn _ \<Rightarrow> 3 | Complete _ \<Rightarrow> 1)"
proof -
  obtain P where "posted st = add_mset h P" using multi_member_split [OF assms] by blast
  then show ?thesis by (cases h) (simp_all add: weight_def take_handler_def)
qed

lemma weight_worked:
  assumes "finite (reach getEdges S R0)" "a \<in> reach getEdges S R0" "R0 \<subseteq> res st"
  shows "weight getEdges S R0 (worked limit (getEdges a) st) \<le> weight getEdges S R0 st"
proof (cases "getEdges a")
  case (Inr es)
  have "fset es \<subseteq> R0 \<union> reach getEdges S R0" using reach.edge [OF assms(2) Inr] by auto
  with weight_enqueue_set [OF assms(1) _ assms(3)] Inr show ?thesis by (simp add: worked_def)
qed (simp add: worked_def fail_def weight_def)

lemma step_weight:
  assumes "step limit getEdges st st'" and inv: "closure_inv getEdges S R0 st" and fin: "finite (reach getEdges S R0)"
  shows "weight getEdges S R0 st' < weight getEdges S R0 st"
  using assms(1)
proof cases
  case (handler h)
  let ?t = "take_handler h st"
  have t: "res ?t = res st" "R0 \<subseteq> res st" using inv by (auto simp: take_handler_def closure_inv_def core_def explored_def)
  note taken = weight_take [OF handler(2), of getEdges S R0]
  show ?thesis
  proof (cases h)
    case (Begin T)
    then have "T = S" using handler(2) inv by (auto simp: closure_inv_def filter_mset_eq_mempty_iff split: if_splits)
    moreover have "fset S \<subseteq> R0 \<union> reach getEdges S R0" by (auto intro: reach.start)
    ultimately show ?thesis using taken handler weight_enqueue_set [OF fin, of S ?t limit] t Begin by simp
  next
    case (Work a)
    have "a \<in> reach getEdges S R0"
      using handler(2) Work inv by (auto simp: closure_inv_def core_def explored_def active_def)
    then have "weight getEdges S R0 (worked limit (getEdges a) ?t) \<le> weight getEdges S R0 ?t"
      using weight_worked [OF fin] t by simp
    with taken handler Work weight_onWorkDone [of getEdges S R0 "worked limit (getEdges a) ?t"] show ?thesis
      by (simp add: work_done_def worked_def)
  next
    case (Spawn a)
    with taken handler show ?thesis by (simp add: spawnWorker_def weight_def)
  next
    case (Complete ex)
    with taken handler show ?thesis by (simp add: weight_def)
  qed
qed

lemma steps_weight:
  assumes "(step limit getEdges ^^ n) st st'" "closure_inv getEdges S R0 st" "0 < limit" "finite (reach getEdges S R0)"
  shows "n + weight getEdges S R0 st' \<le> weight getEdges S R0 st \<and> closure_inv getEdges S R0 st'"
  using assms(1)
proof (induction n arbitrary: st')
  case (Suc n)
  then obtain st1 where st1: "(step limit getEdges ^^ n) st st1" "step limit getEdges st1 st'" by auto
  with Suc.IH have "n + weight getEdges S R0 st1 \<le> weight getEdges S R0 st" "closure_inv getEdges S R0 st1" by blast+
  with step_weight [OF st1(2) _ assms(4)] step_inv [OF st1(2) _ assms(3)] show ?case by fastforce
qed (use assms(2) in simp)

lemma run_to_end:
  assumes "closure_inv getEdges S R0 st" "0 < limit" "finite (reach getEdges S R0)"
  shows "\<exists>st'. run limit getEdges st st' \<and> posted st' = {#}"
  using assms(1)
proof (induction "weight getEdges S R0 st" arbitrary: st rule: less_induct)
  case less
  show ?case
  proof (cases "posted st = {#}")
    case False
    then obtain h where "h \<in># posted st" by blast
    then have st: "step limit getEdges st (run_handler limit getEdges h (take_handler h st))" by (rule step.handler)
    with less step_weight [OF st less.prems assms(3)] step_inv [OF st less.prems assms(2)] show ?thesis
      by (meson converse_rtranclp_into_rtranclp)
  qed auto
qed

lemma weight_start: "weight getEdges S R0 (computeClosure_start S R0) \<le> 5 * card (reach getEdges S R0) + 1"
proof -
  have "reach getEdges S R0 - R0 = reach getEdges S R0" using reach_not_known by fastforce
  then show ?thesis by (auto simp: weight_def computeClosure_start_def Let_def complete_def)
qed

text \<open>
  C5: Where finitely many elements are reachable the computation ends, in whatever order the
  handlers run: after at most five handlers for each reachable element and one more there is none
  left, and every execution so far can be continued to such an end.
\<close>

theorem computeClosure_ends:
  assumes "finite (reach getEdges S R0)" "0 < limit" "(step limit getEdges ^^ n) (computeClosure_start S R0) st"
  shows "n \<le> 5 * card (reach getEdges S R0) + 1 \<and> (\<exists>st'. run limit getEdges st st' \<and> posted st' = {#})"
  using steps_weight [OF assms(3) closure_inv_start assms(2,1)] weight_start [of getEdges S R0]
    run_to_end [OF _ assms(2,1)] by fastforce

section \<open>Executions\<close>

text \<open>Handlers run in a given order, each of which has to be posted when it runs.\<close>

fun exec :: "nat \<Rightarrow> ('a \<Rightarrow> 'e + 'a::linorder fset) \<Rightarrow> ('a, 'e) handler list \<Rightarrow> ('a, 'e) State \<Rightarrow> ('a, 'e) State option" where
  "exec limit getEdges [] st = Some st"
| "exec limit getEdges (h # hs) st =
     (if h \<in># posted st then exec limit getEdges hs (run_handler limit getEdges h (take_handler h st)) else None)"

lemma exec_run: "exec limit getEdges hs st = Some st' \<Longrightarrow> run limit getEdges st st'"
proof (induction hs arbitrary: st)
  case (Cons h hs)
  then have "step limit getEdges st (run_handler limit getEdges h (take_handler h st))"
    by (auto intro: step.handler split: if_splits)
  with Cons show ?case by (auto split: if_splits intro: converse_rtranclp_into_rtranclp)
qed simp

lemmas exec_simps = enqueue_set_def enqueue_def spawnWorker_def work_done_def onWorkDone_def complete_def fail_def
  take_handler_def computeClosure_start_def Let_def

definition sample_edges :: "nat \<Rightarrow> string + nat fset" where
  "sample_edges a = (if a = 3 then Inr {|5, 6|} else Inr {||})"

lemma sorted_sample: "sorted_list_of_fset {||} = ([] :: nat list)" "sorted_list_of_fset {|2, 3, 4|} = [2, 3, 4 :: nat]" "sorted_list_of_fset {|5, 6|} = [5, 6 :: nat]"
  by (simp_all add: sorted_list_of_fset.rep_eq)

definition sample_handlers :: "(nat, string) handler list" where
  "sample_handlers = [Begin {|2, 3, 4|}, Work 2, Work 3, Spawn 4, Spawn 6]"

lemma sample_exec:
  "exec 2 sample_edges sample_handlers (computeClosure_start {|2, 3, 4|} {}) =
    Some \<lparr>res = {2, 3, 4, 5, 6}, workGuard = True, pending = 3, inFlight = 3, todo = [], error = None,
      posted = {#Work 5, Work 4, Work 6#}, handled = []\<rparr>"
  by (simp add: sample_handlers_def sample_edges_def exec_simps sorted_sample insert_commute add_mset_commute)

text \<open>
  The limit on the workers in flight can be exceeded: an element taken from the queue is counted
  when the handler posted for it runs, and workers that are done before that see the free place
  again. Here two workers finish one after the other under the limit of two.
\<close>

theorem limit_exceeded: "\<exists>st. run 2 sample_edges (computeClosure_start {|2, 3, 4|} {}) st \<and> inFlight st = 3"
  using exec_run [OF sample_exec] by auto

lemma sample_exec_end:
  "exec 2 sample_edges (sample_handlers @ [Work 5, Work 4, Work 6, Complete None]) (computeClosure_start {|2, 3, 4|} {}) =
    Some \<lparr>res = {2, 3, 4, 5, 6}, workGuard = False, pending = 0, inFlight = 0, todo = [], error = None,
      posted = {#}, handled = [None]\<rparr>"
  by (simp add: sample_handlers_def sample_edges_def exec_simps sorted_sample insert_commute add_mset_commute)

theorem computeClosure_correct_witness: "{2, 3, 4, 5, 6} = reach sample_edges {|2, 3, 4|} {}"
proof -
  have edges: "\<forall>a\<in>reach sample_edges {|2, 3, 4|} {}. \<exists>es. sample_edges a = Inr es" by (simp add: sample_edges_def)
  show ?thesis
    using computeClosure_correct [OF exec_run [OF sample_exec_end]] edges
    by (simp add: computeClosure_outcome_def split: if_splits)
qed

lemma finite_sample: "finite (reach sample_edges {|2, 3, 4|} {})"
proof -
  have "a \<in> {2, 3, 4, 5, 6}" if "a \<in> reach sample_edges {|2, 3, 4|} {}" for a
    using that by (induction rule: reach.induct) (auto simp: sample_edges_def split: if_splits)
  then have "reach sample_edges {|2, 3, 4|} {} \<subseteq> {2, 3, 4, 5, 6}" by blast
  then show ?thesis by (rule finite_subset) simp
qed

theorem computeClosure_ends_witness:
  "\<exists>n. n \<le> 5 * card (reach sample_edges {|2, 3, 4|} {}) + 1 \<and>
     (\<exists>st. (step 2 sample_edges ^^ n) (computeClosure_start {|2, 3, 4|} {}) st \<and> posted st = {#})"
proof -
  obtain n where n: "(step 2 sample_edges ^^ n) (computeClosure_start {|2, 3, 4|} {})
      \<lparr>res = {2, 3, 4, 5, 6}, workGuard = False, pending = 0, inFlight = 0, todo = [], error = None, posted = {#}, handled = [None]\<rparr>"
    using rtranclp_imp_relpowp [OF exec_run [OF sample_exec_end]] by blast
  from computeClosure_ends [OF finite_sample _ n] n show ?thesis by (intro exI [of _ n]) auto
qed

end
