(* ===== verification/Topo_Sort.thy ===== *)
theory Topo_Sort
  imports Prelude "HOL-Library.FSet" "HOL-Library.Char_ord"
begin

text \<open>
  Topological sorting (\<^verbatim>\<open>libutil/include/nix/util/topo-sort.hh\<close>): a depth-first search that
  either puts every element before its children or reports a cycle. The recursion is bounded by
  fuel; one more than the number of elements is enough.
\<close>

section \<open>The search\<close>

datatype 'a Cycle = Cycle (cycle_path: 'a) (cycle_parent: 'a)

record 'a topo =
  sorted_so_far :: "'a list"
  visited :: "'a set"
  parents :: "'a set"

text \<open>\<^verbatim>\<open>*parent\<close>: the outermost calls pass a null pointer.\<close>

definition deref :: "'a option \<Rightarrow> 'a result" where
  "deref p = (case p of None \<Rightarrow> Inl (AssertionFailed ''parent'') | Some x \<Rightarrow> Inr x)"

text \<open>The loop over the references of an element, which stops at the first cycle.\<close>

fun visit_all :: "('a \<Rightarrow> 'a topo \<Rightarrow> ('a Cycle option \<times> 'a topo) result) \<Rightarrow> 'a list \<Rightarrow> 'a topo \<Rightarrow>
    ('a Cycle option \<times> 'a topo) result" where
  "visit_all visit [] st = Inr (None, st)"
| "visit_all visit (i # references) st =
     result_bind (visit i st) (\<lambda>(result, st). case result of
       Some cycle \<Rightarrow> Inr (Some cycle, st)
     | None \<Rightarrow> visit_all visit references st)"

primrec dfsVisit :: "nat \<Rightarrow> 'a::linorder set \<Rightarrow> ('a \<Rightarrow> 'a fset result) \<Rightarrow> 'a \<Rightarrow> 'a option \<Rightarrow> 'a topo \<Rightarrow>
    ('a Cycle option \<times> 'a topo) result" where
  "dfsVisit 0 items getChildren p par st = Inl OutOfFuel"
| "dfsVisit (Suc n) items getChildren p par st =
     (if p \<in> parents st then result_bind (deref par) (\<lambda>q. Inr (Some (Cycle p q), st))
      else if p \<in> visited st then Inr (None, st)
      else
        let st = st\<lparr>visited := insert p (visited st), parents := insert p (parents st)\<rparr> in
        result_bind (getChildren p) (\<lambda>references.
        result_bind (visit_all (\<lambda>i st. if i \<noteq> p \<and> i \<in> items then dfsVisit n items getChildren i (Some p) st
            else Inr (None, st)) (sorted_list_of_fset references) st) (\<lambda>(result, st).
          case result of
            Some cycle \<Rightarrow> Inr (Some cycle, st)
          | None \<Rightarrow> Inr (None, st\<lparr>sorted_so_far := sorted_so_far st @ [p], parents := parents st - {p}\<rparr>))))"

definition topoSort :: "'a::linorder fset \<Rightarrow> ('a \<Rightarrow> 'a fset result) \<Rightarrow> ('a list + 'a Cycle) result" where
  "topoSort items getChildren =
     result_bind (visit_all (\<lambda>i. dfsVisit (fcard items + 1) (fset items) getChildren i None) (sorted_list_of_fset items)
       \<lparr>sorted_so_far = [], visited = {}, parents = {}\<rparr>) (\<lambda>(cycle, st).
       case cycle of Some c \<Rightarrow> Inr (Inr c) | None \<Rightarrow> Inr (Inl (rev (sorted_so_far st))))"

section \<open>The graph\<close>

definition child_edges :: "'a set \<Rightarrow> ('a \<Rightarrow> 'a fset result) \<Rightarrow> ('a \<times> 'a) set" where
  "child_edges items getChildren =
     {(x, c). x \<in> items \<and> c \<in> items \<and> c \<noteq> x \<and> (\<exists>cs. getChildren x = Inr cs \<and> c |\<in>| cs)}"

text \<open>Every element of the list comes after its children.\<close>

definition postorder :: "('a \<times> 'a) set \<Rightarrow> 'a list \<Rightarrow> bool" where
  "postorder E l \<longleftrightarrow> distinct l \<and> (\<forall>xs x ys. l = xs @ x # ys \<longrightarrow> E `` {x} \<subseteq> set xs)"

definition real_cycle :: "('a \<times> 'a) set \<Rightarrow> 'a Cycle \<Rightarrow> bool" where
  "real_cycle E c \<longleftrightarrow> (cycle_path c, cycle_parent c) \<in> E\<^sup>* \<and> (cycle_parent c, cycle_path c) \<in> E"

definition topo_inv :: "'a set \<Rightarrow> ('a \<times> 'a) set \<Rightarrow> 'a topo \<Rightarrow> bool" where
  "topo_inv items E st \<longleftrightarrow> visited st \<subseteq> items \<and> parents st \<subseteq> visited st \<and>
     set (sorted_so_far st) = visited st - parents st \<and> postorder E (sorted_so_far st)"

lemma postorder_snoc:
  assumes "postorder E l" "x \<notin> set l" "E `` {x} \<subseteq> set l"
  shows "postorder E (l @ [x])"
  unfolding postorder_def
proof (intro conjI allI impI)
  fix xs y ys assume eq: "l @ [x] = xs @ y # ys"
  then show "E `` {y} \<subseteq> set xs"
    using assms by (cases ys rule: rev_cases) (auto simp: postorder_def)
qed (use assms in \<open>simp add: postorder_def\<close>)

lemma postorder_acyclic:
  assumes "postorder E l" "E \<subseteq> set l \<times> set l"
  shows "acyclic E"
proof -
  define ix where "ix x = length (takeWhile (\<lambda>y. y \<noteq> x) l)" for x
  have "ix y < ix x" if "(x, y) \<in> E" for x y
  proof -
    from that assms(2) obtain xs ys where l: "l = xs @ x # ys" by (metis SigmaD1 in_mono split_list)
    with assms(1) that have "y \<in> set xs" "x \<notin> set xs" by (auto simp: postorder_def)
    then obtain us vs where "xs = us @ y # vs" "y \<notin> set us" by (metis split_list_first)
    with l \<open>x \<notin> set xs\<close> show ?thesis by (auto simp: ix_def takeWhile_append)
  qed
  then have "E\<inverse> \<subseteq> measure ix" by auto
  then have "wf (E\<inverse>)" by (rule wf_subset [OF wf_measure])
  then show ?thesis using wf_acyclic by fastforce
qed

section \<open>The search keeps its invariant\<close>

text \<open>What a visit of \<open>p\<close> leaves behind; \<open>wanted\<close> is false where the visit is skipped.\<close>

definition visit_ok where
  "visit_ok items getChildren E wanted p st r \<longleftrightarrow> (case r of
     Inl e \<Rightarrow> \<exists>x\<in>items. getChildren x = Inl e
   | Inr (Some c, _) \<Rightarrow> real_cycle E c
   | Inr (None, st') \<Rightarrow> topo_inv items E st' \<and> parents st' = parents st \<and> visited st \<subseteq> visited st' \<and>
       (wanted p \<longrightarrow> p \<in> visited st' - parents st))"

lemma visit_ok_weaken:
  "visit_ok items getChildren E (\<lambda>_. True) p st r \<Longrightarrow> visit_ok items getChildren E wanted p st r"
  by (auto simp: visit_ok_def split: sum.splits option.splits)

lemma visit_all_ok:
  assumes "\<And>i st. i \<in> set is \<Longrightarrow> topo_inv items E st \<Longrightarrow> parents st = P \<Longrightarrow>
      visit_ok items getChildren E wanted i st (visit i st)"
    and "topo_inv items E st" "parents st = P"
  shows "case visit_all visit is st of
      Inl e \<Rightarrow> \<exists>x\<in>items. getChildren x = Inl e
    | Inr (Some c, _) \<Rightarrow> real_cycle E c
    | Inr (None, st') \<Rightarrow> topo_inv items E st' \<and> parents st' = P \<and> visited st \<subseteq> visited st' \<and>
        {i \<in> set is. wanted i} \<subseteq> visited st' - P"
  using assms
proof (induction "is" arbitrary: st)
  case (Cons i "is")
  have ok: "visit_ok items getChildren E wanted i st (visit i st)" using Cons.prems by simp
  show ?case
  proof (cases "visit i st")
    case (Inl e)
    with ok show ?thesis by (simp add: visit_ok_def)
  next
    case (Inr r)
    obtain c st1 where r: "r = (c, st1)" by (cases r)
    show ?thesis
    proof (cases c)
      case (Some cyc)
      with ok Inr r show ?thesis by (simp add: visit_ok_def)
    next
      case None
      with ok Inr r have st1: "topo_inv items E st1" "parents st1 = P" "visited st \<subseteq> visited st1"
          "wanted i \<longrightarrow> i \<in> visited st1 - P" using Cons.prems(3) by (auto simp: visit_ok_def)
      have "visit_all visit (i # is) st = visit_all visit is st1" using Inr r None by simp
      moreover have "case visit_all visit is st1 of
          Inl e \<Rightarrow> \<exists>x\<in>items. getChildren x = Inl e
        | Inr (Some c, _) \<Rightarrow> real_cycle E c
        | Inr (None, st') \<Rightarrow> topo_inv items E st' \<and> parents st' = P \<and> visited st1 \<subseteq> visited st' \<and>
            {i \<in> set is. wanted i} \<subseteq> visited st' - P"
        using Cons.IH [OF _ st1(1,2)] Cons.prems(1) by simp
      ultimately show ?thesis
        using st1(3,4) by (cases "visit_all visit is st1") (auto split: option.splits)
    qed
  qed
qed simp

text \<open>The elements being visited form a path to the parent.\<close>

definition on_path where
  "on_path E p par P \<longleftrightarrow> (case par of None \<Rightarrow> P = {} | Some q \<Rightarrow> q \<in> P \<and> (q, p) \<in> E \<and> (\<forall>x\<in>P. (x, q) \<in> E\<^sup>*))"

lemma on_path_child:
  assumes "on_path E p par P" "(p, c) \<in> E"
  shows "on_path E c (Some p) (insert p P)"
  using assms by (auto simp: on_path_def split: option.splits intro: rtrancl_into_rtrancl)

lemma topo_inv_enter:
  assumes "topo_inv items E st" "p \<in> items" "p \<notin> visited st"
  shows "topo_inv items E (st\<lparr>visited := insert p (visited st), parents := insert p (parents st)\<rparr>)"
  using assms by (auto simp: topo_inv_def)

lemma topo_inv_leave:
  assumes "topo_inv items E st" "p \<in> parents st" "E `` {p} \<subseteq> visited st - parents st"
  shows "topo_inv items E (st\<lparr>sorted_so_far := sorted_so_far st @ [p], parents := parents st - {p}\<rparr>)"
proof -
  have "postorder E (sorted_so_far st @ [p])"
    using assms by (intro postorder_snoc) (auto simp: topo_inv_def)
  with assms show ?thesis by (auto simp: topo_inv_def)
qed

lemma child_edges_image:
  "getChildren p = Inr cs \<Longrightarrow> p \<in> items \<Longrightarrow> child_edges items getChildren `` {p} = {i. i |\<in>| cs \<and> i \<noteq> p \<and> i \<in> items}"
  by (auto simp: child_edges_def)

lemma visit_leave:
  assumes p: "p \<notin> parents st" and image: "E `` {p} = {i. i |\<in>| cs \<and> i \<noteq> p \<and> i \<in> items}"
    and all: "case r of
        Inl e \<Rightarrow> \<exists>x\<in>items. getChildren x = Inl e
      | Inr (Some c, _) \<Rightarrow> real_cycle E c
      | Inr (None, st') \<Rightarrow> topo_inv items E st' \<and> parents st' = insert p (parents st) \<and>
          visited (st\<lparr>visited := insert p (visited st), parents := insert p (parents st)\<rparr>) \<subseteq> visited st' \<and>
          {i \<in> set (sorted_list_of_fset cs). i \<noteq> p \<and> i \<in> items} \<subseteq> visited st' - insert p (parents st)"
  shows "visit_ok items getChildren E (\<lambda>_. True) p st (result_bind r (\<lambda>(result, st).
      case result of
        Some cycle \<Rightarrow> Inr (Some cycle, st)
      | None \<Rightarrow> Inr (None, st\<lparr>sorted_so_far := sorted_so_far st @ [p], parents := parents st - {p}\<rparr>)))"
proof (cases r)
  case (Inr x)
  obtain c st' where x: "x = (c, st')" by (cases x)
  show ?thesis
  proof (cases c)
    case None
    with all Inr x have st': "topo_inv items E st'" "parents st' = insert p (parents st)" "insert p (visited st) \<subseteq> visited st'"
        "E `` {p} \<subseteq> visited st' - parents st'" by (auto simp: image)
    then have "topo_inv items E (st'\<lparr>sorted_so_far := sorted_so_far st' @ [p], parents := parents st' - {p}\<rparr>)"
      by (intro topo_inv_leave) auto
    with None Inr x st' p show ?thesis by (auto simp: visit_ok_def)
  qed (use all Inr x in \<open>simp add: visit_ok_def\<close>)
qed (use all in \<open>simp add: visit_ok_def\<close>)

lemma dfsVisit_ok:
  assumes fin: "finite items" and E: "E = child_edges items getChildren"
  shows "topo_inv items E st \<Longrightarrow> p \<in> items \<Longrightarrow> card (items - parents st) < n \<Longrightarrow> on_path E p par (parents st) \<Longrightarrow>
    visit_ok items getChildren E (\<lambda>_. True) p st (dfsVisit n items getChildren p par st)"
proof (induction n arbitrary: p par st)
  case (Suc n)
  let ?st = "st\<lparr>visited := insert p (visited st), parents := insert p (parents st)\<rparr>"
  let ?visit = "\<lambda>i st. if i \<noteq> p \<and> i \<in> items then dfsVisit n items getChildren i (Some p) st else Inr (None, st)"
  consider (cycle) "p \<in> parents st" | (seen) "p \<notin> parents st" "p \<in> visited st"
    | (thrown) e where "p \<notin> visited st" "getChildren p = Inl e"
    | (new) cs where "p \<notin> visited st" "p \<notin> parents st" "getChildren p = Inr cs"
    using Suc.prems(1) by (cases "getChildren p") (auto simp: topo_inv_def)
  then show ?case
  proof cases
    case cycle
    with Suc.prems(4) obtain q where "par = Some q" "(q, p) \<in> E" "(p, q) \<in> E\<^sup>*"
      by (auto simp: on_path_def split: option.splits)
    with cycle show ?thesis by (simp add: visit_ok_def real_cycle_def deref_def)
  next
    case seen
    with Suc.prems show ?thesis by (simp add: visit_ok_def)
  next
    case thrown
    with Suc.prems show ?thesis by (auto simp: visit_ok_def topo_inv_def)
  next
    case new
    have image: "E `` {p} = {i. i |\<in>| cs \<and> i \<noteq> p \<and> i \<in> items}"
      unfolding E using new(3) Suc.prems(2) by (rule child_edges_image)
    have less: "card (items - insert p (parents st)) < n"
    proof -
      have "card (items - insert p (parents st)) < card (items - parents st)"
        using fin new(2) Suc.prems(2) by (intro psubset_card_mono) auto
      with Suc.prems(3) show ?thesis by simp
    qed
    have visit: "visit_ok items getChildren E (\<lambda>i. i \<noteq> p \<and> i \<in> items) i s (?visit i s)"
      if "i \<in> set (sorted_list_of_fset cs)" "topo_inv items E s" "parents s = insert p (parents st)" for i s
    proof (cases "i \<noteq> p \<and> i \<in> items")
      case True
      with that(1) image have "(p, i) \<in> E" by auto
      with on_path_child [OF Suc.prems(4)] Suc.IH [OF that(2), of i "Some p"] True that(3) less
      have "visit_ok items getChildren E (\<lambda>_. True) i s (?visit i s)" by simp
      then show ?thesis by (rule visit_ok_weaken)
    qed (use that in \<open>auto simp: visit_ok_def\<close>)
    let ?r = "visit_all ?visit (sorted_list_of_fset cs) ?st"
    have all: "case ?r of
        Inl e \<Rightarrow> \<exists>x\<in>items. getChildren x = Inl e
      | Inr (Some c, _) \<Rightarrow> real_cycle E c
      | Inr (None, st') \<Rightarrow> topo_inv items E st' \<and> parents st' = insert p (parents st) \<and> visited ?st \<subseteq> visited st' \<and>
          {i \<in> set (sorted_list_of_fset cs). i \<noteq> p \<and> i \<in> items} \<subseteq> visited st' - insert p (parents st)"
      by (rule visit_all_ok) (use visit topo_inv_enter [OF Suc.prems(1,2) new(1)] in auto)
    have unfold: "dfsVisit (Suc n) items getChildren p par st = result_bind ?r (\<lambda>(result, st).
          case result of
            Some cycle \<Rightarrow> Inr (Some cycle, st)
          | None \<Rightarrow> Inr (None, st\<lparr>sorted_so_far := sorted_so_far st @ [p], parents := parents st - {p}\<rparr>))"
      using new by simp
    show ?thesis unfolding unfold using all by (rule visit_leave [OF new(2) image])
  qed
qed simp

section \<open>Sorting\<close>

lemma postorder_reverse:
  assumes "postorder E l" "rev l = xs @ x # ys"
  shows "E `` {x} \<subseteq> set ys"
proof -
  from assms(2) have "l = rev ys @ x # rev xs" by (metis append_assoc append_Cons append_Nil rev.simps(2) rev_append rev_rev_ident)
  with assms(1) have "E `` {x} \<subseteq> set (rev ys)" unfolding postorder_def by blast
  then show ?thesis by simp
qed

lemma topoSort_correctness:
  "case topoSort items getChildren of
     Inl e \<Rightarrow> \<exists>x. x |\<in>| items \<and> getChildren x = Inl e
   | Inr (Inl l) \<Rightarrow> acyclic (child_edges (fset items) getChildren) \<and> distinct l \<and> set l = fset items \<and>
       (\<forall>xs x ys. l = xs @ x # ys \<longrightarrow> child_edges (fset items) getChildren `` {x} \<subseteq> set ys)
   | Inr (Inr c) \<Rightarrow> real_cycle (child_edges (fset items) getChildren) c"
proof -
  let ?E = "child_edges (fset items) getChildren" and ?st = "\<lparr>sorted_so_far = [], visited = {}, parents = {}\<rparr>"
  let ?r = "visit_all (\<lambda>i. dfsVisit (fcard items + 1) (fset items) getChildren i None) (sorted_list_of_fset items) ?st"
  have start: "topo_inv (fset items) ?E ?st" by (simp add: topo_inv_def postorder_def)
  have "visit_ok (fset items) getChildren ?E (\<lambda>_. True) i s (dfsVisit (fcard items + 1) (fset items) getChildren i None s)"
    if "i \<in> set (sorted_list_of_fset items)" "topo_inv (fset items) ?E s" "parents s = {}" for i s
    by (rule dfsVisit_ok) (use that in \<open>simp_all add: on_path_def fcard.rep_eq\<close>)
  then have all: "case ?r of
        Inl e \<Rightarrow> \<exists>x\<in>fset items. getChildren x = Inl e
      | Inr (Some c, _) \<Rightarrow> real_cycle ?E c
      | Inr (None, st') \<Rightarrow> topo_inv (fset items) ?E st' \<and> parents st' = {} \<and> visited ?st \<subseteq> visited st' \<and>
          {i \<in> set (sorted_list_of_fset items). True} \<subseteq> visited st' - {}"
    by (rule visit_all_ok) (use start in simp_all)
  show ?thesis
  proof (cases ?r)
    case (Inr x)
    obtain c st' where x: "x = (c, st')" by (cases x)
    show ?thesis
    proof (cases c)
      case None
      with all Inr x have st': "postorder ?E (sorted_so_far st')" "set (sorted_so_far st') = fset items"
        by (auto simp: topo_inv_def)
      have "acyclic ?E" by (rule postorder_acyclic [OF st'(1)]) (auto simp: st' child_edges_def)
      with st' postorder_reverse [OF st'(1)] Inr x None show ?thesis by (simp add: topoSort_def postorder_def)
    qed (use all Inr x in \<open>simp add: topoSort_def\<close>)
  qed (use all in \<open>auto simp: topoSort_def\<close>)
qed

lemma topoSort_sorted:
  "topoSort items getChildren = Inr (Inl l) \<Longrightarrow> acyclic (child_edges (fset items) getChildren) \<and> distinct l \<and>
     set l = fset items \<and> (\<forall>xs x ys. l = xs @ x # ys \<longrightarrow> child_edges (fset items) getChildren `` {x} \<subseteq> set ys)"
  using topoSort_correctness [of items getChildren] by simp

text \<open>
  C7: Topological sorting never runs out of fuel or dereferences the null parent. It returns
  every element once, each before all its children among the elements, if the graph without
  self-references is acyclic; otherwise it reports a reference that closes a cycle. It throws only
  what computing the children of an element throws.
\<close>

theorem topoSort_correct:
  "case topoSort items getChildren of
     Inl e \<Rightarrow> \<exists>x. x |\<in>| items \<and> getChildren x = Inl e
   | Inr (Inl l) \<Rightarrow> acyclic (child_edges (fset items) getChildren) \<and> distinct l \<and> set l = fset items \<and>
       (\<forall>xs x ys. l = xs @ x # ys \<longrightarrow> child_edges (fset items) getChildren `` {x} \<subseteq> set ys)
   | Inr (Inr c) \<Rightarrow> real_cycle (child_edges (fset items) getChildren) c"
  by (rule topoSort_correctness)

definition sample_items :: "char fset" where
  "sample_items = {|CHR ''a'', CHR ''b'', CHR ''c''|}"

definition sample_children :: "char \<Rightarrow> char fset result" where
  "sample_children a = Inr (if a = CHR ''c'' then {|CHR ''a'', CHR ''c''|} else if a = CHR ''a'' then {|CHR ''b''|} else {||})"

lemma sample_sorted:
  "sorted_list_of_fset {||} = ([] :: char list)" "sorted_list_of_fset {|CHR ''b''|} = [CHR ''b'']"
  "sorted_list_of_fset {|CHR ''a'', CHR ''c''|} = [CHR ''a'', CHR ''c'']"
  "sorted_list_of_fset {|CHR ''a'', CHR ''b'', CHR ''c''|} = [CHR ''a'', CHR ''b'', CHR ''c'']"
  by (simp_all add: sorted_list_of_fset.rep_eq less_eq_char_def)

lemma topoSort_sample: "topoSort sample_items sample_children = Inr (Inl ''cab'')"
proof -
  have "fcard sample_items + 1 = Suc (Suc (Suc (Suc 0)))" by (simp add: fcard.rep_eq sample_items_def)
  then show ?thesis unfolding topoSort_def by (simp add: sample_items_def sample_sorted sample_children_def)
qed

theorem topoSort_correct_witness:
  "acyclic (child_edges (fset sample_items) sample_children) \<and>
     child_edges (fset sample_items) sample_children `` {CHR ''c''} \<subseteq> {CHR ''a'', CHR ''b''}"
proof -
  have "acyclic (child_edges (fset sample_items) sample_children) \<and>
    (\<forall>xs x ys. ''cab'' = xs @ x # ys \<longrightarrow> child_edges (fset sample_items) sample_children `` {x} \<subseteq> set ys)"
    using topoSort_correct [of sample_items sample_children] unfolding topoSort_sample by simp
  moreover have "''cab'' = [] @ CHR ''c'' # ''ab''" by simp
  ultimately have "acyclic (child_edges (fset sample_items) sample_children) \<and>
    child_edges (fset sample_items) sample_children `` {CHR ''c''} \<subseteq> set ''ab''" by blast
  then show ?thesis by simp
qed

end
