(* ===== verification/Store_Closure.thy ===== *)
theory Store_Closure
  imports Closure Topo_Sort Store_Path Ordered_Map
begin

text \<open>
  Closures and orders of store paths (\<^verbatim>\<open>libstore/misc.cc\<close>): the references, referrers, outputs
  and derivers that \<^verbatim>\<open>computeFSClosure\<close> follows, and \<^verbatim>\<open>topoSortPaths\<close>. What a store answers to
  the queries is a parameter; it does not change while a closure is computed.
\<close>

section \<open>Queries\<close>

record ValidPathInfo =
  references :: "StorePath fset"
  deriver :: "StorePath option"

text \<open>\<^verbatim>\<open>queryPathInfo\<close> gives \<open>None\<close> where it throws \<^verbatim>\<open>InvalidPath\<close>.\<close>

record StoreQueries =
  queryPathInfo :: "StorePath \<Rightarrow> ValidPathInfo option result"
  isValidPath :: "StorePath \<Rightarrow> bool result"
  queryReferrers :: "StorePath \<Rightarrow> StorePath fset result"
  queryValidDerivers :: "StorePath \<Rightarrow> StorePath fset result"
  queryPartialDerivationOutputMap :: "StorePath \<Rightarrow> (string, StorePath option) omap result"

text \<open>The valid output paths of a derivation, added to a set.\<close>

definition insert_if_valid :: "StoreQueries \<Rightarrow> StorePath option \<Rightarrow> StorePath fset \<Rightarrow> StorePath fset result" where
  "insert_if_valid store p paths = (case p of
     None \<Rightarrow> Inr paths
   | Some p \<Rightarrow> result_bind (isValidPath store p) (\<lambda>valid. Inr (if valid then finsert p paths else paths)))"

definition insert_outputs :: "StoreQueries \<Rightarrow> StorePath \<Rightarrow> StorePath fset \<Rightarrow> StorePath fset result" where
  "insert_outputs store path paths =
     result_bind (queryPartialDerivationOutputMap store path)
       (\<lambda>outputs. fold_result (\<lambda>(_, maybeOutPath). insert_if_valid store maybeOutPath) outputs paths)"

definition queryDeps_flipped :: "StoreQueries \<Rightarrow> bool \<Rightarrow> bool \<Rightarrow> StorePath \<Rightarrow> StorePath fset result" where
  "queryDeps_flipped store includeOutputs includeDerivers path =
     result_bind (queryReferrers store path) (\<lambda>referrers.
       let paths = ffilter (\<lambda>ref. ref \<noteq> path) referrers in
       result_bind (if includeOutputs
         then result_bind (queryValidDerivers store path) (\<lambda>ds. Inr (paths |\<union>| ds)) else Inr paths) (\<lambda>paths.
         if includeDerivers \<and> isDerivation path then insert_outputs store path paths else Inr paths))"

definition queryDeps_forward :: "StoreQueries \<Rightarrow> bool \<Rightarrow> bool \<Rightarrow> StorePath \<Rightarrow> StorePath fset result" where
  "queryDeps_forward store includeOutputs includeDerivers path =
     result_bind (queryPathInfo store path) (\<lambda>info. case info of
       None \<Rightarrow> Inl (GenericError ''path is not valid'')
     | Some info \<Rightarrow>
         let paths = ffilter (\<lambda>ref. ref \<noteq> path) (references info) in
         result_bind (if includeOutputs \<and> isDerivation path then insert_outputs store path paths else Inr paths)
           (\<lambda>paths. if includeDerivers then insert_if_valid store (deriver info) paths else Inr paths))"

definition queryDeps :: "StoreQueries \<Rightarrow> bool \<Rightarrow> bool \<Rightarrow> bool \<Rightarrow> StorePath \<Rightarrow> StorePath fset result" where
  "queryDeps store flipDirection includeOutputs includeDerivers =
     (if flipDirection then queryDeps_flipped store includeOutputs includeDerivers
      else queryDeps_forward store includeOutputs includeDerivers)"

section \<open>Closures and their order\<close>

text \<open>
  The results of computing a closure: the handlers of the traversal run in any order until none
  is left.
\<close>

definition computeFSClosure ::
  "StoreQueries \<Rightarrow> StorePath fset \<Rightarrow> StorePath set \<Rightarrow> bool \<Rightarrow> bool \<Rightarrow> bool \<Rightarrow> StorePath set result \<Rightarrow> bool" where
  "computeFSClosure store startPaths paths flipDirection includeOutputs includeDerivers r \<longleftrightarrow>
     (\<exists>st. run maxConcurrent (queryDeps store flipDirection includeOutputs includeDerivers)
         (computeClosure_start startPaths paths) st \<and> posted st = {#} \<and> r = computeClosure_outcome st)"

text \<open>The references a store knows; a path that is not valid has none.\<close>

definition known_references :: "StoreQueries \<Rightarrow> StorePath \<Rightarrow> StorePath fset result" where
  "known_references store path = result_bind (queryPathInfo store path) (\<lambda>info.
     Inr (case info of Some info \<Rightarrow> references info | None \<Rightarrow> {||}))"

definition topoSortPaths :: "StoreQueries \<Rightarrow> StorePath fset \<Rightarrow> StorePath list result" where
  "topoSortPaths store paths =
     result_bind (topoSort paths (known_references store)) (\<lambda>result. case result of
       Inr cycle \<Rightarrow> Inl (GenericError ''cycle detected in the references'')
     | Inl order \<Rightarrow> Inr order)"

section \<open>A closure in order\<close>

text \<open>What the traversal returns when it returns a set.\<close>

lemma computeFSClosure_reach:
  assumes "computeFSClosure store S R0 flip outs ders (Inr closure)"
  shows "closure = R0 \<union> reach (queryDeps store flip outs ders) S R0"
    and "\<forall>a\<in>reach (queryDeps store flip outs ders) S R0. \<exists>es. queryDeps store flip outs ders a = Inr es"
proof -
  let ?q = "queryDeps store flip outs ders"
  obtain st where st: "run maxConcurrent ?q (computeClosure_start S R0) st" "posted st = {#}"
      "computeClosure_outcome st = Inr closure"
    using assms by (auto simp: computeFSClosure_def)
  have "0 < maxConcurrent" by (simp add: maxConcurrent_def)
  from computeClosure_correctness [OF st(1,2) this] st(3)
  have "(\<forall>a\<in>reach ?q S R0. \<exists>es. ?q a = Inr es) \<and> closure = R0 \<union> reach ?q S R0"
    by (auto split: if_splits)
  then show "closure = R0 \<union> reach ?q S R0" "\<forall>a\<in>reach ?q S R0. \<exists>es. ?q a = Inr es" by blast+
qed

lemma closure_closed:
  assumes "computeFSClosure store S {} False False False (Inr closure)" "p \<in> closure"
  shows "\<exists>info. queryPathInfo store p = Inr (Some info) \<and> fset (references info) \<subseteq> closure"
proof -
  note reach = computeFSClosure_reach [OF assms(1)]
  from assms(2) reach have p: "p \<in> reach (queryDeps store False False False) S {}" by simp
  then obtain es where es: "queryDeps store False False False p = Inr es" using reach(2) by blast
  then obtain info where info: "queryPathInfo store p = Inr (Some info)" "es = ffilter (\<lambda>ref. ref \<noteq> p) (references info)"
    by (auto simp: queryDeps_def queryDeps_forward_def result_simps split: option.splits)
  have "q \<in> closure" if "q |\<in>| references info" for q
    using reach.edge [OF p es, of q] that info(2) reach(1) assms(2) by (cases "q = p") auto
  with info show ?thesis by blast
qed

text \<open>
  C6: When computing the closure of a set of store paths under references returns, it contains
  the start and, for each path in it, which is valid, all its references. When sorting the
  closure returns, the list has exactly the paths of the closure, each before the other paths it
  refers to.
\<close>

theorem computeFSClosure_topoSorted:
  assumes closure: "computeFSClosure store S {} False False False (Inr (fset closure))"
    and sorted: "topoSortPaths store closure = Inr l"
  shows "S |\<subseteq>| closure \<and> set l = fset closure \<and> distinct l \<and>
    (\<forall>xs p ys. l = xs @ p # ys \<longrightarrow>
      (\<exists>info. queryPathInfo store p = Inr (Some info) \<and> fset (references info) \<subseteq> fset closure \<inter> insert p (set ys)))"
proof -
  let ?E = "child_edges (fset closure) (known_references store)"
  obtain order where "topoSort closure (known_references store) = Inr (Inl order)" "order = l"
    using sorted by (cases "topoSort closure (known_references store)") (auto simp: topoSortPaths_def split: sum.splits)
  with topoSort_sorted have l: "distinct l" "set l = fset closure" "\<And>xs p ys. l = xs @ p # ys \<Longrightarrow> ?E `` {p} \<subseteq> set ys"
    by blast+
  have "S |\<subseteq>| closure"
    using computeFSClosure_reach(1) [OF closure] by (auto intro: reach.start)
  moreover have "\<exists>info. queryPathInfo store p = Inr (Some info) \<and> fset (references info) \<subseteq> fset closure \<inter> insert p (set ys)"
    if "l = xs @ p # ys" for xs p ys
  proof -
    have p: "p \<in> fset closure" using l(2) that by auto
    from closure_closed [OF closure p] obtain info where info: "queryPathInfo store p = Inr (Some info)"
        "fset (references info) \<subseteq> fset closure" by blast
    have "q \<in> insert p (set ys)" if "q |\<in>| references info" for q
      using l(3) [OF \<open>l = xs @ p # ys\<close>] info p that by (auto simp: child_edges_def known_references_def)
    with info show ?thesis by blast
  qed
  ultimately show ?thesis using l by blast
qed

text \<open>A store of two paths: the first refers to itself and to the second.\<close>

definition sample_queries :: StoreQueries where
  "sample_queries =
     \<lparr>queryPathInfo = \<lambda>p. Inr (if p = StorePath ''a'' then Some \<lparr>references = {|StorePath ''a'', StorePath ''b''|}, deriver = None\<rparr>
        else if p = StorePath ''b'' then Some \<lparr>references = {||}, deriver = None\<rparr> else None),
      isValidPath = \<lambda>p. Inr (p \<in> {StorePath ''a'', StorePath ''b''}), queryReferrers = \<lambda>_. Inr {||},
      queryValidDerivers = \<lambda>_. Inr {||}, queryPartialDerivationOutputMap = \<lambda>_. Inr []\<rparr>"

lemma sample_path_order [simp]:
  "sorted_list_of_fset {||} = ([] :: StorePath list)" "sorted_list_of_fset {|p|} = [p :: StorePath]"
  "sorted_list_of_fset {|StorePath ''a'', StorePath ''b''|} = [StorePath ''a'', StorePath ''b'']"
  by (simp_all add: sorted_list_of_fset.rep_eq less_eq_StorePath_def)

lemma sample_deps:
  "queryDeps sample_queries False False False (StorePath ''a'') = Inr {|StorePath ''b''|}"
  "queryDeps sample_queries False False False (StorePath ''b'') = Inr {||}"
  by (simp_all add: queryDeps_def queryDeps_forward_def sample_queries_def Let_def ffilter.rep_eq flip: fset_inject)

lemma sample_closure:
  "computeFSClosure sample_queries {|StorePath ''a''|} {} False False False (Inr (fset {|StorePath ''a'', StorePath ''b''|}))"
proof -
  have "exec maxConcurrent (queryDeps sample_queries False False False)
      [Begin {|StorePath ''a''|}, Work (StorePath ''a''), Work (StorePath ''b''), Complete None]
      (computeClosure_start {|StorePath ''a''|} {}) =
    Some \<lparr>res = {StorePath ''a'', StorePath ''b''}, workGuard = False, pending = 0, inFlight = 0, todo = [], error = None,
      posted = {#}, handled = [None]\<rparr>"
    by (simp add: sample_deps exec_simps maxConcurrent_def insert_commute)
  from exec_run [OF this] show ?thesis
    unfolding computeFSClosure_def by (rule_tac exI, intro conjI, assumption) (simp_all add: computeClosure_outcome_def)
qed

lemma sample_topoSort:
  "topoSortPaths sample_queries {|StorePath ''a'', StorePath ''b''|} = Inr [StorePath ''a'', StorePath ''b'']"
proof -
  have "fcard {|StorePath ''a'', StorePath ''b''|} + 1 = Suc (Suc (Suc 0))" by (simp add: fcard.rep_eq)
  then show ?thesis
    by (simp add: topoSortPaths_def topoSort_def known_references_def sample_queries_def)
qed

theorem computeFSClosure_topoSorted_witness:
  "\<exists>info. queryPathInfo sample_queries (StorePath ''a'') = Inr (Some info) \<and>
     fset (references info) \<subseteq> {StorePath ''a'', StorePath ''b''}"
  using computeFSClosure_topoSorted [OF sample_closure sample_topoSort] by fastforce

end
