(* ===== verification/GC.thy ===== *)
theory GC
  imports Store_Closure
begin

text \<open>
  The garbage collector of the local store (\<^verbatim>\<open>libstore/gc.cc\<close>): from each candidate it visits the
  closure under referrers; if that has no root the candidates are deleted, referrers first.
  Other processes register temporary roots while it runs. They are read under a lock, so what
  arrives in between is given as the roots that have arrived by the n-th time the lock is taken.
\<close>

section \<open>Options and state\<close>

datatype GCAction = gcReturnLive | gcReturnDead | gcDeleteDead | gcDeleteSpecific

datatype GCPaths = WholeStore | SpecificPaths (specific: "StorePath fset") (deleteReferrers: bool)

record GCOptions =
  gc_action :: GCAction
  ignoreLiveness :: bool
  pathsToDelete :: GCPaths
  maxFreed :: nat

text \<open>
  What the collector asks of its surroundings: the permanent and temporary roots found at the
  start, the outputs of derivations and the derivations of outputs in the database, the hash
  parts of the temporary roots that arrive, the sizes on disk, and the locked directories.
\<close>

record gc_env =
  gc_dir :: StoreDirConfig
  gc_options :: GCOptions
  keepOutputs :: bool
  keepDerivations :: bool
  found_roots :: "StorePath set"
  found_temp_roots :: "StorePath set"
  output_map :: "StorePath \<Rightarrow> (string, StorePath option) omap"
  output_derivers :: "StorePath \<Rightarrow> StorePath fset"
  arrivals :: "nat \<Rightarrow> string set"
  disk_size :: "string \<Rightarrow> nat"
  locked_tempdir :: "string \<Rightarrow> bool"

text \<open>
  The database maps the valid paths to their infos. \<open>tempRoots\<close> and \<open>pending\<close> are shared with the
  server for new roots; \<open>history\<close> records the database at each time the lock was taken.
\<close>

record gc_state =
  gc_db :: "(StorePath, ValidPathInfo) omap"
  disk :: "string set"
  dead :: "StorePath set"
  alive :: "StorePath set"
  tempRoots :: "string set"
  gc_pending :: "string option"
  referrersCache :: "StorePath \<Rightarrow> StorePath fset option"
  result_paths :: "string set"
  bytesFreed :: nat
  history :: "(StorePath, ValidPathInfo) omap list"

datatype gc_outcome = Continue | LimitReached | Thrown nix_error

definition shouldDelete :: "gc_env \<Rightarrow> bool" where
  "shouldDelete env \<longleftrightarrow> gc_action (gc_options env) = gcDeleteDead \<or> gc_action (gc_options env) = gcDeleteSpecific"

definition gc_roots :: "gc_env \<Rightarrow> StorePath set" where
  "gc_roots env = (if ignoreLiveness (gc_options env) then {} else found_roots env) \<union> found_temp_roots env"

section \<open>The database\<close>

definition is_valid :: "gc_state \<Rightarrow> StorePath \<Rightarrow> bool" where
  "is_valid st p \<longleftrightarrow> map_of (gc_db st) p \<noteq> None"

definition referrers_of :: "(StorePath, ValidPathInfo) omap \<Rightarrow> StorePath \<Rightarrow> StorePath fset" where
  "referrers_of db p = fset_of_list (map fst (filter (\<lambda>(q, info). p |\<in>| references info) db))"

definition valid_derivers :: "gc_env \<Rightarrow> gc_state \<Rightarrow> StorePath \<Rightarrow> StorePath fset" where
  "valid_derivers env st p = ffilter (is_valid st) (output_derivers env p)"

definition gc_queries :: "gc_env \<Rightarrow> gc_state \<Rightarrow> StoreQueries" where
  "gc_queries env st =
     \<lparr>queryPathInfo = \<lambda>p. Inr (map_of (gc_db st) p), isValidPath = \<lambda>p. Inr (is_valid st p),
      queryReferrers = \<lambda>p. Inr (referrers_of (gc_db st) p), queryValidDerivers = \<lambda>p. Inr (valid_derivers env st p),
      queryPartialDerivationOutputMap = \<lambda>p. Inr (output_map env p)\<rparr>"

text \<open>
  \<^verbatim>\<open>invalidatePathChecked\<close>: the database without the path, \<open>None\<close> where it throws \<^verbatim>\<open>PathInUse\<close>.
\<close>

definition invalidatePathChecked ::
  "StorePath \<Rightarrow> (StorePath, ValidPathInfo) omap \<Rightarrow> (StorePath, ValidPathInfo) omap option" where
  "invalidatePathChecked p db =
     (if map_of db p \<noteq> None \<and> ffilter (\<lambda>q. q \<noteq> p) (referrers_of db p) \<noteq> {||} then None else Some (map_erase p db))"

section \<open>Marking\<close>

text \<open>The set the traversal of a closure returns, \<open>None\<close> where it throws.\<close>

definition closure_result :: "StoreQueries \<Rightarrow> StorePath \<Rightarrow> bool \<Rightarrow> bool \<Rightarrow> StorePath set option" where
  "closure_result store p includeOutputs includeDerivers =
     (let edges = queryDeps store False includeOutputs includeDerivers; closure = reach edges {|p|} {} in
      if \<forall>q\<in>closure. \<exists>es. edges q = Inr es then Some closure else None)"

definition markAlive :: "gc_env \<Rightarrow> StorePath \<Rightarrow> gc_state \<Rightarrow> gc_state" where
  "markAlive env p st =
     (let whole = (pathsToDelete (gc_options env) = WholeStore);
          st = st\<lparr>alive := insert p (alive st)\<rparr>
      in case closure_result (gc_queries env st) p (whole \<and> keepOutputs env) (whole \<and> keepDerivations env) of
           None \<Rightarrow> st
         | Some closure \<Rightarrow> st\<lparr>alive := alive st \<union> closure\<rparr>)"

text \<open>Taking the lock: the roots that have arrived since are seen.\<close>

definition lock :: "gc_env \<Rightarrow> gc_state \<Rightarrow> gc_state" where
  "lock env st = st\<lparr>tempRoots := tempRoots st \<union> arrivals env (length (history st)), history := history st @ [gc_db st]\<rparr>"

definition cached_referrers :: "StorePath \<Rightarrow> gc_state \<Rightarrow> StorePath fset \<times> gc_state" where
  "cached_referrers p st = (case referrersCache st p of
     Some rs \<Rightarrow> (rs, st)
   | None \<Rightarrow> let rs = referrers_of (gc_db st) p in (rs, st\<lparr>referrersCache := (referrersCache st)(p \<mapsto> rs)\<rparr>))"

text \<open>What is vis because of the options \<open>keep-derivations\<close> and \<open>keep-outputs\<close>.\<close>

definition kept_with :: "gc_env \<Rightarrow> gc_state \<Rightarrow> StorePath \<Rightarrow> StorePath list" where
  "kept_with env st p =
     (if pathsToDelete (gc_options env) = WholeStore then
        (if keepDerivations env \<and> isDerivation p then
           [q. (_, Some q) \<leftarrow> output_map env p, is_valid st q,
               map_option deriver (map_of (gc_db st) q) = Some (Some p)] else []) @
        (if keepOutputs env then sorted_list_of_fset (valid_derivers env st p) else [])
      else [])"

definition enqueue_path :: "StorePath \<Rightarrow> StorePath fset \<times> StorePath list \<Rightarrow> StorePath fset \<times> StorePath list" where
  "enqueue_path p vt = (case vt of (vis, queue) \<Rightarrow> if p |\<in>| vis then vt else (finsert p vis, queue @ [p]))"

definition not_specified :: "gc_env \<Rightarrow> StorePath \<Rightarrow> bool" where
  "not_specified env p = (case pathsToDelete (gc_options env) of
     WholeStore \<Rightarrow> False
   | SpecificPaths paths del \<Rightarrow> \<not> del \<and> p |\<notin>| paths)"

text \<open>
  The body of the loop for one path: the paths visited and those that wait, or \<open>None\<close> where the
  visit ends because the path must stay.
\<close>

definition visit_one :: "gc_env \<Rightarrow> StorePath \<Rightarrow> StorePath \<Rightarrow> StorePath fset \<Rightarrow> StorePath list \<Rightarrow> gc_state \<Rightarrow>
    (StorePath fset \<times> StorePath list) option \<times> gc_state" where
  "visit_one env start p vis queue st =
     (if p \<in> alive st then (None, st\<lparr>alive := insert start (alive st)\<rparr>)
      else if p \<in> dead st then (Some (vis, queue), st)
      else if p \<in> gc_roots env then (None, markAlive env p (st\<lparr>alive := insert start (alive st)\<rparr>))
      else if not_specified env p then (None, st)
      else let st = lock env st in
        if StorePath_hashPart p \<in> tempRoots st then (None, markAlive env p (st\<lparr>alive := insert start (alive st)\<rparr>))
        else let st = st\<lparr>gc_pending := Some (StorePath_hashPart p)\<rparr> in
          if is_valid st p then
            (case cached_referrers p st of (refs, st) \<Rightarrow>
               (Some (fold enqueue_path (sorted_list_of_fset refs @ kept_with env st p) (vis, queue)), st))
          else (Some (vis, queue), st))"

fun visit_referrers :: "nat \<Rightarrow> gc_env \<Rightarrow> StorePath \<Rightarrow> StorePath fset \<Rightarrow> StorePath list \<Rightarrow> gc_state \<Rightarrow>
    StorePath fset option result \<times> gc_state" where
  "visit_referrers 0 env start vis queue st = (Inl OutOfFuel, st)"
| "visit_referrers (Suc n) env start vis [] st = (Inr (Some vis), st)"
| "visit_referrers (Suc n) env start vis (p # queue) st = (case visit_one env start p vis queue st of
     (None, st) \<Rightarrow> (Inr None, st)
   | (Some (vis, queue), st) \<Rightarrow> visit_referrers n env start vis queue st)"

section \<open>Deleting\<close>

definition tmp_prefix :: string where
  "tmp_prefix = ''tmp-''"

definition deleteFromStore :: "gc_env \<Rightarrow> string \<Rightarrow> gc_state \<Rightarrow> gc_outcome \<times> gc_state" where
  "deleteFromStore env name st =
     (if take (length tmp_prefix) name = tmp_prefix \<and> locked_tempdir env name then (Continue, st)
      else let st = st\<lparr>result_paths := insert (storeDir (gc_dir env) @ ''/'' @ name) (result_paths st),
                       disk := disk st - {name}, bytesFreed := bytesFreed st + disk_size env name\<rparr>
           in (if bytesFreed st > maxFreed (gc_options env) then LimitReached else Continue, st))"

definition deleteOne :: "gc_env \<Rightarrow> StorePath \<Rightarrow> gc_state \<Rightarrow> gc_outcome \<times> gc_state" where
  "deleteOne env p st = (case invalidatePathChecked p (gc_db st) of
     None \<Rightarrow> (Continue, st)
   | Some db \<Rightarrow> (case deleteFromStore env (baseName p) (st\<lparr>gc_db := db\<rparr>) of
       (Continue, st) \<Rightarrow> (Continue, st\<lparr>referrersCache := (referrersCache st)(p := None)\<rparr>)
     | (out, st) \<Rightarrow> (out, st)))"

fun delete_all :: "gc_env \<Rightarrow> StorePath list \<Rightarrow> gc_state \<Rightarrow> gc_outcome \<times> gc_state" where
  "delete_all env [] st = (Continue, st)"
| "delete_all env (p # ps) st =
     (if p \<in> dead st then delete_all env ps st
      else let st = st\<lparr>dead := insert p (dead st)\<rparr> in
        if \<not> shouldDelete env then delete_all env ps st
        else let st = lock env st in
          if StorePath_hashPart p \<in> tempRoots st then delete_all env ps (markAlive env p st)
          else (case deleteOne env p (st\<lparr>gc_pending := Some (StorePath_hashPart p)\<rparr>) of
              (Continue, st) \<Rightarrow> delete_all env ps (st\<lparr>gc_pending := None\<rparr>)
            | (out, st) \<Rightarrow> (out, st\<lparr>gc_pending := None\<rparr>)))"

definition maybeDeleteReferrersClosure :: "nat \<Rightarrow> gc_env \<Rightarrow> StorePath \<Rightarrow> gc_state \<Rightarrow> gc_outcome \<times> gc_state" where
  "maybeDeleteReferrersClosure fuel env start st =
     (case visit_referrers fuel env start {|start|} [start] st of
        (Inl e, st) \<Rightarrow> (Thrown e, st\<lparr>gc_pending := None\<rparr>)
      | (Inr None, st) \<Rightarrow> (Continue, st\<lparr>gc_pending := None\<rparr>)
      | (Inr (Some vis), st) \<Rightarrow> (case topoSortPaths (gc_queries env st) vis of
          Inl e \<Rightarrow> (Thrown e, st\<lparr>gc_pending := None\<rparr>)
        | Inr order \<Rightarrow> (case delete_all env order st of (out, st) \<Rightarrow> (out, st\<lparr>gc_pending := None\<rparr>))))"

section \<open>Collecting\<close>

fun collect_specific :: "nat \<Rightarrow> gc_env \<Rightarrow> StorePath list \<Rightarrow> gc_state \<Rightarrow> gc_outcome \<times> gc_state" where
  "collect_specific fuel env [] st = (Continue, st)"
| "collect_specific fuel env (i # paths) st = (case maybeDeleteReferrersClosure fuel env i st of
     (Continue, st) \<Rightarrow>
       if gc_action (gc_options env) = gcDeleteSpecific \<and> i \<notin> dead st
       then (Thrown (GenericError ''Cannot delete path since it is still alive''), st)
       else collect_specific fuel env paths st
   | (out, st) \<Rightarrow> (out, st))"

definition linksName :: string where
  "linksName = ''.links''"

text \<open>The entries of the store directory in the order in which they are read.\<close>

fun collect_whole :: "nat \<Rightarrow> gc_env \<Rightarrow> string list \<Rightarrow> gc_state \<Rightarrow> gc_outcome \<times> gc_state" where
  "collect_whole fuel env [] st = (Continue, st)"
| "collect_whole fuel env (name # names) st =
     (if name = ''.'' \<or> name = ''..'' \<or> name = linksName then collect_whole fuel env names st
      else case maybeParseStorePath (gc_dir env) (storeDir (gc_dir env) @ ''/'' @ name) of
        Inl e \<Rightarrow> (Thrown e, st)
      | Inr parsed \<Rightarrow>
          (case (case parsed of
              Some p \<Rightarrow> maybeDeleteReferrersClosure fuel env p st
            | None \<Rightarrow> deleteFromStore env name st) of
             (Continue, st) \<Rightarrow> collect_whole fuel env names st
           | (out, st) \<Rightarrow> (out, st)))"

definition gc_start :: "gc_env \<Rightarrow> (StorePath, ValidPathInfo) omap \<Rightarrow> string set \<Rightarrow> gc_state" where
  "gc_start env db disk0 =
     \<lparr>gc_db = db, disk = disk0, dead = {}, alive = {}, tempRoots = StorePath_hashPart ` found_temp_roots env,
      gc_pending = None, referrersCache = (\<lambda>_. None), result_paths = {}, bytesFreed = 0, history = []\<rparr>"

definition collect_paths :: "nat \<Rightarrow> gc_env \<Rightarrow> string list \<Rightarrow> gc_state \<Rightarrow> gc_outcome \<times> gc_state" where
  "collect_paths fuel env names st = (case pathsToDelete (gc_options env) of
     SpecificPaths paths del \<Rightarrow> collect_specific fuel env (sorted_list_of_fset paths) st
   | WholeStore \<Rightarrow>
       if maxFreed (gc_options env) = 0 then (Continue, st)
       else if gc_action (gc_options env) = gcDeleteSpecific then (Thrown (GenericError ''Cannot delete the entire store''), st)
       else collect_whole fuel env names st)"

text \<open>
  \<^verbatim>\<open>collectGarbage\<close> on a database and the names in the store directory: the state it leaves behind
  and the exception it throws. More paths than the database and the start of a visit has are never
  visited; that is the fuel.
\<close>

definition collectGarbage ::
  "gc_env \<Rightarrow> string list \<Rightarrow> (StorePath, ValidPathInfo) omap \<Rightarrow> string set \<Rightarrow> nix_error option \<times> gc_state" where
  "collectGarbage env names db disk0 =
     (if (case pathsToDelete (gc_options env) of SpecificPaths paths _ \<Rightarrow> paths = {||} | WholeStore \<Rightarrow> False)
      then (None, gc_start env db disk0)
      else case collect_paths (length db + 3) env names (gc_start env db disk0) of
        (Thrown e, st) \<Rightarrow> (Some e, st)
      | (_, st) \<Rightarrow> (None,
          case gc_action (gc_options env) of
            gcReturnLive \<Rightarrow> st\<lparr>result_paths := result_paths st \<union> printStorePath (gc_dir env) ` alive st\<rparr>
          | gcReturnDead \<Rightarrow> st\<lparr>result_paths := result_paths st \<union> printStorePath (gc_dir env) ` dead st\<rparr>
          | _ \<Rightarrow> st))"

section \<open>Temporary roots\<close>

text \<open>The record that a process appends to its file of temporary roots, and the loop that reads it.\<close>

definition temp_root_record :: "StoreDirConfig \<Rightarrow> StorePath \<Rightarrow> string" where
  "temp_root_record cfg p = printStorePath cfg p @ [CHR 0x00]"

fun read_temp_roots :: "nat \<Rightarrow> StoreDirConfig \<Rightarrow> string \<Rightarrow> StorePath set \<Rightarrow> StorePath set result" where
  "read_temp_roots 0 cfg contents roots = Inl OutOfFuel"
| "read_temp_roots (Suc n) cfg contents roots = (case find_char (CHR 0x00) contents of
     None \<Rightarrow> Inr roots
   | Some end_pos \<Rightarrow> result_bind (parseStorePath cfg (take end_pos contents)) (\<lambda>p.
       read_temp_roots n cfg (drop (end_pos + 1) contents) (insert p roots)))"

definition findTempRoots_file :: "StoreDirConfig \<Rightarrow> string \<Rightarrow> StorePath set \<Rightarrow> StorePath set result" where
  "findTempRoots_file cfg contents roots = read_temp_roots (Suc (length contents)) cfg contents roots"

section \<open>What has to stay\<close>

definition ref_edges :: "(StorePath, ValidPathInfo) omap \<Rightarrow> (StorePath \<times> StorePath) set" where
  "ref_edges db = {(p, q). \<exists>info. map_of db p = Some info \<and> q |\<in>| references info}"

definition valid_paths :: "(StorePath, ValidPathInfo) omap \<Rightarrow> StorePath set" where
  "valid_paths db = dom (map_of db)"

definition db_closed :: "(StorePath, ValidPathInfo) omap \<Rightarrow> bool" where
  "db_closed db \<longleftrightarrow> ref_edges db `` valid_paths db \<subseteq> valid_paths db"

text \<open>The valid paths that are reachable from a set of roots.\<close>

definition live :: "(StorePath, ValidPathInfo) omap \<Rightarrow> StorePath set \<Rightarrow> StorePath set" where
  "live db R = (ref_edges db)\<^sup>* `` (R \<inter> valid_paths db)"

text \<open>Every element of the set is a root or has another element of the set as a referrer.\<close>

definition supported :: "(StorePath, ValidPathInfo) omap \<Rightarrow> StorePath set \<Rightarrow> StorePath set \<Rightarrow> bool" where
  "supported db R S \<longleftrightarrow> (\<forall>p\<in>S. p \<in> R \<or> (\<exists>q\<in>S. q \<noteq> p \<and> (q, p) \<in> ref_edges db))"

lemma live_supported: "supported db R (live db R)"
  unfolding supported_def
proof
  fix p assume "p \<in> live db R"
  then obtain r where r: "r \<in> R" "r \<in> valid_paths db" "(r, p) \<in> (ref_edges db)\<^sup>*" by (auto simp: live_def)
  from r(3) show "p \<in> R \<or> (\<exists>q\<in>live db R. q \<noteq> p \<and> (q, p) \<in> ref_edges db)"
  proof (induction rule: rtrancl_induct)
    case (step y z)
    have "y \<in> live db R" using step(1) r by (auto simp: live_def)
    with step show ?case by (cases "y = z") auto
  qed (use r in simp)
qed

lemma live_valid:
  assumes "db_closed db"
  shows "live db R \<subseteq> valid_paths db"
proof
  fix p assume "p \<in> live db R"
  then obtain r where "r \<in> valid_paths db" "(r, p) \<in> (ref_edges db)\<^sup>*" by (auto simp: live_def)
  from this(2,1) show "p \<in> valid_paths db"
    by (induction rule: rtrancl_induct) (use assms in \<open>auto simp: db_closed_def\<close>)
qed

lemma referrers_iff:
  assumes "omap_ok db"
  shows "q |\<in>| referrers_of db p \<longleftrightarrow> (q, p) \<in> ref_edges db"
proof -
  have "q |\<in>| referrers_of db p \<longleftrightarrow> (\<exists>info. (q, info) \<in> set db \<and> p |\<in>| references info)"
    unfolding referrers_of_def fset_of_list_elem by force
  moreover have "(q, info) \<in> set db \<longleftrightarrow> map_of db q = Some info" for info
    using assms map_of_eq_Some_iff [of db q info] by (auto simp: omap_ok_def strict_sorted_iff)
  ultimately show ?thesis by (simp add: ref_edges_def)
qed

text \<open>Invalidating a path that is not a root.\<close>

lemma invalidate_edges:
  assumes "omap_ok db" "invalidatePathChecked p db = Some db'"
  shows "omap_ok db'" "map_of db' = (map_of db)(p := None)" "p \<in> valid_paths db \<Longrightarrow> (q, p) \<in> ref_edges db \<Longrightarrow> q = p"
proof -
  from assms(2) have db': "db' = map_erase p db" by (auto simp: invalidatePathChecked_def split: if_splits)
  show "omap_ok db'" using omap_ok_erase [OF assms(1)] by (simp add: db')
  show "map_of db' = (map_of db)(p := None)" using map_of_erase [OF assms(1)] by (auto simp: db' fun_eq_iff)
  assume "p \<in> valid_paths db" "(q, p) \<in> ref_edges db"
  with assms show "q = p"
    using referrers_iff [OF assms(1), of q p]
    by (auto simp: invalidatePathChecked_def valid_paths_def ffilter.rep_eq split: if_splits simp flip: fset_inject)
qed

lemma invalidate_closed:
  assumes "omap_ok db" "invalidatePathChecked p db = Some db'" "db_closed db"
  shows "db_closed db'"
proof -
  note inv = invalidate_edges [OF assms(1,2)]
  have "q \<in> valid_paths db'" if "(r, q) \<in> ref_edges db'" for r q
  proof -
    from that have r: "(r, q) \<in> ref_edges db" "r \<noteq> p" "r \<in> valid_paths db"
      by (auto simp: ref_edges_def inv(2) valid_paths_def split: if_splits)
    then have "q \<in> valid_paths db" using assms(3) by (auto simp: db_closed_def)
    with r inv(3) show ?thesis by (auto simp: inv(2) valid_paths_def)
  qed
  then show ?thesis by (auto simp: db_closed_def)
qed

lemma invalidate_supported:
  assumes "omap_ok db" "invalidatePathChecked p db = Some db'" and sub: "map_of db \<subseteq>\<^sub>m map_of dbx"
    and S: "supported dbx R S" "S \<subseteq> valid_paths db" and p: "p \<notin> R"
  shows "S \<subseteq> valid_paths db'"
proof -
  note inv = invalidate_edges [OF assms(1,2)]
  have "p \<notin> S"
  proof
    assume "p \<in> S"
    with S(1) p obtain q where q: "q \<in> S" "q \<noteq> p" "(q, p) \<in> ref_edges dbx" by (auto simp: supported_def)
    with S(2) obtain info where "map_of db q = Some info" by (auto simp: valid_paths_def)
    with sub q(3) have "(q, p) \<in> ref_edges db" by (force simp: ref_edges_def map_le_def dom_def)
    with inv(3) S(2) \<open>p \<in> S\<close> q(2) show False by auto
  qed
  with S(2) show ?thesis by (auto simp: inv(2) valid_paths_def)
qed

section \<open>The invariant of a collection\<close>

text \<open>The temporary roots that have arrived when the lock has been taken \<open>n\<close> times.\<close>

definition arrived :: "gc_env \<Rightarrow> nat \<Rightarrow> string set" where
  "arrived env n = StorePath_hashPart ` found_temp_roots env \<union> (\<Union>k<n. arrivals env k)"

definition temp_live :: "gc_env \<Rightarrow> nat \<Rightarrow> (StorePath, ValidPathInfo) omap \<Rightarrow> StorePath set" where
  "temp_live env n db = live db {r. StorePath_hashPart r \<in> arrived env (Suc n)}"

definition gc_inv :: "gc_env \<Rightarrow> (StorePath, ValidPathInfo) omap \<Rightarrow> gc_state \<Rightarrow> bool" where
  "gc_inv env db0 st \<longleftrightarrow>
     omap_ok (gc_db st) \<and> map_of (gc_db st) \<subseteq>\<^sub>m map_of db0 \<and> db_closed (gc_db st) \<and>
     dead st \<inter> gc_roots env = {} \<and> live db0 (gc_roots env) \<subseteq> valid_paths (gc_db st) \<and>
     tempRoots st = arrived env (length (history st)) \<and>
     (\<forall>n<length (history st). map_of (gc_db st) \<subseteq>\<^sub>m map_of (history st ! n) \<and>
        temp_live env n (history st ! n) \<subseteq> valid_paths (gc_db st)) \<and>
     baseName ` valid_paths (gc_db st) \<subseteq> disk st"

text \<open>The part of the state that the invariant is about.\<close>

definition same_store :: "gc_state \<Rightarrow> gc_state \<Rightarrow> bool" where
  "same_store st st' \<longleftrightarrow> gc_db st' = gc_db st \<and> dead st' = dead st \<and> tempRoots st' = tempRoots st \<and>
     history st' = history st \<and> disk st' = disk st"

lemma gc_inv_same: "gc_inv env db0 st \<Longrightarrow> same_store st st' \<Longrightarrow> gc_inv env db0 st'"
  by (simp add: gc_inv_def same_store_def)

lemma same_store_simps [simp]:
  "same_store st (st\<lparr>alive := a\<rparr>)" "same_store st (st\<lparr>gc_pending := h\<rparr>)" "same_store st (st\<lparr>referrersCache := c\<rparr>)"
  "same_store st (st\<lparr>result_paths := r\<rparr>)" "same_store st (st\<lparr>bytesFreed := b\<rparr>)" "same_store st (markAlive env p st)"
  by (simp_all add: same_store_def markAlive_def Let_def split: option.split)

lemmas gc_inv_frame = gc_inv_same [OF _ same_store_simps(1)] gc_inv_same [OF _ same_store_simps(2)]
  gc_inv_same [OF _ same_store_simps(3)] gc_inv_same [OF _ same_store_simps(4)] gc_inv_same [OF _ same_store_simps(5)]
  gc_inv_same [OF _ same_store_simps(6)]

lemma arrived_mono: "m \<le> n \<Longrightarrow> arrived env m \<subseteq> arrived env n"
  by (auto simp: arrived_def)

lemma arrived_Suc: "arrived env (Suc n) = arrived env n \<union> arrivals env n"
  by (auto simp: arrived_def less_Suc_eq)

lemma gc_inv_lock: "gc_inv env db0 st \<Longrightarrow> gc_inv env db0 (lock env st)"
  using live_valid [of "gc_db st"]
  by (auto simp: gc_inv_def lock_def arrived_Suc temp_live_def nth_append less_Suc_eq)

text \<open>Deleting a path that is neither a root nor a temporary root.\<close>

lemma gc_inv_delete:
  assumes inv: "gc_inv env db0 st" and del: "invalidatePathChecked p (gc_db st) = Some db"
    and p: "p \<notin> gc_roots env" "StorePath_hashPart p \<notin> tempRoots st"
  shows "gc_inv env db0 (st\<lparr>gc_db := db, disk := disk st - {baseName p}\<rparr>)"
proof -
  have ok: "omap_ok (gc_db st)" "map_of (gc_db st) \<subseteq>\<^sub>m map_of db0" "db_closed (gc_db st)"
    and live: "live db0 (gc_roots env) \<subseteq> valid_paths (gc_db st)" using inv by (simp_all add: gc_inv_def)
  note inval = invalidate_edges [OF ok(1) del]
  have sub: "map_of db \<subseteq>\<^sub>m map_of (gc_db st)" by (simp add: inval(2) map_le_def)
  have temp: "temp_live env n (history st ! n) \<subseteq> valid_paths db" if n: "n < length (history st)" for n
  proof -
    have h: "map_of (gc_db st) \<subseteq>\<^sub>m map_of (history st ! n)" "temp_live env n (history st ! n) \<subseteq> valid_paths (gc_db st)"
      and "tempRoots st = arrived env (length (history st))" using inv n by (simp_all add: gc_inv_def)
    then have "p \<notin> {r. StorePath_hashPart r \<in> arrived env (Suc n)}" using p(2) arrived_mono [of "Suc n" "length (history st)" env] n by auto
    with h show ?thesis
      unfolding temp_live_def by (intro invalidate_supported [OF ok(1) del h(1) live_supported]) auto
  qed
  have old: "map_of db \<subseteq>\<^sub>m map_of (history st ! n)" if "n < length (history st)" for n
    using inv that sub by (auto simp: gc_inv_def intro: map_le_trans)
  have roots: "live db0 (gc_roots env) \<subseteq> valid_paths db"
    by (rule invalidate_supported [OF ok(1) del ok(2) live_supported live p(1)])
  have files: "baseName ` valid_paths db \<subseteq> disk st - {baseName p}"
  proof -
    have "baseName q \<noteq> baseName p" if "q \<in> valid_paths db" for q
      using that by (cases q; cases p) (auto simp: valid_paths_def inval(2) split: if_splits)
    moreover have "valid_paths db \<subseteq> valid_paths (gc_db st)" "p \<notin> valid_paths db"
      by (auto simp: valid_paths_def inval(2) split: if_splits)
    moreover have "baseName ` valid_paths (gc_db st) \<subseteq> disk st" using inv by (simp add: gc_inv_def)
    ultimately show ?thesis by force
  qed
  have "dead st \<inter> gc_roots env = {}" "tempRoots st = arrived env (length (history st))"
    using inv by (simp_all add: gc_inv_def)
  then show ?thesis
    by (simp add: gc_inv_def temp old roots files inval(1) invalidate_closed [OF ok(1) del ok(3)] map_le_trans [OF sub ok(2)])
qed

lemma enqueue_paths:
  "fold enqueue_path ps (vis, queue) = (vis', queue') \<Longrightarrow>
     fset vis' = fset vis \<union> set ps \<and> set queue' = set queue \<union> (set ps - fset vis)"
proof (induction ps arbitrary: vis queue)
  case (Cons p ps)
  show ?case
  proof (cases "p |\<in>| vis")
    case True
    with Cons show ?thesis by (auto simp: enqueue_path_def)
  next
    case False
    then have "enqueue_path p (vis, queue) = (finsert p vis, queue @ [p])" by (simp add: enqueue_path_def)
    with Cons.prems have "fold enqueue_path ps (finsert p vis, queue @ [p]) = (vis', queue')" by simp
    from Cons.IH [OF this] False show ?thesis by auto
  qed
qed simp

text \<open>What is visited and does not wait is no root, or it has been dealt with before.\<close>

definition no_roots :: "gc_env \<Rightarrow> StorePath fset \<Rightarrow> StorePath list \<Rightarrow> gc_state \<Rightarrow> bool" where
  "no_roots env vis queue st \<longleftrightarrow> (\<forall>p. p |\<in>| vis \<longrightarrow> p \<notin> set queue \<longrightarrow> p \<in> dead st \<or> p \<notin> gc_roots env)"

lemma cached_referrers_same: "cached_referrers p st = (refs, st') \<Longrightarrow> same_store st st'"
  by (auto simp: cached_referrers_def Let_def same_store_def split: option.splits)

lemma lock_dead [simp]: "dead (lock env st) = dead st" "gc_db (lock env st) = gc_db st" "alive (lock env st) = alive st"
  by (simp_all add: lock_def)

lemma visit_one_inv:
  assumes inv: "gc_inv env db0 st" and one: "visit_one env start p vis queue st = (r, st')"
  shows "gc_inv env db0 st'" "dead st' = dead st"
proof -
  have locked: "gc_inv env db0 (lock env st)" by (rule gc_inv_lock [OF inv])
  have "\<exists>st1. gc_inv env db0 st1 \<and> dead st1 = dead st \<and> same_store st1 st'"
  proof (cases "p \<in> alive st \<or> p \<in> dead st \<or> p \<in> gc_roots env \<or> not_specified env p")
    case True
    with one have "same_store st st'" by (auto simp: visit_one_def same_store_def markAlive_def Let_def split: if_splits option.splits)
    with inv show ?thesis by blast
  next
    case False
    with one have "same_store (lock env st) st'"
      by (auto simp: visit_one_def same_store_def markAlive_def cached_referrers_def Let_def split: if_splits option.splits)
    with locked show ?thesis by (intro exI [of _ "lock env st"]) simp
  qed
  then show "gc_inv env db0 st'" "dead st' = dead st" using gc_inv_same by (auto simp: same_store_def)
qed

lemma visit_one_no_roots:
  assumes "no_roots env vis (p # queue) st" and one: "visit_one env start p vis queue st = (Some (vis', queue'), st')"
  shows "no_roots env vis' queue' st'"
proof -
  have d: "dead st' = dead st" "p \<in> dead st \<or> p \<notin> gc_roots env"
    using one by (auto simp: visit_one_def Let_def cached_referrers_def split: if_splits option.splits)
  then have rest: "no_roots env vis queue st'" using assms(1) by (auto simp: no_roots_def)
  have "(vis', queue') = (vis, queue) \<or> (\<exists>ps. fold enqueue_path ps (vis, queue) = (vis', queue'))"
    using one by (auto simp: visit_one_def Let_def simp del: fold_append split: if_splits prod.splits)
  then show ?thesis
  proof (elim disjE exE)
    fix ps assume "fold enqueue_path ps (vis, queue) = (vis', queue')"
    from enqueue_paths [OF this] rest show ?thesis unfolding no_roots_def by blast
  qed (use rest in simp)
qed

text \<open>A visit that finds no reason to stop has met no root.\<close>

lemma visit_inv:
  assumes "gc_inv env db0 st" "no_roots env vis queue st" "visit_referrers n env start vis queue st = (r, st')"
  shows "gc_inv env db0 st' \<and> (\<forall>vis'. r = Inr (Some vis') \<longrightarrow> no_roots env vis' [] st')"
  using assms
proof (induction n arbitrary: vis queue st)
  case (Suc n)
  show ?case
  proof (cases queue)
    case (Cons p ps)
    obtain o1 st1 where one: "visit_one env start p vis ps st = (o1, st1)" by fastforce
    note inv1 = visit_one_inv [OF Suc.prems(1) one]
    show ?thesis
    proof (cases o1)
      case None
      with Suc.prems(3) Cons one inv1 show ?thesis by auto
    next
      case (Some vq)
      then obtain vis1 queue1 where vq: "o1 = Some (vis1, queue1)" by (cases vq) simp
      have "no_roots env vis1 queue1 st1"
        using visit_one_no_roots [of env vis p ps st] Suc.prems(2) Cons one vq by simp
      with Suc.IH [OF inv1(1)] Suc.prems(3) Cons one vq show ?thesis by simp
    qed
  qed (use Suc.prems in auto)
qed auto

section \<open>Every operation keeps the invariant\<close>

lemma gc_inv_disk:
  assumes "gc_inv env db0 st" "disk st \<subseteq> d"
  shows "gc_inv env db0 (st\<lparr>disk := d\<rparr>)"
  using assms by (auto simp: gc_inv_def)

lemma gc_inv_dead:
  assumes "gc_inv env db0 st" "p \<notin> gc_roots env"
  shows "gc_inv env db0 (st\<lparr>dead := insert p (dead st)\<rparr>)"
  using assms by (simp add: gc_inv_def)

lemma deleteFromStore_inv:
  assumes "gc_inv env db0 (st\<lparr>disk := disk st - {name}\<rparr>)"
  shows "gc_inv env db0 (snd (deleteFromStore env name st))"
proof (cases "take (length tmp_prefix) name = tmp_prefix \<and> locked_tempdir env name")
  case True
  have "gc_inv env db0 (st\<lparr>disk := disk st - {name}, disk := disk st\<rparr>)"
    using gc_inv_disk [OF assms, of "disk st"] by auto
  with True show ?thesis by (simp add: deleteFromStore_def)
next
  case False
  let ?st = "st\<lparr>disk := disk st - {name}\<rparr>"
  have "same_store ?st (snd (deleteFromStore env name st))"
    using False by (auto simp: deleteFromStore_def same_store_def Let_def)
  with assms show ?thesis by (rule gc_inv_same)
qed

lemma deleteFromStore_dead [simp]: "dead (snd (deleteFromStore env name st)) = dead st"
  by (simp add: deleteFromStore_def Let_def)

lemma deleteOne_inv:
  assumes "gc_inv env db0 st" "p \<notin> gc_roots env" "StorePath_hashPart p \<notin> tempRoots st"
  shows "gc_inv env db0 (snd (deleteOne env p st))" "dead (snd (deleteOne env p st)) = dead st"
proof -
  have "gc_inv env db0 (snd (deleteOne env p st)) \<and> dead (snd (deleteOne env p st)) = dead st"
  proof (cases "invalidatePathChecked p (gc_db st)")
    case None
    with assms show ?thesis by (simp add: deleteOne_def)
  next
    case (Some db)
    obtain out st1 where del: "deleteFromStore env (baseName p) (st\<lparr>gc_db := db\<rparr>) = (out, st1)" by fastforce
    have "gc_inv env db0 st1"
      using deleteFromStore_inv [of env db0 "st\<lparr>gc_db := db\<rparr>" "baseName p"] gc_inv_delete [OF assms(1) Some assms(2,3)] del by simp
    moreover have "dead st1 = dead st"
      using deleteFromStore_dead [of env "baseName p" "st\<lparr>gc_db := db\<rparr>"] del by simp
    ultimately show ?thesis using Some del by (cases out) (auto simp: deleteOne_def intro: gc_inv_frame)
  qed
  then show "gc_inv env db0 (snd (deleteOne env p st))" "dead (snd (deleteOne env p st)) = dead st" by simp_all
qed

lemma delete_all_inv:
  assumes "gc_inv env db0 st" "\<forall>p\<in>set order. p \<in> dead st \<or> p \<notin> gc_roots env"
  shows "gc_inv env db0 (snd (delete_all env order st))"
  using assms
proof (induction order arbitrary: st)
  case (Cons p ps)
  show ?case
  proof (cases "p \<in> dead st")
    case False
    let ?st = "st\<lparr>dead := insert p (dead st)\<rparr>"
    have inv: "gc_inv env db0 ?st" using Cons.prems False by (intro gc_inv_dead) auto
    have rest: "\<forall>q\<in>set ps. q \<in> insert p (dead st) \<or> q \<notin> gc_roots env" using Cons.prems(2) by auto
    let ?l = "lock env ?st"
    have locked: "gc_inv env db0 ?l" by (rule gc_inv_lock [OF inv])
    consider (keep) "\<not> shouldDelete env" | (temp) "shouldDelete env" "StorePath_hashPart p \<in> tempRoots ?l"
      | (delete) "shouldDelete env" "StorePath_hashPart p \<notin> tempRoots ?l" by blast
    then show ?thesis
    proof cases
      case keep
      with False Cons.IH [OF inv] rest show ?thesis by simp
    next
      case temp
      have "gc_inv env db0 (markAlive env p ?l)" "dead (markAlive env p ?l) = insert p (dead st)"
        using locked gc_inv_frame(6) same_store_simps(6) [of ?l env p] by (auto simp: same_store_def)
      with False Cons.IH rest temp show ?thesis by (simp add: Let_def)
    next
      case delete
      let ?p = "?l\<lparr>gc_pending := Some (StorePath_hashPart p)\<rparr>"
      obtain out st1 where one: "deleteOne env p ?p = (out, st1)" by fastforce
      have "gc_inv env db0 ?p" by (rule gc_inv_frame(2) [OF locked])
      then have "gc_inv env db0 st1 \<and> dead st1 = insert p (dead st)"
        using deleteOne_inv [of env db0 ?p p] one delete(2) False Cons.prems(2) by simp
      then have "gc_inv env db0 (st1\<lparr>gc_pending := None\<rparr>)" "dead (st1\<lparr>gc_pending := None\<rparr>) = insert p (dead st)"
        by (auto intro: gc_inv_frame)
      with False Cons.IH rest delete one show ?thesis by (cases out) (simp_all add: Let_def)
    qed
  qed (use Cons in simp)
qed simp

lemma topoSortPaths_set: "topoSortPaths store paths = Inr order \<Longrightarrow> set order = fset paths"
  using topoSort_sorted [of paths "known_references store"]
  by (cases "topoSort paths (known_references store)") (auto simp: topoSortPaths_def split: sum.splits)

lemma maybeDelete_inv:
  assumes "gc_inv env db0 st"
  shows "gc_inv env db0 (snd (maybeDeleteReferrersClosure fuel env start st))"
proof -
  obtain r st1 where visit: "visit_referrers fuel env start {|start|} [start] st = (r, st1)" by fastforce
  have "no_roots env {|start|} [start] st" by (simp add: no_roots_def)
  from visit_inv [OF assms this visit] have inv: "gc_inv env db0 st1"
    and roots: "\<And>vis. r = Inr (Some vis) \<Longrightarrow> no_roots env vis [] st1" by simp_all
  consider (bail) "\<forall>vis. r \<noteq> Inr (Some vis)" | vis where "r = Inr (Some vis)" by blast
  then show ?thesis
  proof cases
    case bail
    with visit inv show ?thesis
      by (auto simp: maybeDeleteReferrersClosure_def split: sum.splits option.splits intro: gc_inv_frame)
  next
    case (2 vis)
    show ?thesis
    proof (cases "topoSortPaths (gc_queries env st1) vis")
      case (Inr order)
      have "\<forall>p\<in>set order. p \<in> dead st1 \<or> p \<notin> gc_roots env"
        using roots [OF 2] topoSortPaths_set [OF Inr] by (simp add: no_roots_def)
      from delete_all_inv [OF inv this] show ?thesis
        using visit 2 Inr by (auto simp: maybeDeleteReferrersClosure_def split: prod.splits intro: gc_inv_frame)
    qed (use visit 2 inv in \<open>simp add: maybeDeleteReferrersClosure_def gc_inv_frame\<close>)
  qed
qed

lemma collect_specific_inv:
  "gc_inv env db0 st \<Longrightarrow> gc_inv env db0 (snd (collect_specific fuel env paths st))"
proof (induction paths arbitrary: st)
  case (Cons p ps)
  obtain out st1 where one: "maybeDeleteReferrersClosure fuel env p st = (out, st1)" by fastforce
  with maybeDelete_inv [OF Cons.prems, of fuel p] have "gc_inv env db0 st1" by simp
  with Cons.IH one show ?case by (cases out) simp_all
qed simp

text \<open>The names of valid paths are those of store paths.\<close>

definition names_parse :: "gc_env \<Rightarrow> (StorePath, ValidPathInfo) omap \<Rightarrow> bool" where
  "names_parse env db \<longleftrightarrow> (\<forall>p\<in>valid_paths db. maybeParseStorePath (gc_dir env) (storeDir (gc_dir env) @ ''/'' @ baseName p) \<noteq> Inr None)"

lemma collect_whole_inv:
  "gc_inv env db0 st \<Longrightarrow> names_parse env db0 \<Longrightarrow> gc_inv env db0 (snd (collect_whole fuel env names st))"
proof (induction names arbitrary: st)
  case (Cons name names)
  show ?case
  proof (cases "name = ''.'' \<or> name = ''..'' \<or> name = linksName")
    case False
    show ?thesis
    proof (cases "maybeParseStorePath (gc_dir env) (storeDir (gc_dir env) @ ''/'' @ name)")
      case (Inr parsed)
      let ?one = "case parsed of Some p \<Rightarrow> maybeDeleteReferrersClosure fuel env p st | None \<Rightarrow> deleteFromStore env name st"
      have "gc_inv env db0 (snd ?one)"
      proof (cases parsed)
        case None
        have "valid_paths (gc_db st) \<subseteq> valid_paths db0"
          using Cons.prems(1) by (auto simp: gc_inv_def valid_paths_def map_le_def dom_def)
        then have "baseName p \<noteq> name" if "p \<in> valid_paths (gc_db st)" for p
          using that Cons.prems(2) Inr None by (auto simp: names_parse_def)
        then have "gc_inv env db0 (st\<lparr>disk := disk st - {name}\<rparr>)"
          using Cons.prems(1) by (auto simp: gc_inv_def)
        with None deleteFromStore_inv show ?thesis by simp
      qed (use maybeDelete_inv [OF Cons.prems(1)] in simp)
      moreover obtain out st1 where one: "?one = (out, st1)" by fastforce
      ultimately have "gc_inv env db0 st1" by simp
      with Cons.IH [of st1] Cons.prems(2) False Inr one show ?thesis by (cases out) simp_all
    qed (use False Cons.prems in simp)
  qed (use Cons in auto)
qed simp

lemma gc_inv_start:
  assumes "omap_ok db" "db_closed db" "baseName ` valid_paths db \<subseteq> disk0"
  shows "gc_inv env db (gc_start env db disk0)"
  using assms live_valid [OF assms(2)] by (simp add: gc_inv_def gc_start_def arrived_def)

lemma collect_paths_inv:
  assumes "gc_inv env db0 st" "names_parse env db0"
  shows "gc_inv env db0 (snd (collect_paths fuel env names st))"
  using assms collect_specific_inv collect_whole_inv by (auto simp: collect_paths_def split: GCPaths.splits)

lemma collectGarbage_inv:
  assumes "omap_ok db" "db_closed db" "baseName ` valid_paths db \<subseteq> disk0" "names_parse env db"
  shows "gc_inv env db (snd (collectGarbage env names db disk0))"
proof -
  let ?st = "gc_start env db disk0"
  have inv: "gc_inv env db ?st" by (rule gc_inv_start [OF assms(1-3)])
  obtain out st1 where run: "collect_paths (length db + 3) env names ?st = (out, st1)" by fastforce
  with collect_paths_inv [OF inv assms(4)] have "gc_inv env db st1" by (metis snd_conv)
  with inv run show ?thesis
    by (auto simp: collectGarbage_def split: gc_outcome.splits GCAction.splits GCPaths.splits intro: gc_inv_frame)
qed

text \<open>A canonical store directory and valid base names in the database.\<close>

definition wf_store :: "gc_env \<Rightarrow> (StorePath, ValidPathInfo) omap \<Rightarrow> bool" where
  "wf_store env db \<longleftrightarrow> canonical (storeDir (gc_dir env)) \<and> (\<forall>p\<in>valid_paths db. wf_path p)"

lemma wf_store_name:
  assumes "wf_store env db" "p \<in> valid_paths db"
  shows "maybeParseStorePath (gc_dir env) (storeDir (gc_dir env) @ ''/'' @ baseName p) = Inr (Some p)"
  using assms parse_printed [of "gc_dir env" p] by (simp add: wf_store_def maybeParseStorePath_def printStorePath_def)

lemma wf_store_parse: "wf_store env db \<Longrightarrow> names_parse env db"
  by (simp add: names_parse_def wf_store_name del: append_Cons append_Nil)

text \<open>
  C1: Whatever the options, the order of the store directory, the temporary roots that arrive and
  the exception that ends it, a collection of garbage only removes paths from the database, leaves
  it closed under references and the files of its valid paths on disk. Every path that is
  reachable from a root found at the start is still valid; and every path that was valid and
  reachable from a temporary root when the lock was taken for the n-th time, with the root
  registered by then, is still valid at the end.
\<close>

theorem collectGarbage_safe:
  assumes "omap_ok db" "db_closed db" "baseName ` valid_paths db \<subseteq> disk0" "wf_store env db"
    and "collectGarbage env names db disk0 = (err, st)"
  shows "map_of (gc_db st) \<subseteq>\<^sub>m map_of db \<and> db_closed (gc_db st) \<and> baseName ` valid_paths (gc_db st) \<subseteq> disk st \<and>
    live db (gc_roots env) \<subseteq> valid_paths (gc_db st) \<and>
    (\<forall>n<length (history st). temp_live env n (history st ! n) \<subseteq> valid_paths (gc_db st))"
  using collectGarbage_inv [OF assms(1-3) wf_store_parse [OF assms(4)], of names] assms(5) by (simp add: gc_inv_def)

end
