(* ===== verification/GC_Complete.thy ===== *)
theory GC_Complete
  imports GC
begin

text \<open>
  The other half of the garbage collector's contract: a collection of the whole store that no
  process interferes with leaves exactly the paths that are reachable from the roots.
\<close>

section \<open>All garbage is collected\<close>

text \<open>
  A collection of the whole store with the options \<open>keep-outputs\<close> and \<open>keep-derivations\<close> off and
  no root that arrives while it runs. A path is a root for the collector when its hash part is that
  of a temporary root.
\<close>

definition plain_collection :: "gc_env \<Rightarrow> bool" where
  "plain_collection env \<longleftrightarrow> gc_action (gc_options env) = gcDeleteDead \<and> pathsToDelete (gc_options env) = WholeStore \<and>
     \<not> keepOutputs env \<and> \<not> keepDerivations env \<and> arrivals env = (\<lambda>_. {})"

definition all_roots :: "gc_env \<Rightarrow> StorePath set" where
  "all_roots env = {p. p \<in> gc_roots env \<or> StorePath_hashPart p \<in> StorePath_hashPart ` found_temp_roots env}"

definition complete_inv :: "gc_env \<Rightarrow> (StorePath, ValidPathInfo) omap \<Rightarrow> gc_state \<Rightarrow> bool" where
  "complete_inv env db0 st \<longleftrightarrow> gc_inv env db0 st \<and>
     alive st \<inter> valid_paths db0 \<subseteq> live db0 (all_roots env) \<and>
     live db0 (all_roots env) \<subseteq> valid_paths (gc_db st) \<and>
     dead st \<inter> valid_paths (gc_db st) = {} \<and>
     (\<forall>p rs. referrersCache st p = Some rs \<longrightarrow>
        (ref_edges (gc_db st))\<inverse> `` {p} \<subseteq> fset rs \<and> fset rs \<subseteq> (ref_edges db0)\<inverse> `` {p})"

lemma edges_mono: "map_of db \<subseteq>\<^sub>m map_of db0 \<Longrightarrow> ref_edges db \<subseteq> ref_edges db0"
  by (force simp: ref_edges_def map_le_def dom_def)

lemma edge_valid: "(p, q) \<in> ref_edges db \<Longrightarrow> p \<in> valid_paths db"
  by (auto simp: ref_edges_def valid_paths_def)

lemma gc_inv_db: "gc_inv env db0 st \<Longrightarrow> omap_ok (gc_db st) \<and> map_of (gc_db st) \<subseteq>\<^sub>m map_of db0"
  by (simp add: gc_inv_def)

lemma plain_tempRoots:
  assumes "plain_collection env" "gc_inv env db0 st"
  shows "tempRoots st = StorePath_hashPart ` found_temp_roots env"
  using assms by (simp add: plain_collection_def gc_inv_def arrived_def)

lemma live_reaches: "p \<in> live db R \<Longrightarrow> (p, q) \<in> (ref_edges db)\<^sup>* \<Longrightarrow> q \<in> live db R"
  by (auto simp: live_def intro: rtrancl_trans)

text \<open>What a visited path reaches.\<close>

lemma visited_valid: "(p, start) \<in> (ref_edges db)\<^sup>* \<Longrightarrow> start \<in> valid_paths db \<Longrightarrow> p \<in> valid_paths db"
  by (metis converse_rtranclE edge_valid)

lemma gc_edges:
  assumes "queryDeps (gc_queries env st) False False False p = Inr es" "q |\<in>| es"
  shows "(p, q) \<in> ref_edges (gc_db st)"
  using assms by (auto simp: queryDeps_def queryDeps_forward_def gc_queries_def ref_edges_def Let_def ffilter.rep_eq
      split: option.splits)

lemma closure_result_live:
  assumes sub: "ref_edges (gc_db st) \<subseteq> ref_edges db0" and res: "closure_result (gc_queries env st) p False False = Some closure"
  shows "closure \<subseteq> (ref_edges db0)\<^sup>* `` {p}" "is_valid st p"
proof -
  let ?edges = "queryDeps (gc_queries env st) False False False"
  have closure: "closure = reach ?edges {|p|} {}" "\<forall>q\<in>closure. \<exists>es. ?edges q = Inr es"
    using res by (auto simp: closure_result_def Let_def split: if_splits)
  have "q \<in> (ref_edges db0)\<^sup>* `` {p}" if "q \<in> reach ?edges {|p|} {}" for q
    using that
  proof (induction rule: reach.induct)
    case (edge a es b)
    then have "(a, b) \<in> ref_edges db0" using gc_edges sub by blast
    with edge show ?case by (auto intro: rtrancl_into_rtrancl)
  qed auto
  with closure(1) show "closure \<subseteq> (ref_edges db0)\<^sup>* `` {p}" by blast
  have "p \<in> closure" unfolding closure(1) by (rule reach.start) simp_all
  with closure(2) show "is_valid st p"
    by (auto simp: queryDeps_def queryDeps_forward_def gc_queries_def is_valid_def split: option.splits)
qed

lemma gc_queries_frame [simp]:
  "gc_queries env (st\<lparr>alive := a\<rparr>) = gc_queries env st" "gc_queries env (st\<lparr>dead := d\<rparr>) = gc_queries env st"
  by (simp_all add: gc_queries_def is_valid_def [abs_def] valid_derivers_def)

lemma plain_markAlive:
  "plain_collection env \<Longrightarrow> alive (markAlive env p st) = insert p (alive st) \<union>
     (case closure_result (gc_queries env st) p False False of None \<Rightarrow> {} | Some closure \<Rightarrow> closure)"
  by (auto simp: markAlive_def plain_collection_def Let_def split: option.split)

lemma markAlive_alive:
  assumes plain: "plain_collection env" and inv: "complete_inv env db0 st" and p: "p \<in> valid_paths db0 \<longrightarrow> p \<in> live db0 (all_roots env)"
  shows "complete_inv env db0 (markAlive env p st)"
proof -
  have sub: "ref_edges (gc_db st) \<subseteq> ref_edges db0"
    using inv by (intro edges_mono) (simp add: complete_inv_def gc_inv_def)
  have "alive (markAlive env p st) \<inter> valid_paths db0 \<subseteq> live db0 (all_roots env)"
  proof (cases "closure_result (gc_queries env st) p False False")
    case None
    with inv p show ?thesis by (auto simp: plain_markAlive [OF plain] complete_inv_def)
  next
    case (Some closure)
    note res = closure_result_live [OF sub Some]
    have "p \<in> valid_paths db0"
      using res(2) inv by (auto simp: complete_inv_def gc_inv_def is_valid_def valid_paths_def map_le_def dom_def)
    then have "closure \<subseteq> live db0 (all_roots env)" using p res(1) live_reaches by blast
    with Some inv p show ?thesis by (auto simp: plain_markAlive [OF plain] complete_inv_def)
  qed
  moreover have "same_store st (markAlive env p st)" "referrersCache (markAlive env p st) = referrersCache st"
    by (simp_all add: markAlive_def Let_def split: option.split)
  ultimately show ?thesis using inv gc_inv_same unfolding complete_inv_def same_store_def by metis
qed

text \<open>A path that is visited keeps the start alive if it is live.\<close>

lemma complete_start_alive:
  assumes inv: "complete_inv env db0 st" and p: "(p, start) \<in> (ref_edges db0)\<^sup>*"
    and "p \<in> valid_paths db0 \<longrightarrow> p \<in> live db0 (all_roots env)"
  shows "complete_inv env db0 (st\<lparr>alive := insert start (alive st)\<rparr>)"
proof -
  have "start \<in> live db0 (all_roots env)" if "start \<in> valid_paths db0"
    using visited_valid [OF p that] assms(3) live_reaches p by blast
  with inv show ?thesis unfolding complete_inv_def using gc_inv_frame(1) by auto
qed

lemma complete_lock:
  assumes "plain_collection env" "complete_inv env db0 st"
  shows "complete_inv env db0 (lock env st)" "tempRoots (lock env st) = StorePath_hashPart ` found_temp_roots env"
proof -
  have inv: "gc_inv env db0 (lock env st)" using assms(2) gc_inv_lock by (simp add: complete_inv_def)
  with assms(2) show "complete_inv env db0 (lock env st)" by (simp add: complete_inv_def lock_def)
  show "tempRoots (lock env st) = StorePath_hashPart ` found_temp_roots env" by (rule plain_tempRoots [OF assms(1) inv])
qed

lemma complete_cached:
  assumes inv: "complete_inv env db0 st" and cached: "cached_referrers p st = (refs, st')"
  shows "complete_inv env db0 st'" "same_store st st'" "alive st' = alive st"
    "(ref_edges (gc_db st))\<inverse> `` {p} \<subseteq> fset refs" "fset refs \<subseteq> (ref_edges db0)\<inverse> `` {p}"
proof -
  show same: "same_store st st'" by (rule cached_referrers_same [OF cached])
  show "alive st' = alive st" using cached by (auto simp: cached_referrers_def Let_def split: option.splits)
  have db: "omap_ok (gc_db st)" "ref_edges (gc_db st) \<subseteq> ref_edges db0"
    using inv edges_mono by (simp_all add: complete_inv_def gc_inv_def)
  have fresh: "fset (referrers_of (gc_db st) p) = (ref_edges (gc_db st))\<inverse> `` {p}"
    using referrers_iff [OF db(1)] by auto
  show "(ref_edges (gc_db st))\<inverse> `` {p} \<subseteq> fset refs" "fset refs \<subseteq> (ref_edges db0)\<inverse> `` {p}"
    using cached inv fresh db(2) by (auto simp: cached_referrers_def complete_inv_def Let_def split: option.splits)
  moreover have "referrersCache st' = (referrersCache st)(p \<mapsto> refs)"
    using cached by (auto simp: cached_referrers_def Let_def split: option.splits)
  ultimately show "complete_inv env db0 st'"
    using inv same gc_inv_same [OF _ same] \<open>alive st' = alive st\<close> by (simp add: complete_inv_def same_store_def)
qed

definition gc_visit_ok where
  "gc_visit_ok env db0 start vis queue st \<longleftrightarrow> start |\<in>| vis \<and> set queue \<subseteq> fset vis \<and>
     fset vis \<subseteq> ((ref_edges db0)\<^sup>*)\<inverse> `` {start} \<and>
     (\<forall>p\<in>fset vis - set queue. p \<in> dead st \<or> p \<notin> all_roots env \<and> (ref_edges (gc_db st))\<inverse> `` {p} \<subseteq> fset vis)"

lemma gc_visit_ok_enqueue:
  assumes ok: "gc_visit_ok env db0 start vis (p # queue) st" and p: "p \<notin> all_roots env"
    and ps: "(ref_edges (gc_db st))\<inverse> `` {p} \<subseteq> set ps" "set ps \<subseteq> (ref_edges db0)\<inverse> `` {p}"
    and enq: "fold enqueue_path ps (vis, queue) = (vis', queue')"
  shows "gc_visit_ok env db0 start vis' queue' st"
proof -
  note enq = enqueue_paths [OF enq]
  have "q \<in> ((ref_edges db0)\<^sup>*)\<inverse> `` {start}" if "q \<in> set ps" for q
    using that ps(2) ok by (auto simp: gc_visit_ok_def intro: converse_rtrancl_into_rtrancl)
  with ok enq ps(1) p show ?thesis unfolding gc_visit_ok_def by auto
qed

lemma plain_kept: "plain_collection env \<Longrightarrow> kept_with env st p = [] \<and> \<not> not_specified env p \<and> shouldDelete env"
  by (simp add: plain_collection_def kept_with_def not_specified_def shouldDelete_def)

lemma no_referrers_invalid: "gc_inv env db0 st \<Longrightarrow> \<not> is_valid st p \<Longrightarrow> (ref_edges (gc_db st))\<inverse> `` {p} = {}"
proof -
  assume "gc_inv env db0 st" "\<not> is_valid st p"
  then have "db_closed (gc_db st)" "p \<notin> valid_paths (gc_db st)" by (auto simp: gc_inv_def is_valid_def valid_paths_def)
  then show ?thesis using edge_valid [of _ p "gc_db st"] by (auto simp: db_closed_def)
qed

lemma visit_one_stops:
  assumes plain: "plain_collection env" and inv: "complete_inv env db0 st" and ok: "gc_visit_ok env db0 start vis (p # queue) st"
    and one: "visit_one env start p vis queue st = (None, st')"
  shows "complete_inv env db0 st'" "start \<in> alive st'"
proof -
  have p: "(p, start) \<in> (ref_edges db0)\<^sup>*" using ok by (auto simp: gc_visit_ok_def)
  note locked = complete_lock [OF plain inv]
  have root_live: "p \<in> valid_paths db0 \<longrightarrow> p \<in> live db0 (all_roots env)" if "p \<in> all_roots env"
    using that by (auto simp: live_def)
  consider (alive) "p \<in> alive st" "st' = st\<lparr>alive := insert start (alive st)\<rparr>"
    | (root) "p \<in> all_roots env" "st' = markAlive env p (st\<lparr>alive := insert start (alive st)\<rparr>)"
    | (temp) "p \<in> all_roots env" "st' = markAlive env p (lock env st\<lparr>alive := insert start (alive (lock env st))\<rparr>)"
    using one plain_kept [OF plain, of st p] locked(2)
    by (auto simp: visit_one_def all_roots_def Let_def split: if_splits prod.splits)
  then have "complete_inv env db0 st' \<and> start \<in> alive st'"
  proof cases
    case alive
    have "p \<in> valid_paths db0 \<longrightarrow> p \<in> live db0 (all_roots env)" using alive(1) inv by (auto simp: complete_inv_def)
    from complete_start_alive [OF inv p this] alive(2) show ?thesis by simp
  next
    case root
    from complete_start_alive [OF inv p root_live [OF root(1)]] markAlive_alive [OF plain _ root_live [OF root(1)]] root(2)
    show ?thesis by (simp add: plain_markAlive [OF plain])
  next
    case temp
    from complete_start_alive [OF locked(1) p root_live [OF temp(1)]] markAlive_alive [OF plain _ root_live [OF temp(1)]] temp(2)
    show ?thesis by (simp add: plain_markAlive [OF plain])
  qed
  then show "complete_inv env db0 st'" "start \<in> alive st'" by blast+
qed

lemma visit_one_goes_on:
  assumes plain: "plain_collection env" and inv: "complete_inv env db0 st" and ok: "gc_visit_ok env db0 start vis (p # queue) st"
    and one: "visit_one env start p vis queue st = (Some (vis', queue'), st')"
  shows "complete_inv env db0 st'" "gc_visit_ok env db0 start vis' queue' st'"
proof -
  note locked = complete_lock [OF plain inv]
  let ?st = "lock env st\<lparr>gc_pending := Some (StorePath_hashPart p)\<rparr>"
  have pend: "complete_inv env db0 ?st" using locked(1) gc_inv_frame(2) by (simp add: complete_inv_def)
  have ok_st: "gc_visit_ok env db0 start vis (p # queue) ?st" using ok by (simp add: gc_visit_ok_def)
  consider (dead) "p \<in> dead st" "vis' = vis" "queue' = queue" "st' = st"
    | (invalid) "p \<notin> all_roots env" "\<not> is_valid ?st p" "vis' = vis" "queue' = queue" "st' = ?st"
    | (valid) refs where "p \<notin> all_roots env" "cached_referrers p ?st = (refs, st')"
        "fold enqueue_path (sorted_list_of_fset refs) (vis, queue) = (vis', queue')"
  proof (cases "p \<in> dead st")
    case True
    with one that(1) show ?thesis by (auto simp: visit_one_def split: if_splits)
  next
    case False
    have stay: "p \<notin> alive st" "p \<notin> gc_roots env" "StorePath_hashPart p \<notin> tempRoots (lock env st)"
      using one False by (auto simp: visit_one_def Let_def split: if_splits)
    then have p: "p \<notin> all_roots env" using locked(2) by (simp add: all_roots_def)
    show ?thesis
    proof (cases "is_valid ?st p")
      case False
      have "visit_one env start p vis queue st = (Some (vis, queue), ?st)"
        using stay \<open>p \<notin> dead st\<close> False by (simp add: visit_one_def Let_def plain_kept [OF plain])
      with one have "vis' = vis" "queue' = queue" "st' = ?st" by simp_all
      with p False show ?thesis by (rule that(2))
    next
      case True
      obtain refs st1 where cached: "cached_referrers p ?st = (refs, st1)" by fastforce
      then have "visit_one env start p vis queue st = (Some (fold enqueue_path (sorted_list_of_fset refs) (vis, queue)), st1)"
        using stay \<open>p \<notin> dead st\<close> True by (simp add: visit_one_def Let_def plain_kept [OF plain])
      with one cached have "fold enqueue_path (sorted_list_of_fset refs) (vis, queue) = (vis', queue')" "cached_referrers p ?st = (refs, st')"
        by simp_all
      with that(3) p show ?thesis by blast
    qed
  qed
  then have "complete_inv env db0 st' \<and> gc_visit_ok env db0 start vis' queue' st'"
  proof cases
    case dead
    with inv ok show ?thesis by (auto simp: gc_visit_ok_def)
  next
    case invalid
    have "(ref_edges (gc_db ?st))\<inverse> `` {p} = {}"
      by (rule no_referrers_invalid [of env db0, OF _ invalid(2)]) (use pend in \<open>simp add: complete_inv_def\<close>)
    with pend ok_st invalid show ?thesis by (auto simp: gc_visit_ok_def)
  next
    case valid
    note cached = complete_cached [OF pend valid(2)]
    have "gc_visit_ok env db0 start vis' queue' ?st"
      by (rule gc_visit_ok_enqueue [OF ok_st valid(1) _ _ valid(3)]) (use cached(4,5) in simp_all)
    with cached(1,2) show ?thesis by (simp add: gc_visit_ok_def same_store_def)
  qed
  then show "complete_inv env db0 st'" "gc_visit_ok env db0 start vis' queue' st'" by blast+
qed

lemma visit_complete:
  assumes plain: "plain_collection env" and "complete_inv env db0 st" "gc_visit_ok env db0 start vis queue st"
    and "visit_referrers n env start vis queue st = (r, st')"
  shows "(r = Inr None \<longrightarrow> complete_inv env db0 st' \<and> start \<in> alive st') \<and>
    (\<forall>vis'. r = Inr (Some vis') \<longrightarrow> complete_inv env db0 st' \<and> gc_visit_ok env db0 start vis' [] st')"
  using assms(2-)
proof (induction n arbitrary: vis queue st)
  case (Suc n)
  show ?case
  proof (cases queue)
    case (Cons p ps)
    obtain o1 st1 where one: "visit_one env start p vis ps st = (o1, st1)" by fastforce
    show ?thesis
    proof (cases o1)
      case None
      with visit_one_stops [OF plain Suc.prems(1)] Suc.prems(2,3) Cons one show ?thesis by auto
    next
      case (Some vq)
      then obtain vis1 queue1 where vq: "o1 = Some (vis1, queue1)" by (cases vq) simp
      with visit_one_goes_on [OF plain Suc.prems(1)] Suc.prems(2) Cons one
      have "complete_inv env db0 st1" "gc_visit_ok env db0 start vis1 queue1 st1" by blast+
      with Suc.IH Suc.prems(3) Cons one vq show ?thesis by simp
    qed
  qed (use Suc.prems in auto)
qed auto

section \<open>Deleting everything visited\<close>

text \<open>An order in which every path is dead or has only dead and earlier referrers.\<close>

fun deletable :: "gc_env \<Rightarrow> (StorePath, ValidPathInfo) omap \<Rightarrow> StorePath set \<Rightarrow> StorePath list \<Rightarrow> bool" where
  "deletable env db D [] \<longleftrightarrow> True"
| "deletable env db D (p # ps) \<longleftrightarrow>
     (p \<in> D \<or> p \<notin> all_roots env \<and> (ref_edges db)\<inverse> `` {p} \<subseteq> insert p D) \<and> deletable env db (insert p D) ps"

lemma deletable_mono:
  "deletable env db D ps \<Longrightarrow> ref_edges db' \<subseteq> ref_edges db \<Longrightarrow> D \<subseteq> D' \<Longrightarrow> deletable env db' D' ps"
proof (induction ps arbitrary: D D')
  case (Cons p ps)
  have "p \<in> D' \<or> p \<notin> all_roots env \<and> (ref_edges db')\<inverse> `` {p} \<subseteq> insert p D'" using Cons.prems by auto
  moreover have "deletable env db' (insert p D') ps" using Cons.IH [of "insert p D" "insert p D'"] Cons.prems by auto
  ultimately show ?case by simp
qed simp

lemma deletable_topological:
  assumes "\<forall>p\<in>set ps. p \<in> D \<or> p \<notin> all_roots env \<and> (ref_edges db)\<inverse> `` {p} \<subseteq> D \<union> set ps"
    and "\<And>xs p ys q. ps = xs @ p # ys \<Longrightarrow> q \<in> set ys \<Longrightarrow> (q, p) \<notin> ref_edges db"
  shows "deletable env db D ps"
  using assms
proof (induction ps arbitrary: D)
  case (Cons p ps)
  have "(q, p) \<notin> ref_edges db" if "q \<in> set ps" for q using Cons.prems(2) [of "[]" p ps] that by simp
  with Cons.prems(1) have p: "p \<in> D \<or> p \<notin> all_roots env \<and> (ref_edges db)\<inverse> `` {p} \<subseteq> insert p D" by auto
  have "deletable env db (insert p D) ps"
  proof (rule Cons.IH)
    show "\<forall>x\<in>set ps. x \<in> insert p D \<or> x \<notin> all_roots env \<and> (ref_edges db)\<inverse> `` {x} \<subseteq> insert p D \<union> set ps"
      using Cons.prems(1) by auto
    show "(q, x) \<notin> ref_edges db" if "ps = xs @ x # ys" "q \<in> set ys" for xs x ys q
      using Cons.prems(2) [of "p # xs" x ys] that by simp
  qed
  with p show ?case by simp
qed simp

lemma invalidate_succeeds:
  assumes "omap_ok db" "(ref_edges db)\<inverse> `` {p} \<subseteq> {p}"
  shows "invalidatePathChecked p db = Some (map_erase p db)"
proof -
  have "ffilter (\<lambda>q. q \<noteq> p) (referrers_of db p) = {||}"
    using referrers_iff [OF assms(1), of _ p] assms(2) by (auto simp: ffilter.rep_eq simp flip: fset_inject)
  then show ?thesis by (simp add: invalidatePathChecked_def)
qed

lemma deleteOne_frame:
  assumes "invalidatePathChecked p (gc_db st) = Some db" "deleteOne env p st = (out, st')"
  shows "gc_db st' = db" "alive st' = alive st" "dead st' = dead st"
    "referrersCache st' = referrersCache st \<or> referrersCache st' = (referrersCache st)(p := None)"
    "out = Continue \<or> out = LimitReached \<and> maxFreed (gc_options env) < bytesFreed st'"
  using assms by (auto simp: deleteOne_def deleteFromStore_def Let_def split: if_splits)

lemma delete_one_complete:
  assumes plain: "plain_collection env" and inv: "complete_inv env db0 st"
    and p: "p \<notin> all_roots env" "(ref_edges (gc_db st))\<inverse> `` {p} \<subseteq> insert p (dead st)"
    and one: "deleteOne env p (lock env (st\<lparr>dead := insert p (dead st)\<rparr>)\<lparr>gc_pending := h\<rparr>) = (out, st')"
  shows "complete_inv env db0 st'" "dead st' = insert p (dead st)" "map_of (gc_db st') \<subseteq>\<^sub>m map_of (gc_db st)"
    "out = Continue \<or> out = LimitReached \<and> maxFreed (gc_options env) < bytesFreed st'"
proof -
  let ?st = "lock env (st\<lparr>dead := insert p (dead st)\<rparr>)\<lparr>gc_pending := h\<rparr>"
  have g: "gc_inv env db0 st" "dead st \<inter> valid_paths (gc_db st) = {}" using inv by (simp_all add: complete_inv_def)
  then have ok: "omap_ok (gc_db st)" by (simp add: gc_inv_def)
  have root: "p \<notin> gc_roots env" using p(1) by (simp add: all_roots_def)
  have inv': "gc_inv env db0 ?st" by (intro gc_inv_frame(2) gc_inv_lock gc_inv_dead g root)
  have "(ref_edges (gc_db st))\<inverse> `` {p} \<subseteq> {p}" using p(2) g(2) edge_valid by fastforce
  from invalidate_succeeds [OF ok this]
  have erase: "invalidatePathChecked p (gc_db ?st) = Some (map_erase p (gc_db st))" by simp
  note frame = deleteOne_frame [OF erase one]
  have temp: "StorePath_hashPart p \<notin> tempRoots ?st"
    using plain_tempRoots [OF plain inv'] p(1) by (auto simp: all_roots_def)
  have inv'': "gc_inv env db0 st'" using deleteOne_inv(1) [OF inv' root temp] one by simp
  have db: "map_of (gc_db st') = (map_of (gc_db st))(p := None)" using frame(1) map_of_erase [OF ok] by (auto simp: fun_eq_iff)
  then show sub: "map_of (gc_db st') \<subseteq>\<^sub>m map_of (gc_db st)" by (simp add: map_le_def)
  show dead: "dead st' = insert p (dead st)" using frame(3) by simp
  have "dead st' \<inter> valid_paths (gc_db st') = {}" using g(2) by (auto simp: dead db valid_paths_def)
  moreover have cache: "referrersCache st q = Some rs" if "referrersCache st' q = Some rs" for q rs
    using that frame(4) by (auto simp: lock_def split: if_splits)
  have "(ref_edges (gc_db st'))\<inverse> `` {q} \<subseteq> fset rs \<and> fset rs \<subseteq> (ref_edges db0)\<inverse> `` {q}"
    if "referrersCache st' q = Some rs" for q rs
    using inv cache [OF that] edges_mono [OF sub] unfolding complete_inv_def by blast
  moreover have "alive st' = alive st" using frame(2) by simp
  moreover have "live db0 (all_roots env) \<subseteq> valid_paths (gc_db st')"
    by (rule invalidate_supported [OF ok _ _ live_supported _ p(1)]) (use erase frame(1) g inv in \<open>simp_all add: gc_inv_def complete_inv_def\<close>)
  ultimately show "complete_inv env db0 st'"
    using inv inv'' by (simp add: complete_inv_def)
  show "out = Continue \<or> out = LimitReached \<and> maxFreed (gc_options env) < bytesFreed st'" by (rule frame(5))
qed

lemma delete_all_complete:
  assumes plain: "plain_collection env" and "complete_inv env db0 st" "deletable env (gc_db st) (dead st) order"
    and "delete_all env order st = (out, st')"
  shows "out = Continue \<and> complete_inv env db0 st' \<and> dead st' = dead st \<union> set order \<or>
    out = LimitReached \<and> maxFreed (gc_options env) < bytesFreed st'"
  using assms(2-)
proof (induction order arbitrary: st)
  case (Cons p ps)
  show ?case
  proof (cases "p \<in> dead st")
    case True
    with Cons show ?thesis by (auto simp: insert_absorb)
  next
    case False
    let ?l = "lock env (st\<lparr>dead := insert p (dead st)\<rparr>)"
    obtain o1 st1 where one: "deleteOne env p (?l\<lparr>gc_pending := Some (StorePath_hashPart p)\<rparr>) = (o1, st1)" by fastforce
    have p: "p \<notin> all_roots env" "(ref_edges (gc_db st))\<inverse> `` {p} \<subseteq> insert p (dead st)" "deletable env (gc_db st) (insert p (dead st)) ps"
      using Cons.prems(2) False by auto
    note step = delete_one_complete [OF plain Cons.prems(1) p(1,2) one]
    have "tempRoots ?l = tempRoots (lock env st)" by (simp add: lock_def)
    then have temp: "StorePath_hashPart p \<notin> tempRoots ?l"
      using complete_lock(2) [OF plain Cons.prems(1)] p(1) by (auto simp: all_roots_def)
    have run: "delete_all env (p # ps) st = (case (o1, st1) of (Continue, st) \<Rightarrow> delete_all env ps (st\<lparr>gc_pending := None\<rparr>)
        | (out, st) \<Rightarrow> (out, st\<lparr>gc_pending := None\<rparr>))"
      using False temp one plain_kept [OF plain] by (simp add: Let_def)
    show ?thesis
    proof (cases "o1 = Continue")
      case True
      let ?st1 = "st1\<lparr>gc_pending := None\<rparr>"
      have "complete_inv env db0 ?st1" using step(1) gc_inv_frame(2) by (simp add: complete_inv_def)
      moreover have "deletable env (gc_db ?st1) (dead ?st1) ps"
        using deletable_mono [OF p(3) edges_mono [OF step(3)] order_refl] step(2) by simp
      moreover have "delete_all env ps ?st1 = (out, st')" using run True Cons.prems(3) by simp
      ultimately show ?thesis using Cons.IH [of ?st1] step(2) by auto
    next
      case False
      with step(4) run Cons.prems(3) show ?thesis by auto
    qed
  qed
qed simp

lemma visit_order:
  assumes inv: "complete_inv env db0 st" and ok: "gc_visit_ok env db0 start vis [] st"
    and sorted: "topoSortPaths (gc_queries env st) vis = Inr order"
  shows "deletable env (gc_db st) (dead st) order" "set order = fset vis"
proof -
  let ?E = "child_edges (fset vis) (known_references (gc_queries env st))"
  obtain l where "topoSort vis (known_references (gc_queries env st)) = Inr (Inl l)" "l = order"
    using sorted by (cases "topoSort vis (known_references (gc_queries env st))") (auto simp: topoSortPaths_def split: sum.splits)
  with topoSort_sorted have order: "distinct order" "set order = fset vis" "\<And>xs p ys. order = xs @ p # ys \<Longrightarrow> ?E `` {p} \<subseteq> set ys"
    by blast+
  show "set order = fset vis" by (rule order(2))
  show "deletable env (gc_db st) (dead st) order"
  proof (rule deletable_topological)
    show "\<forall>p\<in>set order. p \<in> dead st \<or> p \<notin> all_roots env \<and> (ref_edges (gc_db st))\<inverse> `` {p} \<subseteq> dead st \<union> set order"
      using ok by (auto simp: gc_visit_ok_def order(2))
    show "(q, p) \<notin> ref_edges (gc_db st)" if order_split: "order = xs @ p # ys" and q: "q \<in> set ys" for xs p ys q
    proof
      assume "(q, p) \<in> ref_edges (gc_db st)"
      moreover have "p \<noteq> q" "p \<in> fset vis" "q \<in> fset vis" using order_split q order(1) by (auto simp flip: order(2))
      ultimately have "(q, p) \<in> ?E"
        by (auto simp: child_edges_def known_references_def gc_queries_def ref_edges_def)
      obtain ys1 ys2 where "ys = ys1 @ q # ys2" using q by (meson split_list)
      then have split: "order = (xs @ p # ys1) @ q # ys2" using order_split by simp
      from order(3) [OF this] \<open>(q, p) \<in> ?E\<close> order(1) split show False by auto
    qed
  qed
qed

lemma maybeDelete_complete:
  assumes plain: "plain_collection env" and inv: "complete_inv env db0 st"
    and run: "maybeDeleteReferrersClosure fuel env start st = (out, st')"
  shows "out = Continue \<and> complete_inv env db0 st' \<and> start \<in> alive st' \<union> dead st' \<or>
    out = LimitReached \<and> maxFreed (gc_options env) < bytesFreed st' \<or> (\<exists>e. out = Thrown e)"
proof -
  obtain r st1 where visit: "visit_referrers fuel env start {|start|} [start] st = (r, st1)" by fastforce
  have "gc_visit_ok env db0 start {|start|} [start] st" by (auto simp: gc_visit_ok_def)
  from visit_complete [OF plain inv this visit]
  consider (alive) "r = Inr None" "complete_inv env db0 st1" "start \<in> alive st1"
    | (all) vis where "r = Inr (Some vis)" "complete_inv env db0 st1" "gc_visit_ok env db0 start vis [] st1" | (err) e where "r = Inl e"
    by (metis old.sum.exhaust option.exhaust)
  then show ?thesis
  proof cases
    case alive
    with run visit have "out = Continue" "st' = st1\<lparr>gc_pending := None\<rparr>" by (simp_all add: maybeDeleteReferrersClosure_def)
    with alive gc_inv_frame(2) show ?thesis by (simp add: complete_inv_def)
  next
    case all
    show ?thesis
    proof (cases "topoSortPaths (gc_queries env st1) vis")
      case (Inr order)
      note order = visit_order [OF all(2,3) Inr]
      obtain o1 st2 where del: "delete_all env order st1 = (o1, st2)" by fastforce
      with run visit all(1) Inr have "out = o1" "st' = st2\<lparr>gc_pending := None\<rparr>" by (simp_all add: maybeDeleteReferrersClosure_def)
      moreover have "start |\<in>| vis" using all(3) by (simp add: gc_visit_ok_def)
      ultimately show ?thesis
        using delete_all_complete [OF plain all(2) order(1) del] order(2) gc_inv_frame(2) by (auto simp: complete_inv_def)
    qed (use run visit all(1) in \<open>auto simp: maybeDeleteReferrersClosure_def\<close>)
  qed (use run visit in \<open>auto simp: maybeDeleteReferrersClosure_def\<close>)
qed

section \<open>A collection ends\<close>

text \<open>What is in the database and in the cache of referrers was in the database at the start.\<close>

definition within :: "StorePath set \<Rightarrow> gc_state \<Rightarrow> bool" where
  "within V st \<longleftrightarrow> omap_ok (gc_db st) \<and> valid_paths (gc_db st) \<subseteq> V \<and>
     (\<forall>p rs. referrersCache st p = Some rs \<longrightarrow> fset rs \<subseteq> V)"

lemma within_frame:
  "within V st \<Longrightarrow> gc_db st' = gc_db st \<Longrightarrow> referrersCache st' = referrersCache st \<Longrightarrow> within V st'"
  by (simp add: within_def)

lemma markAlive_frame [simp]:
  "gc_db (markAlive env p st) = gc_db st" "referrersCache (markAlive env p st) = referrersCache st"
  "referrersCache (lock env st) = referrersCache st"
  by (simp_all add: markAlive_def lock_def Let_def split: option.split)

lemma cached_within:
  assumes "within V st" "cached_referrers p st = (refs, st')"
  shows "within V st'" "fset refs \<subseteq> V" "gc_db st' = gc_db st"
proof -
  have fresh: "fset (referrers_of (gc_db st) p) \<subseteq> V"
    using assms(1) referrers_iff [of "gc_db st" _ p] edge_valid unfolding within_def by blast
  have "referrersCache st p = Some refs \<and> st' = st \<or>
      refs = referrers_of (gc_db st) p \<and> st' = st\<lparr>referrersCache := (referrersCache st)(p \<mapsto> refs)\<rparr>"
    using assms(2) by (auto simp: cached_referrers_def Let_def split: option.splits)
  with assms(1) fresh have "within V st' \<and> fset refs \<subseteq> V \<and> gc_db st' = gc_db st"
    unfolding within_def by (elim disjE) (blast, simp)
  then show "within V st'" "fset refs \<subseteq> V" "gc_db st' = gc_db st" by blast+
qed

lemma kept_valid: "q \<in> set (kept_with env st p) \<Longrightarrow> is_valid st q"
  by (auto simp: kept_with_def valid_derivers_def ffilter.rep_eq split: if_splits)

lemma kept_within: "within V st \<Longrightarrow> set (kept_with env st p) \<subseteq> V"
  using kept_valid [of _ env st p] by (fastforce simp: within_def is_valid_def valid_paths_def)

lemma enqueue_measure:
  assumes "finite W" "fset vis \<subseteq> W" "set ps \<subseteq> W" "fold enqueue_path ps (vis, queue) = (vis', queue')"
  shows "fset vis' \<subseteq> W \<and> length queue' + card (W - fset vis') = length queue + card (W - fset vis)"
  using assms(2-)
proof (induction ps arbitrary: vis queue)
  case (Cons p ps)
  show ?case
  proof (cases "p |\<in>| vis")
    case True
    with Cons show ?thesis by (simp add: enqueue_path_def)
  next
    case False
    then have enq: "enqueue_path p (vis, queue) = (finsert p vis, queue @ [p])" by (simp add: enqueue_path_def)
    have "W - fset (finsert p vis) = W - fset vis - {p}" by auto
    moreover have "card (W - fset vis) = Suc (card (W - fset vis - {p}))"
      by (rule card.remove) (use assms(1) False Cons.prems(2) in auto)
    ultimately have measure: "card (W - fset vis) = Suc (card (W - fset (finsert p vis)))" by metis
    have sub: "fset (finsert p vis) \<subseteq> W" "set ps \<subseteq> W" using Cons.prems(1,2) by auto
    have "fold enqueue_path ps (finsert p vis, queue @ [p]) = (vis', queue')" using Cons.prems(3) enq by simp
    from Cons.IH [OF sub this] show ?thesis unfolding measure by simp
  qed
qed simp

lemma visit_one_measure:
  assumes V: "finite V" and st: "within V st" and vis: "fset vis \<subseteq> insert start V"
    and one: "visit_one env start p vis queue st = (r, st')"
  shows "within V st'" "r = Some (vis', queue') \<Longrightarrow> fset vis' \<subseteq> insert start V \<and>
    length queue' + card (insert start V - fset vis') = length queue + card (insert start V - fset vis)"
proof -
  let ?l = "lock env st\<lparr>gc_pending := Some (StorePath_hashPart p)\<rparr>"
  have l: "within V ?l" by (rule within_frame [OF st]) simp_all
  obtain refs st1 where cached: "cached_referrers p ?l = (refs, st1)" by fastforce
  note c = cached_within [OF l cached]
  let ?ps = "sorted_list_of_fset refs @ kept_with env st1 p"
  have ps: "set ?ps \<subseteq> insert start V" using c(2) kept_within [OF c(1)] by auto
  consider "gc_db st' = gc_db st" "referrersCache st' = referrersCache st" "r = None \<or> r = Some (vis, queue)"
    | "st' = st1" "r = Some (fold enqueue_path ?ps (vis, queue))"
  proof (cases "p \<in> alive st \<or> p \<in> dead st \<or> p \<in> gc_roots env \<or> not_specified env p")
    case True
    have "gc_db st' = gc_db st \<and> referrersCache st' = referrersCache st \<and> (r = None \<or> r = Some (vis, queue))"
      using one True by (auto simp: visit_one_def split: if_splits)
    then show ?thesis by (intro that(1)) blast+
  next
    case False
    then have rest: "visit_one env start p vis queue st =
        (if StorePath_hashPart p \<in> tempRoots (lock env st)
         then (None, markAlive env p (lock env st\<lparr>alive := insert start (alive (lock env st))\<rparr>))
         else if is_valid ?l p then (Some (fold enqueue_path ?ps (vis, queue)), st1) else (Some (vis, queue), ?l))"
      by (simp add: visit_one_def Let_def cached del: fold_append)
    show ?thesis
    proof (cases "StorePath_hashPart p \<notin> tempRoots (lock env st) \<and> is_valid ?l p")
      case True
      with rest one that(2) show ?thesis by (simp del: fold_append)
    next
      case False
      with rest one have "gc_db st' = gc_db st \<and> referrersCache st' = referrersCache st \<and> (r = None \<or> r = Some (vis, queue))"
        by (auto simp del: fold_append split: if_splits)
      then show ?thesis by (intro that(1)) blast+
    qed
  qed
  then have "within V st' \<and> (r = Some (vis', queue') \<longrightarrow> fset vis' \<subseteq> insert start V \<and>
    length queue' + card (insert start V - fset vis') = length queue + card (insert start V - fset vis))"
  proof cases
    case 1
    with within_frame [OF st 1(1,2)] vis show ?thesis by auto
  next
    case 2
    with c(1) enqueue_measure [OF _ vis ps] V show ?thesis by (simp del: fold_append set_append)
  qed
  then show "within V st'" "r = Some (vis', queue') \<Longrightarrow> fset vis' \<subseteq> insert start V \<and>
    length queue' + card (insert start V - fset vis') = length queue + card (insert start V - fset vis)" by blast+
qed

lemma visit_ends:
  assumes V: "finite V"
  shows "within V st \<Longrightarrow> fset vis \<subseteq> insert start V \<Longrightarrow> length queue + card (insert start V - fset vis) < n \<Longrightarrow>
    visit_referrers n env start vis queue st = (r, st') \<Longrightarrow> within V st' \<and> (\<forall>e. r \<noteq> Inl e)"
proof (induction n arbitrary: vis queue st)
  case (Suc n)
  show ?case
  proof (cases queue)
    case (Cons p ps)
    obtain o1 st1 where one: "visit_one env start p vis ps st = (o1, st1)" by fastforce
    show ?thesis
    proof (cases o1)
      case None
      with Suc.prems Cons one visit_one_measure(1) [OF V Suc.prems(1,2) one] show ?thesis by auto
    next
      case (Some vq)
      then obtain vis1 queue1 where vq: "o1 = Some (vis1, queue1)" by (cases vq) simp
      note step = visit_one_measure [OF V Suc.prems(1,2) one]
      have "length queue1 + card (insert start V - fset vis1) < n" using step(2) [OF vq] Suc.prems(3) Cons by simp
      moreover have "fset vis1 \<subseteq> insert start V" using step(2) [OF vq] by blast
      moreover have "visit_referrers n env start vis1 queue1 st1 = (r, st')" using Suc.prems(4) Cons one vq by simp
      ultimately show ?thesis using Suc.IH [OF step(1)] by blast
    qed
  qed (use Suc.prems in auto)
qed simp

lemma deleteFromStore_frame:
  "deleteFromStore env name st = (out, st') \<Longrightarrow>
     gc_db st' = gc_db st \<and> referrersCache st' = referrersCache st \<and> (\<forall>e. out \<noteq> Thrown e)"
  by (auto simp: deleteFromStore_def Let_def split: if_splits)

lemma deleteOne_within:
  assumes st: "within V st" and one: "deleteOne env p st = (out, st')"
  shows "within V st' \<and> (\<forall>e. out \<noteq> Thrown e)"
proof (cases "invalidatePathChecked p (gc_db st)")
  case (Some db)
  obtain o1 st1 where del: "deleteFromStore env (baseName p) (st\<lparr>gc_db := db\<rparr>) = (o1, st1)" by fastforce
  note frame = deleteFromStore_frame [OF del]
  have ok: "omap_ok (gc_db st)" using st by (simp add: within_def)
  have "valid_paths db \<subseteq> valid_paths (gc_db st)"
    using invalidate_edges(2) [OF ok Some] by (auto simp: valid_paths_def split: if_splits)
  then have "within V st1"
    using st frame invalidate_edges(1) [OF ok Some] unfolding within_def by auto
  then have "within V (st1\<lparr>referrersCache := (referrersCache st1)(p := None)\<rparr>)" by (simp add: within_def)
  with \<open>within V st1\<close> Some del one frame show ?thesis by (cases o1) (auto simp: deleteOne_def)
qed (use assms in \<open>simp add: deleteOne_def\<close>)

lemma delete_all_within:
  "within V st \<Longrightarrow> delete_all env ps st = (out, st') \<Longrightarrow> within V st' \<and> (\<forall>e. out \<noteq> Thrown e)"
proof (induction ps arbitrary: st)
  case (Cons p ps)
  let ?st = "st\<lparr>dead := insert p (dead st)\<rparr>"
  let ?l = "lock env ?st"
  have dead: "within V ?st" by (rule within_frame [OF Cons.prems(1)]) simp_all
  consider (dead) "p \<in> dead st" | (keep) "p \<notin> dead st" "\<not> shouldDelete env"
    | (temp) "p \<notin> dead st" "shouldDelete env" "StorePath_hashPart p \<in> tempRoots ?l"
    | (delete) "p \<notin> dead st" "shouldDelete env" "StorePath_hashPart p \<notin> tempRoots ?l" by blast
  then show ?case
  proof cases
    case temp
    have "within V (markAlive env p ?l)" by (rule within_frame [OF dead]) simp_all
    with Cons temp show ?thesis by (simp add: Let_def)
  next
    case delete
    obtain o1 st1 where one: "deleteOne env p (?l\<lparr>gc_pending := Some (StorePath_hashPart p)\<rparr>) = (o1, st1)" by fastforce
    have "within V (?l\<lparr>gc_pending := Some (StorePath_hashPart p)\<rparr>)" by (rule within_frame [OF dead]) simp_all
    note step = deleteOne_within [OF this one]
    have "within V (st1\<lparr>gc_pending := None\<rparr>)" using step by (simp add: within_def)
    with Cons delete one step show ?thesis by (cases o1) (auto simp: Let_def)
  qed (use Cons dead in simp_all)
qed simp

lemma gc_topoSort_error:
  assumes "topoSortPaths (gc_queries env st) vis = Inl e"
  shows "e = GenericError ''cycle detected in the references'' \<and> \<not> acyclic (ref_edges (gc_db st) - Id)"
proof -
  let ?q = "known_references (gc_queries env st)"
  have children: "\<And>x e. ?q x \<noteq> Inl e" by (simp add: known_references_def gc_queries_def split: option.split)
  have edges: "child_edges (fset vis) ?q \<subseteq> ref_edges (gc_db st) - Id"
    by (auto simp: child_edges_def known_references_def gc_queries_def ref_edges_def split: option.splits)
  from topoSort_correctness [of vis ?q] children assms
  obtain c where c: "topoSort vis ?q = Inr (Inr c)" "real_cycle (child_edges (fset vis) ?q) c"
    by (cases "topoSort vis ?q") (auto simp: topoSortPaths_def split: sum.splits)
  then have "\<not> acyclic (child_edges (fset vis) ?q)"
    unfolding real_cycle_def acyclic_def by (meson rtrancl_into_trancl1)
  with edges acyclic_subset have "\<not> acyclic (ref_edges (gc_db st) - Id)" by blast
  with c(1) assms show ?thesis by (simp add: topoSortPaths_def)
qed

lemma maybeDelete_within:
  assumes V: "finite V" "card V + 2 \<le> fuel" and st: "within V st"
    and run: "maybeDeleteReferrersClosure fuel env start st = (out, st')"
  shows "within V st' \<and> (\<forall>e. out = Thrown e \<longrightarrow>
    e = GenericError ''cycle detected in the references'' \<and> \<not> acyclic (ref_edges (gc_db st') - Id))"
proof -
  obtain r st1 where visit: "visit_referrers fuel env start {|start|} [start] st = (r, st1)" by fastforce
  have "card (insert start V - {start}) \<le> card V" by (rule card_mono) (use V in auto)
  then have "length [start] + card (insert start V - fset {|start|}) < fuel" using V(2) by simp
  from visit_ends [OF V(1) st _ this visit] have st1: "within V st1" "\<And>e. r \<noteq> Inl e" by auto
  have pend: "within V (s\<lparr>gc_pending := h\<rparr>)" if "within V s" for s h by (rule within_frame [OF that]) simp_all
  consider (alive) "r = Inr None" | (all) vis where "r = Inr (Some vis)" using st1(2) by (metis old.sum.exhaust option.exhaust)
  then show ?thesis
  proof cases
    case all
    show ?thesis
    proof (cases "topoSortPaths (gc_queries env st1) vis")
      case (Inl e)
      with run visit all gc_topoSort_error [OF Inl] pend [OF st1(1)] show ?thesis by (auto simp: maybeDeleteReferrersClosure_def)
    next
      case (Inr order)
      obtain o1 st2 where del: "delete_all env order st1 = (o1, st2)" by fastforce
      with run visit all Inr delete_all_within [OF st1(1) del] pend show ?thesis
        by (auto simp: maybeDeleteReferrersClosure_def)
    qed
  qed (use run visit pend [OF st1(1)] in \<open>auto simp: maybeDeleteReferrersClosure_def\<close>)
qed

text \<open>Parsing a name never fails an assertion.\<close>

lemma parseStorePath_no_assertion: "parseStorePath cfg s \<noteq> Inl (AssertionFailed m)"
proof (cases "s = []")
  case False
  have "checkPathName b n \<noteq> Inl (AssertionFailed m)" for b n
    using checkPathName_error [of n b] checkPathName_iff [of b n] by fastforce
  then have "StorePath_of b \<noteq> Inl (AssertionFailed m)" for b
    by (auto simp: StorePath_of_def ensure_def result_simps split: sum.splits if_splits)
  with False show ?thesis
    by (auto simp: parseStorePath_def canonPath_def canonPathInner_correct ensure_def result_simps split: if_splits)
qed (simp add: parseStorePath_def ensure_def result_simps)

lemma maybeParseStorePath_total: "maybeParseStorePath cfg s \<noteq> Inl e"
  using parseStorePath_no_assertion [of cfg s]
  by (auto simp: maybeParseStorePath_def split: sum.splits nix_error.splits)

lemma collect_specific_errors:
  assumes "finite V" "card V + 2 \<le> fuel"
  shows "within V st \<Longrightarrow> collect_specific fuel env paths st = (Thrown e, st') \<Longrightarrow>
    e \<in> {GenericError ''cycle detected in the references'', GenericError ''Cannot delete path since it is still alive''}"
proof (induction paths arbitrary: st)
  case (Cons p ps)
  obtain o1 st1 where one: "maybeDeleteReferrersClosure fuel env p st = (o1, st1)" by fastforce
  note step = maybeDelete_within [OF assms Cons.prems(1) one]
  with Cons one show ?case by (cases o1) (auto split: if_splits)
qed simp

lemma collect_whole_errors:
  assumes "finite V" "card V + 2 \<le> fuel"
  shows "within V st \<Longrightarrow> collect_whole fuel env names st = (Thrown e, st') \<Longrightarrow>
    e = GenericError ''cycle detected in the references''"
proof (induction names arbitrary: st)
  case (Cons name names)
  show ?case
  proof (cases "name = ''.'' \<or> name = ''..'' \<or> name = linksName")
    case False
    show ?thesis
    proof (cases "maybeParseStorePath (gc_dir env) (storeDir (gc_dir env) @ ''/'' @ name)")
      case (Inr parsed)
      let ?one = "case parsed of Some p \<Rightarrow> maybeDeleteReferrersClosure fuel env p st | None \<Rightarrow> deleteFromStore env name st"
      obtain o1 st1 where one: "?one = (o1, st1)" by fastforce
      have "within V st1 \<and> (\<forall>e. o1 = Thrown e \<longrightarrow> e = GenericError ''cycle detected in the references'')"
      proof (cases parsed)
        case None
        with one deleteFromStore_frame [of env name st o1 st1] Cons.prems(1) show ?thesis by (auto intro: within_frame)
      next
        case (Some p)
        with one have "maybeDeleteReferrersClosure fuel env p st = (o1, st1)" by simp
        from maybeDelete_within [OF assms Cons.prems(1) this] show ?thesis by blast
      qed
      with Cons False Inr one show ?thesis by (cases o1) auto
    qed (simp add: maybeParseStorePath_total)
  qed (use Cons in auto)
qed simp

lemma within_start: "omap_ok db \<Longrightarrow> within (valid_paths db) (gc_start env db disk0)"
  by (simp add: within_def gc_start_def)

lemma card_valid_paths: "finite (valid_paths db) \<and> card (valid_paths db) \<le> length db"
proof -
  have "valid_paths db = set (map fst db)" by (simp add: valid_paths_def dom_map_of_conv_image_fst)
  with card_length [of "map fst db"] show ?thesis by simp
qed

lemma collectGarbage_errors:
  assumes "omap_ok db" and e: "fst (collectGarbage env names db disk0) = Some e"
  shows "e = GenericError ''cycle detected in the references'' \<or>
    e = GenericError ''Cannot delete path since it is still alive'' \<or> e = GenericError ''Cannot delete the entire store''"
proof -
  let ?start = "gc_start env db disk0" and ?fuel = "length db + 3"
  obtain out st where run: "collect_paths ?fuel env names ?start = (out, st)" by fastforce
  with e have out: "out = Thrown e" by (auto simp: collectGarbage_def split: gc_outcome.splits if_splits)
  note V = conjunct1 [OF card_valid_paths] and w = within_start [OF assms(1)]
  have fuel: "card (valid_paths db) + 2 \<le> ?fuel" using card_valid_paths [of db] by simp
  show ?thesis
  proof (cases "pathsToDelete (gc_options env)")
    case WholeStore
    with run out collect_whole_errors [OF V fuel w] show ?thesis
      by (auto simp: collect_paths_def split: if_splits)
  next
    case (SpecificPaths paths del)
    with run out have "collect_specific ?fuel env (sorted_list_of_fset paths) ?start = (Thrown e, st)"
      by (simp add: collect_paths_def)
    from collect_specific_errors [OF V fuel w this] show ?thesis by blast
  qed
qed

section \<open>Collecting the whole store\<close>

text \<open>The entries of the store directory name all valid paths.\<close>

definition listed :: "gc_env \<Rightarrow> (StorePath, ValidPathInfo) omap \<Rightarrow> string list \<Rightarrow> bool" where
  "listed env db names \<longleftrightarrow> (\<forall>p\<in>valid_paths db. baseName p \<in> set names - {''.'', ''..'', linksName} \<and>
     maybeParseStorePath (gc_dir env) (storeDir (gc_dir env) @ ''/'' @ baseName p) = Inr (Some p))"

definition swept :: "gc_env \<Rightarrow> (StorePath, ValidPathInfo) omap \<Rightarrow> gc_state \<Rightarrow> string \<Rightarrow> bool" where
  "swept env db0 st name \<longleftrightarrow> (\<forall>p\<in>valid_paths (gc_db st). baseName p = name \<longrightarrow> p \<in> live db0 (all_roots env))"

lemma swept_mono: "swept env db0 st name \<Longrightarrow> map_of (gc_db st') \<subseteq>\<^sub>m map_of (gc_db st) \<Longrightarrow> swept env db0 st' name"
  unfolding swept_def valid_paths_def by (metis domIff map_le_def option.distinct(1))

lemma gc_inv_self: "gc_inv env db0 st \<Longrightarrow> gc_inv env (gc_db st) st"
proof -
  assume inv: "gc_inv env db0 st"
  then have "live (gc_db st) (gc_roots env) \<subseteq> valid_paths (gc_db st)" by (intro live_valid) (simp add: gc_inv_def)
  with inv show ?thesis by (simp add: gc_inv_def)
qed

lemma listed_parse: "listed env db0 names \<Longrightarrow> map_of db \<subseteq>\<^sub>m map_of db0 \<Longrightarrow> names_parse env db"
  unfolding listed_def names_parse_def valid_paths_def by (metis domIff map_le_def old.sum.inject(2) option.distinct(1))

lemma complete_disk:
  assumes "complete_inv env db0 st" "name \<notin> baseName ` valid_paths (gc_db st)"
    and "deleteFromStore env name st = (out, st')"
  shows "complete_inv env db0 st' \<and> (out = Continue \<or> out = LimitReached \<and> maxFreed (gc_options env) < bytesFreed st')"
proof -
  have "gc_inv env db0 (st\<lparr>disk := disk st - {name}\<rparr>)" using assms(1,2) by (auto simp: complete_inv_def gc_inv_def)
  from deleteFromStore_inv [OF this] assms(3) have "gc_inv env db0 st'" by simp
  moreover have "alive st' = alive st" "dead st' = dead st" "gc_db st' = gc_db st" "referrersCache st' = referrersCache st"
    using assms(3) by (auto simp: deleteFromStore_def Let_def split: if_splits)
  ultimately have "complete_inv env db0 st'" using assms(1) by (simp add: complete_inv_def)
  moreover have "out = Continue \<or> out = LimitReached \<and> maxFreed (gc_options env) < bytesFreed st'"
    using assms(3) by (auto simp: deleteFromStore_def Let_def split: if_splits)
  ultimately show ?thesis by blast
qed

text \<open>One entry of the store directory.\<close>

lemma complete_swept:
  assumes "complete_inv env db0 st" "\<And>q. q \<in> valid_paths db0 \<Longrightarrow> baseName q = name \<Longrightarrow> q \<in> alive st \<union> dead st"
  shows "swept env db0 st name"
  unfolding swept_def
proof (intro ballI impI)
  fix q assume q: "q \<in> valid_paths (gc_db st)" "baseName q = name"
  have "map_of (gc_db st) \<subseteq>\<^sub>m map_of db0" using assms(1) by (simp add: complete_inv_def gc_inv_def)
  with q(1) have "q \<in> valid_paths db0" unfolding valid_paths_def by (metis domIff map_le_def)
  with assms(2) [OF this q(2)] assms(1) q(1) show "q \<in> live db0 (all_roots env)" by (auto simp: complete_inv_def)
qed

lemma sweep_one:
  assumes plain: "plain_collection env" and acyclic: "acyclic (ref_edges db0 - Id)" and fuel: "card (valid_paths db0) + 2 \<le> fuel"
    and db0: "listed env db0 all_names" and inv: "complete_inv env db0 st" "within (valid_paths db0) st"
    and parse: "maybeParseStorePath (gc_dir env) (storeDir (gc_dir env) @ ''/'' @ name) = Inr parsed"
    and one: "(case parsed of Some p \<Rightarrow> maybeDeleteReferrersClosure fuel env p st | None \<Rightarrow> deleteFromStore env name st) = (out, st')"
  shows "out = Continue \<and> complete_inv env db0 st' \<and> within (valid_paths db0) st' \<and> swept env db0 st' name \<or>
    out = LimitReached \<and> maxFreed (gc_options env) < bytesFreed st'"
proof -
  have finite: "finite (valid_paths db0)" using card_valid_paths by blast
  have gc: "gc_inv env db0 st" using inv(1) by (simp add: complete_inv_def)
  have sub: "valid_paths (gc_db st) \<subseteq> valid_paths db0" using inv(2) by (simp add: within_def)
  have self: "parsed = Some p" if "p \<in> valid_paths db0" "baseName p = name" for p
    using that db0 parse by (auto simp: listed_def)
  show ?thesis
  proof (cases parsed)
    case None
    then have unknown: "baseName q \<noteq> name" if "q \<in> valid_paths db0" for q using self [OF that] by blast
    then have "name \<notin> baseName ` valid_paths (gc_db st)" using sub by blast
    from complete_disk [OF inv(1) this, of out st'] None one
    have c: "complete_inv env db0 st' \<and> (out = Continue \<or> out = LimitReached \<and> maxFreed (gc_options env) < bytesFreed st')" by simp
    have "within (valid_paths db0) st'"
      using within_frame [OF inv(2)] deleteFromStore_frame [of env name st out st'] None one by simp
    moreover have "swept env db0 st' name" by (rule complete_swept [OF conjunct1 [OF c]]) (use unknown in blast)
    ultimately show ?thesis using c by blast
  next
    case (Some p)
    with one have run: "maybeDeleteReferrersClosure fuel env p st = (out, st')" by simp
    have w: "within (valid_paths db0) st' \<and> (\<forall>e. out = Thrown e \<longrightarrow> \<not> acyclic (ref_edges (gc_db st') - Id))"
      using maybeDelete_within [OF finite fuel inv(2) run] by blast
    have gc': "gc_inv env db0 st'" using maybeDelete_inv [OF gc, of fuel p] run by simp
    have "ref_edges (gc_db st') - Id \<subseteq> ref_edges db0 - Id"
      by (rule Diff_mono [OF edges_mono order_refl]) (use gc' in \<open>simp add: gc_inv_def\<close>)
    from acyclic_subset [OF acyclic this] w have no_error: "out \<noteq> Thrown e" for e by blast
    have "swept env db0 st' name" if "complete_inv env db0 st'" "p \<in> alive st' \<union> dead st'"
    proof (rule complete_swept [OF that(1)])
      fix q assume "q \<in> valid_paths db0" "baseName q = name"
      from self [OF this] Some that(2) show "q \<in> alive st' \<union> dead st'" by simp
    qed
    with maybeDelete_complete [OF plain inv(1) run] no_error w show ?thesis by blast
  qed
qed

lemma collect_whole_complete:
  assumes plain: "plain_collection env" and acyclic: "acyclic (ref_edges db0 - Id)" and fuel: "card (valid_paths db0) + 2 \<le> fuel"
    and db0: "listed env db0 all_names"
  shows "complete_inv env db0 st \<Longrightarrow> within (valid_paths db0) st \<Longrightarrow> collect_whole fuel env names st = (out, st') \<Longrightarrow>
    out = Continue \<and> complete_inv env db0 st' \<and> (\<forall>name\<in>set names - {''.'', ''..'', linksName}. swept env db0 st' name) \<or>
    out = LimitReached \<and> maxFreed (gc_options env) < bytesFreed st'"
proof (induction names arbitrary: st)
  case (Cons name names)
  show ?case
  proof (cases "name = ''.'' \<or> name = ''..'' \<or> name = linksName")
    case True
    with Cons.prems(3) have "collect_whole fuel env names st = (out, st')" by auto
    from Cons.IH [OF Cons.prems(1,2) this] True show ?thesis by auto
  next
    case False
    obtain parsed where parse: "maybeParseStorePath (gc_dir env) (storeDir (gc_dir env) @ ''/'' @ name) = Inr parsed"
      using maybeParseStorePath_total by (metis old.sum.exhaust)
    obtain o1 st1 where one: "(case parsed of Some p \<Rightarrow> maybeDeleteReferrersClosure fuel env p st
        | None \<Rightarrow> deleteFromStore env name st) = (o1, st1)" by fastforce
    from sweep_one [OF plain acyclic fuel db0 Cons.prems(1,2) parse one]
    consider (limit) "o1 = LimitReached" "maxFreed (gc_options env) < bytesFreed st1"
      | (go) "o1 = Continue" "complete_inv env db0 st1" "within (valid_paths db0) st1" "swept env db0 st1 name" by blast
    then show ?thesis
    proof cases
      case go
      have gc: "gc_inv env db0 st1" using go(2) by (simp add: complete_inv_def)
      have run: "collect_whole fuel env names st1 = (out, st')" using Cons.prems(3) False parse one go(1) by auto
      have "names_parse env (gc_db st1)" by (rule listed_parse [OF db0]) (use gc in \<open>simp add: gc_inv_def\<close>)
      from collect_whole_inv [OF gc_inv_self [OF gc] this, of fuel names] run
      have "map_of (gc_db st') \<subseteq>\<^sub>m map_of (gc_db st1)" by (simp add: gc_inv_def)
      with swept_mono [OF go(4)] Cons.IH [OF go(2,3) run] show ?thesis by auto
    qed (use Cons.prems(3) False parse one in auto)
  qed
qed simp

section \<open>The contract of a collection\<close>

lemma listed_wf:
  assumes "wf_store env db" "baseName ` valid_paths db \<subseteq> set names"
  shows "listed env db names"
  unfolding listed_def
proof
  fix p assume p: "p \<in> valid_paths db"
  then have "wf_path p" using assms(1) by (simp add: wf_store_def)
  then have "33 \<le> length (baseName p)" by (simp add: wf_path_def valid_base_def HashLen_def)
  then have "baseName p \<notin> {''.'', ''..'', linksName}" by (auto simp: linksName_def)
  with p assms(2) wf_store_name [OF assms(1) p]
  show "baseName p \<in> set names - {''.'', ''..'', linksName} \<and>
      maybeParseStorePath (gc_dir env) (storeDir (gc_dir env) @ ''/'' @ baseName p) = Inr (Some p)" by blast
qed

lemma complete_start:
  assumes "omap_ok db" "db_closed db" "baseName ` valid_paths db \<subseteq> disk0"
  shows "complete_inv env db (gc_start env db disk0)"
  using gc_inv_start [OF assms] live_valid [OF assms(2)] by (simp add: complete_inv_def gc_start_def)

text \<open>
  C3: A collection always ends: it never visits more paths than its loops allow for, whatever the
  options, the roots that arrive and the references are. It throws only when it is asked for what it refuses,
  or when a reference closes a cycle.
\<close>

theorem collectGarbage_ends:
  assumes "omap_ok db"
  shows "fst (collectGarbage env names db disk0) \<in> {None, Some (GenericError ''cycle detected in the references''),
    Some (GenericError ''Cannot delete path since it is still alive''), Some (GenericError ''Cannot delete the entire store'')}"
  using collectGarbage_errors [OF assms, of env names disk0] by (cases "fst (collectGarbage env names db disk0)") auto


text \<open>A store of three paths: the root refers to itself and to the second, as does the garbage.\<close>

definition sample_store_path :: "char \<Rightarrow> StorePath" where
  "sample_store_path c = StorePath (replicate HashLen c @ ''-x'')"

definition sample_db :: "(StorePath, ValidPathInfo) omap" where
  "sample_db =
     [(sample_store_path (CHR ''a''), \<lparr>references = {|sample_store_path (CHR ''a''), sample_store_path (CHR ''b'')|}, deriver = None\<rparr>),
      (sample_store_path (CHR ''b''), \<lparr>references = {||}, deriver = None\<rparr>),
      (sample_store_path (CHR ''c''), \<lparr>references = {|sample_store_path (CHR ''b'')|}, deriver = None\<rparr>)]"

definition sample_names :: "string list" where
  "sample_names = [''.'', ''.links'', baseName (sample_store_path (CHR ''b'')), baseName (sample_store_path (CHR ''a'')),
     ''junk'', baseName (sample_store_path (CHR ''c''))]"

definition sample_gc :: "GCAction \<Rightarrow> gc_env" where
  "sample_gc action =
     \<lparr>gc_dir = \<lparr>storeDir = ''/nix/store''\<rparr>,
      gc_options = \<lparr>gc_action = action, ignoreLiveness = False, pathsToDelete = WholeStore, maxFreed = 1000\<rparr>,
      keepOutputs = False, keepDerivations = False, found_roots = {sample_store_path (CHR ''a'')}, found_temp_roots = {},
      output_map = (\<lambda>_. []), output_derivers = (\<lambda>_. {||}), arrivals = (\<lambda>_. {}),
      disk_size = (\<lambda>_. 0), locked_tempdir = (\<lambda>_. False)\<rparr>"

lemma sample_store_path_less: "sample_store_path c < sample_store_path d \<longleftrightarrow> c < d"
  by (cases "c = d") (auto simp: sample_store_path_def less_StorePath_def HashLen_def numeral_eq_Suc)

lemma sample_store_path_eq [simp]: "sample_store_path c = sample_store_path d \<longleftrightarrow> c = d"
  by (auto simp: sample_store_path_def HashLen_def numeral_eq_Suc)

lemma sample_db_valid:
  "valid_paths sample_db = sample_store_path ` {CHR ''a'', CHR ''b'', CHR ''c''}"
  by (auto simp: valid_paths_def sample_db_def split: if_splits)

lemma sample_db_edges:
  "ref_edges sample_db = {(sample_store_path (CHR ''a''), sample_store_path (CHR ''a'')),
     (sample_store_path (CHR ''a''), sample_store_path (CHR ''b'')), (sample_store_path (CHR ''c''), sample_store_path (CHR ''b''))}"
  by (auto simp: ref_edges_def sample_db_def split: if_splits)

lemma sample_db_wf: "wf_store (sample_gc action) sample_db"
proof -
  have "canonical ''/nix/store''" by code_simp
  moreover have "\<forall>c\<in>{CHR ''a'', CHR ''b'', CHR ''c''}. wf_path (sample_store_path c)" by code_simp
  ultimately show ?thesis by (auto simp: wf_store_def sample_db_valid sample_gc_def)
qed

lemma sample_db_ok: "omap_ok sample_db" "db_closed sample_db" "acyclic (ref_edges sample_db - Id)"
proof -
  show "omap_ok sample_db" by (simp add: sample_db_def sample_store_path_less less_char_def)
  show "db_closed sample_db" by (auto simp: db_closed_def sample_db_edges sample_db_valid)
  have "wf ((ref_edges sample_db - Id)\<inverse>)"
  proof (rule wf_subset)
    show "wf (measure (\<lambda>p. if p = sample_store_path (CHR ''b'') then 0 else 1 :: nat))" by simp
  qed (auto simp: sample_db_edges)
  then show "acyclic (ref_edges sample_db - Id)" using wf_acyclic acyclic_converse by blast
qed

lemma sample_live: "live sample_db (all_roots (sample_gc action)) = {sample_store_path (CHR ''a''), sample_store_path (CHR ''b'')}"
proof -
  have roots: "all_roots (sample_gc action) = {sample_store_path (CHR ''a'')}"
    by (simp add: all_roots_def gc_roots_def sample_gc_def)
  have "(sample_store_path (CHR ''a''), q) \<in> (ref_edges sample_db)\<^sup>* \<Longrightarrow> q \<in> sample_store_path ` {CHR ''a'', CHR ''b''}" for q
    by (induction rule: rtrancl_induct) (auto simp: sample_db_edges)
  moreover have "(sample_store_path (CHR ''a''), sample_store_path (CHR ''b'')) \<in> (ref_edges sample_db)\<^sup>*"
    by (rule r_into_rtrancl) (simp add: sample_db_edges)
  ultimately show ?thesis unfolding live_def roots sample_db_valid by auto
qed

theorem collectGarbage_ends_witness:
  "fst (collectGarbage (sample_gc gcReturnLive) [''junk''] sample_db {}) \<noteq> Some OutOfFuel"
  using collectGarbage_ends [OF sample_db_ok(1), of "sample_gc gcReturnLive" "[''junk'']" "{}"] by auto


theorem collectGarbage_safe_witness:
  "live sample_db (gc_roots (sample_gc gcDeleteDead)) \<subseteq>
     valid_paths (gc_db (snd (collectGarbage (sample_gc gcDeleteDead) sample_names sample_db (baseName ` valid_paths sample_db))))"
  using collectGarbage_safe [OF sample_db_ok(1,2) order_refl sample_db_wf prod.collapse [symmetric], of gcDeleteDead sample_names] by blast



section \<open>Reading temporary roots\<close>

lemma find_char_first: "c \<notin> set s \<Longrightarrow> find_char c (s @ c # t) = Some (length s) \<and> find_char c s = None"
  by (induction s) (auto simp: find_char_def)

lemma render_no_nul: "valid_comps cs \<Longrightarrow> CHR 0x00 \<notin> set (render cs)"
proof -
  assume cs: "valid_comps cs"
  have "set (joined cs) \<subseteq> insert slash (\<Union>c\<in>set cs. set c)" by (induction cs) auto
  with cs have "CHR 0x00 \<notin> set (joined cs)" by (auto simp: valid_comp_def)
  then show ?thesis by (simp add: render_def)
qed

lemma printed_no_nul:
  assumes "canonical (storeDir cfg)" "wf_path p"
  shows "CHR 0x00 \<notin> set (printStorePath cfg p)"
proof -
  obtain cs where "valid_comps cs" "storeDir cfg = render cs" using assms(1) by (rule canonicalE) (rule that)
  then have "CHR 0x00 \<notin> set (storeDir cfg)" using render_no_nul by simp
  moreover have "CHR 0x00 \<notin> set (baseName p)" using valid_base_comp [OF assms(2)] by (simp add: valid_comp_def)
  ultimately show ?thesis by (simp add: printStorePath_def)
qed

lemma read_temp_roots_records:
  assumes "canonical (storeDir cfg)" "CHR 0x00 \<notin> set partial"
  shows "\<forall>p\<in>set ps. wf_path p \<Longrightarrow> length ps < n \<Longrightarrow>
    read_temp_roots n cfg (concat (map (temp_root_record cfg) ps) @ partial) roots = Inr (roots \<union> set ps)"
proof (induction ps arbitrary: n roots)
  case Nil
  then obtain m where "n = Suc m" by (cases n) auto
  with find_char_first [OF assms(2)] show ?case by simp
next
  case (Cons p ps)
  then obtain m where m: "n = Suc m" "length ps < m" by (cases n) auto
  have p: "wf_path p" using Cons.prems(1) by simp
  let ?rest = "concat (map (temp_root_record cfg) ps) @ partial"
  have "find_char (CHR 0x00) (printStorePath cfg p @ CHR 0x00 # ?rest) = Some (length (printStorePath cfg p))"
    using find_char_first [OF printed_no_nul [OF assms(1) p]] by blast
  then have "read_temp_roots n cfg (concat (map (temp_root_record cfg) (p # ps)) @ partial) roots =
      read_temp_roots m cfg ?rest (insert p roots)"
    using m parse_printed [OF assms(1) p] temp_root_record_def [of cfg p] by (simp add: result_simps)
  with Cons m(2) show ?case by simp
qed

text \<open>
  The temporary roots that a process has appended to its file are the ones that the collector
  reads from it, also while the last record is being appended.
\<close>

theorem temp_roots_roundtrip:
  assumes "canonical (storeDir cfg)" "\<forall>p\<in>set ps. wf_path p" "CHR 0x00 \<notin> set partial"
  shows "findTempRoots_file cfg (concat (map (temp_root_record cfg) ps) @ partial) roots = Inr (roots \<union> set ps)"
proof -
  have "length ps \<le> length (concat (map (temp_root_record cfg) ps))" by (induction ps) (auto simp: temp_root_record_def)
  then show ?thesis
    unfolding findTempRoots_file_def by (intro read_temp_roots_records [OF assms(1,3,2)]) simp
qed

theorem temp_roots_roundtrip_witness:
  "findTempRoots_file \<lparr>storeDir = ''/nix/store''\<rparr>
     (concat (map (temp_root_record \<lparr>storeDir = ''/nix/store''\<rparr>) [sample_store_path (CHR ''b''), sample_store_path (CHR ''a'')]) @ ''/nix/st'') {} =
   Inr {sample_store_path (CHR ''a''), sample_store_path (CHR ''b'')}"
proof -
  have "canonical (storeDir \<lparr>storeDir = ''/nix/store''\<rparr>)" by code_simp
  moreover have "\<forall>p\<in>set [sample_store_path (CHR ''b''), sample_store_path (CHR ''a'')]. wf_path p" by code_simp
  moreover have "CHR 0x00 \<notin> set ''/nix/st''" by simp
  ultimately show ?thesis by (subst temp_roots_roundtrip) auto
qed

end
