(* ===== verification/Peek_Sort.thy ===== *)
theory Peek_Sort
  imports Prelude "HOL-Library.Sorting_Algorithms"
begin

text \<open>
  The stable sort of \<^verbatim>\<open>libutil/include/nix/util/sort.hh\<close>: insertion sort, detection of runs, merging of runs and
  peeksort, which finds the run in the middle of the range first. A range is a list with the
  positions of its two iterators. The comparator is any predicate; it need not be an order.
\<close>

section \<open>Ranges\<close>

text \<open>The elements from one position to another, and the list with these elements replaced.\<close>

definition slice :: "'a list \<Rightarrow> nat \<Rightarrow> nat \<Rightarrow> 'a list" where
  "slice xs b e = take (e - b) (drop b xs)"

definition replace_slice :: "nat \<Rightarrow> nat \<Rightarrow> 'a list \<Rightarrow> 'a list \<Rightarrow> 'a list" where
  "replace_slice b e ys xs = take b xs @ ys @ drop e xs"

definition swap :: "'a list \<Rightarrow> nat \<Rightarrow> nat \<Rightarrow> 'a list" where
  "swap xs i j = xs[i := xs ! j, j := xs ! i]"

section \<open>Merging\<close>

text \<open>The two halves have been moved to the working buffer.\<close>

fun merge_runs :: "('a \<Rightarrow> 'a \<Rightarrow> bool) \<Rightarrow> 'a list \<Rightarrow> 'a list \<Rightarrow> 'a list" where
  "merge_runs lt (x # xs) (y # ys) =
     (if \<not> lt y x then x # merge_runs lt xs (y # ys) else y # merge_runs lt (x # xs) ys)"
| "merge_runs lt [] ys = ys"
| "merge_runs lt xs [] = xs"

definition mergeSortedRunsInPlace :: "('a \<Rightarrow> 'a \<Rightarrow> bool) \<Rightarrow> nat \<Rightarrow> nat \<Rightarrow> nat \<Rightarrow> 'a list \<Rightarrow> 'a list" where
  "mergeSortedRunsInPlace lt first middle past xs =
     replace_slice first past (merge_runs lt (slice xs first middle) (slice xs middle past)) xs"

section \<open>Insertion sort\<close>

text \<open>The insertion point is \<open>n\<close> after the begin of the range.\<close>

fun insert_back :: "('a \<Rightarrow> 'a \<Rightarrow> bool) \<Rightarrow> nat \<Rightarrow> nat \<Rightarrow> 'a list \<Rightarrow> 'a list" where
  "insert_back lt first 0 xs = xs"
| "insert_back lt first (Suc n) xs =
     (if lt (xs ! (first + Suc n)) (xs ! (first + n))
      then insert_back lt first n (swap xs (first + Suc n) (first + n)) else xs)"

definition insertionsort :: "('a \<Rightarrow> 'a \<Rightarrow> bool) \<Rightarrow> nat \<Rightarrow> nat \<Rightarrow> 'a list \<Rightarrow> 'a list" where
  "insertionsort lt first past xs = fold (insert_back lt first) [1..<past - first] xs"

section \<open>Runs\<close>

text \<open>The loops that move one end of a range; the number is the distance between its ends.\<close>

fun decreasing_prefix :: "('a \<Rightarrow> 'a \<Rightarrow> bool) \<Rightarrow> 'a list \<Rightarrow> nat \<Rightarrow> nat \<Rightarrow> nat" where
  "decreasing_prefix lt xs first (Suc (Suc n)) =
     (if lt (xs ! (first + 1)) (xs ! first) then decreasing_prefix lt xs (first + 1) (Suc n) else first + 1)"
| "decreasing_prefix lt xs first _ = first + 1"

fun decreasing_suffix :: "('a \<Rightarrow> 'a \<Rightarrow> bool) \<Rightarrow> 'a list \<Rightarrow> nat \<Rightarrow> nat \<Rightarrow> nat" where
  "decreasing_suffix lt xs first (Suc (Suc n)) =
     (if lt (xs ! (first + n + 1)) (xs ! (first + n)) then decreasing_suffix lt xs first (Suc n) else first + n + 1)"
| "decreasing_suffix lt xs first _ = first"

definition strictlyDecreasingPrefix :: "('a \<Rightarrow> 'a \<Rightarrow> bool) \<Rightarrow> 'a list \<Rightarrow> nat \<Rightarrow> nat \<Rightarrow> nat" where
  "strictlyDecreasingPrefix lt xs first past =
     (if first = past then first else decreasing_prefix lt xs first (past - first))"

definition strictlyDecreasingSuffix :: "('a \<Rightarrow> 'a \<Rightarrow> bool) \<Rightarrow> 'a list \<Rightarrow> nat \<Rightarrow> nat \<Rightarrow> nat" where
  "strictlyDecreasingSuffix lt xs first past =
     (if first = past then past else decreasing_suffix lt xs first (past - first))"

definition weaklyIncreasingPrefix :: "('a \<Rightarrow> 'a \<Rightarrow> bool) \<Rightarrow> 'a list \<Rightarrow> nat \<Rightarrow> nat \<Rightarrow> nat" where
  "weaklyIncreasingPrefix lt xs first past = strictlyDecreasingPrefix (\<lambda>a b. \<not> lt a b) xs first past"

definition weaklyIncreasingSuffix :: "('a \<Rightarrow> 'a \<Rightarrow> bool) \<Rightarrow> 'a list \<Rightarrow> nat \<Rightarrow> nat \<Rightarrow> nat" where
  "weaklyIncreasingSuffix lt xs first past = strictlyDecreasingSuffix (\<lambda>a b. \<not> lt a b) xs first past"

section \<open>Peeksort\<close>

definition insertionsortThreshold :: nat where
  "insertionsortThreshold = 16"

text \<open>The run around the middle, and the list in which it is increasing.\<close>

definition middle_run :: "('a \<Rightarrow> 'a \<Rightarrow> bool) \<Rightarrow> 'a list \<Rightarrow> nat \<Rightarrow> nat \<Rightarrow> nat \<Rightarrow> nat \<times> nat \<times> 'a list" where
  "middle_run lt xs leftRunEnd middle rightRunBegin =
     (if \<not> lt (xs ! middle) (xs ! (middle - 1)) then
        (weaklyIncreasingSuffix lt xs leftRunEnd middle, weaklyIncreasingPrefix lt xs (middle - 1) rightRunBegin, xs)
      else let i = strictlyDecreasingSuffix lt xs leftRunEnd middle;
               j = strictlyDecreasingPrefix lt xs (middle - 1) rightRunBegin
           in (i, j, replace_slice i j (rev (slice xs i j)) xs))"

text \<open>
  The body gets itself as an argument. The predecessor of position 0 is 0 here; it is only the
  begin of a right run that is not looked at.
\<close>

definition peeksort_body :: "(nat \<Rightarrow> nat \<Rightarrow> nat \<Rightarrow> nat \<Rightarrow> 'a list \<Rightarrow> 'a list option) \<Rightarrow>
    ('a \<Rightarrow> 'a \<Rightarrow> bool) \<Rightarrow> nat \<Rightarrow> nat \<Rightarrow> nat \<Rightarrow> nat \<Rightarrow> 'a list \<Rightarrow> 'a list option" where
  "peeksort_body self lt first past leftRunEnd rightRunBegin xs =
     (if leftRunEnd = past \<or> rightRunBegin = first then Some xs
      else if past - first \<le> insertionsortThreshold then Some (insertionsort lt first past xs)
      else let middle = first + (past - first) div 2 in
        if middle \<le> leftRunEnd then
          Option.bind (self leftRunEnd past (leftRunEnd + 1) rightRunBegin xs)
            (\<lambda>xs. Some (mergeSortedRunsInPlace lt first leftRunEnd past xs))
        else if middle \<ge> rightRunBegin then
          Option.bind (self first rightRunBegin leftRunEnd (rightRunBegin - 1) xs)
            (\<lambda>xs. Some (mergeSortedRunsInPlace lt first rightRunBegin past xs))
        else case middle_run lt xs leftRunEnd middle rightRunBegin of (i, j, xs) \<Rightarrow>
          if i = first \<and> j = past then Some xs
          else if middle - i < j - middle then
            Option.bind (self first i leftRunEnd (i - 1) xs) (\<lambda>xs.
            Option.bind (self i past j rightRunBegin xs)
              (\<lambda>xs. Some (mergeSortedRunsInPlace lt first i past xs)))
          else
            Option.bind (self first j leftRunEnd i xs) (\<lambda>xs.
            Option.bind (self j past (j + 1) rightRunBegin xs)
              (\<lambda>xs. Some (mergeSortedRunsInPlace lt first j past xs))))"

text \<open>Fuel bounds the depth of the recursion.\<close>

fun peeksortImpl ::
  "nat \<Rightarrow> ('a \<Rightarrow> 'a \<Rightarrow> bool) \<Rightarrow> nat \<Rightarrow> nat \<Rightarrow> nat \<Rightarrow> nat \<Rightarrow> 'a list \<Rightarrow> 'a list option" where
  "peeksortImpl 0 lt first past leftRunEnd rightRunBegin xs = None"
| "peeksortImpl (Suc n) lt first past leftRunEnd rightRunBegin xs =
     peeksort_body (peeksortImpl n lt) lt first past leftRunEnd rightRunBegin xs"

definition peeksort :: "('a \<Rightarrow> 'a \<Rightarrow> bool) \<Rightarrow> 'a list \<Rightarrow> 'a list option" where
  "peeksort lt xs =
     (if length xs = 0 \<or> length xs = 1 then Some xs
      else if length xs = 2 then Some (if lt (xs ! 1) (xs ! 0) then swap xs 0 1 else xs)
      else peeksortImpl (2 * length xs + 2) lt 0 (length xs) 0 (length xs) xs)"

section \<open>Lemmas on ranges\<close>

lemma length_slice [simp]: "e \<le> length xs \<Longrightarrow> length (slice xs b e) = e - b"
  by (simp add: slice_def)

lemma slice_split: "b \<le> m \<Longrightarrow> m \<le> e \<Longrightarrow> slice xs b e = slice xs b m @ slice xs m e"
proof -
  assume "b \<le> m" "m \<le> e"
  then have "e - b = (m - b) + (e - m)" "drop (m - b) (drop b xs) = drop m xs" by simp_all
  then show ?thesis by (simp only: slice_def take_add)
qed

lemma slice_alt: "slice xs b e = drop b (take e xs)"
  by (simp add: slice_def drop_take)

lemma slice_whole [simp]: "slice xs 0 (length xs) = xs" "slice xs b b = []"
  by (simp_all add: slice_def)

lemma slice_single: "k < length xs \<Longrightarrow> slice xs k (Suc k) = [xs ! k]"
  by (simp add: slice_def take_Suc hd_drop_conv_nth)

lemma nth_slice: "b + k < e \<Longrightarrow> e \<le> length xs \<Longrightarrow> slice xs b e ! k = xs ! (b + k)"
  by (simp add: slice_def)

lemma replace_slice_split:
  "b \<le> e \<Longrightarrow> e \<le> length xs \<Longrightarrow> xs = take b xs @ slice xs b e @ drop e xs \<and> length (take b xs) = b"
  using slice_split [of 0 b "length xs" xs] slice_split [of b e "length xs" xs]
  by (simp add: slice_alt [of xs 0 b] slice_alt [of xs e "length xs"])

lemma replace_slice_same [simp]: "b \<le> e \<Longrightarrow> e \<le> length xs \<Longrightarrow> replace_slice b e (slice xs b e) xs = xs"
  unfolding replace_slice_def using replace_slice_split [of b e xs] by simp

lemma slice_of_replaced:
  assumes "b \<le> e" "e \<le> length xs" "length ys = e - b"
  shows "length (replace_slice b e ys xs) = length xs" "slice (replace_slice b e ys xs) b e = ys"
    "e \<le> m \<Longrightarrow> slice (replace_slice b e ys xs) m n = slice xs m n"
    "n \<le> b \<Longrightarrow> slice (replace_slice b e ys xs) m n = slice xs m n"
proof -
  show "length (replace_slice b e ys xs) = length xs" using assms by (simp add: replace_slice_def)
  show "slice (replace_slice b e ys xs) b e = ys" using assms by (simp add: replace_slice_def slice_def)
  show "e \<le> m \<Longrightarrow> slice (replace_slice b e ys xs) m n = slice xs m n" using assms by (simp add: replace_slice_def slice_def)
  show "n \<le> b \<Longrightarrow> slice (replace_slice b e ys xs) m n = slice xs m n"
    using assms by (simp add: replace_slice_def slice_alt min_absorb1)
qed

lemma replace_slices:
  assumes "b \<le> m" "m \<le> e" "e \<le> length xs" "length ys = m - b" "length zs = e - m"
  shows "replace_slice m e zs (replace_slice b m ys xs) = replace_slice b e (ys @ zs) xs"
    "replace_slice b m ys (replace_slice m e zs xs) = replace_slice b e (ys @ zs) xs"
    "replace_slice b e ws (replace_slice b e (ys @ zs) xs) = replace_slice b e ws xs"
  using assms by (simp_all add: replace_slice_def)

lemma replace_within:
  assumes "b \<le> i" "i \<le> j" "j \<le> e" "e \<le> length xs" "length zs = j - i"
  shows "replace_slice b e ys (replace_slice i j zs xs) = replace_slice b e ys xs"
    "slice (replace_slice i j zs xs) b e = slice xs b i @ zs @ slice xs j e"
proof -
  show "replace_slice b e ys (replace_slice i j zs xs) = replace_slice b e ys xs"
    using assms by (simp add: replace_slice_def min_absorb1)
  let ?xs = "replace_slice i j zs xs"
  have "slice ?xs b e = slice ?xs b i @ slice ?xs i j @ slice ?xs j e"
    using assms slice_split [of b i e ?xs] slice_split [of i j e ?xs] by simp
  with assms slice_of_replaced [of i j xs zs] show "slice ?xs b e = slice xs b i @ zs @ slice xs j e" by simp
qed

section \<open>The abstract specification\<close>

text \<open>
  A permutation for every comparator; for the strict part of a weak order, the stable sort of the
  library.
\<close>

definition lt_of :: "'a comparator \<Rightarrow> 'a \<Rightarrow> 'a \<Rightarrow> bool" where
  "lt_of C a b \<longleftrightarrow> compare C a b = Less"

definition sorts_to :: "('a \<Rightarrow> 'a \<Rightarrow> bool) \<Rightarrow> 'a list \<Rightarrow> 'a list \<Rightarrow> bool" where
  "sorts_to lt old new \<longleftrightarrow> mset new = mset old \<and> (\<forall>C. lt = lt_of C \<longrightarrow> new = sort C old)"

lemma not_lt: "\<not> lt_of C y x \<longleftrightarrow> compare C x y \<noteq> Greater"
  by (simp add: lt_of_def compare.greater_iff_sym_less)

lemma sort_congI:
  assumes "mset xs = mset ys" "\<And>z. stable_segment C z xs = stable_segment C z ys"
  shows "sort C xs = sort C ys"
  by (rule sort_eqI) (use assms in \<open>simp_all add: stable_sort\<close>)

lemma sort_within: "sort C (us @ sort C vs @ ws) = sort C (us @ vs @ ws)"
  by (rule sort_congI) (simp_all add: stable_sort)

lemma sorts_to_within:
  assumes "sorts_to lt vs vs'" "sorts_to lt (us @ vs' @ ws) new"
  shows "sorts_to lt (us @ vs @ ws) new"
  using assms sort_within by (fastforce simp: sorts_to_def)

lemma sorts_to_length: "sorts_to lt old new \<Longrightarrow> length new = length old"
  unfolding sorts_to_def by (metis size_mset)

lemma sorted_all: "(\<And>y. y \<in> set ys \<Longrightarrow> compare C x y \<noteq> Greater) \<Longrightarrow> Sorting_Algorithms.sorted C ys \<Longrightarrow>
    Sorting_Algorithms.sorted C (x # ys)"
  by (rule sorted_ConsI) auto

lemma sort_sorted: "Sorting_Algorithms.sorted C xs \<Longrightarrow> sort C xs = xs"
  by (rule sort_eqI) simp_all

lemma less_segment: "compare C y x = Less \<Longrightarrow> compare C z y = Equiv \<Longrightarrow> compare C z x \<noteq> Equiv"
  by (metis compare.sym compare.trans_equiv comp.distinct(1))

section \<open>Merging sorted runs\<close>

lemma mset_merge_runs: "mset (merge_runs lt xs ys) = mset xs + mset ys"
  by (induction lt xs ys rule: merge_runs.induct) simp_all

lemma set_merge_runs: "set (merge_runs lt xs ys) = set xs \<union> set ys"
  using mset_merge_runs [of lt xs ys] by (metis set_mset_mset set_mset_union)

lemma merge_runs_sorted:
  "Sorting_Algorithms.sorted C xs \<Longrightarrow> Sorting_Algorithms.sorted C ys \<Longrightarrow>
    Sorting_Algorithms.sorted C (merge_runs (lt_of C) xs ys) \<and>
    (\<forall>z. stable_segment C z (merge_runs (lt_of C) xs ys) = stable_segment C z xs @ stable_segment C z ys)"
proof (induction "lt_of C" xs ys rule: merge_runs.induct)
  case (1 x xs y ys)
  have xs: "Sorting_Algorithms.sorted C xs" "Sorting_Algorithms.sorted C ys"
    by (rule sorted_Cons_imp_sorted [OF 1(3)], rule sorted_Cons_imp_sorted [OF 1(4)])
  have tail: "\<And>u. u \<in> set xs \<Longrightarrow> compare C x u \<noteq> Greater" "\<And>u. u \<in> set ys \<Longrightarrow> compare C y u \<noteq> Greater"
    using sorted_Cons_imp_not_less [OF 1(3)] sorted_Cons_imp_not_less [OF 1(4)] by blast+
  show ?case
  proof (cases "lt_of C y x")
    case False
    then have less: "compare C x y \<noteq> Greater" by (simp add: not_lt)
    have "compare C x u \<noteq> Greater" if "u \<in> set ys" for u by (rule compare.trans_not_greater [OF less tail(2) [OF that]])
    with tail(1) less have rest: "compare C x u \<noteq> Greater" if "u \<in> set (merge_runs (lt_of C) xs (y # ys))" for u
      using that by (auto simp: set_merge_runs)
    from 1(1) [OF False xs(1) 1(4)] sorted_all [OF rest] False show ?thesis by simp
  next
    case True
    then have less: "compare C y x = Less" by (simp add: lt_of_def)
    then have yx: "compare C y x \<noteq> Greater" by simp
    have "compare C y u \<noteq> Greater" if "u \<in> set xs" for u by (rule compare.trans_not_greater [OF yx tail(1) [OF that]])
    with tail(2) yx have y: "compare C y u \<noteq> Greater" if "u \<in> set (merge_runs (lt_of C) (x # xs) ys)" for u
      using that by (auto simp: set_merge_runs)
    have "stable_segment C z (x # xs) = []" if "compare C z y = Equiv" for z
    proof -
      have "compare C y u = Less" if "u \<in> set (x # xs)" for u
        using that less tail(1) [of u] compare.trans_less [of C y x u] compare.trans_less_equiv [of C y x u]
        by (cases "compare C x u") auto
      then show ?thesis using less_segment [OF _ that] by (auto simp: filter_empty_conv)
    qed
    with 1(2) [OF _ 1(3) xs(2)] sorted_all [OF y] True show ?thesis by auto
  qed
qed simp_all

lemma sorts_to_merge:
  assumes "sorts_to lt us xs" "sorts_to lt vs ys"
  shows "sorts_to lt (us @ vs) (merge_runs lt xs ys)"
  unfolding sorts_to_def
proof (intro conjI allI impI)
  show "mset (merge_runs lt xs ys) = mset (us @ vs)" using assms by (simp add: mset_merge_runs sorts_to_def)
  fix C assume lt: "lt = lt_of C"
  then have xs: "xs = sort C us" "ys = sort C vs" using assms by (simp_all add: sorts_to_def)
  have "merge_runs lt xs ys = sort C (us @ vs)"
    unfolding lt by (rule sort_eqI [symmetric])
      (use merge_runs_sorted [of C xs ys] in \<open>simp_all add: mset_merge_runs xs stable_sort\<close>)
  then show "merge_runs lt xs ys = sort C (us @ vs)" .
qed

section \<open>Insertion sort\<close>

lemma insert_back_at:
  assumes "length P = n"
  shows "\<exists>us vs. P = us @ vs \<and> insert_back lt (length A) n (A @ P @ x # Q) = A @ us @ x # vs @ Q \<and>
    (\<forall>v\<in>set vs. lt x v) \<and> (us = [] \<or> \<not> lt x (last us))"
  using assms
proof (induction n arbitrary: P Q)
  case (Suc n)
  then obtain P' y where P: "P = P' @ [y]" "length P' = n" by (metis length_Suc_conv_rev)
  let ?xs = "A @ P @ x # Q"
  have at: "?xs ! (length A + Suc n) = x" "?xs ! (length A + n) = y" using P by (simp_all add: nth_append)
  show ?case
  proof (cases "lt x y")
    case True
    have "swap ?xs (length A + Suc n) (length A + n) = A @ P' @ x # y # Q"
      unfolding swap_def at using P by (simp add: list_update_append)
    then have step: "insert_back lt (length A) (Suc n) ?xs = insert_back lt (length A) n (A @ P' @ x # y # Q)"
      using True at by simp
    obtain us vs where "P' = us @ vs" "insert_back lt (length A) n (A @ P' @ x # y # Q) = A @ us @ x # vs @ y # Q"
      "\<forall>v\<in>set vs. lt x v" "us = [] \<or> \<not> lt x (last us)"
      using Suc.IH [OF P(2), of "y # Q"] by blast
    with True P step show ?thesis by (intro exI [of _ us] exI [of _ "vs @ [y]"]) simp
  next
    case False
    with at P show ?thesis by (intro exI [of _ P] exI [of _ "[]"]) auto
  qed
qed simp

lemma sorts_to_insert:
  assumes P: "sorts_to lt old (us @ vs)" and vs: "\<forall>v\<in>set vs. lt x v" and us: "us = [] \<or> \<not> lt x (last us)"
  shows "sorts_to lt (old @ [x]) (us @ x # vs)"
  unfolding sorts_to_def
proof (intro conjI allI impI)
  show "mset (us @ x # vs) = mset (old @ [x])" using P by (simp add: sorts_to_def)
  fix C assume lt: "lt = lt_of C"
  then have old: "us @ vs = sort C old" using P by (simp add: sorts_to_def)
  then have sorted: "Sorting_Algorithms.sorted C (us @ vs)" by simp
  have less: "compare C x v = Less" if "v \<in> set vs" for v using vs that lt by (simp add: lt_of_def)
  have le: "compare C u x \<noteq> Greater" if "u \<in> set us" for u
  proof -
    have "us \<noteq> []" using that by auto
    then obtain us' y where split: "us = us' @ [y]" "last us = y" by (metis append_butlast_last_id)
    with us lt have "compare C y x \<noteq> Greater" by (simp add: not_lt)
    moreover have "u = y \<or> compare C u y \<noteq> Greater"
      using sorted that unfolding split(1) sorted_append_iff by auto
    ultimately show ?thesis using compare.trans_not_greater [of C u y x] by (elim disjE) simp_all
  qed
  have tail: "Sorting_Algorithms.sorted C (x # vs)" by (rule sorted_all) (use less sorted in \<open>auto simp: sorted_append_iff\<close>)
  have "compare C u v \<noteq> Greater" if "u \<in> set us" "v \<in> set vs" for u v
    using sorted that unfolding sorted_append_iff by blast
  with tail sorted le have sorted': "Sorting_Algorithms.sorted C (us @ x # vs)" by (auto simp: sorted_append_iff)
  have "stable_segment C z (old @ [x]) = stable_segment C z (us @ x # vs)" for z
  proof -
    have "stable_segment C z vs = []" if "compare C z x = Equiv"
      using less_segment [OF less that] by (auto simp: filter_empty_conv)
    moreover have "stable_segment C z old = stable_segment C z us @ stable_segment C z vs"
      using old by (metis filter_append stable_sort)
    ultimately show ?thesis by simp
  qed
  moreover have "mset (old @ [x]) = mset (us @ x # vs)" using P by (simp add: sorts_to_def)
  ultimately show "us @ x # vs = sort C (old @ [x])" using sort_eqI [OF _ sorted', of "old @ [x]"] by simp
qed

lemma insertionsort_at:
  assumes "k \<le> length L" "0 < k"
  shows "\<exists>P. fold (insert_back lt (length A)) [1..<k] (A @ L @ B) = A @ P @ drop k L @ B \<and> sorts_to lt (take k L) P"
  using assms
proof (induction k)
  case (Suc k)
  show ?case
  proof (cases "k = 0")
    case True
    from Suc.prems obtain x L' where "L = x # L'" by (cases L) auto
    with True show ?thesis by (intro exI [of _ "[x]"]) (simp add: sorts_to_def)
  next
    case False
    with Suc obtain P where P: "fold (insert_back lt (length A)) [1..<k] (A @ L @ B) = A @ P @ drop k L @ B" "sorts_to lt (take k L) P"
      by auto
    have k: "k < length L" using Suc.prems by simp
    have len: "length P = k" using sorts_to_length [OF P(2)] k by simp
    have x: "drop k L = L ! k # drop (Suc k) L" using k by (simp add: Cons_nth_drop_Suc)
    obtain us vs where ins: "P = us @ vs" "insert_back lt (length A) k (A @ P @ L ! k # drop (Suc k) L @ B) = A @ us @ L ! k # vs @ drop (Suc k) L @ B"
      "\<forall>v\<in>set vs. lt (L ! k) v" "us = [] \<or> \<not> lt (L ! k) (last us)"
      using insert_back_at [OF len] by blast
    have "take (Suc k) L = take k L @ [L ! k]" using k by (simp add: take_Suc_conv_app_nth)
    with sorts_to_insert [OF P(2) [unfolded ins(1)] ins(3,4)] P(1) ins(2) x False
    show ?thesis by (intro exI [of _ "us @ L ! k # vs"]) simp
  qed
qed simp

lemma insertionsort_sorts:
  assumes "b < e" "e \<le> length xs"
  shows "\<exists>ys. insertionsort lt b e xs = replace_slice b e ys xs \<and> sorts_to lt (slice xs b e) ys"
proof -
  note split = replace_slice_split [of b e xs]
  have len: "length (slice xs b e) = e - b" using assms by simp
  with insertionsort_at [of "e - b" "slice xs b e" lt "take b xs" "drop e xs"] assms
  obtain P where "fold (insert_back lt (length (take b xs))) [1..<e - b] (take b xs @ slice xs b e @ drop e xs) = take b xs @ P @ drop e xs"
    "sorts_to lt (slice xs b e) P" by auto
  with split assms show ?thesis by (intro exI [of _ P]) (simp add: insertionsort_def replace_slice_def)
qed

section \<open>Finding runs\<close>

lemma decreasing_prefix_run:
  "decreasing_prefix lt xs b (Suc n) = j \<Longrightarrow> b < j \<and> j \<le> b + Suc n \<and>
    (\<forall>k. b \<le> k \<and> k + 1 < j \<longrightarrow> lt (xs ! (k + 1)) (xs ! k)) \<and> (n \<noteq> 0 \<and> lt (xs ! (b + 1)) (xs ! b) \<longrightarrow> b + 1 < j)"
proof (induction n arbitrary: b)
  case (Suc n)
  show ?case
  proof (cases "lt (xs ! (b + 1)) (xs ! b)")
    case True
    with Suc.prems have "decreasing_prefix lt xs (b + 1) (Suc n) = j" by simp
    note IH = Suc.IH [OF this]
    have "lt (xs ! (k + 1)) (xs ! k)" if "b \<le> k" "k + 1 < j" for k
      using IH that True by (cases "k = b") auto
    with IH show ?thesis by auto
  next
    case False
    with Suc.prems show ?thesis by auto
  qed
qed auto

lemma decreasing_suffix_run:
  "decreasing_suffix lt xs b (Suc n) = i \<Longrightarrow> b \<le> i \<and> i < b + Suc n \<and>
    (\<forall>k. i \<le> k \<and> k + 1 < b + Suc n \<longrightarrow> lt (xs ! (k + 1)) (xs ! k))"
proof (induction n)
  case (Suc n)
  show ?case
  proof (cases "lt (xs ! (b + n + 1)) (xs ! (b + n))")
    case True
    with Suc.prems have "decreasing_suffix lt xs b (Suc n) = i" by simp
    note IH = Suc.IH [OF this]
    have "lt (xs ! (k + 1)) (xs ! k)" if "i \<le> k" "k + 1 < b + Suc (Suc n)" for k
      using IH that True by (cases "k = b + n") auto
    with IH show ?thesis by auto
  next
    case False
    with Suc.prems show ?thesis by (auto simp: le_less_Suc_eq)
  qed
qed auto

lemma prefix_run:
  assumes "b + 1 < e" "lt (xs ! (b + 1)) (xs ! b)" "strictlyDecreasingPrefix lt xs b e = j"
  shows "b + 1 < j \<and> j \<le> e \<and> (\<forall>k. b \<le> k \<and> k + 1 < j \<longrightarrow> lt (xs ! (k + 1)) (xs ! k))"
proof -
  define n where "n = e - b - 1"
  have "e - b = Suc n" "n \<noteq> 0" "b + Suc n = e" using assms(1) by (simp_all add: n_def)
  with assms decreasing_prefix_run [of lt xs b n j] show ?thesis by (auto simp: strictlyDecreasingPrefix_def)
qed

lemma suffix_run:
  assumes "b < e" "strictlyDecreasingSuffix lt xs b e = i"
  shows "b \<le> i \<and> i < e \<and> (\<forall>k. i \<le> k \<and> k + 1 < e \<longrightarrow> lt (xs ! (k + 1)) (xs ! k))"
proof -
  define n where "n = e - b - 1"
  have "e - b = Suc n" "b + Suc n = e" using assms(1) by (simp_all add: n_def)
  with assms decreasing_suffix_run [of lt xs b n i] show ?thesis by (auto simp: strictlyDecreasingSuffix_def)
qed

text \<open>The two halves of the run overlap before the middle.\<close>

lemma joined_runs:
  assumes "\<forall>k. i \<le> k \<and> k + 1 < m \<longrightarrow> P (xs ! (k + 1)) (xs ! k)" "\<forall>k. m - 1 \<le> k \<and> k + 1 < j \<longrightarrow> P (xs ! (k + 1)) (xs ! k)"
    and "j \<le> length xs" "i < j"
  shows "\<forall>k. k + 1 < length (slice xs i j) \<longrightarrow> P (slice xs i j ! (k + 1)) (slice xs i j ! k)"
proof (intro allI impI)
  fix k assume "k + 1 < length (slice xs i j)"
  then have k: "i + k + 1 < j" using assms(3) by simp
  then have at: "slice xs i j ! (k + 1) = xs ! (i + k + 1)" "slice xs i j ! k = xs ! (i + k)"
    using nth_slice [of i "k + 1" j xs] nth_slice [of i k j xs] assms(3) by (simp_all add: add.assoc)
  show "P (slice xs i j ! (k + 1)) (slice xs i j ! k)"
    unfolding at using assms(1) [rule_format, of "i + k"] assms(2) [rule_format, of "i + k"] k
    by (cases "i + k + 1 < m") auto
qed

lemma increasing_sorts:
  assumes "\<forall>k. k + 1 < length ys \<longrightarrow> \<not> lt (ys ! (k + 1)) (ys ! k)"
  shows "sorts_to lt ys ys"
  unfolding sorts_to_def
proof (intro conjI allI impI)
  fix C assume lt: "lt = lt_of C"
  have "Sorting_Algorithms.sorted C ys"
    using assms
  proof (induction ys)
    case (Cons y ys)
    have "Sorting_Algorithms.sorted C ys"
      by (rule Cons.IH) (use Cons.prems in \<open>force dest: spec [of _ "Suc _"]\<close>)
    moreover have "compare C y z \<noteq> Greater" if "ys = z # zs" for z zs
      using Cons.prems [rule_format, of 0] that lt not_lt [of C z y] by simp
    ultimately show ?case by (rule sorted_ConsI)
  qed simp
  then show "ys = sort C ys" by (simp add: sort_sorted)
qed simp

lemma decreasing_sorts:
  assumes "\<forall>k. k + 1 < length ys \<longrightarrow> lt (ys ! (k + 1)) (ys ! k)"
  shows "sorts_to lt ys (rev ys)"
  unfolding sorts_to_def
proof (intro conjI allI impI)
  fix C assume lt: "lt = lt_of C"
  have "Sorting_Algorithms.sorted C (rev ys) \<and> (\<forall>y ys'. ys = y # ys' \<longrightarrow> (\<forall>u\<in>set ys'. compare C u y = Less)) \<and>
      (\<forall>z. stable_segment C z (rev ys) = stable_segment C z ys)"
    using assms
  proof (induction ys)
    case (Cons y ys)
    have IH: "Sorting_Algorithms.sorted C (rev ys)" "\<And>u us v. ys = u # us \<Longrightarrow> v \<in> set us \<Longrightarrow> compare C v u = Less"
      "\<And>z. stable_segment C z (rev ys) = stable_segment C z ys"
      using Cons.IH Cons.prems by (force dest: spec [of _ "Suc _"])+
    have less: "compare C u y = Less" if "u \<in> set ys" for u
    proof (cases ys)
      case (Cons v vs)
      have "compare C v y = Less" using Cons.prems [rule_format, of 0] Cons lt by (simp add: lt_of_def)
      with that IH(2) [OF Cons] Cons compare.trans_less show ?thesis by (metis set_ConsD)
    qed (use that in simp)
    have "stable_segment C z (rev (y # ys)) = stable_segment C z (y # ys)" for z
    proof (cases "compare C z y = Equiv")
      case True
      have "stable_segment C z ys = []"
        using less True by (metis (mono_tags, lifting) compare.sym compare.trans_equiv comp.distinct(1) filter_False)
      with IH(3) True show ?thesis by simp
    qed (use IH(3) in simp)
    with IH(1) less show ?case by (auto simp: sorted_append_iff)
  qed simp
  then show "rev ys = sort C ys" by (intro sort_eqI [symmetric]) simp_all
qed simp

lemma sorts_to_self: "sorts_to lt old new \<Longrightarrow> sorts_to lt new new"
  by (auto simp: sorts_to_def intro!: sort_sorted [symmetric])

lemma middle_run_sorts:
  assumes "l < m" "m < r" "r \<le> length xs" "middle_run lt xs l m r = (i, j, ys)"
  shows "l \<le> i \<and> i < m \<and> m < j \<and> j \<le> r \<and> (\<exists>zs. ys = replace_slice i j zs xs \<and> sorts_to lt (slice xs i j) zs)"
proof (cases "lt (xs ! m) (xs ! (m - 1))")
  case False
  let ?ge = "\<lambda>a b. \<not> lt a b"
  from False assms(4) have res: "strictlyDecreasingSuffix ?ge xs l m = i" "strictlyDecreasingPrefix ?ge xs (m - 1) r = j" "ys = xs"
    by (auto simp: middle_run_def weaklyIncreasingSuffix_def weaklyIncreasingPrefix_def)
  note i = suffix_run [OF assms(1) res(1)]
  have j: "m < j \<and> j \<le> r \<and> (\<forall>k. m - 1 \<le> k \<and> k + 1 < j \<longrightarrow> ?ge (xs ! (k + 1)) (xs ! k))"
    using prefix_run [OF _ _ res(2)] False assms(1,2) by simp
  have "sorts_to lt (slice xs i j) (slice xs i j)"
    by (rule increasing_sorts, rule joined_runs [where P = ?ge and m = m]) (use i j assms in auto)
  moreover have "ys = replace_slice i j (slice xs i j) xs" using i j assms(3) res(3) by simp
  ultimately show ?thesis using i j by blast
next
  case True
  with assms(4) have res: "strictlyDecreasingSuffix lt xs l m = i" "strictlyDecreasingPrefix lt xs (m - 1) r = j"
    "ys = replace_slice i j (rev (slice xs i j)) xs" by (auto simp: middle_run_def Let_def)
  note i = suffix_run [OF assms(1) res(1)]
  have j: "m < j \<and> j \<le> r \<and> (\<forall>k. m - 1 \<le> k \<and> k + 1 < j \<longrightarrow> lt (xs ! (k + 1)) (xs ! k))"
    using prefix_run [OF _ _ res(2)] True assms(1,2) by simp
  have "sorts_to lt (slice xs i j) (rev (slice xs i j))"
    by (rule decreasing_sorts, rule joined_runs [where P = lt and m = m]) (use i j assms in auto)
  with i j res(3) show ?thesis by blast
qed

section \<open>Peeksort\<close>

text \<open>What a call relies on: the ends of its range are sorted runs, or the range is sorted.\<close>

definition ready :: "('a \<Rightarrow> 'a \<Rightarrow> bool) \<Rightarrow> 'a list \<Rightarrow> nat \<Rightarrow> nat \<Rightarrow> nat \<Rightarrow> nat \<Rightarrow> bool" where
  "ready lt xs b e l r \<longleftrightarrow> b \<le> e \<and> e \<le> length xs \<and>
     ((l = e \<or> r = b) \<and> sorts_to lt (slice xs b e) (slice xs b e) \<or>
      b \<le> l \<and> l \<le> r \<and> r \<le> e \<and> sorts_to lt (slice xs b l) (slice xs b l) \<and> sorts_to lt (slice xs r e) (slice xs r e))"

text \<open>The depth of the recursion: a call on the same range is not divided in the middle.\<close>

definition depth :: "nat \<Rightarrow> nat \<Rightarrow> nat \<Rightarrow> nat \<Rightarrow> nat" where
  "depth b e l r = 2 * (e - b) + (if l < b + (e - b) div 2 \<and> b + (e - b) div 2 < r then 1 else 0)"

definition sorted_by :: "('a list \<Rightarrow> 'a list option) \<Rightarrow> ('a \<Rightarrow> 'a \<Rightarrow> bool) \<Rightarrow> nat \<Rightarrow> nat \<Rightarrow> 'a list \<Rightarrow> bool" where
  "sorted_by run lt b e xs \<longleftrightarrow> (\<exists>ys. run xs = Some (replace_slice b e ys xs) \<and> sorts_to lt (slice xs b e) ys)"

lemma sorts_to_single: "sorts_to lt [x] [x]" "sorts_to lt [] []"
  by (simp_all add: sorts_to_def)

lemma ready_replaced:
  assumes "ready lt xs m e l r" "b \<le> m" "length ys = m - b"
  shows "ready lt (replace_slice b m ys xs) m e l r"
  using assms slice_of_replaced(1,3) [of b m xs ys] by (auto simp: ready_def)

lemma merge_step:
  assumes "b \<le> m" "m \<le> e" "e \<le> length xs" "sorts_to lt (slice xs b m) ys" "sorts_to lt (slice xs m e) zs"
  shows "mergeSortedRunsInPlace lt b m e (replace_slice b e (ys @ zs) xs) = replace_slice b e (merge_runs lt ys zs) xs"
    "sorts_to lt (slice xs b e) (merge_runs lt ys zs)"
proof -
  have len: "length ys = m - b" "length zs = e - m" using assms sorts_to_length by fastforce+
  let ?xs = "replace_slice b e (ys @ zs) xs"
  have len_xs: "m \<le> length xs" "length (replace_slice b m ys xs) = length xs" "length (replace_slice m e zs xs) = length xs"
    using assms(1-3) slice_of_replaced(1) [of b m xs ys] slice_of_replaced(1) [of m e xs zs] len by simp_all
  have xs: "?xs = replace_slice m e zs (replace_slice b m ys xs)" "?xs = replace_slice b m ys (replace_slice m e zs xs)"
    by (rule replace_slices(1,2) [OF assms(1-3) len, symmetric])+
  have "slice ?xs b m = ys" unfolding xs(2) by (rule slice_of_replaced(2)) (use assms(1) len len_xs in simp_all)
  moreover have "slice ?xs m e = zs" unfolding xs(1) by (rule slice_of_replaced(2)) (use assms(2,3) len len_xs in simp_all)
  ultimately show "mergeSortedRunsInPlace lt b m e ?xs = replace_slice b e (merge_runs lt ys zs) xs"
    unfolding mergeSortedRunsInPlace_def by (simp only: replace_slices(3) [OF assms(1-3) len])
  show "sorts_to lt (slice xs b e) (merge_runs lt ys zs)"
    using sorts_to_merge [OF assms(4,5)] slice_split [OF assms(1,2), of xs] by simp
qed

lemma right_then_merge:
  assumes "b \<le> m" "m \<le> e" "e \<le> length xs" "sorts_to lt (slice xs b m) (slice xs b m)" "sorted_by run lt m e xs"
  shows "sorted_by (\<lambda>xs. Option.bind (run xs) (\<lambda>xs. Some (mergeSortedRunsInPlace lt b m e xs))) lt b e xs"
proof -
  obtain zs where zs: "run xs = Some (replace_slice m e zs xs)" "sorts_to lt (slice xs m e) zs" using assms(5) by (auto simp: sorted_by_def)
  have "replace_slice m e zs xs = replace_slice b e (slice xs b m @ zs) xs"
    using assms sorts_to_length [OF zs(2)] replace_slices(1) [of b m e xs "slice xs b m" zs] by simp
  with merge_step [OF assms(1-4) zs(2)] zs(1) show ?thesis by (auto simp: sorted_by_def)
qed

lemma left_then_merge:
  assumes "b \<le> m" "m \<le> e" "e \<le> length xs" "sorted_by run lt b m xs" "sorts_to lt (slice xs m e) (slice xs m e)"
  shows "sorted_by (\<lambda>xs. Option.bind (run xs) (\<lambda>xs. Some (mergeSortedRunsInPlace lt b m e xs))) lt b e xs"
proof -
  obtain ys where ys: "run xs = Some (replace_slice b m ys xs)" "sorts_to lt (slice xs b m) ys" using assms(4) by (auto simp: sorted_by_def)
  have "replace_slice b m ys xs = replace_slice b e (ys @ slice xs m e) xs"
    using assms sorts_to_length [OF ys(2)] replace_slices(2) [of b m e xs ys "slice xs m e"] by simp
  with merge_step [OF assms(1-3) ys(2) assms(5)] ys(1) show ?thesis by (auto simp: sorted_by_def)
qed

lemma both_then_merge:
  assumes "b \<le> m" "m \<le> e" "e \<le> length xs" "sorted_by run1 lt b m xs"
    and second: "\<And>ys. length ys = m - b \<Longrightarrow> sorted_by run2 lt m e (replace_slice b m ys xs)"
  shows "sorted_by (\<lambda>xs. Option.bind (run1 xs) (\<lambda>xs. Option.bind (run2 xs) (\<lambda>xs. Some (mergeSortedRunsInPlace lt b m e xs)))) lt b e xs"
proof -
  obtain ys where ys: "run1 xs = Some (replace_slice b m ys xs)" "sorts_to lt (slice xs b m) ys" using assms(4) by (auto simp: sorted_by_def)
  have len: "length ys = m - b" using sorts_to_length [OF ys(2)] assms by simp
  let ?xs = "replace_slice b m ys xs"
  obtain zs where zs: "run2 ?xs = Some (replace_slice m e zs ?xs)" "sorts_to lt (slice ?xs m e) zs"
    using second [OF len] by (auto simp: sorted_by_def)
  have right: "sorts_to lt (slice xs m e) zs" using zs(2) slice_of_replaced(3) [of b m xs ys m e] assms len by simp
  have "replace_slice m e zs ?xs = replace_slice b e (ys @ zs) xs"
    using assms len sorts_to_length [OF right] replace_slices(1) [of b m e xs ys zs] by simp
  with merge_step [OF assms(1-3) ys(2) right] ys(1) zs(1) show ?thesis by (auto simp: sorted_by_def)
qed

lemma sorted_by_within:
  assumes "b \<le> i" "i \<le> j" "j \<le> e" "e \<le> length xs" "sorts_to lt (slice xs i j) zs"
    and "sorted_by run lt b e (replace_slice i j zs xs)"
  shows "\<exists>ws. run (replace_slice i j zs xs) = Some (replace_slice b e ws xs) \<and> sorts_to lt (slice xs b e) ws"
proof -
  have len: "length zs = j - i" using assms sorts_to_length by fastforce
  obtain ws where ws: "run (replace_slice i j zs xs) = Some (replace_slice b e ws (replace_slice i j zs xs))"
    "sorts_to lt (slice (replace_slice i j zs xs) b e) ws" using assms(6) by (auto simp: sorted_by_def)
  note within = replace_within [OF assms(1-4) len]
  have "slice xs b e = slice xs b i @ slice xs i j @ slice xs j e"
    using assms slice_split [of b i e xs] slice_split [of i j e xs] by simp
  then have "sorts_to lt (slice xs b e) ws" using sorts_to_within [OF assms(5)] ws(2) within(2) by simp
  with ws(1) within(1) show ?thesis by auto
qed

text \<open>The calls on both sides of the run in the middle.\<close>

lemma middle_calls:
  assumes ready: "ready lt xs b e l r" "b \<le> l" "l \<le> i" "i < m" "m < j" "j \<le> r" "r \<le> e" "e \<le> length xs"
    and runs: "sorts_to lt (slice xs b l) (slice xs b l)" "sorts_to lt (slice xs r e) (slice xs r e)"
    and zs: "sorts_to lt (slice xs i j) zs"
  defines "ys \<equiv> replace_slice i j zs xs"
  shows "ready lt ys b i l (i - 1)" "ready lt ys i e j r" "ready lt ys b j l i" "ready lt ys j e (j + 1) r"
    "i = b \<Longrightarrow> j = e \<Longrightarrow> sorts_to lt (slice ys b e) (slice ys b e)"
proof -
  have len: "length zs = j - i" using zs ready sorts_to_length by fastforce
  have ij: "i \<le> j" "j \<le> length xs" using ready by simp_all
  note replaced = slice_of_replaced [OF ij len, folded ys_def]
  have left: "slice ys b l = slice xs b l" using replaced(4) ready by simp
  have right: "slice ys r e = slice xs r e" using replaced(3) ready by simp
  have mid: "sorts_to lt (slice ys i j) (slice ys i j)" using replaced(2) sorts_to_self [OF zs] by simp
  have single: "sorts_to lt (slice ys k (Suc k)) (slice ys k (Suc k))" if "k < length ys" for k
    using that slice_single [of k ys] sorts_to_single by simp
  show "ready lt ys b i l (i - 1)"
  proof (cases "l = i")
    case True
    with left runs(1) ready replaced(1) show ?thesis by (simp add: ready_def)
  next
    case False
    then have "l \<le> i - 1" "i - 1 < length ys" "Suc (i - 1) = i" using ready replaced(1) by simp_all
    with left runs(1) ready replaced(1) single [of "i - 1"] show ?thesis by (simp add: ready_def)
  qed
  show "ready lt ys i e j r" using mid right runs(2) ready replaced(1) by (simp add: ready_def)
  show "ready lt ys b j l i" using mid left runs(1) ready replaced(1) by (simp add: ready_def)
  show "ready lt ys j e (j + 1) r"
  proof (cases "r = j")
    case True
    with right runs(2) ready replaced(1) show ?thesis by (simp add: ready_def)
  next
    case False
    with right runs(2) ready replaced(1) single [of j] show ?thesis by (simp add: ready_def)
  qed
  show "i = b \<Longrightarrow> j = e \<Longrightarrow> sorts_to lt (slice ys b e) (slice ys b e)" using mid by simp
qed

lemma depth_smaller: "b \<le> b' \<Longrightarrow> e' \<le> e \<Longrightarrow> e' - b' < e - b \<Longrightarrow> depth b' e' l r < 2 * (e - b)"
  by (simp add: depth_def)

lemma middle_depths:
  assumes "b \<le> i" "i < b + (e - b) div 2" "b + (e - b) div 2 < j" "j \<le> e"
  shows "depth b i l' r' < Suc (2 * (e - b))" "depth i e j r' < Suc (2 * (e - b))"
    "depth b j l' i < Suc (2 * (e - b))" "depth j e l' r' < Suc (2 * (e - b))"
proof -
  have bound: "depth b' e' l r \<le> 2 * (e' - b') + 1" for b' e' l r by (simp add: depth_def)
  have "2 * (i - b) + 1 < Suc (2 * (e - b))" "2 * (e - j) + 1 < Suc (2 * (e - b))" using assms by simp_all
  with bound [of b i l' r'] bound [of j e l' r']
  show "depth b i l' r' < Suc (2 * (e - b))" "depth j e l' r' < Suc (2 * (e - b))" by linarith+
  show "depth i e j r' < Suc (2 * (e - b))"
  proof (cases "i = b")
    case False
    then have "2 * (e - i) + 1 < Suc (2 * (e - b))" using assms by simp
    with bound [of i e j r'] show ?thesis by linarith
  qed (use assms in \<open>simp add: depth_def\<close>)
  show "depth b j l' i < Suc (2 * (e - b))"
  proof (cases "j = e")
    case False
    then have "2 * (j - b) + 1 < Suc (2 * (e - b))" using assms by simp
    with bound [of b j l' i] show ?thesis by linarith
  qed (use assms in \<open>simp add: depth_def\<close>)
qed

lemma body_middle:
  assumes self: "\<And>b' e' l' r' ys. ready lt ys b' e' l' r' \<Longrightarrow> depth b' e' l' r' < depth b e l r \<Longrightarrow> sorted_by (self b' e' l' r') lt b' e' ys"
    and ready: "ready lt xs b e l r" and range: "b \<le> l" "r \<le> e" "b \<le> e" "e \<le> length xs"
    and runs: "sorts_to lt (slice xs b l) (slice xs b l)" "sorts_to lt (slice xs r e) (slice xs r e)"
    and big: "insertionsortThreshold < e - b" and middle: "l < b + (e - b) div 2" "b + (e - b) div 2 < r"
    and ends: "l \<noteq> e" "r \<noteq> b"
  shows "sorted_by (peeksort_body self lt b e l r) lt b e xs"
proof -
  let ?m = "b + (e - b) div 2"
  have "r \<le> length xs" using range by simp
  obtain i j ys where run: "middle_run lt xs l ?m r = (i, j, ys)" by (metis prod_cases3)
  from middle_run_sorts [OF middle \<open>r \<le> length xs\<close> this]
  obtain zs where ij: "l \<le> i" "i < ?m" "?m < j" "j \<le> r" and ys: "ys = replace_slice i j zs xs" and zs: "sorts_to lt (slice xs i j) zs"
    by blast
  note calls = middle_calls [OF ready range(1) ij range(2,4) runs zs, folded ys]
  have "length zs = j - i" using sorts_to_length [OF zs] ij range by simp
  then have len: "length ys = length xs" using slice_of_replaced(1) [of i j xs zs] ij range ys by simp
  have small: "b < ?m" "?m < e" using big by (simp_all add: insertionsortThreshold_def)
  have top: "depth b e l r = Suc (2 * (e - b))" using middle by (simp add: depth_def)
  have be: "b \<le> i" "j \<le> e" using ij range by simp_all
  have depths: "depth b i l (i - 1) < depth b e l r" "depth i e j r < depth b e l r"
    "depth b j l i < depth b e l r" "depth j e (j + 1) r < depth b e l r"
    unfolding top by (rule middle_depths [OF be(1) ij(2,3) be(2)])+
  have calls_sorted: "sorted_by (self b i l (i - 1)) lt b i ys" "sorted_by (self b j l i) lt b j ys"
    by (rule self [OF calls(1)], use depths in simp) (rule self [OF calls(3)], use depths in simp)
  have second: "sorted_by (self i e j r) lt i e (replace_slice b i us ys)" if "length us = i - b" for us
    using self [OF ready_replaced [OF calls(2) _ that] depths(2)] ij range by simp
  have fourth: "sorted_by (self j e (j + 1) r) lt j e (replace_slice b j us ys)" if "length us = j - b" for us
    using self [OF ready_replaced [OF calls(4) _ that] depths(4)] ij range by simp
  let ?rest = "\<lambda>ys. if i = b \<and> j = e then Some ys
      else if ?m - i < j - ?m then Option.bind (self b i l (i - 1) ys) (\<lambda>xs. Option.bind (self i e j r xs)
          (\<lambda>xs. Some (mergeSortedRunsInPlace lt b i e xs)))
      else Option.bind (self b j l i ys) (\<lambda>xs. Option.bind (self j e (j + 1) r xs)
          (\<lambda>xs. Some (mergeSortedRunsInPlace lt b j e xs)))"
  have "sorted_by ?rest lt b e ys"
  proof (cases "i = b \<and> j = e")
    case True
    with calls(5) range len show ?thesis unfolding sorted_by_def by (intro exI [of _ "slice ys b e"]) simp
  next
    case False
    with both_then_merge [OF _ _ _ calls_sorted(1) second] both_then_merge [OF _ _ _ calls_sorted(2) fourth] ij range len
    have both: "sorted_by (\<lambda>ys. Option.bind (self b i l (i - 1) ys) (\<lambda>xs. Option.bind (self i e j r xs)
          (\<lambda>xs. Some (mergeSortedRunsInPlace lt b i e xs)))) lt b e ys"
      "sorted_by (\<lambda>ys. Option.bind (self b j l i ys) (\<lambda>xs. Option.bind (self j e (j + 1) r xs)
          (\<lambda>xs. Some (mergeSortedRunsInPlace lt b j e xs)))) lt b e ys" by simp_all
    show ?thesis
      by (cases "?m - i < j - ?m") (use both in \<open>simp_all only: if_not_P [OF False] if_True if_False\<close>)
  qed
  then have rest: "\<exists>ws. ?rest ys = Some (replace_slice b e ws xs) \<and> sorts_to lt (slice xs b e) ws"
    unfolding ys by (intro sorted_by_within [OF be(1) _ be(2) range(4) zs]) (use ij in simp_all)
  have "peeksort_body self lt b e l r xs = ?rest ys"
    using ends big middle run by (simp add: peeksort_body_def Let_def)
  with rest show ?thesis by (simp only: sorted_by_def)
qed

lemma body_sorts:
  assumes self: "\<And>b' e' l' r' ys. ready lt ys b' e' l' r' \<Longrightarrow> depth b' e' l' r' < depth b e l r \<Longrightarrow> sorted_by (self b' e' l' r') lt b' e' ys"
    and ready: "ready lt xs b e l r"
  shows "sorted_by (peeksort_body self lt b e l r) lt b e xs"
proof -
  have be: "b \<le> e" "e \<le> length xs" using ready by (simp_all add: ready_def)
  consider (sorted) "l = e \<or> r = b" | (short) "l \<noteq> e" "r \<noteq> b" "e - b \<le> insertionsortThreshold"
    | (long) "l \<noteq> e" "r \<noteq> b" "insertionsortThreshold < e - b" by linarith
  then show ?thesis
  proof cases
    case sorted
    with ready have "sorts_to lt (slice xs b e) (slice xs b e)" by (auto simp: ready_def)
    then show ?thesis unfolding sorted_by_def peeksort_body_def using sorted be by (intro exI [of _ "slice xs b e"]) simp
  next
    case short
    have "b < e" using short ready by (auto simp: ready_def)
    from insertionsort_sorts [OF this be(2), of lt] short show ?thesis by (simp add: sorted_by_def peeksort_body_def)
  next
    case long
    then have range: "b \<le> l" "l \<le> r" "r \<le> e" "sorts_to lt (slice xs b l) (slice xs b l)" "sorts_to lt (slice xs r e) (slice xs r e)"
      and big: "16 < e - b" using ready by (auto simp: ready_def insertionsortThreshold_def)
    let ?m = "b + (e - b) div 2"
    have m: "b < ?m" "?m < e" using big by simp_all
    have single: "sorts_to lt (slice xs k (Suc k)) (slice xs k (Suc k))" if "k < length xs" for k
      using that slice_single [of k xs] sorts_to_single by simp
    consider (left) "?m \<le> l" | (right) "l < ?m" "r \<le> ?m" | (middle) "l < ?m" "?m < r" by linarith
    then show ?thesis
    proof cases
      case left
      have "ready lt xs l e (l + 1) r"
      proof (cases "r = l")
        case False
        with long left range be single [of l] m show ?thesis by (simp add: ready_def)
      qed (use range be m in \<open>simp add: ready_def\<close>)
      moreover have "depth l e (l + 1) r < depth b e l r"
        using depth_smaller [of b l e e "l + 1" r] left m range by (simp add: depth_def [of b])
      ultimately have "sorted_by (self l e (l + 1) r) lt l e xs" by (rule self)
      from right_then_merge [OF range(1) _ be(2) range(4) this] long left m range
      show ?thesis by (simp add: sorted_by_def peeksort_body_def Let_def)
    next
      case right
      have "ready lt xs b r l (r - 1)"
      proof (cases "l = r")
        case False
        then have "l \<le> r - 1" "r - 1 < length xs" "Suc (r - 1) = r" using range be m by simp_all
        with long right range be single [of "r - 1"] m show ?thesis by (simp add: ready_def)
      qed (use range be m in \<open>simp add: ready_def\<close>)
      moreover have "r - b < e - b" using right m range by simp
      then have "depth b r l (r - 1) < depth b e l r" using right by (simp add: depth_def)
      ultimately have "sorted_by (self b r l (r - 1)) lt b r xs" by (rule self)
      from left_then_merge [OF _ range(3) be(2) this range(5)] long right m range
      show ?thesis by (simp add: sorted_by_def peeksort_body_def Let_def)
    next
      case middle
      show ?thesis by (rule body_middle [OF self ready range(1,3) be range(4,5) long(3) middle long(1,2)])
    qed
  qed
qed

lemma peeksortImpl_sorts:
  "ready lt xs b e l r \<Longrightarrow> depth b e l r < n \<Longrightarrow> sorted_by (peeksortImpl n lt b e l r) lt b e xs"
proof (induction n arbitrary: xs b e l r)
  case (Suc n)
  have "sorted_by (peeksort_body (peeksortImpl n lt) lt b e l r) lt b e xs"
    by (rule body_sorts [OF Suc.IH Suc.prems(1)]) (use Suc.prems(2) in simp_all)
  then show ?case by (simp add: sorted_by_def)
qed simp

lemma peeksort_sorts: "\<exists>ys. peeksort lt xs = Some ys \<and> sorts_to lt xs ys"
proof -
  consider "xs = []" | x where "xs = [x]" | x y where "xs = [x, y]" | "2 < length xs"
    by (cases xs rule: remdups_adj.cases) (force simp: numeral_2_eq_2 neq_Nil_conv)+
  then show ?thesis
  proof cases
    case (3 x y)
    show ?thesis
    proof (cases "lt y x")
      case True
      have "sorts_to lt [x, y] (rev [x, y])" by (rule decreasing_sorts) (use True in simp)
      with True 3 show ?thesis by (simp add: peeksort_def swap_def)
    next
      case False
      have "sorts_to lt [x, y] [x, y]" by (rule increasing_sorts) (use False in simp)
      with False 3 show ?thesis by (simp add: peeksort_def)
    qed
  next
    case 4
    have "ready lt xs 0 (length xs) 0 (length xs)" by (simp add: ready_def sorts_to_single)
    moreover have "depth 0 (length xs) 0 (length xs) < 2 * length xs + 2" by (simp add: depth_def)
    ultimately have "sorted_by (peeksortImpl (2 * length xs + 2) lt 0 (length xs) 0 (length xs)) lt 0 (length xs) xs"
      by (rule peeksortImpl_sorts)
    with 4 show ?thesis by (auto simp: sorted_by_def peeksort_def replace_slice_def)
  qed (simp_all add: peeksort_def sorts_to_single)
qed

text \<open>
  C8: Whatever the comparator answers, sorting ends, within its fuel, with a permutation of the
  range; and when the comparator is the strict part of a weak order, the result is that of the stable
  sort of the library.
\<close>

theorem peeksort_stable_sort:
  "(\<exists>ys. peeksort lt xs = Some ys \<and> mset ys = mset xs) \<and> peeksort (lt_of C) xs = Some (sort C xs)"
  using peeksort_sorts [of lt xs] peeksort_sorts [of "lt_of C" xs] by (auto simp: sorts_to_def)

end
