(* ===== verification/Attr_Set.thy ===== *)
theory Attr_Set
  imports Prelude
begin

text \<open>
  Attribute sets of the evaluator (\<^verbatim>\<open>libexpr/include/nix/expr/attr-set.hh\<close>): sorted arrays of
  attributes that are layered on top of each other, their lookup, the iterator that merges the layers,
  the builder, and the update operator \<open>//\<close> of \<^verbatim>\<open>libexpr/eval.cc\<close>. A pointer into an array is the
  rest of the array from there, the null pointer the empty list.
\<close>

section \<open>Bindings\<close>

type_synonym Symbol = nat

record 'v Attr =
  attr_name :: Symbol
  attr_pos :: nat
  attr_value :: 'v

datatype 'v Bindings = Bindings (attrs: "'v Attr list") (numAttrsInChain: nat) (numLayers: nat) (baseLayer: "'v Bindings option")

definition maxLayers :: nat where
  "maxLayers = 8"

definition emptyBindings :: "'v Bindings" where
  "emptyBindings = Bindings [] 0 1 None"

definition bindings_size :: "'v Bindings \<Rightarrow> nat" where
  "bindings_size b = numAttrsInChain b"

definition bindings_empty :: "'v Bindings \<Rightarrow> bool" where
  "bindings_empty b \<longleftrightarrow> bindings_size b = 0"

definition isLayerListFull :: "'v Bindings \<Rightarrow> bool" where
  "isLayerListFull b \<longleftrightarrow> numLayers b = maxLayers"

definition isLayered :: "'v Bindings \<Rightarrow> bool" where
  "isLayered b \<longleftrightarrow> numLayers b > 1"

section \<open>Lookup\<close>

text \<open>\<^verbatim>\<open>std::lower_bound\<close> finds the first attribute that is not less than the key.\<close>

definition getInChunk :: "Symbol \<Rightarrow> 'v Attr list \<Rightarrow> 'v Attr option" where
  "getInChunk key chunk = (case dropWhile (\<lambda>a. attr_name a < key) chunk of
     [] \<Rightarrow> None
   | a # _ \<Rightarrow> if attr_name a = key then Some a else None)"

fun get_attr :: "'v Bindings \<Rightarrow> Symbol \<Rightarrow> 'v Attr option" where
  "get_attr (Bindings xs n l base) key = (case getInChunk key xs of
     Some a \<Rightarrow> Some a
   | None \<Rightarrow> (case base of None \<Rightarrow> None | Some b \<Rightarrow> get_attr b key))"

section \<open>Iteration\<close>

record 'v cursor =
  remaining :: "'v Attr list"
  priority :: nat

definition cursor_name :: "'v cursor \<Rightarrow> Symbol" where
  "cursor_name c = attr_name (hd (remaining c))"

definition cursor_less :: "'v cursor \<Rightarrow> 'v cursor \<Rightarrow> bool" where
  "cursor_less c d \<longleftrightarrow> cursor_name c < cursor_name d \<or> cursor_name c = cursor_name d \<and> priority c < priority d"

definition consume :: "Symbol \<Rightarrow> 'v cursor \<Rightarrow> 'v cursor" where
  "consume name c = c\<lparr>remaining := dropWhile (\<lambda>a. attr_name a \<le> name) (remaining c)\<rparr>"

text \<open>The heap is a list in any order; the standard library removes its least element.\<close>

fun least_cursor :: "'v cursor list \<Rightarrow> 'v cursor" where
  "least_cursor [] = \<lparr>remaining = [], priority = 0\<rparr>"
| "least_cursor [c] = c"
| "least_cursor (c # cs) = (let d = least_cursor cs in if cursor_less d c then d else c)"

definition pop_cursor :: "'v cursor list \<Rightarrow> 'v cursor \<times> 'v cursor list" where
  "pop_cursor heap = (least_cursor heap, remove1 (least_cursor heap) heap)"

definition push_cursor :: "'v cursor \<Rightarrow> 'v cursor list \<Rightarrow> 'v cursor list" where
  "push_cursor c heap = heap @ [c]"

record 'v attr_iter =
  cursorHeap :: "'v cursor list"
  current :: "'v Attr list"
  doMerge :: bool

definition next_cursor :: "'v cursor \<Rightarrow> 'v attr_iter \<Rightarrow> 'v attr_iter" where
  "next_cursor c it = it\<lparr>current := remaining c,
     cursorHeap := (if tl (remaining c) = [] then cursorHeap it
                    else push_cursor (c\<lparr>remaining := tl (remaining c)\<rparr>) (cursorHeap it))\<rparr>"

definition cursors_size :: "'v cursor list \<Rightarrow> nat" where
  "cursors_size heap = sum_list (map (\<lambda>c. Suc (length (remaining c))) heap)"

lemma least_cursor_in: "heap \<noteq> [] \<Longrightarrow> least_cursor heap \<in> set heap"
  by (induction heap rule: least_cursor.induct) (auto simp: Let_def)

lemma pop_cursor_size: "heap \<noteq> [] \<Longrightarrow> pop_cursor heap = (c, rest) \<Longrightarrow> cursors_size (c # rest) = cursors_size heap"
  using least_cursor_in [of heap] by (auto simp: pop_cursor_def cursors_size_def sum_list_map_remove1)

lemma consume_size: "cursor_name c \<le> n \<Longrightarrow> remaining c \<noteq> [] \<Longrightarrow> length (remaining (consume n c)) < length (remaining c)"
  by (cases "remaining c") (auto simp: cursor_name_def consume_def le_imp_less_Suc length_dropWhile_le)

function consume_loop :: "Symbol \<Rightarrow> 'v cursor \<Rightarrow> 'v cursor list \<Rightarrow> 'v cursor option \<times> 'v cursor list" where
  "consume_loop lastHandledName c heap =
     (if cursor_name c \<le> lastHandledName then
        let c' = consume lastHandledName c;
            heap' = (if remaining c' = [] then heap else push_cursor c' heap)
        in if heap' = [] then (None, heap')
           else consume_loop lastHandledName (fst (pop_cursor heap')) (snd (pop_cursor heap'))
      else (Some c, heap))"
  by auto

termination
proof (relation "measure (\<lambda>(_, c, heap). cursors_size (c # heap))", goal_cases)
  case (2 n c heap c' heap')
  have "cursors_size heap' < cursors_size (c # heap)"
  proof (cases "remaining c = []")
    case True
    with 2 have "heap' = heap" by (simp add: consume_def)
    then show ?thesis by (simp add: cursors_size_def)
  next
    case False
    with 2 consume_size [OF 2(1) False] show ?thesis by (simp add: cursors_size_def push_cursor_def)
  qed
  moreover have "cursors_size (fst (pop_cursor heap') # snd (pop_cursor heap')) = cursors_size heap'"
    by (rule pop_cursor_size) (use 2 in simp_all)
  ultimately show ?case by (simp add: case_prod_beta)
qed simp

definition consumeAllUntilCurrentName :: "'v attr_iter \<Rightarrow> 'v cursor option \<times> 'v attr_iter" where
  "consumeAllUntilCurrentName it =
     (case consume_loop (attr_name (hd (current it))) (fst (pop_cursor (cursorHeap it))) (snd (pop_cursor (cursorHeap it))) of
        (c, heap) \<Rightarrow> (c, it\<lparr>cursorHeap := heap\<rparr>))"

text \<open>The cursors of the non-empty layers, with the position of the layer as their priority among them.\<close>

fun layer_cursors :: "nat \<Rightarrow> 'v Bindings \<Rightarrow> 'v cursor list" where
  "layer_cursors p (Bindings xs n l base) =
     (let rest = (\<lambda>p. case base of None \<Rightarrow> [] | Some b \<Rightarrow> layer_cursors p b) in
      if xs \<noteq> [] then \<lparr>remaining = xs, priority = p\<rparr> # rest (p + 1) else rest p)"

definition attr_iter_begin :: "'v Bindings \<Rightarrow> 'v attr_iter" where
  "attr_iter_begin b =
     (if baseLayer b = None then
        (if bindings_empty b then \<lparr>cursorHeap = [], current = [], doMerge = False\<rparr>
         else \<lparr>cursorHeap = [\<lparr>remaining = attrs b, priority = 0\<rparr>], current = attrs b, doMerge = False\<rparr>)
      else let heap = layer_cursors 0 b; it = \<lparr>cursorHeap = heap, current = [], doMerge = True\<rparr> in
        if heap = [] then it else next_cursor (fst (pop_cursor heap)) (it\<lparr>cursorHeap := snd (pop_cursor heap)\<rparr>))"

definition attr_iter_next :: "'v attr_iter \<Rightarrow> 'v attr_iter" where
  "attr_iter_next it =
     (if \<not> doMerge it then it\<lparr>current := tl (current it)\<rparr>
      else if cursorHeap it = [] then it\<lparr>current := []\<rparr>
      else case consumeAllUntilCurrentName it of
          (None, it) \<Rightarrow> it\<lparr>current := []\<rparr>
        | (Some c, it) \<Rightarrow> next_cursor c it)"

text \<open>The attributes that a loop from an iterator to the end sees, \<open>None\<close> if it takes more steps.\<close>

fun loop_from :: "nat \<Rightarrow> 'v attr_iter \<Rightarrow> 'v Attr list option" where
  "loop_from 0 it = (if current it = [] then Some [] else None)"
| "loop_from (Suc n) it =
     (if current it = [] then Some [] else map_option ((#) (hd (current it))) (loop_from n (attr_iter_next it)))"

fun chain_length :: "'v Bindings \<Rightarrow> nat" where
  "chain_length (Bindings xs n l base) = length xs + (case base of None \<Rightarrow> 0 | Some b \<Rightarrow> chain_length b)"

definition entries :: "'v Bindings \<Rightarrow> 'v Attr list option" where
  "entries b = loop_from (chain_length b) (attr_iter_begin b)"

section \<open>Building and updating\<close>

text \<open>\<^verbatim>\<open>std::set_intersection\<close> of two sorted ranges, counted.\<close>

fun count_common :: "'v Attr list \<Rightarrow> 'v Attr list \<Rightarrow> nat" where
  "count_common (a # as) (b # bs) =
     (if attr_name a < attr_name b then count_common as (b # bs)
      else if attr_name b < attr_name a then count_common (a # as) bs
      else Suc (count_common as bs))"
| "count_common _ _ = 0"

definition finishSizeIfNecessary :: "'v Bindings \<Rightarrow> 'v Bindings option" where
  "finishSizeIfNecessary b = (case baseLayer b of
     None \<Rightarrow> Some b
   | Some base \<Rightarrow>
       map_option (\<lambda>duplicates. Bindings (attrs b) (numAttrsInChain base + length (attrs b) - duplicates) (numLayers b) (baseLayer b))
         (if length (attrs b) > bindings_size base then map_option (\<lambda>bs. count_common bs (attrs b)) (entries base)
          else Some (length (filter (\<lambda>a. get_attr base (attr_name a) \<noteq> None) (attrs b)))))"

text \<open>Attributes pushed to a builder; \<open>finish\<close> sorts them, \<open>alreadySorted\<close> does not.\<close>

definition push_back_all :: "'v Attr list \<Rightarrow> 'v Bindings" where
  "push_back_all xs = Bindings xs (length xs) 1 None"

definition layerOnTopOf :: "'v Bindings \<Rightarrow> 'v Bindings \<Rightarrow> 'v Bindings" where
  "layerOnTopOf b base = Bindings (attrs b) (numAttrsInChain b) (numLayers base + 1) (Some base)"

definition bindings_sort :: "'v Bindings \<Rightarrow> 'v Bindings" where
  "bindings_sort b = Bindings (sort_key attr_name (attrs b)) (numAttrsInChain b) (numLayers b) (baseLayer b)"

definition finish :: "'v Bindings \<Rightarrow> 'v Bindings option" where
  "finish b = finishSizeIfNecessary (bindings_sort b)"

definition alreadySorted :: "'v Bindings \<Rightarrow> 'v Bindings option" where
  "alreadySorted b = finishSizeIfNecessary b"

fun merge_attrs :: "'v Attr list \<Rightarrow> 'v Attr list \<Rightarrow> 'v Attr list" where
  "merge_attrs (i # is) (j # js) =
     (if attr_name i = attr_name j then j # merge_attrs is js
      else if attr_name i < attr_name j then i # merge_attrs is (j # js)
      else j # merge_attrs (i # is) js)"
| "merge_attrs is [] = is"
| "merge_attrs [] js = js"

text \<open>The operator \<open>//\<close> on two attribute sets, for the setting of the size up to which the right one is layered.\<close>

definition op_update :: "nat \<Rightarrow> 'v Bindings \<Rightarrow> 'v Bindings \<Rightarrow> 'v Bindings option" where
  "op_update threshold bindings1 bindings2 =
     (if bindings_empty bindings1 then Some bindings2
      else if bindings_empty bindings2 then Some bindings1
      else if \<not> isLayerListFull bindings1 \<and> \<not> bindings_size bindings2 > threshold then
        Option.bind (entries bindings2) (\<lambda>xs. alreadySorted (layerOnTopOf (push_back_all xs) bindings1))
      else
        Option.bind (entries bindings1) (\<lambda>xs. Option.bind (entries bindings2) (\<lambda>ys.
          alreadySorted (push_back_all (merge_attrs xs ys)))))"

text \<open>A chain of updates: the queue has the rightmost operand first.\<close>

datatype 'v update_expr = Operand "'v Bindings" | Update "'v update_expr" "'v update_expr"

fun evalForUpdate :: "'v update_expr \<Rightarrow> 'v Bindings list \<Rightarrow> 'v Bindings list" where
  "evalForUpdate (Operand b) q = q @ [b]"
| "evalForUpdate (Update e1 e2) q = evalForUpdate e1 (evalForUpdate e2 q)"

fun update_queue :: "nat \<Rightarrow> 'v Bindings \<Rightarrow> 'v Bindings list \<Rightarrow> 'v Bindings option" where
  "update_queue threshold acc [] = Some acc"
| "update_queue threshold acc (rhs # q) = Option.bind (op_update threshold acc rhs) (\<lambda>acc. update_queue threshold acc q)"

definition ExprOpUpdate_eval :: "nat \<Rightarrow> 'v update_expr \<Rightarrow> 'v Bindings option" where
  "ExprOpUpdate_eval threshold e = update_queue threshold emptyBindings (rev (evalForUpdate e []))"

section \<open>Well-formed attribute sets\<close>

text \<open>The attributes as a map: earlier layers take precedence.\<close>

fun attr_map :: "'v Bindings \<Rightarrow> Symbol \<Rightarrow> 'v Attr option" where
  "attr_map (Bindings xs n l base) =
     (case base of None \<Rightarrow> Map.empty | Some b \<Rightarrow> attr_map b) ++ map_of (map (\<lambda>a. (attr_name a, a)) xs)"

fun bindings_ok :: "'v Bindings \<Rightarrow> bool" where
  "bindings_ok (Bindings xs n l base) \<longleftrightarrow> sorted_wrt (<) (map attr_name xs) \<and>
     n = card (dom (attr_map (Bindings xs n l base))) \<and> l \<le> maxLayers \<and>
     (case base of None \<Rightarrow> l = 1 | Some b \<Rightarrow> bindings_ok b \<and> l = numLayers b + 1)"

section \<open>Lookup is that of the map\<close>

abbreviation chunk_map :: "'v Attr list \<Rightarrow> Symbol \<Rightarrow> 'v Attr option" where
  "chunk_map xs \<equiv> map_of (map (\<lambda>a. (attr_name a, a)) xs)"

lemma chunk_map_Some: "sorted_wrt (<) (map attr_name xs) \<Longrightarrow> chunk_map xs key = Some a \<longleftrightarrow> a \<in> set xs \<and> attr_name a = key"
  by (induction xs) (auto split: if_splits)

lemma chunk_map_None: "chunk_map xs key = None \<longleftrightarrow> key \<notin> attr_name ` set xs"
  by (induction xs) auto

lemma getInChunk_map: "sorted_wrt (<) (map attr_name xs) \<Longrightarrow> getInChunk key xs = chunk_map xs key"
proof (induction xs)
  case (Cons a xs)
  show ?case
  proof (cases "attr_name a < key")
    case True
    with Cons show ?thesis by (simp add: getInChunk_def)
  next
    case False
    then have "key < attr_name a \<Longrightarrow> chunk_map xs key = None" using Cons.prems by (auto simp: chunk_map_None)
    with False show ?thesis by (auto simp: getInChunk_def)
  qed
qed (simp add: getInChunk_def)

lemma get_attr_map: "bindings_ok b \<Longrightarrow> get_attr b key = attr_map b key"
proof (induction b)
  case (Bindings xs n l base)
  then have chunk: "getInChunk key xs = chunk_map xs key" by (simp add: getInChunk_map)
  show ?case
  proof (cases base)
    case None
    with chunk show ?thesis by (simp split: option.split)
  next
    case (Some b)
    with Bindings have "get_attr b key = attr_map b key" by auto
    with Some chunk show ?thesis by (simp add: map_add_def split: option.split)
  qed
qed

section \<open>The merge of the layers\<close>

definition cursor_ok :: "'v cursor \<Rightarrow> bool" where
  "cursor_ok c \<longleftrightarrow> remaining c \<noteq> [] \<and> sorted_wrt (<) (map attr_name (remaining c))"

definition heap_ok :: "'v cursor list \<Rightarrow> bool" where
  "heap_ok H \<longleftrightarrow> (\<forall>c\<in>set H. cursor_ok c) \<and> distinct (map priority H)"

text \<open>The attributes ahead whose name is in a set, with the priority of their cursor, and those of them that take precedence.\<close>

definition ahead :: "Symbol set \<Rightarrow> 'v cursor list \<Rightarrow> (nat \<times> 'v Attr) set" where
  "ahead S H = {(p, a). \<exists>c\<in>set H. priority c = p \<and> a \<in> set (remaining c) \<and> attr_name a \<in> S}"

definition future :: "Symbol set \<Rightarrow> 'v cursor list \<Rightarrow> 'v Attr set" where
  "future S H = {a. \<exists>p. (p, a) \<in> ahead S H \<and> (\<forall>(q, b)\<in>ahead S H. attr_name b = attr_name a \<longrightarrow> p \<le> q)}"

definition total :: "'v cursor list \<Rightarrow> nat" where
  "total H = sum_list (map (\<lambda>c. length (remaining c)) H)"

lemma future_iff:
  "b \<in> future S H \<longleftrightarrow> (\<exists>p. (p, b) \<in> ahead S H \<and> (\<forall>q b'. attr_name b' = attr_name b \<longrightarrow> (q, b') \<in> ahead S H \<longrightarrow> p \<le> q))"
  by (auto simp: future_def)

lemma ahead_simps [simp]:
  "ahead S (c # H) = {(priority c, a) |a. a \<in> set (remaining c) \<and> attr_name a \<in> S} \<union> ahead S H"
  "ahead S (H @ H') = ahead S H \<union> ahead S H'" "ahead S [] = {}"
  by (auto simp: ahead_def)

lemma ahead_set: "set H = set H' \<Longrightarrow> ahead S H = ahead S H'"
  by (simp add: ahead_def)

lemma future_ahead: "ahead S H = ahead S H' \<Longrightarrow> future S H = future S H'"
  by (simp add: future_def)

lemma sorted_tl_greater: "sorted_wrt (<) (map attr_name (a # xs)) \<Longrightarrow> b \<in> set xs \<Longrightarrow> attr_name a < attr_name b"
  by auto

lemma consume_sorted:
  assumes "sorted_wrt (<) (map attr_name xs)"
  shows "set (dropWhile (\<lambda>a. attr_name a \<le> n) xs) = {a \<in> set xs. n < attr_name a}"
    "sorted_wrt (<) (map attr_name (dropWhile (\<lambda>a. attr_name a \<le> n) xs))"
  using assms by (induction xs) auto

lemma ahead_consume: "cursor_ok c \<Longrightarrow> ahead {n<..} (consume n c # H) = ahead {n<..} (c # H)"
  using consume_sorted(1) [of "remaining c" n] by (auto simp: cursor_ok_def consume_def)

lemma cursor_ok_consume: "cursor_ok c \<Longrightarrow> remaining (consume n c) \<noteq> [] \<Longrightarrow> cursor_ok (consume n c)"
  using consume_sorted(2) [of "remaining c" n] by (simp add: cursor_ok_def consume_def)

lemma cursor_less_linear: "priority c \<noteq> priority d \<Longrightarrow> cursor_less c d \<or> cursor_less d c"
  by (auto simp: cursor_less_def)

lemma cursor_less_trans: "cursor_less c d \<Longrightarrow> cursor_less d e \<Longrightarrow> cursor_less c e"
  by (auto simp: cursor_less_def)

lemma least_cursor_least:
  "distinct (map priority H) \<Longrightarrow> d \<in> set H \<Longrightarrow> d \<noteq> least_cursor H \<Longrightarrow> cursor_less (least_cursor H) d"
proof (induction H rule: least_cursor.induct)
  case (3 c c' cs)
  let ?m = "least_cursor (c' # cs)"
  have "?m \<in> set (c' # cs)" by (rule least_cursor_in) simp
  then have "priority ?m \<in> priority ` set (c' # cs)" by blast
  then have "priority ?m \<noteq> priority c" using 3(2) by (metis distinct.simps(2) list.simps(9) list.set_map)
  then have linear: "cursor_less ?m c \<or> cursor_less c ?m" by (rule cursor_less_linear)
  have tail: "cursor_less ?m d" if "d \<in> set (c' # cs)" "d \<noteq> ?m" using 3(1) [OF _ that] 3(2) by simp
  show ?case
  proof (cases "cursor_less ?m c")
    case True
    with 3(3,4) tail show ?thesis by (auto simp: Let_def)
  next
    case False
    with linear have "cursor_less c ?m" by blast
    have least: "least_cursor (c # c' # cs) = c" using False by (simp add: Let_def)
    then have d: "d \<in> set (c' # cs)" using 3(3,4) by auto
    show ?thesis
      unfolding least by (cases "d = ?m") (use \<open>cursor_less c ?m\<close> tail [OF d] cursor_less_trans [of c ?m d] in blast)+
  qed
qed auto

text \<open>A heap of which one cursor is the least.\<close>

definition popped :: "'v cursor \<Rightarrow> 'v cursor list \<Rightarrow> bool" where
  "popped c H \<longleftrightarrow> heap_ok (c # H) \<and> (\<forall>d\<in>set H. cursor_less c d)"

lemma pop_cursor_popped:
  assumes "heap_ok H" "H \<noteq> []"
  shows "popped (fst (pop_cursor H)) (snd (pop_cursor H))" "ahead S (fst (pop_cursor H) # snd (pop_cursor H)) = ahead S H"
    "total (fst (pop_cursor H) # snd (pop_cursor H)) = total H"
proof -
  let ?c = "least_cursor H"
  have c: "?c \<in> set H" by (rule least_cursor_in [OF assms(2)])
  have distinct: "distinct H" "distinct (map priority H)" using assms(1) by (auto simp: heap_ok_def distinct_map)
  have set: "set (?c # remove1 ?c H) = set H" "distinct (?c # remove1 ?c H)" using c distinct(1) by auto
  have "inj_on priority (set (?c # remove1 ?c H))" unfolding set(1) using distinct(2) by (simp add: distinct_map)
  then have "distinct (map priority (?c # remove1 ?c H))" using set(2) unfolding distinct_map by blast
  then have "heap_ok (?c # remove1 ?c H)" using assms(1) unfolding heap_ok_def set(1) by blast
  moreover have "\<forall>d\<in>set (remove1 ?c H). cursor_less ?c d"
    using least_cursor_least [OF distinct(2)] distinct(1) by auto
  ultimately show "popped (fst (pop_cursor H)) (snd (pop_cursor H))" by (simp add: popped_def pop_cursor_def)
  show "ahead S (fst (pop_cursor H) # snd (pop_cursor H)) = ahead S H"
    by (rule ahead_set) (use set(1) in \<open>simp add: pop_cursor_def\<close>)
  show "total (fst (pop_cursor H) # snd (pop_cursor H)) = total H"
    using c by (simp add: total_def pop_cursor_def sum_list_map_remove1)
qed

lemma consume_loop_ok:
  "popped c H \<Longrightarrow> consume_loop n c H = (r, H') \<Longrightarrow>
     (r = None \<longrightarrow> ahead {n<..} (c # H) = {}) \<and>
     (\<forall>d. r = Some d \<longrightarrow> popped d H' \<and> n < cursor_name d \<and> ahead {n<..} (d # H') = ahead {n<..} (c # H) \<and>
        total (d # H') \<le> total (c # H))"
proof (induction n c H rule: consume_loop.induct)
  case (1 n c H)
  show ?case
  proof (cases "cursor_name c \<le> n")
    case False
    with 1(2,3) show ?thesis by (auto simp: consume_loop.simps [of n c])
  next
    case True
    let ?c = "consume n c"
    let ?H = "if remaining ?c = [] then H else push_cursor ?c H"
    have c: "cursor_ok c" "heap_ok H" "priority c \<notin> priority ` set H" using 1(2) by (auto simp: popped_def heap_ok_def)
    have ok: "heap_ok ?H"
      using c cursor_ok_consume [OF c(1), of n] by (auto simp: heap_ok_def push_cursor_def) (auto simp: consume_def)
    have view: "ahead {n<..} ?H = ahead {n<..} (c # H)"
      using ahead_consume [OF c(1), of n H] by (auto simp: push_cursor_def)
    have "length (remaining ?c) \<le> length (remaining c)" by (simp add: consume_def length_dropWhile_le)
    then have size: "total ?H \<le> total (c # H)" by (auto simp: total_def push_cursor_def)
    have run: "consume_loop n c H = (if ?H = [] then (None, ?H)
        else consume_loop n (fst (pop_cursor ?H)) (snd (pop_cursor ?H)))"
      using True by (subst consume_loop.simps) (simp add: Let_def)
    show ?thesis
    proof (cases "?H = []")
      case True
      with run 1(3) view show ?thesis by auto
    next
      case False
      note pop = pop_cursor_popped [OF ok False]
      have "consume_loop n (fst (pop_cursor ?H)) (snd (pop_cursor ?H)) = (r, H')" using run False 1(3) by simp
      from 1(1) [OF True refl refl False pop(1) this]
      have IH: "r = None \<Longrightarrow> ahead {n<..} (fst (pop_cursor ?H) # snd (pop_cursor ?H)) = {}"
        "\<And>d. r = Some d \<Longrightarrow> popped d H' \<and> n < cursor_name d \<and>
          ahead {n<..} (d # H') = ahead {n<..} (fst (pop_cursor ?H) # snd (pop_cursor ?H)) \<and>
          total (d # H') \<le> total (fst (pop_cursor ?H) # snd (pop_cursor ?H))" by blast+
      show ?thesis using IH size unfolding pop(2,3) view by (auto simp del: ahead_simps)
    qed
  qed
qed

text \<open>The attribute of the least cursor takes precedence; what is ahead of it comes next.\<close>

lemma next_future:
  assumes pop: "popped c H" and S: "{cursor_name c..} \<subseteq> S"
  defines "H' \<equiv> (if tl (remaining c) = [] then H else push_cursor (c\<lparr>remaining := tl (remaining c)\<rparr>) H)"
  shows "heap_ok H'" "future S (c # H) = insert (hd (remaining c)) (future {cursor_name c<..} H')"
    "total (c # H) = Suc (total H')" "\<forall>a\<in>future {cursor_name c<..} H'. cursor_name c < attr_name a"
proof -
  obtain a as where c: "remaining c = a # as" "sorted_wrt (<) (map attr_name (a # as))"
    using pop by (cases "remaining c") (auto simp: popped_def heap_ok_def cursor_ok_def)
  then have name: "cursor_name c = attr_name a" by (simp add: cursor_name_def)
  let ?n = "attr_name a"
  show "heap_ok H'" using pop c by (auto simp: H'_def popped_def heap_ok_def push_cursor_def cursor_ok_def)
  show "total (c # H) = Suc (total H')" using c(1) by (auto simp: H'_def total_def push_cursor_def)
  show "\<forall>a\<in>future {cursor_name c<..} H'. cursor_name c < attr_name a" by (auto simp: future_def ahead_def)
  have ge: "?n \<le> attr_name b \<and> (attr_name b = ?n \<longrightarrow> priority c \<le> q \<and> (q = priority c \<longrightarrow> b = a))"
    if "(q, b) \<in> ahead S (c # H)" for q b
  proof -
    from that consider "q = priority c" "b = a" | "q = priority c" "b \<in> set as"
      | d where "d \<in> set H" "q = priority d" "b \<in> set (remaining d)" using c(1) by (auto simp: ahead_def)
    then show ?thesis
    proof cases
      case 2
      with sorted_tl_greater [OF c(2)] show ?thesis by fastforce
    next
      case 3
      have "priority c \<notin> priority ` set H" using pop by (simp add: popped_def heap_ok_def)
      then have "priority d \<noteq> priority c" using 3(1) by (metis imageI)
      with 3(1) pop have d: "cursor_ok d" "cursor_less c d" "priority d \<noteq> priority c" by (simp_all add: popped_def heap_ok_def)
      then have "cursor_name d \<le> attr_name b"
        using 3(3) by (cases "remaining d") (auto simp: cursor_ok_def cursor_name_def)
      with d(2,3) 3(2) name show ?thesis by (auto simp: cursor_less_def)
    qed simp
  qed
  have rest: "ahead {?n<..} H' = ahead {?n<..} (c # H)"
    using c(1) by (auto simp: H'_def push_cursor_def)
  have here: "(priority c, a) \<in> ahead S (c # H)" using c(1) S name by auto
  show "future S (c # H) = insert (hd (remaining c)) (future {cursor_name c<..} H')"
  proof (rule set_eqI)
    fix b
    have above: "(q, b) \<in> ahead S (c # H) \<longleftrightarrow> (q, b) \<in> ahead {?n<..} (c # H)" if "?n < attr_name b" for q b
    proof -
      have "attr_name b \<in> S" using that S name by auto
      with that show ?thesis by (simp add: ahead_def)
    qed
    show "b \<in> future S (c # H) \<longleftrightarrow> b \<in> insert (hd (remaining c)) (future {cursor_name c<..} H')"
    proof (cases "?n < attr_name b")
      case True
      then have same: "attr_name b' = attr_name b \<Longrightarrow> ((q, b') \<in> ahead S (c # H)) = ((q, b') \<in> ahead {?n<..} (c # H))" for q b'
        using above [of b' q] by (simp only:)
      have "b \<in> future S (c # H) \<longleftrightarrow> b \<in> future {?n<..} (c # H)"
        unfolding future_iff by (simp add: same del: ahead_simps cong: imp_cong)
      with True c(1) rest name show ?thesis by (auto simp: future_def)
    next
      case False
      have "b = a" if "b \<in> future S (c # H)"
      proof -
        from that obtain q where q: "(q, b) \<in> ahead S (c # H)" "\<forall>(q', b')\<in>ahead S (c # H). attr_name b' = attr_name b \<longrightarrow> q \<le> q'"
          by (auto simp: future_def)
        with ge [OF q(1)] False here show ?thesis by fastforce
      qed
      moreover have "a \<in> future S (c # H)" unfolding future_def using here ge by blast
      moreover have "b \<notin> future {?n<..} H'" using False by (auto simp: future_def ahead_def)
      ultimately show ?thesis using c(1) name by auto
    qed
  qed
qed

lemma next_cursor_simps:
  "current (next_cursor c it) = remaining c" "doMerge (next_cursor c it) = doMerge it"
  "cursorHeap (next_cursor c it) = (if tl (remaining c) = [] then cursorHeap it
     else push_cursor (c\<lparr>remaining := tl (remaining c)\<rparr>) (cursorHeap it))"
  by (simp_all add: next_cursor_def)

lemma loop_merge:
  assumes "doMerge it" "current it = remaining c" "remaining c \<noteq> []" "heap_ok (cursorHeap it)" "Suc (total (cursorHeap it)) \<le> n"
  shows "\<exists>xs. loop_from n it = Some (hd (remaining c) # xs) \<and> sorted_wrt (<) (map attr_name (hd (remaining c) # xs)) \<and>
    set xs = future {cursor_name c<..} (cursorHeap it)"
  using assms
proof (induction n arbitrary: it c)
  case (Suc n)
  let ?H = "cursorHeap it" and ?n = "cursor_name c"
  have run: "loop_from (Suc n) it = map_option ((#) (hd (remaining c))) (loop_from n (attr_iter_next it))"
    using Suc.prems by simp
  have finished: "\<exists>xs. loop_from (Suc n) it = Some (hd (remaining c) # xs) \<and> sorted_wrt (<) (map attr_name (hd (remaining c) # xs)) \<and>
      set xs = future {?n<..} ?H" if "current (attr_iter_next it) = []" "ahead {?n<..} ?H = {}"
  proof -
    have "loop_from n (attr_iter_next it) = Some []" using that(1) by (cases n) simp_all
    moreover have "future {?n<..} ?H = {}" using that(2) by (simp add: future_def)
    ultimately show ?thesis using run by simp
  qed
  show ?case
  proof (cases "?H = []")
    case True
    with Suc.prems(1) have "current (attr_iter_next it) = []" by (simp add: attr_iter_next_def)
    with finished True show ?thesis by simp
  next
    case False
    note pop = pop_cursor_popped [OF Suc.prems(4) False]
    obtain r H' where loop: "consume_loop ?n (fst (pop_cursor ?H)) (snd (pop_cursor ?H)) = (r, H')" by fastforce
    note consumed = consume_loop_ok [OF pop(1) loop]
    have next_it: "attr_iter_next it = (case r of None \<Rightarrow> it\<lparr>cursorHeap := H', current := []\<rparr> | Some d \<Rightarrow> next_cursor d (it\<lparr>cursorHeap := H'\<rparr>))"
      using Suc.prems(1,2) False loop by (simp add: attr_iter_next_def consumeAllUntilCurrentName_def cursor_name_def split: option.split)
    show ?thesis
    proof (cases r)
      case None
      with consumed have "ahead {?n<..} ?H = {}" unfolding pop(2) by blast
      moreover have "current (attr_iter_next it) = []" using next_it None by simp
      ultimately show ?thesis using finished by simp
    next
      case (Some d)
      then have d: "popped d H'" "?n < cursor_name d" "ahead {?n<..} (d # H') = ahead {?n<..} ?H" "total (d # H') \<le> total ?H"
        using consumed unfolding pop(2,3) by blast+
      have S: "{cursor_name d..} \<subseteq> {?n<..}" using d(2) by auto
      note step = next_future [OF d(1) S]
      have heap: "cursorHeap (attr_iter_next it) = (if tl (remaining d) = [] then H' else push_cursor (d\<lparr>remaining := tl (remaining d)\<rparr>) H')"
        using next_it Some by (simp add: next_cursor_simps)
      have "remaining d \<noteq> []" using d(1) by (simp add: popped_def heap_ok_def cursor_ok_def)
      moreover have "doMerge (attr_iter_next it)" "current (attr_iter_next it) = remaining d" using next_it Some Suc.prems(1) by (simp_all add: next_cursor_simps)
      moreover have "Suc (total (cursorHeap (attr_iter_next it))) \<le> n" using step(3) d(4) Suc.prems(5) unfolding heap by simp
      ultimately obtain ys where ys: "loop_from n (attr_iter_next it) = Some (hd (remaining d) # ys)"
        "sorted_wrt (<) (map attr_name (hd (remaining d) # ys))" "set ys = future {cursor_name d<..} (cursorHeap (attr_iter_next it))"
        using Suc.IH [of "attr_iter_next it" d] step(1) unfolding heap by blast
      have "set (hd (remaining d) # ys) = future {?n<..} ?H"
        using ys(3) step(2) future_ahead [OF d(3)] unfolding heap by simp
      moreover have "attr_name (hd (remaining c)) < attr_name (hd (remaining d))" using d(2) by (simp add: cursor_name_def)
      ultimately show ?thesis using run ys(1,2) by (intro exI [of _ "hd (remaining d) # ys"]) auto
    qed
  qed
qed simp

section \<open>Iterating over all layers\<close>

lemma attr_map_name: "attr_map b k = Some a \<Longrightarrow> attr_name a = k"
proof (induction b)
  case (Bindings xs n l base)
  then show ?case by (auto simp: map_add_Some_iff dest!: map_of_SomeD split: option.splits)
qed

lemma layer_cursors_ok:
  "bindings_ok b \<Longrightarrow> heap_ok (layer_cursors p b) \<and> (\<forall>c\<in>set (layer_cursors p b). p \<le> priority c) \<and>
     total (layer_cursors p b) = chain_length b \<and> length (layer_cursors p b) \<le> numLayers b"
proof (induction b arbitrary: p)
  case (Bindings xs n l base)
  show ?case
  proof (cases base)
    case None
    with Bindings.prems show ?thesis by (simp add: heap_ok_def cursor_ok_def total_def)
  next
    case (Some b)
    with Bindings have IH: "heap_ok (layer_cursors p b) \<and> (\<forall>c\<in>set (layer_cursors p b). p \<le> priority c) \<and>
       total (layer_cursors p b) = chain_length b \<and> length (layer_cursors p b) \<le> numLayers b" for p by auto
    have ok: "sorted_wrt (<) (map attr_name xs)" "l = numLayers b + 1" using Bindings.prems Some by simp_all
    show ?thesis
    proof (cases "xs = []")
      case True
      with Some IH [of p] ok show ?thesis by simp
    next
      case False
      have "p \<notin> priority ` set (layer_cursors (p + 1) b)" using IH [of "p + 1"] by force
      with Some IH [of "p + 1"] ok False show ?thesis by (auto simp: heap_ok_def cursor_ok_def total_def)
    qed
  qed
qed

lemma layer_future:
  "bindings_ok b \<Longrightarrow> a \<in> future UNIV (layer_cursors p b) \<longleftrightarrow> attr_map b (attr_name a) = Some a"
proof (induction b arbitrary: p)
  case (Bindings xs n l base)
  let ?rest = "\<lambda>p. case base of None \<Rightarrow> [] | Some b \<Rightarrow> layer_cursors p b"
  let ?map = "case base of None \<Rightarrow> Map.empty | Some b \<Rightarrow> attr_map b"
  have sorted: "sorted_wrt (<) (map attr_name xs)" using Bindings.prems by simp
  have rest: "a \<in> future UNIV (?rest p) \<longleftrightarrow> ?map (attr_name a) = Some a" for p
  proof (cases base)
    case None
    then show ?thesis by (simp add: future_def)
  next
    case (Some b)
    with Bindings show ?thesis by auto
  qed
  show ?case
  proof (cases "xs = []")
    case True
    with rest [of p] show ?thesis by simp
  next
    case False
    let ?c = "\<lparr>remaining = xs, priority = p\<rparr>"
    have heap: "layer_cursors p (Bindings xs n l base) = ?c # ?rest (p + 1)" using False by (simp add: Let_def cong: option.case_cong)
    have later: "p < q" if "(q, b) \<in> ahead UNIV (?rest (p + 1))" for q b
    proof (cases base)
      case (Some b')
      with that layer_cursors_ok [of b' "p + 1"] Bindings.prems show ?thesis by (force simp: ahead_def)
    qed (use that in simp)
    have ahead: "ahead UNIV (?c # ?rest (p + 1)) = {(p, a) |a. a \<in> set xs} \<union> ahead UNIV (?rest (p + 1))" by simp
    have "a \<in> future UNIV (?c # ?rest (p + 1)) \<longleftrightarrow>
        a \<in> set xs \<or> attr_name a \<notin> attr_name ` set xs \<and> a \<in> future UNIV (?rest (p + 1))"
    proof (cases "attr_name a \<in> attr_name ` set xs")
      case True
      then obtain a' where a': "a' \<in> set xs" "attr_name a' = attr_name a" by (metis imageE)
      show ?thesis
      proof
        assume "a \<in> future UNIV (?c # ?rest (p + 1))"
        then obtain q where q: "(q, a) \<in> ahead UNIV (?c # ?rest (p + 1))"
          "\<And>q' b'. attr_name b' = attr_name a \<Longrightarrow> (q', b') \<in> ahead UNIV (?c # ?rest (p + 1)) \<Longrightarrow> q \<le> q'"
          unfolding future_iff by blast
        have "q \<le> p" by (rule q(2) [OF a'(2)]) (use a' in \<open>simp add: ahead\<close>)
        with q(1) later show "a \<in> set xs \<or> attr_name a \<notin> attr_name ` set xs \<and> a \<in> future UNIV (?rest (p + 1))"
          unfolding ahead by fastforce
      next
        assume "a \<in> set xs \<or> attr_name a \<notin> attr_name ` set xs \<and> a \<in> future UNIV (?rest (p + 1))"
        with True have "a \<in> set xs" by blast
        then show "a \<in> future UNIV (?c # ?rest (p + 1))"
          unfolding future_iff ahead using later by (intro exI [of _ p]) (auto dest: less_imp_le)
      qed
    next
      case False
      have same: "((q, b') \<in> ahead UNIV (?c # ?rest (p + 1))) = ((q, b') \<in> ahead UNIV (?rest (p + 1)))"
        if "attr_name b' = attr_name a" for q b'
      proof -
        have "b' \<notin> set xs" using False that by (metis imageI)
        then show ?thesis unfolding ahead by blast
      qed
      have "a \<in> future UNIV (?c # ?rest (p + 1)) \<longleftrightarrow> a \<in> future UNIV (?rest (p + 1))"
        unfolding future_iff by (simp add: same del: ahead_simps cong: imp_cong)
      with False show ?thesis by (metis imageI)
    qed
    moreover have "attr_map (Bindings xs n l base) (attr_name a) = Some a \<longleftrightarrow>
        a \<in> set xs \<or> attr_name a \<notin> attr_name ` set xs \<and> ?map (attr_name a) = Some a"
      using chunk_map_Some [OF sorted, of "attr_name a" a] chunk_map_None [of xs "attr_name a"]
      by (auto simp: map_add_Some_iff)
    ultimately show ?thesis using rest heap by simp
  qed
qed

lemma loop_single:
  "length xs \<le> n \<Longrightarrow> loop_from n \<lparr>cursorHeap = H, current = xs, doMerge = False\<rparr> = Some xs"
proof (induction n arbitrary: xs)
  case (Suc n)
  then show ?case by (cases xs) (simp_all add: attr_iter_next_def)
qed simp

text \<open>A loop over an attribute set sees every attribute that takes precedence once, in the order of the names.\<close>

lemma entries_ok:
  assumes ok: "bindings_ok b"
  shows "\<exists>xs. entries b = Some xs \<and> sorted_wrt (<) (map attr_name xs) \<and> (\<forall>k. chunk_map xs k = attr_map b k)"
proof -
  obtain ys n l base where b: "b = Bindings ys n l base" by (cases b)
  have "\<exists>xs. entries b = Some xs \<and> sorted_wrt (<) (map attr_name xs) \<and> (\<forall>a. a \<in> set xs \<longleftrightarrow> attr_map b (attr_name a) = Some a)"
  proof (cases base)
    case None
    have sorted: "sorted_wrt (<) (map attr_name ys)" using ok b by simp
    have all: "a \<in> set ys \<longleftrightarrow> attr_map b (attr_name a) = Some a" for a using chunk_map_Some [OF sorted] b None by simp
    have "dom (attr_map b) = attr_name ` set ys" using b None by (auto simp: dom_def chunk_map_None)
    then have "bindings_empty b \<longleftrightarrow> ys = []" using ok b by (simp add: bindings_empty_def bindings_size_def)
    then have "entries b = Some ys"
      using b None loop_single by (auto simp: entries_def attr_iter_begin_def)
    with sorted all show ?thesis by blast
  next
    case (Some base')
    let ?H = "layer_cursors 0 b"
    note layers = layer_cursors_ok [OF ok, of 0] and future = layer_future [OF ok, of _ 0]
    show ?thesis
    proof (cases "?H = []")
      case True
      then have "attr_map b (attr_name a) \<noteq> Some a" for a using future [of a] by (simp add: future_def)
      moreover have "entries b = Some []" using b Some True by (cases "chain_length b") (simp_all add: entries_def attr_iter_begin_def Let_def)
      ultimately show ?thesis by simp
    next
      case False
      have heap: "heap_ok ?H" using layers by blast
      note pop = pop_cursor_popped [OF heap False]
      let ?c = "fst (pop_cursor ?H)" and ?R = "snd (pop_cursor ?H)"
      note step = next_future [OF pop(1) subset_UNIV]
      have ne: "remaining ?c \<noteq> []" using pop(1) by (simp add: popped_def heap_ok_def cursor_ok_def)
      let ?it = "next_cursor ?c \<lparr>cursorHeap = ?R, current = [], doMerge = True\<rparr>"
      have start: "attr_iter_begin b = ?it" using b Some False by (simp add: attr_iter_begin_def Let_def)
      have "Suc (total (cursorHeap ?it)) \<le> chain_length b" using layers step(3) pop(3) by (simp add: next_cursor_simps)
      moreover have "doMerge ?it" "current ?it = remaining ?c" "heap_ok (cursorHeap ?it)"
        using step(1) by (auto simp: next_cursor_simps)
      ultimately obtain xs where xs: "loop_from (chain_length b) ?it = Some (hd (remaining ?c) # xs)"
        "sorted_wrt (<) (map attr_name (hd (remaining ?c) # xs))" "set xs = future {cursor_name ?c<..} (cursorHeap ?it)"
        using loop_merge [of ?it ?c] ne by blast
      have "set (hd (remaining ?c) # xs) = future UNIV ?H"
        using xs(3) step(2) future_ahead [OF pop(2) [of UNIV]] by (simp add: next_cursor_simps)
      then have all: "a \<in> set (hd (remaining ?c) # xs) \<longleftrightarrow> attr_map b (attr_name a) = Some a" for a using future [of a] by blast
      have "entries b = Some (hd (remaining ?c) # xs)" using start xs(1) by (simp only: entries_def)
      with xs(2) all show ?thesis by blast
    qed
  qed
  then obtain xs where xs: "entries b = Some xs" "sorted_wrt (<) (map attr_name xs)" "\<And>a. a \<in> set xs \<longleftrightarrow> attr_map b (attr_name a) = Some a"
    by blast
  have "chunk_map xs k = attr_map b k" for k
  proof -
    have "chunk_map xs k = Some a \<longleftrightarrow> attr_map b k = Some a" for a
      using chunk_map_Some [OF xs(2), of k a] xs(3) [of a] attr_map_name [of b k a] by auto
    then show ?thesis by (cases "attr_map b k") auto
  qed
  with xs(1,2) show ?thesis by blast
qed

section \<open>Sizes\<close>

lemma dom_chunk_map: "dom (chunk_map xs) = attr_name ` set xs"
  by (auto simp: dom_def chunk_map_None)

lemma card_names: "sorted_wrt (<) (map attr_name xs) \<Longrightarrow> card (attr_name ` set xs) = length xs"
  by (metis distinct_card length_map list.set_map strict_sorted_iff)

lemma entries_size:
  assumes "bindings_ok b" "entries b = Some xs"
  shows "length xs = bindings_size b"
proof -
  from entries_ok [OF assms(1)] assms(2) have xs: "sorted_wrt (<) (map attr_name xs)" "chunk_map xs = attr_map b" by auto
  have "card (dom (attr_map b)) = length xs" using card_names [OF xs(1)] dom_chunk_map [of xs] xs(2) by simp
  then show ?thesis using assms(1) by (cases b) (simp add: bindings_size_def)
qed

lemma count_common_card:
  "sorted_wrt (<) (map attr_name xs) \<Longrightarrow> sorted_wrt (<) (map attr_name ys) \<Longrightarrow>
    count_common xs ys = card (attr_name ` set xs \<inter> attr_name ` set ys)"
proof (induction xs ys rule: count_common.induct)
  case (1 a as b bs)
  let ?A = "attr_name ` set as" and ?B = "attr_name ` set bs"
  have less: "\<And>n. n \<in> ?A \<Longrightarrow> attr_name a < n" "\<And>n. n \<in> ?B \<Longrightarrow> attr_name b < n" using 1(4,5) by auto
  consider "attr_name a < attr_name b" | "attr_name b < attr_name a" | "attr_name a = attr_name b" by linarith
  then show ?case
  proof cases
    case 1
    then have "attr_name a \<notin> attr_name ` set (b # bs)" using less(2) [of "attr_name a"] by auto
    then have "attr_name ` set (a # as) \<inter> attr_name ` set (b # bs) = ?A \<inter> attr_name ` set (b # bs)" by simp
    with "1.IH"(1) [OF 1] "1.prems" 1 show ?thesis by simp
  next
    case 2
    then have "attr_name b \<notin> attr_name ` set (a # as)" using less(1) [of "attr_name b"] by auto
    then have "attr_name ` set (a # as) \<inter> attr_name ` set (b # bs) = attr_name ` set (a # as) \<inter> ?B" by simp
    with "1.IH"(2) [OF _ 2] "1.prems" 2 show ?thesis by simp
  next
    case 3
    have "attr_name ` set (a # as) \<inter> attr_name ` set (b # bs) = insert (attr_name a) (?A \<inter> ?B)" using 3 by simp
    moreover have "attr_name a \<notin> ?A \<inter> ?B" using less(1) by blast
    ultimately have "card (attr_name ` set (a # as) \<inter> attr_name ` set (b # bs)) = Suc (card (?A \<inter> ?B))" by simp
    with "1.IH"(3) "1.prems" 3 show ?thesis by simp
  qed
qed simp_all

lemma filter_names_card:
  assumes "sorted_wrt (<) (map attr_name xs)"
  shows "length (filter (\<lambda>a. P (attr_name a)) xs) = card {n \<in> attr_name ` set xs. P n}"
proof -
  have "sorted_wrt (<) (map attr_name (filter (\<lambda>a. P (attr_name a)) xs))"
    using assms by (induction xs) auto
  from card_names [OF this] have "length (filter (\<lambda>a. P (attr_name a)) xs) = card (attr_name ` {a \<in> set xs. P (attr_name a)})" by simp
  moreover have "attr_name ` {a \<in> set xs. P (attr_name a)} = {n \<in> attr_name ` set xs. P n}" by auto
  ultimately show ?thesis by simp
qed

text \<open>The size of a layered set, whichever way the duplicates are counted.\<close>

lemma finishSize_layered:
  assumes xs: "sorted_wrt (<) (map attr_name xs)" and base: "bindings_ok base" "numLayers base < maxLayers"
  shows "\<exists>b. finishSizeIfNecessary (Bindings xs n (numLayers base + 1) (Some base)) = Some b \<and> bindings_ok b \<and>
    attr_map b = attr_map base ++ chunk_map xs"
proof -
  let ?N = "attr_name ` set xs" and ?D = "dom (attr_map base)"
  obtain ys where ys: "entries base = Some ys" "sorted_wrt (<) (map attr_name ys)" "\<And>k. chunk_map ys k = attr_map base k"
    using entries_ok [OF base(1)] by blast
  have D: "attr_name ` set ys = ?D" using dom_chunk_map [of ys] ys(3) by (simp add: dom_def)
  then have fin: "finite ?D" by (metis List.finite_set finite_imageI)
  have "count_common ys xs = card (?N \<inter> ?D)" using count_common_card [OF ys(2) xs] D by (simp add: Int_commute)
  moreover have "length (filter (\<lambda>a. get_attr base (attr_name a) \<noteq> None) xs) = card (?N \<inter> ?D)"
    using filter_names_card [OF xs, of "\<lambda>n. get_attr base n \<noteq> None"] by (simp add: get_attr_map [OF base(1)] dom_def Int_def)
  moreover have size: "numAttrsInChain base = card ?D" using base(1) by (cases base) simp
  ultimately have run: "finishSizeIfNecessary (Bindings xs n (numLayers base + 1) (Some base)) =
      Some (Bindings xs (card ?D + length xs - card (?N \<inter> ?D)) (numLayers base + 1) (Some base))"
    using ys(1) by (simp add: finishSizeIfNecessary_def)
  have "card (?D \<union> ?N) = card ?D + length xs - card (?N \<inter> ?D)"
    using card_Un_Int [OF fin, of ?N] card_names [OF xs] by (simp add: Int_commute)
  then have "card (dom (attr_map base ++ chunk_map xs)) = card ?D + length xs - card (?N \<inter> ?D)"
    by (simp add: dom_chunk_map Un_commute)
  with run xs base show ?thesis by simp
qed

lemma push_back_all_ok: "sorted_wrt (<) (map attr_name xs) \<Longrightarrow> bindings_ok (push_back_all xs) \<and> attr_map (push_back_all xs) = chunk_map xs"
  using card_names [of xs] by (simp add: push_back_all_def maxLayers_def dom_chunk_map)

section \<open>Updates\<close>

lemma merge_attrs_ok:
  "sorted_wrt (<) (map attr_name xs) \<Longrightarrow> sorted_wrt (<) (map attr_name ys) \<Longrightarrow>
    sorted_wrt (<) (map attr_name (merge_attrs xs ys)) \<and> chunk_map (merge_attrs xs ys) = chunk_map xs ++ chunk_map ys"
proof (induction xs ys rule: merge_attrs.induct)
  case (1 i "is" j js)
  have dom: "set (merge_attrs us vs) \<subseteq> set us \<union> set vs" for us vs :: "'a Attr list"
    by (induction us vs rule: merge_attrs.induct) auto
  have less: "\<And>a. a \<in> set is \<Longrightarrow> attr_name i < attr_name a" "\<And>a. a \<in> set js \<Longrightarrow> attr_name j < attr_name a" using 1(4,5) by auto
  consider "attr_name i = attr_name j" | "attr_name i < attr_name j" | "attr_name j < attr_name i" by linarith
  then show ?case
  proof cases
    case 1
    with "1.IH"(1) "1.prems" dom [of "is" js] less show ?thesis by (fastforce simp: fun_eq_iff map_add_def split: option.split)
  next
    case 2
    have "chunk_map (j # js) (attr_name i) = None" using 2 less(2) by (fastforce simp: chunk_map_None)
    with 2 "1.IH"(2) "1.prems" dom [of "is" "j # js"] less show ?thesis
      by (fastforce simp: fun_eq_iff map_add_def split: option.split)
  next
    case 3
    with "1.IH"(3) "1.prems" dom [of "i # is" js] less show ?thesis
      by (fastforce simp: fun_eq_iff map_add_def split: option.split)
  qed
qed auto

lemma empty_map: "bindings_ok b \<Longrightarrow> bindings_empty b \<Longrightarrow> attr_map b = Map.empty"
proof -
  assume ok: "bindings_ok b" "bindings_empty b"
  obtain xs where xs: "entries b = Some xs" "\<forall>k. chunk_map xs k = attr_map b k" using entries_ok [OF ok(1)] by blast
  with entries_size [OF ok(1) xs(1)] ok(2) have "xs = []" by (simp add: bindings_empty_def)
  with xs(2) show ?thesis by (auto simp: fun_eq_iff)
qed

lemma op_update_ok:
  assumes "bindings_ok b1" "bindings_ok b2"
  shows "\<exists>b. op_update threshold b1 b2 = Some b \<and> bindings_ok b \<and> attr_map b = attr_map b1 ++ attr_map b2"
proof -
  obtain xs ys where xs: "entries b1 = Some xs" "sorted_wrt (<) (map attr_name xs)" "\<forall>k. chunk_map xs k = attr_map b1 k"
    and ys: "entries b2 = Some ys" "sorted_wrt (<) (map attr_name ys)" "\<forall>k. chunk_map ys k = attr_map b2 k"
    using entries_ok [OF assms(1)] entries_ok [OF assms(2)] by blast
  have maps: "chunk_map xs = attr_map b1" "chunk_map ys = attr_map b2" using xs(3) ys(3) by auto
  consider (left) "bindings_empty b1" | (right) "\<not> bindings_empty b1" "bindings_empty b2"
    | (layer) "\<not> bindings_empty b1" "\<not> bindings_empty b2" "\<not> isLayerListFull b1 \<and> \<not> bindings_size b2 > threshold"
    | (copy) "\<not> bindings_empty b1" "\<not> bindings_empty b2" "\<not> (\<not> isLayerListFull b1 \<and> \<not> bindings_size b2 > threshold)" by blast
  then show ?thesis
  proof cases
    case left
    with assms empty_map [OF assms(1)] show ?thesis by (simp add: op_update_def)
  next
    case right
    with assms empty_map [OF assms(2)] show ?thesis by (simp add: op_update_def)
  next
    case layer
    have "numLayers b1 < maxLayers" using assms(1) layer(3) by (cases b1) (auto simp: isLayerListFull_def)
    from finishSize_layered [OF ys(2) assms(1) this, of "length ys"] layer ys(1) maps
    show ?thesis by (simp add: op_update_def alreadySorted_def layerOnTopOf_def push_back_all_def)
  next
    case copy
    note merged = merge_attrs_ok [OF xs(2) ys(2)]
    have "alreadySorted (push_back_all (merge_attrs xs ys)) = Some (push_back_all (merge_attrs xs ys))"
      by (simp add: alreadySorted_def finishSizeIfNecessary_def push_back_all_def)
    with copy xs(1) ys(1) maps merged push_back_all_ok show ?thesis by (auto simp: op_update_def)
  qed
qed

lemma option_eqI:
  assumes "\<And>a. x = Some a \<longleftrightarrow> y = Some a"
  shows "x = y"
  using assms [of "the x"] assms [of "the y"] by (cases x; cases y) auto

lemma chunk_map_distinct: "distinct (map attr_name xs) \<Longrightarrow> chunk_map xs k = Some a \<longleftrightarrow> a \<in> set xs \<and> attr_name a = k"
proof (induction xs)
  case (Cons b xs)
  then show ?case by (cases "attr_name b = k") (auto simp: image_iff)
qed simp

lemma finish_ok:
  assumes "distinct (map attr_name xs)"
  shows "\<exists>b. finish (push_back_all xs) = Some b \<and> bindings_ok b \<and> attr_map b = chunk_map xs"
proof -
  let ?xs = "sort_key attr_name xs"
  have "sorted_wrt (<) (map attr_name ?xs)" using assms by (simp add: strict_sorted_iff distinct_map)
  note ok = push_back_all_ok [OF this]
  have "distinct (map attr_name ?xs)" using assms by (simp add: distinct_map)
  then have same: "chunk_map ?xs k = Some a \<longleftrightarrow> chunk_map xs k = Some a" for k a
    using chunk_map_distinct [of ?xs k a] chunk_map_distinct [OF assms, of k a] by simp
  have "chunk_map ?xs k = chunk_map xs k" for k by (rule option_eqI [OF same])
  then have "chunk_map ?xs = chunk_map xs" by blast
  with ok show ?thesis by (simp add: finish_def bindings_sort_def push_back_all_def finishSizeIfNecessary_def)
qed

section \<open>The contract of attribute sets\<close>

text \<open>
  C10: A loop over a well-formed attribute set ends after as many steps as its recorded size, sees the
  attributes strictly ordered by name, and for every name the one that lookup returns.
\<close>

theorem attr_set_iteration:
  assumes "bindings_ok b"
  shows "\<exists>xs. entries b = Some xs \<and> sorted_wrt (<) (map attr_name xs) \<and> length xs = bindings_size b \<and>
    (\<forall>k a. get_attr b k = Some a \<longleftrightarrow> a \<in> set xs \<and> attr_name a = k)"
proof -
  obtain xs where xs: "entries b = Some xs" "sorted_wrt (<) (map attr_name xs)" "\<And>k. chunk_map xs k = attr_map b k"
    using entries_ok [OF assms] by blast
  have "get_attr b k = Some a \<longleftrightarrow> a \<in> set xs \<and> attr_name a = k" for k a
    using get_attr_map [OF assms, of k] xs(3) [of k] chunk_map_Some [OF xs(2), of k a] by simp
  with xs(1,2) entries_size [OF assms xs(1)] show ?thesis by blast
qed

lemma consume_loop_length: "heap \<noteq> [] \<or> True \<Longrightarrow> consume_loop n c heap = (r, heap') \<Longrightarrow>
    length heap' + (if r = None then 0 else 1) \<le> length heap + 1"
proof (induction n c heap rule: consume_loop.induct)
  case (1 n c heap)
  show ?case
  proof (cases "cursor_name c \<le> n")
    case True
    let ?c = "consume n c"
    let ?H = "if remaining ?c = [] then heap else push_cursor ?c heap"
    have run: "consume_loop n c heap = (if ?H = [] then (None, ?H)
        else consume_loop n (fst (pop_cursor ?H)) (snd (pop_cursor ?H)))"
      using True by (subst consume_loop.simps) (simp add: Let_def)
    have H: "length ?H \<le> length heap + 1" by (simp add: push_cursor_def)
    show ?thesis
    proof (cases "?H = []")
      case False
      then have "length (snd (pop_cursor ?H)) + 1 = length ?H"
        using least_cursor_in [OF False] by (simp add: pop_cursor_def length_remove1)
      moreover have "length heap' + (if r = None then 0 else 1) \<le> length (snd (pop_cursor ?H)) + 1"
        using "1.IH" [OF True refl refl False] run False "1.prems"(2) by simp
      ultimately show ?thesis using H by simp
    qed (use run "1.prems" in auto)
  next
    case False
    with "1.prems" show ?thesis by (auto simp: consume_loop.simps [of n c])
  qed
qed

lemma attr_iter_next_length: "length (cursorHeap (attr_iter_next it)) \<le> length (cursorHeap it)"
proof (cases "doMerge it \<and> cursorHeap it \<noteq> []")
  case True
  let ?H = "cursorHeap it"
  obtain r H' where loop: "consume_loop (attr_name (hd (current it))) (fst (pop_cursor ?H)) (snd (pop_cursor ?H)) = (r, H')" by fastforce
  have "length (snd (pop_cursor ?H)) + 1 = length ?H"
    using True least_cursor_in [of ?H] by (simp add: pop_cursor_def length_remove1)
  with consume_loop_length [OF _ loop] have "length H' + (if r = None then 0 else 1) \<le> length ?H" by simp
  then show ?thesis
    using True loop by (auto simp: attr_iter_next_def consumeAllUntilCurrentName_def next_cursor_def push_cursor_def split: option.split)
qed (auto simp: attr_iter_next_def)

text \<open>
  An iterator over a well-formed attribute set never has more cursors than the fixed capacity of its
  heap, wherever it has got to.
\<close>

theorem cursor_heap_bound:
  assumes "bindings_ok b"
  shows "length (cursorHeap ((attr_iter_next ^^ n) (attr_iter_begin b))) \<le> maxLayers"
proof (induction n)
  case 0
  obtain xs m l base where b: "b = Bindings xs m l base" by (cases b)
  have layers: "length (layer_cursors 0 b) \<le> maxLayers" using layer_cursors_ok [OF assms, of 0] assms b by simp
  show ?case
  proof (cases "base = None \<or> layer_cursors 0 b = []")
    case False
    let ?H = "layer_cursors 0 b"
    have "length (snd (pop_cursor ?H)) + 1 = length ?H"
      using False least_cursor_in [of ?H] by (simp add: pop_cursor_def length_remove1)
    with False layers b show ?thesis by (simp add: attr_iter_begin_def next_cursor_def push_cursor_def Let_def)
  qed (use b in \<open>auto simp: attr_iter_begin_def Let_def maxLayers_def\<close>)
next
  case (Suc n)
  then show ?case using attr_iter_next_length [of "(attr_iter_next ^^ n) (attr_iter_begin b)"] by simp
qed

text \<open>What a chain of updates should contain: the rightmost operand that has the name decides.\<close>

fun update_lookup :: "'v update_expr \<Rightarrow> Symbol \<Rightarrow> 'v Attr option" where
  "update_lookup (Operand b) k = get_attr b k"
| "update_lookup (Update e1 e2) k = (case update_lookup e2 k of Some a \<Rightarrow> Some a | None \<Rightarrow> update_lookup e1 k)"

fun operands :: "'v update_expr \<Rightarrow> 'v Bindings list" where
  "operands (Operand b) = [b]"
| "operands (Update e1 e2) = operands e1 @ operands e2"

lemma evalForUpdate_operands: "evalForUpdate e q = q @ rev (operands e)"
  by (induction e arbitrary: q) simp_all

lemma update_queue_ok:
  "bindings_ok acc \<Longrightarrow> \<forall>b\<in>set q. bindings_ok b \<Longrightarrow>
    \<exists>b. update_queue threshold acc q = Some b \<and> bindings_ok b \<and> attr_map b = foldl (++) (attr_map acc) (map attr_map q)"
proof (induction q arbitrary: acc)
  case (Cons rhs q)
  then obtain b where "op_update threshold acc rhs = Some b" "bindings_ok b" "attr_map b = attr_map acc ++ attr_map rhs"
    using op_update_ok [of acc rhs threshold] by auto
  with Cons.IH [of b] Cons.prems(2) show ?case by simp
qed simp

lemma foldl_map_add: "foldl (++) m (ms @ ms') = foldl (++) m ms ++ foldl (++) Map.empty ms'"
  by (induction ms' rule: rev_induct) (simp_all flip: append_assoc)

lemma update_lookup_map:
  "\<forall>b\<in>set (operands e). bindings_ok b \<Longrightarrow> update_lookup e = foldl (++) Map.empty (map attr_map (operands e))"
proof (induction e)
  case (Update e1 e2)
  show ?case
  proof -
    have "update_lookup (Update e1 e2) = update_lookup e1 ++ update_lookup e2" by (simp add: fun_eq_iff map_add_def)
    with Update foldl_map_add [of Map.empty "map attr_map (operands e1)" "map attr_map (operands e2)"] show ?thesis by simp
  qed
qed (simp add: get_attr_map fun_eq_iff)

text \<open>
  C9: A chain of updates of well-formed attribute sets evaluates to a well-formed attribute set in which each
  name has the attribute of the rightmost operand with that name, whether the operands are layered or copied.
\<close>

theorem update_chain_refines:
  assumes "\<forall>b\<in>set (operands e). bindings_ok b"
  shows "\<exists>b. ExprOpUpdate_eval threshold e = Some b \<and> bindings_ok b \<and> get_attr b = update_lookup e"
proof -
  have empty: "bindings_ok emptyBindings" "attr_map emptyBindings = Map.empty" by (simp_all add: emptyBindings_def maxLayers_def)
  have queue: "rev (evalForUpdate e []) = operands e" by (simp add: evalForUpdate_operands)
  obtain b where "ExprOpUpdate_eval threshold e = Some b" "bindings_ok b"
    "attr_map b = foldl (++) Map.empty (map attr_map (operands e))"
    using update_queue_ok [OF empty(1) assms, of threshold] unfolding ExprOpUpdate_eval_def queue empty(2) by blast
  moreover have "get_attr b = attr_map b" using get_attr_map [OF \<open>bindings_ok b\<close>] by blast
  ultimately show ?thesis using update_lookup_map [OF assms] by simp
qed

text \<open>The attribute set \<open>{ a = 1; c = 2; } // { b = 3; c = 4; }\<close>, layered.\<close>

definition sample_base :: "nat Bindings" where
  "sample_base = Bindings [\<lparr>attr_name = 2, attr_pos = 0, attr_value = 1\<rparr>, \<lparr>attr_name = 4, attr_pos = 0, attr_value = 2\<rparr>] 2 1 None"

definition sample_layered :: "nat Bindings" where
  "sample_layered = Bindings [\<lparr>attr_name = 3, attr_pos = 0, attr_value = 3\<rparr>, \<lparr>attr_name = 4, attr_pos = 0, attr_value = 4\<rparr>] 3 2 (Some sample_base)"

lemma sample_layered_ok: "bindings_ok sample_base" "bindings_ok sample_layered"
  by (simp_all add: sample_base_def sample_layered_def maxLayers_def)

theorem attr_set_iteration_witness:
  "\<exists>xs. entries sample_layered = Some xs \<and> length xs = 3 \<and> \<lparr>attr_name = 4, attr_pos = 0, attr_value = 4\<rparr> \<in> set xs"
proof -
  have "get_attr sample_layered 4 = Some \<lparr>attr_name = 4, attr_pos = 0, attr_value = 4\<rparr>" by code_simp
  with attr_set_iteration [OF sample_layered_ok(2)] show ?thesis by (auto simp: bindings_size_def sample_layered_def)
qed

theorem cursor_heap_bound_witness: "length (cursorHeap ((attr_iter_next ^^ 2) (attr_iter_begin sample_layered))) \<le> 8"
  using cursor_heap_bound [OF sample_layered_ok(2), of 2] by (simp add: maxLayers_def)

theorem update_chain_refines_witness:
  "\<exists>b. ExprOpUpdate_eval 16 (Update (Operand sample_layered) (Update (Operand sample_base) (Operand emptyBindings))) = Some b \<and>
     get_attr b 4 = Some \<lparr>attr_name = 4, attr_pos = 0, attr_value = 2\<rparr>"
proof -
  have "\<forall>b\<in>set (operands (Update (Operand sample_layered) (Update (Operand sample_base) (Operand emptyBindings)))). bindings_ok b"
    using sample_layered_ok by (simp add: emptyBindings_def maxLayers_def)
  moreover have "update_lookup (Update (Operand sample_layered) (Update (Operand sample_base) (Operand emptyBindings))) 4 =
      Some \<lparr>attr_name = 4, attr_pos = 0, attr_value = 2\<rparr>" by code_simp
  ultimately show ?thesis using update_chain_refines by metis
qed

end
