(* ===== verification/Checked_Arith.thy ===== *)
theory Checked_Arith
  imports Prelude "HOL-Library.Word" "HOL-Library.Signed_Division"
begin

text \<open>
  Integers of the expression language: the 64-bit numbers with checked arithmetic of
  \<^verbatim>\<open>libutil/include/nix/util/checked-arithmetic.hh\<close>, at the instance
  \<^verbatim>\<open>Checked<int64_t>\<close> that \<^verbatim>\<open>NixInt\<close> names.  The compiler's overflow builtins store the
  result modulo \<open>2 ^ 64\<close> and report whether that differs from the exact result.
\<close>

type_synonym NixInt = "64 word"

datatype OverflowKind = NoOverflow | Overflow | DivByZero

datatype checked_result = Result (result_value: NixInt) (result_overflow: OverflowKind)

definition Result_flag :: "NixInt \<Rightarrow> bool \<Rightarrow> checked_result" where
  "Result_flag v overflowed = Result v (if overflowed then Overflow else NoOverflow)"

definition valueChecked :: "checked_result \<Rightarrow> NixInt option" where
  "valueChecked r = (if result_overflow r \<noteq> NoOverflow then None else Some (result_value r))"

definition valueWrapping :: "checked_result \<Rightarrow> NixInt option" where
  "valueWrapping r = (if result_overflow r = DivByZero then None else Some (result_value r))"

definition overflowed :: "checked_result \<Rightarrow> bool" where
  "overflowed r \<longleftrightarrow> result_overflow r = Overflow"

definition divideByZero :: "checked_result \<Rightarrow> bool" where
  "divideByZero r \<longleftrightarrow> result_overflow r = DivByZero"

definition checked_add :: "NixInt \<Rightarrow> NixInt \<Rightarrow> checked_result" where
  "checked_add a b = Result_flag (a + b) (sint (a + b) \<noteq> sint a + sint b)"

definition checked_sub :: "NixInt \<Rightarrow> NixInt \<Rightarrow> checked_result" where
  "checked_sub a b = Result_flag (a - b) (sint (a - b) \<noteq> sint a - sint b)"

definition checked_mul :: "NixInt \<Rightarrow> NixInt \<Rightarrow> checked_result" where
  "checked_mul a b = Result_flag (a * b) (sint (a * b) \<noteq> sint a * sint b)"

definition int64_min :: NixInt where
  "int64_min = word_of_int (- (2 ^ 63))"

definition checked_div :: "NixInt \<Rightarrow> NixInt \<Rightarrow> checked_result" where
  "checked_div a b =
     (if a = int64_min \<and> b = - 1 then Result_flag int64_min True
      else if b = 0 then Result 0 DivByZero
      else Result_flag (word_of_int (sint a sdiv sint b)) False)"

section \<open>Checked results are exact\<close>

definition in_int64 :: "int \<Rightarrow> bool" where
  "in_int64 i \<longleftrightarrow> - (2 ^ 63) \<le> i \<and> i < 2 ^ 63"

lemma sint_in_int64 [simp]: "in_int64 (sint (a :: NixInt))"
  using sint_ge [of a] sint_lt [of a] by (simp add: in_int64_def)

lemma sint_of_int: "in_int64 i \<Longrightarrow> sint (word_of_int i :: NixInt) = i"
  by (simp add: in_int64_def sint_sbintrunc' signed_take_bit_int_eq_self)

lemma word_of_sint_eq: "word_of_int (sint a + sint b) = (a + b :: NixInt)"
    "word_of_int (sint a - sint b) = (a - b :: NixInt)" "word_of_int (sint a * sint b) = (a * b :: NixInt)"
  by simp_all

lemma flag_exact:
  assumes "word_of_int i = (w :: NixInt)"
  shows "valueChecked (Result_flag w (sint w \<noteq> i)) = Some v \<longleftrightarrow> sint v = i"
    and "in_int64 i \<longleftrightarrow> sint w = i"
proof -
  show "in_int64 i \<longleftrightarrow> sint w = i"
    using sint_of_int [of i] sint_in_int64 [of w] assms by metis
  show "valueChecked (Result_flag w (sint w \<noteq> i)) = Some v \<longleftrightarrow> sint v = i"
    using sint_of_int [of i] sint_in_int64 [of v] assms by (auto simp: valueChecked_def Result_flag_def)
qed

lemma sint_int64_min: "sint int64_min = - (2 ^ 63)"
  unfolding int64_min_def by (rule sint_of_int) (simp add: in_int64_def)

lemma sdiv_bound: "\<bar>a sdiv b\<bar> \<le> \<bar>a\<bar>" for a b :: int
proof (cases "b = 0")
  case False
  have "\<bar>a\<bar> div \<bar>b\<bar> \<le> \<bar>a\<bar>" using div_le_dividend [of "nat \<bar>a\<bar>" "nat \<bar>b\<bar>"] by (simp add: nat_div_distrib [symmetric])
  moreover have "0 \<le> \<bar>a\<bar> div \<bar>b\<bar>" using False by (simp add: pos_imp_zdiv_nonneg_iff)
  ultimately show ?thesis by (simp add: signed_divide_int_def abs_mult abs_sgn_eq)
qed (simp add: signed_divide_int_def)

lemma sdiv_big:
  fixes a b :: int
  assumes "b \<noteq> - 1" "2 \<le> a"
  shows "- a sdiv b \<noteq> a"
proof
  assume eq: "- a sdiv b = a"
  show False
  proof (cases "\<bar>b\<bar> \<le> 1")
    case True
    then have "b = 0 \<or> b = 1" using assms by auto
    then show False using eq assms by (auto simp: signed_divide_int_def)
  next
    case False
    then have "a div \<bar>b\<bar> < a" using assms by (intro int_div_less_self) auto
    moreover have "0 \<le> a div \<bar>b\<bar>" using assms False by (simp add: pos_imp_zdiv_nonneg_iff)
    moreover have "a = sgn (- a) * sgn b * (a div \<bar>b\<bar>)" using eq assms by (simp add: signed_divide_int_def)
    ultimately show False using assms by (cases "0 < b") (auto simp: sgn_if split: if_splits)
  qed
qed

lemma sdiv_in_int64:
  assumes "\<not> (sint (a :: NixInt) = - (2 ^ 63) \<and> sint (b :: NixInt) = - 1)"
  shows "in_int64 (sint a sdiv sint b)"
proof -
  have bound: "\<bar>sint a sdiv sint b\<bar> \<le> \<bar>sint a\<bar>" by (rule sdiv_bound)
  have a: "- (2 ^ 63) \<le> sint a" "sint a < 2 ^ 63" using sint_in_int64 [of a] by (auto simp: in_int64_def)
  show ?thesis
  proof (cases "sint a = - (2 ^ 63)")
    case True
    then have "sint b \<noteq> - 1" using assms by simp
    then have "sint a sdiv sint b \<noteq> 2 ^ 63" using sdiv_big [of "sint b" "2 ^ 63"] True by simp
    then show ?thesis using bound True by (auto simp: in_int64_def)
  next
    case False
    then show ?thesis using bound a by (auto simp: in_int64_def)
  qed
qed

lemma sint_minus_one_iff: "sint (b :: NixInt) = - 1 \<longleftrightarrow> b = - 1"
  by (metis signed_minus_1 signed_word_eqI)

lemma sint_min_iff: "sint (a :: NixInt) = - (2 ^ 63) \<longleftrightarrow> a = int64_min"
  by (metis sint_int64_min signed_word_eqI)

lemma checked_div_exact:
  "valueChecked (checked_div a b) =
     (if b \<noteq> 0 \<and> in_int64 (sint a sdiv sint b) then Some (word_of_int (sint a sdiv sint b)) else None)"
  "divideByZero (checked_div a b) \<longleftrightarrow> b = 0"
  "overflowed (checked_div a b) \<longleftrightarrow> sint a = - (2 ^ 63) \<and> sint b = - 1"
proof -
  have min: "sint a = - (2 ^ 63) \<and> sint b = - 1 \<longleftrightarrow> a = int64_min \<and> b = - 1"
    by (simp only: sint_min_iff sint_minus_one_iff)
  have div: "\<not> in_int64 (sint int64_min sdiv sint (- 1 :: NixInt))"
    unfolding sint_int64_min by (simp add: in_int64_def signed_divide_int_def)
  have fits: "in_int64 (sint a sdiv sint b)" if "\<not> (a = int64_min \<and> b = - 1)"
    using sdiv_in_int64 that min by blast
  consider "a = int64_min \<and> b = - 1" | "b = 0" | "\<not> (a = int64_min \<and> b = - 1)" "b \<noteq> 0" by blast
  note cases = this
  show "valueChecked (checked_div a b) =
     (if b \<noteq> 0 \<and> in_int64 (sint a sdiv sint b) then Some (word_of_int (sint a sdiv sint b)) else None)"
    using div fits by (cases rule: cases) (auto simp: checked_div_def valueChecked_def Result_flag_def)
  show "divideByZero (checked_div a b) \<longleftrightarrow> b = 0"
    by (cases rule: cases) (auto simp: checked_div_def divideByZero_def Result_flag_def)
  show "overflowed (checked_div a b) \<longleftrightarrow> sint a = - (2 ^ 63) \<and> sint b = - 1"
    unfolding min by (cases rule: cases) (auto simp: checked_div_def overflowed_def Result_flag_def)
qed

text \<open>
  C15: Checked integer arithmetic: the checked value of a sum, difference or product is there
  exactly when the mathematical result fits 64 bits, and then it is that result; a checked
  quotient is there exactly when the divisor is not zero and the quotient (truncated towards
  zero) fits, and a division reports an overflow only for the least number by minus one.
\<close>

theorem checked_arithmetic_exact:
  "(valueChecked (checked_add a b) = (if in_int64 (sint a + sint b) then Some (word_of_int (sint a + sint b)) else None)) \<and>
   (valueChecked (checked_sub a b) = (if in_int64 (sint a - sint b) then Some (word_of_int (sint a - sint b)) else None)) \<and>
   (valueChecked (checked_mul a b) = (if in_int64 (sint a * sint b) then Some (word_of_int (sint a * sint b)) else None)) \<and>
   (valueChecked (checked_div a b) =
      (if b \<noteq> 0 \<and> in_int64 (sint a sdiv sint b) then Some (word_of_int (sint a sdiv sint b)) else None)) \<and>
   (divideByZero (checked_div a b) \<longleftrightarrow> b = 0) \<and> (overflowed (checked_div a b) \<longleftrightarrow> sint a = - (2 ^ 63) \<and> sint b = - 1)"
proof -
  have flag: "valueChecked (Result_flag w (sint w \<noteq> i)) = (if in_int64 i then Some (word_of_int i) else None)"
    if "word_of_int i = w" for i and w :: NixInt
    using flag_exact(2) [OF that] that by (simp add: valueChecked_def Result_flag_def)
  show ?thesis
    unfolding checked_add_def checked_sub_def checked_mul_def
    by (intro conjI flag word_of_sint_eq checked_div_exact)
qed

end
