(* ===== verification/Nix_Expr.thy ===== *)
theory Nix_Expr
  imports Prelude Attr_Set Checked_Arith
begin

text \<open>
  Expressions of the Nix language and the static binding of their variables:
  \<^verbatim>\<open>libexpr/include/nix/expr/nixexpr.hh\<close> and the \<^verbatim>\<open>bindVars\<close> methods of
  \<^verbatim>\<open>libexpr/nixexpr.cc\<close>.  Binding replaces every variable by the number of environments to go
  up and the slot to read there, or by the chain of \<^verbatim>\<open>with\<close> expressions to search.

  An expression is the object graph that the parser builds, without the source positions, function
  names and documentation comments (which appear in messages only).  What \<^verbatim>\<open>bindVars\<close> stores in an
  object is returned in an updated copy of it.  Levels and displacements are \<^verbatim>\<open>uint32_t\<close> in the code
  and bounded by the nesting depth and the number of names of one scope.  The pseudo-expression
  \<^verbatim>\<open>__curPos\<close> is left out, and floating-point numbers are their bit patterns.
\<close>

section \<open>Expressions\<close>

type_synonym Level = nat
type_synonym Displacement = nat
type_synonym NixFloat = "64 word"

text \<open>What a pointer to an \<^verbatim>\<open>ExprWith\<close> is used for: its level and the enclosing \<^verbatim>\<open>with\<close>.\<close>

datatype with_ref = WithRef (prevWith: nat) (parentWith: "with_ref option")

datatype attr_kind = Plain | Inherited | InheritedFrom

datatype bin_op = OpEq | OpNEq | OpAnd | OpOr | OpImpl | OpUpdate | OpConcatLists

datatype expr =
    ExprInt NixInt
  | ExprFloat NixFloat
  | ExprString string
  | ExprPath string
  | ExprVar Symbol "with_ref option" Level Displacement
  | ExprInheritFrom Displacement
  | ExprSelect expr "expr option" "attr_path_elem list"
  | ExprOpHasAttr expr "attr_path_elem list"
  | ExprAttrs attrs_node
  | ExprList "expr list"
  | ExprLambda lambda_node
  | ExprCall expr "expr list"
  | ExprLet attrs_node expr
  | ExprWith nat "with_ref option" expr expr
  | ExprIf expr expr expr
  | ExprAssert expr expr
  | ExprOpNot expr
  | ExprOp bin_op expr expr
  | ExprConcatStrings bool "expr list"
and attr_path_elem = NameSymbol Symbol | NameExpr expr
and attrs_node = AttrsNode (is_recursive: bool) (static_attrs: "(Symbol \<times> attr_def) list")
    (inheritFromExprs: "expr list option") (dynamicAttrs: "(expr \<times> expr) list")
and attr_def = AttrDef (def_kind: attr_kind) (def_expr: expr) (def_displ: Displacement)
and lambda_node = LambdaNode (lambda_arg: "Symbol option") (lambda_formals: "formals option") (lambda_body: expr)
and formals = Formals (formal_list: "(Symbol \<times> expr option) list") (ellipsis: bool)

text \<open>\<^verbatim>\<open>AttrDef::chooseByKind\<close>\<close>

definition chooseByKind :: "attr_kind \<Rightarrow> 'a \<Rightarrow> 'a \<Rightarrow> 'a \<Rightarrow> 'a" where
  "chooseByKind k plain inherited inheritedFrom =
     (case k of Plain \<Rightarrow> plain | Inherited \<Rightarrow> inherited | InheritedFrom \<Rightarrow> inheritedFrom)"

section \<open>Static environments\<close>

text \<open>A chain of \<^verbatim>\<open>StaticEnv\<close> objects is a list of frames, the innermost first.\<close>

record static_frame =
  isWith :: "with_ref option"
  vars :: "(Symbol \<times> Displacement) list"

type_synonym static_env = "static_frame list"

text \<open>\<^verbatim>\<open>StaticEnv::sort\<close>: a stable sort by the symbol.\<close>

definition static_sort :: "(Symbol \<times> Displacement) list \<Rightarrow> (Symbol \<times> Displacement) list" where
  "static_sort vs = sort_key fst vs"

text \<open>\<^verbatim>\<open>StaticEnv::deduplicate\<close>: of the entries of one symbol that follow each other the last is kept.\<close>

fun deduplicate :: "(Symbol \<times> Displacement) list \<Rightarrow> (Symbol \<times> Displacement) list" where
  "deduplicate (x # y # vs) = (if fst x = fst y then deduplicate (y # vs) else x # deduplicate (y # vs))"
| "deduplicate vs = vs"

text \<open>\<^verbatim>\<open>StaticEnv::find\<close>: the lower bound of the pair of the symbol and 0, in the order of pairs.\<close>

definition pair_less :: "Symbol \<times> Displacement \<Rightarrow> Symbol \<times> Displacement \<Rightarrow> bool" where
  "pair_less a b \<longleftrightarrow> fst a < fst b \<or> fst a = fst b \<and> snd a < snd b"

definition static_find :: "Symbol \<Rightarrow> (Symbol \<times> Displacement) list \<Rightarrow> Displacement option" where
  "static_find name vs = (case dropWhile (\<lambda>v. pair_less v (name, 0)) vs of
     [] \<Rightarrow> None
   | v # _ \<Rightarrow> if fst v = name then Some (snd v) else None)"

section \<open>Binding a variable\<close>

text \<open>The innermost enclosing \<^verbatim>\<open>with\<close>, and the number of environments up to it.\<close>

fun nearest_with :: "static_env \<Rightarrow> with_ref option" where
  "nearest_with [] = None"
| "nearest_with (f # env) = (case isWith f of Some w \<Rightarrow> Some w | None \<Rightarrow> nearest_with env)"

fun find_var :: "Symbol \<Rightarrow> static_env \<Rightarrow> Level \<Rightarrow> Level option \<Rightarrow> (Level \<times> Displacement) option \<times> Level option" where
  "find_var name [] level withLevel = (None, withLevel)"
| "find_var name (f # env) level withLevel =
     (if isWith f \<noteq> None then
        find_var name env (level + 1) (if withLevel = None then Some level else withLevel)
      else case static_find name (vars f) of
        Some d \<Rightarrow> (Some (level, d), withLevel)
      | None \<Rightarrow> find_var name env (level + 1) withLevel)"

datatype bind_error = UndefinedVarError Symbol

definition ExprVar_bindVars :: "static_env \<Rightarrow> Symbol \<Rightarrow> bind_error + expr" where
  "ExprVar_bindVars env name =
     (case find_var name env 0 None of
        (Some (level, displ), _) \<Rightarrow> Inr (ExprVar name None level displ)
      | (None, None) \<Rightarrow> Inl (UndefinedVarError name)
      | (None, Some withLevel) \<Rightarrow> Inr (ExprVar name (nearest_with env) withLevel 0))"

text \<open>The level of the enclosing \<^verbatim>\<open>with\<close> as an \<^verbatim>\<open>ExprWith\<close> records it, 0 if there is none.\<close>

fun enclosing_with :: "static_env \<Rightarrow> nat \<Rightarrow> nat" where
  "enclosing_with [] level = 0"
| "enclosing_with (f # env) level = (if isWith f \<noteq> None then level else enclosing_with env (level + 1))"

section \<open>Binding an expression\<close>

text \<open>
  The frame of the names of a \<^verbatim>\<open>let\<close> or \<^verbatim>\<open>rec\<close>, whose displacements are their positions.  The
  attributes are numbered in the bound copy; nothing reads the numbers before.
\<close>

definition number_attrs :: "(Symbol \<times> attr_def) list \<Rightarrow> (Symbol \<times> attr_def) list" where
  "number_attrs as = map (\<lambda>(i, n, d). (n, AttrDef (def_kind d) (def_expr d) i)) (zip [0..<length as] as)"

definition attrs_frame :: "(Symbol \<times> attr_def) list \<Rightarrow> static_frame" where
  "attrs_frame as = \<lparr>isWith = None, vars = map (\<lambda>(n, d). (n, def_displ d)) (number_attrs as)\<rparr>"

definition lambda_frame :: "Symbol option \<Rightarrow> formals option \<Rightarrow> static_frame" where
  "lambda_frame arg fs =
     (let names = (case arg of Some a \<Rightarrow> [a] | None \<Rightarrow> []) @ (case fs of Some f \<Rightarrow> map fst (formal_list f) | None \<Rightarrow> []);
          vs = zip names [0..<length names]
      in \<lparr>isWith = None, vars = (if fs = None then vs else static_sort vs)\<rparr>)"

text \<open>\<^verbatim>\<open>bindInheritSources\<close>: the sources have an environment of their own, which binds no name.\<close>

definition inherit_env :: "'e list option \<Rightarrow> static_env \<Rightarrow> static_env" where
  "inherit_env froms env = (if froms = None then [] else \<lparr>isWith = None, vars = []\<rparr> # env)"

text \<open>
  The bound parts of a node, in the order of the loops of the code: the first error is the result.
\<close>

fun seq_list :: "('e + 'a) list \<Rightarrow> 'e + 'a list" where
  "seq_list [] = Inr []"
| "seq_list (m # ms) = result_bind m (\<lambda>x. result_bind (seq_list ms) (\<lambda>xs. Inr (x # xs)))"

fun seq_option :: "('e + 'a) option \<Rightarrow> 'e + 'a option" where
  "seq_option None = Inr None"
| "seq_option (Some m) = result_bind m (\<lambda>x. Inr (Some x))"

fun seq_pair :: "('e + 'a) \<times> ('e + 'b) \<Rightarrow> 'e + 'a \<times> 'b" where
  "seq_pair (m, n) = result_bind m (\<lambda>x. result_bind n (\<lambda>y. Inr (x, y)))"

primrec bindVars :: "expr \<Rightarrow> static_env \<Rightarrow> bind_error + expr"
  and bindVars_elem :: "attr_path_elem \<Rightarrow> static_env \<Rightarrow> bind_error + attr_path_elem"
  and bindVars_node :: "attrs_node \<Rightarrow> bool \<Rightarrow> static_env \<Rightarrow> static_env \<Rightarrow> bind_error + attrs_node"
  and bindVars_def :: "attr_def \<Rightarrow> static_env \<Rightarrow> static_env \<Rightarrow> static_env \<Rightarrow> bind_error + attr_def"
  and bindVars_lambda :: "lambda_node \<Rightarrow> static_env \<Rightarrow> bind_error + lambda_node"
  and bindVars_formals :: "formals \<Rightarrow> static_env \<Rightarrow> bind_error + formals"
where
  "bindVars (ExprInt n) env = Inr (ExprInt n)"
| "bindVars (ExprFloat x) env = Inr (ExprFloat x)"
| "bindVars (ExprString s) env = Inr (ExprString s)"
| "bindVars (ExprPath s) env = Inr (ExprPath s)"
| "bindVars (ExprVar name w l d) env = ExprVar_bindVars env name"
| "bindVars (ExprInheritFrom d) env = Inr (ExprInheritFrom d)"
| "bindVars (ExprSelect e dflt path) env =
     result_bind (bindVars e env) (\<lambda>e'.
     result_bind (seq_option (map_option (\<lambda>x. bindVars x env) dflt)) (\<lambda>dflt'.
     result_bind (seq_list (map (\<lambda>x. bindVars_elem x env) path)) (\<lambda>path'. Inr (ExprSelect e' dflt' path'))))"
| "bindVars (ExprOpHasAttr e path) env =
     result_bind (bindVars e env) (\<lambda>e'.
     result_bind (seq_list (map (\<lambda>x. bindVars_elem x env) path)) (\<lambda>path'. Inr (ExprOpHasAttr e' path')))"
| "bindVars (ExprAttrs n) env =
     (let newEnv = (if is_recursive n then attrs_frame (static_attrs n) # env else env)
      in result_bind (bindVars_node n True newEnv env) (\<lambda>n'.
           Inr (ExprAttrs (if is_recursive n
             then AttrsNode True (number_attrs (static_attrs n')) (inheritFromExprs n') (dynamicAttrs n') else n'))))"
| "bindVars (ExprList es) env = result_bind (seq_list (map (\<lambda>x. bindVars x env) es)) (\<lambda>es'. Inr (ExprList es'))"
| "bindVars (ExprLambda l) env = result_bind (bindVars_lambda l env) (\<lambda>l'. Inr (ExprLambda l'))"
| "bindVars (ExprCall f es) env =
     result_bind (bindVars f env) (\<lambda>f'.
     result_bind (seq_list (map (\<lambda>x. bindVars x env) es)) (\<lambda>es'. Inr (ExprCall f' es')))"
| "bindVars (ExprLet n body) env =
     (let newEnv = attrs_frame (static_attrs n) # env
      in result_bind (bindVars_node n False newEnv env) (\<lambda>n'.
         result_bind (bindVars body newEnv) (\<lambda>body'.
           Inr (ExprLet (AttrsNode (is_recursive n') (number_attrs (static_attrs n')) (inheritFromExprs n') (dynamicAttrs n')) body'))))"
| "bindVars (ExprWith pw pa scope body) env =
     (let prev = enclosing_with env 1; parent = nearest_with env
      in result_bind (bindVars scope env) (\<lambda>scope'.
         result_bind (bindVars body (\<lparr>isWith = Some (WithRef prev parent), vars = []\<rparr> # env)) (\<lambda>body'.
           Inr (ExprWith prev parent scope' body'))))"
| "bindVars (ExprIf c t f) env =
     result_bind (bindVars c env) (\<lambda>c'. result_bind (bindVars t env) (\<lambda>t'. result_bind (bindVars f env) (\<lambda>f'. Inr (ExprIf c' t' f'))))"
| "bindVars (ExprAssert c b) env = result_bind (bindVars c env) (\<lambda>c'. result_bind (bindVars b env) (\<lambda>b'. Inr (ExprAssert c' b')))"
| "bindVars (ExprOpNot e) env = result_bind (bindVars e env) (\<lambda>e'. Inr (ExprOpNot e'))"
| "bindVars (ExprOp op a b) env = result_bind (bindVars a env) (\<lambda>a'. result_bind (bindVars b env) (\<lambda>b'. Inr (ExprOp op a' b')))"
| "bindVars (ExprConcatStrings force es) env =
     result_bind (seq_list (map (\<lambda>x. bindVars x env) es)) (\<lambda>es'. Inr (ExprConcatStrings force es'))"

| "bindVars_elem (NameSymbol s) env = Inr (NameSymbol s)"
| "bindVars_elem (NameExpr e) env = result_bind (bindVars e env) (\<lambda>e'. Inr (NameExpr e'))"

| "bindVars_node (AttrsNode recursive as froms dyn) binds_dynamic newEnv env =
     result_bind (seq_option (map_option seq_list (map_option (map (\<lambda>x. bindVars x newEnv)) froms))) (\<lambda>froms'.
     result_bind (seq_list (map (\<lambda>(n, m). result_bind m (\<lambda>d'. Inr (n, d')))
         (map (map_prod (\<lambda>n. n) (\<lambda>d. bindVars_def d newEnv env (inherit_env froms newEnv))) as))) (\<lambda>as'.
     result_bind (if binds_dynamic
         then seq_list (map seq_pair (map (map_prod (\<lambda>x. bindVars x newEnv) (\<lambda>x. bindVars x newEnv)) dyn))
         else Inr dyn) (\<lambda>dyn'.
       Inr (AttrsNode recursive as' froms' dyn'))))"

| "bindVars_def (AttrDef k e d) plain inherited inheritedFrom =
     result_bind (bindVars e (chooseByKind k plain inherited inheritedFrom)) (\<lambda>e'. Inr (AttrDef k e' d))"

| "bindVars_lambda (LambdaNode arg fs body) env =
     (let newEnv = lambda_frame arg fs # env
      in result_bind (seq_option (map_option (\<lambda>f. bindVars_formals f newEnv) fs)) (\<lambda>fs'.
         result_bind (bindVars body newEnv) (\<lambda>body'. Inr (LambdaNode arg fs' body'))))"

| "bindVars_formals (Formals fs ell) env =
     result_bind (seq_list (map (\<lambda>(n, m). result_bind (seq_option m) (\<lambda>x. Inr (n, x)))
         (map (map_prod (\<lambda>n. n) (map_option (\<lambda>x. bindVars x env))) fs))) (\<lambda>fs'. Inr (Formals fs' ell))"

end
