(* ===== verification/Nix_Value.thy ===== *)
theory Nix_Value
  imports Nix_Expr "HOL-Library.FSet" "HOL-Library.List_Lexorder" "HOL-Library.Char_ord"
begin

text \<open>
  Values, environments and the state of the evaluator: \<^verbatim>\<open>libexpr/include/nix/expr/value.hh\<close>,
  \<^verbatim>\<open>eval.hh\<close> and \<^verbatim>\<open>eval-inline.hh\<close>.  Values and environments that the code reaches through
  pointers live in two heaps, lists that only grow; a pointer is an index.  A computation returns,
  throws an error with the state it leaves behind, runs out of fuel, or does something the language
  definition of C++ or a failing assertion rules out: \<open>Undefined\<close>.
\<close>

section \<open>Values\<close>

datatype primop =
    TypeOf | IsNull | IsFunction | IsInt | IsFloat | IsString | IsBool | IsPath | IsAttrs | IsList
  | AbortOp | ThrowOp | AddErrorContext | TryEval | SeqOp | DeepSeq | BreakOp
  | GetAttr | HasAttr | AttrNames | AttrValues | RemoveAttrs | ListToAttrs | IntersectAttrs | CatAttrs
  | FunctionArgs | MapAttrs
  | ElemAt | HeadOp | TailOp | MapOp | FilterOp | ElemOp | ConcatListsOp | LengthOp | FoldlStrict
  | AnyOp | AllOp | GenList | PartitionOp | GroupBy | ConcatMap
  | AddOp | SubOp | MulOp | DivOp | BitAnd | BitOr | BitXor | LessThan
  | ToStringOp | Substring | StringLength | ConcatStringsSep

text \<open>
  Errors by class. The arguments that appear in messages only are left out. \<open>IntegerOverflow\<close> and
  \<open>DivisionByZero\<close> are messages of an \<^verbatim>\<open>EvalError\<close>; \<open>OtherError\<close> is an error of another component.
\<close>

datatype eval_error =
    UndefinedVar Symbol
  | TypeError
  | EvalError
  | IntegerOverflow
  | DivisionByZero
  | AssertionError
  | ThrownError string
  | AbortError string
  | InfiniteRecursion
  | StackOverflow
  | RecoverableError
  | OtherError nix_error

text \<open>\<^verbatim>\<open>tryEval\<close> catches \<^verbatim>\<open>AssertionError\<close>, of which \<^verbatim>\<open>ThrownError\<close> is a subclass.\<close>

fun is_assertion_error :: "eval_error \<Rightarrow> bool" where
  "is_assertion_error AssertionError = True"
| "is_assertion_error (ThrownError s) = True"
| "is_assertion_error _ = False"

text \<open>
  A partial application keeps the value it was made of in a cell of its own, which nothing else
  refers to or changes; it is part of the value here. A string has the set of the elements of its
  context, in their printed form.
\<close>

datatype nix_value =
    VInt NixInt
  | VFloat NixFloat
  | VBool bool
  | VString string "string fset"
  | VPath string
  | VNull
  | VAttrs "nat Bindings"
  | VList "nat list"
  | VLambda nat lambda_node
  | VPrimOp primop
  | VPrimOpApp nix_value nat
  | VThunk nat expr
  | VBlackhole
  | VApp nat nat
  | VFailed eval_error "nat option"

datatype ValueType = nThunk | nFailed | nInt | nFloat | nBool | nString | nPath | nNull | nAttrs | nList | nFunction

fun value_type :: "nix_value \<Rightarrow> ValueType" where
  "value_type (VInt n) = nInt"
| "value_type (VFloat x) = nFloat"
| "value_type (VBool b) = nBool"
| "value_type (VString s c) = nString"
| "value_type (VPath p) = nPath"
| "value_type VNull = nNull"
| "value_type (VAttrs b) = nAttrs"
| "value_type (VList xs) = nList"
| "value_type (VLambda e l) = nFunction"
| "value_type (VPrimOp p) = nFunction"
| "value_type (VPrimOpApp f a) = nFunction"
| "value_type (VThunk e x) = nThunk"
| "value_type VBlackhole = nThunk"
| "value_type (VApp f a) = nThunk"
| "value_type (VFailed e r) = nFailed"

text \<open>Weak head normal form: what forcing leaves behind.\<close>

definition whnf :: "nix_value \<Rightarrow> bool" where
  "whnf v \<longleftrightarrow> value_type v \<noteq> nThunk \<and> value_type v \<noteq> nFailed"

section \<open>The state\<close>

text \<open>An environment: the enclosing one, and the slots, which are null until they are filled.\<close>

record nix_env =
  env_up :: "nat option"
  env_slots :: "nat option list"

record eval_state =
  heap_values :: "nix_value list"
  heap_envs :: "nix_env list"
  symbols :: "string list"
  callDepth :: nat

text \<open>
  What evaluation takes from its surroundings: two settings, the floating-point unit, and the
  copying of a source path to the store, which gives the printed store path and its context.
\<close>

record eval_cfg =
  maxCallDepth :: nat
  bindingsUpdateLayerRhsSizeThreshold :: nat
  float_add :: "NixFloat \<Rightarrow> NixFloat \<Rightarrow> NixFloat"
  float_sub :: "NixFloat \<Rightarrow> NixFloat \<Rightarrow> NixFloat"
  float_mul :: "NixFloat \<Rightarrow> NixFloat \<Rightarrow> NixFloat"
  float_div :: "NixFloat \<Rightarrow> NixFloat \<Rightarrow> NixFloat"
  float_eq :: "NixFloat \<Rightarrow> NixFloat \<Rightarrow> bool"
  float_less :: "NixFloat \<Rightarrow> NixFloat \<Rightarrow> bool"
  float_of_int :: "NixInt \<Rightarrow> NixFloat"
  float_string :: "NixFloat \<Rightarrow> string"
  copyPathToStore :: "string \<Rightarrow> eval_error + string \<times> string fset"

datatype 'a outcome = Ret 'a eval_state | Throw eval_error eval_state | Undefined | Timeout

type_synonym 'a ev = "eval_state \<Rightarrow> 'a outcome"

section \<open>Sequencing\<close>

definition ev_return :: "'a \<Rightarrow> 'a ev" where
  "ev_return x s = Ret x s"

definition ev_throw :: "eval_error \<Rightarrow> 'a ev" where
  "ev_throw e s = Throw e s"

definition ev_undefined :: "'a ev" where
  "ev_undefined s = Undefined"

definition ev_bind :: "'a ev \<Rightarrow> ('a \<Rightarrow> 'b ev) \<Rightarrow> 'b ev" where
  "ev_bind m k s = (case m s of Ret x s' \<Rightarrow> k x s' | Throw e s' \<Rightarrow> Throw e s' | Undefined \<Rightarrow> Undefined | Timeout \<Rightarrow> Timeout)"

definition ev_then :: "'a ev \<Rightarrow> 'b ev \<Rightarrow> 'b ev" where
  "ev_then m n = ev_bind m (\<lambda>_. n)"

definition ev_catch :: "'a ev \<Rightarrow> (eval_error \<Rightarrow> 'a ev) \<Rightarrow> 'a ev" where
  "ev_catch m h s = (case m s of Throw e s' \<Rightarrow> h e s' | r \<Rightarrow> r)"

fun ev_map :: "('a \<Rightarrow> 'b ev) \<Rightarrow> 'a list \<Rightarrow> 'b list ev" where
  "ev_map f [] = ev_return []"
| "ev_map f (x # xs) = ev_bind (f x) (\<lambda>y. ev_bind (ev_map f xs) (\<lambda>ys. ev_return (y # ys)))"

fun ev_fold :: "('a \<Rightarrow> 's \<Rightarrow> 's ev) \<Rightarrow> 'a list \<Rightarrow> 's \<Rightarrow> 's ev" where
  "ev_fold f [] s = ev_return s"
| "ev_fold f (x # xs) s = ev_bind (f x s) (\<lambda>s'. ev_fold f xs s')"

text \<open>A loop over a list that a result ends early.\<close>

fun ev_find :: "('a \<Rightarrow> 'b option ev) \<Rightarrow> 'a list \<Rightarrow> 'b option ev" where
  "ev_find f [] = ev_return None"
| "ev_find f (x # xs) = ev_bind (f x) (\<lambda>r. if r = None then ev_find f xs else ev_return r)"

section \<open>Primitive steps\<close>

definition read_value :: "nat \<Rightarrow> nix_value ev" where
  "read_value a s = (if a < length (heap_values s) then Ret (heap_values s ! a) s else Undefined)"

definition write_value :: "nat \<Rightarrow> nix_value \<Rightarrow> unit ev" where
  "write_value a v s = (if a < length (heap_values s) then Ret () (s\<lparr>heap_values := (heap_values s)[a := v]\<rparr>) else Undefined)"

text \<open>\<^verbatim>\<open>allocValue\<close>, with the value written to the cell next.\<close>

definition alloc_value :: "nix_value \<Rightarrow> nat ev" where
  "alloc_value v s = Ret (length (heap_values s)) (s\<lparr>heap_values := heap_values s @ [v]\<rparr>)"

text \<open>\<^verbatim>\<open>allocEnv\<close>: the slots are cleared.\<close>

definition alloc_env :: "nat option \<Rightarrow> nat \<Rightarrow> nat ev" where
  "alloc_env up n s = Ret (length (heap_envs s)) (s\<lparr>heap_envs := heap_envs s @ [\<lparr>env_up = up, env_slots = replicate n None\<rparr>]\<rparr>)"

definition read_up :: "nat \<Rightarrow> nat ev" where
  "read_up e s = (if e < length (heap_envs s) then (case env_up (heap_envs s ! e) of Some u \<Rightarrow> Ret u s | None \<Rightarrow> Undefined)
     else Undefined)"

text \<open>A slot may be null where the code allows it; using a null pointer is undefined.\<close>

definition read_slot_or_null :: "nat \<Rightarrow> nat \<Rightarrow> nat option ev" where
  "read_slot_or_null e d s = (if e < length (heap_envs s) \<and> d < length (env_slots (heap_envs s ! e))
     then Ret (env_slots (heap_envs s ! e) ! d) s else Undefined)"

definition non_null :: "'a option \<Rightarrow> 'a ev" where
  "non_null x = (case x of Some a \<Rightarrow> ev_return a | None \<Rightarrow> ev_undefined)"

definition read_slot :: "nat \<Rightarrow> nat \<Rightarrow> nat ev" where
  "read_slot e d = ev_bind (read_slot_or_null e d) non_null"

definition write_slot :: "nat \<Rightarrow> nat \<Rightarrow> nat \<Rightarrow> unit ev" where
  "write_slot e d a s = (if e < length (heap_envs s) \<and> d < length (env_slots (heap_envs s ! e))
     then Ret () (s\<lparr>heap_envs := (heap_envs s)[e := (heap_envs s ! e)\<lparr>env_slots := (env_slots (heap_envs s ! e))[d := Some a]\<rparr>]\<rparr>)
     else Undefined)"

text \<open>\<^verbatim>\<open>SymbolTable::create\<close>: the symbol of a string that is there, or a new one.\<close>

definition create_symbol :: "string \<Rightarrow> Symbol ev" where
  "create_symbol n s = (if n \<in> set (symbols s) then Ret (length (takeWhile (\<lambda>x. x \<noteq> n) (symbols s))) s
     else Ret (length (symbols s)) (s\<lparr>symbols := symbols s @ [n]\<rparr>))"

definition symbol_name :: "Symbol \<Rightarrow> string ev" where
  "symbol_name n s = (if n < length (symbols s) then Ret (symbols s ! n) s else Undefined)"

text \<open>The symbols that the code itself uses are created first, in this order.\<close>

definition static_symbols :: "string list" where
  "static_symbols = [
    ''<with>'', ''outPath'', ''drvPath'', ''type'', ''meta'', ''name'', ''value'', ''system'',
    ''__overrides'', ''outputs'', ''outputName'', ''__ignoreNulls'', ''file'', ''line'', ''column'',
    ''__functor'', ''__toString'', ''right'', ''wrong'', ''__structuredAttrs'', ''__json'',
    ''allowedReferences'', ''allowedRequisites'', ''disallowedReferences'', ''disallowedRequisites'',
    ''maxSize'', ''maxClosureSize'', ''builder'', ''args'', ''__contentAddressed'', ''__impure'',
    ''outputHash'', ''outputHashAlgo'', ''outputHashMode'', ''recurseForDerivations'', ''description'',
    ''self'', '''', ''startSet'', ''operator'', ''key'', ''path'', ''prefix'', ''outputSpecified'',
    ''__sub'', ''__lessThan'', ''__mul'', ''__div'', ''or'', ''__findFile'', ''__nixPath'', ''body'']"

definition sym_outPath :: Symbol where
  "sym_outPath = 1"

definition sym_type :: Symbol where
  "sym_type = 3"

definition sym_name :: Symbol where
  "sym_name = 5"

definition sym_value :: Symbol where
  "sym_value = 6"

definition sym_overrides :: Symbol where
  "sym_overrides = 8"

definition sym_functor :: Symbol where
  "sym_functor = 15"

definition sym_toString :: Symbol where
  "sym_toString = 16"

definition sym_right :: Symbol where
  "sym_right = 17"

definition sym_wrong :: Symbol where
  "sym_wrong = 18"

text \<open>\<^verbatim>\<open>addCallDepth\<close>: the depth counts the calls that are running, whichever way they end.\<close>

definition set_depth :: "nat \<Rightarrow> 'a outcome \<Rightarrow> 'a outcome" where
  "set_depth d r = (case r of Ret x s \<Rightarrow> Ret x (s\<lparr>callDepth := d\<rparr>) | Throw e s \<Rightarrow> Throw e (s\<lparr>callDepth := d\<rparr>)
     | Undefined \<Rightarrow> Undefined | Timeout \<Rightarrow> Timeout)"

definition addCallDepth :: "eval_cfg \<Rightarrow> 'a ev \<Rightarrow> 'a ev" where
  "addCallDepth cfg m s =
     (if callDepth s > maxCallDepth cfg then Throw StackOverflow s
      else set_depth (callDepth s) (m (s\<lparr>callDepth := callDepth s + 1\<rparr>)))"

text \<open>A set of bindings in order of iteration (the \<open>None\<close> of a cut-off iterator does not occur).\<close>

definition attr_entries :: "nat Bindings \<Rightarrow> nat Attr list ev" where
  "attr_entries b = non_null (entries b)"

definition mk_attr :: "Symbol \<Rightarrow> nat \<Rightarrow> nat Attr" where
  "mk_attr n a = \<lparr>attr_name = n, attr_pos = 0, attr_value = a\<rparr>"

end
