(* ===== verification/Nix_Calls.thy ===== *)
theory Nix_Calls
  imports Nix_Value Canon_Path Serialise
begin

text \<open>
  The operations of the evaluator that call each other recursively, as a record of functions, and
  the helpers of \<^verbatim>\<open>libexpr/eval.cc\<close> and \<^verbatim>\<open>eval-inline.hh\<close> that are written with them: forcing to a
  type, looking up a variable, delaying an expression.  \<^verbatim>\<open>Nix_Eval\<close> closes the recursion.
\<close>

text \<open>A \<^verbatim>\<open>Value &\<close> refers to a local variable of the caller or to a cell of the heap.\<close>

datatype value_ref = Tmp nix_value | At nat

record calls =
  eval_c :: "expr \<Rightarrow> nat \<Rightarrow> nix_value ev"
  force_c :: "nat \<Rightarrow> unit ev"
  call_c :: "value_ref \<Rightarrow> nat list \<Rightarrow> nix_value ev"
  loop_c :: "nix_value \<Rightarrow> nat list \<Rightarrow> nix_value ev"
  eq_c :: "value_ref \<Rightarrow> value_ref \<Rightarrow> bool ev"
  string_c :: "value_ref \<Rightarrow> bool \<Rightarrow> bool \<Rightarrow> bool \<Rightarrow> (string \<times> string fset) ev"
  deep_c :: "nat \<Rightarrow> nat list \<Rightarrow> nat list ev"
  less_c :: "nat \<Rightarrow> nat \<Rightarrow> bool ev"
  update_c :: "expr \<Rightarrow> nat \<Rightarrow> nat Bindings list \<Rightarrow> nat Bindings list ev"

section \<open>Forcing\<close>

text \<open>\<^verbatim>\<open>forceValue\<close> on a cell, whose value is read afterwards.\<close>

definition force_at :: "calls \<Rightarrow> nat \<Rightarrow> nix_value ev" where
  "force_at C a = ev_then (force_c C a) (read_value a)"

text \<open>On a local variable: the value is forced where it is; here in a new cell.\<close>

definition force_ref :: "calls \<Rightarrow> value_ref \<Rightarrow> nix_value ev" where
  "force_ref C r = (case r of
     At a \<Rightarrow> force_at C a
   | Tmp v \<Rightarrow> if whnf v then ev_return v else ev_bind (alloc_value v) (force_at C))"

definition as_attrs :: "nix_value \<Rightarrow> nat Bindings ev" where
  "as_attrs v = (case v of VAttrs b \<Rightarrow> ev_return b | _ \<Rightarrow> ev_throw TypeError)"

definition as_list :: "nix_value \<Rightarrow> nat list ev" where
  "as_list v = (case v of VList xs \<Rightarrow> ev_return xs | _ \<Rightarrow> ev_throw TypeError)"

definition as_bool :: "nix_value \<Rightarrow> bool ev" where
  "as_bool v = (case v of VBool b \<Rightarrow> ev_return b | _ \<Rightarrow> ev_throw TypeError)"

definition as_int :: "nix_value \<Rightarrow> NixInt ev" where
  "as_int v = (case v of VInt n \<Rightarrow> ev_return n | _ \<Rightarrow> ev_throw TypeError)"

definition as_float :: "eval_cfg \<Rightarrow> nix_value \<Rightarrow> NixFloat ev" where
  "as_float cfg v = (case v of VInt n \<Rightarrow> ev_return (float_of_int cfg n) | VFloat x \<Rightarrow> ev_return x | _ \<Rightarrow> ev_throw TypeError)"

definition as_string :: "nix_value \<Rightarrow> (string \<times> string fset) ev" where
  "as_string v = (case v of VString s ctx \<Rightarrow> ev_return (s, ctx) | _ \<Rightarrow> ev_throw TypeError)"

text \<open>\<^verbatim>\<open>forceStringNoCtx\<close>: the string may not refer to a store path.\<close>

definition as_string_no_ctx :: "nix_value \<Rightarrow> string ev" where
  "as_string_no_ctx v = ev_bind (as_string v) (\<lambda>(s, ctx). if ctx \<noteq> {||} then ev_throw EvalError else ev_return s)"

definition as_function :: "nix_value \<Rightarrow> unit ev" where
  "as_function v = (if value_type v = nFunction then ev_return () else case v of
     VAttrs b \<Rightarrow> if get_attr b sym_functor \<noteq> None then ev_return () else ev_throw TypeError
   | _ \<Rightarrow> ev_throw TypeError)"

definition forceAttrs :: "calls \<Rightarrow> nat \<Rightarrow> nat Bindings ev" where
  "forceAttrs C a = ev_bind (force_at C a) as_attrs"

definition forceList :: "calls \<Rightarrow> nat \<Rightarrow> nat list ev" where
  "forceList C a = ev_bind (force_at C a) as_list"

definition forceInt :: "calls \<Rightarrow> nat \<Rightarrow> NixInt ev" where
  "forceInt C a = ev_bind (force_at C a) as_int"

definition forceFloat :: "eval_cfg \<Rightarrow> calls \<Rightarrow> nat \<Rightarrow> NixFloat ev" where
  "forceFloat cfg C a = ev_bind (force_at C a) (as_float cfg)"

definition forceFunction :: "calls \<Rightarrow> nat \<Rightarrow> unit ev" where
  "forceFunction C a = ev_bind (force_at C a) as_function"

definition forceString :: "calls \<Rightarrow> nat \<Rightarrow> (string \<times> string fset) ev" where
  "forceString C a = ev_bind (force_at C a) as_string"

definition forceStringNoCtx :: "calls \<Rightarrow> nat \<Rightarrow> string ev" where
  "forceStringNoCtx C a = ev_bind (force_at C a) as_string_no_ctx"

text \<open>\<^verbatim>\<open>forceBool\<close>, \<^verbatim>\<open>forceList\<close> and \<^verbatim>\<open>forceStringNoCtx\<close> on a value that a call returned.\<close>

definition force_tmp :: "calls \<Rightarrow> nix_value \<Rightarrow> (nix_value \<Rightarrow> 'a ev) \<Rightarrow> 'a ev" where
  "force_tmp C v k = ev_bind (force_ref C (Tmp v)) k"

text \<open>\<^verbatim>\<open>EvalState::getAttr\<close>\<close>

definition getAttr :: "Symbol \<Rightarrow> nat Bindings \<Rightarrow> nat ev" where
  "getAttr n b = (case get_attr b n of Some a \<Rightarrow> ev_return (attr_value a) | None \<Rightarrow> ev_throw TypeError)"

text \<open>\<^verbatim>\<open>EvalState::evalBool\<close> and \<^verbatim>\<open>evalAttrs\<close>\<close>

definition evalBool :: "calls \<Rightarrow> expr \<Rightarrow> nat \<Rightarrow> bool ev" where
  "evalBool C e env = ev_bind (eval_c C e env) as_bool"

definition evalAttrs :: "calls \<Rightarrow> expr \<Rightarrow> nat \<Rightarrow> nat Bindings ev" where
  "evalAttrs C e env = ev_bind (eval_c C e env) as_attrs"

section \<open>Variables\<close>

text \<open>Going up a number of environments.\<close>

fun env_ups :: "nat \<Rightarrow> nat \<Rightarrow> nat ev" where
  "env_ups 0 env = ev_return env"
| "env_ups (Suc l) env = ev_bind (read_up env) (env_ups l)"

text \<open>The loop of \<^verbatim>\<open>lookupVar\<close> over the enclosing \<^verbatim>\<open>with\<close> expressions.\<close>

primrec lookup_with :: "with_ref \<Rightarrow> calls \<Rightarrow> Symbol \<Rightarrow> nat \<Rightarrow> nat ev" where
  "lookup_with (WithRef prev parent) C name env =
     ev_bind (read_slot env 0) (\<lambda>a.
     ev_bind (forceAttrs C a) (\<lambda>b. case get_attr b name of
         Some j \<Rightarrow> ev_return (attr_value j)
       | None \<Rightarrow> (case map_option lookup_with parent of
             None \<Rightarrow> ev_throw (UndefinedVar name)
           | Some next_lookup \<Rightarrow> ev_bind (env_ups prev env) (next_lookup C name))))"

definition lookupVar :: "calls \<Rightarrow> nat \<Rightarrow> Symbol \<Rightarrow> with_ref option \<Rightarrow> Level \<Rightarrow> Displacement \<Rightarrow> nat ev" where
  "lookupVar C env name fromWith level displ =
     ev_bind (env_ups level env) (\<lambda>env'. case fromWith of
       None \<Rightarrow> read_slot env' displ
     | Some w \<Rightarrow> lookup_with w C name env')"

text \<open>With \<^verbatim>\<open>noEval\<close> nothing is forced, and there may be no value yet.\<close>

definition lookupVar_noEval :: "nat \<Rightarrow> with_ref option \<Rightarrow> Level \<Rightarrow> Displacement \<Rightarrow> nat option ev" where
  "lookupVar_noEval env fromWith level displ =
     ev_bind (env_ups level env) (\<lambda>env'. case fromWith of
       None \<Rightarrow> read_slot_or_null env' displ
     | Some w \<Rightarrow> ev_return None)"

section \<open>Delayed expressions\<close>

text \<open>
  \<^verbatim>\<open>maybeThunk\<close>: constants are their own cell (a new one here; the cell of a constant is never
  changed), variables are looked up, everything else becomes a thunk.
\<close>

definition maybeThunk :: "expr \<Rightarrow> nat \<Rightarrow> nat ev" where
  "maybeThunk e env = (case e of
     ExprInt n \<Rightarrow> alloc_value (VInt n)
   | ExprFloat x \<Rightarrow> alloc_value (VFloat x)
   | ExprString s \<Rightarrow> alloc_value (VString s {||})
   | ExprPath p \<Rightarrow> alloc_value (VPath p)
   | ExprList [] \<Rightarrow> alloc_value (VList [])
   | ExprVar name w l d \<Rightarrow> ev_bind (lookupVar_noEval env w l d) (\<lambda>v. case v of
         Some a \<Rightarrow> ev_return a | None \<Rightarrow> alloc_value (VThunk env e))
   | ExprInheritFrom d \<Rightarrow> ev_bind (lookupVar_noEval env None 0 d) (\<lambda>v. case v of
         Some a \<Rightarrow> ev_return a | None \<Rightarrow> alloc_value (VThunk env e))
   | _ \<Rightarrow> alloc_value (VThunk env e))"

text \<open>\<^verbatim>\<open>getName\<close>\<close>

definition getName :: "calls \<Rightarrow> attr_path_elem \<Rightarrow> nat \<Rightarrow> Symbol ev" where
  "getName C i env = (case i of
     NameSymbol n \<Rightarrow> ev_return n
   | NameExpr e \<Rightarrow> ev_bind (eval_c C e env) (\<lambda>v. force_tmp C v (\<lambda>v. ev_bind (as_string_no_ctx v) create_symbol)))"

end
