(* ===== verification/Nix_Scope.thy ===== *)
theory Nix_Scope
  imports Nix_Calls
begin

text \<open>
  What static binding achieves: in a bound expression every variable reads a slot that the
  environment it is evaluated in has.  The shape of an environment is the list of the numbers of
  slots of the environments on the way up.
\<close>

declare option.set_map [simp]

section \<open>Expressions as the parser builds them\<close>

text \<open>
  The invariants of the parser that binding and evaluation rely on: the names of a set are sorted and
  known symbols, the formals of a function are sorted, a function without formals has an argument, a
  \<^verbatim>\<open>let\<close> has no dynamic attributes, and an inherited attribute with a source selects a name from one
  of the sources; nothing else refers to them.
\<close>

definition inherits_from :: "expr list option \<Rightarrow> expr \<Rightarrow> bool" where
  "inherits_from froms e = (case e of
     ExprSelect (ExprInheritFrom d) None [NameSymbol n] \<Rightarrow> (case froms of Some es \<Rightarrow> d < length es | None \<Rightarrow> False)
   | _ \<Rightarrow> False)"

primrec parsed :: "nat \<Rightarrow> expr \<Rightarrow> bool" and parsed_elem :: "nat \<Rightarrow> attr_path_elem \<Rightarrow> bool" and parsed_node :: "nat \<Rightarrow> attrs_node \<Rightarrow> bool"
  and parsed_def :: "nat \<Rightarrow> attr_def \<Rightarrow> expr list option \<Rightarrow> bool" and parsed_lambda :: "nat \<Rightarrow> lambda_node \<Rightarrow> bool" and parsed_formals :: "nat \<Rightarrow> formals \<Rightarrow> bool"
where
  "parsed k (ExprInt n) = True"
| "parsed k (ExprFloat x) = True"
| "parsed k (ExprString s) = True"
| "parsed k (ExprPath s) = True"
| "parsed k (ExprVar name w l d) = True"
| "parsed k (ExprInheritFrom d) = False"
| "parsed k (ExprSelect e dflt path) \<longleftrightarrow> parsed k e \<and> (\<forall>b\<in>set_option (map_option (parsed k) dflt). b) \<and> (\<forall>b\<in>set (map (parsed_elem k) path). b)"
| "parsed k (ExprOpHasAttr e path) \<longleftrightarrow> parsed k e \<and> (\<forall>b\<in>set (map (parsed_elem k) path). b)"
| "parsed k (ExprAttrs n) = parsed_node k n"
| "parsed k (ExprList es) = (\<forall>b\<in>set (map (parsed k) es). b)"
| "parsed k (ExprLambda l) = parsed_lambda k l"
| "parsed k (ExprCall f es) \<longleftrightarrow> parsed k f \<and> (\<forall>b\<in>set (map (parsed k) es). b)"
| "parsed k (ExprLet n body) \<longleftrightarrow> parsed_node k n \<and> dynamicAttrs n = [] \<and> parsed k body"
| "parsed k (ExprWith prev parent scope body) \<longleftrightarrow> parsed k scope \<and> parsed k body"
| "parsed k (ExprIf c t f) \<longleftrightarrow> parsed k c \<and> parsed k t \<and> parsed k f"
| "parsed k (ExprAssert c b) \<longleftrightarrow> parsed k c \<and> parsed k b"
| "parsed k (ExprOpNot e) = parsed k e"
| "parsed k (ExprOp op a b) \<longleftrightarrow> parsed k a \<and> parsed k b"
| "parsed k (ExprConcatStrings f es) = (\<forall>b\<in>set (map (parsed k) es). b)"
| "parsed_elem k (NameSymbol n) = True"
| "parsed_elem k (NameExpr e) = parsed k e"
| "parsed_node k (AttrsNode recursive as froms dyn) \<longleftrightarrow>
     sorted_wrt (<) (map fst as) \<and> (\<forall>a\<in>set as. fst a < k) \<and>
     (\<forall>bs\<in>set_option (map_option (map (parsed k)) froms). \<forall>b\<in>set bs. b) \<and>
     (\<forall>p\<in>set (map (map_prod (\<lambda>n. n) (parsed_def k)) as). snd p froms) \<and>
     (\<forall>p\<in>set (map (map_prod (parsed k) (parsed k)) dyn). fst p \<and> snd p)"
| "parsed_def k (AttrDef kind e d) froms \<longleftrightarrow> (if kind = InheritedFrom then inherits_from froms e else parsed k e)"
| "parsed_lambda k (LambdaNode arg fs body) \<longleftrightarrow>
     (\<forall>b\<in>set_option (map_option (parsed_formals k) fs). b) \<and> (fs = None \<longrightarrow> arg \<noteq> None) \<and> parsed k body"
| "parsed_formals k (Formals fs ell) \<longleftrightarrow> sorted_wrt (<) (map fst fs) \<and> (\<forall>f\<in>set fs. fst f < k) \<and>
     (\<forall>p\<in>set (map (map_prod (\<lambda>n. n) (map_option (parsed k))) fs). \<forall>b\<in>set_option (snd p). b)"

section \<open>Expressions whose variables are in range\<close>

text \<open>A chain of \<^verbatim>\<open>with\<close> environments: each is there, has its slot, and knows the way to the next.\<close>

primrec with_ok :: "with_ref \<Rightarrow> nat list \<Rightarrow> bool" where
  "with_ok (WithRef prev parent) sh \<longleftrightarrow> sh \<noteq> [] \<and> 0 < hd sh \<and>
     (\<forall>f\<in>set_option (map_option with_ok parent). prev < length sh \<and> f (drop prev sh))"

primrec scoped :: "expr \<Rightarrow> nat \<Rightarrow> nat list \<Rightarrow> bool" and scoped_elem :: "attr_path_elem \<Rightarrow> nat \<Rightarrow> nat list \<Rightarrow> bool"
  and scoped_node :: "attrs_node \<Rightarrow> nat \<Rightarrow> nat list \<Rightarrow> nat list \<Rightarrow> bool"
  and scoped_def :: "attr_def \<Rightarrow> nat \<Rightarrow> nat list \<Rightarrow> nat list \<Rightarrow> nat list option \<Rightarrow> bool"
  and scoped_lambda :: "lambda_node \<Rightarrow> nat \<Rightarrow> nat list \<Rightarrow> bool" and scoped_formals :: "formals \<Rightarrow> nat \<Rightarrow> nat list \<Rightarrow> bool"
where
  "scoped (ExprInt n) k sh = True"
| "scoped (ExprFloat x) k sh = True"
| "scoped (ExprString s) k sh = True"
| "scoped (ExprPath s) k sh = True"
| "scoped (ExprVar name w l d) k sh \<longleftrightarrow> l < length sh \<and> (case w of None \<Rightarrow> d < sh ! l | Some w \<Rightarrow> with_ok w (drop l sh))"
| "scoped (ExprInheritFrom d) k sh \<longleftrightarrow> sh \<noteq> [] \<and> d < hd sh"
| "scoped (ExprSelect e dflt path) k sh \<longleftrightarrow> scoped e k sh \<and> (\<forall>f\<in>set_option (map_option scoped dflt). f k sh) \<and> (\<forall>f\<in>set (map scoped_elem path). f k sh)"
| "scoped (ExprOpHasAttr e path) k sh \<longleftrightarrow> scoped e k sh \<and> (\<forall>f\<in>set (map scoped_elem path). f k sh)"
| "scoped (ExprAttrs n) k sh \<longleftrightarrow> scoped_node n k (if is_recursive n then length (static_attrs n) # sh else sh) sh \<and>
     (is_recursive n \<longrightarrow> map (\<lambda>a. def_displ (snd a)) (static_attrs n) = [0..<length (static_attrs n)])"
| "scoped (ExprList es) k sh = (\<forall>f\<in>set (map scoped es). f k sh)"
| "scoped (ExprLambda l) k sh = scoped_lambda l k sh"
| "scoped (ExprCall g es) k sh \<longleftrightarrow> scoped g k sh \<and> (\<forall>f\<in>set (map scoped es). f k sh)"
| "scoped (ExprLet n body) k sh \<longleftrightarrow> scoped_node n k (length (static_attrs n) # sh) sh \<and> scoped body k (length (static_attrs n) # sh)"
| "scoped (ExprWith prev parent scope body) k sh \<longleftrightarrow> scoped scope k sh \<and> scoped body k (1 # sh)"
| "scoped (ExprIf c t f) k sh \<longleftrightarrow> scoped c k sh \<and> scoped t k sh \<and> scoped f k sh"
| "scoped (ExprAssert c b) k sh \<longleftrightarrow> scoped c k sh \<and> scoped b k sh"
| "scoped (ExprOpNot e) k sh = scoped e k sh"
| "scoped (ExprOp op a b) k sh \<longleftrightarrow> scoped a k sh \<and> scoped b k sh"
| "scoped (ExprConcatStrings g es) k sh = (\<forall>f\<in>set (map scoped es). f k sh)"
| "scoped_elem (NameSymbol n) k sh = True"
| "scoped_elem (NameExpr e) k sh = scoped e k sh"
| "scoped_node (AttrsNode recursive as froms dyn) k newsh sh \<longleftrightarrow>
     sorted_wrt (<) (map fst as) \<and> (\<forall>a\<in>set as. fst a < k) \<and>
     (\<forall>fs\<in>set_option (map_option (map scoped) froms). \<forall>f\<in>set fs. f k newsh) \<and>
     (\<forall>p\<in>set (map (map_prod (\<lambda>n. n) scoped_def) as). snd p k newsh sh (map_option (\<lambda>es. length es # newsh) froms)) \<and>
     (\<forall>p\<in>set (map (map_prod scoped scoped) dyn). fst p k newsh \<and> snd p k newsh)"
| "scoped_def (AttrDef kind e d) k plain inherited inheritedFrom \<longleftrightarrow>
     (case chooseByKind kind (Some plain) (Some inherited) inheritedFrom of Some sh \<Rightarrow> scoped e k sh | None \<Rightarrow> False)"
| "scoped_lambda (LambdaNode arg fs body) k sh \<longleftrightarrow>
     (let newsh = ((if arg = None then 0 else 1) + (case fs of Some f \<Rightarrow> length (formal_list f) | None \<Rightarrow> 0)) # sh
      in (\<forall>f\<in>set_option (map_option scoped_formals fs). f k newsh) \<and> (fs = None \<longrightarrow> arg \<noteq> None) \<and> scoped body k newsh)"
| "scoped_formals (Formals fs ell) k sh \<longleftrightarrow> sorted_wrt (<) (map fst fs) \<and> (\<forall>f\<in>set fs. fst f < k) \<and>
     (\<forall>p\<in>set (map (map_prod (\<lambda>n. n) (map_option scoped)) fs). \<forall>f\<in>set_option (snd p). f k sh)"

section \<open>Static environments and shapes\<close>

text \<open>
  A static environment describes environments of a shape: its names have slots, and a frame of a
  \<^verbatim>\<open>with\<close> knows the enclosing ones.
\<close>

fun describes :: "static_env \<Rightarrow> nat list \<Rightarrow> bool" where
  "describes [] [] \<longleftrightarrow> True"
| "describes (f # env) (n # sh) \<longleftrightarrow> (\<forall>v\<in>set (vars f). snd v < n) \<and>
     (\<forall>w\<in>set_option (isWith f). 0 < n \<and> w = WithRef (enclosing_with env 1) (nearest_with env)) \<and> describes env sh"
| "describes _ _ \<longleftrightarrow> False"

lemma describes_length: "describes env sh \<Longrightarrow> length env = length sh"
  by (induction env sh rule: describes.induct) auto

lemma nearest_with_ok:
  "describes env sh \<Longrightarrow> nearest_with env = Some w \<Longrightarrow> \<exists>i<length sh. enclosing_with env l = l + i \<and> with_ok w (drop i sh)"
proof (induction env sh arbitrary: l w rule: describes.induct)
  case (2 f env n sh)
  show ?case
  proof (cases "isWith f")
    case None
    then have "describes env sh" "nearest_with env = Some w" using 2(2,3) by auto
    then obtain i where "i < length sh" "enclosing_with env (l + 1) = l + 1 + i" "with_ok w (drop i sh)"
      using 2(1) [of w "l + 1"] by blast
    with None show ?thesis by (intro exI [of _ "Suc i"]) simp
  next
    case (Some w')
    then have w: "w = WithRef (enclosing_with env 1) (nearest_with env)" "0 < n" "describes env sh" using 2(2,3) by auto
    have "with_ok w (n # sh)"
    proof (cases "nearest_with env")
      case (Some p)
      then obtain i where "i < length sh" "enclosing_with env 1 = 1 + i" "with_ok p (drop i sh)"
        using 2(1) [OF w(3), of p 1] by blast
      then show ?thesis using w Some by simp
    qed (use w in simp)
    then show ?thesis using Some by (intro exI [of _ 0]) simp
  qed
qed simp_all

lemma static_find_in: "static_find name vs = Some d \<Longrightarrow> (name, d) \<in> set vs"
proof -
  assume find: "static_find name vs = Some d"
  let ?rest = "dropWhile (\<lambda>v. pair_less v (name, 0)) vs"
  obtain v rest where "?rest = v # rest" "v = (name, d)"
    using find by (auto simp: static_find_def split: list.splits if_splits)
  then show ?thesis using set_dropWhileD [of v "\<lambda>v. pair_less v (name, 0)" vs] by simp
qed

lemma find_var_in_range:
  "describes env sh \<Longrightarrow> find_var name env l wl = (Some (l', d), wl') \<Longrightarrow> l \<le> l' \<and> l' - l < length sh \<and> d < sh ! (l' - l)"
proof (induction env sh arbitrary: l wl rule: describes.induct)
  case (2 f env n sh)
  have rest: "l \<le> l' \<and> l' - l < length (n # sh) \<and> d < (n # sh) ! (l' - l)"
    if "find_var name env (l + 1) wl2 = (Some (l', d), wl')" for wl2
    using 2(1) [OF _ that] 2(2) by (auto simp: nth_Cons' Suc_diff_le less_Suc_eq_le split: nat.splits)
  show ?case
  proof (cases "isWith f = None \<and> static_find name (vars f) \<noteq> None")
    case True
    then obtain d' where "static_find name (vars f) = Some d'" by auto
    then show ?thesis using True 2(2,3) static_find_in by fastforce
  next
    case False
    then show ?thesis using 2(3) rest by (auto split: option.splits if_splits)
  qed
qed simp_all

lemma find_var_with:
  "find_var name env l wl = (None, wl') \<Longrightarrow>
   wl' = (if wl \<noteq> None then wl else if nearest_with env = None then None else Some (enclosing_with env l))"
proof (induction env arbitrary: l wl)
  case (Cons f env)
  show ?case
  proof (cases "isWith f")
    case None
    then have "find_var name env (l + 1) wl = (None, wl')" using Cons.prems by (auto split: option.splits)
    from Cons.IH [OF this] None show ?thesis by simp
  next
    case (Some w)
    then have "find_var name env (l + 1) (if wl = None then Some l else wl) = (None, wl')" using Cons.prems by simp
    from Cons.IH [OF this] Some show ?thesis by (simp split: if_splits)
  qed
qed simp

lemma ExprVar_scoped:
  assumes "describes env sh" "ExprVar_bindVars env name = Inr e"
  shows "scoped e k sh"
proof (cases "find_var name env 0 None")
  case (Pair r wl)
  show ?thesis
  proof (cases r)
    case None
    then have "wl = (if nearest_with env = None then None else Some (enclosing_with env 0))"
      using find_var_with [of name env 0 None wl] Pair by simp
    moreover obtain w where w: "nearest_with env = Some w"
      using assms(2) calculation Pair None by (auto simp: ExprVar_bindVars_def split: if_splits)
    moreover obtain i where "i < length sh" "enclosing_with env 0 = 0 + i" "with_ok w (drop i sh)"
      using nearest_with_ok [OF assms(1) w, of 0] by blast
    ultimately show ?thesis using assms(2) Pair None by (auto simp: ExprVar_bindVars_def)
  next
    case (Some ld)
    then obtain l d where "find_var name env 0 None = (Some (l, d), wl)" using Pair by (cases ld) auto
    then show ?thesis using find_var_in_range [OF assms(1), of name 0 None l d wl] assms(2)
      by (auto simp: ExprVar_bindVars_def)
  qed
qed

section \<open>Binding puts every variable in range\<close>

lemma seq_list_Inr: "seq_list ms = Inr xs \<longleftrightarrow> list_all2 (\<lambda>m x. m = Inr x) ms xs"
  by (induction ms arbitrary: xs) (auto simp: result_simps list_all2_Cons1)

lemma seq_option_Inr: "seq_option m = Inr x \<longleftrightarrow> rel_option (\<lambda>m x. m = Inr x) m x"
  by (cases m; cases x) (auto simp: result_simps)

lemma seq_pair_Inr: "seq_pair p = Inr q \<longleftrightarrow> fst p = Inr (fst q) \<and> snd p = Inr (snd q)"
  by (cases p; cases q) (auto simp: result_simps)

lemma list_all2_set2: "list_all2 P xs ys \<Longrightarrow> y \<in> set ys \<Longrightarrow> \<exists>x\<in>set xs. P x y"
  by (metis in_set_conv_nth list_all2_conv_all_nth)

lemma bound_list:
  assumes "seq_list (map f es) = Inr es'" "\<And>e e'. e \<in> set es \<Longrightarrow> f e = Inr e' \<Longrightarrow> P e'"
  shows "\<forall>e'\<in>set es'. P e'"
  using assms by (auto simp: seq_list_Inr list_all2_map1 dest!: list_all2_set2)

lemma bound_option:
  assumes "seq_option (map_option f x) = Inr x'" "\<And>e e'. e \<in> set_option x \<Longrightarrow> f e = Inr e' \<Longrightarrow> P e'"
  shows "\<forall>e'\<in>set_option x'. P e'"
  using assms by (cases x; cases x') (auto simp: result_simps)

lemma number_attrs_nth:
  "i < length as \<Longrightarrow> number_attrs as ! i = (fst (as ! i), AttrDef (def_kind (snd (as ! i))) (def_expr (snd (as ! i))) i)"
  by (simp add: number_attrs_def split_beta)

lemma number_attrs_simps [simp]:
  "length (number_attrs as) = length as" "map fst (number_attrs as) = map fst as"
  "map (\<lambda>a. def_displ (snd a)) (number_attrs as) = [0..<length as]"
proof -
  show "length (number_attrs as) = length as" by (simp add: number_attrs_def)
  then show "map fst (number_attrs as) = map fst as" "map (\<lambda>a. def_displ (snd a)) (number_attrs as) = [0..<length as]"
    by (auto intro!: nth_equalityI simp: number_attrs_nth)
qed

lemma number_attrs_in:
  "a \<in> set (number_attrs as) \<Longrightarrow> \<exists>b\<in>set as. \<exists>i. a = (fst b, AttrDef (def_kind (snd b)) (def_expr (snd b)) i)"
  by (auto simp: in_set_conv_nth [of a] number_attrs_nth intro!: bexI [OF _ nth_mem])

lemma describes_attrs_frame: "describes env sh \<Longrightarrow> describes (attrs_frame as # env) (length as # sh)"
  by (auto simp: attrs_frame_def in_set_conv_nth number_attrs_nth split_beta)

lemma describes_lambda_frame:
  "describes env sh \<Longrightarrow> describes (lambda_frame arg fs # env)
     (((if arg = None then 0 else 1) + (case fs of Some f \<Rightarrow> length (formal_list f) | None \<Rightarrow> 0)) # sh)"
proof -
  assume env: "describes env sh"
  have zip: "snd v < length names" if "v \<in> set (zip names [0..<length names])" for v and names :: "Symbol list"
    using set_zip_rightD [of "fst v" "snd v" names "[0..<length names]"] that by simp
  show ?thesis
  proof (cases fs)
    case None
    then show ?thesis using env by (cases arg) (auto simp: lambda_frame_def)
  next
    case (Some f)
    then show ?thesis using env zip [of _ "(case arg of Some a \<Rightarrow> [a] | None \<Rightarrow> []) @ map fst (formal_list f)"]
      by (cases arg) (auto simp: lambda_frame_def static_sort_def Let_def simp del: upt_Suc)
  qed
qed

lemma scoped_node_numbered:
  "scoped_node (AttrsNode r as froms dyn) k newsh sh \<Longrightarrow> scoped_node (AttrsNode r' (number_attrs as) froms dyn) k newsh sh"
proof -
  have "scoped_def (AttrDef (def_kind d) (def_expr d) i) k a b c \<longleftrightarrow> scoped_def d k a b c" for d i a b c
    by (cases d) simp
  then show "scoped_node (AttrsNode r as froms dyn) k newsh sh \<Longrightarrow> ?thesis"
    by (auto simp: map_prod_def split_beta dest!: number_attrs_in)
qed

lemma numbered_node:
  "scoped_node n k newsh sh \<Longrightarrow>
   scoped_node (AttrsNode r (number_attrs (static_attrs n)) (inheritFromExprs n) (dynamicAttrs n)) k newsh sh"
  using scoped_node_numbered by (cases n) (simp del: scoped_node.simps)

lemma inherits_from_scoped:
  assumes "inherits_from froms e" "bindVars e senv = Inr e'"
  shows "\<exists>es. froms = Some es \<and> scoped e' k (length es # sh)"
  using assms by (auto simp: inherits_from_def split: expr.splits option.splits list.splits attr_path_elem.splits)

lemma bound_pairs:
  assumes "seq_list (map (\<lambda>(n, m). result_bind m (\<lambda>d'. Inr (n, d'))) (map (map_prod (\<lambda>n. n) f) as)) = Inr as'"
  shows "list_all2 (\<lambda>a a'. fst a' = fst a \<and> f (snd a) = Inr (snd a')) as as'"
  using assms by (auto simp: seq_list_Inr list_all2_map1 result_simps split_beta elim!: list_all2_mono)

lemma bound_names: "list_all2 (\<lambda>a a'. fst a' = fst a \<and> Q a a') as as' \<Longrightarrow> map fst as' = map fst as"
  by (induction rule: list_all2_induct) auto

lemma in_names_iff:
  assumes "map fst (as' :: (Symbol \<times> 'a) list) = map fst (as :: (Symbol \<times> 'b) list)"
  shows "(\<forall>a\<in>set as'. fst a < k) \<longleftrightarrow> (\<forall>a\<in>set as. fst a < k)"
proof -
  have "(\<forall>n\<in>set (map fst as'). n < k) \<longleftrightarrow> (\<forall>n\<in>set (map fst as). n < k)" using assms by simp
  then show ?thesis by simp
qed

lemma bindVars_scoped:
  "parsed k e \<longrightarrow> describes env sh \<longrightarrow> bindVars e env = Inr e' \<longrightarrow> scoped e' k sh"
  and "parsed_elem k i \<longrightarrow> describes env sh \<longrightarrow> bindVars_elem i env = Inr i' \<longrightarrow> scoped_elem i' k sh"
  and "parsed_node k n \<longrightarrow> describes newEnv newsh \<longrightarrow> describes env sh \<longrightarrow> (b \<or> dynamicAttrs n = []) \<longrightarrow>
     bindVars_node n b newEnv env = Inr n' \<longrightarrow>
     scoped_node n' k newsh sh \<and> is_recursive n' = is_recursive n \<and> length (static_attrs n') = length (static_attrs n)"
  and "parsed_def k d froms \<longrightarrow> describes newEnv newsh \<longrightarrow> describes env sh \<longrightarrow>
     bindVars_def d newEnv env (inherit_env froms newEnv) = Inr d' \<longrightarrow> scoped_def d' k newsh sh (map_option (\<lambda>es. length es # newsh) froms)"
  and "parsed_lambda k l \<longrightarrow> describes env sh \<longrightarrow> bindVars_lambda l env = Inr l' \<longrightarrow> scoped_lambda l' k sh"
  and "parsed_formals k f \<longrightarrow> describes env sh \<longrightarrow> bindVars_formals f env = Inr f' \<longrightarrow>
     scoped_formals f' k sh \<and> length (formal_list f') = length (formal_list f)"
proof (induction e and i and n and d and l and f arbitrary: env sh e' and env sh i' and newEnv newsh env sh b n'
    and froms newEnv newsh env sh d' and env sh l' and env sh f')
  case (ExprVar name w l d)
  then show ?case using ExprVar_scoped by (auto simp del: scoped.simps)
next
  case (ExprSelect e dflt path)
  show ?case
  proof (intro impI)
    assume p: "parsed k (ExprSelect e dflt path)" and d: "describes env sh" and "bindVars (ExprSelect e dflt path) env = Inr e'"
    then obtain e1 d1 p1 where e': "e' = ExprSelect e1 d1 p1" and b1: "bindVars e env = Inr e1"
      and b2: "seq_option (map_option (\<lambda>x. bindVars x env) dflt) = Inr d1"
      and b3: "seq_list (map (\<lambda>x. bindVars_elem x env) path) = Inr p1" by (auto simp: result_simps)
    have "scoped e1 k sh" using ExprSelect(1) p d b1 by simp
    moreover have "\<forall>x\<in>set_option d1. scoped x k sh" by (rule bound_option [OF b2]) (use ExprSelect(2) p d in auto)
    moreover have "\<forall>x\<in>set p1. scoped_elem x k sh" by (rule bound_list [OF b3]) (use ExprSelect(3) p d in auto)
    ultimately show "scoped e' k sh" by (simp add: e')
  qed
next
  case (ExprOpHasAttr e path)
  show ?case
  proof (intro impI)
    assume p: "parsed k (ExprOpHasAttr e path)" and d: "describes env sh" and "bindVars (ExprOpHasAttr e path) env = Inr e'"
    then obtain e1 p1 where e': "e' = ExprOpHasAttr e1 p1" and b1: "bindVars e env = Inr e1"
      and b3: "seq_list (map (\<lambda>x. bindVars_elem x env) path) = Inr p1" by (auto simp: result_simps)
    have "scoped e1 k sh" using ExprOpHasAttr(1) p d b1 by simp
    moreover have "\<forall>x\<in>set p1. scoped_elem x k sh" by (rule bound_list [OF b3]) (use ExprOpHasAttr(2) p d in auto)
    ultimately show "scoped e' k sh" by (simp add: e')
  qed
next
  case (ExprAttrs n)
  show ?case
  proof (intro impI)
    let ?env = "if is_recursive n then attrs_frame (static_attrs n) # env else env"
    let ?sh = "if is_recursive n then length (static_attrs n) # sh else sh"
    assume p: "parsed k (ExprAttrs n)" and d: "describes env sh" and "bindVars (ExprAttrs n) env = Inr e'"
    then obtain n' where n': "bindVars_node n True ?env env = Inr n'"
      and e': "e' = ExprAttrs (if is_recursive n then
        AttrsNode True (number_attrs (static_attrs n')) (inheritFromExprs n') (dynamicAttrs n') else n')"
      by (auto simp: result_simps Let_def)
    have newd: "describes ?env ?sh" using d describes_attrs_frame [OF d] by simp
    have pn: "parsed_node k n" using p by simp
    have "scoped_node n' k ?sh sh \<and> is_recursive n' = is_recursive n \<and> length (static_attrs n') = length (static_attrs n)"
      using ExprAttrs [of ?env ?sh env sh True n'] pn newd d n' by blast
    then have node: "scoped_node n' k ?sh sh" "length (static_attrs n') = length (static_attrs n)" "is_recursive n' = is_recursive n"
      by auto
    show "scoped e' k sh"
    proof (cases "is_recursive n")
      case True
      then show ?thesis using node numbered_node [of n' k _ sh True]
        by (simp add: e' del: scoped_node.simps split del: if_split)
    next
      case False
      then show ?thesis using node by (simp add: e' del: scoped_node.simps)
    qed
  qed
next
  case (ExprList es)
  show ?case
  proof (intro impI)
    assume p: "parsed k (ExprList es)" and d: "describes env sh" and "bindVars (ExprList es) env = Inr e'"
    then obtain es1 where e': "e' = ExprList es1" and b: "seq_list (map (\<lambda>x. bindVars x env) es) = Inr es1"
      by (auto simp: result_simps)
    have "\<forall>x\<in>set es1. scoped x k sh" by (rule bound_list [OF b]) (use ExprList p d in auto)
    then show "scoped e' k sh" by (simp add: e')
  qed
next
  case (ExprCall g es)
  show ?case
  proof (intro impI)
    assume p: "parsed k (ExprCall g es)" and d: "describes env sh" and "bindVars (ExprCall g es) env = Inr e'"
    then obtain g1 es1 where e': "e' = ExprCall g1 es1" and g: "bindVars g env = Inr g1"
      and b: "seq_list (map (\<lambda>x. bindVars x env) es) = Inr es1" by (auto simp: result_simps)
    have "\<forall>x\<in>set es1. scoped x k sh" by (rule bound_list [OF b]) (use ExprCall(2) p d in auto)
    then show "scoped e' k sh" using ExprCall(1) p d g by (simp add: e')
  qed
next
  case (ExprLet n body)
  show ?case
  proof (intro impI)
    let ?env = "attrs_frame (static_attrs n) # env" and ?sh = "length (static_attrs n) # sh"
    assume p: "parsed k (ExprLet n body)" and d: "describes env sh" and "bindVars (ExprLet n body) env = Inr e'"
    then obtain n' body' where n': "bindVars_node n False ?env env = Inr n'" and body': "bindVars body ?env = Inr body'"
      and e': "e' = ExprLet (AttrsNode (is_recursive n') (number_attrs (static_attrs n')) (inheritFromExprs n') (dynamicAttrs n')) body'"
      by (auto simp: result_simps Let_def)
    have newd: "describes ?env ?sh" by (rule describes_attrs_frame [OF d])
    have pn: "parsed_node k n" "False \<or> dynamicAttrs n = []" using p by simp_all
    have "scoped_node n' k ?sh sh \<and> is_recursive n' = is_recursive n \<and> length (static_attrs n') = length (static_attrs n)"
      using ExprLet(1) [of ?env ?sh env sh False n'] pn newd d n' by blast
    moreover have "scoped body' k ?sh" using ExprLet(2) [of ?env ?sh body'] p newd body' by (simp del: describes.simps)
    ultimately show "scoped e' k sh" using numbered_node [of n' k ?sh sh "is_recursive n'"]
      by (simp add: e' del: scoped_node.simps)
  qed
next
  case (ExprWith pw pa scope body)
  show ?case
  proof (intro impI)
    let ?env = "\<lparr>isWith = Some (WithRef (enclosing_with env 1) (nearest_with env)), vars = []\<rparr> # env"
    assume p: "parsed k (ExprWith pw pa scope body)" and d: "describes env sh" and "bindVars (ExprWith pw pa scope body) env = Inr e'"
    then obtain scope' body' where "bindVars scope env = Inr scope'" "bindVars body ?env = Inr body'"
      and e': "e' = ExprWith (enclosing_with env 1) (nearest_with env) scope' body'" by (auto simp: result_simps Let_def)
    moreover have "describes ?env (1 # sh)" using d by simp
    ultimately show "scoped e' k sh" using ExprWith p d by (simp del: describes.simps)
  qed
next
  case (ExprConcatStrings force es)
  show ?case
  proof (intro impI)
    assume p: "parsed k (ExprConcatStrings force es)" and d: "describes env sh" and "bindVars (ExprConcatStrings force es) env = Inr e'"
    then obtain es1 where e': "e' = ExprConcatStrings force es1" and b: "seq_list (map (\<lambda>x. bindVars x env) es) = Inr es1"
      by (auto simp: result_simps)
    have "\<forall>x\<in>set es1. scoped x k sh" by (rule bound_list [OF b]) (use ExprConcatStrings p d in auto)
    then show "scoped e' k sh" by (simp add: e')
  qed
next
  case (AttrsNode recursive as froms dyn)
  show ?case
  proof (intro impI)
    assume p: "parsed_node k (AttrsNode recursive as froms dyn)" and d: "describes newEnv newsh" "describes env sh"
      and dynb: "b \<or> dynamicAttrs (AttrsNode recursive as froms dyn) = []"
      and "bindVars_node (AttrsNode recursive as froms dyn) b newEnv env = Inr n'"
    then obtain froms' as' dyn' where n': "n' = AttrsNode recursive as' froms' dyn'"
      and b1: "seq_option (map_option seq_list (map_option (map (\<lambda>x. bindVars x newEnv)) froms)) = Inr froms'"
      and b2: "seq_list (map (\<lambda>(n, m). result_bind m (\<lambda>d'. Inr (n, d')))
         (map (map_prod (\<lambda>n. n) (\<lambda>d. bindVars_def d newEnv env (inherit_env froms newEnv))) as)) = Inr as'"
      and b3: "(if b then seq_list (map seq_pair (map (map_prod (\<lambda>x. bindVars x newEnv) (\<lambda>x. bindVars x newEnv)) dyn))
         else Inr dyn) = Inr dyn'" by (auto simp: result_simps)
    have all: "list_all2 (\<lambda>a a'. fst a' = fst a \<and> bindVars_def (snd a) newEnv env (inherit_env froms newEnv) = Inr (snd a')) as as'"
      by (rule bound_pairs [OF b2])
    have names: "map fst as' = map fst as" by (rule bound_names [OF all])
    have "\<forall>fs\<in>set_option froms'. \<forall>x\<in>set fs. scoped x k newsh"
    proof (cases froms)
      case (Some es)
      then obtain es' where es': "froms' = Some es'" "seq_list (map (\<lambda>x. bindVars x newEnv) es) = Inr es'"
        using b1 by (auto simp: result_simps)
      have "\<forall>x\<in>set es'. scoped x k newsh" by (rule bound_list [OF es'(2)]) (use AttrsNode(2) p d Some in auto)
      then show ?thesis using es' by simp
    qed (use b1 in \<open>auto simp: result_simps\<close>)
    moreover have froms: "map_option (\<lambda>es. length es # newsh) froms' = map_option (\<lambda>es. length es # newsh) froms"
      using b1 by (cases froms) (auto simp: result_simps seq_list_Inr dest: list_all2_lengthD)
    moreover have "\<forall>a\<in>set as'. scoped_def (snd a) k newsh sh (map_option (\<lambda>es. length es # newsh) froms)"
    proof
      fix a'
      assume "a' \<in> set as'"
      then obtain a where a: "a \<in> set as" "bindVars_def (snd a) newEnv env (inherit_env froms newEnv) = Inr (snd a')"
        using list_all2_set2 [OF all] by blast
      have "snd a \<in> Basic_BNFs.snds a" by (cases a) simp
      moreover have "parsed_def k (snd a) froms" using p a(1) by auto
      ultimately show "scoped_def (snd a') k newsh sh (map_option (\<lambda>es. length es # newsh) froms)"
        using AttrsNode(1) [of a "snd a" froms newEnv newsh env sh "snd a'"] a d by blast
    qed
    moreover have "\<forall>q\<in>set dyn'. scoped (fst q) k newsh \<and> scoped (snd q) k newsh"
    proof (cases b)
      case True
      then have "seq_list (map (\<lambda>q. seq_pair (bindVars (fst q) newEnv, bindVars (snd q) newEnv)) dyn) = Inr dyn'"
        using b3 by (simp add: comp_def map_prod_def split_beta)
      then show ?thesis
      proof (rule bound_list)
        fix q q'
        assume q: "q \<in> set dyn" and "seq_pair (bindVars (fst q) newEnv, bindVars (snd q) newEnv) = Inr q'"
        then have "bindVars (fst q) newEnv = Inr (fst q')" "bindVars (snd q) newEnv = Inr (snd q')"
          unfolding seq_pair_Inr by simp_all
        moreover have "parsed k (fst q)" "parsed k (snd q)" using p q by auto
        moreover have "fst q \<in> Basic_BNFs.fsts q" "snd q \<in> Basic_BNFs.snds q" by (cases q, simp)+
        ultimately show "scoped (fst q') k newsh \<and> scoped (snd q') k newsh"
          using AttrsNode(3) [OF q, of "fst q" newEnv newsh "fst q'"] AttrsNode(4) [OF q, of "snd q" newEnv newsh "snd q'"] d by blast
      qed
    qed (use b3 dynb in simp)
    moreover have "\<forall>a\<in>set as'. fst a < k"
      using p names by (simp add: in_names_iff [OF names])
    ultimately show "scoped_node n' k newsh sh \<and> is_recursive n' = is_recursive (AttrsNode recursive as froms dyn) \<and>
        length (static_attrs n') = length (static_attrs (AttrsNode recursive as froms dyn))"
      using p names list_all2_lengthD [OF all] by (simp add: n')
  qed
next
  case (AttrDef kind e displ)
  show ?case
  proof (intro impI)
    assume p: "parsed_def k (AttrDef kind e displ) froms" and d: "describes newEnv newsh" "describes env sh"
      and "bindVars_def (AttrDef kind e displ) newEnv env (inherit_env froms newEnv) = Inr d'"
    then obtain e1 where e1: "bindVars e (chooseByKind kind newEnv env (inherit_env froms newEnv)) = Inr e1" "d' = AttrDef kind e1 displ"
      by (auto simp: result_simps)
    show "scoped_def d' k newsh sh (map_option (\<lambda>es. length es # newsh) froms)"
    proof (cases "kind = InheritedFrom")
      case True
      then obtain es where "froms = Some es" "scoped e1 k (length es # newsh)"
        using inherits_from_scoped [of froms e _ e1 k newsh] e1(1) p by (auto simp: chooseByKind_def)
      then show ?thesis using True by (simp add: e1(2) chooseByKind_def)
    next
      case False
      then show ?thesis using e1 p d AttrDef [of newEnv newsh e1] AttrDef [of env sh e1]
        by (cases kind) (simp_all add: chooseByKind_def)
    qed
  qed
next
  case (LambdaNode arg fs body)
  show ?case
  proof (intro impI)
    let ?n = "(if arg = None then 0 else 1) + (case fs of Some f \<Rightarrow> length (formal_list f) | None \<Rightarrow> 0)"
    let ?env = "lambda_frame arg fs # env"
    assume p: "parsed_lambda k (LambdaNode arg fs body)" and d: "describes env sh"
      and "bindVars_lambda (LambdaNode arg fs body) env = Inr l'"
    then obtain fs' body' where l': "l' = LambdaNode arg fs' body'" and body': "bindVars body ?env = Inr body'"
      and b: "seq_option (map_option (\<lambda>f. bindVars_formals f ?env) fs) = Inr fs'" by (auto simp: result_simps Let_def)
    have newd: "describes ?env (?n # sh)" by (rule describes_lambda_frame [OF d])
    have fs': "\<forall>f'\<in>set_option fs'. \<exists>f\<in>set_option fs. scoped_formals f' k (?n # sh) \<and> length (formal_list f') = length (formal_list f)"
      by (rule bound_option [OF b]) (use LambdaNode(1) p newd in \<open>force simp del: describes.simps\<close>)
    moreover have none: "fs' = None \<longleftrightarrow> fs = None" using b by (cases fs) (auto simp: result_simps)
    ultimately have "(case fs' of Some f \<Rightarrow> length (formal_list f) | None \<Rightarrow> 0) = (case fs of Some f \<Rightarrow> length (formal_list f) | None \<Rightarrow> (0 :: nat))"
      by (cases fs; cases fs') auto
    moreover have "scoped body' k (?n # sh)" using LambdaNode(2) p newd body' by (simp del: describes.simps)
    ultimately show "scoped_lambda l' k sh" using fs' none p by (auto simp: l' Let_def)
  qed
next
  case (Formals fs ell)
  show ?case
  proof (intro impI)
    assume p: "parsed_formals k (Formals fs ell)" and d: "describes env sh" and "bindVars_formals (Formals fs ell) env = Inr f'"
    then obtain fs' where f': "f' = Formals fs' ell"
      and b: "seq_list (map (\<lambda>f. result_bind (seq_option (map_option (\<lambda>x. bindVars x env) (snd f))) (\<lambda>x. Inr (fst f, x))) fs) = Inr fs'"
      by (auto simp: result_simps comp_def map_prod_def split_beta)
    then have all: "list_all2 (\<lambda>f f'. fst f' = fst f \<and> seq_option (map_option (\<lambda>x. bindVars x env) (snd f)) = Inr (snd f')) fs fs'"
      by (auto simp: seq_list_Inr list_all2_map1 result_simps elim!: list_all2_mono)
    have names: "map fst fs' = map fst fs" by (rule bound_names [OF all])
    have "\<forall>q\<in>set fs'. \<forall>x\<in>set_option (snd q). scoped x k sh"
    proof
      fix q
      assume "q \<in> set fs'"
      then obtain f where f: "f \<in> set fs" "seq_option (map_option (\<lambda>x. bindVars x env) (snd f)) = Inr (snd q)"
        using list_all2_set2 [OF all] by blast
      show "\<forall>x\<in>set_option (snd q). scoped x k sh"
        by (rule bound_option [OF f(2)]) (use Formals [of f "snd f"] p d f(1) in \<open>cases f; fastforce\<close>)
    qed
    moreover have "\<forall>q\<in>set fs'. fst q < k"
      using p names by (simp add: in_names_iff [OF names])
    ultimately show "scoped_formals f' k sh \<and> length (formal_list f') = length (formal_list (Formals fs ell))"
      using p names list_all2_lengthD [OF all] by (auto simp: f' map_prod_def option.set_map)
  qed
qed (auto simp: result_simps)

section \<open>Resolution by name\<close>

text \<open>
  The reference: a name means the innermost lexical binding of it, however many \<^verbatim>\<open>with\<close> expressions
  are in between; only a name that has none is looked for in the \<^verbatim>\<open>with\<close> sets, from the innermost on.
\<close>

fun innermost_binding :: "Symbol \<Rightarrow> static_env \<Rightarrow> (nat \<times> Displacement) option" where
  "innermost_binding name [] = None"
| "innermost_binding name (f # senv) =
     (case (if isWith f = None then map_of (vars f) name else None) of
        Some d \<Rightarrow> Some (0, d)
      | None \<Rightarrow> map_option (\<lambda>(i, d). (i + 1, d)) (innermost_binding name senv))"

fun with_phase :: "calls \<Rightarrow> static_env \<Rightarrow> nat \<Rightarrow> Symbol \<Rightarrow> nat ev" where
  "with_phase C [] env name = ev_throw (UndefinedVar name)"
| "with_phase C (f # senv) env name =
     (if isWith f = None then ev_bind (read_up env) (\<lambda>up. with_phase C senv up name)
      else ev_bind (read_slot env 0) (\<lambda>a. ev_bind (forceAttrs C a) (\<lambda>b. case get_attr b name of
          Some j \<Rightarrow> ev_return (attr_value j)
        | None \<Rightarrow> if nearest_with senv = None then ev_throw (UndefinedVar name)
                  else ev_bind (read_up env) (\<lambda>up. with_phase C senv up name))))"

definition name_lookup :: "calls \<Rightarrow> static_env \<Rightarrow> nat \<Rightarrow> Symbol \<Rightarrow> nat ev" where
  "name_lookup C senv env name = (case innermost_binding name senv of
     Some (i, d) \<Rightarrow> ev_bind (env_ups i env) (\<lambda>e. read_slot e d)
   | None \<Rightarrow> with_phase C senv env name)"

text \<open>Static environments as binding builds them: sorted frames, and \<^verbatim>\<open>with\<close> frames that know the enclosing ones.\<close>

fun linked :: "static_env \<Rightarrow> bool" where
  "linked [] \<longleftrightarrow> True"
| "linked (f # senv) \<longleftrightarrow> sorted_wrt (<) (map fst (vars f)) \<and>
     (\<forall>w\<in>set_option (isWith f). w = WithRef (enclosing_with senv 1) (nearest_with senv)) \<and> linked senv"

lemma ev_bind_return [simp]: "ev_bind (ev_return x) k = k x"
  by (simp add: ev_bind_def ev_return_def fun_eq_iff)

lemma ev_bind_throw [simp]: "ev_bind (ev_throw e) k = ev_throw e"
  by (simp add: ev_bind_def ev_throw_def fun_eq_iff)

lemma ev_bind_assoc: "ev_bind (ev_bind m f) g = ev_bind m (\<lambda>x. ev_bind (f x) g)"
  by (auto simp: ev_bind_def fun_eq_iff split: outcome.splits)

lemma static_find_map_of: "sorted_wrt (<) (map fst vs) \<Longrightarrow> static_find name vs = map_of vs name"
proof (induction vs)
  case (Cons v vs)
  show ?case
  proof (cases "fst v < name")
    case True
    then have "static_find name (v # vs) = static_find name vs" by (simp add: static_find_def pair_less_def)
    then show ?thesis using Cons True by (cases v) auto
  next
    case False
    then have "name \<noteq> fst v \<Longrightarrow> name \<notin> fst ` set vs" using Cons.prems by auto
    then have "map_of vs name = None" if "name \<noteq> fst v" using that by (simp add: map_of_eq_None_iff)
    then show ?thesis using False by (cases v) (auto simp: static_find_def pair_less_def)
  qed
qed (simp add: static_find_def)

lemma find_var_innermost:
  "linked senv \<Longrightarrow> fst (find_var name senv l wl) = map_option (\<lambda>(i, d). (l + i, d)) (innermost_binding name senv)"
  by (induction senv arbitrary: l wl) (auto simp: static_find_map_of option.map_comp comp_def case_prod_unfold split: option.splits)

lemma enclosing_with_add: "nearest_with senv \<noteq> None \<Longrightarrow> enclosing_with senv (Suc l) = Suc (enclosing_with senv l)"
  by (induction senv arbitrary: l) (auto split: option.splits)

lemma env_ups_Suc: "ev_bind (env_ups (Suc i) env) k = ev_bind (read_up env) (\<lambda>up. ev_bind (env_ups i up) k)"
  by (simp add: ev_bind_assoc)

lemma with_phase_lookup:
  "linked senv \<Longrightarrow> nearest_with senv = Some w \<Longrightarrow>
   ev_bind (env_ups (enclosing_with senv 0) env) (lookup_with w C name) = with_phase C senv env name"
proof (induction senv arbitrary: env w)
  case (Cons f senv)
  have up: "ev_bind (env_ups (enclosing_with senv (Suc 0)) env) (lookup_with p C name) =
      ev_bind (read_up env) (\<lambda>up. with_phase C senv up name)" if "nearest_with senv = Some p" for p
    using Cons that enclosing_with_add [of senv 0] by (simp add: env_ups_Suc del: env_ups.simps)
  show ?case
  proof (cases "isWith f")
    case None
    then show ?thesis using up Cons.prems by simp
  next
    case (Some w')
    then have w: "w = WithRef (enclosing_with senv (Suc 0)) (nearest_with senv)" using Cons.prems by simp
    show ?thesis
      using up Some by (cases "nearest_with senv") (simp_all add: w cong del: option.case_cong_weak)
  qed
qed simp

lemma resolution:
  assumes "linked senv"
  shows "case ExprVar_bindVars senv name of
     Inl e \<Rightarrow> e = UndefinedVarError name \<and> innermost_binding name senv = None \<and> nearest_with senv = None
   | Inr e \<Rightarrow> \<exists>w l d. e = ExprVar name w l d \<and> lookupVar C env name w l d = name_lookup C senv env name"
proof (cases "find_var name senv 0 None")
  case (Pair r wl)
  then have r: "r = innermost_binding name senv"
    using find_var_innermost [OF assms, of name 0 None] by (cases "innermost_binding name senv") auto
  show ?thesis
  proof (cases r)
    case (Some ld)
    then obtain l d where "find_var name senv 0 None = (Some (l, d), wl)" "innermost_binding name senv = Some (l, d)"
      using Pair r by (cases ld) simp
    then show ?thesis by (simp add: ExprVar_bindVars_def lookupVar_def name_lookup_def)
  next
    case None
    then have "wl = (if nearest_with senv = None then None else Some (enclosing_with senv 0))"
      using find_var_with [of name senv 0 None wl] Pair by simp
    then show ?thesis
    proof (cases "nearest_with senv")
      case None
      then show ?thesis using Pair \<open>r = None\<close> \<open>wl = _\<close> r by (simp add: ExprVar_bindVars_def)
    next
      case (Some w)
      then have "find_var name senv 0 None = (None, Some (enclosing_with senv 0))" "innermost_binding name senv = None"
        using Pair \<open>r = None\<close> \<open>wl = _\<close> r by simp_all
      then show ?thesis using Some with_phase_lookup [OF assms Some, of env C name]
        by (simp add: ExprVar_bindVars_def lookupVar_def name_lookup_def)
    qed
  qed
qed

text \<open>
  C13: A variable resolves lexically: binding fails, with an undefined variable, exactly when neither an
  enclosing scope binds the name nor an enclosing \<^verbatim>\<open>with\<close> is there; otherwise looking up the level and
  displacement (or the chain of \<^verbatim>\<open>with\<close> levels) that binding has recorded is the search by name, which
  takes the innermost binding even past nearer \<^verbatim>\<open>with\<close> expressions, and only without one asks the
  \<^verbatim>\<open>with\<close> sets from the inside out.
\<close>

theorem scope_resolution:
  assumes "linked senv"
  shows "case ExprVar_bindVars senv name of
     Inl e \<Rightarrow> e = UndefinedVarError name \<and> innermost_binding name senv = None \<and> nearest_with senv = None
   | Inr e \<Rightarrow> \<exists>w l d. e = ExprVar name w l d \<and> lookupVar C env name w l d = name_lookup C senv env name"
  using assms by (rule resolution)

definition sample_senv :: static_env where
  "sample_senv = [\<lparr>isWith = Some (WithRef 2 (Some (WithRef 0 None))), vars = []\<rparr>, \<lparr>isWith = None, vars = [(60, 0), (61, 1)]\<rparr>,
     \<lparr>isWith = Some (WithRef 0 None), vars = []\<rparr>, \<lparr>isWith = None, vars = [(60, 0)]\<rparr>]"

theorem scope_resolution_witness:
  "ExprVar_bindVars sample_senv 61 = Inr (ExprVar 61 None 1 1) \<and>
   (\<forall>C env. lookupVar C env 61 None 1 1 = ev_bind (env_ups 1 env) (\<lambda>e. read_slot e 1))"
proof -
  have "linked sample_senv" "innermost_binding 61 sample_senv = Some (1, 1)" by code_simp+
  moreover have "ExprVar_bindVars sample_senv 61 = Inr (ExprVar 61 None 1 1)" by code_simp
  ultimately show ?thesis using scope_resolution [of sample_senv 61] by (auto simp: name_lookup_def)
qed

end
