(* ===== verification/Nix_Primops.thy ===== *)
theory Nix_Primops
  imports Nix_Calls Archive
begin

text \<open>
  Builtin functions of the expression language: the functions \<^verbatim>\<open>prim_...\<close> of
  \<^verbatim>\<open>libexpr/primops.cc\<close> on types, errors, attribute sets, lists, numbers and strings.  Each takes the
  addresses of its arguments, as \<^verbatim>\<open>Value ** args\<close>.  A value that was forced is read when it is forced.
\<close>

section \<open>Types\<close>

definition type_string :: "ValueType \<Rightarrow> string option" where
  "type_string t = (case t of
     nInt \<Rightarrow> Some ''int'' | nBool \<Rightarrow> Some ''bool'' | nString \<Rightarrow> Some ''string'' | nPath \<Rightarrow> Some ''path''
   | nNull \<Rightarrow> Some ''null'' | nAttrs \<Rightarrow> Some ''set'' | nList \<Rightarrow> Some ''list'' | nFunction \<Rightarrow> Some ''lambda''
   | nFloat \<Rightarrow> Some ''float'' | nThunk \<Rightarrow> None | nFailed \<Rightarrow> None)"

definition prim_typeOf :: "calls \<Rightarrow> nat \<Rightarrow> nix_value ev" where
  "prim_typeOf C a = ev_bind (force_at C a) (\<lambda>v. ev_bind (non_null (type_string (value_type v))) (\<lambda>s. ev_return (VString s {||})))"

text \<open>\<^verbatim>\<open>isNull\<close>, \<^verbatim>\<open>isFunction\<close> and so on differ in the type they test.\<close>

definition prim_isType :: "ValueType \<Rightarrow> calls \<Rightarrow> nat \<Rightarrow> nix_value ev" where
  "prim_isType t C a = ev_bind (force_at C a) (\<lambda>v. ev_return (VBool (value_type v = t)))"

section \<open>Errors and strictness\<close>

definition prim_abort :: "calls \<Rightarrow> nat \<Rightarrow> nix_value ev" where
  "prim_abort C a = ev_bind (string_c C (At a) False True True) (\<lambda>(s, _). ev_throw (AbortError s))"

definition prim_throw :: "calls \<Rightarrow> nat \<Rightarrow> nix_value ev" where
  "prim_throw C a = ev_bind (string_c C (At a) False True True) (\<lambda>(s, _). ev_throw (ThrownError s))"

definition prim_addErrorContext :: "calls \<Rightarrow> nat \<Rightarrow> nat \<Rightarrow> nix_value ev" where
  "prim_addErrorContext C a b =
     ev_catch (force_at C b) (\<lambda>e. ev_bind (string_c C (At a) False False True) (\<lambda>_. ev_throw e))"

text \<open>
  The result set of \<^verbatim>\<open>tryEval\<close>.  The handler catches \<^verbatim>\<open>AssertionError\<close> of everything in the block, the
  creation of the symbol included, which does not throw.
\<close>

definition finish_attrs :: "nat Attr list \<Rightarrow> nix_value ev" where
  "finish_attrs as = ev_bind (non_null (finish (push_back_all as))) (\<lambda>b. ev_return (VAttrs b))"

definition sorted_attrs :: "nat Attr list \<Rightarrow> nix_value ev" where
  "sorted_attrs as = ev_bind (non_null (alreadySorted (push_back_all as))) (\<lambda>b. ev_return (VAttrs b))"

definition prim_tryEval :: "calls \<Rightarrow> nat \<Rightarrow> nix_value ev" where
  "prim_tryEval C a =
     ev_bind (ev_catch
       (ev_bind (force_at C a) (\<lambda>_.
        ev_bind (create_symbol ''success'') (\<lambda>n.
        ev_bind (alloc_value (VBool True)) (\<lambda>t. ev_return [mk_attr sym_value a, mk_attr n t]))))
       (\<lambda>e. if is_assertion_error e then
          ev_bind (alloc_value (VBool False)) (\<lambda>f.
          ev_bind (create_symbol ''success'') (\<lambda>n. ev_return [mk_attr sym_value f, mk_attr n f]))
        else ev_throw e))
     finish_attrs"

definition prim_seq :: "calls \<Rightarrow> nat \<Rightarrow> nat \<Rightarrow> nix_value ev" where
  "prim_seq C a b = ev_then (force_at C a) (force_at C b)"

definition prim_deepSeq :: "calls \<Rightarrow> nat \<Rightarrow> nat \<Rightarrow> nix_value ev" where
  "prim_deepSeq C a b = ev_then (deep_c C a []) (force_at C b)"

section \<open>Attribute sets\<close>

definition prim_getAttr :: "calls \<Rightarrow> nat \<Rightarrow> nat \<Rightarrow> nix_value ev" where
  "prim_getAttr C a b =
     ev_bind (forceStringNoCtx C a) (\<lambda>s. ev_bind (forceAttrs C b) (\<lambda>bs.
     ev_bind (create_symbol s) (\<lambda>n. ev_bind (getAttr n bs) (force_at C))))"

definition prim_hasAttr :: "calls \<Rightarrow> nat \<Rightarrow> nat \<Rightarrow> nix_value ev" where
  "prim_hasAttr C a b =
     ev_bind (forceStringNoCtx C a) (\<lambda>s. ev_bind (forceAttrs C b) (\<lambda>bs.
     ev_bind (create_symbol s) (\<lambda>n. ev_return (VBool (get_attr bs n \<noteq> None)))))"

text \<open>The attributes in the order of their names; \<^verbatim>\<open>std::sort\<close> on names that are all different.\<close>

definition named_entries :: "nat Bindings \<Rightarrow> (string \<times> nat) list ev" where
  "named_entries b =
     ev_bind (attr_entries b) (\<lambda>as.
     ev_bind (ev_map (\<lambda>a. ev_bind (symbol_name (attr_name a)) (\<lambda>n. ev_return (n, attr_value a))) as) (\<lambda>nas.
       ev_return (sort_key fst nas)))"

definition prim_attrNames :: "calls \<Rightarrow> nat \<Rightarrow> nix_value ev" where
  "prim_attrNames C a =
     ev_bind (forceAttrs C a) (\<lambda>b. ev_bind (named_entries b) (\<lambda>nas.
     ev_bind (ev_map (\<lambda>na. alloc_value (VString (fst na) {||})) nas) (\<lambda>xs. ev_return (VList xs))))"

definition prim_attrValues :: "calls \<Rightarrow> nat \<Rightarrow> nix_value ev" where
  "prim_attrValues C a =
     ev_bind (forceAttrs C a) (\<lambda>b. ev_bind (named_entries b) (\<lambda>nas. ev_return (VList (map snd nas))))"

text \<open>\<^verbatim>\<open>std::set_difference\<close> of the attributes, in the order of symbols, and the names.\<close>

definition prim_removeAttrs :: "calls \<Rightarrow> nat \<Rightarrow> nat \<Rightarrow> nix_value ev" where
  "prim_removeAttrs C a b =
     ev_bind (forceAttrs C a) (\<lambda>bs. ev_bind (forceList C b) (\<lambda>xs.
     ev_bind (ev_map (\<lambda>x. ev_bind (forceStringNoCtx C x) create_symbol) xs) (\<lambda>names.
     ev_bind (attr_entries bs) (\<lambda>as. sorted_attrs (filter (\<lambda>j. attr_name j \<notin> set names) as)))))"

text \<open>The first pair of each name, in a list that is sorted by the name (\<^verbatim>\<open>prev\<close> is the last name added).\<close>

fun first_of_name :: "Symbol option \<Rightarrow> (Symbol \<times> 'a) list \<Rightarrow> (Symbol \<times> 'a) list" where
  "first_of_name prev [] = []"
| "first_of_name prev ((n, x) # ps) = (if prev = Some n then first_of_name prev ps else (n, x) # first_of_name (Some n) ps)"

text \<open>\<^verbatim>\<open>v->attrs()\<close> on a cell that was forced before: reading anything else as a set is undefined.\<close>

definition cell_attrs :: "nat \<Rightarrow> nat Bindings ev" where
  "cell_attrs a = ev_bind (read_value a) (\<lambda>v. case v of VAttrs b \<Rightarrow> ev_return b | _ \<Rightarrow> ev_undefined)"

definition prim_listToAttrs :: "calls \<Rightarrow> nat \<Rightarrow> nix_value ev" where
  "prim_listToAttrs C a =
     ev_bind (forceList C a) (\<lambda>xs.
     ev_bind (ev_map (\<lambda>x. ev_bind (forceAttrs C x) (\<lambda>b. ev_bind (getAttr sym_name b) (\<lambda>j.
       ev_bind (forceStringNoCtx C j) (\<lambda>s. ev_bind (create_symbol s) (\<lambda>n. ev_return (n, x)))))) xs) (\<lambda>ps.
     ev_bind (ev_map (\<lambda>(n, x). ev_bind (cell_attrs x) (\<lambda>b.
       ev_bind (getAttr sym_value b) (\<lambda>j. ev_return (mk_attr n j)))) (first_of_name None (sort_key fst ps)))
     sorted_attrs))"


definition prim_intersectAttrs :: "calls \<Rightarrow> nat \<Rightarrow> nat \<Rightarrow> nix_value ev" where
  "prim_intersectAttrs C a b =
     ev_then (forceAttrs C a) (ev_then (forceAttrs C b)
       (ev_bind (cell_attrs a) (\<lambda>left. ev_bind (cell_attrs b) (\<lambda>right.
         if bindings_size left < bindings_size right then
           ev_bind (attr_entries left) (\<lambda>ls.
             sorted_attrs (concat (map (\<lambda>l. case get_attr right (attr_name l) of Some r \<Rightarrow> [r] | None \<Rightarrow> []) ls)))
         else
           ev_bind (attr_entries right) (\<lambda>rs.
             sorted_attrs (filter (\<lambda>r. get_attr left (attr_name r) \<noteq> None) rs))))))"

definition prim_catAttrs :: "calls \<Rightarrow> nat \<Rightarrow> nat \<Rightarrow> nix_value ev" where
  "prim_catAttrs C a b =
     ev_bind (forceStringNoCtx C a) (\<lambda>s. ev_bind (create_symbol s) (\<lambda>n. ev_bind (forceList C b) (\<lambda>xs.
     ev_bind (ev_map (\<lambda>x. ev_bind (forceAttrs C x) (\<lambda>b. ev_return (get_attr b n))) xs) (\<lambda>rs.
       ev_return (VList (concat (map (\<lambda>r. case r of Some j \<Rightarrow> [attr_value j] | None \<Rightarrow> []) rs)))))))"

definition prim_functionArgs :: "calls \<Rightarrow> nat \<Rightarrow> nix_value ev" where
  "prim_functionArgs C a =
     ev_bind (force_at C a) (\<lambda>v. case v of
       VPrimOp p \<Rightarrow> ev_return (VAttrs emptyBindings)
     | VPrimOpApp f x \<Rightarrow> ev_return (VAttrs emptyBindings)
     | VLambda env l \<Rightarrow> (case lambda_formals l of
           Some fs \<Rightarrow> ev_bind (ev_map (\<lambda>(n, d). ev_bind (alloc_value (VBool (d \<noteq> None))) (\<lambda>x. ev_return (mk_attr n x))) (formal_list fs))
             sorted_attrs
         | None \<Rightarrow> ev_return (VAttrs emptyBindings))
     | _ \<Rightarrow> ev_throw TypeError)"

definition prim_mapAttrs :: "calls \<Rightarrow> nat \<Rightarrow> nat \<Rightarrow> nix_value ev" where
  "prim_mapAttrs C f a =
     ev_bind (forceAttrs C a) (\<lambda>b. ev_bind (attr_entries b) (\<lambda>as.
     ev_bind (ev_map (\<lambda>i. ev_bind (symbol_name (attr_name i)) (\<lambda>n.
       ev_bind (alloc_value (VString n {||})) (\<lambda>vName.
       ev_bind (alloc_value (VApp f vName)) (\<lambda>vFun2.
       ev_bind (alloc_value (VApp vFun2 (attr_value i))) (\<lambda>x. ev_return (mk_attr (attr_name i) x)))))) as)
     sorted_attrs))"

section \<open>Lists\<close>

definition prim_elemAt :: "calls \<Rightarrow> nat \<Rightarrow> nat \<Rightarrow> nix_value ev" where
  "prim_elemAt C a b =
     ev_bind (forceInt C b) (\<lambda>n. ev_bind (forceList C a) (\<lambda>xs.
       if n <s 0 \<or> unat n \<ge> length xs then ev_throw EvalError else force_at C (xs ! unat n)))"

definition prim_head :: "calls \<Rightarrow> nat \<Rightarrow> nix_value ev" where
  "prim_head C a = ev_bind (forceList C a) (\<lambda>xs. if length xs = 0 then ev_throw EvalError else force_at C (xs ! 0))"

definition prim_tail :: "calls \<Rightarrow> nat \<Rightarrow> nix_value ev" where
  "prim_tail C a = ev_bind (forceList C a) (\<lambda>xs. if length xs = 0 then ev_throw EvalError
     else ev_return (VList (map (\<lambda>n. xs ! (n + 1)) [0..<length xs - 1])))"

definition prim_map :: "calls \<Rightarrow> nat \<Rightarrow> nat \<Rightarrow> nix_value ev" where
  "prim_map C f a =
     ev_bind (forceList C a) (\<lambda>xs. if length xs = 0 then ev_return (VList xs)
     else ev_then (forceFunction C f) (ev_bind (ev_map (\<lambda>x. alloc_value (VApp f x)) xs) (\<lambda>ys. ev_return (VList ys))))"

text \<open>A call of a predicate, whose result is forced to a Boolean.\<close>

definition call_bool :: "calls \<Rightarrow> nat \<Rightarrow> nat list \<Rightarrow> bool ev" where
  "call_bool C f xs = ev_bind (call_c C (At f) xs) (\<lambda>v. force_tmp C v as_bool)"

definition prim_filter :: "calls \<Rightarrow> nat \<Rightarrow> nat \<Rightarrow> nix_value ev" where
  "prim_filter C f a =
     ev_bind (forceList C a) (\<lambda>xs. if length xs = 0 then ev_return (VList xs)
     else ev_then (forceFunction C f)
       (ev_bind (ev_map (\<lambda>x. ev_bind (call_bool C f [x]) (\<lambda>r. ev_return (x, r))) xs) (\<lambda>rs.
         if list_all snd rs then ev_return (VList xs) else ev_return (VList (map fst (filter snd rs))))))"

definition prim_elem :: "calls \<Rightarrow> nat \<Rightarrow> nat \<Rightarrow> nix_value ev" where
  "prim_elem C a b =
     ev_bind (forceList C b) (\<lambda>xs.
     ev_bind (ev_find (\<lambda>x. ev_bind (eq_c C (At a) (At x)) (\<lambda>r. ev_return (if r then Some () else None))) xs) (\<lambda>r.
       ev_return (VBool (r \<noteq> None))))"

text \<open>\<^verbatim>\<open>EvalState::concatLists\<close> for lists that are given by references.\<close>

definition concatLists :: "calls \<Rightarrow> value_ref list \<Rightarrow> nix_value ev" where
  "concatLists C rs =
     ev_bind (ev_map (\<lambda>r. ev_bind (force_ref C r) as_list) rs) (\<lambda>lists.
       let len = sum_list (map length lists);
           nonEmpty = filter (\<lambda>l. l \<noteq> []) lists
       in if nonEmpty \<noteq> [] \<and> len = length (last nonEmpty) then ev_return (VList (last nonEmpty))
          else ev_return (VList (concat lists)))"

definition prim_concatLists :: "calls \<Rightarrow> nat \<Rightarrow> nix_value ev" where
  "prim_concatLists C a = ev_bind (forceList C a) (\<lambda>xs. concatLists C (map At xs))"

definition prim_length :: "calls \<Rightarrow> nat \<Rightarrow> nix_value ev" where
  "prim_length C a = ev_bind (forceList C a) (\<lambda>xs. ev_return (VInt (of_nat (length xs))))"

fun foldl_loop :: "calls \<Rightarrow> nat \<Rightarrow> nat \<Rightarrow> nat list \<Rightarrow> nix_value ev" where
  "foldl_loop C f cur [] = read_value cur"
| "foldl_loop C f cur [x] = call_c C (At f) [cur, x]"
| "foldl_loop C f cur (x # xs) = ev_bind (call_c C (At f) [cur, x]) (\<lambda>v. ev_bind (alloc_value v) (\<lambda>c. foldl_loop C f c xs))"

definition prim_foldlStrict :: "calls \<Rightarrow> nat \<Rightarrow> nat \<Rightarrow> nat \<Rightarrow> nix_value ev" where
  "prim_foldlStrict C f nul a =
     ev_then (forceFunction C f) (ev_bind (forceList C a) (\<lambda>xs.
       if length xs \<noteq> 0 then ev_bind (foldl_loop C f nul xs) (\<lambda>v. force_ref C (Tmp v))
       else force_at C nul))"

definition anyOrAll :: "bool \<Rightarrow> calls \<Rightarrow> nat \<Rightarrow> nat \<Rightarrow> nix_value ev" where
  "anyOrAll any_op C f a =
     ev_then (forceFunction C f) (ev_bind (forceList C a) (\<lambda>xs.
     ev_bind (ev_find (\<lambda>x. ev_bind (call_bool C f [x]) (\<lambda>r. ev_return (if r = any_op then Some () else None))) xs) (\<lambda>r.
       ev_return (VBool (if r \<noteq> None then any_op else \<not> any_op)))))"

definition prim_genList :: "calls \<Rightarrow> nat \<Rightarrow> nat \<Rightarrow> nix_value ev" where
  "prim_genList C f a =
     ev_bind (forceInt C a) (\<lambda>len. if len <s 0 then ev_throw EvalError
     else ev_then (forceFunction C f)
       (ev_bind (ev_map (\<lambda>n. ev_bind (alloc_value (VInt (of_nat n))) (\<lambda>arg. alloc_value (VApp f arg))) [0..<unat len]) (\<lambda>xs.
         ev_return (VList xs))))"

definition prim_partition :: "calls \<Rightarrow> nat \<Rightarrow> nat \<Rightarrow> nix_value ev" where
  "prim_partition C f a =
     ev_then (forceFunction C f) (ev_bind (forceList C a) (\<lambda>xs.
     ev_bind (ev_map (\<lambda>x. ev_then (force_c C x) (ev_bind (call_bool C f [x]) (\<lambda>r. ev_return (x, r)))) xs) (\<lambda>rs.
     ev_bind (alloc_value (VList (map fst (filter snd rs)))) (\<lambda>right.
     ev_bind (alloc_value (VList (map fst (filter (\<lambda>p. \<not> snd p) rs)))) (\<lambda>wrong.
       finish_attrs [mk_attr sym_right right, mk_attr sym_wrong wrong])))))"

text \<open>The map from symbols to the values of each group, in the order of symbols.\<close>

fun group_insert :: "Symbol \<Rightarrow> nat \<Rightarrow> (Symbol \<times> nat list) list \<Rightarrow> (Symbol \<times> nat list) list" where
  "group_insert n x [] = [(n, [x])]"
| "group_insert n x ((m, ys) # gs) =
     (if n = m then (m, ys @ [x]) # gs else if n < m then (n, [x]) # (m, ys) # gs else (m, ys) # group_insert n x gs)"

definition prim_groupBy :: "calls \<Rightarrow> nat \<Rightarrow> nat \<Rightarrow> nix_value ev" where
  "prim_groupBy C f a =
     ev_then (forceFunction C f) (ev_bind (forceList C a) (\<lambda>xs.
     ev_bind (ev_fold (\<lambda>x gs. ev_bind (call_c C (At f) [x]) (\<lambda>v. force_tmp C v (\<lambda>v.
       ev_bind (as_string_no_ctx v) (\<lambda>s. ev_bind (create_symbol s) (\<lambda>n. ev_return (group_insert n x gs)))))) xs []) (\<lambda>gs.
     ev_bind (ev_map (\<lambda>(n, ys). ev_bind (alloc_value (VList ys)) (\<lambda>y. ev_return (mk_attr n y))) gs) sorted_attrs)))"

definition prim_concatMap :: "calls \<Rightarrow> nat \<Rightarrow> nat \<Rightarrow> nix_value ev" where
  "prim_concatMap C f a =
     ev_then (forceFunction C f) (ev_bind (forceList C a) (\<lambda>xs.
     ev_bind (ev_map (\<lambda>x. ev_bind (call_c C (At f) [x]) (\<lambda>v. force_tmp C v as_list)) xs) (\<lambda>lists.
       ev_return (VList (concat lists)))))"

section \<open>Numbers\<close>

text \<open>
  \<^verbatim>\<open>prim_add\<close>, \<^verbatim>\<open>prim_sub\<close> and \<^verbatim>\<open>prim_mul\<close>, which differ in the operation: on floating-point numbers if
  one operand is, and checked on integers.
\<close>

definition checked_int :: "eval_error \<Rightarrow> checked_result \<Rightarrow> nix_value ev" where
  "checked_int e r = (case valueChecked r of Some n \<Rightarrow> ev_return (VInt n) | None \<Rightarrow> ev_throw e)"

definition prim_arith :: "(NixFloat \<Rightarrow> NixFloat \<Rightarrow> NixFloat) \<Rightarrow> (NixInt \<Rightarrow> NixInt \<Rightarrow> checked_result) \<Rightarrow>
    eval_cfg \<Rightarrow> calls \<Rightarrow> nat \<Rightarrow> nat \<Rightarrow> nix_value ev" where
  "prim_arith fop iop cfg C a b =
     ev_then (force_c C a) (ev_then (force_c C b)
       (ev_bind (read_value a) (\<lambda>v1. ev_bind (read_value b) (\<lambda>v2.
         if value_type v1 = nFloat \<or> value_type v2 = nFloat then
           ev_bind (forceFloat cfg C a) (\<lambda>x. ev_bind (forceFloat cfg C b) (\<lambda>y. ev_return (VFloat (fop x y))))
         else ev_bind (forceInt C a) (\<lambda>i. ev_bind (forceInt C b) (\<lambda>j. checked_int IntegerOverflow (iop i j)))))))"

definition prim_div :: "eval_cfg \<Rightarrow> calls \<Rightarrow> nat \<Rightarrow> nat \<Rightarrow> nix_value ev" where
  "prim_div cfg C a b =
     ev_then (force_c C a) (ev_then (force_c C b)
       (ev_bind (forceFloat cfg C b) (\<lambda>f2.
         if float_eq cfg f2 (float_of_int cfg 0) then ev_throw DivisionByZero
         else ev_bind (read_value a) (\<lambda>v1. ev_bind (read_value b) (\<lambda>v2.
           if value_type v1 = nFloat \<or> value_type v2 = nFloat then
             ev_bind (forceFloat cfg C a) (\<lambda>x. ev_return (VFloat (float_div cfg x f2)))
           else ev_bind (forceInt C a) (\<lambda>i. ev_bind (forceInt C b) (\<lambda>j. checked_int IntegerOverflow (checked_div i j))))))))"

definition prim_bits :: "(NixInt \<Rightarrow> NixInt \<Rightarrow> NixInt) \<Rightarrow> calls \<Rightarrow> nat \<Rightarrow> nat \<Rightarrow> nix_value ev" where
  "prim_bits bop C a b = ev_bind (forceInt C a) (\<lambda>i. ev_bind (forceInt C b) (\<lambda>j. ev_return (VInt (bop i j))))"

definition prim_lessThan :: "calls \<Rightarrow> nat \<Rightarrow> nat \<Rightarrow> nix_value ev" where
  "prim_lessThan C a b =
     ev_then (force_c C a) (ev_then (force_c C b) (ev_bind (less_c C a b) (\<lambda>r. ev_return (VBool r))))"

section \<open>Strings\<close>

definition prim_toString :: "calls \<Rightarrow> nat \<Rightarrow> nix_value ev" where
  "prim_toString C a = ev_bind (string_c C (At a) True False True) (\<lambda>(s, ctx). ev_return (VString s ctx))"

definition substring_result :: "NixInt \<Rightarrow> NixInt \<Rightarrow> string \<Rightarrow> string" where
  "substring_result start len s =
     (if unat start \<ge> length s then [] else
      let tail = drop (unat start) s in if 0 \<le>s len \<and> unat len < 2 ^ 64 - 1 then take (unat len) tail else tail)"

definition prim_substring :: "calls \<Rightarrow> nat \<Rightarrow> nat \<Rightarrow> nat \<Rightarrow> nix_value ev" where
  "prim_substring C a b c =
     ev_bind (forceInt C a) (\<lambda>start. if start <s 0 then ev_throw EvalError
     else ev_bind (forceInt C b) (\<lambda>len.
       let general = ev_bind (string_c C (At c) False True True) (\<lambda>(s, ctx). ev_return (VString (substring_result start len s) ctx))
       in if len = 0 then ev_bind (force_at C c) (\<lambda>v. case v of VString s ctx \<Rightarrow> ev_return (VString [] ctx) | _ \<Rightarrow> general)
          else general))"

definition prim_stringLength :: "calls \<Rightarrow> nat \<Rightarrow> nix_value ev" where
  "prim_stringLength C a = ev_bind (string_c C (At a) False True True) (\<lambda>(s, ctx). ev_return (VInt (of_nat (length s))))"

definition prim_concatStringsSep :: "calls \<Rightarrow> nat \<Rightarrow> nat \<Rightarrow> nix_value ev" where
  "prim_concatStringsSep C a b =
     ev_bind (forceString C a) (\<lambda>(sep, ctx). ev_bind (forceList C b) (\<lambda>xs.
     ev_bind (ev_fold (\<lambda>x (out, ctx, is_first). ev_bind (string_c C (At x) False True True) (\<lambda>(s, ctx').
       ev_return (out @ (if is_first then [] else sep) @ s, ctx |\<union>| ctx', False))) xs ([], ctx, True)) (\<lambda>(out, ctx, _).
       ev_return (VString out ctx))))"

section \<open>The table\<close>

definition primop_arity :: "primop \<Rightarrow> nat" where
  "primop_arity p = (case p of
     AddErrorContext \<Rightarrow> 2 | SeqOp \<Rightarrow> 2 | DeepSeq \<Rightarrow> 2 | GetAttr \<Rightarrow> 2 | HasAttr \<Rightarrow> 2 | RemoveAttrs \<Rightarrow> 2
   | IntersectAttrs \<Rightarrow> 2 | CatAttrs \<Rightarrow> 2 | MapAttrs \<Rightarrow> 2 | ElemAt \<Rightarrow> 2 | MapOp \<Rightarrow> 2 | FilterOp \<Rightarrow> 2 | ElemOp \<Rightarrow> 2
   | FoldlStrict \<Rightarrow> 3 | AnyOp \<Rightarrow> 2 | AllOp \<Rightarrow> 2 | GenList \<Rightarrow> 2 | PartitionOp \<Rightarrow> 2 | GroupBy \<Rightarrow> 2 | ConcatMap \<Rightarrow> 2
   | AddOp \<Rightarrow> 2 | SubOp \<Rightarrow> 2 | MulOp \<Rightarrow> 2 | DivOp \<Rightarrow> 2 | BitAnd \<Rightarrow> 2 | BitOr \<Rightarrow> 2 | BitXor \<Rightarrow> 2 | LessThan \<Rightarrow> 2
   | Substring \<Rightarrow> 3 | ConcatStringsSep \<Rightarrow> 2 | _ \<Rightarrow> 1)"

text \<open>Reading the argument array past its end is undefined.\<close>

definition args1 :: "(nat \<Rightarrow> 'b ev) \<Rightarrow> nat list \<Rightarrow> 'b ev" where
  "args1 f xs = (case xs of a # _ \<Rightarrow> f a | [] \<Rightarrow> ev_undefined)"

definition args2 :: "(nat \<Rightarrow> nat \<Rightarrow> 'b ev) \<Rightarrow> nat list \<Rightarrow> 'b ev" where
  "args2 f xs = (case xs of a # b # _ \<Rightarrow> f a b | _ \<Rightarrow> ev_undefined)"

definition args3 :: "(nat \<Rightarrow> nat \<Rightarrow> nat \<Rightarrow> 'b ev) \<Rightarrow> nat list \<Rightarrow> 'b ev" where
  "args3 f xs = (case xs of a # b # c # _ \<Rightarrow> f a b c | _ \<Rightarrow> ev_undefined)"

definition primop_impl :: "eval_cfg \<Rightarrow> calls \<Rightarrow> primop \<Rightarrow> nat list \<Rightarrow> nix_value ev" where
  "primop_impl cfg C p = (case p of
     TypeOf \<Rightarrow> args1 (prim_typeOf C)
   | IsNull \<Rightarrow> args1 (prim_isType nNull C)
   | IsFunction \<Rightarrow> args1 (prim_isType nFunction C)
   | IsInt \<Rightarrow> args1 (prim_isType nInt C)
   | IsFloat \<Rightarrow> args1 (prim_isType nFloat C)
   | IsString \<Rightarrow> args1 (prim_isType nString C)
   | IsBool \<Rightarrow> args1 (prim_isType nBool C)
   | IsPath \<Rightarrow> args1 (prim_isType nPath C)
   | IsAttrs \<Rightarrow> args1 (prim_isType nAttrs C)
   | IsList \<Rightarrow> args1 (prim_isType nList C)
   | AbortOp \<Rightarrow> args1 (prim_abort C)
   | ThrowOp \<Rightarrow> args1 (prim_throw C)
   | AddErrorContext \<Rightarrow> args2 (prim_addErrorContext C)
   | TryEval \<Rightarrow> args1 (prim_tryEval C)
   | SeqOp \<Rightarrow> args2 (prim_seq C)
   | DeepSeq \<Rightarrow> args2 (prim_deepSeq C)
   | BreakOp \<Rightarrow> args1 (force_at C)
   | GetAttr \<Rightarrow> args2 (prim_getAttr C)
   | HasAttr \<Rightarrow> args2 (prim_hasAttr C)
   | AttrNames \<Rightarrow> args1 (prim_attrNames C)
   | AttrValues \<Rightarrow> args1 (prim_attrValues C)
   | RemoveAttrs \<Rightarrow> args2 (prim_removeAttrs C)
   | ListToAttrs \<Rightarrow> args1 (prim_listToAttrs C)
   | IntersectAttrs \<Rightarrow> args2 (prim_intersectAttrs C)
   | CatAttrs \<Rightarrow> args2 (prim_catAttrs C)
   | FunctionArgs \<Rightarrow> args1 (prim_functionArgs C)
   | MapAttrs \<Rightarrow> args2 (prim_mapAttrs C)
   | ElemAt \<Rightarrow> args2 (prim_elemAt C)
   | HeadOp \<Rightarrow> args1 (prim_head C)
   | TailOp \<Rightarrow> args1 (prim_tail C)
   | MapOp \<Rightarrow> args2 (prim_map C)
   | FilterOp \<Rightarrow> args2 (prim_filter C)
   | ElemOp \<Rightarrow> args2 (prim_elem C)
   | ConcatListsOp \<Rightarrow> args1 (prim_concatLists C)
   | LengthOp \<Rightarrow> args1 (prim_length C)
   | FoldlStrict \<Rightarrow> args3 (prim_foldlStrict C)
   | AnyOp \<Rightarrow> args2 (anyOrAll True C)
   | AllOp \<Rightarrow> args2 (anyOrAll False C)
   | GenList \<Rightarrow> args2 (prim_genList C)
   | PartitionOp \<Rightarrow> args2 (prim_partition C)
   | GroupBy \<Rightarrow> args2 (prim_groupBy C)
   | ConcatMap \<Rightarrow> args2 (prim_concatMap C)
   | AddOp \<Rightarrow> args2 (prim_arith (float_add cfg) checked_add cfg C)
   | SubOp \<Rightarrow> args2 (prim_arith (float_sub cfg) checked_sub cfg C)
   | MulOp \<Rightarrow> args2 (prim_arith (float_mul cfg) checked_mul cfg C)
   | DivOp \<Rightarrow> args2 (prim_div cfg C)
   | BitAnd \<Rightarrow> args2 (prim_bits (AND) C)
   | BitOr \<Rightarrow> args2 (prim_bits (OR) C)
   | BitXor \<Rightarrow> args2 (prim_bits (XOR) C)
   | LessThan \<Rightarrow> args2 (prim_lessThan C)
   | ToStringOp \<Rightarrow> args1 (prim_toString C)
   | Substring \<Rightarrow> args3 (prim_substring C)
   | StringLength \<Rightarrow> args1 (prim_stringLength C)
   | ConcatStringsSep \<Rightarrow> args2 (prim_concatStringsSep C))"

end
