(* ===== verification/Nix_Eval.thy ===== *)
theory Nix_Eval
  imports Nix_Primops
begin

text \<open>
  The evaluator of \<^verbatim>\<open>libexpr/eval.cc\<close>: the \<^verbatim>\<open>eval\<close> methods of the expressions, \<^verbatim>\<open>callFunction\<close>,
  \<^verbatim>\<open>forceValue\<close> with black holes and cached failures, comparison and coercion.  The functions of
  the code call each other without a bound, so the recursion is closed with fuel: \<open>run_eval n\<close> is the
  evaluator that may nest \<open>n\<close> calls, and \<^verbatim>\<open>Nix_Fuel\<close> shows that more fuel never changes a result.
  The depth of calls that the code itself counts is part of the state.
\<close>

section \<open>Environments of attribute sets and \<^verbatim>\<open>let\<close>\<close>

text \<open>The slots are filled in order; a delayed expression may look at the slots before it.\<close>

fun fill_slots :: "nat \<Rightarrow> nat \<Rightarrow> nat ev list \<Rightarrow> nat list ev" where
  "fill_slots env d [] = ev_return []"
| "fill_slots env d (m # ms) =
     ev_bind m (\<lambda>a. ev_then (write_slot env d a) (ev_bind (fill_slots env (d + 1) ms) (\<lambda>as. ev_return (a # as))))"

definition buildInheritFromEnv :: "expr list \<Rightarrow> nat \<Rightarrow> nat ev" where
  "buildInheritFromEnv froms up =
     ev_bind (alloc_env (Some up) (length froms)) (\<lambda>inheritEnv.
     ev_then (fill_slots inheritEnv 0 (map (\<lambda>from_expr. maybeThunk from_expr up) froms)) (ev_return inheritEnv))"

definition inherit_from_env :: "expr list option \<Rightarrow> nat \<Rightarrow> nat option ev" where
  "inherit_from_env froms up = (case froms of
     None \<Rightarrow> ev_return None
   | Some es \<Rightarrow> ev_bind (buildInheritFromEnv es up) (\<lambda>e. ev_return (Some e)))"

definition attr_thunk :: "bool \<Rightarrow> nat \<Rightarrow> nat \<Rightarrow> nat option \<Rightarrow> attr_def \<Rightarrow> nat ev" where
  "attr_thunk hasOverrides env2 env inheritEnv d =
     ev_bind (non_null (chooseByKind (def_kind d) (Some env2) (Some env) inheritEnv)) (\<lambda>e.
       if hasOverrides \<and> def_kind d \<noteq> Inherited then alloc_value (VThunk e (def_expr d)) else maybeThunk (def_expr d) e)"

text \<open>The environment of a \<^verbatim>\<open>rec\<close> or \<^verbatim>\<open>let\<close>, with the values of its attributes.\<close>

definition recursive_env :: "bool \<Rightarrow> attrs_node \<Rightarrow> nat \<Rightarrow> (nat \<times> nat list) ev" where
  "recursive_env hasOverrides n env =
     ev_bind (alloc_env (Some env) (length (static_attrs n))) (\<lambda>env2.
     ev_bind (inherit_from_env (inheritFromExprs n) env2) (\<lambda>inheritEnv.
     ev_bind (fill_slots env2 0 (map (\<lambda>i. attr_thunk hasOverrides env2 env inheritEnv (snd i)) (static_attrs n))) (\<lambda>vs.
       ev_return (env2, vs))))"

text \<open>The attributes of \<^verbatim>\<open>__overrides\<close> replace those of the set, in the bindings and in the environment.\<close>

definition override_attr :: "attrs_node \<Rightarrow> nat \<Rightarrow> nat Attr \<Rightarrow> nat Attr list \<Rightarrow> nat Attr list ev" where
  "override_attr n env2 i bs = (case map_of (static_attrs n) (attr_name i) of
     Some d \<Rightarrow> if def_displ d < length bs
       then ev_then (write_slot env2 (def_displ d) (attr_value i)) (ev_return (bs[def_displ d := i])) else ev_undefined
   | None \<Rightarrow> ev_return (bs @ [i]))"

definition apply_overrides :: "calls \<Rightarrow> attrs_node \<Rightarrow> attr_def \<Rightarrow> nat \<Rightarrow> nat Attr list \<Rightarrow> nat Attr list ev" where
  "apply_overrides C n overrides env2 bs =
     (if def_displ overrides < length bs then
        ev_bind (forceAttrs C (attr_value (bs ! def_displ overrides))) (\<lambda>b.
        ev_bind (attr_entries b) (\<lambda>is. ev_fold (override_attr n env2) is bs))
      else ev_undefined)"

text \<open>
  Dynamic attributes: the builder is sorted before it is searched unless it is known to be; a null
  name drops the attribute.
\<close>

definition dynamic_attr :: "calls \<Rightarrow> nat \<Rightarrow> expr \<times> expr \<Rightarrow> nat Attr list \<times> bool \<Rightarrow> (nat Attr list \<times> bool) ev" where
  "dynamic_attr C env d st = (case (d, st) of ((nameExpr, valueExpr), (bs, sort_first)) \<Rightarrow>
     ev_bind (eval_c C nameExpr env) (\<lambda>v. force_tmp C v (\<lambda>nameVal.
       if value_type nameVal = nNull then ev_return st
       else ev_bind (as_string_no_ctx nameVal) (\<lambda>s. ev_bind (create_symbol s) (\<lambda>nameSym.
         let bs' = (if sort_first then sort_key attr_name bs else bs)
         in if getInChunk nameSym bs' \<noteq> None then ev_throw EvalError
            else ev_bind (maybeThunk valueExpr env) (\<lambda>a. ev_return (bs' @ [mk_attr nameSym a], True)))))))"

definition finish_set :: "nat Attr list \<times> bool \<Rightarrow> nix_value ev" where
  "finish_set st = (if snd st then finish_attrs (fst st) else sorted_attrs (fst st))"

definition ExprAttrs_eval :: "calls \<Rightarrow> attrs_node \<Rightarrow> nat \<Rightarrow> nix_value ev" where
  "ExprAttrs_eval C n env =
     (if is_recursive n then
        let overrides = map_of (static_attrs n) sym_overrides
        in ev_bind (recursive_env (overrides \<noteq> None) n env) (\<lambda>(env2, vs).
           let bs = map2 mk_attr (map fst (static_attrs n)) vs
           in ev_bind (case overrides of None \<Rightarrow> ev_return bs | Some d \<Rightarrow> apply_overrides C n d env2 bs) (\<lambda>bs.
              ev_bind (ev_fold (dynamic_attr C env2) (dynamicAttrs n) (bs, overrides \<noteq> None)) finish_set))
      else
        ev_bind (inherit_from_env (inheritFromExprs n) env) (\<lambda>inheritEnv.
        ev_bind (ev_map (\<lambda>i. ev_bind (attr_thunk False env env inheritEnv (snd i)) (\<lambda>a. ev_return (mk_attr (fst i) a))) (static_attrs n)) (\<lambda>bs.
        ev_bind (ev_fold (dynamic_attr C env) (dynamicAttrs n) (bs, False)) finish_set)))"

definition ExprLet_eval :: "calls \<Rightarrow> attrs_node \<Rightarrow> expr \<Rightarrow> nat \<Rightarrow> nix_value ev" where
  "ExprLet_eval C n body env = ev_bind (recursive_env False n env) (\<lambda>(env2, vs). eval_c C body env2)"

definition ExprWith_eval :: "calls \<Rightarrow> expr \<Rightarrow> expr \<Rightarrow> nat \<Rightarrow> nix_value ev" where
  "ExprWith_eval C scope body env =
     ev_bind (alloc_env (Some env) 1) (\<lambda>env2.
     ev_then (fill_slots env2 0 [maybeThunk scope env]) (eval_c C body env2))"

section \<open>Selection\<close>

fun select_loop :: "calls \<Rightarrow> expr option \<Rightarrow> nat \<Rightarrow> attr_path_elem list \<Rightarrow> value_ref \<Rightarrow> nix_value ev" where
  "select_loop C dflt env [] vAttrs = force_ref C vAttrs"
| "select_loop C dflt env (i # path) vAttrs =
     ev_bind (getName C i env) (\<lambda>name.
     ev_bind (force_ref C vAttrs) (\<lambda>v. case dflt of
       Some d \<Rightarrow> (case (case v of VAttrs b \<Rightarrow> get_attr b name | _ \<Rightarrow> None) of
           None \<Rightarrow> eval_c C d env
         | Some j \<Rightarrow> select_loop C dflt env path (At (attr_value j)))
     | None \<Rightarrow> ev_bind (as_attrs v) (\<lambda>b. case get_attr b name of
           None \<Rightarrow> ev_throw EvalError
         | Some j \<Rightarrow> select_loop C dflt env path (At (attr_value j)))))"

fun has_attr_loop :: "calls \<Rightarrow> nat \<Rightarrow> attr_path_elem list \<Rightarrow> value_ref \<Rightarrow> nix_value ev" where
  "has_attr_loop C env [] vAttrs = ev_return (VBool True)"
| "has_attr_loop C env (i # path) vAttrs =
     ev_bind (force_ref C vAttrs) (\<lambda>v.
     ev_bind (getName C i env) (\<lambda>name. case (case v of VAttrs b \<Rightarrow> get_attr b name | _ \<Rightarrow> None) of
         Some j \<Rightarrow> has_attr_loop C env path (At (attr_value j))
       | None \<Rightarrow> ev_return (VBool False)))"

section \<open>Calls\<close>

text \<open>\<^verbatim>\<open>Formals::has\<close>: a binary search in the formals, which are sorted.\<close>

definition formals_has :: "(Symbol \<times> expr option) list \<Rightarrow> Symbol \<Rightarrow> bool" where
  "formals_has fs arg = (case dropWhile (\<lambda>f. fst f < arg) fs of [] \<Rightarrow> False | f # _ \<Rightarrow> fst f = arg)"

text \<open>
  The checks of the arguments of a call. The code fills the slots of the new environment in the same
  loop, which evaluates nothing; here the environment is allocated when no check can fail any more,
  so that a throw leaves no half-filled environment behind.
\<close>

definition check_formals :: "(Symbol \<times> expr option) list \<Rightarrow> bool \<Rightarrow> nat Bindings \<Rightarrow> unit ev" where
  "check_formals fs ell b =
     (if list_ex (\<lambda>(n, d). get_attr b n = None \<and> d = None) fs then ev_throw TypeError
      else if \<not> ell \<and> length (filter (\<lambda>f. get_attr b (fst f) \<noteq> None) fs) \<noteq> bindings_size b then
        ev_bind (attr_entries b) (\<lambda>as.
          if list_ex (\<lambda>i. \<not> formals_has fs (attr_name i)) as then ev_throw TypeError else ev_undefined)
      else ev_return ())"

definition formal_value :: "nat Bindings \<Rightarrow> nat \<Rightarrow> Symbol \<times> expr option \<Rightarrow> nat ev" where
  "formal_value b env2 f = (case get_attr b (fst f) of
     Some j \<Rightarrow> ev_return (attr_value j)
   | None \<Rightarrow> ev_bind (non_null (snd f)) (\<lambda>d. maybeThunk d env2))"

definition lambda_env :: "lambda_node \<Rightarrow> nat \<Rightarrow> nat ev list \<Rightarrow> (nat \<Rightarrow> nat ev list) \<Rightarrow> nat ev" where
  "lambda_env l env arg_value formal_values =
     ev_bind (alloc_env (Some env) ((if lambda_arg l = None then 0 else 1) +
       (case lambda_formals l of Some fs \<Rightarrow> length (formal_list fs) | None \<Rightarrow> 0))) (\<lambda>env2.
     ev_then (fill_slots env2 0 (arg_value @ formal_values env2)) (ev_return env2))"

definition call_lambda :: "calls \<Rightarrow> nat \<Rightarrow> lambda_node \<Rightarrow> nat \<Rightarrow> nix_value ev" where
  "call_lambda C env l arg =
     ev_bind (case lambda_formals l of
         Some fs \<Rightarrow> ev_bind (forceAttrs C arg) (\<lambda>b.
           ev_then (check_formals (formal_list fs) (ellipsis fs) b)
             (lambda_env l env (if lambda_arg l = None then [] else [ev_return arg])
               (\<lambda>env2. map (formal_value b env2) (formal_list fs))))
       | None \<Rightarrow> lambda_env l env [ev_return arg] (\<lambda>_. []))
     (eval_c C (lambda_body l))"

text \<open>The primop at the end of a chain of partial applications, and the arguments on the way.\<close>

fun unwind :: "nix_value \<Rightarrow> nat list \<Rightarrow> (primop \<times> nat list) option" where
  "unwind (VPrimOp p) xs = Some (p, xs)"
| "unwind (VPrimOpApp f a) xs = unwind f (a # xs)"
| "unwind _ xs = None"

text \<open>
  A primop, or a chain of applications to \<open>done\<close> arguments: with too few arguments the chain is
  extended (\<^verbatim>\<open>makeAppChain\<close>), otherwise the primop is called.
\<close>

definition call_primop :: "eval_cfg \<Rightarrow> calls \<Rightarrow> nix_value \<Rightarrow> nat list \<Rightarrow> nix_value ev" where
  "call_primop cfg C vCur args =
     ev_bind (non_null (unwind vCur [])) (\<lambda>(p, argsDone).
       let argsLeft = primop_arity p - length argsDone
       in if length args < argsLeft then ev_return (fold (\<lambda>a f. VPrimOpApp f a) args vCur)
          else ev_bind (primop_impl cfg C p (argsDone @ take argsLeft args)) (\<lambda>v. loop_c C v (drop argsLeft args)))"

definition loop_body :: "eval_cfg \<Rightarrow> calls \<Rightarrow> nix_value \<Rightarrow> nat list \<Rightarrow> nix_value ev" where
  "loop_body cfg C vCur args = (case args of
     [] \<Rightarrow> ev_return vCur
   | arg # rest \<Rightarrow> (case vCur of
         VLambda env l \<Rightarrow> ev_bind (call_lambda C env l arg) (\<lambda>v. loop_c C v rest)
       | VPrimOp p \<Rightarrow> call_primop cfg C vCur args
       | VPrimOpApp f a \<Rightarrow> call_primop cfg C vCur args
       | VAttrs b \<Rightarrow> (case get_attr b sym_functor of
             Some functor \<Rightarrow> ev_bind (alloc_value vCur) (\<lambda>self.
               ev_bind (call_c C (At (attr_value functor)) [self, arg]) (\<lambda>v. loop_c C v rest))
           | None \<Rightarrow> ev_throw TypeError)
       | _ \<Rightarrow> ev_throw TypeError))"

definition callFunction :: "eval_cfg \<Rightarrow> calls \<Rightarrow> value_ref \<Rightarrow> nat list \<Rightarrow> nix_value ev" where
  "callFunction cfg C f args = addCallDepth cfg (ev_bind (force_ref C f) (\<lambda>vCur. loop_c C vCur args))"

section \<open>Forcing\<close>

text \<open>
  \<^verbatim>\<open>forceValue\<close>. A thunk is a black hole while it is evaluated; an error is cached in the cell, with a
  copy to evaluate again if it is recoverable.
\<close>

definition cache_failure :: "nat \<Rightarrow> nix_value \<Rightarrow> eval_error \<Rightarrow> unit ev" where
  "cache_failure a saved e =
     ev_bind (if e = RecoverableError then ev_bind (alloc_value saved) (\<lambda>r. ev_return (Some r)) else ev_return None) (\<lambda>recovery.
     ev_then (write_value a (VFailed e recovery)) (ev_throw e))"

definition forceValue :: "calls \<Rightarrow> nat \<Rightarrow> unit ev" where
  "forceValue C a =
     ev_bind (read_value a) (\<lambda>v. case v of
       VThunk env e \<Rightarrow> ev_then (write_value a VBlackhole)
         (ev_catch (ev_bind (eval_c C e env) (write_value a)) (cache_failure a v))
     | VBlackhole \<Rightarrow> ev_then (write_value a (VFailed InfiniteRecursion None)) (ev_throw InfiniteRecursion)
     | VApp f x \<Rightarrow> ev_catch (ev_bind (call_c C (At f) [x]) (write_value a)) (cache_failure a v)
     | VFailed e None \<Rightarrow> ev_throw e
     | VFailed e (Some r) \<Rightarrow> ev_bind (read_value r) (\<lambda>w. ev_then (write_value a w) (force_c C a))
     | _ \<Rightarrow> ev_return ())"

section \<open>Strings\<close>

text \<open>
  \<^verbatim>\<open>coerceToString\<close>. A path keeps its string as it is (\<^verbatim>\<open>path()\<close> does not canonicalise), so the flag
  \<^verbatim>\<open>canonicalizePath\<close> has no effect.
\<close>

definition path_to_store :: "eval_cfg \<Rightarrow> string \<Rightarrow> (string \<times> string fset) ev" where
  "path_to_store cfg p = (case copyPathToStore cfg p of Inl e \<Rightarrow> ev_throw e | Inr r \<Rightarrow> ev_return r)"

definition int_string :: "NixInt \<Rightarrow> string" where
  "int_string n = (if sint n < 0 then CHR ''-'' # to_string (nat (- sint n)) else to_string (nat (sint n)))"

fun string_list :: "calls \<Rightarrow> bool \<Rightarrow> bool \<Rightarrow> bool \<Rightarrow> nat list \<Rightarrow> (string \<times> string fset) ev" where
  "string_list C coerceMore copyToStore canonicalizePath [] = ev_return ([], {||})"
| "string_list C coerceMore copyToStore canonicalizePath (x # xs) =
     ev_bind (string_c C (At x) coerceMore copyToStore canonicalizePath) (\<lambda>(s, ctx).
     ev_bind (read_value x) (\<lambda>v.
     ev_bind (string_list C coerceMore copyToStore canonicalizePath xs) (\<lambda>(t, ctx').
       ev_return (s @ (if xs \<noteq> [] \<and> v \<noteq> VList [] then '' '' else []) @ t, ctx |\<union>| ctx'))))"

definition coerceToString :: "eval_cfg \<Rightarrow> calls \<Rightarrow> value_ref \<Rightarrow> bool \<Rightarrow> bool \<Rightarrow> bool \<Rightarrow> (string \<times> string fset) ev" where
  "coerceToString cfg C r coerceMore copyToStore canonicalizePath = addCallDepth cfg
     (ev_bind (force_ref C r) (\<lambda>v. case v of
       VString s ctx \<Rightarrow> ev_return (s, ctx)
     | VPath p \<Rightarrow> if \<not> canonicalizePath \<and> \<not> copyToStore then ev_return (p, {||}) else if copyToStore then path_to_store cfg p else ev_return (p, {||})
     | VAttrs b \<Rightarrow> (case get_attr b sym_toString of
           Some i \<Rightarrow> ev_bind (case r of At a \<Rightarrow> ev_return a | Tmp w \<Rightarrow> alloc_value v) (\<lambda>self.
             ev_bind (call_c C (At (attr_value i)) [self]) (\<lambda>v1. string_c C (Tmp v1) coerceMore copyToStore True))
         | None \<Rightarrow> (case get_attr b sym_outPath of
               Some i \<Rightarrow> string_c C (At (attr_value i)) coerceMore copyToStore canonicalizePath
             | None \<Rightarrow> ev_throw TypeError))
     | VBool t \<Rightarrow> if coerceMore then ev_return (if t then ''1'' else [], {||}) else ev_throw TypeError
     | VInt n \<Rightarrow> if coerceMore then ev_return (int_string n, {||}) else ev_throw TypeError
     | VFloat x \<Rightarrow> if coerceMore then ev_return (float_string cfg x, {||}) else ev_throw TypeError
     | VNull \<Rightarrow> if coerceMore then ev_return ([], {||}) else ev_throw TypeError
     | VList xs \<Rightarrow> if coerceMore then string_list C coerceMore copyToStore canonicalizePath xs else ev_throw TypeError
     | _ \<Rightarrow> ev_throw TypeError))"

text \<open>\<^verbatim>\<open>ExprConcatStrings\<close>: addition of numbers, concatenation of strings, or extension of a path.\<close>

record concat_state =
  is_first :: bool
  first_type :: ValueType
  int_sum :: NixInt
  float_sum :: NixFloat
  parts :: "string list"
  parts_context :: "string fset"

definition concat_part :: "eval_cfg \<Rightarrow> calls \<Rightarrow> nat \<Rightarrow> expr \<Rightarrow> concat_state \<Rightarrow> concat_state ev" where
  "concat_part cfg C env e st =
     ev_bind (eval_c C e env) (\<lambda>v.
       let ft = (if is_first st then value_type v else first_type st); st' = st\<lparr>is_first := False, first_type := ft\<rparr>
       in if ft = nInt then (case v of
            VInt i \<Rightarrow> (case valueChecked (checked_add (int_sum st) i) of
                Some n \<Rightarrow> ev_return (st'\<lparr>int_sum := n\<rparr>) | None \<Rightarrow> ev_throw IntegerOverflow)
          | VFloat x \<Rightarrow> ev_return (st'\<lparr>first_type := nFloat, float_sum := float_add cfg (float_of_int cfg (int_sum st)) x\<rparr>)
          | _ \<Rightarrow> ev_throw EvalError)
          else if ft = nFloat then (case v of
            VInt i \<Rightarrow> ev_return (st'\<lparr>float_sum := float_add cfg (float_sum st) (float_of_int cfg i)\<rparr>)
          | VFloat x \<Rightarrow> ev_return (st'\<lparr>float_sum := float_add cfg (float_sum st) x\<rparr>)
          | _ \<Rightarrow> ev_throw EvalError)
          else ev_bind (string_c C (Tmp v) False (ft = nString) (\<not> is_first st)) (\<lambda>(s, ctx).
            ev_return (st'\<lparr>parts := parts st @ [s], parts_context := parts_context st |\<union>| ctx\<rparr>)))"

definition ExprConcatStrings_eval :: "eval_cfg \<Rightarrow> calls \<Rightarrow> bool \<Rightarrow> expr list \<Rightarrow> nat \<Rightarrow> nix_value ev" where
  "ExprConcatStrings_eval cfg C forceString_flag es env =
     ev_bind (ev_fold (concat_part cfg C env) es
       \<lparr>is_first = \<not> forceString_flag, first_type = nString, int_sum = 0, float_sum = 0, parts = [], parts_context = {||}\<rparr>) (\<lambda>st.
       if first_type st = nInt then ev_return (VInt (int_sum st))
       else if first_type st = nFloat then ev_return (VFloat (float_sum st))
       else if first_type st = nPath then
         (if parts_context st \<noteq> {||} then ev_throw EvalError
          else case CanonPath_of (concat (parts st)) of Inl e \<Rightarrow> ev_throw (OtherError e) | Inr p \<Rightarrow> ev_return (VPath p))
       else ev_return (VString (concat (parts st)) (parts_context st)))"

section \<open>Comparison\<close>

text \<open>\<^verbatim>\<open>EvalState::isDerivation\<close>\<close>

definition is_derivation_set :: "calls \<Rightarrow> nat Bindings \<Rightarrow> bool ev" where
  "is_derivation_set C b = (case get_attr b sym_type of
     None \<Rightarrow> ev_return False
   | Some i \<Rightarrow> ev_bind (force_at C (attr_value i)) (\<lambda>v. case v of
         VString s ctx \<Rightarrow> ev_return (s = ''derivation'') | _ \<Rightarrow> ev_return False))"

fun all_equal :: "calls \<Rightarrow> (bool \<times> nat \<times> nat) list \<Rightarrow> bool ev" where
  "all_equal C [] = ev_return True"
| "all_equal C ((same_name, x, y) # ps) =
     (if \<not> same_name then ev_return False
      else ev_bind (eq_c C (At x) (At y)) (\<lambda>r. if r then all_equal C ps else ev_return False))"

definition eq_attrs :: "calls \<Rightarrow> nat Bindings \<Rightarrow> nat Bindings \<Rightarrow> bool ev" where
  "eq_attrs C b1 b2 =
     (let compare_all =
        (if bindings_size b1 \<noteq> bindings_size b2 then ev_return False
         else ev_bind (attr_entries b1) (\<lambda>is. ev_bind (attr_entries b2) (\<lambda>js.
           all_equal C (map2 (\<lambda>i j. (attr_name i = attr_name j, attr_value i, attr_value j)) is js))))
      in ev_bind (is_derivation_set C b1) (\<lambda>d1.
         ev_bind (if d1 then is_derivation_set C b2 else ev_return False) (\<lambda>d2.
           if d2 then (case (get_attr b1 sym_outPath, get_attr b2 sym_outPath) of
               (Some i, Some j) \<Rightarrow> eq_c C (At (attr_value i)) (At (attr_value j))
             | _ \<Rightarrow> compare_all)
           else compare_all)))"

fun same_cell :: "value_ref \<Rightarrow> value_ref \<Rightarrow> bool" where
  "same_cell (At a) (At b) \<longleftrightarrow> a = b"
| "same_cell _ _ \<longleftrightarrow> False"

definition eqValues :: "eval_cfg \<Rightarrow> calls \<Rightarrow> value_ref \<Rightarrow> value_ref \<Rightarrow> bool ev" where
  "eqValues cfg C r1 r2 = addCallDepth cfg
     (ev_bind (force_ref C r1) (\<lambda>v1. ev_bind (force_ref C r2) (\<lambda>v2.
       if same_cell r1 r2 then ev_return True
       else case (v1, v2) of
         (VInt i, VFloat y) \<Rightarrow> ev_return (float_eq cfg (float_of_int cfg i) y)
       | (VFloat x, VInt j) \<Rightarrow> ev_return (float_eq cfg x (float_of_int cfg j))
       | (VInt i, VInt j) \<Rightarrow> ev_return (i = j)
       | (VBool x, VBool y) \<Rightarrow> ev_return (x = y)
       | (VString s ctx, VString t ctx') \<Rightarrow> ev_return (s = t)
       | (VPath s, VPath t) \<Rightarrow> ev_return (s = t)
       | (VNull, VNull) \<Rightarrow> ev_return True
       | (VList xs, VList ys) \<Rightarrow>
           (if length xs \<noteq> length ys then ev_return False else all_equal C (map2 (\<lambda>x y. (True, x, y)) xs ys))
       | (VAttrs b1, VAttrs b2) \<Rightarrow> eq_attrs C b1 b2
       | (VFloat x, VFloat y) \<Rightarrow> ev_return (float_eq cfg x y)
       | _ \<Rightarrow> if value_type v1 \<noteq> value_type v2 \<or> value_type v1 = nFunction then ev_return False else ev_undefined)))"

fun less_lists :: "calls \<Rightarrow> nat list \<Rightarrow> nat list \<Rightarrow> bool ev" where
  "less_lists C xs [] = ev_return False"
| "less_lists C [] (y # ys) = ev_return True"
| "less_lists C (x # xs) (y # ys) =
     ev_bind (eq_c C (At x) (At y)) (\<lambda>r. if \<not> r then less_c C x y else less_lists C xs ys)"

text \<open>\<^verbatim>\<open>CompareValues\<close>, which forces nothing itself.\<close>

definition compareValues :: "eval_cfg \<Rightarrow> calls \<Rightarrow> nat \<Rightarrow> nat \<Rightarrow> bool ev" where
  "compareValues cfg C a b =
     ev_bind (read_value a) (\<lambda>v1. ev_bind (read_value b) (\<lambda>v2. case (v1, v2) of
         (VFloat x, VInt j) \<Rightarrow> ev_return (float_less cfg x (float_of_int cfg j))
       | (VInt i, VFloat y) \<Rightarrow> ev_return (float_less cfg (float_of_int cfg i) y)
       | (VInt i, VInt j) \<Rightarrow> ev_return (i <s j)
       | (VFloat x, VFloat y) \<Rightarrow> ev_return (float_less cfg x y)
       | (VString s ctx, VString t ctx') \<Rightarrow> ev_return (s < t)
       | (VPath s, VPath t) \<Rightarrow> ev_return (s < t)
       | (VList xs, VList ys) \<Rightarrow> less_lists C xs ys
       | _ \<Rightarrow> ev_throw EvalError))"

definition forceValueDeep :: "eval_cfg \<Rightarrow> calls \<Rightarrow> nat \<Rightarrow> nat list \<Rightarrow> nat list ev" where
  "forceValueDeep cfg C a seen = addCallDepth cfg
     (if a \<in> set seen then ev_return seen
      else ev_bind (force_at C a) (\<lambda>v. case v of
          VAttrs b \<Rightarrow> ev_bind (attr_entries b) (\<lambda>is. ev_fold (\<lambda>i. deep_c C (attr_value i)) is (a # seen))
        | VList xs \<Rightarrow> ev_fold (deep_c C) xs (a # seen)
        | _ \<Rightarrow> ev_return (a # seen)))"

section \<open>Operators\<close>

text \<open>The virtual \<^verbatim>\<open>evalForUpdate\<close>: a chain of \<open>//\<close> queues its operands, the rightmost first.\<close>

definition eval_for_update :: "calls \<Rightarrow> expr \<Rightarrow> nat \<Rightarrow> nat Bindings list \<Rightarrow> nat Bindings list ev" where
  "eval_for_update C e env q = (case e of
     ExprOp OpUpdate e1 e2 \<Rightarrow> ev_bind (update_c C e2 env q) (update_c C e1 env)
   | _ \<Rightarrow> ev_bind (evalAttrs C e env) (\<lambda>b. ev_return (q @ [b])))"

definition ExprOp_eval :: "eval_cfg \<Rightarrow> calls \<Rightarrow> bin_op \<Rightarrow> expr \<Rightarrow> expr \<Rightarrow> nat \<Rightarrow> nix_value ev" where
  "ExprOp_eval cfg C op e1 e2 env = (case op of
     OpEq \<Rightarrow> ev_bind (eval_c C e1 env) (\<lambda>v1. ev_bind (eval_c C e2 env) (\<lambda>v2.
       ev_bind (eq_c C (Tmp v1) (Tmp v2)) (\<lambda>r. ev_return (VBool r))))
   | OpNEq \<Rightarrow> ev_bind (eval_c C e1 env) (\<lambda>v1. ev_bind (eval_c C e2 env) (\<lambda>v2.
       ev_bind (eq_c C (Tmp v1) (Tmp v2)) (\<lambda>r. ev_return (VBool (\<not> r)))))
   | OpAnd \<Rightarrow> ev_bind (evalBool C e1 env) (\<lambda>x. ev_bind (if x then evalBool C e2 env else ev_return False) (\<lambda>r. ev_return (VBool r)))
   | OpOr \<Rightarrow> ev_bind (evalBool C e1 env) (\<lambda>x. ev_bind (if x then ev_return True else evalBool C e2 env) (\<lambda>r. ev_return (VBool r)))
   | OpImpl \<Rightarrow> ev_bind (evalBool C e1 env) (\<lambda>x. ev_bind (if \<not> x then ev_return True else evalBool C e2 env) (\<lambda>r. ev_return (VBool r)))
   | OpUpdate \<Rightarrow> ev_bind (ev_bind (update_c C e2 env []) (update_c C e1 env)) (\<lambda>q.
       ev_bind (non_null (update_queue (bindingsUpdateLayerRhsSizeThreshold cfg) emptyBindings (rev q))) (\<lambda>b. ev_return (VAttrs b)))
   | OpConcatLists \<Rightarrow> ev_bind (eval_c C e1 env) (\<lambda>v1. ev_bind (eval_c C e2 env) (\<lambda>v2. concatLists C [Tmp v1, Tmp v2])))"

text \<open>
  A failing assertion of an equation evaluates its sides again, for the message; \<^verbatim>\<open>assertEqValues\<close>
  compares them as \<^verbatim>\<open>eqValues\<close> does and throws the same class of error.
\<close>

definition ExprAssert_eval :: "calls \<Rightarrow> expr \<Rightarrow> expr \<Rightarrow> nat \<Rightarrow> nix_value ev" where
  "ExprAssert_eval C c body env =
     ev_bind (evalBool C c env) (\<lambda>b. if b then eval_c C body env
       else ev_then (case c of
           ExprOp OpEq e1 e2 \<Rightarrow> ev_bind (eval_c C e1 env) (\<lambda>v1. ev_bind (eval_c C e2 env) (\<lambda>v2.
             ev_then (eq_c C (Tmp v1) (Tmp v2)) (ev_return ())))
         | _ \<Rightarrow> ev_return ()) (ev_throw AssertionError))"

definition ExprVar_eval :: "calls \<Rightarrow> Symbol \<Rightarrow> with_ref option \<Rightarrow> Level \<Rightarrow> Displacement \<Rightarrow> nat \<Rightarrow> nix_value ev" where
  "ExprVar_eval C name w l d env = ev_bind (lookupVar C env name w l d) (force_at C)"

definition ExprList_eval :: "expr list \<Rightarrow> nat \<Rightarrow> nix_value ev" where
  "ExprList_eval es env = ev_bind (ev_map (\<lambda>x. maybeThunk x env) es) (\<lambda>xs. ev_return (VList xs))"

definition ExprCall_eval :: "calls \<Rightarrow> expr \<Rightarrow> expr list \<Rightarrow> nat \<Rightarrow> nix_value ev" where
  "ExprCall_eval C f es env =
     ev_bind (eval_c C f env) (\<lambda>vFun.
     ev_bind (ev_map (\<lambda>x. maybeThunk x env) es) (\<lambda>vArgs. call_c C (Tmp vFun) vArgs))"

definition ExprIf_eval :: "calls \<Rightarrow> expr \<Rightarrow> expr \<Rightarrow> expr \<Rightarrow> nat \<Rightarrow> nix_value ev" where
  "ExprIf_eval C c t f env = ev_bind (evalBool C c env) (\<lambda>b. eval_c C (if b then t else f) env)"

definition ExprOpNot_eval :: "calls \<Rightarrow> expr \<Rightarrow> nat \<Rightarrow> nix_value ev" where
  "ExprOpNot_eval C x env = ev_bind (evalBool C x env) (\<lambda>b. ev_return (VBool (\<not> b)))"

section \<open>The evaluator\<close>

definition eval_body :: "eval_cfg \<Rightarrow> calls \<Rightarrow> expr \<Rightarrow> nat \<Rightarrow> nix_value ev" where
  "eval_body cfg C e env = (case e of
     ExprInt n \<Rightarrow> ev_return (VInt n)
   | ExprFloat x \<Rightarrow> ev_return (VFloat x)
   | ExprString s \<Rightarrow> ev_return (VString s {||})
   | ExprPath p \<Rightarrow> ev_return (VPath p)
   | ExprVar name w l d \<Rightarrow> ExprVar_eval C name w l d env
   | ExprInheritFrom d \<Rightarrow> ExprVar_eval C 0 None 0 d env
   | ExprSelect x dflt path \<Rightarrow> ev_bind (eval_c C x env) (\<lambda>v. select_loop C dflt env path (Tmp v))
   | ExprOpHasAttr x path \<Rightarrow> ev_bind (eval_c C x env) (\<lambda>v. has_attr_loop C env path (Tmp v))
   | ExprAttrs n \<Rightarrow> ExprAttrs_eval C n env
   | ExprList es \<Rightarrow> ExprList_eval es env
   | ExprLambda l \<Rightarrow> ev_return (VLambda env l)
   | ExprCall f es \<Rightarrow> ExprCall_eval C f es env
   | ExprLet n body \<Rightarrow> ExprLet_eval C n body env
   | ExprWith prev parent scope body \<Rightarrow> ExprWith_eval C scope body env
   | ExprIf c t f \<Rightarrow> ExprIf_eval C c t f env
   | ExprAssert c body \<Rightarrow> ExprAssert_eval C c body env
   | ExprOpNot x \<Rightarrow> ExprOpNot_eval C x env
   | ExprOp op e1 e2 \<Rightarrow> ExprOp_eval cfg C op e1 e2 env
   | ExprConcatStrings flag es \<Rightarrow> ExprConcatStrings_eval cfg C flag es env)"

definition no_fuel :: calls where
  "no_fuel = \<lparr>eval_c = (\<lambda>_ _ _. Timeout), force_c = (\<lambda>_ _. Timeout), call_c = (\<lambda>_ _ _. Timeout), loop_c = (\<lambda>_ _ _. Timeout),
     eq_c = (\<lambda>_ _ _. Timeout), string_c = (\<lambda>_ _ _ _ _. Timeout), deep_c = (\<lambda>_ _ _. Timeout), less_c = (\<lambda>_ _ _. Timeout),
     update_c = (\<lambda>_ _ _ _. Timeout)\<rparr>"

definition eval_step :: "eval_cfg \<Rightarrow> calls \<Rightarrow> calls" where
  "eval_step cfg C = \<lparr>eval_c = eval_body cfg C, force_c = forceValue C, call_c = callFunction cfg C, loop_c = loop_body cfg C,
     eq_c = eqValues cfg C, string_c = coerceToString cfg C, deep_c = forceValueDeep cfg C, less_c = compareValues cfg C,
     update_c = eval_for_update C\<rparr>"

primrec run_eval :: "nat \<Rightarrow> eval_cfg \<Rightarrow> calls" where
  "run_eval 0 cfg = no_fuel"
| "run_eval (Suc n) cfg = eval_step cfg (run_eval n cfg)"

end
