(* ===== verification/Nix_Logic.thy ===== *)
theory Nix_Logic
  imports Nix_Scope Nix_Eval
begin

text \<open>
  A logic for the evaluator's steps.  A fact about the heap is a token; tokens stay true while the
  heap grows.  The judgement \<open>safe k B A R P m\<close> says: in a consistent state in which the tokens \<open>A\<close>
  hold, \<open>m\<close> does nothing undefined, and if it returns \<open>x\<close> then \<open>R x\<close> and the tokens \<open>P x\<close> hold; the
  state stays consistent, and what was evaluated stays as it is, also when \<open>m\<close> throws.  \<open>k\<close> is the
  number of symbols of the program, \<open>B\<close> the environments that are being filled.
\<close>

section \<open>Consistent states\<close>

fun env_shape :: "eval_state \<Rightarrow> nat \<Rightarrow> nat list \<Rightarrow> bool" where
  "env_shape s e [] \<longleftrightarrow> e < length (heap_envs s)"
| "env_shape s e (n # sh) \<longleftrightarrow> e < length (heap_envs s) \<and> n \<le> length (env_slots (heap_envs s ! e)) \<and>
     (sh \<noteq> [] \<longrightarrow> (case env_up (heap_envs s ! e) of Some u \<Rightarrow> env_shape s u sh | None \<Rightarrow> False))"

text \<open>The attributes that a lookup can find.\<close>

definition binding_attrs :: "nat Bindings \<Rightarrow> nat Attr set" where
  "binding_attrs b = ran (attr_map b)"

definition attr_ok :: "eval_state \<Rightarrow> nat Attr \<Rightarrow> bool" where
  "attr_ok s a \<longleftrightarrow> attr_name a < length (symbols s) \<and> attr_value a < length (heap_values s)"

fun value_ok :: "nat \<Rightarrow> eval_state \<Rightarrow> nix_value \<Rightarrow> bool" where
  "value_ok k s (VAttrs b) \<longleftrightarrow> bindings_ok b \<and> (\<forall>a\<in>binding_attrs b. attr_ok s a)"
| "value_ok k s (VList xs) \<longleftrightarrow> (\<forall>x\<in>set xs. x < length (heap_values s))"
| "value_ok k s (VLambda e l) \<longleftrightarrow> (\<exists>sh. env_shape s e sh \<and> scoped_lambda l k sh)"
| "value_ok k s (VPrimOpApp f a) \<longleftrightarrow> (case unwind (VPrimOpApp f a) [] of
     Some (p, xs) \<Rightarrow> length xs < primop_arity p \<and> (\<forall>x\<in>set xs. x < length (heap_values s)) | None \<Rightarrow> False)"
| "value_ok k s (VThunk e x) \<longleftrightarrow> (\<exists>sh. env_shape s e sh \<and> scoped x k sh)"
| "value_ok k s (VApp f x) \<longleftrightarrow> f < length (heap_values s) \<and> x < length (heap_values s)"
| "value_ok k s (VFailed e r) \<longleftrightarrow> (\<forall>a\<in>set_option r. a < length (heap_values s))"
| "value_ok k s _ \<longleftrightarrow> True"

definition slots_ok :: "eval_state \<Rightarrow> nix_env \<Rightarrow> bool" where
  "slots_ok s e \<longleftrightarrow> (\<forall>x\<in>set (env_slots e). \<forall>a\<in>set_option x. a < length (heap_values s))"

text \<open>All environments are filled but those of \<open>B\<close>.\<close>

definition consistent :: "nat \<Rightarrow> nat set \<Rightarrow> eval_state \<Rightarrow> bool" where
  "consistent k B s \<longleftrightarrow> length static_symbols \<le> k \<and> k \<le> length (symbols s) \<and> take (length static_symbols) (symbols s) = static_symbols \<and> (\<forall>v\<in>set (heap_values s). value_ok k s v) \<and>
     (\<forall>e\<in>set (heap_envs s). slots_ok s e) \<and>
     (\<forall>e<length (heap_envs s). e \<notin> B \<longrightarrow> None \<notin> set (env_slots (heap_envs s ! e)))"

text \<open>The heap grows; environments keep their shape, and evaluated values stay.\<close>

definition extends :: "eval_state \<Rightarrow> eval_state \<Rightarrow> bool" where
  "extends s t \<longleftrightarrow> length (heap_values s) \<le> length (heap_values t) \<and>
     (\<forall>a<length (heap_values s). whnf (heap_values s ! a) \<longrightarrow> heap_values t ! a = heap_values s ! a) \<and>
     length (heap_envs s) \<le> length (heap_envs t) \<and>
     (\<forall>e<length (heap_envs s). env_up (heap_envs t ! e) = env_up (heap_envs s ! e) \<and>
        length (env_slots (heap_envs t ! e)) = length (env_slots (heap_envs s ! e)) \<and>
        (\<forall>d<length (env_slots (heap_envs s ! e)). env_slots (heap_envs s ! e) ! d \<noteq> None \<longrightarrow> env_slots (heap_envs t ! e) ! d \<noteq> None)) \<and>
     length (symbols s) \<le> length (symbols t)"

lemma extends_refl [simp]: "extends s s"
  by (simp add: extends_def)

lemma extends_trans:
  assumes "extends s t" "extends t u"
  shows "extends s u"
proof -
  have vals: "length (heap_values s) \<le> length (heap_values u)"
    "\<forall>a<length (heap_values s). whnf (heap_values s ! a) \<longrightarrow> heap_values u ! a = heap_values s ! a"
    using assms unfolding extends_def by (linarith, metis less_le_trans)
  have lens: "length (heap_envs s) \<le> length (heap_envs u)" "length (symbols s) \<le> length (symbols u)" "length (heap_envs s) \<le> length (heap_envs t)"
    using assms unfolding extends_def by linarith+
  have "env_up (heap_envs u ! e) = env_up (heap_envs s ! e) \<and> length (env_slots (heap_envs u ! e)) = length (env_slots (heap_envs s ! e)) \<and>
        (\<forall>d<length (env_slots (heap_envs s ! e)). env_slots (heap_envs s ! e) ! d \<noteq> None \<longrightarrow> env_slots (heap_envs u ! e) ! d \<noteq> None)"
    if "e < length (heap_envs s)" for e
  proof -
    have "e < length (heap_envs t)" using that lens(3) by linarith
    then show ?thesis using assms that unfolding extends_def by simp
  qed
  with vals lens show ?thesis unfolding extends_def by simp
qed

lemma extends_depth [simp]: "extends s (t\<lparr>callDepth := d\<rparr>) = extends s t" "extends (s\<lparr>callDepth := d\<rparr>) t = extends s t"
  by (simp_all add: extends_def)

lemma env_shape_extends: "env_shape s e sh \<Longrightarrow> extends s t \<Longrightarrow> env_shape t e sh"
  by (induction s e sh rule: env_shape.induct) (auto simp: extends_def split: option.splits)

lemma env_shape_depth [simp]: "env_shape (s\<lparr>callDepth := d\<rparr>) e sh = env_shape s e sh"
  by (induction s e sh rule: env_shape.induct) (auto split: option.splits)

lemma value_ok_extends: "value_ok k s v \<Longrightarrow> extends s t \<Longrightarrow> value_ok k t v"
proof (cases v)
  case (VLambda e l)
  then show "value_ok k s v \<Longrightarrow> extends s t \<Longrightarrow> value_ok k t v" by (auto intro: env_shape_extends)
next
  case (VThunk e x)
  then show "value_ok k s v \<Longrightarrow> extends s t \<Longrightarrow> value_ok k t v" by (auto intro: env_shape_extends)
qed (force simp: extends_def attr_ok_def split: option.splits prod.splits)+

lemma value_ok_depth [simp]: "value_ok k (s\<lparr>callDepth := d\<rparr>) v = value_ok k s v"
  by (cases v) (auto simp: attr_ok_def split: option.splits)

lemma consistent_depth [simp]: "consistent k B (s\<lparr>callDepth := d\<rparr>) = consistent k B s"
  by (simp add: consistent_def slots_ok_def)

section \<open>Tokens\<close>

datatype token = TAddr nat | TVal nix_value | TEnv nat "nat list" | TSym Symbol | TForced nat | TIs nat nix_value | TSet nat | TAttr "nat Attr"
  | TFill nat nat nat

fun holds :: "nat \<Rightarrow> eval_state \<Rightarrow> token \<Rightarrow> bool" where
  "holds k s (TAddr a) \<longleftrightarrow> a < length (heap_values s)"
| "holds k s (TVal v) \<longleftrightarrow> value_ok k s v"
| "holds k s (TEnv e sh) \<longleftrightarrow> env_shape s e sh"
| "holds k s (TSym n) \<longleftrightarrow> n < length (symbols s)"
| "holds k s (TForced a) \<longleftrightarrow> a < length (heap_values s) \<and> whnf (heap_values s ! a)"
| "holds k s (TIs a v) \<longleftrightarrow> a < length (heap_values s) \<and> whnf v \<and> heap_values s ! a = v"
| "holds k s (TSet a) \<longleftrightarrow> a < length (heap_values s) \<and> (\<exists>b. heap_values s ! a = VAttrs b)"
| "holds k s (TAttr a) \<longleftrightarrow> attr_ok s a"
| "holds k s (TFill e d n) \<longleftrightarrow> e < length (heap_envs s) \<and> length (env_slots (heap_envs s ! e)) = n \<and> d \<le> n \<and>
     (\<forall>i<d. env_slots (heap_envs s ! e) ! i \<noteq> None)"

lemma holds_extends: "holds k s t \<Longrightarrow> extends s s' \<Longrightarrow> holds k s' t"
  by (cases t) (auto simp: env_shape_extends value_ok_extends attr_ok_def extends_def whnf_def)

lemma holds_depth [simp]: "holds k (s\<lparr>callDepth := d\<rparr>) t = holds k s t"
  by (cases t) (auto simp: attr_ok_def)

definition safe :: "nat \<Rightarrow> nat set \<Rightarrow> token set \<Rightarrow> ('a \<Rightarrow> bool) \<Rightarrow> ('a \<Rightarrow> token set) \<Rightarrow> 'a ev \<Rightarrow> bool" where
  "safe k B A R P m \<longleftrightarrow> (\<forall>s. consistent k B s \<and> (\<forall>t\<in>A. holds k s t) \<longrightarrow> (case m s of
     Ret x s' \<Rightarrow> consistent k B s' \<and> extends s s' \<and> R x \<and> (\<forall>t\<in>P x. holds k s' t)
   | Throw e s' \<Rightarrow> consistent k B s' \<and> extends s s'
   | Undefined \<Rightarrow> False
   | Timeout \<Rightarrow> True))"

text \<open>A token follows from others in every consistent state.\<close>

definition entails :: "nat \<Rightarrow> token set \<Rightarrow> token \<Rightarrow> bool" where
  "entails k A t \<longleftrightarrow> (\<forall>B s. consistent k B s \<and> (\<forall>t\<in>A. holds k s t) \<longrightarrow> holds k s t)"


section \<open>Entailment\<close>

named_theorems entails_intro \<open>tokens that follow from others\<close>

lemma entailsD: "entails k A t \<Longrightarrow> consistent k B s \<Longrightarrow> \<forall>t\<in>A. holds k s t \<Longrightarrow> holds k s t"
  by (auto simp: entails_def)

lemma entails_member: "t \<in> A \<Longrightarrow> entails k A t"
  by (simp add: entails_def)

lemma entails_member_simps [entails_intro]:
  "entails k (insert t A) t" "entails k A t \<Longrightarrow> entails k (insert u A) t"
  "entails k A t \<Longrightarrow> entails k (A \<union> C) t" "entails k C t \<Longrightarrow> entails k (A \<union> C) t"
  by (auto simp: entails_def)

lemma entails_trans: "entails k A t \<Longrightarrow> (\<And>s. holds k s t \<Longrightarrow> holds k s u) \<Longrightarrow> entails k A u"
  by (auto simp: entails_def)

lemma entails_list: "entails k A (TVal (VList xs)) \<longleftrightarrow> (\<forall>x\<in>set xs. entails k A (TAddr x))"
  by (auto simp: entails_def)

lemma entails_forced: "entails k A (TForced a) \<Longrightarrow> entails k A (TAddr a)"
  by (auto simp: entails_def)

lemma entails_is: "entails k A (TIs a v) \<Longrightarrow> entails k A (TForced a)"
  by (auto simp: entails_def)

lemma entails_trivial [entails_intro]:
  "entails k A (TVal (VInt n))" "entails k A (TVal (VFloat x))" "entails k A (TVal (VBool b))" "entails k A (TVal (VString t c))"
  "entails k A (TVal (VPath p))" "entails k A (TVal VNull)" "entails k A (TVal (VPrimOp q))" "entails k A (TVal VBlackhole)"
  "entails k A (TVal (VFailed e None))"
  by (simp_all add: entails_def)

lemma entails_app: "entails k A (TAddr f) \<Longrightarrow> entails k A (TAddr x) \<Longrightarrow> entails k A (TVal (VApp f x))"
  by (auto simp: entails_def)

lemma entails_thunk: "entails k A (TEnv e sh) \<Longrightarrow> scoped x k sh \<Longrightarrow> entails k A (TVal (VThunk e x))"
  by (auto simp: entails_def)

lemma entails_lambda: "entails k A (TEnv e sh) \<Longrightarrow> scoped_lambda l k sh \<Longrightarrow> entails k A (TVal (VLambda e l))"
  by (auto simp: entails_def)

lemma entails_failed: "entails k A (TAddr r) \<Longrightarrow> entails k A (TVal (VFailed e (Some r)))"
  by (auto simp: entails_def)

lemma entails_static_symbol: "n < length static_symbols \<Longrightarrow> entails k A (TSym n)"
  by (auto simp: entails_def consistent_def)

lemma entails_symbol: "n < k \<Longrightarrow> entails k A (TSym n)"
  by (auto simp: entails_def consistent_def)

lemma entails_attr: "entails k A (TAttr a) \<longleftrightarrow> entails k A (TSym (attr_name a)) \<and> entails k A (TAddr (attr_value a))"
  by (auto simp: entails_def attr_ok_def)

lemma entails_attrs:
  "entails k A (TVal (VAttrs b)) \<Longrightarrow> a \<in> binding_attrs b \<Longrightarrow> entails k A (TAttr a)"
  "bindings_ok b \<Longrightarrow> (\<And>a. a \<in> binding_attrs b \<Longrightarrow> entails k A (TAttr a)) \<Longrightarrow> entails k A (TVal (VAttrs b))"
  by (auto simp: entails_def)

section \<open>Rules of sequencing\<close>

lemma safeI:
  assumes "\<And>s. consistent k B s \<Longrightarrow> \<forall>t\<in>A. holds k s t \<Longrightarrow> (case m s of
     Ret x s' \<Rightarrow> consistent k B s' \<and> extends s s' \<and> R x \<and> (\<forall>t\<in>P x. holds k s' t)
   | Throw e s' \<Rightarrow> consistent k B s' \<and> extends s s' | Undefined \<Rightarrow> False | Timeout \<Rightarrow> True)"
  shows "safe k B A R P m"
  using assms by (simp add: safe_def)

lemma safeD:
  assumes "safe k B A R P m" "consistent k B s" "\<forall>t\<in>A. holds k s t"
  shows "m s \<noteq> Undefined" and "m s = Ret x s' \<Longrightarrow> consistent k B s' \<and> extends s s' \<and> R x \<and> (\<forall>t\<in>P x. holds k s' t)"
    and "m s = Throw e s' \<Longrightarrow> consistent k B s' \<and> extends s s'"
  using assms by (auto simp: safe_def split: outcome.splits)

lemma safe_return: "R x \<Longrightarrow> (\<And>t. t \<in> P x \<Longrightarrow> entails k A t) \<Longrightarrow> safe k B A R P (ev_return x)"
  by (rule safeI) (auto simp: ev_return_def entails_def)

lemma safe_throw: "safe k B A R P (ev_throw e)"
  by (rule safeI) (simp add: ev_throw_def)

lemma safe_bind:
  assumes "safe k B A R P m" "\<And>x. R x \<Longrightarrow> safe k B (A \<union> P x) R' P' (f x)"
  shows "safe k B A R' P' (ev_bind m f)"
proof (rule safeI)
  fix s
  assume s: "consistent k B s" "\<forall>t\<in>A. holds k s t"
  show "case ev_bind m f s of Ret x s' \<Rightarrow> consistent k B s' \<and> extends s s' \<and> R' x \<and> (\<forall>t\<in>P' x. holds k s' t)
    | Throw e s' \<Rightarrow> consistent k B s' \<and> extends s s' | Undefined \<Rightarrow> False | Timeout \<Rightarrow> True"
  proof (cases "m s")
    case (Ret x s1)
    then have 1: "consistent k B s1" "extends s s1" "R x" "\<forall>t\<in>P x. holds k s1 t" using safeD(2) [OF assms(1) s] by auto
    then have "\<forall>t\<in>A \<union> P x. holds k s1 t" using s(2) holds_extends by blast
    from safeD [OF assms(2) [OF 1(3)] 1(1) this] Ret 1(2) show ?thesis
      by (auto simp: ev_bind_def intro: extends_trans split: outcome.splits)
  qed (use safeD [OF assms(1) s] in \<open>auto simp: ev_bind_def\<close>)
qed

lemma safe_conseq:
  assumes "safe k B A R P m" "\<And>t. t \<in> A \<Longrightarrow> entails k A' t" "\<And>x. R x \<Longrightarrow> R' x"
    "\<And>x t. R x \<Longrightarrow> t \<in> P' x \<Longrightarrow> entails k (A' \<union> P x) t"
  shows "safe k B A' R' P' m"
proof (rule safeI)
  fix s
  assume s: "consistent k B s" "\<forall>t\<in>A'. holds k s t"
  then have "\<forall>t\<in>A. holds k s t" using assms(2) by (auto simp: entails_def)
  note D = safeD [OF assms(1) s(1) this]
  show "case m s of Ret x s' \<Rightarrow> consistent k B s' \<and> extends s s' \<and> R' x \<and> (\<forall>t\<in>P' x. holds k s' t)
    | Throw e s' \<Rightarrow> consistent k B s' \<and> extends s s' | Undefined \<Rightarrow> False | Timeout \<Rightarrow> True"
  proof (cases "m s")
    case (Ret x s1)
    then have 1: "consistent k B s1" "extends s s1" "R x" "\<forall>t\<in>P x. holds k s1 t" using D by auto
    then have "\<forall>t\<in>A' \<union> P x. holds k s1 t" using s(2) holds_extends by blast
    then have "\<forall>t\<in>P' x. holds k s1 t" using assms(4) [OF 1(3)] 1(1) by (auto simp: entails_def)
    then show ?thesis using Ret 1 assms(3) by simp
  qed (use D in auto)
qed

lemma safe_post: "safe k B A R P m \<Longrightarrow> (\<And>x. R x \<Longrightarrow> R' x) \<Longrightarrow> (\<And>x t. R x \<Longrightarrow> t \<in> P' x \<Longrightarrow> entails k (A \<union> P x) t) \<Longrightarrow> safe k B A R' P' m"
  by (erule safe_conseq) (auto intro: entails_member)

lemma safe_pre: "safe k B A R P m \<Longrightarrow> (\<And>t. t \<in> A \<Longrightarrow> entails k A' t) \<Longrightarrow> safe k B A' R P m"
  by (erule safe_conseq) (auto intro: entails_member)

lemma safe_then: "safe k B A R P m \<Longrightarrow> (\<And>x. R x \<Longrightarrow> safe k B (A \<union> P x) R' P' n) \<Longrightarrow> safe k B A R' P' (ev_then m n)"
  unfolding ev_then_def by (rule safe_bind)

lemma safe_catch:
  assumes "safe k B A R P m" "\<And>e. safe k B A R P (h e)"
  shows "safe k B A R P (ev_catch m h)"
proof (rule safeI)
  fix s
  assume s: "consistent k B s" "\<forall>t\<in>A. holds k s t"
  show "case ev_catch m h s of Ret x s' \<Rightarrow> consistent k B s' \<and> extends s s' \<and> R x \<and> (\<forall>t\<in>P x. holds k s' t)
    | Throw e s' \<Rightarrow> consistent k B s' \<and> extends s s' | Undefined \<Rightarrow> False | Timeout \<Rightarrow> True"
  proof (cases "m s")
    case (Throw e s1)
    then have 1: "consistent k B s1" "extends s s1" using safeD(3) [OF assms(1) s] by auto
    then have "\<forall>t\<in>A. holds k s1 t" using s(2) holds_extends by blast
    from safeD [OF assms(2) 1(1) this] Throw 1(2) show ?thesis
      by (auto simp: ev_catch_def intro: extends_trans split: outcome.splits)
  qed (use safeD [OF assms(1) s] in \<open>auto simp: ev_catch_def\<close>)
qed

lemma safe_depth:
  assumes "safe k B A R P m"
  shows "safe k B A R P (addCallDepth cfg m)"
proof (rule safeI)
  fix s :: eval_state
  let ?s = "s\<lparr>callDepth := callDepth s + 1\<rparr>"
  assume "consistent k B s" "\<forall>t\<in>A. holds k s t"
  then have "consistent k B ?s" "\<forall>t\<in>A. holds k ?s t" by simp_all
  from safeD [OF assms this]
  show "case addCallDepth cfg m s of Ret x s' \<Rightarrow> consistent k B s' \<and> extends s s' \<and> R x \<and> (\<forall>t\<in>P x. holds k s' t)
    | Throw e s' \<Rightarrow> consistent k B s' \<and> extends s s' | Undefined \<Rightarrow> False | Timeout \<Rightarrow> True"
    using \<open>consistent k B s\<close> by (cases "m ?s") (auto simp: addCallDepth_def set_depth_def)
qed

lemma safe_map:
  assumes "\<And>x. x \<in> set xs \<Longrightarrow> safe k B A (R x) P (f x)"
  shows "safe k B A (list_all2 R xs) (\<lambda>ys. \<Union>y\<in>set ys. P y) (ev_map f xs)"
  using assms
proof (induction xs)
  case (Cons x xs)
  show ?case unfolding ev_map.simps
  proof (rule safe_bind [OF Cons.prems])
    fix y
    assume "R x y"
    show "safe k B (A \<union> P y) (list_all2 R (x # xs)) (\<lambda>ys. \<Union>y\<in>set ys. P y) (ev_bind (ev_map f xs) (\<lambda>ys. ev_return (y # ys)))"
    proof (rule safe_bind)
      show "safe k B (A \<union> P y) (list_all2 R xs) (\<lambda>ys. \<Union>y\<in>set ys. P y) (ev_map f xs)"
        by (rule safe_pre [OF Cons.IH]) (auto intro: Cons.prems entails_member)
    qed (auto intro!: safe_return entails_member simp: \<open>R x y\<close>)
  qed simp
qed (auto intro: safe_return)

lemma safe_fold:
  assumes "\<And>x s. x \<in> set xs \<Longrightarrow> I s \<Longrightarrow> safe k B (A \<union> T s) I T (f x s)" "I s" "\<And>t. t \<in> T s \<Longrightarrow> entails k A t"
  shows "safe k B A I T (ev_fold f xs s)"
proof -
  have "safe k B (A \<union> T s) I T (ev_fold f xs s)" using assms(1,2)
  proof (induction xs arbitrary: s)
    case (Cons x xs)
    show ?case unfolding ev_fold.simps
    proof (rule safe_bind [OF Cons.prems(1)])
      fix s'
      assume "I s'"
      then show "safe k B (A \<union> T s \<union> T s') I T (ev_fold f xs s')"
        by (intro safe_pre [OF Cons.IH]) (auto intro: Cons.prems entails_member)
    qed (use Cons.prems in auto)
  qed (auto intro: safe_return entails_member)
  then show ?thesis by (rule safe_pre) (auto intro: assms(3) entails_member)
qed

lemma safe_find:
  assumes "\<And>x. x \<in> set xs \<Longrightarrow> safe k B A (\<lambda>_. True) (\<lambda>_. {}) (f x)"
  shows "safe k B A (\<lambda>_. True) (\<lambda>_. {}) (ev_find f xs)"
  using assms
proof (induction xs)
  case (Cons x xs)
  then show ?case unfolding ev_find.simps by (intro safe_bind [OF Cons.prems(1)]) (auto intro: safe_return)
qed (auto intro: safe_return)

lemma safe_entails: "(\<And>s. consistent k B s \<Longrightarrow> \<forall>t\<in>A. holds k s t \<Longrightarrow> p) \<Longrightarrow> (p \<Longrightarrow> safe k B A R P m) \<Longrightarrow> safe k B A R P m"
  by (auto simp: safe_def)


section \<open>Primitive steps\<close>

lemma extends_append: "extends s (s\<lparr>heap_values := heap_values s @ vs\<rparr>)"
  by (simp add: extends_def nth_append)

lemma extends_symbols: "extends s (s\<lparr>symbols := symbols s @ ns\<rparr>)"
  by (simp add: extends_def)

lemma extends_env: "extends s (s\<lparr>heap_envs := heap_envs s @ es\<rparr>)"
  by (simp add: extends_def nth_append)

lemma slots_ok_extends: "slots_ok s e \<Longrightarrow> extends s t \<Longrightarrow> slots_ok t e"
  by (fastforce simp: slots_ok_def extends_def)

lemma consistent_append:
  assumes "consistent k B s" "value_ok k s v"
  shows "consistent k B (s\<lparr>heap_values := heap_values s @ [v]\<rparr>)"
  using assms extends_append [of s "[v]"] by (auto simp: consistent_def intro: value_ok_extends slots_ok_extends)

lemma consistent_symbols: "consistent k B s \<Longrightarrow> consistent k B (s\<lparr>symbols := symbols s @ ns\<rparr>)"
  using extends_symbols [of s ns] by (auto simp: consistent_def intro: value_ok_extends slots_ok_extends)

lemma safe_alloc: "entails k A (TVal v) \<Longrightarrow> safe k B A (\<lambda>_. True) (\<lambda>a. {TAddr a}) (alloc_value v)"
  by (rule safeI) (auto simp: alloc_value_def entails_def intro: consistent_append extends_append)

lemma safe_read: "entails k A (TAddr a) \<Longrightarrow> safe k B A (\<lambda>_. True) (\<lambda>v. {TVal v}) (read_value a)"
  by (rule safeI) (auto simp: read_value_def entails_def consistent_def)

lemma safe_read_forced: "entails k A (TForced a) \<Longrightarrow> safe k B A whnf (\<lambda>v. {TVal v, TIs a v}) (read_value a)"
  by (rule safeI) (auto simp: read_value_def entails_def consistent_def)

lemma safe_read_is: "entails k A (TIs a v) \<Longrightarrow> safe k B A (\<lambda>x. x = v) (\<lambda>_. {}) (read_value a)"
  by (rule safeI) (auto simp: read_value_def entails_def consistent_def)

lemma safe_read_up: "entails k A (TEnv e (n # sh)) \<Longrightarrow> sh \<noteq> [] \<Longrightarrow> safe k B A (\<lambda>_. True) (\<lambda>u. {TEnv u sh}) (read_up e)"
  by (rule safeI) (fastforce simp: read_up_def entails_def split: option.splits)

lemma safe_read_slot_or_null:
  "entails k A (TEnv e (n # sh)) \<Longrightarrow> d < n \<Longrightarrow> safe k B A (\<lambda>_. True) (\<lambda>x. TAddr ` set_option x) (read_slot_or_null e d)"
proof (rule safeI)
  fix s
  assume A: "entails k A (TEnv e (n # sh))" "d < n" and s: "consistent k B s" "\<forall>t\<in>A. holds k s t"
  then have e: "e < length (heap_envs s)" "d < length (env_slots (heap_envs s ! e))" using entailsD [OF A(1) s] by auto
  then have "slots_ok s (heap_envs s ! e)" "env_slots (heap_envs s ! e) ! d \<in> set (env_slots (heap_envs s ! e))"
    using s by (auto simp: consistent_def)
  then have "\<forall>a\<in>set_option (env_slots (heap_envs s ! e) ! d). a < length (heap_values s)" by (simp add: slots_ok_def)
  then show "case read_slot_or_null e d s of
      Ret x s' \<Rightarrow> consistent k B s' \<and> extends s s' \<and> True \<and> (\<forall>t\<in>TAddr ` set_option x. holds k s' t)
    | Throw e s' \<Rightarrow> consistent k B s' \<and> extends s s' | Undefined \<Rightarrow> False | Timeout \<Rightarrow> True"
    using e s by (simp add: read_slot_or_null_def)
qed

lemma safe_read_slot:
  "entails k A (TEnv e (n # sh)) \<Longrightarrow> d < n \<Longrightarrow> safe k {} A (\<lambda>_. True) (\<lambda>a. {TAddr a}) (read_slot e d)"
proof (rule safeI)
  fix s
  assume A: "entails k A (TEnv e (n # sh))" "d < n" and s: "consistent k {} s" "\<forall>t\<in>A. holds k s t"
  then have e: "e < length (heap_envs s)" "d < length (env_slots (heap_envs s ! e))" using entailsD [OF A(1) s] by auto
  then have slots: "slots_ok s (heap_envs s ! e)" "env_slots (heap_envs s ! e) ! d \<in> set (env_slots (heap_envs s ! e))"
    "None \<notin> set (env_slots (heap_envs s ! e))"
    using s by (auto simp: consistent_def)
  then obtain a where "env_slots (heap_envs s ! e) ! d = Some a" "a < length (heap_values s)"
    by (cases "env_slots (heap_envs s ! e) ! d") (auto simp: slots_ok_def)
  then show "case read_slot e d s of
      Ret x s' \<Rightarrow> consistent k {} s' \<and> extends s s' \<and> True \<and> (\<forall>t\<in>{TAddr x}. holds k s' t)
    | Throw e s' \<Rightarrow> consistent k {} s' \<and> extends s s' | Undefined \<Rightarrow> False | Timeout \<Rightarrow> True"
    using e s by (simp add: read_slot_def ev_bind_def read_slot_or_null_def non_null_def ev_return_def)
qed

lemma takeWhile_length: "x \<in> set xs \<Longrightarrow> length (takeWhile (\<lambda>y. y \<noteq> x) xs) < length xs"
  by (induction xs) auto

lemma safe_create_symbol: "safe k B A (\<lambda>_. True) (\<lambda>n. {TSym n}) (create_symbol t)"
proof (rule safeI)
  fix s
  assume s: "consistent k B s"
  have "length (takeWhile (\<lambda>x. x \<noteq> t) (symbols s)) < length (symbols s)" if "t \<in> set (symbols s)"
    by (rule takeWhile_length [OF that])
  then show "case create_symbol t s of Ret x s' \<Rightarrow> consistent k B s' \<and> extends s s' \<and> True \<and> (\<forall>t\<in>{TSym x}. holds k s' t)
    | Throw e s' \<Rightarrow> consistent k B s' \<and> extends s s' | Undefined \<Rightarrow> False | Timeout \<Rightarrow> True"
    using s by (auto simp: create_symbol_def consistent_symbols extends_symbols)
qed

lemma safe_symbol_name: "entails k A (TSym n) \<Longrightarrow> safe k B A (\<lambda>_. True) (\<lambda>_. {}) (symbol_name n)"
  by (rule safeI) (auto simp: symbol_name_def entails_def)

lemma safe_non_null: "x \<noteq> None \<Longrightarrow> R (the x) \<Longrightarrow> (\<And>t. t \<in> P (the x) \<Longrightarrow> entails k A t) \<Longrightarrow> safe k B A R P (non_null x)"
  by (cases x) (auto simp: non_null_def intro: safe_return)

section \<open>Attribute sets\<close>

lemma entails_bindings_ok: "entails k A (TVal (VAttrs b)) \<Longrightarrow> (bindings_ok b \<Longrightarrow> safe k B A R P m) \<Longrightarrow> safe k B A R P m"
  by (rule safe_entails [where p = "bindings_ok b"]) (auto simp: entails_def)

lemma get_attr_binding: "bindings_ok b \<Longrightarrow> get_attr b n = Some a \<Longrightarrow> a \<in> binding_attrs b \<and> attr_name a = n"
  using get_attr_map [of b n] attr_map_name [of b n a] by (auto simp: binding_attrs_def ran_def)

lemma entails_get_attr:
  "entails k A (TVal (VAttrs b)) \<Longrightarrow> get_attr b n = Some a \<Longrightarrow> bindings_ok b \<Longrightarrow> entails k A (TAddr (attr_value a))"
  using get_attr_binding entails_attrs(1) entails_attr by blast

lemma safe_entries:
  assumes "entails k A (TVal (VAttrs b))"
  shows "safe k B A (\<lambda>as. sorted_wrt (<) (map attr_name as) \<and> length as = bindings_size b \<and>
      (\<forall>n a. get_attr b n = Some a \<longleftrightarrow> a \<in> set as \<and> attr_name a = n)) (\<lambda>as. TAttr ` set as) (attr_entries b)"
proof (rule entails_bindings_ok [OF assms])
  assume ok: "bindings_ok b"
  obtain xs where xs: "entries b = Some xs" "sorted_wrt (<) (map attr_name xs)" "\<forall>k. chunk_map xs k = attr_map b k"
    using entries_ok [OF ok] by blast
  have get: "get_attr b n = Some a \<longleftrightarrow> a \<in> set xs \<and> attr_name a = n" for n a
    using get_attr_map [OF ok, of n] xs(3) chunk_map_Some [OF xs(2), of n a] by simp
  show ?thesis unfolding attr_entries_def
  proof (rule safe_non_null)
    fix t
    assume "t \<in> TAttr ` set (the (entries b))"
    then obtain a where "t = TAttr a" "get_attr b (attr_name a) = Some a" using xs(1) get by auto
    then show "entails k A t" using get_attr_binding [OF ok] entails_attrs(1) [OF assms] by blast
  qed (use xs get entries_size [OF ok] in auto)
qed

lemma ran_chunk_map: "ran (chunk_map as) \<subseteq> set as"
  by (auto simp: ran_def dest!: map_of_SomeD)

lemma safe_finish_attrs:
  assumes "distinct (map attr_name as)" "\<And>a. a \<in> set as \<Longrightarrow> entails k A (TAttr a)"
  shows "safe k B A whnf (\<lambda>v. {TVal v}) (finish_attrs as)"
proof -
  obtain b where b: "finish (push_back_all as) = Some b" "bindings_ok b" "attr_map b = chunk_map as"
    using finish_ok [OF assms(1)] by blast
  then have "entails k A (TVal (VAttrs b))"
    using ran_chunk_map [of as] assms(2) by (intro entails_attrs(2)) (auto simp: binding_attrs_def)
  then show ?thesis unfolding finish_attrs_def
    by (intro safe_bind [where R = "\<lambda>x. x = b" and P = "\<lambda>_. {}"] safe_non_null)
      (auto simp: b intro!: safe_return entails_intro simp: whnf_def)
qed

lemma safe_sorted_attrs:
  assumes "sorted_wrt (<) (map attr_name as)" "\<And>a. a \<in> set as \<Longrightarrow> entails k A (TAttr a)"
  shows "safe k B A whnf (\<lambda>v. {TVal v}) (sorted_attrs as)"
proof -
  have b: "alreadySorted (push_back_all as) = Some (push_back_all as)"
    by (simp add: alreadySorted_def finishSizeIfNecessary_def push_back_all_def)
  have "bindings_ok (push_back_all as) \<and> attr_map (push_back_all as) = chunk_map as" by (rule push_back_all_ok [OF assms(1)])
  then have "entails k A (TVal (VAttrs (push_back_all as)))"
    using ran_chunk_map [of as] assms(2) by (intro entails_attrs(2)) (auto simp: binding_attrs_def)
  then show ?thesis unfolding sorted_attrs_def
    by (intro safe_bind [where R = "\<lambda>x. x = push_back_all as" and P = "\<lambda>_. {}"] safe_non_null)
      (auto simp: b intro!: safe_return entails_intro simp: whnf_def)
qed

section \<open>Building environments\<close>

text \<open>Between the allocation of an environment and its last slot nothing is thrown.\<close>

definition quiet :: "'a ev \<Rightarrow> bool" where
  "quiet m \<longleftrightarrow> (\<forall>s e s'. m s \<noteq> Throw e s')"

named_theorems quiet_intro \<open>computations that throw nothing\<close>

lemma quiet_steps [quiet_intro]:
  "quiet (ev_return x)" "quiet (alloc_value v)" "quiet (alloc_env u n)" "quiet (read_up e)" "quiet (read_slot_or_null e d)"
  "quiet (non_null y)" "quiet (write_slot e d a)"
  by (auto simp: quiet_def ev_return_def alloc_value_def alloc_env_def read_up_def read_slot_or_null_def non_null_def ev_undefined_def
      write_slot_def split: option.split)

lemma quiet_bind [quiet_intro]: "quiet m \<Longrightarrow> (\<And>x. quiet (f x)) \<Longrightarrow> quiet (ev_bind m f)"
  by (auto simp: quiet_def ev_bind_def split: outcome.split)

lemma quiet_then [quiet_intro]: "quiet m \<Longrightarrow> quiet n \<Longrightarrow> quiet (ev_then m n)"
  unfolding ev_then_def by (rule quiet_bind)

lemma quiet_fill [quiet_intro]: "(\<And>m. m \<in> set ms \<Longrightarrow> quiet m) \<Longrightarrow> quiet (fill_slots e d ms)"
  by (induction e d ms rule: fill_slots.induct) (auto intro!: quiet_intro)

lemma quiet_ups [quiet_intro]: "quiet (env_ups l e)"
  by (induction l arbitrary: e) (auto intro!: quiet_intro)

lemma quiet_if [quiet_intro]: "quiet m \<Longrightarrow> quiet n \<Longrightarrow> quiet (if b then m else n)"
  by simp

lemma quiet_option [quiet_intro]: "quiet m \<Longrightarrow> (\<And>x. quiet (f x)) \<Longrightarrow> quiet (case_option m f y)"
  by (cases y) simp_all

lemma quiet_lookup [quiet_intro]: "quiet (lookupVar_noEval e w l d)"
  unfolding lookupVar_noEval_def by (intro quiet_intro)

lemma quiet_maybeThunk [quiet_intro]: "quiet (maybeThunk x e)"
  unfolding maybeThunk_def by (cases x; simp only: expr.case; (intro quiet_intro)?; (simp split: list.split; intro conjI impI allI quiet_intro)?)

lemma write_slot_state:
  assumes "consistent k B s" "e < length (heap_envs s)" "d < length (env_slots (heap_envs s ! e))" "a < length (heap_values s)"
  shows "\<exists>s'. write_slot e d a s = Ret () s' \<and> consistent k B s' \<and> extends s s' \<and> env_slots (heap_envs s' ! e) = (env_slots (heap_envs s ! e))[d := Some a]"
proof -
  let ?new = "(heap_envs s ! e)\<lparr>env_slots := (env_slots (heap_envs s ! e))[d := Some a]\<rparr>"
  let ?s = "s\<lparr>heap_envs := (heap_envs s)[e := ?new]\<rparr>"
  have ext: "extends s ?s" using assms by (auto simp: extends_def nth_list_update)
  have slots: "set (env_slots ?new) \<subseteq> insert (Some a) (set (env_slots (heap_envs s ! e)))" by (simp add: set_update_subset_insert)
  have "slots_ok ?s x" if "x \<in> set (heap_envs ?s)" for x
  proof -
    have old: "slots_ok s y" if "y \<in> set (heap_envs s)" for y using assms(1) that by (simp add: consistent_def)
    have "x = ?new \<or> x \<in> set (heap_envs s)" using that set_update_subset_insert [of "heap_envs s" e ?new] by auto
    then have "slots_ok s x" using old [OF nth_mem [OF assms(2)]] old slots assms(4) unfolding slots_ok_def by (elim disjE) (simp, blast, simp)
    then show ?thesis by (rule slots_ok_extends [OF _ ext])
  qed
  moreover have "None \<notin> set (env_slots (heap_envs ?s ! i))" if "i < length (heap_envs ?s)" "i \<notin> B" for i
    using that assms(1,2) slots by (cases "i = e") (auto simp: consistent_def)
  moreover have "value_ok k ?s v" if "v \<in> set (heap_values ?s)" for v
    using that assms(1) value_ok_extends [OF _ ext, of k v] by (simp add: consistent_def)
  ultimately have "consistent k B ?s" using assms(1) by (simp add: consistent_def)
  with ext assms(2,3) show ?thesis by (simp add: write_slot_def)
qed

lemma safe_write_slot:
  "entails k A (TEnv e (n # sh)) \<Longrightarrow> d < n \<Longrightarrow> entails k A (TAddr a) \<Longrightarrow> safe k B A (\<lambda>_. True) (\<lambda>_. {}) (write_slot e d a)"
proof (rule safeI)
  fix s
  assume A: "entails k A (TEnv e (n # sh))" "d < n" "entails k A (TAddr a)" and s: "consistent k B s" "\<forall>t\<in>A. holds k s t"
  then have "e < length (heap_envs s)" "d < length (env_slots (heap_envs s ! e))" "a < length (heap_values s)"
    using entailsD [OF A(1) s] entailsD [OF A(3) s] by auto
  from write_slot_state [OF s(1) this] show "case write_slot e d a s of
      Ret x s' \<Rightarrow> consistent k B s' \<and> extends s s' \<and> True \<and> (\<forall>t\<in>{}. holds k s' t)
    | Throw e s' \<Rightarrow> consistent k B s' \<and> extends s s' | Undefined \<Rightarrow> False | Timeout \<Rightarrow> True" by auto
qed

lemma safe_fill_slot:
  "entails k A (TFill e d n) \<Longrightarrow> d < n \<Longrightarrow> entails k A (TAddr a) \<Longrightarrow> safe k B A (\<lambda>_. True) (\<lambda>_. {TFill e (Suc d) n}) (write_slot e d a)"
proof (rule safeI)
  fix s
  assume A: "entails k A (TFill e d n)" "d < n" "entails k A (TAddr a)" and s: "consistent k B s" "\<forall>t\<in>A. holds k s t"
  then have e: "e < length (heap_envs s)" "d < length (env_slots (heap_envs s ! e))" "a < length (heap_values s)"
      "length (env_slots (heap_envs s ! e)) = n" "\<forall>i<d. env_slots (heap_envs s ! e) ! i \<noteq> None"
    using entailsD [OF A(1) s] entailsD [OF A(3) s] by auto
  from write_slot_state [OF s(1) e(1-3)] e show "case write_slot e d a s of
      Ret x s' \<Rightarrow> consistent k B s' \<and> extends s s' \<and> True \<and> (\<forall>t\<in>{TFill e (Suc d) n}. holds k s' t)
    | Throw e s' \<Rightarrow> consistent k B s' \<and> extends s s' | Undefined \<Rightarrow> False | Timeout \<Rightarrow> True"
    by (auto simp: nth_list_update extends_def less_Suc_eq)
qed

lemma safe_fill_slots:
  "entails k A (TFill e d n) \<Longrightarrow> d + length ms \<le> n \<Longrightarrow> (\<And>m. m \<in> set ms \<Longrightarrow> safe k B A (\<lambda>_. True) (\<lambda>a. {TAddr a}) m) \<Longrightarrow>
   safe k B A (\<lambda>as. length as = length ms) (\<lambda>as. insert (TFill e (d + length ms) n) (TAddr ` set as)) (fill_slots e d ms)"
proof (induction ms arbitrary: A d)
  case (Cons m ms)
  show ?case unfolding fill_slots.simps
  proof (rule safe_bind [OF Cons.prems(3)])
    show "m \<in> set (m # ms)" by simp
    fix a
    let ?A = "A \<union> {TAddr a}"
    show "safe k B ?A (\<lambda>as. length as = length (m # ms)) (\<lambda>as. insert (TFill e (d + length (m # ms)) n) (TAddr ` set as))
        (ev_then (write_slot e d a) (ev_bind (fill_slots e (d + 1) ms) (\<lambda>as. ev_return (a # as))))"
    proof (rule safe_then [OF safe_fill_slot])
      show "entails k ?A (TFill e d n)" "entails k ?A (TAddr a)" "d < n" using Cons.prems(1,2) by (auto intro: entails_intro)
      let ?B = "?A \<union> {TFill e (Suc d) n}"
      have "safe k B ?B (\<lambda>as. length as = length ms) (\<lambda>as. insert (TFill e (d + 1 + length ms) n) (TAddr ` set as)) (fill_slots e (d + 1) ms)"
      proof (rule Cons.IH)
        show "safe k B ?B (\<lambda>_. True) (\<lambda>a. {TAddr a}) m'" if "m' \<in> set ms" for m'
          by (rule safe_pre [OF Cons.prems(3)]) (use that in \<open>auto intro: entails_member\<close>)
      qed (use Cons.prems(2) in \<open>auto intro: entails_intro\<close>)
      then show "safe k B ?B (\<lambda>as. length as = length (m # ms)) (\<lambda>as. insert (TFill e (d + length (m # ms)) n) (TAddr ` set as))
          (ev_bind (fill_slots e (d + 1) ms) (\<lambda>as. ev_return (a # as)))"
        by (rule safe_bind) (auto intro!: safe_return intro: entails_member)
    qed
  qed
qed (auto intro: safe_return)

lemma alloc_env_state:
  assumes "consistent k B s" "env_shape s u sh"
  obtains s' where "alloc_env (Some u) n s = Ret (length (heap_envs s)) s'" "consistent k (insert (length (heap_envs s)) B) s'" "extends s s'"
    "env_shape s' (length (heap_envs s)) (n # sh)" "holds k s' (TFill (length (heap_envs s)) 0 n)"
proof
  let ?s = "s\<lparr>heap_envs := heap_envs s @ [\<lparr>env_up = Some u, env_slots = replicate n None\<rparr>]\<rparr>"
  show ext: "extends s ?s" by (rule extends_env)
  show "consistent k (insert (length (heap_envs s)) B) ?s" using assms(1)
    by (auto simp: consistent_def nth_append slots_ok_def intro: value_ok_extends [OF _ ext])
  show "env_shape ?s (length (heap_envs s)) (n # sh)" using env_shape_extends [OF assms(2) ext] by simp
qed (simp_all add: alloc_env_def)

lemma filled_consistent:
  assumes "consistent k (insert e B) s" "holds k s (TFill e n n)"
  shows "consistent k B s"
proof -
  have "None \<notin> set (env_slots (heap_envs s ! e))" using assms(2) by (auto simp: in_set_conv_nth)
  then show ?thesis using assms(1) by (auto simp: consistent_def)
qed

text \<open>An environment that is allocated, filled without a throw, and used.\<close>

lemma safe_new_env:
  assumes up: "entails k A (TEnv u sh)" and quiet: "\<And>e. quiet (m e)"
    and fill: "\<And>e. safe k (insert e B) (A \<union> {TEnv e (n # sh), TFill e 0 n}) R (\<lambda>x. insert (TFill e n n) (P e x)) (m e)"
    and cont: "\<And>e x. R x \<Longrightarrow> safe k B (A \<union> insert (TEnv e (n # sh)) (P e x)) R' P' (c e x)"
  shows "safe k B A R' P' (ev_bind (alloc_env (Some u) n) (\<lambda>e. ev_bind (m e) (c e)))"
proof (rule safeI)
  fix s
  assume s: "consistent k B s" "\<forall>t\<in>A. holds k s t"
  let ?e = "length (heap_envs s)"
  have "env_shape s u sh" using entailsD [OF up s] by simp
  from alloc_env_state [OF s(1) this, of n] obtain s1 where s1: "alloc_env (Some u) n s = Ret ?e s1" "consistent k (insert ?e B) s1" "extends s s1"
    "env_shape s1 ?e (n # sh)" "holds k s1 (TFill ?e 0 n)" by blast
  have A1: "\<forall>t\<in>A \<union> {TEnv ?e (n # sh), TFill ?e 0 n}. holds k s1 t" using s(2) holds_extends [OF _ s1(3)] s1(4,5) by auto
  note D = safeD [OF fill s1(2) A1]
  show "case ev_bind (alloc_env (Some u) n) (\<lambda>e. ev_bind (m e) (c e)) s of
      Ret x s' \<Rightarrow> consistent k B s' \<and> extends s s' \<and> R' x \<and> (\<forall>t\<in>P' x. holds k s' t)
    | Throw e s' \<Rightarrow> consistent k B s' \<and> extends s s' | Undefined \<Rightarrow> False | Timeout \<Rightarrow> True"
  proof (cases "m ?e s1")
    case (Ret x s2)
    then have 2: "consistent k (insert ?e B) s2" "extends s1 s2" "R x" "\<forall>t\<in>insert (TFill ?e n n) (P ?e x). holds k s2 t" using D(2) by auto
    have "consistent k B s2" by (rule filled_consistent [OF 2(1)], rule bspec [OF 2(4)], rule insertI1)
    moreover have "\<forall>t\<in>A \<union> insert (TEnv ?e (n # sh)) (P ?e x). holds k s2 t" using A1 2(4) holds_extends [OF _ 2(2)] by blast
    ultimately have "consistent k B s2 \<and> (\<forall>t\<in>A \<union> insert (TEnv ?e (n # sh)) (P ?e x). holds k s2 t)" by simp
    then have E: "case c ?e x s2 of Ret x s' \<Rightarrow> consistent k B s' \<and> extends s2 s' \<and> R' x \<and> (\<forall>t\<in>P' x. holds k s' t)
      | Throw e s' \<Rightarrow> consistent k B s' \<and> extends s2 s' | Undefined \<Rightarrow> False | Timeout \<Rightarrow> True"
      using cont [OF 2(3), of ?e] unfolding safe_def by simp
    have "extends s s2" by (rule extends_trans [OF s1(3) 2(2)])
    note ext = extends_trans [OF this]
    have "ev_bind (alloc_env (Some u) n) (\<lambda>e. ev_bind (m e) (c e)) s = c ?e x s2" by (simp only: ev_bind_def s1(1) Ret outcome.case)
    with E show ?thesis by (simp only:) (cases "c ?e x s2"; simp add: ext)
  next
    case (Throw x s2)
    then show ?thesis using quiet [of ?e] by (simp add: quiet_def)
  next
    case Undefined
    then show ?thesis using D(1) by simp
  next
    case Timeout
    then show ?thesis by (simp add: ev_bind_def s1(1))
  qed
qed

end
