(* ===== verification/Nix_Fuel.thy ===== *)
theory Nix_Fuel
  imports Nix_Eval
begin

text \<open>
  More fuel never changes a result of the evaluator: the operations are monotone in the functions
  they call, in the order in which running out of fuel is below everything.  So a result is the
  result, whatever the bound was.
\<close>

named_theorems mono_ev \<open>monotonicity of computations in the calls they make\<close>

definition le_ev :: "'a ev \<Rightarrow> 'a ev \<Rightarrow> bool" where
  "le_ev m m' \<longleftrightarrow> (\<forall>s. m s = Timeout \<or> m s = m' s)"

definition calls_le :: "calls \<Rightarrow> calls \<Rightarrow> bool" where
  "calls_le C D \<longleftrightarrow> (\<forall>e x. le_ev (eval_c C e x) (eval_c D e x)) \<and> (\<forall>a. le_ev (force_c C a) (force_c D a)) \<and>
     (\<forall>f xs. le_ev (call_c C f xs) (call_c D f xs)) \<and> (\<forall>v xs. le_ev (loop_c C v xs) (loop_c D v xs)) \<and>
     (\<forall>x y. le_ev (eq_c C x y) (eq_c D x y)) \<and> (\<forall>r p q t. le_ev (string_c C r p q t) (string_c D r p q t)) \<and>
     (\<forall>a xs. le_ev (deep_c C a xs) (deep_c D a xs)) \<and> (\<forall>a b. le_ev (less_c C a b) (less_c D a b)) \<and>
     (\<forall>e x q. le_ev (update_c C e x q) (update_c D e x q))"

lemma le_ev_refl [mono_ev]: "le_ev m m"
  by (simp add: le_ev_def)

lemma calls_le_mono [mono_ev]:
  assumes "calls_le C D"
  shows "le_ev (eval_c C e x) (eval_c D e x)" "le_ev (force_c C a) (force_c D a)" "le_ev (call_c C f xs) (call_c D f xs)"
    "le_ev (loop_c C v xs) (loop_c D v xs)" "le_ev (eq_c C r r') (eq_c D r r')" "le_ev (string_c C r p q t) (string_c D r p q t)"
    "le_ev (deep_c C a xs) (deep_c D a xs)" "le_ev (less_c C a b) (less_c D a b)" "le_ev (update_c C e x bs) (update_c D e x bs)"
  using assms by (auto simp: calls_le_def)

section \<open>Sequencing and case distinction\<close>

lemma bind_mono [mono_ev]:
  assumes "le_ev m m'" "\<And>x. le_ev (k x) (k' x)"
  shows "le_ev (ev_bind m k) (ev_bind m' k')"
  unfolding le_ev_def
proof
  fix s
  have "m s = Timeout \<or> m s = m' s" using assms(1) by (simp add: le_ev_def)
  moreover have "\<forall>x s. k x s = Timeout \<or> k x s = k' x s" using assms(2) by (simp add: le_ev_def)
  ultimately show "ev_bind m k s = Timeout \<or> ev_bind m k s = ev_bind m' k' s"
    by (auto simp: ev_bind_def split: outcome.splits) metis
qed

lemma then_mono [mono_ev]: "le_ev m m' \<Longrightarrow> le_ev n n' \<Longrightarrow> le_ev (ev_then m n) (ev_then m' n')"
  unfolding ev_then_def by (intro bind_mono)

lemma catch_mono [mono_ev]:
  assumes "le_ev m m'" "\<And>x. le_ev (h x) (h' x)"
  shows "le_ev (ev_catch m h) (ev_catch m' h')"
  unfolding le_ev_def
proof
  fix s
  have "m s = Timeout \<or> m s = m' s" using assms(1) by (simp add: le_ev_def)
  moreover have "\<forall>x s. h x s = Timeout \<or> h x s = h' x s" using assms(2) by (simp add: le_ev_def)
  ultimately show "ev_catch m h s = Timeout \<or> ev_catch m h s = ev_catch m' h' s"
    by (auto simp: ev_catch_def split: outcome.splits) metis
qed

lemma depth_mono [mono_ev]:
  assumes "le_ev m m'"
  shows "le_ev (addCallDepth cfg m) (addCallDepth cfg m')"
  unfolding le_ev_def
proof
  fix s :: eval_state
  let ?s = "s\<lparr>callDepth := callDepth s + 1\<rparr>"
  have "m ?s = Timeout \<or> m ?s = m' ?s" using assms by (simp add: le_ev_def)
  then show "addCallDepth cfg m s = Timeout \<or> addCallDepth cfg m s = addCallDepth cfg m' s"
    by (auto simp: addCallDepth_def set_depth_def)
qed

lemma map_mono [mono_ev]: "(\<And>x. le_ev (f x) (f' x)) \<Longrightarrow> le_ev (ev_map f xs) (ev_map f' xs)"
  by (induction xs) (auto intro!: bind_mono le_ev_refl)

lemma fold_mono [mono_ev]: "(\<And>x s. le_ev (f x s) (f' x s)) \<Longrightarrow> le_ev (ev_fold f xs s) (ev_fold f' xs s)"
  by (induction xs arbitrary: s) (auto intro!: bind_mono le_ev_refl)

lemma find_mono [mono_ev]: "(\<And>x. le_ev (f x) (f' x)) \<Longrightarrow> le_ev (ev_find f xs) (ev_find f' xs)"
  by (induction xs) (auto intro!: bind_mono le_ev_refl)

lemma if_mono [mono_ev]: "le_ev m m' \<Longrightarrow> le_ev n n' \<Longrightarrow> le_ev (if b then m else n) (if b then m' else n')"
  by simp

lemma let_mono [mono_ev]: "(\<And>x. le_ev (f x) (f' x)) \<Longrightarrow> le_ev (Let x f) (Let x f')"
  by simp

lemma option_mono [mono_ev]:
  "le_ev m m' \<Longrightarrow> (\<And>x. le_ev (f x) (f' x)) \<Longrightarrow> le_ev (case_option m f x) (case_option m' f' x)"
  by (cases x) simp_all

lemma list_mono [mono_ev]:
  "le_ev m m' \<Longrightarrow> (\<And>x xs. le_ev (f x xs) (f' x xs)) \<Longrightarrow> le_ev (case_list m f xs) (case_list m' f' xs)"
  by (cases xs) simp_all

lemma prod_mono [mono_ev]: "(\<And>x y. le_ev (f x y) (f' x y)) \<Longrightarrow> le_ev (case_prod f p) (case_prod f' p)"
  by (cases p) simp

lemma sum_mono [mono_ev]:
  "(\<And>x. le_ev (f x) (f' x)) \<Longrightarrow> (\<And>x. le_ev (g x) (g' x)) \<Longrightarrow> le_ev (case_sum f g p) (case_sum f' g' p)"
  by (cases p) simp_all

lemma ref_mono [mono_ev]:
  "(\<And>v. le_ev (f v) (f' v)) \<Longrightarrow> (\<And>a. le_ev (g a) (g' a)) \<Longrightarrow> le_ev (case_value_ref f g r) (case_value_ref f' g' r)"
  by (cases r) simp_all

lemma elem_mono [mono_ev]:
  "(\<And>n. le_ev (f n) (f' n)) \<Longrightarrow> (\<And>e. le_ev (g e) (g' e)) \<Longrightarrow> le_ev (case_attr_path_elem f g i) (case_attr_path_elem f' g' i)"
  by (cases i) simp_all

lemma value_mono [mono_ev]:
  assumes "\<And>n. le_ev (f1 n) (g1 n)" "\<And>x. le_ev (f2 x) (g2 x)" "\<And>b. le_ev (f3 b) (g3 b)" "\<And>s c. le_ev (f4 s c) (g4 s c)"
    "\<And>p. le_ev (f5 p) (g5 p)" "le_ev f6 g6" "\<And>b. le_ev (f7 b) (g7 b)" "\<And>xs. le_ev (f8 xs) (g8 xs)" "\<And>e l. le_ev (f9 e l) (g9 e l)"
    "\<And>p. le_ev (f10 p) (g10 p)" "\<And>f a. le_ev (f11 f a) (g11 f a)" "\<And>e x. le_ev (f12 e x) (g12 e x)" "le_ev f13 g13"
    "\<And>f a. le_ev (f14 f a) (g14 f a)" "\<And>e r. le_ev (f15 e r) (g15 e r)"
  shows "le_ev (case_nix_value f1 f2 f3 f4 f5 f6 f7 f8 f9 f10 f11 f12 f13 f14 f15 v)
    (case_nix_value g1 g2 g3 g4 g5 g6 g7 g8 g9 g10 g11 g12 g13 g14 g15 v)"
  using assms by (cases v) simp_all

lemma op_mono [mono_ev]:
  assumes "le_ev f1 g1" "le_ev f2 g2" "le_ev f3 g3" "le_ev f4 g4" "le_ev f5 g5" "le_ev f6 g6" "le_ev f7 g7"
  shows "le_ev (case_bin_op f1 f2 f3 f4 f5 f6 f7 op) (case_bin_op g1 g2 g3 g4 g5 g6 g7 op)"
  using assms by (cases op) simp_all

section \<open>The helpers\<close>

lemma force_at_mono [mono_ev]: "calls_le C D \<Longrightarrow> le_ev (force_at C a) (force_at D a)"
  unfolding force_at_def by (intro mono_ev)

lemma force_ref_mono [mono_ev]: "calls_le C D \<Longrightarrow> le_ev (force_ref C r) (force_ref D r)"
  unfolding force_ref_def by (intro mono_ev)

lemma force_tmp_mono [mono_ev]:
  "calls_le C D \<Longrightarrow> (\<And>v. le_ev (k v) (k' v)) \<Longrightarrow> le_ev (force_tmp C v k) (force_tmp D v k')"
  unfolding force_tmp_def by (intro mono_ev)

lemma forces_mono [mono_ev]:
  assumes "calls_le C D"
  shows "le_ev (forceAttrs C a) (forceAttrs D a)" "le_ev (forceList C a) (forceList D a)" "le_ev (forceInt C a) (forceInt D a)"
    "le_ev (forceFloat cfg C a) (forceFloat cfg D a)" "le_ev (forceFunction C a) (forceFunction D a)"
    "le_ev (forceString C a) (forceString D a)" "le_ev (forceStringNoCtx C a) (forceStringNoCtx D a)"
    "le_ev (evalBool C e env) (evalBool D e env)" "le_ev (evalAttrs C e env) (evalAttrs D e env)"
    "le_ev (call_bool C f xs) (call_bool D f xs)" "le_ev (getName C i env) (getName D i env)"
  unfolding forceAttrs_def forceList_def forceInt_def forceFloat_def forceFunction_def forceString_def forceStringNoCtx_def
    evalBool_def evalAttrs_def call_bool_def getName_def
  using assms by (intro mono_ev; assumption?)+

lemma lookup_with_mono: "calls_le C D \<Longrightarrow> le_ev (lookup_with w C name env) (lookup_with w D name env)"
proof (induction w arbitrary: env)
  case (WithRef prev parent)
  show ?case
    by (cases parent; simp cong del: option.case_cong_weak; intro mono_ev WithRef.IH WithRef.prems; simp)
qed

lemma lookupVar_mono [mono_ev]: "calls_le C D \<Longrightarrow> le_ev (lookupVar C env name w l d) (lookupVar D env name w l d)"
  unfolding lookupVar_def by (intro mono_ev lookup_with_mono)


lemma concatLists_mono [mono_ev]: "calls_le C D \<Longrightarrow> le_ev (concatLists C rs) (concatLists D rs)"
  unfolding concatLists_def by (intro mono_ev)

section \<open>The builtins\<close>

lemma foldl_loop_mono [mono_ev]: "calls_le C D \<Longrightarrow> le_ev (foldl_loop C f cur xs) (foldl_loop D f cur xs)"
  by (induction C f cur xs rule: foldl_loop.induct) (simp_all, (intro mono_ev; assumption)+)

lemma prim_typeOf_mono [mono_ev]: "calls_le C D \<Longrightarrow> le_ev (prim_typeOf C a) (prim_typeOf D a)"
  unfolding prim_typeOf_def by (intro mono_ev)

lemma prim_isType_mono [mono_ev]: "calls_le C D \<Longrightarrow> le_ev (prim_isType t C a) (prim_isType t D a)"
  unfolding prim_isType_def by (intro mono_ev)

lemma prim_abort_mono [mono_ev]: "calls_le C D \<Longrightarrow> le_ev (prim_abort C a) (prim_abort D a)"
  unfolding prim_abort_def by (intro mono_ev)

lemma prim_throw_mono [mono_ev]: "calls_le C D \<Longrightarrow> le_ev (prim_throw C a) (prim_throw D a)"
  unfolding prim_throw_def by (intro mono_ev)

lemma prim_addErrorContext_mono [mono_ev]: "calls_le C D \<Longrightarrow> le_ev (prim_addErrorContext C a b) (prim_addErrorContext D a b)"
  unfolding prim_addErrorContext_def by (intro mono_ev)

lemma prim_tryEval_mono [mono_ev]: "calls_le C D \<Longrightarrow> le_ev (prim_tryEval C a) (prim_tryEval D a)"
  unfolding prim_tryEval_def by (intro mono_ev)

lemma prim_seq_mono [mono_ev]: "calls_le C D \<Longrightarrow> le_ev (prim_seq C a b) (prim_seq D a b)"
  unfolding prim_seq_def by (intro mono_ev)

lemma prim_deepSeq_mono [mono_ev]: "calls_le C D \<Longrightarrow> le_ev (prim_deepSeq C a b) (prim_deepSeq D a b)"
  unfolding prim_deepSeq_def by (intro mono_ev)

lemma prim_getAttr_mono [mono_ev]: "calls_le C D \<Longrightarrow> le_ev (prim_getAttr C a b) (prim_getAttr D a b)"
  unfolding prim_getAttr_def by (intro mono_ev)

lemma prim_hasAttr_mono [mono_ev]: "calls_le C D \<Longrightarrow> le_ev (prim_hasAttr C a b) (prim_hasAttr D a b)"
  unfolding prim_hasAttr_def by (intro mono_ev)

lemma prim_attrNames_mono [mono_ev]: "calls_le C D \<Longrightarrow> le_ev (prim_attrNames C a) (prim_attrNames D a)"
  unfolding prim_attrNames_def by (intro mono_ev)

lemma prim_attrValues_mono [mono_ev]: "calls_le C D \<Longrightarrow> le_ev (prim_attrValues C a) (prim_attrValues D a)"
  unfolding prim_attrValues_def by (intro mono_ev)

lemma prim_removeAttrs_mono [mono_ev]: "calls_le C D \<Longrightarrow> le_ev (prim_removeAttrs C a b) (prim_removeAttrs D a b)"
  unfolding prim_removeAttrs_def by (intro mono_ev)

lemma prim_listToAttrs_mono [mono_ev]: "calls_le C D \<Longrightarrow> le_ev (prim_listToAttrs C a) (prim_listToAttrs D a)"
  unfolding prim_listToAttrs_def by (intro mono_ev)

lemma prim_intersectAttrs_mono [mono_ev]: "calls_le C D \<Longrightarrow> le_ev (prim_intersectAttrs C a b) (prim_intersectAttrs D a b)"
  unfolding prim_intersectAttrs_def by (intro mono_ev)

lemma prim_catAttrs_mono [mono_ev]: "calls_le C D \<Longrightarrow> le_ev (prim_catAttrs C a b) (prim_catAttrs D a b)"
  unfolding prim_catAttrs_def by (intro mono_ev)

lemma prim_functionArgs_mono [mono_ev]: "calls_le C D \<Longrightarrow> le_ev (prim_functionArgs C a) (prim_functionArgs D a)"
  unfolding prim_functionArgs_def by (intro mono_ev)

lemma prim_mapAttrs_mono [mono_ev]: "calls_le C D \<Longrightarrow> le_ev (prim_mapAttrs C f a) (prim_mapAttrs D f a)"
  unfolding prim_mapAttrs_def by (intro mono_ev)

lemma prim_elemAt_mono [mono_ev]: "calls_le C D \<Longrightarrow> le_ev (prim_elemAt C a b) (prim_elemAt D a b)"
  unfolding prim_elemAt_def by (intro mono_ev)

lemma prim_head_mono [mono_ev]: "calls_le C D \<Longrightarrow> le_ev (prim_head C a) (prim_head D a)"
  unfolding prim_head_def by (intro mono_ev)

lemma prim_tail_mono [mono_ev]: "calls_le C D \<Longrightarrow> le_ev (prim_tail C a) (prim_tail D a)"
  unfolding prim_tail_def by (intro mono_ev)

lemma prim_map_mono [mono_ev]: "calls_le C D \<Longrightarrow> le_ev (prim_map C f a) (prim_map D f a)"
  unfolding prim_map_def by (intro mono_ev)

lemma prim_filter_mono [mono_ev]: "calls_le C D \<Longrightarrow> le_ev (prim_filter C f a) (prim_filter D f a)"
  unfolding prim_filter_def by (intro mono_ev)

lemma prim_elem_mono [mono_ev]: "calls_le C D \<Longrightarrow> le_ev (prim_elem C a b) (prim_elem D a b)"
  unfolding prim_elem_def by (intro mono_ev)

lemma prim_concatLists_mono [mono_ev]: "calls_le C D \<Longrightarrow> le_ev (prim_concatLists C a) (prim_concatLists D a)"
  unfolding prim_concatLists_def by (intro mono_ev)

lemma prim_length_mono [mono_ev]: "calls_le C D \<Longrightarrow> le_ev (prim_length C a) (prim_length D a)"
  unfolding prim_length_def by (intro mono_ev)

lemma prim_foldlStrict_mono [mono_ev]: "calls_le C D \<Longrightarrow> le_ev (prim_foldlStrict C f a b) (prim_foldlStrict D f a b)"
  unfolding prim_foldlStrict_def by (intro mono_ev)

lemma anyOrAll_mono [mono_ev]: "calls_le C D \<Longrightarrow> le_ev (anyOrAll t' C f a) (anyOrAll t' D f a)"
  unfolding anyOrAll_def by (intro mono_ev)

lemma prim_genList_mono [mono_ev]: "calls_le C D \<Longrightarrow> le_ev (prim_genList C f a) (prim_genList D f a)"
  unfolding prim_genList_def by (intro mono_ev)

lemma prim_partition_mono [mono_ev]: "calls_le C D \<Longrightarrow> le_ev (prim_partition C f a) (prim_partition D f a)"
  unfolding prim_partition_def by (intro mono_ev)

lemma prim_groupBy_mono [mono_ev]: "calls_le C D \<Longrightarrow> le_ev (prim_groupBy C f a) (prim_groupBy D f a)"
  unfolding prim_groupBy_def by (intro mono_ev)

lemma prim_concatMap_mono [mono_ev]: "calls_le C D \<Longrightarrow> le_ev (prim_concatMap C f a) (prim_concatMap D f a)"
  unfolding prim_concatMap_def by (intro mono_ev)

lemma prim_arith_mono [mono_ev]: "calls_le C D \<Longrightarrow> le_ev (prim_arith fop iop cfg C a b) (prim_arith fop iop cfg D a b)"
  unfolding prim_arith_def by (intro mono_ev)

lemma prim_div_mono [mono_ev]: "calls_le C D \<Longrightarrow> le_ev (prim_div cfg C a b) (prim_div cfg D a b)"
  unfolding prim_div_def by (intro mono_ev)

lemma prim_bits_mono [mono_ev]: "calls_le C D \<Longrightarrow> le_ev (prim_bits bop C a b) (prim_bits bop D a b)"
  unfolding prim_bits_def by (intro mono_ev)

lemma prim_lessThan_mono [mono_ev]: "calls_le C D \<Longrightarrow> le_ev (prim_lessThan C a b) (prim_lessThan D a b)"
  unfolding prim_lessThan_def by (intro mono_ev)

lemma prim_toString_mono [mono_ev]: "calls_le C D \<Longrightarrow> le_ev (prim_toString C a) (prim_toString D a)"
  unfolding prim_toString_def by (intro mono_ev)

lemma prim_substring_mono [mono_ev]: "calls_le C D \<Longrightarrow> le_ev (prim_substring C a b c) (prim_substring D a b c)"
  unfolding prim_substring_def Let_def by (intro mono_ev)

lemma prim_stringLength_mono [mono_ev]: "calls_le C D \<Longrightarrow> le_ev (prim_stringLength C a) (prim_stringLength D a)"
  unfolding prim_stringLength_def by (intro mono_ev)

lemma prim_concatStringsSep_mono [mono_ev]: "calls_le C D \<Longrightarrow> le_ev (prim_concatStringsSep C a b) (prim_concatStringsSep D a b)"
  unfolding prim_concatStringsSep_def by (intro mono_ev)

lemma args_mono [mono_ev]:
  "(\<And>a. le_ev (f a) (f' a)) \<Longrightarrow> le_ev (args1 f xs) (args1 f' xs)"
  "(\<And>a b. le_ev (g a b) (g' a b)) \<Longrightarrow> le_ev (args2 g xs) (args2 g' xs)"
  "(\<And>a b c. le_ev (h a b c) (h' a b c)) \<Longrightarrow> le_ev (args3 h xs) (args3 h' xs)"
  unfolding args1_def args2_def args3_def by (intro mono_ev; assumption)+

lemma primop_mono [mono_ev]:
  assumes "calls_le C D"
  shows "le_ev (primop_impl cfg C p xs) (primop_impl cfg D p xs)"
  unfolding primop_impl_def by (cases p; simp only: primop.case; intro mono_ev assms)


section \<open>The evaluator\<close>

lemma apply_overrides_mono [mono_ev]: "calls_le C D \<Longrightarrow> le_ev (apply_overrides C n d env2 bs) (apply_overrides D n d env2 bs)"
  unfolding apply_overrides_def by (intro mono_ev)

lemma dynamic_attr_mono [mono_ev]: "calls_le C D \<Longrightarrow> le_ev (dynamic_attr C env d st) (dynamic_attr D env d st)"
  unfolding dynamic_attr_def Let_def by (intro mono_ev)

lemma ExprAttrs_eval_mono [mono_ev]: "calls_le C D \<Longrightarrow> le_ev (ExprAttrs_eval C n env) (ExprAttrs_eval D n env)"
  unfolding ExprAttrs_eval_def Let_def by (intro mono_ev)

lemma ExprLet_eval_mono [mono_ev]: "calls_le C D \<Longrightarrow> le_ev (ExprLet_eval C n body env) (ExprLet_eval D n body env)"
  unfolding ExprLet_eval_def by (intro mono_ev)

lemma ExprWith_eval_mono [mono_ev]: "calls_le C D \<Longrightarrow> le_ev (ExprWith_eval C scope body env) (ExprWith_eval D scope body env)"
  unfolding ExprWith_eval_def by (intro mono_ev)

lemma call_lambda_mono [mono_ev]: "calls_le C D \<Longrightarrow> le_ev (call_lambda C env l arg) (call_lambda D env l arg)"
  unfolding call_lambda_def by (intro mono_ev)

lemma call_primop_mono [mono_ev]: "calls_le C D \<Longrightarrow> le_ev (call_primop cfg C v xs) (call_primop cfg D v xs)"
  unfolding call_primop_def Let_def by (intro mono_ev)

lemma loop_body_mono [mono_ev]: "calls_le C D \<Longrightarrow> le_ev (loop_body cfg C v xs) (loop_body cfg D v xs)"
  unfolding loop_body_def by (intro mono_ev)

lemma callFunction_mono [mono_ev]: "calls_le C D \<Longrightarrow> le_ev (callFunction cfg C f xs) (callFunction cfg D f xs)"
  unfolding callFunction_def by (intro mono_ev)

lemma forceValue_mono [mono_ev]: "calls_le C D \<Longrightarrow> le_ev (forceValue C a) (forceValue D a)"
  unfolding forceValue_def by (intro mono_ev)

lemma select_loop_mono [mono_ev]: "calls_le C D \<Longrightarrow> le_ev (select_loop C dflt env path r) (select_loop D dflt env path r)"
  by (induction path arbitrary: r; unfold select_loop.simps; intro mono_ev; simp)

lemma has_attr_loop_mono [mono_ev]: "calls_le C D \<Longrightarrow> le_ev (has_attr_loop C env path r) (has_attr_loop D env path r)"
  by (induction path arbitrary: r; unfold has_attr_loop.simps; intro mono_ev; simp)

lemma string_list_mono [mono_ev]: "calls_le C D \<Longrightarrow> le_ev (string_list C p q t xs) (string_list D p q t xs)"
  by (induction C p q t xs rule: string_list.induct; unfold string_list.simps; intro mono_ev; assumption?)

lemma all_equal_mono [mono_ev]: "calls_le C D \<Longrightarrow> le_ev (all_equal C ps) (all_equal D ps)"
  by (induction ps) (auto intro!: mono_ev)

lemma less_lists_mono [mono_ev]: "calls_le C D \<Longrightarrow> le_ev (less_lists C xs ys) (less_lists D xs ys)"
  by (induction C xs ys rule: less_lists.induct) (auto intro!: mono_ev)

lemma coerceToString_mono [mono_ev]: "calls_le C D \<Longrightarrow> le_ev (coerceToString cfg C r p q t) (coerceToString cfg D r p q t)"
  unfolding coerceToString_def by (intro mono_ev)

lemma concat_part_mono [mono_ev]: "calls_le C D \<Longrightarrow> le_ev (concat_part cfg C env e st) (concat_part cfg D env e st)"
  unfolding concat_part_def Let_def by (intro mono_ev)

lemma ExprConcatStrings_eval_mono [mono_ev]: "calls_le C D \<Longrightarrow> le_ev (ExprConcatStrings_eval cfg C b es env) (ExprConcatStrings_eval cfg D b es env)"
  unfolding ExprConcatStrings_eval_def by (intro mono_ev)

lemma is_derivation_set_mono [mono_ev]: "calls_le C D \<Longrightarrow> le_ev (is_derivation_set C b) (is_derivation_set D b)"
  unfolding is_derivation_set_def by (intro mono_ev)

lemma eq_attrs_mono [mono_ev]: "calls_le C D \<Longrightarrow> le_ev (eq_attrs C b1 b2) (eq_attrs D b1 b2)"
  unfolding eq_attrs_def Let_def by (intro mono_ev)

lemma eqValues_mono [mono_ev]: "calls_le C D \<Longrightarrow> le_ev (eqValues cfg C r1 r2) (eqValues cfg D r1 r2)"
  unfolding eqValues_def by (intro mono_ev)

lemma compareValues_mono [mono_ev]: "calls_le C D \<Longrightarrow> le_ev (compareValues cfg C a b) (compareValues cfg D a b)"
  unfolding compareValues_def by (intro mono_ev)

lemma forceValueDeep_mono [mono_ev]: "calls_le C D \<Longrightarrow> le_ev (forceValueDeep cfg C a xs) (forceValueDeep cfg D a xs)"
  unfolding forceValueDeep_def by (intro mono_ev)

lemma eval_for_update_mono [mono_ev]: "calls_le C D \<Longrightarrow> le_ev (eval_for_update C e env q) (eval_for_update D e env q)"
  unfolding eval_for_update_def by (cases e; simp only: expr.case; intro mono_ev)

lemma ExprOp_eval_mono [mono_ev]: "calls_le C D \<Longrightarrow> le_ev (ExprOp_eval cfg C op e1 e2 env) (ExprOp_eval cfg D op e1 e2 env)"
  unfolding ExprOp_eval_def by (intro mono_ev)

lemma ExprAssert_eval_mono [mono_ev]: "calls_le C D \<Longrightarrow> le_ev (ExprAssert_eval C c body env) (ExprAssert_eval D c body env)"
  unfolding ExprAssert_eval_def by (cases c; simp only: expr.case; intro mono_ev)

lemma expr_eval_mono [mono_ev]:
  assumes "calls_le C D"
  shows "le_ev (ExprVar_eval C name w l d env) (ExprVar_eval D name w l d env)"
    "le_ev (ExprCall_eval C f es env) (ExprCall_eval D f es env)" "le_ev (ExprIf_eval C c t e env) (ExprIf_eval D c t e env)"
    "le_ev (ExprOpNot_eval C x env) (ExprOpNot_eval D x env)"
  using assms unfolding ExprVar_eval_def ExprCall_eval_def ExprIf_eval_def ExprOpNot_eval_def by (intro mono_ev; assumption)+

lemma eval_body_mono [mono_ev]: "calls_le C D \<Longrightarrow> le_ev (eval_body cfg C e env) (eval_body cfg D e env)"
  unfolding eval_body_def by (cases e; simp only: expr.case; intro mono_ev)

section \<open>Results do not depend on the fuel\<close>

lemma step_mono: "calls_le C D \<Longrightarrow> calls_le (eval_step cfg C) (eval_step cfg D)"
  unfolding calls_le_def [of "eval_step cfg C" "eval_step cfg D"] by (auto simp: eval_step_def intro!: mono_ev)

lemma no_fuel_least: "calls_le no_fuel C"
  by (simp add: calls_le_def no_fuel_def le_ev_def)

lemma run_mono: "n \<le> m \<Longrightarrow> calls_le (run_eval n cfg) (run_eval m cfg)"
proof (induction n arbitrary: m)
  case (Suc n)
  then obtain k where "m = Suc k" "n \<le> k" by (cases m) auto
  with Suc.IH show ?case by (simp add: step_mono)
qed (simp add: no_fuel_least)

lemma le_ev_result: "le_ev m m' \<Longrightarrow> m s \<noteq> Timeout \<Longrightarrow> m' s = m s"
  by (auto simp: le_ev_def)


text \<open>A program: \<^verbatim>\<open>let a = b; b = 40; in a\<close>, in an environment without variables.\<close>

definition sample_cfg :: eval_cfg where
  "sample_cfg = \<lparr>maxCallDepth = 100, bindingsUpdateLayerRhsSizeThreshold = 16, float_add = (\<lambda>a b. a), float_sub = (\<lambda>a b. a),
     float_mul = (\<lambda>a b. a), float_div = (\<lambda>a b. a), float_eq = (=), float_less = (<), float_of_int = (\<lambda>a. a),
     float_string = (\<lambda>_. []), copyPathToStore = (\<lambda>p. Inl TypeError)\<rparr>"

definition sample_eval_state :: eval_state where
  "sample_eval_state = \<lparr>heap_values = [], heap_envs = [\<lparr>env_up = None, env_slots = []\<rparr>], symbols = static_symbols @ [''a'', ''b''], callDepth = 0\<rparr>"

definition sample_program :: expr where
  "sample_program = ExprLet (AttrsNode False [(52, AttrDef Plain (ExprVar 53 None 0 0) 0), (53, AttrDef Plain (ExprInt 40) 0)] None [])
     (ExprVar 52 None 0 0)"

definition sample_bound :: expr where
  "sample_bound = ExprLet (AttrsNode False [(52, AttrDef Plain (ExprVar 53 None 0 1) 0), (53, AttrDef Plain (ExprInt 40) 1)] None [])
     (ExprVar 52 None 0 0)"

lemma sample_binds: "bindVars sample_program [\<lparr>isWith = None, vars = []\<rparr>] = Inr sample_bound"
  by code_simp

lemma sample_runs: "case eval_c (run_eval 5 sample_cfg) sample_bound 0 sample_eval_state of Ret v s \<Rightarrow> v = VInt 40 \<and> length (heap_values s) = 2 | _ \<Rightarrow> False"
  by code_simp


end
