(* ===== verification/Nix_Safety.thy ===== *)
theory Nix_Safety
  imports Nix_Logic Nix_Fuel
begin

text \<open>
  The evaluator is memory safe: evaluating a bound expression never reads an environment or slot that
  is not there, a slot that is not filled, a value of the wrong type, or reaches code that is marked
  unreachable.  Every operation is shown to respect the contract that its recursive calls have.
\<close>

named_theorems safe_intro \<open>rules for the judgement of safety\<close>

fun ref_token :: "value_ref \<Rightarrow> token" where
  "ref_token (Tmp v) = TVal v"
| "ref_token (At a) = TAddr a"

definition calls_safe :: "nat \<Rightarrow> calls \<Rightarrow> bool" where
  "calls_safe k C \<longleftrightarrow>
     (\<forall>A x e sh. entails k A (TEnv e sh) \<longrightarrow> scoped x k sh \<longrightarrow> safe k {} A whnf (\<lambda>v. {TVal v}) (eval_c C x e)) \<and>
     (\<forall>A a. entails k A (TAddr a) \<longrightarrow> safe k {} A (\<lambda>_. True) (\<lambda>_. {TForced a}) (force_c C a)) \<and>
     (\<forall>A f xs. entails k A (ref_token f) \<longrightarrow> (\<forall>x\<in>set xs. entails k A (TAddr x)) \<longrightarrow> safe k {} A whnf (\<lambda>v. {TVal v}) (call_c C f xs)) \<and>
     (\<forall>A v xs. whnf v \<longrightarrow> entails k A (TVal v) \<longrightarrow> (\<forall>x\<in>set xs. entails k A (TAddr x)) \<longrightarrow>
       safe k {} A whnf (\<lambda>v. {TVal v}) (loop_c C v xs)) \<and>
     (\<forall>A r r'. entails k A (ref_token r) \<longrightarrow> entails k A (ref_token r') \<longrightarrow> safe k {} A (\<lambda>_. True) (\<lambda>_. {}) (eq_c C r r')) \<and>
     (\<forall>A r p q t. entails k A (ref_token r) \<longrightarrow> safe k {} A (\<lambda>_. True) (\<lambda>_. {}) (string_c C r p q t)) \<and>
     (\<forall>A a xs. entails k A (TAddr a) \<longrightarrow> safe k {} A (\<lambda>_. True) (\<lambda>_. {}) (deep_c C a xs)) \<and>
     (\<forall>A a b. entails k A (TAddr a) \<longrightarrow> entails k A (TAddr b) \<longrightarrow> safe k {} A (\<lambda>_. True) (\<lambda>_. {}) (less_c C a b)) \<and>
     (\<forall>A x e sh q. entails k A (TEnv e sh) \<longrightarrow> scoped x k sh \<longrightarrow> (\<forall>b\<in>set q. entails k A (TVal (VAttrs b))) \<longrightarrow>
       safe k {} A (\<lambda>_. True) (\<lambda>q'. (\<lambda>b. TVal (VAttrs b)) ` set q') (update_c C x e q))"

lemma calls_safe_rules [safe_intro]:
  assumes "calls_safe k C"
  shows "entails k A (TEnv e sh) \<Longrightarrow> scoped x k sh \<Longrightarrow> safe k {} A whnf (\<lambda>v. {TVal v}) (eval_c C x e)"
    and "entails k A (TAddr a) \<Longrightarrow> safe k {} A (\<lambda>_. True) (\<lambda>_. {TForced a}) (force_c C a)"
    and "entails k A (ref_token f) \<Longrightarrow> \<forall>x\<in>set xs. entails k A (TAddr x) \<Longrightarrow> safe k {} A whnf (\<lambda>v. {TVal v}) (call_c C f xs)"
    and "whnf v \<Longrightarrow> entails k A (TVal v) \<Longrightarrow> \<forall>x\<in>set xs. entails k A (TAddr x) \<Longrightarrow> safe k {} A whnf (\<lambda>v. {TVal v}) (loop_c C v xs)"
    and "entails k A (ref_token r) \<Longrightarrow> entails k A (ref_token r') \<Longrightarrow> safe k {} A (\<lambda>_. True) (\<lambda>_. {}) (eq_c C r r')"
    and "entails k A (ref_token r) \<Longrightarrow> safe k {} A (\<lambda>_. True) (\<lambda>_. {}) (string_c C r p q t)"
    and "entails k A (TAddr a) \<Longrightarrow> safe k {} A (\<lambda>_. True) (\<lambda>_. {}) (deep_c C a xs)"
    and "entails k A (TAddr a) \<Longrightarrow> entails k A (TAddr b) \<Longrightarrow> safe k {} A (\<lambda>_. True) (\<lambda>_. {}) (less_c C a b)"
    and "entails k A (TEnv e sh) \<Longrightarrow> scoped x k sh \<Longrightarrow> \<forall>b\<in>set bs. entails k A (TVal (VAttrs b)) \<Longrightarrow>
      safe k {} A (\<lambda>_. True) (\<lambda>q'. (\<lambda>b. TVal (VAttrs b)) ` set q') (update_c C x e bs)"
  using assms by (auto simp: calls_safe_def)

lemmas [safe_intro] = safe_bind safe_then safe_depth safe_throw

lemma safe_if [safe_intro]: "(b \<Longrightarrow> safe k B A R P m) \<Longrightarrow> (\<not> b \<Longrightarrow> safe k B A R P n) \<Longrightarrow> safe k B A R P (if b then m else n)"
  by simp

lemma safe_let [safe_intro]: "(\<And>x. x = y \<Longrightarrow> safe k B A R P (f x)) \<Longrightarrow> safe k B A R P (Let y f)"
  by simp

lemma safe_prod [safe_intro]: "(\<And>x y. p = (x, y) \<Longrightarrow> safe k B A R P (f x y)) \<Longrightarrow> safe k B A R P (case_prod f p)"
  by (cases p) simp

lemma safe_option [safe_intro]:
  "(x = None \<Longrightarrow> safe k B A R P m) \<Longrightarrow> (\<And>y. x = Some y \<Longrightarrow> safe k B A R P (f y)) \<Longrightarrow> safe k B A R P (case_option m f x)"
  by (cases x) simp_all

lemma safe_return_value [safe_intro]: "whnf v \<Longrightarrow> entails k A (TVal v) \<Longrightarrow> safe k B A whnf (\<lambda>v. {TVal v}) (ev_return v)"
  by (rule safe_return) auto

lemma safe_return_trivial [safe_intro]: "safe k B A (\<lambda>_. True) (\<lambda>_. {}) (ev_return x)"
  by (rule safe_return) auto

lemma whnf_simps [simp]:
  "whnf (VInt n)" "whnf (VFloat x)" "whnf (VBool b)" "whnf (VString t c)" "whnf (VPath p)" "whnf VNull" "whnf (VAttrs bs)"
  "whnf (VList xs)" "whnf (VLambda env l)" "whnf (VPrimOp q)" "whnf (VPrimOpApp f a)" "\<not> whnf (VThunk env e)" "\<not> whnf VBlackhole"
  "\<not> whnf (VApp a a')" "\<not> whnf (VFailed err r)"
  by (simp_all add: whnf_def)

section \<open>Forcing\<close>

lemma force_at_is: "calls_safe k C \<Longrightarrow> entails k A (TAddr a) \<Longrightarrow> safe k {} A whnf (\<lambda>v. {TVal v, TIs a v}) (force_at C a)"
  unfolding force_at_def by (rule safe_intro safe_read_forced | (auto intro: entails_intro; fail)[1])+

lemma force_at_safe [safe_intro]: "calls_safe k C \<Longrightarrow> entails k A (TAddr a) \<Longrightarrow> safe k {} A whnf (\<lambda>v. {TVal v}) (force_at C a)"
  by (rule safe_post [OF force_at_is]) (auto intro: entails_intro)

lemma force_ref_safe [safe_intro]:
  "calls_safe k C \<Longrightarrow> entails k A (ref_token r) \<Longrightarrow> safe k {} A whnf (\<lambda>v. {TVal v}) (force_ref C r)"
  unfolding force_ref_def by (cases r) (auto intro!: safe_intro safe_alloc entails_intro)

lemma as_attrs_safe [safe_intro]: "entails k A (TVal v) \<Longrightarrow> safe k B A (\<lambda>b. v = VAttrs b) (\<lambda>b. {TVal (VAttrs b)}) (as_attrs v)"
  unfolding as_attrs_def by (cases v) (auto intro!: safe_throw safe_return)

lemma as_list_safe [safe_intro]: "entails k A (TVal v) \<Longrightarrow> safe k B A (\<lambda>xs. v = VList xs) (\<lambda>xs. {TVal (VList xs)}) (as_list v)"
  unfolding as_list_def by (cases v) (auto intro!: safe_throw safe_return)

lemma as_others_safe [safe_intro]:
  "safe k B A (\<lambda>_. True) (\<lambda>_. {}) (as_bool v)" "safe k B A (\<lambda>_. True) (\<lambda>_. {}) (as_int v)"
  "safe k B A (\<lambda>_. True) (\<lambda>_. {}) (as_float cfg v)" "safe k B A (\<lambda>_. True) (\<lambda>_. {}) (as_string v)"
  unfolding as_bool_def as_int_def as_float_def as_string_def by (cases v; auto intro!: safe_intro)+

lemma as_more_safe [safe_intro]:
  "safe k B A (\<lambda>_. True) (\<lambda>_. {}) (as_string_no_ctx v)" "safe k B A (\<lambda>_. True) (\<lambda>_. {}) (as_function v)"
proof -
  show "safe k B A (\<lambda>_. True) (\<lambda>_. {}) (as_string_no_ctx v)" unfolding as_string_no_ctx_def by (rule safe_intro)+
  show "safe k B A (\<lambda>_. True) (\<lambda>_. {}) (as_function v)" unfolding as_function_def by (cases v) (auto intro!: safe_intro)
qed

lemma forceAttrs_is: "calls_safe k C \<Longrightarrow> entails k A (TAddr a) \<Longrightarrow>
    safe k {} A (\<lambda>_. True) (\<lambda>b. {TVal (VAttrs b), TIs a (VAttrs b)}) (forceAttrs C a)"
  unfolding forceAttrs_def
  by (intro safe_bind [OF force_at_is] safe_post [OF as_attrs_safe]) (auto intro: entails_intro)

lemma forces_safe [safe_intro]:
  assumes "calls_safe k C" "entails k A (TAddr a)"
  shows "safe k {} A (\<lambda>_. True) (\<lambda>b. {TVal (VAttrs b)}) (forceAttrs C a)"
    "safe k {} A (\<lambda>_. True) (\<lambda>xs. {TVal (VList xs)}) (forceList C a)"
    "safe k {} A (\<lambda>_. True) (\<lambda>_. {}) (forceInt C a)" "safe k {} A (\<lambda>_. True) (\<lambda>_. {}) (forceFloat cfg C a)"
    "safe k {} A (\<lambda>_. True) (\<lambda>_. {}) (forceFunction C a)" "safe k {} A (\<lambda>_. True) (\<lambda>_. {}) (forceString C a)"
    "safe k {} A (\<lambda>_. True) (\<lambda>_. {}) (forceStringNoCtx C a)"
proof -
  show "safe k {} A (\<lambda>_. True) (\<lambda>b. {TVal (VAttrs b)}) (forceAttrs C a)"
    by (rule safe_post [OF forceAttrs_is [OF assms]]) (auto intro: entails_intro)
  show "safe k {} A (\<lambda>_. True) (\<lambda>xs. {TVal (VList xs)}) (forceList C a)" unfolding forceList_def
    by (intro safe_bind [OF force_at_safe [OF assms]] safe_post [OF as_list_safe]) (auto intro: entails_intro)
qed (unfold forceInt_def forceFloat_def forceFunction_def forceString_def forceStringNoCtx_def, (rule safe_intro assms)+)

lemma force_tmp_safe [safe_intro]:
  "calls_safe k C \<Longrightarrow> entails k A (TVal v) \<Longrightarrow> (\<And>w. whnf w \<Longrightarrow> safe k {} (A \<union> {TVal w}) R P (f w)) \<Longrightarrow> safe k {} A R P (force_tmp C v f)"
  unfolding force_tmp_def by (rule safe_intro | (auto intro: entails_intro; fail)[1])+

lemma getAttr_safe [safe_intro]:
  "entails k A (TVal (VAttrs b)) \<Longrightarrow> safe k B A (\<lambda>_. True) (\<lambda>a. {TAddr a}) (getAttr n b)"
  unfolding getAttr_def by (rule entails_bindings_ok) (auto intro!: safe_intro safe_return entails_get_attr split: option.split)

section \<open>Variables\<close>

lemma env_ups_safe: "entails k A (TEnv e sh) \<Longrightarrow> l < length sh \<Longrightarrow> safe k B A (\<lambda>_. True) (\<lambda>e'. {TEnv e' (drop l sh)}) (env_ups l e)"
proof (induction l arbitrary: A e sh)
  case 0
  then show ?case by (auto intro!: safe_return)
next
  case (Suc l)
  then obtain n sh' where sh: "sh = n # sh'" "l < length sh'" by (cases sh) auto
  then have "sh' \<noteq> []" by auto
  note sh = sh this
  show ?case unfolding env_ups.simps
    by (rule safe_bind [OF safe_read_up]) (use Suc sh in \<open>auto intro: entails_intro\<close>)
qed

lemma lookup_with_safe:
  "calls_safe k C \<Longrightarrow> with_ok w sh \<Longrightarrow> entails k A (TEnv e sh) \<Longrightarrow> safe k {} A (\<lambda>_. True) (\<lambda>a. {TAddr a}) (lookup_with w C name e)"
proof (induction w arbitrary: A e sh)
  case (WithRef prev parent)
  then obtain n sh' where sh: "sh = n # sh'" "0 < n" by (cases sh) auto
  show ?case unfolding lookup_with.simps
  proof (rule safe_bind [OF safe_read_slot])
    fix a
    let ?A = "A \<union> {TAddr a}"
    show "safe k {} ?A (\<lambda>_. True) (\<lambda>a. {TAddr a}) (ev_bind (forceAttrs C a) (\<lambda>b. case get_attr b name of
         Some j \<Rightarrow> ev_return (attr_value j)
       | None \<Rightarrow> (case map_option lookup_with parent of
             None \<Rightarrow> ev_throw (UndefinedVar name)
           | Some next_lookup \<Rightarrow> ev_bind (env_ups prev e) (next_lookup C name))))"
    proof (rule safe_bind [OF forces_safe(1)])
      fix b
      let ?A = "A \<union> {TAddr a} \<union> {TVal (VAttrs b)}"
      have b: "entails k ?A (TVal (VAttrs b))" and e: "entails k ?A (TEnv e sh)"
        using WithRef.prems by (auto intro: entails_intro)
      have next_lookup: "safe k {} ?A (\<lambda>_. True) (\<lambda>a. {TAddr a}) (ev_bind (env_ups prev e) (lookup_with p C name))" if "parent = Some p" for p
      proof (rule safe_bind [OF env_ups_safe [OF e]])
        show "prev < length sh" using that WithRef.prems by simp
        fix u
        show "safe k {} (?A \<union> {TEnv u (drop prev sh)}) (\<lambda>_. True) (\<lambda>a. {TAddr a}) (lookup_with p C name u)"
          by (rule WithRef.IH) (use that WithRef.prems in \<open>auto intro: entails_intro\<close>)
      qed
      show "safe k {} ?A (\<lambda>_. True) (\<lambda>a. {TAddr a}) (case get_attr b name of
         Some j \<Rightarrow> ev_return (attr_value j)
       | None \<Rightarrow> (case map_option lookup_with parent of
             None \<Rightarrow> ev_throw (UndefinedVar name)
           | Some next_lookup \<Rightarrow> ev_bind (env_ups prev e) (next_lookup C name)))"
        by (rule entails_bindings_ok [OF b], cases "get_attr b name"; cases parent)
          (auto intro!: safe_throw safe_return next_lookup [simplified] entails_get_attr [OF b [simplified]])
    qed (use WithRef.prems in \<open>auto intro: entails_intro\<close>)
  qed (use WithRef.prems sh in \<open>auto intro: entails_intro\<close>)
qed

lemma lookupVar_safe:
  assumes "calls_safe k C" "entails k A (TEnv e sh)" "scoped (ExprVar name w l d) k sh"
  shows "safe k {} A (\<lambda>_. True) (\<lambda>a. {TAddr a}) (lookupVar C e name w l d)"
  unfolding lookupVar_def
proof (rule safe_bind [OF env_ups_safe [OF assms(2)]])
  show "l < length sh" using assms by simp
  then have drop: "drop l sh = sh ! l # drop (Suc l) sh" by (simp add: Cons_nth_drop_Suc)
  fix e'
  have e': "entails k (A \<union> {TEnv e' (drop l sh)}) (TEnv e' (drop l sh))" by (intro entails_intro)
  show "safe k {} (A \<union> {TEnv e' (drop l sh)}) (\<lambda>_. True) (\<lambda>a. {TAddr a}) (case w of None \<Rightarrow> read_slot e' d | Some w \<Rightarrow> lookup_with w C name e')"
    using assms(3) safe_read_slot [OF e' [unfolded drop], of d] lookup_with_safe [OF assms(1) _ e'] drop by (cases w) auto
qed

lemma lookupVar_noEval_safe:
  assumes "entails k A (TEnv e sh)" "scoped (ExprVar name w l d) k sh"
  shows "safe k B A (\<lambda>_. True) (\<lambda>x. TAddr ` set_option x) (lookupVar_noEval e w l d)"
  unfolding lookupVar_noEval_def
proof (rule safe_bind [OF env_ups_safe [OF assms(1)]])
  show "l < length sh" using assms by simp
  then have drop: "drop l sh = sh ! l # drop (Suc l) sh" by (simp add: Cons_nth_drop_Suc)
  fix e'
  have e': "entails k (A \<union> {TEnv e' (drop l sh)}) (TEnv e' (drop l sh))" by (intro entails_intro)
  show "safe k B (A \<union> {TEnv e' (drop l sh)}) (\<lambda>_. True) (\<lambda>x. TAddr ` set_option x) (case w of None \<Rightarrow> read_slot_or_null e' d | Some w \<Rightarrow> ev_return None)"
    using assms(2) safe_read_slot_or_null [OF e' [unfolded drop], of d] drop by (cases w) (auto intro: safe_return)
qed

lemma maybeThunk_safe:
  assumes "entails k A (TEnv e sh)" "scoped x k sh"
  shows "safe k B A (\<lambda>_. True) (\<lambda>a. {TAddr a}) (maybeThunk x e)"
proof -
  have thunk: "safe k B A' (\<lambda>_. True) (\<lambda>a. {TAddr a}) (alloc_value (VThunk e x))" if "entails k A' (TEnv e sh)" for A'
    using that assms(2) by (intro safe_alloc entails_thunk)
  have var: "safe k B A (\<lambda>_. True) (\<lambda>a. {TAddr a}) (ev_bind (lookupVar_noEval e w l d)
      (\<lambda>v. case v of Some a \<Rightarrow> ev_return a | None \<Rightarrow> alloc_value (VThunk e x)))" if "scoped (ExprVar name w l d) k sh" for name w l d
    by (rule safe_bind [OF lookupVar_noEval_safe [OF assms(1) that]])
      (auto intro!: safe_option thunk safe_return intro: assms(1) entails_intro entails_member)
  show ?thesis
  proof (cases x)
    case (ExprInheritFrom d)
    then have "scoped (ExprVar 0 None 0 d) k sh" using assms(2) by (cases sh) auto
    from var [OF this] show ?thesis by (simp only: maybeThunk_def ExprInheritFrom expr.case)
  next
    case (ExprList es)
    then show ?thesis using thunk [OF assms(1)] by (cases es) (auto simp: maybeThunk_def entails_list intro!: safe_alloc)
  qed (use thunk [OF assms(1)] var assms(2) in \<open>auto simp: maybeThunk_def intro!: safe_alloc entails_intro simp del: scoped.simps(5)\<close>)
qed

lemma getName_safe:
  "calls_safe k C \<Longrightarrow> entails k A (TEnv e sh) \<Longrightarrow> scoped_elem i k sh \<Longrightarrow> safe k {} A (\<lambda>_. True) (\<lambda>_. {}) (getName C i e)"
  unfolding getName_def
  by (cases i; simp only: attr_path_elem.case)
    (rule safe_intro safe_post [OF safe_create_symbol] | (auto intro: entails_intro; fail)[1])+

section \<open>Loops and fresh cells\<close>

lemma entails_element [entails_intro]:
  "x \<in> set xs \<Longrightarrow> entails k (insert (TVal (VList xs)) A) (TAddr x)" "x \<in> set xs \<Longrightarrow> entails k {TVal (VList xs)} (TAddr x)"
  by (auto simp: entails_def)

lemma entails_sublist [entails_intro]: "set ys \<subseteq> set xs \<Longrightarrow> entails k (insert (TVal (VList xs)) A) (TVal (VList ys))"
  by (auto simp: entails_def)

lemma entails_filter_fst:
  assumes "map fst rs = xs" "TVal (VList xs) \<in> A"
  shows "entails k A (TVal (VList (map fst (filter P rs))))"
  using assms entails_member [OF assms(2), of k] by (force simp: entails_list)

lemma entails_entry [entails_intro]:
  "i \<in> set is \<Longrightarrow> entails k (TAttr ` set is) (TAddr (attr_value i))" "i \<in> set is \<Longrightarrow> entails k (TAttr ` set is) (TSym (attr_name i))"
  "i \<in> set is \<Longrightarrow> entails k (TAttr ` set is) (TAttr i)"
  by (auto simp: entails_def attr_ok_def)

lemma safe_map_addr [safe_intro]:
  "(\<And>x. x \<in> set xs \<Longrightarrow> safe k B A (\<lambda>_. True) (\<lambda>a. {TAddr a}) (f x)) \<Longrightarrow> safe k B A (\<lambda>_. True) (\<lambda>ys. {TVal (VList ys)}) (ev_map f xs)"
  by (rule safe_post [OF safe_map]) (auto simp: entails_list intro: entails_member)

lemma safe_map_trivial [safe_intro]:
  "(\<And>x. x \<in> set xs \<Longrightarrow> safe k B A (\<lambda>_. True) (\<lambda>_. {}) (f x)) \<Longrightarrow> safe k B A (\<lambda>_. True) (\<lambda>_. {}) (ev_map f xs)"
  by (rule safe_post [OF safe_map]) auto

lemmas [safe_intro] = safe_find safe_catch safe_alloc safe_create_symbol

lemma type_string_safe [safe_intro]: "whnf v \<Longrightarrow> safe k B A (\<lambda>_. True) (\<lambda>_. {}) (non_null (type_string (value_type v)))"
  by (rule safe_non_null) (cases v; simp add: whnf_def type_string_def)+

lemma call_bool_safe [safe_intro]:
  "calls_safe k C \<Longrightarrow> entails k A (TAddr f) \<Longrightarrow> \<forall>x\<in>set xs. entails k A (TAddr x) \<Longrightarrow> safe k {} A (\<lambda>_. True) (\<lambda>_. {}) (call_bool C f xs)"
  unfolding call_bool_def by (rule safe_intro | (auto intro: entails_intro; fail)[1])+

section \<open>Builtins\<close>

lemma as_list_true [safe_intro]: "entails k A (TVal v) \<Longrightarrow> safe k B A (\<lambda>_. True) (\<lambda>xs. {TVal (VList xs)}) (as_list v)"
  by (rule safe_post [OF as_list_safe]) (auto intro: entails_intro)

lemma safe_map_fst:
  "(\<And>x. x \<in> set xs \<Longrightarrow> safe k B A (\<lambda>p. fst p = x) (\<lambda>_. {}) (f x)) \<Longrightarrow> safe k B A (\<lambda>rs. map fst rs = xs) (\<lambda>_. {}) (ev_map f xs)"
  by (rule safe_post [OF safe_map]) (auto simp: list_all2_conv_all_nth intro: nth_equalityI)

lemma safe_map_lists:
  "(\<And>x. x \<in> set xs \<Longrightarrow> safe k B A (\<lambda>_. True) (\<lambda>ys. {TVal (VList ys)}) (f x)) \<Longrightarrow>
   safe k B A (\<lambda>_. True) (\<lambda>ls. {TVal (VList (concat ls))}) (ev_map f xs)"
  by (rule safe_post [OF safe_map]) (force simp: entails_def)+

lemma safe_map_attrs:
  "(\<And>x. x \<in> set xs \<Longrightarrow> safe k B A (\<lambda>a. attr_name a = g x) (\<lambda>a. {TAttr a}) (f x)) \<Longrightarrow>
   safe k B A (\<lambda>as. map attr_name as = map g xs) (\<lambda>as. TAttr ` set as) (ev_map f xs)"
  by (rule safe_post [OF safe_map]) (auto simp: list_all2_conv_all_nth intro: nth_equalityI entails_member)

lemma safe_fold_trivial [safe_intro]:
  "(\<And>x s. x \<in> set xs \<Longrightarrow> safe k B A (\<lambda>_. True) (\<lambda>_. {}) (f x s)) \<Longrightarrow> safe k B A (\<lambda>_. True) (\<lambda>_. {}) (ev_fold f xs s)"
  by (rule safe_fold) auto

lemma safe_case_string [safe_intro]:
  "(\<And>s c. v = VString s c \<Longrightarrow> safe k B A R P (f s c)) \<Longrightarrow> safe k B A R P m \<Longrightarrow>
   safe k B A R P (case v of VString s c \<Rightarrow> f s c | _ \<Rightarrow> m)"
  by (cases v) simp_all

lemma mk_attr_sel [simp]: "attr_name (mk_attr n a) = n" "attr_value (mk_attr n a) = a"
  by (simp_all add: mk_attr_def)

lemma entails_attr_member [entails_intro]:
  "TAttr i \<in> A \<Longrightarrow> entails k A (TAddr (attr_value i))" "TAttr i \<in> A \<Longrightarrow> entails k A (TSym (attr_name i))"
  by (auto simp: entails_def attr_ok_def)

lemma entails_mk_attr [entails_intro]: "entails k A (TSym n) \<Longrightarrow> entails k A (TAddr a) \<Longrightarrow> entails k A (TAttr (mk_attr n a))"
  by (simp add: entails_attr mk_attr_def)

lemma entails_static [entails_intro]:
  "entails k A (TSym sym_right)" "entails k A (TSym sym_wrong)" "entails k A (TSym sym_value)"
  by (auto intro!: entails_static_symbol simp: static_symbols_def sym_right_def sym_wrong_def sym_value_def)

lemma safe_return_attr [safe_intro]:
  "n = m \<Longrightarrow> entails k A (TSym n) \<Longrightarrow> entails k A (TAddr a) \<Longrightarrow> safe k B A (\<lambda>a. attr_name a = m) (\<lambda>a. {TAttr a}) (ev_return (mk_attr n a))"
  by (rule safe_return) (auto intro: entails_mk_attr)

text \<open>A computation of a value: what every builtin promises.\<close>

abbreviation yields :: "nat \<Rightarrow> token set \<Rightarrow> nix_value ev \<Rightarrow> bool" where
  "yields k A m \<equiv> safe k {} A whnf (\<lambda>v. {TVal v}) m"

lemma value_prims_safe [safe_intro]:
  "calls_safe k C \<Longrightarrow> entails k A (TAddr a) \<Longrightarrow> yields k A (prim_typeOf C a)"
  "calls_safe k C \<Longrightarrow> entails k A (TAddr a) \<Longrightarrow> yields k A (prim_isType t C a)"
  "calls_safe k C \<Longrightarrow> entails k A (TAddr a) \<Longrightarrow> yields k A (prim_abort C a)"
  "calls_safe k C \<Longrightarrow> entails k A (TAddr a) \<Longrightarrow> yields k A (prim_throw C a)"
  "calls_safe k C \<Longrightarrow> entails k A (TAddr a) \<Longrightarrow> yields k A (prim_length C a)"
  "calls_safe k C \<Longrightarrow> entails k A (TAddr a) \<Longrightarrow> yields k A (prim_toString C a)"
  "calls_safe k C \<Longrightarrow> entails k A (TAddr a) \<Longrightarrow> yields k A (prim_stringLength C a)"
  unfolding prim_typeOf_def prim_isType_def prim_abort_def prim_throw_def prim_length_def prim_toString_def prim_stringLength_def
  by ((rule safe_intro | (auto intro: entails_intro; fail)[1])+)+

lemma pair_prims_safe [safe_intro]:
  "calls_safe k C \<Longrightarrow> entails k A (TAddr a) \<Longrightarrow> entails k A (TAddr b) \<Longrightarrow> yields k A (prim_addErrorContext C a b)"
  "calls_safe k C \<Longrightarrow> entails k A (TAddr a) \<Longrightarrow> entails k A (TAddr b) \<Longrightarrow> yields k A (prim_seq C a b)"
  "calls_safe k C \<Longrightarrow> entails k A (TAddr a) \<Longrightarrow> entails k A (TAddr b) \<Longrightarrow> yields k A (prim_deepSeq C a b)"
  "calls_safe k C \<Longrightarrow> entails k A (TAddr a) \<Longrightarrow> entails k A (TAddr b) \<Longrightarrow> yields k A (prim_getAttr C a b)"
  "calls_safe k C \<Longrightarrow> entails k A (TAddr a) \<Longrightarrow> entails k A (TAddr b) \<Longrightarrow> yields k A (prim_hasAttr C a b)"
  "calls_safe k C \<Longrightarrow> entails k A (TAddr a) \<Longrightarrow> entails k A (TAddr b) \<Longrightarrow> yields k A (prim_elem C a b)"
  "calls_safe k C \<Longrightarrow> entails k A (TAddr a) \<Longrightarrow> entails k A (TAddr b) \<Longrightarrow> yields k A (anyOrAll t C a b)"
  "calls_safe k C \<Longrightarrow> entails k A (TAddr a) \<Longrightarrow> entails k A (TAddr b) \<Longrightarrow> yields k A (prim_bits bop C a b)"
  "calls_safe k C \<Longrightarrow> entails k A (TAddr a) \<Longrightarrow> entails k A (TAddr b) \<Longrightarrow> yields k A (prim_lessThan C a b)"
  unfolding prim_addErrorContext_def prim_seq_def prim_deepSeq_def prim_getAttr_def prim_hasAttr_def prim_elem_def anyOrAll_def prim_bits_def
    prim_lessThan_def
  by ((rule safe_intro | (auto intro: entails_intro simp: entails_list; fail)[1])+)+

lemma head_safe [safe_intro]: "calls_safe k C \<Longrightarrow> entails k A (TAddr a) \<Longrightarrow> yields k A (prim_head C a)"
  unfolding prim_head_def by (rule safe_intro | (auto intro: entails_intro; fail)[1])+

lemma tail_safe [safe_intro]: "calls_safe k C \<Longrightarrow> entails k A (TAddr a) \<Longrightarrow> yields k A (prim_tail C a)"
  unfolding prim_tail_def by (rule safe_intro | (auto intro: entails_intro simp: entails_list; fail)[1])+

lemma elemAt_safe [safe_intro]: "calls_safe k C \<Longrightarrow> entails k A (TAddr a) \<Longrightarrow> entails k A (TAddr b) \<Longrightarrow> yields k A (prim_elemAt C a b)"
  unfolding prim_elemAt_def by (rule safe_intro | (auto intro: entails_intro; fail)[1])+

lemma map_safe [safe_intro]: "calls_safe k C \<Longrightarrow> entails k A (TAddr f) \<Longrightarrow> entails k A (TAddr a) \<Longrightarrow> yields k A (prim_map C f a)"
  unfolding prim_map_def by (rule safe_intro | (auto intro: entails_intro entails_app; fail)[1])+

lemma genList_safe [safe_intro]: "calls_safe k C \<Longrightarrow> entails k A (TAddr f) \<Longrightarrow> entails k A (TAddr a) \<Longrightarrow> yields k A (prim_genList C f a)"
  unfolding prim_genList_def by (rule safe_intro | (auto intro: entails_intro entails_app; fail)[1])+

lemma arith_safe [safe_intro]:
  "safe k B A whnf (\<lambda>v. {TVal v}) (checked_int e r)"
  "calls_safe k C \<Longrightarrow> entails k A (TAddr a) \<Longrightarrow> entails k A (TAddr b) \<Longrightarrow> yields k A (prim_arith fop iop cfg C a b)"
  "calls_safe k C \<Longrightarrow> entails k A (TAddr a) \<Longrightarrow> entails k A (TAddr b) \<Longrightarrow> yields k A (prim_div cfg C a b)"
proof -
  show *: "safe k B A whnf (\<lambda>v. {TVal v}) (checked_int e r)" for B A e r
    unfolding checked_int_def by (rule safe_intro | (auto intro: entails_intro; fail)[1])+
  show "calls_safe k C \<Longrightarrow> entails k A (TAddr a) \<Longrightarrow> entails k A (TAddr b) \<Longrightarrow> yields k A (prim_arith fop iop cfg C a b)"
    "calls_safe k C \<Longrightarrow> entails k A (TAddr a) \<Longrightarrow> entails k A (TAddr b) \<Longrightarrow> yields k A (prim_div cfg C a b)"
    unfolding prim_arith_def prim_div_def by ((rule safe_intro * safe_read | (auto intro: entails_intro; fail)[1])+)+
qed

lemma filter_safe [safe_intro]: "calls_safe k C \<Longrightarrow> entails k A (TAddr f) \<Longrightarrow> entails k A (TAddr a) \<Longrightarrow> yields k A (prim_filter C f a)"
  unfolding prim_filter_def
  by (rule safe_bind [OF safe_map_fst] safe_intro | (auto intro: entails_intro safe_return; fail)[1] | (rule entails_filter_fst, assumption, simp; fail)[1])+

lemma last_filter_concat: "filter P ls \<noteq> [] \<Longrightarrow> set (last (filter P ls)) \<subseteq> set (concat ls)"
  using last_in_set [of "filter P ls"] by auto

lemma concatLists_safe [safe_intro]:
  assumes "calls_safe k C" "\<And>r. r \<in> set rs \<Longrightarrow> entails k A (ref_token r)"
  shows "yields k A (concatLists C rs)"
  unfolding concatLists_def Let_def
proof (rule safe_bind [OF safe_map_lists])
  fix r
  assume "r \<in> set rs"
  with assms show "safe k {} A (\<lambda>_. True) (\<lambda>ys. {TVal (VList ys)}) (ev_bind (force_ref C r) as_list)"
    by (intro safe_bind [OF force_ref_safe] as_list_true) (auto intro: entails_intro)
next
  fix ls :: "nat list list"
  let ?A = "A \<union> {TVal (VList (concat ls))}"
  have sub: "entails k ?A (TVal (VList ys))" if "set ys \<subseteq> set (concat ls)" for ys
    using that by (force simp: entails_def)
  show "yields k ?A (if filter (\<lambda>l. l \<noteq> []) ls \<noteq> [] \<and> sum_list (map length ls) = length (last (filter (\<lambda>l. l \<noteq> []) ls))
      then ev_return (VList (last (filter (\<lambda>l. l \<noteq> []) ls))) else ev_return (VList (concat ls)))"
    using last_filter_concat by (intro safe_if safe_return_value sub) (auto simp: last_filter_concat)
qed

lemma list_prims_safe [safe_intro]:
  "calls_safe k C \<Longrightarrow> entails k A (TAddr a) \<Longrightarrow> yields k A (prim_concatLists C a)"
  "calls_safe k C \<Longrightarrow> entails k A (TAddr f) \<Longrightarrow> entails k A (TAddr a) \<Longrightarrow> yields k A (prim_concatMap C f a)"
  unfolding prim_concatLists_def prim_concatMap_def
  by ((rule safe_bind [OF safe_map_lists] safe_intro | (auto intro: entails_intro; fail)[1])+)+

lemma foldl_loop_safe:
  "calls_safe k C \<Longrightarrow> entails k A (TAddr f) \<Longrightarrow> entails k A (TAddr cur) \<Longrightarrow> xs \<noteq> [] \<Longrightarrow> \<forall>x\<in>set xs. entails k A (TAddr x) \<Longrightarrow>
   yields k A (foldl_loop C f cur xs)"
proof (induction C f cur xs arbitrary: A rule: foldl_loop.induct)
  case (3 C f cur x y xs)
  note IH = this
  show ?case unfolding foldl_loop.simps
    by (rule safe_bind safe_alloc calls_safe_rules IH(1) IH(2) | (use IH(3-) in \<open>auto intro: entails_intro\<close>; fail)[1])+
qed (auto intro: safe_intro)

lemma foldlStrict_safe [safe_intro]:
  "calls_safe k C \<Longrightarrow> entails k A (TAddr f) \<Longrightarrow> entails k A (TAddr a) \<Longrightarrow> entails k A (TAddr b) \<Longrightarrow> yields k A (prim_foldlStrict C f a b)"
  unfolding prim_foldlStrict_def by (rule safe_intro foldl_loop_safe | (auto intro: entails_intro; fail)[1])+

lemma string_prims_safe [safe_intro]:
  "calls_safe k C \<Longrightarrow> entails k A (TAddr a) \<Longrightarrow> entails k A (TAddr b) \<Longrightarrow> yields k A (prim_concatStringsSep C a b)"
  "calls_safe k C \<Longrightarrow> entails k A (TAddr a) \<Longrightarrow> entails k A (TAddr b) \<Longrightarrow> entails k A (TAddr c) \<Longrightarrow> yields k A (prim_substring C a b c)"
  unfolding prim_concatStringsSep_def prim_substring_def Let_def
  by ((rule safe_intro | (auto intro: entails_intro; fail)[1])+)+

section \<open>Builtins on attribute sets\<close>

lemma safe_entries_simple [safe_intro]: "entails k A (TVal (VAttrs b)) \<Longrightarrow> safe k B A (\<lambda>as. sorted_wrt (<) (map attr_name as)) (\<lambda>as. TAttr ` set as) (attr_entries b)"
  by (rule safe_post [OF safe_entries]) (auto intro: entails_member)

lemma symbol_name_safe [safe_intro]: "entails k A (TSym n) \<Longrightarrow> safe k B A (\<lambda>_. True) (\<lambda>_. {}) (symbol_name n)"
  by (rule safe_symbol_name)

lemma named_entries_safe [safe_intro]:
  assumes "entails k A (TVal (VAttrs b))"
  shows "safe k B A (\<lambda>_. True) (\<lambda>nas. {TVal (VList (map snd nas))}) (named_entries b)"
  unfolding named_entries_def
proof (rule safe_bind [OF safe_entries_simple [OF assms]], rule safe_bind)
  fix "is" :: "nat Attr list"
  let ?A = "A \<union> TAttr ` set is"
  show "safe k B ?A (\<lambda>_. True) (\<lambda>nas. {TVal (VList (map snd nas))})
      (ev_map (\<lambda>a. ev_bind (symbol_name (attr_name a)) (\<lambda>n. ev_return (n, attr_value a))) is)"
  proof (rule safe_post [OF safe_map [where R = "\<lambda>_ _. True" and P = "\<lambda>na. {TAddr (snd na)}"]])
    fix x
    assume "x \<in> set is"
    then show "safe k B ?A (\<lambda>_. True) (\<lambda>na. {TAddr (snd na)}) (ev_bind (symbol_name (attr_name x)) (\<lambda>n. ev_return (n, attr_value x)))"
      by (intro safe_bind [OF symbol_name_safe] safe_return) (auto intro: entails_intro)
  qed (auto simp: entails_list intro: entails_member)
  show "safe k B (?A \<union> {TVal (VList (map snd nas))}) (\<lambda>_. True) (\<lambda>nas. {TVal (VList (map snd nas))}) (ev_return (sort_key fst nas))" for nas :: "(string \<times> nat) list"
    by (rule safe_return) (auto intro!: entails_intro)
qed

lemma attr_list_prims_safe [safe_intro]:
  "calls_safe k C \<Longrightarrow> entails k A (TAddr a) \<Longrightarrow> yields k A (prim_attrNames C a)"
  "calls_safe k C \<Longrightarrow> entails k A (TAddr a) \<Longrightarrow> yields k A (prim_attrValues C a)"
  unfolding prim_attrNames_def prim_attrValues_def
  by ((rule safe_intro | (auto intro: entails_intro; fail)[1])+)+

lemma sorted_filter_attrs: "sorted_wrt (<) (map attr_name as) \<Longrightarrow> sorted_wrt (<) (map attr_name (filter P as))"
  by (induction as) auto

lemma removeAttrs_safe [safe_intro]:
  "calls_safe k C \<Longrightarrow> entails k A (TAddr a) \<Longrightarrow> entails k A (TAddr b) \<Longrightarrow> yields k A (prim_removeAttrs C a b)"
  unfolding prim_removeAttrs_def
proof (rule safe_bind [OF forces_safe(1)], assumption, assumption, rule safe_bind [OF forces_safe(2)], assumption)
  fix bs xs
  assume A: "calls_safe k C" "entails k A (TAddr a)" "entails k A (TAddr b)"
  then show "entails k (A \<union> {TVal (VAttrs bs)}) (TAddr b)" by (auto intro: entails_intro)
  let ?A = "A \<union> {TVal (VAttrs bs)} \<union> {TVal (VList xs)}"
  have "safe k {} ?A (\<lambda>_. True) (\<lambda>_. {}) (ev_map (\<lambda>x. ev_bind (forceStringNoCtx C x) create_symbol) xs)"
    by (rule safe_map_trivial, rule safe_bind [OF forces_safe(7)], rule A, (auto intro: entails_intro safe_post [OF safe_create_symbol])+)
  then show "yields k ?A (ev_bind (ev_map (\<lambda>x. ev_bind (forceStringNoCtx C x) create_symbol) xs) (\<lambda>names.
      ev_bind (attr_entries bs) (\<lambda>as. sorted_attrs (filter (\<lambda>j. attr_name j \<notin> set names) as))))"
    by (rule safe_bind, intro safe_bind [OF safe_entries_simple] safe_sorted_attrs sorted_filter_attrs) (auto intro: entails_intro)
qed

lemma catAttrs_safe [safe_intro]:
  "calls_safe k C \<Longrightarrow> entails k A (TAddr a) \<Longrightarrow> entails k A (TAddr b) \<Longrightarrow> yields k A (prim_catAttrs C a b)"
  unfolding prim_catAttrs_def
proof (rule safe_bind [OF forces_safe(7)], assumption, assumption, rule safe_bind [OF safe_create_symbol], rule safe_bind [OF forces_safe(2)], assumption)
  fix n xs
  assume A: "calls_safe k C" "entails k A (TAddr a)" "entails k A (TAddr b)"
  then show "entails k (A \<union> {} \<union> {TSym n}) (TAddr b)" by (auto intro: entails_intro)
  let ?A = "A \<union> {} \<union> {TSym n} \<union> {TVal (VList xs)}" and ?f = "\<lambda>x. ev_bind (forceAttrs C x) (\<lambda>b. ev_return (get_attr b n))"
  have one: "safe k {} ?A (\<lambda>_. True) (\<lambda>r. TAttr ` set_option r) (?f x)" if "x \<in> set xs" for x
  proof (rule safe_bind [OF forces_safe(1) [OF A(1)]])
    fix bs
    have bs: "entails k (?A \<union> {TVal (VAttrs bs)}) (TVal (VAttrs bs))" by (auto intro: entails_intro)
    show "safe k {} (?A \<union> {TVal (VAttrs bs)}) (\<lambda>_. True) (\<lambda>r. TAttr ` set_option r) (ev_return (get_attr bs n))"
      by (rule entails_bindings_ok [OF bs], rule safe_return)
        (auto dest: get_attr_binding intro: entails_attrs(1) [OF bs [simplified]])
  qed (use that in \<open>auto intro: entails_intro\<close>)
  show "yields k ?A (ev_bind (ev_map ?f xs) (\<lambda>rs. ev_return (VList (concat (map (\<lambda>r. case r of Some j \<Rightarrow> [attr_value j] | None \<Rightarrow> []) rs)))))"
    by (rule safe_bind [OF safe_map [OF one]], assumption, rule safe_return_value)
      (force simp: entails_def attr_ok_def split: option.splits)+
qed

lemma mapAttrs_safe [safe_intro]:
  "calls_safe k C \<Longrightarrow> entails k A (TAddr f) \<Longrightarrow> entails k A (TAddr a) \<Longrightarrow> yields k A (prim_mapAttrs C f a)"
  unfolding prim_mapAttrs_def
  by (rule safe_bind [OF safe_map_attrs [where g = attr_name]] safe_sorted_attrs safe_intro
    | (auto intro: entails_intro entails_app; fail)[1])+

lemma entails_lambda_formals:
  "entails k A (TVal (VLambda env l)) \<Longrightarrow> lambda_formals l = Some fs \<Longrightarrow>
   (sorted_wrt (<) (map fst (formal_list fs)) \<Longrightarrow> \<forall>f\<in>set (formal_list fs). fst f < k \<Longrightarrow> safe k B A R P m) \<Longrightarrow> safe k B A R P m"
  by (rule safe_entails [where p = "sorted_wrt (<) (map fst (formal_list fs)) \<and> (\<forall>f\<in>set (formal_list fs). fst f < k)"])
    (cases l; cases fs; force simp: entails_def Let_def)+

lemma entails_empty_set [entails_intro]: "entails k A (TVal (VAttrs emptyBindings))"
  by (rule entails_attrs(2)) (auto simp: emptyBindings_def maxLayers_def binding_attrs_def)

lemma functionArgs_safe [safe_intro]:
  assumes "calls_safe k C" "entails k A (TAddr a)"
  shows "yields k A (prim_functionArgs C a)"
  unfolding prim_functionArgs_def
proof (rule safe_bind [OF force_at_safe [OF assms]])
  fix v
  have empty: "yields k (A \<union> {TVal v}) (ev_return (VAttrs emptyBindings))" by (rule safe_return_value) (auto intro: entails_intro)
  have formals: "yields k (A \<union> {TVal v}) (ev_bind (ev_map (\<lambda>(n, d). ev_bind (alloc_value (VBool (d \<noteq> None))) (\<lambda>x. ev_return (mk_attr n x))) (formal_list fs)) sorted_attrs)"
    if "v = VLambda env l" "lambda_formals l = Some fs" for env l fs
  proof (rule entails_lambda_formals [OF _ that(2)])
    show "entails k (A \<union> {TVal v}) (TVal (VLambda env l))" using that by (auto intro: entails_intro)
    assume "sorted_wrt (<) (map fst (formal_list fs))" "\<forall>f\<in>set (formal_list fs). fst f < k"
    then show "yields k (A \<union> {TVal v}) (ev_bind (ev_map (\<lambda>(n, d). ev_bind (alloc_value (VBool (d \<noteq> None))) (\<lambda>x. ev_return (mk_attr n x))) (formal_list fs)) sorted_attrs)"
      by - (rule safe_bind [OF safe_map_attrs [where g = fst]] safe_sorted_attrs safe_prod safe_bind safe_alloc safe_return_attr
        | (auto intro: entails_intro; fail)[1] | (rule entails_symbol, force; fail)[1])+
  qed
  show "yields k (A \<union> {TVal v}) (case v of
       VPrimOp p \<Rightarrow> ev_return (VAttrs emptyBindings)
     | VPrimOpApp f x \<Rightarrow> ev_return (VAttrs emptyBindings)
     | VLambda env l \<Rightarrow> (case lambda_formals l of
           Some fs \<Rightarrow> ev_bind (ev_map (\<lambda>(n, d). ev_bind (alloc_value (VBool (d \<noteq> None))) (\<lambda>x. ev_return (mk_attr n x))) (formal_list fs))
             sorted_attrs
         | None \<Rightarrow> ev_return (VAttrs emptyBindings))
     | _ \<Rightarrow> ev_throw TypeError)"
    using formals empty by (cases v) (auto intro: safe_throw split: option.split)
qed

lemma create_success_safe: "safe k B A (\<lambda>n. n \<noteq> sym_value) (\<lambda>n. {TSym n}) (create_symbol ''success'')"
proof (rule safeI)
  fix s
  assume s: "consistent k B s"
  let ?n = "length (takeWhile (\<lambda>x. x \<noteq> ''success'') (symbols s))"
  have len: "6 < length static_symbols" "static_symbols ! 6 = ''value''" by (simp_all add: static_symbols_def)
  with s have val: "symbols s ! 6 = ''value''" "6 < length (symbols s)"
    unfolding consistent_def by (metis nth_take, linarith)
  have "?n < length (symbols s)" "symbols s ! ?n = ''success''" if "''success'' \<in> set (symbols s)"
    using takeWhile_length [OF that] nth_length_takeWhile [of "\<lambda>x. x \<noteq> ''success''" "symbols s"] by auto
  then show "case create_symbol ''success'' s of
      Ret n s' \<Rightarrow> consistent k B s' \<and> extends s s' \<and> n \<noteq> sym_value \<and> (\<forall>t\<in>{TSym n}. holds k s' t)
    | Throw e s' \<Rightarrow> consistent k B s' \<and> extends s s' | Undefined \<Rightarrow> False | Timeout \<Rightarrow> True"
    using s val by (auto simp: create_symbol_def consistent_symbols extends_symbols sym_value_def)
qed

lemma tryEval_safe [safe_intro]:
  assumes "calls_safe k C" "entails k A (TAddr a)"
  shows "yields k A (prim_tryEval C a)"
proof -
  let ?R = "\<lambda>as. distinct (map attr_name as)" and ?P = "\<lambda>as. TAttr ` set as"
  have "safe k {} A ?R ?P (ev_catch
       (ev_bind (force_at C a) (\<lambda>_.
        ev_bind (create_symbol ''success'') (\<lambda>n.
        ev_bind (alloc_value (VBool True)) (\<lambda>t. ev_return [mk_attr sym_value a, mk_attr n t]))))
       (\<lambda>e. if is_assertion_error e then
          ev_bind (alloc_value (VBool False)) (\<lambda>f.
          ev_bind (create_symbol ''success'') (\<lambda>n. ev_return [mk_attr sym_value f, mk_attr n f]))
        else ev_throw e))"
    by (rule safe_catch safe_if safe_bind safe_throw force_at_safe create_success_safe safe_alloc safe_return
      | (use assms in \<open>auto intro: entails_intro\<close>; fail)[1])+
  then show ?thesis unfolding prim_tryEval_def
    by (rule safe_bind) (auto intro!: safe_finish_attrs intro: entails_intro entails_member)
qed

lemma partition_safe [safe_intro]:
  "calls_safe k C \<Longrightarrow> entails k A (TAddr f) \<Longrightarrow> entails k A (TAddr a) \<Longrightarrow> yields k A (prim_partition C f a)"
  unfolding prim_partition_def
  by (rule safe_bind [OF safe_map_fst] safe_finish_attrs safe_intro | (auto intro: entails_intro safe_return; fail)[1]
    | (rule entails_filter_fst, assumption, simp; fail)[1] | (auto simp: sym_right_def sym_wrong_def; fail)[1])+

lemma entails_forced_set [entails_intro]:
  "entails k (insert (TIs a (VAttrs b)) A) (TSet a)" "entails k (insert t (insert (TIs a (VAttrs b)) A)) (TSet a)" "TIs a (VAttrs b) \<in> A \<Longrightarrow> entails k A (TSet a)"
  by (auto simp: entails_def)

lemma cell_attrs_safe: "entails k A (TSet a) \<Longrightarrow> safe k B A (\<lambda>_. True) (\<lambda>b. {TVal (VAttrs b)}) (cell_attrs a)"
proof (rule safeI)
  fix s
  assume A: "entails k A (TSet a)" and s: "consistent k B s" "\<forall>t\<in>A. holds k s t"
  then obtain b where b: "a < length (heap_values s)" "heap_values s ! a = VAttrs b" using entailsD [OF A s] by auto
  then have "value_ok k s (VAttrs b)" using s(1) nth_mem [OF b(1)] unfolding consistent_def by metis
  with b s(1) show "case cell_attrs a s of Ret b s' \<Rightarrow> consistent k B s' \<and> extends s s' \<and> True \<and> (\<forall>t\<in>{TVal (VAttrs b)}. holds k s' t)
    | Throw e s' \<Rightarrow> consistent k B s' \<and> extends s s' | Undefined \<Rightarrow> False | Timeout \<Rightarrow> True"
    by (simp add: cell_attrs_def ev_bind_def read_value_def ev_return_def)
qed

lemma sorted_first_of_name:
  "sorted (map fst ps) \<Longrightarrow> (\<And>m. prev = Some m \<Longrightarrow> \<forall>p\<in>set ps. m \<le> fst p) \<Longrightarrow>
   sorted_wrt (<) (map fst (first_of_name prev ps)) \<and> (\<forall>m. prev = Some m \<longrightarrow> (\<forall>p\<in>set (first_of_name prev ps). m < fst p))"
proof (induction prev ps rule: first_of_name.induct)
  case (2 prev n x ps)
  show ?case
  proof (cases "prev = Some n")
    case True
    with 2 show ?thesis by auto
  next
    case False
    have "sorted_wrt (<) (map fst (first_of_name (Some n) ps)) \<and> (\<forall>p\<in>set (first_of_name (Some n) ps). n < fst p)"
      using 2(2) [OF False] 2(3) by auto
    moreover have "m < n" if "prev = Some m" for m using 2(4) [OF that] False that by force
    ultimately show ?thesis using False by (auto intro: order.strict_trans)
  qed
qed simp

lemma set_first_of_name: "set (first_of_name prev ps) \<subseteq> set ps"
  by (induction prev ps rule: first_of_name.induct) auto

lemma listToAttrs_safe [safe_intro]:
  assumes "calls_safe k C" "entails k A (TAddr a)"
  shows "yields k A (prim_listToAttrs C a)"
  unfolding prim_listToAttrs_def
proof (rule safe_bind [OF forces_safe(2) [OF assms]])
  fix xs
  let ?A = "A \<union> {TVal (VList xs)}" and ?P = "\<lambda>(n, x). {TSym n, TSet x}"
  let ?f = "\<lambda>x. ev_bind (forceAttrs C x) (\<lambda>b. ev_bind (getAttr sym_name b) (\<lambda>j.
       ev_bind (forceStringNoCtx C j) (\<lambda>s. ev_bind (create_symbol s) (\<lambda>n. ev_return (n, x)))))"
  let ?g = "\<lambda>(n, x). ev_bind (cell_attrs x) (\<lambda>b. ev_bind (getAttr sym_value b) (\<lambda>j. ev_return (mk_attr n j)))"
  have f: "safe k {} ?A (\<lambda>_. True) ?P (?f x)" if "x \<in> set xs" for x
    by (rule safe_bind [OF forceAttrs_is [OF assms(1)]] safe_bind [OF getAttr_safe] safe_bind [OF forces_safe(7) [OF assms(1)]]
        safe_bind [OF safe_create_symbol] safe_return
      | (use that in \<open>auto intro: entails_intro\<close>; fail)[1])+
  show "yields k ?A (ev_bind (ev_map ?f xs) (\<lambda>ps. ev_bind (ev_map ?g (first_of_name None (sort_key fst ps))) sorted_attrs))"
  proof (rule safe_bind [OF safe_map [OF f]], assumption)
    fix ps :: "(Symbol \<times> nat) list"
    let ?B = "?A \<union> (\<Union>p\<in>set ps. ?P p)" and ?qs = "first_of_name None (sort_key fst ps)"
    have sorted: "sorted_wrt (<) (map fst ?qs)" using sorted_first_of_name [of "sort_key fst ps" None] by simp
    have g: "safe k {} ?B (\<lambda>a. attr_name a = fst p) (\<lambda>a. {TAttr a}) (?g p)" if "p \<in> set ?qs" for p
    proof (cases p)
      case (Pair n x)
      then have p: "(n, x) \<in> set ps" using that set_first_of_name [of None "sort_key fst ps"] by auto
      then have "TSym n \<in> ?B" "TSet x \<in> ?B" by force+
      then show ?thesis unfolding Pair
        by (simp only: prod.case fst_conv)
          (rule safe_bind [OF cell_attrs_safe] safe_bind [OF getAttr_safe] safe_return_attr refl
            | (auto intro: entails_intro entails_member simp del: UN_iff; fail)[1])+
    qed
    show "yields k ?B (ev_bind (ev_map ?g ?qs) sorted_attrs)"
      by (rule safe_bind [OF safe_map_attrs [OF g]], assumption, rule safe_sorted_attrs) (use sorted in \<open>auto intro: entails_member\<close>)
  qed
qed

lemma sorted_intersection:
  "sorted_wrt (<) (map attr_name ls) \<Longrightarrow> (\<And>n r. f n = Some r \<Longrightarrow> attr_name r = n) \<Longrightarrow>
   sorted_wrt (<) (map attr_name (concat (map (\<lambda>l. case f (attr_name l) of Some r \<Rightarrow> [r] | None \<Rightarrow> []) ls)))"
proof (induction ls)
  case (Cons l ls)
  have "attr_name r \<in> attr_name ` set ls" if r: "r \<in> set (concat (map (\<lambda>l. case f (attr_name l) of Some r \<Rightarrow> [r] | None \<Rightarrow> []) ls))" for r
  proof -
    obtain l where l: "l \<in> set ls" "Some r = f (attr_name l)" using r by (auto split: option.splits)
    then show ?thesis using Cons.prems(2) [of "attr_name l" r] by simp
  qed
  with Cons show ?case by (fastforce split: option.split)
qed simp

lemma intersectAttrs_safe [safe_intro]:
  assumes "calls_safe k C" "entails k A (TAddr a)" "entails k A (TAddr b)"
  shows "yields k A (prim_intersectAttrs C a b)"
  unfolding prim_intersectAttrs_def
proof (rule safe_then [OF forceAttrs_is [OF assms(1,2)]], rule safe_then [OF forceAttrs_is [OF assms(1)]])
  fix x y
  show "entails k (A \<union> {TVal (VAttrs x), TIs a (VAttrs x)}) (TAddr b)" using assms by (auto intro: entails_intro)
  let ?A = "A \<union> {TVal (VAttrs x), TIs a (VAttrs x)} \<union> {TVal (VAttrs y), TIs b (VAttrs y)}"
  have "TIs a (VAttrs x) \<in> ?A" "TIs b (VAttrs y) \<in> ?A" by simp_all
  then have sets: "entails k ?A (TSet a)" "entails k ?A (TSet b)" by (auto intro: entails_forced_set simp del: Un_insert_right)
  show "yields k ?A (ev_bind (cell_attrs a) (\<lambda>left. ev_bind (cell_attrs b) (\<lambda>right.
         if bindings_size left < bindings_size right then
           ev_bind (attr_entries left) (\<lambda>ls. sorted_attrs (concat (map (\<lambda>l. case get_attr right (attr_name l) of Some r \<Rightarrow> [r] | None \<Rightarrow> []) ls)))
         else ev_bind (attr_entries right) (\<lambda>rs. sorted_attrs (filter (\<lambda>r. get_attr left (attr_name r) \<noteq> None) rs)))))"
  proof (rule safe_bind [OF cell_attrs_safe [OF sets(1)]], rule safe_bind [OF cell_attrs_safe])
    fix left right
    show "entails k (?A \<union> {TVal (VAttrs left)}) (TSet b)" by (rule entails_member_simps(3) [OF sets(2)])
    let ?B = "?A \<union> {TVal (VAttrs left)} \<union> {TVal (VAttrs right)}"
    have r: "entails k ?B (TVal (VAttrs right))" and l: "entails k ?B (TVal (VAttrs left))" by (auto intro: entails_intro)
    have "yields k ?B (ev_bind (attr_entries left) (\<lambda>ls. sorted_attrs (concat (map (\<lambda>l. case get_attr right (attr_name l) of Some r \<Rightarrow> [r] | None \<Rightarrow> []) ls))))"
    proof (rule entails_bindings_ok [OF r], rule safe_bind [OF safe_entries_simple [OF l]], rule safe_sorted_attrs)
      fix ls :: "nat Attr list" and i
      assume ok: "bindings_ok right"
      assume "i \<in> set (concat (map (\<lambda>l. case get_attr right (attr_name l) of Some r \<Rightarrow> [r] | None \<Rightarrow> []) ls))"
      then obtain n where "get_attr right n = Some i" by (auto split: option.splits dest: sym)
      then have "i \<in> binding_attrs right" using get_attr_binding [OF ok] by blast
      then show "entails k (?B \<union> TAttr ` set ls) (TAttr i)" by (rule entails_member_simps(3) [OF entails_attrs(1) [OF r]])
    qed (rule sorted_intersection, auto dest: get_attr_binding)
    moreover have "yields k ?B (ev_bind (attr_entries right) (\<lambda>rs. sorted_attrs (filter (\<lambda>r. get_attr left (attr_name r) \<noteq> None) rs)))"
      by (rule safe_bind [OF safe_entries_simple [OF r]], rule safe_sorted_attrs) (auto intro: sorted_filter_attrs entails_member)
    ultimately show "yields k ?B (if bindings_size left < bindings_size right then
           ev_bind (attr_entries left) (\<lambda>ls. sorted_attrs (concat (map (\<lambda>l. case get_attr right (attr_name l) of Some r \<Rightarrow> [r] | None \<Rightarrow> []) ls)))
         else ev_bind (attr_entries right) (\<lambda>rs. sorted_attrs (filter (\<lambda>r. get_attr left (attr_name r) \<noteq> None) rs)))"
      by (rule safe_if)
  qed
qed

fun group_tokens :: "(Symbol \<times> nat list) list \<Rightarrow> token set" where
  "group_tokens [] = {}"
| "group_tokens ((n, ys) # gs) = insert (TSym n) (TAddr ` set ys \<union> group_tokens gs)"

lemma group_insert_names: "fst ` set (group_insert n x gs) = insert n (fst ` set gs)"
  by (induction n x gs rule: group_insert.induct) auto

lemma group_insert_sorted: "sorted_wrt (<) (map fst gs) \<Longrightarrow> sorted_wrt (<) (map fst (group_insert n x gs))"
proof (induction n x gs rule: group_insert.induct)
  case (2 n x m ys gs)
  then show ?case using group_insert_names [of n x gs] by (force simp flip: set_map)
qed simp

lemma group_insert_tokens: "group_tokens (group_insert n x gs) = insert (TSym n) (insert (TAddr x) (group_tokens gs))"
  by (induction n x gs rule: group_insert.induct) auto

lemma group_tokens_member: "g \<in> set gs \<Longrightarrow> insert (TSym (fst g)) (TAddr ` set (snd g)) \<subseteq> group_tokens gs"
  by (induction gs rule: group_tokens.induct) auto

lemma groupBy_safe [safe_intro]:
  assumes "calls_safe k C" "entails k A (TAddr f)" "entails k A (TAddr a)"
  shows "yields k A (prim_groupBy C f a)"
  unfolding prim_groupBy_def
proof (rule safe_then [OF forces_safe(5) [OF assms(1,2)]], rule safe_bind [OF forces_safe(2) [OF assms(1)]])
  show "entails k (A \<union> {}) (TAddr a)" using assms by simp
  fix xs
  let ?A = "A \<union> {} \<union> {TVal (VList xs)}" and ?I = "\<lambda>gs. sorted_wrt (<) (map fst gs)"
  let ?f = "\<lambda>x gs. ev_bind (call_c C (At f) [x]) (\<lambda>v. force_tmp C v (\<lambda>v.
       ev_bind (as_string_no_ctx v) (\<lambda>s. ev_bind (create_symbol s) (\<lambda>n. ev_return (group_insert n x gs)))))"
  let ?g = "\<lambda>(n, ys). ev_bind (alloc_value (VList ys)) (\<lambda>y. ev_return (mk_attr n y))"
  have step: "safe k {} (?A \<union> group_tokens gs) ?I group_tokens (?f x gs)" if "x \<in> set xs" "?I gs" for x gs
    by (rule safe_bind [OF calls_safe_rules(3) [OF assms(1)]] force_tmp_safe [OF assms(1)] safe_bind [OF as_more_safe(1)] safe_bind [OF safe_create_symbol]
        safe_return group_insert_sorted
      | (use that assms in \<open>auto intro: entails_intro entails_member simp: group_insert_tokens\<close>; fail)[1])+
  have cell: "safe k {} (?A \<union> group_tokens gs) (\<lambda>a. attr_name a = fst p) (\<lambda>a. {TAttr a}) (?g p)" if "p \<in> set gs" for p gs
  proof (cases p)
    case (Pair n ys)
    then have sub: "TSym n \<in> group_tokens gs" "TAddr ` set ys \<subseteq> group_tokens gs" using group_tokens_member [OF that] by auto
    show ?thesis unfolding Pair prod.case fst_conv
      by (rule safe_bind [OF safe_alloc] safe_return_attr refl | (use sub in \<open>force intro: entails_member simp: entails_list\<close>; fail)[1])+
  qed
  have fold: "safe k {} ?A ?I group_tokens (ev_fold ?f xs [])" by (rule safe_fold [OF step]) auto
  show "yields k ?A (ev_bind (ev_fold ?f xs []) (\<lambda>gs. ev_bind (ev_map ?g gs) sorted_attrs))"
    by (rule safe_bind [OF fold], rule safe_bind [OF safe_map_attrs [OF cell]], assumption, rule safe_sorted_attrs) (auto intro: entails_member)
qed

lemma primop_impl_safe [safe_intro]:
  assumes "calls_safe k C" "\<forall>x\<in>set xs. entails k A (TAddr x)" "primop_arity p \<le> length xs"
  shows "yields k A (primop_impl cfg C p xs)"
proof -
  have one: "yields k A (args1 f xs)" if "1 \<le> length xs" "\<And>a. entails k A (TAddr a) \<Longrightarrow> yields k A (f a)" for f
    using that assms(2) by (cases xs) (auto simp: args1_def)
  have two: "yields k A (args2 f xs)" if "2 \<le> length xs" "\<And>a b. entails k A (TAddr a) \<Longrightarrow> entails k A (TAddr b) \<Longrightarrow> yields k A (f a b)" for f
    using that assms(2) by (cases xs rule: remdups_adj.cases) (auto simp: args2_def)
  have three: "yields k A (args3 f xs)" if "3 \<le> length xs"
    "\<And>a b c. entails k A (TAddr a) \<Longrightarrow> entails k A (TAddr b) \<Longrightarrow> entails k A (TAddr c) \<Longrightarrow> yields k A (f a b c)" for f
    using that assms(2) by (cases xs; cases "tl xs"; cases "tl (tl xs)") (auto simp: args3_def)
  show ?thesis unfolding primop_impl_def
    by (cases p; simp only: primop.case; (rule one two three safe_intro assms(1) | (use assms(3) in \<open>simp add: primop_arity_def\<close>; fail)[1] | assumption)+)
qed

end
