(* ===== verification/Nix_Soundness.thy ===== *)
theory Nix_Soundness
  imports Nix_Safety
begin

text \<open>
  The evaluator respects the contract of its recursive calls: environments of recursive sets, \<^verbatim>\<open>let\<close>,
  \<^verbatim>\<open>with\<close> and calls are complete before they are used, and every operation of \<^verbatim>\<open>Nix_Eval\<close> is safe.
  By induction on the fuel the evaluation of a bound program does nothing undefined.
\<close>

section \<open>Environments\<close>

lemma safe_fill_all:
  assumes "entails k A (TFill e 0 n)" "length ms = n" "\<And>m. m \<in> set ms \<Longrightarrow> safe k B A (\<lambda>_. True) (\<lambda>a. {TAddr a}) m"
  shows "safe k B A (\<lambda>as. length as = n) (\<lambda>as. insert (TFill e n n) (TAddr ` set as)) (fill_slots e 0 ms)"
  using safe_fill_slots [OF assms(1) _ assms(3), where ms = ms] assms(2) by simp

lemma bound_slots:
  assumes "scoped_def d k plain inherited ish" "entails k A (TEnv env2 plain)" "entails k A (TEnv env inherited)"
    "case (inh, ish) of (Some e, Some i) \<Rightarrow> entails k A (TEnv e i) | (None, None) \<Rightarrow> True | _ \<Rightarrow> False"
  obtains e sh where "chooseByKind (def_kind d) (Some env2) (Some env) inh = Some e" "entails k A (TEnv e sh)" "scoped (def_expr d) k sh"
proof (cases d)
  case (AttrDef kind x displ)
  then show ?thesis using assms that by (cases kind; cases inh; cases ish) (auto simp: chooseByKind_def)
qed

lemma attr_thunk_safe:
  assumes "scoped_def d k plain inherited ish" "entails k A (TEnv env2 plain)" "entails k A (TEnv env inherited)"
    "case (inh, ish) of (Some e, Some i) \<Rightarrow> entails k A (TEnv e i) | (None, None) \<Rightarrow> True | _ \<Rightarrow> False"
  shows "safe k B A (\<lambda>_. True) (\<lambda>a. {TAddr a}) (attr_thunk t env2 env inh d)"
proof -
  obtain e sh where "chooseByKind (def_kind d) (Some env2) (Some env) inh = Some e" "entails k A (TEnv e sh)" "scoped (def_expr d) k sh"
    by (rule bound_slots [OF assms])
  then show ?thesis unfolding attr_thunk_def by (auto simp: non_null_def intro: maybeThunk_safe safe_alloc entails_thunk)
qed

text \<open>What is known of the environment of the sources of \<^verbatim>\<open>inherit\<close>.\<close>

definition inherit_tokens :: "nat list \<Rightarrow> expr list option \<Rightarrow> nat option \<Rightarrow> token set" where
  "inherit_tokens sh froms inh = (case (inh, froms) of (Some e, Some es) \<Rightarrow> {TEnv e (length es # sh)} | _ \<Rightarrow> {})"

lemma inherit_from_env_safe:
  assumes "entails k A (TEnv up sh)" "\<forall>es\<in>set_option froms. \<forall>x\<in>set es. scoped x k sh"
  shows "safe k B A (\<lambda>inh. inh = None \<longleftrightarrow> froms = None) (inherit_tokens sh froms) (inherit_from_env froms up)"
proof (cases froms)
  case None
  then show ?thesis by (auto simp: inherit_from_env_def inherit_tokens_def intro: safe_return)
next
  case (Some es)
  have "safe k B A (\<lambda>_. True) (\<lambda>e. {TEnv e (length es # sh)}) (buildInheritFromEnv es up)"
    unfolding buildInheritFromEnv_def ev_then_def
  proof (rule safe_new_env [OF assms(1)])
    fix e
    show "quiet (fill_slots e 0 (map (\<lambda>x. maybeThunk x up) es))" by (auto intro!: quiet_intro)
    let ?A = "A \<union> {TEnv e (length es # sh), TFill e 0 (length es)}"
    have ms: "safe k (insert e B) ?A (\<lambda>_. True) (\<lambda>a. {TAddr a}) m" if "m \<in> set (map (\<lambda>x. maybeThunk x up) es)" for m
      using that assms Some by (auto intro!: maybeThunk_safe intro: entails_intro)
    show "safe k (insert e B) ?A (\<lambda>as. length as = length es) (\<lambda>as. insert (TFill e (length es) (length es)) (TAddr ` set as))
        (fill_slots e 0 (map (\<lambda>x. maybeThunk x up) es))" by (rule safe_fill_all [OF _ _ ms]) (auto intro: entails_member)
  qed (auto intro: safe_return entails_member)
  then show ?thesis unfolding Some inherit_from_env_def option.case
    by (rule safe_bind) (auto simp: inherit_tokens_def intro!: safe_return intro: entails_member)
qed

lemma inherit_known:
  "(inh = None) = (froms = None) \<Longrightarrow> inherit_tokens sh froms inh \<subseteq> A \<Longrightarrow>
   case (inh, map_option (\<lambda>es. length es # sh) froms) of (Some e, Some i) \<Rightarrow> entails k A (TEnv e i) | (None, None) \<Rightarrow> True | _ \<Rightarrow> False"
  by (cases inh; cases froms) (auto simp: inherit_tokens_def intro: entails_member)

lemma quiet_attr_thunk [quiet_intro]: "quiet (attr_thunk t e2 e inh d)"
  unfolding attr_thunk_def by (intro quiet_intro)

lemma quiet_inherit [quiet_intro]: "quiet (inherit_from_env froms up)"
  unfolding inherit_from_env_def buildInheritFromEnv_def by (auto intro!: quiet_intro split: option.split)

lemma scoped_node_parts:
  assumes "scoped_node n k newsh sh"
  shows "sorted_wrt (<) (map fst (static_attrs n))" "\<forall>a\<in>set (static_attrs n). fst a < k"
    "\<forall>es\<in>set_option (inheritFromExprs n). \<forall>x\<in>set es. scoped x k newsh"
    "\<forall>p\<in>set (static_attrs n). scoped_def (snd p) k newsh sh (map_option (\<lambda>es. length es # newsh) (inheritFromExprs n))"
    "\<forall>p\<in>set (dynamicAttrs n). scoped (fst p) k newsh \<and> scoped (snd p) k newsh"
  using assms by (cases n; force)+
lemma recursive_env_safe:
  assumes env: "entails k A (TEnv env sh)" and n: "scoped_node n k (length (static_attrs n) # sh) sh"
    and cont: "\<And>e vs. length vs = length (static_attrs n) \<Longrightarrow>
      safe k B (A \<union> insert (TEnv e (length (static_attrs n) # sh)) (TAddr ` set vs)) R P (c (e, vs))"
  shows "safe k B A R P (ev_bind (recursive_env t n env) c)"
proof -
  let ?sh = "length (static_attrs n) # sh" and ?froms = "inheritFromExprs n" and ?N = "length (static_attrs n)"
  let ?fill = "\<lambda>env2 inh. fill_slots env2 0 (map (\<lambda>i. attr_thunk t env2 env inh (snd i)) (static_attrs n))"
  have "ev_bind (recursive_env t n env) c =
      ev_bind (alloc_env (Some env) ?N) (\<lambda>env2. ev_bind (ev_bind (inherit_from_env ?froms env2) (?fill env2)) (\<lambda>vs. c (env2, vs)))"
    by (simp add: recursive_env_def ev_bind_assoc)
  moreover have "safe k B A R P \<dots>"
  proof (rule safe_new_env [OF env _ _ cont])
    fix e
    show "quiet (ev_bind (inherit_from_env ?froms e) (?fill e))" by (auto intro!: quiet_intro)
    let ?A = "A \<union> {TEnv e ?sh, TFill e 0 ?N}"
    show "safe k (insert e B) ?A (\<lambda>vs. length vs = ?N) (\<lambda>vs. insert (TFill e ?N ?N) (TAddr ` set vs)) (ev_bind (inherit_from_env ?froms e) (?fill e))"
    proof (rule safe_bind [OF inherit_from_env_safe])
      show "entails k ?A (TEnv e ?sh)" by (auto intro: entails_intro)
      show "\<forall>es\<in>set_option ?froms. \<forall>x\<in>set es. scoped x k ?sh" by (rule scoped_node_parts(3) [OF n])
      fix inh :: "nat option"
      assume inh: "(inh = None) = (?froms = None)"
      let ?B = "?A \<union> inherit_tokens ?sh ?froms inh"
      have ms: "safe k (insert e B) ?B (\<lambda>_. True) (\<lambda>a. {TAddr a}) m" if m: "m \<in> set (map (\<lambda>i. attr_thunk t e env inh (snd i)) (static_attrs n))" for m
      proof -
        obtain i where i: "i \<in> set (static_attrs n)" "m = attr_thunk t e env inh (snd i)" using m by auto
        show ?thesis unfolding i(2)
          by (rule attr_thunk_safe [OF bspec [OF scoped_node_parts(4) [OF n] i(1)] _ _ inherit_known [OF inh]]) (use env in \<open>auto intro: entails_intro\<close>)
      qed
      show "safe k (insert e B) ?B (\<lambda>vs. length vs = ?N) (\<lambda>vs. insert (TFill e ?N ?N) (TAddr ` set vs)) (?fill e inh)"
        by (rule safe_fill_all [OF _ _ ms]) (auto intro: entails_member)
    qed
  qed
  ultimately show ?thesis by simp
qed

section \<open>Sets, \<^verbatim>\<open>let\<close> and \<^verbatim>\<open>with\<close>\<close>

lemma ExprLet_eval_safe [safe_intro]:
  assumes "calls_safe k C" "entails k A (TEnv env sh)" "scoped (ExprLet n body) k sh"
  shows "yields k A (ExprLet_eval C n body env)"
  unfolding ExprLet_eval_def
  by (rule recursive_env_safe [OF assms(2)])
    (use assms(3) in \<open>auto intro!: calls_safe_rules(1) [OF assms(1), where sh = "length (static_attrs n) # sh"] intro: entails_member\<close>)

lemma ExprWith_eval_safe [safe_intro]:
  assumes "calls_safe k C" "entails k A (TEnv env sh)" "scoped (ExprWith prev parent scope body) k sh"
  shows "yields k A (ExprWith_eval C scope body env)"
  unfolding ExprWith_eval_def ev_then_def
proof (rule safe_new_env [OF assms(2)])
  fix e
  show "quiet (fill_slots e 0 [maybeThunk scope env])" by (auto intro!: quiet_intro)
  let ?A = "A \<union> {TEnv e (1 # sh), TFill e 0 1}"
  have ms: "safe k {e} ?A (\<lambda>_. True) (\<lambda>a. {TAddr a}) m" if "m \<in> set [maybeThunk scope env]" for m
    using that assms by (auto intro!: maybeThunk_safe intro: entails_intro)
  show "safe k {e} ?A (\<lambda>as. length as = 1) (\<lambda>as. insert (TFill e 1 1) (TAddr ` set as)) (fill_slots e 0 [maybeThunk scope env])"
    by (rule safe_fill_all [OF _ _ ms]) (auto intro: entails_member)
qed (use assms in \<open>auto intro!: calls_safe_rules(1) [where sh = "1 # sh"] intro: entails_member\<close>)

section \<open>Overrides and dynamic attributes\<close>

lemma entails_mono: "entails k A t \<Longrightarrow> A \<subseteq> A' \<Longrightarrow> entails k A' t"
  by (auto simp: entails_def)

lemma numbered_lookup:
  assumes "map (\<lambda>a. def_displ (snd a)) as = [0..<length as]" "map_of as name = Some d"
  shows "def_displ d < length as" "fst (as ! def_displ d) = name"
proof -
  obtain j where j: "j < length as" "as ! j = (name, d)" using map_of_SomeD [OF assms(2)] by (auto simp: in_set_conv_nth)
  then have "map (\<lambda>a. def_displ (snd a)) as ! j = def_displ d" by simp
  with assms(1) j have "def_displ d = j" by simp
  with j show "def_displ d < length as" "fst (as ! def_displ d) = name" by simp_all
qed

lemma overrides_safe:
  assumes n: "map (\<lambda>a. def_displ (snd a)) (static_attrs n) = [0..<length (static_attrs n)]"
  shows "entails k A (TEnv env2 (length (static_attrs n) # sh)) \<Longrightarrow> distinct (map attr_name is) \<Longrightarrow> distinct (map attr_name bs) \<Longrightarrow>
    take (length (static_attrs n)) (map attr_name bs) = map fst (static_attrs n) \<Longrightarrow>
    attr_name ` set is \<inter> attr_name ` set bs \<subseteq> fst ` set (static_attrs n) \<Longrightarrow> \<forall>i\<in>set is \<union> set bs. entails k A (TAttr i) \<Longrightarrow>
    safe k B A (\<lambda>bs. distinct (map attr_name bs)) (\<lambda>bs. TAttr ` set bs) (ev_fold (override_attr n env2) is bs)"
proof (induction "is" arbitrary: bs A)
  case (Cons i "is")
  let ?as = "static_attrs n"
  have IH: "safe k B A (\<lambda>bs. distinct (map attr_name bs)) (\<lambda>bs. TAttr ` set bs) (ev_fold (override_attr n env2) is bs')"
    if "distinct (map attr_name bs')" "take (length ?as) (map attr_name bs') = map fst ?as" "attr_name ` set is \<inter> attr_name ` set bs' \<subseteq> fst ` set ?as"
      "set bs' \<subseteq> insert i (set bs)" for bs'
    by (rule Cons.IH) (use Cons.prems that in auto)
  have len: "length ?as \<le> length bs" using arg_cong [OF Cons.prems(4), of length] by simp
  show ?case
  proof (cases "map_of ?as (attr_name i)")
    case None
    then have new: "attr_name i \<notin> fst ` set ?as" by (simp add: map_of_eq_None_iff)
    have "safe k B A (\<lambda>bs. distinct (map attr_name bs)) (\<lambda>bs. TAttr ` set bs) (ev_fold (override_attr n env2) is (bs @ [i]))"
      by (rule IH) (use Cons.prems new len in auto)
    moreover have "override_attr n env2 i bs = ev_return (bs @ [i])" by (simp add: override_attr_def None)
    ultimately show ?thesis by simp
  next
    case (Some d)
    note d = numbered_lookup [OF n Some]
    have "map attr_name bs ! def_displ d = fst (?as ! def_displ d)" using arg_cong [OF Cons.prems(4), of "\<lambda>xs. xs ! def_displ d"] d len by simp
    then have names: "map attr_name (bs[def_displ d := i]) = map attr_name bs" using d len by (simp add: map_update list_update_same_conv)
    have "attr_name ` set (bs[def_displ d := i]) = attr_name ` set bs" using arg_cong [OF names, of set] by simp
    then have "safe k B A (\<lambda>bs. distinct (map attr_name bs)) (\<lambda>bs. TAttr ` set bs) (ev_fold (override_attr n env2) is (bs[def_displ d := i]))"
      by (intro IH) (use Cons.prems names set_update_subset_insert [of bs "def_displ d" i] in auto)
    moreover have "entails k A (TAddr (attr_value i))" using Cons.prems(6) by (simp add: entails_attr)
    moreover have "override_attr n env2 i bs = ev_bind (write_slot env2 (def_displ d) (attr_value i)) (\<lambda>_. ev_return (bs[def_displ d := i]))"
      using d len by (simp add: override_attr_def Some ev_then_def)
    ultimately show ?thesis using d
      by (simp add: ev_bind_assoc) (rule safe_bind [OF safe_write_slot [OF Cons.prems(1)]]; simp)
  qed
qed (auto intro!: safe_return)

lemma apply_overrides_safe:
  assumes "calls_safe k C" "entails k A (TEnv env2 (length (static_attrs n) # sh))" "sorted_wrt (<) (map fst (static_attrs n))"
    and n: "map (\<lambda>a. def_displ (snd a)) (static_attrs n) = [0..<length (static_attrs n)]" and d: "map_of (static_attrs n) name = Some d"
    and bs: "map attr_name bs = map fst (static_attrs n)" "\<forall>i\<in>set bs. entails k A (TAttr i)"
  shows "safe k {} A (\<lambda>bs. distinct (map attr_name bs)) (\<lambda>bs. TAttr ` set bs) (apply_overrides C n d env2 bs)"
proof -
  have len: "def_displ d < length bs" using numbered_lookup(1) [OF n d] arg_cong [OF bs(1), of length] by simp
  then have addr: "entails k A (TAddr (attr_value (bs ! def_displ d)))" using bs(2) by (simp add: entails_attr)
  have "safe k {} A (\<lambda>bs. distinct (map attr_name bs)) (\<lambda>bs. TAttr ` set bs)
      (ev_bind (forceAttrs C (attr_value (bs ! def_displ d))) (\<lambda>b. ev_bind (attr_entries b) (\<lambda>is. ev_fold (override_attr n env2) is bs)))"
  proof (rule safe_bind [OF forces_safe(1) [OF assms(1) addr]], intro safe_bind [OF safe_entries_simple] overrides_safe [OF n])
    fix b and "is" :: "nat Attr list"
    let ?A = "A \<union> {TVal (VAttrs b)}"
    show "entails k ?A (TVal (VAttrs b))" by (auto intro: entails_intro)
    show "entails k (?A \<union> TAttr ` set is) (TEnv env2 (length (static_attrs n) # sh))" using assms(2) by (rule entails_mono) auto
    show "\<forall>i\<in>set is \<union> set bs. entails k (?A \<union> TAttr ` set is) (TAttr i)" using bs(2) by (auto intro: entails_mono entails_member)
    show "attr_name ` set is \<inter> attr_name ` set bs \<subseteq> fst ` set (static_attrs n)" using arg_cong [OF bs(1), of set] by simp
  qed (use assms(3) bs(1) in \<open>auto intro: strict_sorted_imp_sorted simp: strict_sorted_iff\<close>)
  then show ?thesis using len by (simp add: apply_overrides_def)
qed

text \<open>The builder of a set: names are distinct, and sorted unless it will be sorted.\<close>

definition builder_ok :: "nat Attr list \<times> bool \<Rightarrow> bool" where
  "builder_ok st \<longleftrightarrow> distinct (map attr_name (fst st)) \<and> (\<not> snd st \<longrightarrow> sorted_wrt (<) (map attr_name (fst st)))"

lemma sorted_builder: "builder_ok (bs, f) \<Longrightarrow> sorted_wrt (<) (map attr_name (if f then sort_key attr_name bs else bs))"
proof -
  assume ok: "builder_ok (bs, f)"
  have "distinct (map attr_name (sort_key attr_name bs))" if "distinct (map attr_name bs)"
    using that by (simp add: distinct_map)
  with ok show ?thesis by (auto simp: builder_ok_def strict_sorted_iff)
qed

lemma dynamic_attr_safe:
  assumes C: "calls_safe k C" and env: "entails k A (TEnv env sh)" "scoped (fst d) k sh" "scoped (snd d) k sh" and st: "builder_ok st"
  shows "safe k {} (A \<union> TAttr ` set (fst st)) builder_ok (\<lambda>st. TAttr ` set (fst st)) (dynamic_attr C env d st)"
proof -
  obtain nameExpr valueExpr bs f where d: "d = (nameExpr, valueExpr)" "st = (bs, f)" by (cases d; cases st)
  let ?A = "A \<union> TAttr ` set bs" and ?bs = "if f then sort_key attr_name bs else bs"
  have sorted: "sorted_wrt (<) (map attr_name ?bs)" using sorted_builder st d by blast
  have same: "set ?bs = set bs" by simp
  have add: "safe k {} B builder_ok (\<lambda>st. TAttr ` set (fst st)) (ev_bind (maybeThunk valueExpr env) (\<lambda>a. ev_return (?bs @ [mk_attr n a], True)))"
    if "getInChunk n ?bs = None" "?A \<subseteq> B" "TSym n \<in> B" for n B
  proof (rule safe_bind [OF maybeThunk_safe])
    show "entails k B (TEnv env sh)" using env(1) by (rule entails_mono) (use that(2) in auto)
    fix a
    have "n \<notin> attr_name ` set ?bs" using that(1) by (simp add: getInChunk_map [OF sorted] chunk_map_None del: set_sort)
    then have "builder_ok (?bs @ [mk_attr n a], True)" using strict_sorted_iff [of "map attr_name ?bs"] sorted by (simp add: builder_ok_def)
    then show "safe k {} (B \<union> {TAddr a}) builder_ok (\<lambda>st. TAttr ` set (fst st)) (ev_return (?bs @ [mk_attr n a], True))"
      by (rule safe_return) (use that(2,3) same in \<open>auto intro!: entails_mk_attr intro: entails_member\<close>)
  qed (use env(3) d in simp)
  have keep: "safe k {} B builder_ok (\<lambda>st. TAttr ` set (fst st)) (ev_return (bs, f))" if "?A \<subseteq> B" for B
    by (rule safe_return) (use st d that in \<open>auto intro: entails_member\<close>)
  show ?thesis unfolding dynamic_attr_def d prod.case fst_conv Let_def
    by (rule safe_bind [OF calls_safe_rules(1) [OF C]] force_tmp_safe [OF C] safe_if keep add safe_throw safe_bind [OF as_more_safe(1)] safe_bind [OF safe_create_symbol]
      | (use env d in \<open>auto intro: entails_intro entails_mono\<close>; fail)[1])+
qed

lemma finish_set_safe:
  assumes "builder_ok st" "\<And>i. i \<in> set (fst st) \<Longrightarrow> entails k A (TAttr i)"
  shows "safe k B A whnf (\<lambda>v. {TVal v}) (finish_set st)"
  using assms unfolding finish_set_def builder_ok_def by (auto intro: safe_finish_attrs safe_sorted_attrs)

text \<open>The dynamic attributes and the end, of both kinds of sets.\<close>

lemma finish_builder:
  assumes C: "calls_safe k C" and env: "entails k A (TEnv env sh)" "\<forall>d\<in>set ds. scoped (fst d) k sh \<and> scoped (snd d) k sh"
    and st: "builder_ok st" "\<And>i. i \<in> set (fst st) \<Longrightarrow> entails k A (TAttr i)"
  shows "yields k A (ev_bind (ev_fold (dynamic_attr C env) ds st) finish_set)"
proof (rule safe_bind [OF safe_fold [where I = builder_ok and T = "\<lambda>st. TAttr ` set (fst st)"]])
  fix d and st' :: "nat Attr list \<times> bool"
  assume "d \<in> set ds" "builder_ok st'"
  then show "safe k {} (A \<union> TAttr ` set (fst st')) builder_ok (\<lambda>st. TAttr ` set (fst st)) (dynamic_attr C env d st')"
    using env by (intro dynamic_attr_safe [OF C]) auto
qed (use st in \<open>auto intro: finish_set_safe entails_member\<close>)

lemma map2_names: "length xs = length vs \<Longrightarrow> map attr_name (map2 mk_attr (map fst xs) vs) = map fst xs"
  by (induction xs vs rule: list_induct2) auto

lemma set_map2_attrs: "i \<in> set (map2 mk_attr ns vs) \<Longrightarrow> \<exists>n\<in>set ns. \<exists>v\<in>set vs. i = mk_attr n v"
  by (auto dest: set_zip_leftD set_zip_rightD)

lemma ExprAttrs_rec_safe:
  assumes C: "calls_safe k C" and env: "entails k A (TEnv env sh)" and n: "scoped (ExprAttrs n) k sh" "is_recursive n"
  shows "yields k A (ExprAttrs_eval C n env)"
proof -
  let ?as = "static_attrs n" and ?o = "map_of (static_attrs n) sym_overrides"
  let ?sh = "length ?as # sh"
  have node: "scoped_node n k ?sh sh" and displs: "map (\<lambda>a. def_displ (snd a)) ?as = [0..<length ?as]" using n by simp_all
  note parts = scoped_node_parts [OF node]
  have "yields k A (ev_bind (recursive_env (?o \<noteq> None) n env) (\<lambda>p. case p of (env2, vs) \<Rightarrow>
      ev_bind (case ?o of None \<Rightarrow> ev_return (map2 mk_attr (map fst ?as) vs) | Some d \<Rightarrow> apply_overrides C n d env2 (map2 mk_attr (map fst ?as) vs))
        (\<lambda>bs. ev_bind (ev_fold (dynamic_attr C env2) (dynamicAttrs n) (bs, ?o \<noteq> None)) finish_set)))"
  proof (rule recursive_env_safe [OF env node], unfold prod.case)
    fix env2 :: nat and vs :: "nat list"
    assume len: "length vs = length ?as"
    let ?A = "A \<union> insert (TEnv env2 ?sh) (TAddr ` set vs)" and ?bs = "map2 mk_attr (map fst ?as) vs"
    have names: "map attr_name ?bs = map fst ?as" by (rule map2_names) (simp add: len)
    have bs: "entails k ?A (TAttr i)" if i: "i \<in> set ?bs" for i
    proof -
      obtain m v where "m \<in> set (map fst ?as)" "v \<in> set vs" "i = mk_attr m v" using set_map2_attrs [OF i] by blast
      then show ?thesis using parts(2) by (auto intro!: entails_mk_attr intro: entails_symbol entails_member)
    qed
    have env2: "entails k A' (TEnv env2 ?sh)" if "?A \<subseteq> A'" for A' by (rule entails_member) (use that in auto)
    show "yields k ?A (ev_bind (case ?o of None \<Rightarrow> ev_return ?bs | Some d \<Rightarrow> apply_overrides C n d env2 ?bs)
        (\<lambda>bs. ev_bind (ev_fold (dynamic_attr C env2) (dynamicAttrs n) (bs, ?o \<noteq> None)) finish_set))"
    proof (cases ?o)
      case None
      have "builder_ok (?bs, False)" using parts(1) names by (simp add: builder_ok_def strict_sorted_iff)
      from finish_builder [OF C env2 [OF subset_refl] parts(5) this]
      have "yields k ?A (ev_bind (ev_fold (dynamic_attr C env2) (dynamicAttrs n) (?bs, False)) finish_set)" using bs by (simp only: fst_conv)
      then show ?thesis by (simp add: None)
    next
      case (Some d)
      have "safe k {} ?A (\<lambda>bs. distinct (map attr_name bs)) (\<lambda>bs. TAttr ` set bs) (apply_overrides C n d env2 ?bs)"
        by (rule apply_overrides_safe [OF C env2 [OF subset_refl] parts(1) displs Some names]) (use bs in blast)
      then have "yields k ?A (ev_bind (apply_overrides C n d env2 ?bs) (\<lambda>bs. ev_bind (ev_fold (dynamic_attr C env2) (dynamicAttrs n) (bs, True)) finish_set))"
      proof (rule safe_bind)
        fix bs :: "nat Attr list"
        assume "distinct (map attr_name bs)"
        then have "builder_ok (bs, True)" by (simp add: builder_ok_def)
        then show "yields k (?A \<union> TAttr ` set bs) (ev_bind (ev_fold (dynamic_attr C env2) (dynamicAttrs n) (bs, True)) finish_set)"
          by (intro finish_builder [OF C env2 parts(5)]) (auto intro: entails_member)
      qed
      then show ?thesis by (simp add: Some)
    qed
  qed
  then show ?thesis using n(2) by (simp add: ExprAttrs_eval_def Let_def)
qed

lemma ExprAttrs_plain_safe:
  assumes C: "calls_safe k C" and env: "entails k A (TEnv env sh)" and n: "scoped (ExprAttrs n) k sh" "\<not> is_recursive n"
  shows "yields k A (ExprAttrs_eval C n env)"
proof -
  let ?as = "static_attrs n" and ?froms = "inheritFromExprs n"
  have node: "scoped_node n k sh sh" using n by simp
  note parts = scoped_node_parts [OF node]
  let ?cell = "\<lambda>inh i. ev_bind (attr_thunk False env env inh (snd i)) (\<lambda>a. ev_return (mk_attr (fst i) a))"
  have "yields k A (ev_bind (inherit_from_env ?froms env) (\<lambda>inh. ev_bind (ev_map (?cell inh) ?as) (\<lambda>bs.
      ev_bind (ev_fold (dynamic_attr C env) (dynamicAttrs n) (bs, False)) finish_set)))"
  proof (rule safe_bind [OF inherit_from_env_safe [OF env parts(3)]], rule safe_bind [OF safe_map_attrs [where g = fst]])
    fix inh :: "nat option" and i
    assume inh: "(inh = None) = (?froms = None)" and i: "i \<in> set ?as"
    let ?A = "A \<union> inherit_tokens sh ?froms inh"
    have "entails k ?A (TEnv env sh)" using env by (rule entails_mono) simp
    then show "safe k {} ?A (\<lambda>a. attr_name a = fst i) (\<lambda>a. {TAttr a}) (?cell inh i)"
      by (intro safe_bind [OF attr_thunk_safe [OF bspec [OF parts(4) i] _ _ inherit_known [OF inh]]] safe_return_attr refl)
        (use parts(2) i in \<open>auto intro: entails_symbol entails_member\<close>)
  next
    fix inh :: "nat option" and bs :: "nat Attr list"
    assume names: "map attr_name bs = map fst ?as"
    have "builder_ok (bs, False)" using parts(1) names by (simp add: builder_ok_def strict_sorted_iff)
    then show "yields k (A \<union> inherit_tokens sh ?froms inh \<union> TAttr ` set bs) (ev_bind (ev_fold (dynamic_attr C env) (dynamicAttrs n) (bs, False)) finish_set)"
      by (intro finish_builder [OF C entails_mono [OF env] parts(5)]) (auto intro: entails_member)
  qed
  then show ?thesis using n(2) by (simp add: ExprAttrs_eval_def)
qed

lemma ExprAttrs_eval_safe [safe_intro]:
  "calls_safe k C \<Longrightarrow> entails k A (TEnv env sh) \<Longrightarrow> scoped (ExprAttrs n) k sh \<Longrightarrow> yields k A (ExprAttrs_eval C n env)"
  using ExprAttrs_rec_safe ExprAttrs_plain_safe by blast

section \<open>Selection\<close>

lemma select_loop_safe:
  "calls_safe k C \<Longrightarrow> entails k A (TEnv env sh) \<Longrightarrow> \<forall>d\<in>set_option dflt. scoped d k sh \<Longrightarrow> \<forall>i\<in>set path. scoped_elem i k sh \<Longrightarrow>
   entails k A (ref_token r) \<Longrightarrow> yields k A (select_loop C dflt env path r)"
proof (induction path arbitrary: A r)
  case (Cons i path)
  note C = Cons.prems(1)
  show ?case unfolding select_loop.simps
  proof (rule safe_bind [OF getName_safe [OF C Cons.prems(2)]], use Cons.prems(4) in simp, rule safe_bind [OF force_ref_safe [OF C]])
    show "entails k (A \<union> {}) (ref_token r)" using Cons.prems(5) by simp
    fix name v
    let ?A = "A \<union> {} \<union> {TVal v}"
    have env: "entails k A' (TEnv env sh)" if "?A \<subseteq> A'" for A' by (rule entails_mono [OF Cons.prems(2)]) (use that in auto)
    have found: "yields k A' (select_loop C dflt env path (At (attr_value j)))"
      if "get_attr b name = Some j" "bindings_ok b" "?A \<subseteq> A'" "entails k A' (TVal (VAttrs b))" for b j A'
      by (rule Cons.IH [OF C env]) (use that Cons.prems(3,4) in \<open>auto intro: entails_get_attr\<close>)
    have default: "yields k A' (eval_c C d env)" if "dflt = Some d" "?A \<subseteq> A'" for d A'
      by (rule calls_safe_rules(1) [OF C env]) (use that Cons.prems(3) in auto)
    have look: "yields k ?A (case (case v of VAttrs b \<Rightarrow> get_attr b name | _ \<Rightarrow> None) of None \<Rightarrow> eval_c C d env
        | Some j \<Rightarrow> select_loop C dflt env path (At (attr_value j)))" if "dflt = Some d" for d
    proof (cases "\<exists>b. v = VAttrs b")
      case True
      then obtain b where b: "v = VAttrs b" by blast
      have e: "entails k ?A (TVal (VAttrs b))" by (auto simp: b intro: entails_intro)
      show ?thesis
        by (rule entails_bindings_ok [OF e]; cases "get_attr b name") (use default [OF that subset_refl] found [OF _ _ subset_refl e] b in simp_all)
    qed (use default [OF that subset_refl] in \<open>auto split: nix_value.split\<close>)
    have strict: "yields k ?A (ev_bind (as_attrs v) (\<lambda>b. case get_attr b name of None \<Rightarrow> ev_throw EvalError
        | Some j \<Rightarrow> select_loop C dflt env path (At (attr_value j))))"
    proof (rule safe_bind [OF as_attrs_safe])
      fix b
      have e: "entails k (?A \<union> {TVal (VAttrs b)}) (TVal (VAttrs b))" by (auto intro: entails_intro)
      show "yields k (?A \<union> {TVal (VAttrs b)}) (case get_attr b name of None \<Rightarrow> ev_throw EvalError
        | Some j \<Rightarrow> select_loop C dflt env path (At (attr_value j)))"
        by (rule entails_bindings_ok [OF e]; cases "get_attr b name") (use found [OF _ _ Un_upper1 e] in \<open>simp_all add: safe_throw\<close>)
    qed (auto intro: entails_intro)
    show "yields k ?A (case dflt of
       Some d \<Rightarrow> (case (case v of VAttrs b \<Rightarrow> get_attr b name | _ \<Rightarrow> None) of
           None \<Rightarrow> eval_c C d env
         | Some j \<Rightarrow> select_loop C dflt env path (At (attr_value j)))
     | None \<Rightarrow> ev_bind (as_attrs v) (\<lambda>b. case get_attr b name of
           None \<Rightarrow> ev_throw EvalError
         | Some j \<Rightarrow> select_loop C dflt env path (At (attr_value j))))"
      using look strict by (cases dflt) simp_all
  qed
qed (auto intro: safe_intro)

lemma has_attr_loop_safe:
  "calls_safe k C \<Longrightarrow> entails k A (TEnv env sh) \<Longrightarrow> \<forall>i\<in>set path. scoped_elem i k sh \<Longrightarrow>
   entails k A (ref_token r) \<Longrightarrow> yields k A (has_attr_loop C env path r)"
proof (induction path arbitrary: A r)
  case (Cons i path)
  note C = Cons.prems(1)
  show ?case unfolding has_attr_loop.simps
  proof (rule safe_bind [OF force_ref_safe [OF C Cons.prems(4)]], rule safe_bind [OF getName_safe [OF C]])
    fix v and name :: Symbol
    let ?A = "A \<union> {TVal v} \<union> {}"
    show env: "entails k (A \<union> {TVal v}) (TEnv env sh)" by (rule entails_mono [OF Cons.prems(2)]) auto
    have found: "yields k ?A (has_attr_loop C env path (At (attr_value j)))" if "get_attr b name = Some j" "bindings_ok b" "v = VAttrs b" for b j
      by (rule Cons.IH [OF C]) (use that env Cons.prems(3) in \<open>auto intro: entails_get_attr entails_intro\<close>)
    show "yields k ?A (case (case v of VAttrs b \<Rightarrow> get_attr b name | _ \<Rightarrow> None) of
         Some j \<Rightarrow> has_attr_loop C env path (At (attr_value j)) | None \<Rightarrow> ev_return (VBool False))"
    proof (cases "\<exists>b. v = VAttrs b")
      case True
      then obtain b where b: "v = VAttrs b" by blast
      have e: "entails k ?A (TVal (VAttrs b))" by (auto simp: b intro: entails_intro)
      show ?thesis by (rule entails_bindings_ok [OF e]) (use found b in \<open>auto intro: safe_return_value entails_intro split: option.split\<close>)
    qed (auto split: nix_value.split intro: safe_return_value entails_intro)
  qed (use Cons.prems(3) in simp)
qed (auto intro: safe_return_value entails_intro)

section \<open>Calls\<close>

lemma formals_has_member: "formals_has fs x \<Longrightarrow> x \<in> fst ` set fs"
proof (cases "dropWhile (\<lambda>f. fst f < x) fs")
  case (Cons f gs)
  assume "formals_has fs x"
  then have "fst f = x" by (simp add: formals_has_def Cons)
  moreover have "f \<in> set fs" by (rule set_dropWhileD [where P = "\<lambda>f. fst f < x"]) (simp add: Cons)
  ultimately show ?thesis by blast
qed (simp add: formals_has_def)

lemma formals_count:
  assumes "distinct (map fst fs)" "distinct (map attr_name as)" "\<forall>a\<in>set as. attr_name a \<in> fst ` set fs"
    "\<And>n. found n \<longleftrightarrow> n \<in> attr_name ` set as"
  shows "length (filter (\<lambda>f. found (fst f)) fs) = length as"
proof -
  let ?gs = "filter (\<lambda>f. found (fst f)) fs"
  have "set (map fst ?gs) = fst ` set fs \<inter> attr_name ` set as" using assms(4) by auto
  also have "\<dots> = set (map attr_name as)" using assms(3) by auto
  finally have "set (map fst ?gs) = set (map attr_name as)" .
  moreover have "distinct (map fst ?gs)" using assms(1) by (rule distinct_map_filter)
  ultimately show ?thesis using assms(2) distinct_card by (metis length_map)
qed

lemma check_formals_safe:
  assumes b: "entails k A (TVal (VAttrs b))" and fs: "sorted_wrt (<) (map fst fs)"
  shows "safe k B A (\<lambda>_. \<forall>f\<in>set fs. get_attr b (fst f) \<noteq> None \<or> snd f \<noteq> None) (\<lambda>_. {}) (check_formals fs ell b)"
proof (cases "list_ex (\<lambda>(n, d). get_attr b n = None \<and> d = None) fs")
  case True
  then show ?thesis by (simp add: check_formals_def safe_throw)
next
  case False
  then have defaults: "\<forall>f\<in>set fs. get_attr b (fst f) \<noteq> None \<or> snd f \<noteq> None" by (force simp: list_ex_iff)
  have unexpected: "safe k B A (\<lambda>_. \<forall>f\<in>set fs. get_attr b (fst f) \<noteq> None \<or> snd f \<noteq> None) (\<lambda>_. {})
      (ev_bind (attr_entries b) (\<lambda>as. if list_ex (\<lambda>i. \<not> formals_has fs (attr_name i)) as then ev_throw TypeError else ev_undefined))"
    if size: "length (filter (\<lambda>f. get_attr b (fst f) \<noteq> None) fs) \<noteq> bindings_size b"
  proof (rule safe_bind [OF safe_entries [OF b]], elim conjE)
    fix as
    assume as: "sorted_wrt (<) (map attr_name as)" "length as = bindings_size b" "\<forall>n a. get_attr b n = Some a \<longleftrightarrow> a \<in> set as \<and> attr_name a = n"
    have "\<exists>i\<in>set as. \<not> formals_has fs (attr_name i)"
    proof (rule ccontr)
      assume "\<not> ?thesis"
      then have "\<forall>a\<in>set as. attr_name a \<in> fst ` set fs" using formals_has_member by blast
      moreover have "get_attr b n \<noteq> None \<longleftrightarrow> n \<in> attr_name ` set as" for n using as(3) by force
      ultimately show False using formals_count [of fs as "\<lambda>n. get_attr b n \<noteq> None"] as fs size by (simp add: strict_sorted_iff)
    qed
    then show "safe k B (A \<union> TAttr ` set as) (\<lambda>_. \<forall>f\<in>set fs. get_attr b (fst f) \<noteq> None \<or> snd f \<noteq> None) (\<lambda>_. {})
        (if list_ex (\<lambda>i. \<not> formals_has fs (attr_name i)) as then ev_throw TypeError else ev_undefined)"
      by (simp add: list_ex_iff safe_throw)
  qed
  show ?thesis unfolding check_formals_def using False unexpected defaults by (auto intro: safe_return)
qed

lemma lambda_env_safe:
  assumes env: "entails k A (TEnv env sh)"
    and N: "N = (if lambda_arg l = None then 0 else 1) + (case lambda_formals l of Some fs \<Rightarrow> length (formal_list fs) | None \<Rightarrow> 0)"
    and ms: "\<And>e. length (xs @ f e) = N" "\<And>e m. m \<in> set (xs @ f e) \<Longrightarrow> quiet m \<and> safe k (insert e B) (A \<union> {TEnv e (N # sh)}) (\<lambda>_. True) (\<lambda>a. {TAddr a}) m"
  shows "safe k B A (\<lambda>_. True) (\<lambda>e. {TEnv e (N # sh)}) (lambda_env l env xs f)"
  unfolding lambda_env_def ev_then_def N [symmetric]
proof (rule safe_new_env [OF env])
  fix e
  show "quiet (fill_slots e 0 (xs @ f e))" using ms(2) by (intro quiet_fill) blast
  let ?A = "A \<union> {TEnv e (N # sh), TFill e 0 N}"
  have cells: "safe k (insert e B) ?A (\<lambda>_. True) (\<lambda>a. {TAddr a}) m" if "m \<in> set (xs @ f e)" for m
    by (rule safe_pre [OF conjunct2 [OF ms(2) [OF that]]]) (auto intro: entails_member)
  show "safe k (insert e B) ?A (\<lambda>as. length as = N) (\<lambda>as. insert (TFill e N N) (TAddr ` set as)) (fill_slots e 0 (xs @ f e))"
    by (rule safe_fill_all [OF _ ms(1) cells]) (auto intro: entails_member)
qed (auto intro: safe_return entails_member)

lemma safe_closure:
  assumes "entails k A (TVal (VLambda env l))" "\<And>sh. scoped_lambda l k sh \<Longrightarrow> safe k B (A \<union> {TEnv env sh}) R P m"
  shows "safe k B A R P m"
proof (rule safeI)
  fix s
  assume s: "consistent k B s" "\<forall>t\<in>A. holds k s t"
  obtain sh where sh: "env_shape s env sh" "scoped_lambda l k sh" using entailsD [OF assms(1) s] by auto
  then have "\<forall>t\<in>A \<union> {TEnv env sh}. holds k s t" using s(2) by auto
  with assms(2) [OF sh(2)] s(1) show "case m s of Ret x s' \<Rightarrow> consistent k B s' \<and> extends s s' \<and> R x \<and> (\<forall>t\<in>P x. holds k s' t)
    | Throw e s' \<Rightarrow> consistent k B s' \<and> extends s s' | Undefined \<Rightarrow> False | Timeout \<Rightarrow> True" by (simp add: safe_def)
qed

lemma scoped_lambda_parts:
  assumes "scoped_lambda l k sh"
    and N: "N = (if lambda_arg l = None then 0 else 1) + (case lambda_formals l of Some fs \<Rightarrow> length (formal_list fs) | None \<Rightarrow> 0)"
  shows "scoped (lambda_body l) k (N # sh)" "lambda_formals l = None \<Longrightarrow> lambda_arg l \<noteq> None"
    "lambda_formals l = Some fs \<Longrightarrow> sorted_wrt (<) (map fst (formal_list fs)) \<and> (\<forall>f\<in>set (formal_list fs). \<forall>x\<in>set_option (snd f). scoped x k (N # sh))"
  using assms by (cases l; cases fs; force simp: Let_def)+

lemma quiet_formal_value [quiet_intro]: "quiet (formal_value b e f)"
  unfolding formal_value_def by (intro quiet_intro)

lemma formal_value_safe:
  assumes "entails k A (TVal (VAttrs b))" "bindings_ok b" "get_attr b (fst f) \<noteq> None \<or> snd f \<noteq> None"
    "\<forall>x\<in>set_option (snd f). scoped x k sh" "entails k A (TEnv e sh)"
  shows "safe k B A (\<lambda>_. True) (\<lambda>a. {TAddr a}) (formal_value b e f)"
  using assms unfolding formal_value_def
  by (auto simp: non_null_def intro!: safe_return maybeThunk_safe entails_get_attr split: option.split)

lemma call_lambda_safe:
  assumes C: "calls_safe k C" and l: "entails k A (TVal (VLambda env l))" and arg: "entails k A (TAddr arg)"
  shows "yields k A (call_lambda C env l arg)"
proof (rule safe_closure [OF l])
  fix sh
  let ?N = "(if lambda_arg l = None then 0 else 1) + (case lambda_formals l of Some fs \<Rightarrow> length (formal_list fs) | None \<Rightarrow> 0)"
  let ?A = "A \<union> {TEnv env sh}"
  assume "scoped_lambda l k sh"
  note parts = scoped_lambda_parts [OF this refl]
  have env: "entails k A' (TEnv env sh)" if "?A \<subseteq> A'" for A' by (rule entails_member) (use that in auto)
  have arg': "entails k A' (TAddr arg)" if "?A \<subseteq> A'" for A' by (rule entails_mono [OF arg]) (use that in auto)
  have body: "yields k (?A \<union> {TEnv e (?N # sh)}) (eval_c C (lambda_body l) e)" for e
    by (rule calls_safe_rules(1) [OF C _ parts(1)]) (auto intro: entails_intro)
  show "yields k ?A (call_lambda C env l arg)" unfolding call_lambda_def
  proof (cases "lambda_formals l")
    case None
    have "safe k {} ?A (\<lambda>_. True) (\<lambda>e. {TEnv e (?N # sh)}) (lambda_env l env [ev_return arg] (\<lambda>_. []))"
      by (rule lambda_env_safe [OF env [OF subset_refl] refl]) (use None parts(2) in \<open>auto intro!: quiet_steps safe_return arg'\<close>)
    then show "yields k ?A (ev_bind (case lambda_formals l of
         Some fs \<Rightarrow> ev_bind (forceAttrs C arg) (\<lambda>b. ev_then (check_formals (formal_list fs) (ellipsis fs) b)
             (lambda_env l env (if lambda_arg l = None then [] else [ev_return arg]) (\<lambda>env2. map (formal_value b env2) (formal_list fs))))
       | None \<Rightarrow> lambda_env l env [ev_return arg] (\<lambda>_. [])) (eval_c C (lambda_body l)))"
      unfolding None option.case by (rule safe_bind) (use body None in simp)
  next
    case (Some fs)
    note fs = parts(3) [OF Some]
    let ?xs = "if lambda_arg l = None then [] else [ev_return arg]" and ?f = "\<lambda>b env2. map (formal_value b env2) (formal_list fs)"
    have "safe k {} ?A (\<lambda>_. True) (\<lambda>e. {TEnv e (?N # sh)}) (ev_bind (forceAttrs C arg) (\<lambda>b.
        ev_then (check_formals (formal_list fs) (ellipsis fs) b) (lambda_env l env ?xs (?f b))))"
    proof (rule safe_bind [OF forces_safe(1) [OF C arg' [OF subset_refl]]])
      fix b
      let ?B = "?A \<union> {TVal (VAttrs b)}"
      have b: "entails k A' (TVal (VAttrs b))" if "?B \<subseteq> A'" for A' by (rule entails_member) (use that in auto)
      show "safe k {} ?B (\<lambda>_. True) (\<lambda>e. {TEnv e (?N # sh)}) (ev_then (check_formals (formal_list fs) (ellipsis fs) b) (lambda_env l env ?xs (?f b)))"
      proof (rule entails_bindings_ok [OF b [OF subset_refl]], rule safe_then [OF check_formals_safe [OF b [OF subset_refl] conjunct1 [OF fs]]],
          rule lambda_env_safe [OF env refl])
        fix e m
        assume ok: "bindings_ok b" "\<forall>f\<in>set (formal_list fs). get_attr b (fst f) \<noteq> None \<or> snd f \<noteq> None" and m: "m \<in> set (?xs @ ?f b e)"
        let ?D = "?B \<union> {} \<union> {TEnv e (?N # sh)}"
        have "safe k {e} ?D (\<lambda>_. True) (\<lambda>a. {TAddr a}) (formal_value b e f)" if "f \<in> set (formal_list fs)" for f
          using that ok fs by (intro formal_value_safe b) (auto intro: entails_member)
        then show "quiet m \<and> safe k {e} ?D (\<lambda>_. True) (\<lambda>a. {TAddr a}) m"
          using m by (auto intro!: quiet_intro safe_return arg' split: if_splits)
      qed (use Some in auto)
    qed
    then show "yields k ?A (ev_bind (case lambda_formals l of
         Some fs \<Rightarrow> ev_bind (forceAttrs C arg) (\<lambda>b. ev_then (check_formals (formal_list fs) (ellipsis fs) b)
             (lambda_env l env (if lambda_arg l = None then [] else [ev_return arg]) (\<lambda>env2. map (formal_value b env2) (formal_list fs))))
       | None \<Rightarrow> lambda_env l env [ev_return arg] (\<lambda>_. [])) (eval_c C (lambda_body l)))"
      unfolding Some option.case by (rule safe_bind) (use body Some in simp)
  qed
qed

lemma unwind_append: "unwind v xs = map_option (\<lambda>(p, ys). (p, ys @ xs)) (unwind v [])"
proof (induction v arbitrary: xs)
  case (VPrimOpApp f a)
  from VPrimOpApp [of "a # xs"] VPrimOpApp [of "[a]"] show ?case by (cases "unwind f []") (auto split: prod.splits)
qed simp_all

lemma unwind_chain: "unwind v [] = Some (p, ys) \<Longrightarrow> unwind (fold (\<lambda>a f. VPrimOpApp f a) xs v) [] = Some (p, ys @ xs)"
proof (induction xs arbitrary: v ys)
  case (Cons x xs)
  then show ?case using unwind_append [of v "[x]"] by (auto simp: Cons.IH)
qed simp

lemma chain_shape: "(\<exists>p. v = VPrimOp p) \<or> (\<exists>f a. v = VPrimOpApp f a) \<Longrightarrow>
   fold (\<lambda>a f. VPrimOpApp f a) xs v = v \<or> (\<exists>f a. fold (\<lambda>a f. VPrimOpApp f a) xs v = VPrimOpApp f a)"
proof (induction xs arbitrary: v)
  case (Cons x xs)
  then show ?case using Cons.IH [of "VPrimOpApp v x"] by auto
qed simp

text \<open>A primop or a partial application that may be called.\<close>

lemma applicable_unwind:
  assumes v: "entails k A (TVal v)" "(\<exists>p. v = VPrimOp p \<and> 0 < primop_arity p) \<or> (\<exists>f a. v = VPrimOpApp f a)"
    and cont: "\<And>p ys. unwind v [] = Some (p, ys) \<Longrightarrow> length ys < primop_arity p \<Longrightarrow> \<forall>y\<in>set ys. entails k A (TAddr y) \<Longrightarrow> safe k B A R P m"
  shows "safe k B A R P m"
  using v(2)
proof (elim disjE exE conjE)
  fix p
  assume "v = VPrimOp p" "0 < primop_arity p"
  then show ?thesis by (intro cont [of p "[]"]) auto
next
  fix f a
  assume v': "v = VPrimOpApp f a"
  show ?thesis
  proof (rule safe_entails [where p = "\<exists>p ys. unwind v [] = Some (p, ys) \<and> length ys < primop_arity p"])
    fix s
    assume "consistent k B s" "\<forall>t\<in>A. holds k s t"
    from entailsD [OF v(1) this] show "\<exists>p ys. unwind v [] = Some (p, ys) \<and> length ys < primop_arity p" by (auto simp: v' split: option.splits)
  next
    assume "\<exists>p ys. unwind v [] = Some (p, ys) \<and> length ys < primop_arity p"
    then obtain p ys where p: "unwind v [] = Some (p, ys)" "length ys < primop_arity p" by blast
    show ?thesis
    proof (rule cont [OF p], rule ballI)
      fix y
      assume "y \<in> set ys"
      then show "entails k A (TAddr y)" using v(1) p(1) by (fastforce simp: entails_def v')
    qed
  qed
qed

lemma primop_arity_pos: "0 < primop_arity p"
  by (cases p) (simp_all add: primop_arity_def)

lemma call_primop_safe:
  assumes C: "calls_safe k C" and v: "entails k A (TVal v)" "(\<exists>p. v = VPrimOp p) \<or> (\<exists>f a. v = VPrimOpApp f a)"
    and args: "\<forall>x\<in>set xs. entails k A (TAddr x)"
  shows "yields k A (call_primop cfg C v xs)"
proof (rule applicable_unwind [OF v(1)])
  show "(\<exists>p. v = VPrimOp p \<and> 0 < primop_arity p) \<or> (\<exists>f a. v = VPrimOpApp f a)" using v(2) by (auto intro: primop_arity_pos)
  fix p ys
  assume p: "unwind v [] = Some (p, ys)" "length ys < primop_arity p" and ys: "\<forall>y\<in>set ys. entails k A (TAddr y)"
  let ?left = "primop_arity p - length ys" and ?chain = "fold (\<lambda>a f. VPrimOpApp f a) xs v"
  have extend: "yields k A (ev_return ?chain)" if "length xs < ?left"
  proof (rule safe_return_value)
    show "whnf ?chain" using chain_shape [OF v(2), of xs] v(2) by auto
    show "entails k A (TVal ?chain)"
    proof (cases "?chain = v")
      case False
      then obtain f a where chain: "?chain = VPrimOpApp f a" using chain_shape [OF v(2), of xs] by blast
      then have "unwind (VPrimOpApp f a) [] = Some (p, ys @ xs)" using unwind_chain [OF p(1), of xs] by simp
      moreover have "\<forall>x\<in>set (ys @ xs). entails k A (TAddr x)" using args ys by auto
      ultimately show ?thesis using that p(2) unfolding chain entails_def by (auto simp del: unwind.simps)
    qed (simp add: v)
  qed
  have call: "yields k A (ev_bind (primop_impl cfg C p (ys @ take ?left xs)) (\<lambda>w. loop_c C w (drop ?left xs)))" if "\<not> length xs < ?left"
  proof (rule safe_bind [OF primop_impl_safe [OF C]])
    show "\<forall>x\<in>set (ys @ take ?left xs). entails k A (TAddr x)" using ys args by (auto dest: in_set_takeD)
    fix w
    assume "whnf w"
    then show "yields k (A \<union> {TVal w}) (loop_c C w (drop ?left xs))"
      using args by (intro calls_safe_rules(4) [OF C]) (auto intro: entails_intro dest: in_set_dropD)
  qed (use that p(2) in simp)
  show "yields k A (call_primop cfg C v xs)" unfolding call_primop_def p(1) non_null_def option.case ev_bind_return prod.case Let_def
    using extend call by simp
qed

lemma loop_body_safe:
  assumes C: "calls_safe k C" and v: "whnf v" "entails k A (TVal v)" and args: "\<forall>x\<in>set xs. entails k A (TAddr x)"
  shows "yields k A (loop_body cfg C v xs)"
proof (cases xs)
  case Nil
  then show ?thesis using v by (simp add: loop_body_def safe_return_value)
next
  case (Cons x ys)
  have rest: "yields k (A \<union> A' \<union> {TVal w}) (loop_c C w ys)" if "whnf w" for w A'
    using args Cons that by (intro calls_safe_rules(4) [OF C]) (auto intro: entails_intro)
  have functors: "yields k A (case get_attr b sym_functor of
       Some j \<Rightarrow> ev_bind (alloc_value v) (\<lambda>self. ev_bind (call_c C (At (attr_value j)) [self, x]) (\<lambda>w. loop_c C w ys))
     | None \<Rightarrow> ev_throw TypeError)" if b: "v = VAttrs b" for b
  proof (rule entails_bindings_ok [OF v(2) [unfolded b]])
    assume ok: "bindings_ok b"
    show ?thesis
    proof (rule safe_option [OF safe_throw], rule safe_bind [OF safe_alloc [OF v(2)]])
      fix j self
      assume "get_attr b sym_functor = Some j"
      then have "entails k A (TAddr (attr_value j))" using entails_get_attr [OF v(2) [unfolded b] _ ok] by blast
      then have "yields k (A \<union> {TAddr self}) (call_c C (At (attr_value j)) [self, x])"
        using args Cons by (intro calls_safe_rules(3) [OF C]) (auto intro: entails_intro)
      then show "yields k (A \<union> {TAddr self}) (ev_bind (call_c C (At (attr_value j)) [self, x]) (\<lambda>w. loop_c C w ys))"
        by (rule safe_bind) (rule rest)
    qed
  qed
  have lambda: "yields k A (ev_bind (call_lambda C env l x) (\<lambda>w. loop_c C w ys))" if "v = VLambda env l" for env l
    by (rule safe_bind [OF call_lambda_safe [OF C v(2) [unfolded that]]]) (use rest [of _ "{}"] args Cons in auto)
  show ?thesis unfolding loop_body_def Cons list.case
    by (cases v; simp only: nix_value.case) (use functors lambda call_primop_safe [OF C v(2) _ args, of cfg] Cons in \<open>auto intro: safe_throw\<close>)
qed

lemma callFunction_safe:
  assumes "calls_safe k C" "entails k A (ref_token f)" "\<forall>x\<in>set xs. entails k A (TAddr x)"
  shows "yields k A (callFunction cfg C f xs)"
  unfolding callFunction_def
  by (intro safe_depth safe_bind [OF force_ref_safe [OF assms(1,2)]] calls_safe_rules(4) [OF assms(1)]) (use assms(3) in \<open>auto intro: entails_intro\<close>)

section \<open>Forcing\<close>

text \<open>Writing the cell that is being forced: it was not evaluated when the forcing began.\<close>

lemma write_forced:
  assumes "consistent k B s2" "extends s s2" "\<not> whnf (heap_values s ! a)" "a < length (heap_values s)" "value_ok k s2 v"
  shows "\<exists>s3. write_value a v s2 = Ret () s3 \<and> consistent k B s3 \<and> extends s s3 \<and> length (heap_values s3) = length (heap_values s2) \<and> heap_values s3 ! a = v"
proof -
  let ?s = "s2\<lparr>heap_values := (heap_values s2)[a := v]\<rparr>"
  have shape: "env_shape ?s e sh = env_shape s2 e sh" for e sh by (induction s2 e sh rule: env_shape.induct) (auto split: option.splits)
  have ok: "value_ok k ?s w = value_ok k s2 w" for w by (cases w) (auto simp: attr_ok_def shape split: option.splits)
  have slots: "slots_ok ?s e = slots_ok s2 e" for e by (simp add: slots_ok_def)
  have "value_ok k s2 w" if "w \<in> set ((heap_values s2)[a := v])" for w
    using that assms(1,5) set_update_subset_insert [of "heap_values s2" a v] by (auto simp: consistent_def)
  then have "consistent k B ?s" using assms(1) by (simp add: consistent_def ok slots)
  moreover have "extends s ?s" using assms(2-4) by (auto simp: extends_def nth_list_update)
  ultimately show ?thesis using assms(2,4) by (auto simp: write_value_def extends_def)
qed

definition kept :: "nat \<Rightarrow> eval_state \<Rightarrow> nat \<Rightarrow> unit outcome \<Rightarrow> bool" where
  "kept k s a r \<longleftrightarrow> (case r of Ret x s' \<Rightarrow> consistent k {} s' \<and> extends s s' \<and> (\<forall>t\<in>{TForced a}. holds k s' t)
     | Throw e s' \<Rightarrow> consistent k {} s' \<and> extends s s' | Undefined \<Rightarrow> False | Timeout \<Rightarrow> True)"

lemma cache_failure_kept:
  assumes "consistent k {} s2" "extends s s2" "\<not> whnf (heap_values s ! a)" "a < length (heap_values s)" "value_ok k s v"
  shows "kept k s a (cache_failure a v e s2)"
proof -
  have plain: "kept k s a (ev_then (write_value a (VFailed e r)) (ev_throw e) s3)"
    if "consistent k {} s3" "extends s s3" "value_ok k s3 (VFailed e r)" for r s3
    using write_forced [OF that(1,2) assms(3,4) that(3)] by (auto simp: kept_def ev_then_def ev_bind_def ev_throw_def)
  let ?s = "s2\<lparr>heap_values := heap_values s2 @ [v]\<rparr>"
  have ext: "extends s2 ?s" by (rule extends_append)
  have "consistent k {} ?s" by (rule consistent_append [OF assms(1) value_ok_extends [OF assms(5,2)]])
  then have "kept k s a (ev_then (write_value a (VFailed e (Some (length (heap_values s2))))) (ev_throw e) ?s)"
    using extends_trans [OF assms(2) ext] by (intro plain) simp_all
  moreover have "kept k s a (ev_then (write_value a (VFailed e None)) (ev_throw e) s2)" by (rule plain [OF assms(1,2)]) simp
  ultimately show ?thesis by (simp add: cache_failure_def ev_bind_assoc) (auto simp: ev_bind_def alloc_value_def)
qed

text \<open>A computation of the value of a cell, whose result or failure is written to it.\<close>

lemma compute_kept:
  assumes "a < length (heap_values s)" "\<not> whnf (heap_values s ! a)" "value_ok k s saved" "consistent k {} s1" "extends s s1"
    "safe k {} A whnf (\<lambda>v. {TVal v}) m" "\<forall>t\<in>A. holds k s1 t"
  shows "kept k s a (ev_catch (ev_bind m (write_value a)) (cache_failure a saved) s1)"
proof (cases "m s1")
  case (Ret v s2)
  then have "consistent k {} s2" "extends s s2" "whnf v" "value_ok k s2 v"
    using safeD(2) [OF assms(6,4,7) Ret] extends_trans [OF assms(5)] by auto
  with write_forced [OF this(1,2) assms(2,1) this(4)] obtain s3 where s3: "write_value a v s2 = Ret () s3" "consistent k {} s3" "extends s s3"
    "length (heap_values s3) = length (heap_values s2)" "heap_values s3 ! a = v" "whnf v" "extends s s2" by blast
  then have "a < length (heap_values s3)" using assms(1) by (auto simp: extends_def)
  with s3 Ret show ?thesis by (simp add: kept_def ev_catch_def ev_bind_def)
next
  case (Throw e s2)
  then have "consistent k {} s2" "extends s s2" using safeD(3) [OF assms(6,4,7) Throw] extends_trans [OF assms(5)] by auto
  from cache_failure_kept [OF this assms(2,1,3)] Throw show ?thesis by (simp add: ev_catch_def ev_bind_def)
qed (use safeD(1) [OF assms(6,4,7)] in \<open>auto simp: kept_def ev_catch_def ev_bind_def\<close>)

lemma forceValue_state:
  assumes C: "calls_safe k C" and s: "consistent k {} s" "a < length (heap_values s)"
  shows "kept k s a (forceValue C a s)"
proof -
  let ?v = "heap_values s ! a"
  have ok: "value_ok k s ?v" using s by (simp add: consistent_def)
  have ready: "kept k s a (ev_return () s)" if "whnf ?v" using that s by (simp add: kept_def ev_return_def)
  have read: "forceValue C a s = (case ?v of
       VThunk env e \<Rightarrow> ev_then (write_value a VBlackhole) (ev_catch (ev_bind (eval_c C e env) (write_value a)) (cache_failure a ?v))
     | VBlackhole \<Rightarrow> ev_then (write_value a (VFailed InfiniteRecursion None)) (ev_throw InfiniteRecursion)
     | VApp f x \<Rightarrow> ev_catch (ev_bind (call_c C (At f) [x]) (write_value a)) (cache_failure a ?v)
     | VFailed e None \<Rightarrow> ev_throw e
     | VFailed e (Some r) \<Rightarrow> ev_bind (read_value r) (\<lambda>w. ev_then (write_value a w) (force_c C a))
     | _ \<Rightarrow> ev_return ()) s"
    unfolding forceValue_def by (subst ev_bind_def) (simp add: read_value_def s(2))
  have store: "\<exists>s1. write_value a w s = Ret () s1 \<and> consistent k {} s1 \<and> extends s s1 \<and> a < length (heap_values s1)"
    if "\<not> whnf ?v" "value_ok k s w" for w
    using write_forced [OF s(1) extends_refl that(1) s(2) that(2)] s(2) by auto
  show ?thesis
  proof (cases ?v)
    case (VThunk env e)
    then obtain sh where sh: "env_shape s env sh" "scoped e k sh" using ok by auto
    have nw: "\<not> whnf ?v" by (simp add: VThunk)
    then obtain s1 where s1: "write_value a VBlackhole s = Ret () s1" "consistent k {} s1" "extends s s1" using store [of VBlackhole] by auto
    have "kept k s a (ev_catch (ev_bind (eval_c C e env) (write_value a)) (cache_failure a ?v) s1)"
      by (rule compute_kept [OF s(2) nw ok s1(2,3) calls_safe_rules(1) [OF C _ sh(2), where A = "{TEnv env sh}"]])
        (use env_shape_extends [OF sh(1) s1(3)] in \<open>auto intro: entails_member\<close>)
    then show ?thesis unfolding read VThunk nix_value.case by (simp add: ev_then_def ev_bind_def s1(1) VThunk)
  next
    case VBlackhole
    then obtain s1 where "write_value a (VFailed InfiniteRecursion None) s = Ret () s1" "consistent k {} s1" "extends s s1"
      using store [of "VFailed InfiniteRecursion None"] by auto
    then show ?thesis unfolding read VBlackhole nix_value.case by (simp add: kept_def ev_then_def ev_bind_def ev_throw_def)
  next
    case (VApp f x)
    then have fx: "f < length (heap_values s)" "x < length (heap_values s)" using ok by auto
    have nw: "\<not> whnf ?v" by (simp add: VApp)
    have "kept k s a (ev_catch (ev_bind (call_c C (At f) [x]) (write_value a)) (cache_failure a ?v) s)"
      by (rule compute_kept [OF s(2) nw ok s(1) extends_refl calls_safe_rules(3) [OF C, where A = "{TAddr f, TAddr x}"]])
        (use fx in \<open>auto intro: entails_member\<close>)
    then show ?thesis unfolding read VApp nix_value.case by simp
  next
    case (VFailed e r)
    show ?thesis
    proof (cases r)
      case None
      then show ?thesis unfolding read VFailed using s by (simp add: kept_def ev_throw_def)
    next
      case (Some r)
      then have r: "r < length (heap_values s)" using ok VFailed by auto
      then have "value_ok k s (heap_values s ! r)" using s(1) by (simp add: consistent_def)
      then obtain s1 where s1: "write_value a (heap_values s ! r) s = Ret () s1" "consistent k {} s1" "extends s s1" "a < length (heap_values s1)"
        using store [of "heap_values s ! r"] VFailed by auto
      have "entails k {TAddr a} (TAddr a)" by (rule entails_member) simp
      from safeD [OF calls_safe_rules(2) [OF C this] s1(2)] s1(4)
      have "kept k s1 a (force_c C a s1)" by (cases "force_c C a s1") (auto simp: kept_def)
      then have "kept k s a (force_c C a s1)" using extends_trans [OF s1(3)] by (auto simp: kept_def split: outcome.splits)
      then show ?thesis unfolding read VFailed Some nix_value.case option.case
        by (simp add: ev_bind_def ev_then_def read_value_def r s1(1))
    qed
  qed (unfold read, use ready in auto)
qed

lemma forceValue_safe:
  "calls_safe k C \<Longrightarrow> entails k A (TAddr a) \<Longrightarrow> safe k {} A (\<lambda>_. True) (\<lambda>_. {TForced a}) (forceValue C a)"
  by (rule safeI, drule (2) entailsD, drule (1) forceValue_state) (auto simp: kept_def split: outcome.splits)

section \<open>Strings\<close>

lemma string_list_safe: "calls_safe k C \<Longrightarrow> \<forall>x\<in>set xs. entails k A (TAddr x) \<Longrightarrow> safe k {} A (\<lambda>_. True) (\<lambda>_. {}) (string_list C p q t xs)"
proof (induction xs arbitrary: A)
  case (Cons x xs)
  show ?case unfolding string_list.simps
    by (rule safe_prod Cons.IH safe_bind [OF calls_safe_rules(6) [OF Cons.prems(1)]] safe_bind [OF safe_read] safe_bind safe_return_trivial
      | (use Cons.prems in \<open>auto intro: entails_intro entails_mono; fail\<close>)[1])+
qed (auto intro: safe_return)

lemma attrs_string_safe:
  assumes C: "calls_safe k C" and b: "entails k A (TVal (VAttrs b))" and r: "entails k A (ref_token r)"
  shows "safe k {} A (\<lambda>_. True) (\<lambda>_. {}) (case get_attr b sym_toString of
      Some i \<Rightarrow> ev_bind (case r of At a \<Rightarrow> ev_return a | Tmp w \<Rightarrow> alloc_value (VAttrs b)) (\<lambda>self.
        ev_bind (call_c C (At (attr_value i)) [self]) (\<lambda>v1. string_c C (Tmp v1) p q True))
    | None \<Rightarrow> (case get_attr b sym_outPath of Some i \<Rightarrow> string_c C (At (attr_value i)) p q t | None \<Rightarrow> ev_throw TypeError))"
proof (rule entails_bindings_ok [OF b])
  assume ok: "bindings_ok b"
  have self: "safe k {} A (\<lambda>_. True) (\<lambda>a. {TAddr a}) (case r of At a \<Rightarrow> ev_return a | Tmp w \<Rightarrow> alloc_value (VAttrs b))"
    using b r by (cases r) (auto intro: safe_alloc safe_return)
  show ?thesis
  proof (rule safe_option)
    fix i
    assume "get_attr b sym_toString = Some i"
    then have "entails k A (TAddr (attr_value i))" by (rule entails_get_attr [OF b _ ok])
    then show "safe k {} A (\<lambda>_. True) (\<lambda>_. {}) (ev_bind (case r of At a \<Rightarrow> ev_return a | Tmp w \<Rightarrow> alloc_value (VAttrs b)) (\<lambda>self.
        ev_bind (call_c C (At (attr_value i)) [self]) (\<lambda>v1. string_c C (Tmp v1) p q True)))"
      by (intro safe_bind [OF self] safe_bind [OF calls_safe_rules(3) [OF C]] calls_safe_rules(6) [OF C]) (auto intro: entails_intro)
  next
    show "safe k {} A (\<lambda>_. True) (\<lambda>_. {}) (case get_attr b sym_outPath of Some i \<Rightarrow> string_c C (At (attr_value i)) p q t | None \<Rightarrow> ev_throw TypeError)"
      by (intro safe_option safe_throw calls_safe_rules(6) [OF C]) (use entails_get_attr [OF b _ ok] in simp)
  qed
qed

lemma coerceToString_safe:
  assumes C: "calls_safe k C" and r: "entails k A (ref_token r)"
  shows "safe k {} A (\<lambda>_. True) (\<lambda>_. {}) (coerceToString cfg C r p q t)"
  unfolding coerceToString_def
proof (intro safe_depth safe_bind [OF force_ref_safe [OF C r]])
  fix v
  let ?A = "A \<union> {TVal v}"
  have r': "entails k ?A (ref_token r)" by (rule entails_mono [OF r]) auto
  have store: "safe k {} ?A (\<lambda>_. True) (\<lambda>_. {}) (path_to_store cfg x)" for x
    unfolding path_to_store_def by (cases "copyPathToStore cfg x") (auto intro: safe_throw safe_return)
  show "safe k {} ?A (\<lambda>_. True) (\<lambda>_. {}) (case v of
       VString s ctx \<Rightarrow> ev_return (s, ctx)
     | VPath x \<Rightarrow> if \<not> t \<and> \<not> q then ev_return (x, {||}) else if q then path_to_store cfg x else ev_return (x, {||})
     | VAttrs b \<Rightarrow> (case get_attr b sym_toString of
           Some i \<Rightarrow> ev_bind (case r of At a \<Rightarrow> ev_return a | Tmp w \<Rightarrow> alloc_value v) (\<lambda>self.
             ev_bind (call_c C (At (attr_value i)) [self]) (\<lambda>v1. string_c C (Tmp v1) p q True))
         | None \<Rightarrow> (case get_attr b sym_outPath of
               Some i \<Rightarrow> string_c C (At (attr_value i)) p q t
             | None \<Rightarrow> ev_throw TypeError))
     | VBool u \<Rightarrow> if p then ev_return (if u then ''1'' else [], {||}) else ev_throw TypeError
     | VInt n \<Rightarrow> if p then ev_return (int_string n, {||}) else ev_throw TypeError
     | VFloat x \<Rightarrow> if p then ev_return (float_string cfg x, {||}) else ev_throw TypeError
     | VNull \<Rightarrow> if p then ev_return ([], {||}) else ev_throw TypeError
     | VList xs \<Rightarrow> if p then string_list C p q t xs else ev_throw TypeError
     | _ \<Rightarrow> ev_throw TypeError)"
  proof (cases v)
    case (VAttrs b)
    have "entails k ?A (TVal (VAttrs b))" by (auto simp: VAttrs intro: entails_intro)
    from attrs_string_safe [OF C this r'] show ?thesis by (simp only: VAttrs nix_value.case)
  next
    case (VList xs)
    then show ?thesis by (auto intro: safe_throw string_list_safe [OF C] entails_intro)
  qed (use store in \<open>auto intro: safe_throw safe_return\<close>)
qed

lemma concat_part_safe:
  assumes C: "calls_safe k C" and env: "entails k A (TEnv env sh)" "scoped e k sh"
  shows "safe k {} A (\<lambda>_. True) (\<lambda>_. {}) (concat_part cfg C env e st)"
  unfolding concat_part_def Let_def
proof (rule safe_bind [OF calls_safe_rules(1) [OF C env]], intro safe_if)
  fix v
  let ?A = "A \<union> {TVal v}"
  show "safe k {} ?A (\<lambda>_. True) (\<lambda>_. {}) (ev_bind (string_c C (Tmp v) False x y) (\<lambda>(s, ctx). ev_return (f s ctx)))" for x y and f :: "string \<Rightarrow> string fset \<Rightarrow> concat_state"
    by (rule safe_bind [OF calls_safe_rules(6) [OF C]] safe_prod safe_return_trivial | (auto intro: entails_intro; fail)[1])+
qed (auto split: nix_value.split option.split intro: safe_throw safe_return)

lemma ExprConcatStrings_eval_safe [safe_intro]:
  assumes "calls_safe k C" "entails k A (TEnv env sh)" "\<forall>e\<in>set es. scoped e k sh"
  shows "yields k A (ExprConcatStrings_eval cfg C t es env)"
  unfolding ExprConcatStrings_eval_def
  by (rule safe_bind [OF safe_fold_trivial])
    (use assms in \<open>auto intro: concat_part_safe safe_throw safe_return_value entails_intro split: sum.split\<close>)

section \<open>Comparison\<close>

lemma zip_sides: "(x, y) \<in> set (zip xs ys) \<Longrightarrow> x \<in> set xs \<and> y \<in> set ys"
  by (auto dest: set_zip_leftD set_zip_rightD)

lemma is_derivation_set_safe:
  assumes "calls_safe k C" "entails k A (TVal (VAttrs b))"
  shows "safe k {} A (\<lambda>_. True) (\<lambda>_. {}) (is_derivation_set C b)"
  unfolding is_derivation_set_def
  by (rule entails_bindings_ok [OF assms(2)], rule safe_option, rule safe_return_trivial, rule safe_bind [OF force_at_safe [OF assms(1)]])
    (auto intro: entails_get_attr [OF assms(2)] safe_return split: nix_value.split)

lemma all_equal_safe:
  "calls_safe k C \<Longrightarrow> \<forall>(q, x, y)\<in>set ps. entails k A (TAddr x) \<and> entails k A (TAddr y) \<Longrightarrow> safe k {} A (\<lambda>_. True) (\<lambda>_. {}) (all_equal C ps)"
proof (induction C ps rule: all_equal.induct)
  case (2 C same x y ps)
  have "safe k {} A (\<lambda>_. True) (\<lambda>_. {}) (eq_c C (At x) (At y))" using 2(3) by (intro calls_safe_rules(5) [OF 2(2)]) auto
  then show ?case using 2 by (auto intro!: safe_bind safe_return)
qed (auto intro: safe_return)

lemma eq_attrs_safe:
  assumes C: "calls_safe k C" and b: "entails k A (TVal (VAttrs b1))" "entails k A (TVal (VAttrs b2))"
  shows "safe k {} A (\<lambda>_. True) (\<lambda>_. {}) (eq_attrs C b1 b2)"
proof (rule entails_bindings_ok [OF b(1)], rule entails_bindings_ok [OF b(2)])
  assume ok: "bindings_ok b1" "bindings_ok b2"
  have mono: "entails k (A \<union> {}) t" if "entails k A t" for t using that by simp
  let ?all = "if bindings_size b1 \<noteq> bindings_size b2 then ev_return False
         else ev_bind (attr_entries b1) (\<lambda>is. ev_bind (attr_entries b2) (\<lambda>js.
           all_equal C (map2 (\<lambda>i j. (attr_name i = attr_name j, attr_value i, attr_value j)) is js)))"
  have all: "safe k {} A (\<lambda>_. True) (\<lambda>_. {}) ?all"
    by (intro safe_if safe_return_trivial safe_bind [OF safe_entries_simple] b entails_mono [OF b(2)] all_equal_safe [OF C])
      (auto dest!: zip_sides intro: entails_intro)
  have paths: "safe k {} A (\<lambda>_. True) (\<lambda>_. {}) (case (get_attr b1 sym_outPath, get_attr b2 sym_outPath) of
      (Some i, Some j) \<Rightarrow> eq_c C (At (attr_value i)) (At (attr_value j)) | _ \<Rightarrow> ?all)"
    using all entails_get_attr [OF b(1) _ ok(1)] entails_get_attr [OF b(2) _ ok(2)]
    by (cases "get_attr b1 sym_outPath"; cases "get_attr b2 sym_outPath") (auto intro: calls_safe_rules(5) [OF C])
  show "safe k {} A (\<lambda>_. True) (\<lambda>_. {}) (eq_attrs C b1 b2)" unfolding eq_attrs_def Let_def
    by (rule safe_bind [OF is_derivation_set_safe [OF C b(1)]], rule safe_bind, rule safe_if, rule is_derivation_set_safe [OF C mono [OF b(2)]],
        rule safe_return_trivial) (use all paths in \<open>auto split: if_splits\<close>)
qed

lemma eqValues_safe:
  assumes C: "calls_safe k C" and r: "entails k A (ref_token r1)" "entails k A (ref_token r2)"
  shows "safe k {} A (\<lambda>_. True) (\<lambda>_. {}) (eqValues cfg C r1 r2)"
  unfolding eqValues_def
proof (rule safe_depth, rule safe_bind [OF force_ref_safe [OF C r(1)]], rule safe_bind [OF force_ref_safe [OF C]])
  fix v1 v2
  show "entails k (A \<union> {TVal v1}) (ref_token r2)" by (rule entails_mono [OF r(2)]) auto
  assume w: "whnf v1" "whnf v2"
  let ?A = "A \<union> {TVal v1} \<union> {TVal v2}"
  have attrs: "safe k {} ?A (\<lambda>_. True) (\<lambda>_. {}) (eq_attrs C b1 b2)" if "v1 = VAttrs b1" "v2 = VAttrs b2" for b1 b2
    by (rule eq_attrs_safe [OF C]) (auto simp: that intro: entails_intro)
  have lists: "safe k {} ?A (\<lambda>_. True) (\<lambda>_. {}) (all_equal C (map2 (\<lambda>x y. (True, x, y)) xs ys))" if "v1 = VList xs" "v2 = VList ys" for xs ys
    by (rule all_equal_safe [OF C]) (auto simp: that dest!: zip_sides intro: entails_intro)
  show "safe k {} ?A (\<lambda>_. True) (\<lambda>_. {})
      (if same_cell r1 r2 then ev_return True
       else case (v1, v2) of
         (VInt i, VFloat y) \<Rightarrow> ev_return (float_eq cfg (float_of_int cfg i) y)
       | (VFloat x, VInt j) \<Rightarrow> ev_return (float_eq cfg x (float_of_int cfg j))
       | (VInt i, VInt j) \<Rightarrow> ev_return (i = j)
       | (VBool x, VBool y) \<Rightarrow> ev_return (x = y)
       | (VString s ctx, VString t ctx') \<Rightarrow> ev_return (s = t)
       | (VPath s, VPath t) \<Rightarrow> ev_return (s = t)
       | (VNull, VNull) \<Rightarrow> ev_return True
       | (VList xs, VList ys) \<Rightarrow>
           (if length xs \<noteq> length ys then ev_return False else all_equal C (map2 (\<lambda>x y. (True, x, y)) xs ys))
       | (VAttrs b1, VAttrs b2) \<Rightarrow> eq_attrs C b1 b2
       | (VFloat x, VFloat y) \<Rightarrow> ev_return (float_eq cfg x y)
       | _ \<Rightarrow> if value_type v1 \<noteq> value_type v2 \<or> value_type v1 = nFunction then ev_return False else ev_undefined)"
  proof (rule safe_if [OF safe_return_trivial])
    note simps = prod.case nix_value.case value_type.simps ValueType.distinct simp_thms if_True if_False
    show "safe k {} ?A (\<lambda>_. True) (\<lambda>_. {}) (case (v1, v2) of
         (VInt i, VFloat y) \<Rightarrow> ev_return (float_eq cfg (float_of_int cfg i) y)
       | (VFloat x, VInt j) \<Rightarrow> ev_return (float_eq cfg x (float_of_int cfg j))
       | (VInt i, VInt j) \<Rightarrow> ev_return (i = j)
       | (VBool x, VBool y) \<Rightarrow> ev_return (x = y)
       | (VString s ctx, VString t ctx') \<Rightarrow> ev_return (s = t)
       | (VPath s, VPath t) \<Rightarrow> ev_return (s = t)
       | (VNull, VNull) \<Rightarrow> ev_return True
       | (VList xs, VList ys) \<Rightarrow>
           (if length xs \<noteq> length ys then ev_return False else all_equal C (map2 (\<lambda>x y. (True, x, y)) xs ys))
       | (VAttrs b1, VAttrs b2) \<Rightarrow> eq_attrs C b1 b2
       | (VFloat x, VFloat y) \<Rightarrow> ev_return (float_eq cfg x y)
       | _ \<Rightarrow> if value_type v1 \<noteq> value_type v2 \<or> value_type v1 = nFunction then ev_return False else ev_undefined)"
      using w attrs lists by (cases v1; simp only: simps whnf_simps; cases v2; simp only: simps whnf_simps; (rule safe_return_trivial)?; auto intro: safe_return)
  qed
qed

lemma less_lists_safe:
  "calls_safe k C \<Longrightarrow> \<forall>x\<in>set xs. entails k A (TAddr x) \<Longrightarrow> \<forall>y\<in>set ys. entails k A (TAddr y) \<Longrightarrow>
   safe k {} A (\<lambda>_. True) (\<lambda>_. {}) (less_lists C xs ys)"
proof (induction C xs ys rule: less_lists.induct)
  case (3 C x xs y ys)
  have "safe k {} A (\<lambda>_. True) (\<lambda>_. {}) (eq_c C (At x) (At y))" "safe k {} A (\<lambda>_. True) (\<lambda>_. {}) (less_c C x y)"
    using 3(3,4) by (auto intro: calls_safe_rules(5,8) [OF 3(2)])
  then show ?case using 3 by (auto intro!: safe_bind)
qed (auto intro: safe_return)

lemma compareValues_safe:
  assumes C: "calls_safe k C" and ab: "entails k A (TAddr a)" "entails k A (TAddr b)"
  shows "safe k {} A (\<lambda>_. True) (\<lambda>_. {}) (compareValues cfg C a b)"
  unfolding compareValues_def
proof (rule safe_bind [OF safe_read [OF ab(1)]], rule safe_bind [OF safe_read])
  fix v1 v2
  show "entails k (A \<union> {TVal v1}) (TAddr b)" by (rule entails_mono [OF ab(2)]) auto
  have lists: "safe k {} (A \<union> {TVal v1} \<union> {TVal v2}) (\<lambda>_. True) (\<lambda>_. {}) (less_lists C xs ys)" if "v1 = VList xs" "v2 = VList ys" for xs ys
    by (rule less_lists_safe [OF C]) (auto simp: that intro: entails_intro)
  note simps = prod.case nix_value.case
  show "safe k {} (A \<union> {TVal v1} \<union> {TVal v2}) (\<lambda>_. True) (\<lambda>_. {}) (case (v1, v2) of
         (VFloat x, VInt j) \<Rightarrow> ev_return (float_less cfg x (float_of_int cfg j))
       | (VInt i, VFloat y) \<Rightarrow> ev_return (float_less cfg (float_of_int cfg i) y)
       | (VInt i, VInt j) \<Rightarrow> ev_return (i <s j)
       | (VFloat x, VFloat y) \<Rightarrow> ev_return (float_less cfg x y)
       | (VString s ctx, VString t ctx') \<Rightarrow> ev_return (s < t)
       | (VPath s, VPath t) \<Rightarrow> ev_return (s < t)
       | (VList xs, VList ys) \<Rightarrow> less_lists C xs ys
       | _ \<Rightarrow> ev_throw EvalError)"
    using lists by (cases v1; simp only: simps; cases v2; simp only: simps; auto intro: safe_return safe_throw)
qed

lemma forceValueDeep_safe:
  assumes C: "calls_safe k C" and a: "entails k A (TAddr a)"
  shows "safe k {} A (\<lambda>_. True) (\<lambda>_. {}) (forceValueDeep cfg C a seen)"
  unfolding forceValueDeep_def
proof (intro safe_depth safe_if safe_return_trivial safe_bind [OF force_at_safe [OF C a]])
  fix v
  let ?A = "A \<union> {TVal v}"
  have attrs: "safe k {} ?A (\<lambda>_. True) (\<lambda>_. {}) (ev_bind (attr_entries b) (\<lambda>is. ev_fold (\<lambda>i. deep_c C (attr_value i)) is (a # seen)))" if "v = VAttrs b" for b
    by (intro safe_bind [OF safe_entries_simple] safe_fold_trivial calls_safe_rules(7) [OF C]) (auto simp: that intro: entails_intro)
  have lists: "safe k {} ?A (\<lambda>_. True) (\<lambda>_. {}) (ev_fold (deep_c C) xs (a # seen))" if "v = VList xs" for xs
    by (intro safe_fold_trivial calls_safe_rules(7) [OF C]) (auto simp: that intro: entails_intro)
  show "safe k {} ?A (\<lambda>_. True) (\<lambda>_. {}) (case v of
          VAttrs b \<Rightarrow> ev_bind (attr_entries b) (\<lambda>is. ev_fold (\<lambda>i. deep_c C (attr_value i)) is (a # seen))
        | VList xs \<Rightarrow> ev_fold (deep_c C) xs (a # seen)
        | _ \<Rightarrow> ev_return (a # seen))"
    by (cases v) (use attrs lists in \<open>auto intro: safe_return\<close>)
qed

section \<open>Operators\<close>

lemma evalAttrs_safe [safe_intro]:
  "calls_safe k C \<Longrightarrow> entails k A (TEnv env sh) \<Longrightarrow> scoped e k sh \<Longrightarrow> safe k {} A (\<lambda>_. True) (\<lambda>b. {TVal (VAttrs b)}) (evalAttrs C e env)"
  unfolding evalAttrs_def by (intro safe_bind [OF calls_safe_rules(1)] safe_post [OF as_attrs_safe]) (auto intro: entails_intro)

lemma evalBool_safe [safe_intro]:
  "calls_safe k C \<Longrightarrow> entails k A (TEnv env sh) \<Longrightarrow> scoped e k sh \<Longrightarrow> safe k {} A (\<lambda>_. True) (\<lambda>_. {}) (evalBool C e env)"
  unfolding evalBool_def by (intro safe_bind [OF calls_safe_rules(1)] as_others_safe)

lemma eval_for_update_safe:
  assumes C: "calls_safe k C" and e: "entails k A (TEnv env sh)" "scoped e k sh" and q: "\<forall>b\<in>set q. entails k A (TVal (VAttrs b))"
  shows "safe k {} A (\<lambda>_. True) (\<lambda>q'. (\<lambda>b. TVal (VAttrs b)) ` set q') (eval_for_update C e env q)"
proof -
  have single: "safe k {} A (\<lambda>_. True) (\<lambda>q'. (\<lambda>b. TVal (VAttrs b)) ` set q') (ev_bind (evalAttrs C e env) (\<lambda>b. ev_return (q @ [b])))"
    by (rule safe_bind [OF evalAttrs_safe [OF C e]], rule safe_return) (use q in \<open>auto intro: entails_intro entails_mono\<close>)
  have chain: "safe k {} A (\<lambda>_. True) (\<lambda>q'. (\<lambda>b. TVal (VAttrs b)) ` set q') (ev_bind (update_c C e2 env q) (update_c C e1 env))"
    if "e = ExprOp OpUpdate e1 e2" for e1 e2
    by (rule safe_bind [OF calls_safe_rules(9) [OF C e(1) _ q]], (use e(2) that in simp), rule calls_safe_rules(9) [OF C])
      (use e that in \<open>auto intro: entails_member entails_mono\<close>)
  show ?thesis unfolding eval_for_update_def
    by (cases e) (use single chain in \<open>auto split: bin_op.split\<close>)
qed

lemma update_safe:
  assumes "\<forall>b\<in>set q. entails k A (TVal (VAttrs b))"
  shows "yields k A (ev_bind (non_null (update_queue threshold emptyBindings q)) (\<lambda>b. ev_return (VAttrs b)))"
proof (rule safe_entails [where p = "\<forall>b\<in>set q. bindings_ok b"])
  show "\<forall>b\<in>set q. bindings_ok b" if "consistent k {} s" "\<forall>t\<in>A. holds k s t" for s
    using assms that by (fastforce dest: entailsD)
next
  assume ok: "\<forall>b\<in>set q. bindings_ok b"
  have empty: "bindings_ok emptyBindings" "attr_map emptyBindings = Map.empty" by (simp_all add: emptyBindings_def maxLayers_def)
  obtain b where b: "update_queue threshold emptyBindings q = Some b" "bindings_ok b" "attr_map b = foldl (++) Map.empty (map attr_map q)"
    using update_queue_ok [OF empty(1) ok, of threshold] unfolding empty(2) by blast
  have "ran (foldl (++) m (map attr_map q)) \<subseteq> ran m \<union> (\<Union>b\<in>set q. binding_attrs b)" for m
  proof (induction q arbitrary: m)
    case (Cons b q)
    have "ran (m ++ attr_map b) \<subseteq> ran m \<union> binding_attrs b" by (auto simp: binding_attrs_def ran_def map_add_def split: option.splits)
    with Cons [of "m ++ attr_map b"] show ?case by auto
  qed simp
  then have "binding_attrs b \<subseteq> (\<Union>b\<in>set q. binding_attrs b)" using b(3) by (fastforce simp: binding_attrs_def)
  then have "entails k A (TVal (VAttrs b))" using assms by (intro entails_attrs(2) [OF b(2)]) (blast intro: entails_attrs(1))
  then show ?thesis unfolding b(1) non_null_def option.case ev_bind_return by (intro safe_return_value) simp_all
qed

lemma ExprOp_eval_safe [safe_intro]:
  assumes C: "calls_safe k C" and env: "entails k A (TEnv env sh)" and e: "scoped e1 k sh" "scoped e2 k sh"
  shows "yields k A (ExprOp_eval cfg C op e1 e2 env)"
proof -
  have env': "entails k (A \<union> A') (TEnv env sh)" for A' by (rule entails_mono [OF env]) auto
  have both: "yields k A (ev_bind (eval_c C e1 env) (\<lambda>v1. ev_bind (eval_c C e2 env) (f v1)))"
    if "\<And>v1 v2. yields k (A \<union> {TVal v1} \<union> {TVal v2}) (f v1 v2)" for f
    by (rule safe_bind [OF calls_safe_rules(1) [OF C env e(1)]], rule safe_bind [OF calls_safe_rules(1) [OF C env' e(2)]]) (rule that)
  have equal: "yields k A (ev_bind (eval_c C e1 env) (\<lambda>v1. ev_bind (eval_c C e2 env) (\<lambda>v2.
      ev_bind (eq_c C (Tmp v1) (Tmp v2)) (\<lambda>r. ev_return (VBool (g r))))))" for g
    by (rule both, rule safe_bind [OF calls_safe_rules(5) [OF C]]) (auto intro: entails_intro safe_return_value)
  have lists: "yields k A (ev_bind (eval_c C e1 env) (\<lambda>v1. ev_bind (eval_c C e2 env) (\<lambda>v2. concatLists C [Tmp v1, Tmp v2])))"
    by (rule both, rule concatLists_safe [OF C]) (auto intro: entails_intro entails_member)
  have logic: "yields k A (ev_bind (evalBool C e1 env) (\<lambda>x. ev_bind (if g x then evalBool C e2 env else ev_return y) (\<lambda>r. ev_return (VBool r))))"
    "yields k A (ev_bind (evalBool C e1 env) (\<lambda>x. ev_bind (if g x then ev_return y else evalBool C e2 env) (\<lambda>r. ev_return (VBool r))))" for g y
    by (rule safe_bind [OF evalBool_safe [OF C env e(1)]] safe_bind safe_if evalBool_safe [OF C env' e(2)] safe_return_trivial safe_return_value
      | (auto intro: entails_intro; fail)[1])+
  have queue: "yields k A (ev_bind (ev_bind (update_c C e2 env []) (update_c C e1 env)) (\<lambda>q.
      ev_bind (non_null (update_queue t emptyBindings (rev q))) (\<lambda>b. ev_return (VAttrs b))))" for t
    by (rule safe_bind [OF safe_bind [OF calls_safe_rules(9) [OF C env e(2)] calls_safe_rules(9) [OF C env' e(1)]]], rule_tac [3] update_safe)
      (auto intro: entails_member)
  show ?thesis unfolding ExprOp_eval_def by (cases op; simp only: bin_op.case) (rule equal lists logic queue)+
qed

lemma ExprAssert_eval_safe [safe_intro]:
  assumes C: "calls_safe k C" and env: "entails k A (TEnv env sh)" and e: "scoped c k sh" "scoped body k sh"
  shows "yields k A (ExprAssert_eval C c body env)"
proof -
  have again: "safe k {} A (\<lambda>_. True) (\<lambda>_. {}) (ev_bind (eval_c C e1 env) (\<lambda>v1. ev_bind (eval_c C e2 env) (\<lambda>v2.
      ev_then (eq_c C (Tmp v1) (Tmp v2)) (ev_return ()))))" if "c = ExprOp OpEq e1 e2" for e1 e2
    by (rule safe_bind [OF calls_safe_rules(1) [OF C env]] safe_bind [OF calls_safe_rules(1) [OF C entails_mono [OF env]]] safe_then
        calls_safe_rules(5) [OF C] safe_return_trivial | (use e(1) that in \<open>auto intro: entails_intro; fail\<close>)[1])+
  have "safe k {} A (\<lambda>_. True) (\<lambda>_. {}) (case c of ExprOp OpEq e1 e2 \<Rightarrow> ev_bind (eval_c C e1 env) (\<lambda>v1. ev_bind (eval_c C e2 env) (\<lambda>v2.
      ev_then (eq_c C (Tmp v1) (Tmp v2)) (ev_return ()))) | _ \<Rightarrow> ev_return ())"
    using again by (cases c) (auto intro: safe_return split: bin_op.split)
  then have "safe k {} A whnf (\<lambda>v. {TVal v}) (ev_then (case c of ExprOp OpEq e1 e2 \<Rightarrow> ev_bind (eval_c C e1 env) (\<lambda>v1. ev_bind (eval_c C e2 env) (\<lambda>v2.
      ev_then (eq_c C (Tmp v1) (Tmp v2)) (ev_return ()))) | _ \<Rightarrow> ev_return ()) (ev_throw AssertionError))"
    by (rule safe_then) (rule safe_throw)
  moreover have "yields k A (eval_c C body env)" by (rule calls_safe_rules(1) [OF C env e(2)])
  ultimately show ?thesis unfolding ExprAssert_eval_def
    by (intro safe_bind [OF evalBool_safe [OF C env e(1)]]) simp
qed

section \<open>The evaluator\<close>

lemma simple_exprs_safe [safe_intro]:
  assumes C: "calls_safe k C" and env: "entails k A (TEnv env sh)"
  shows "scoped (ExprVar name w l d) k sh \<Longrightarrow> yields k A (ExprVar_eval C name w l d env)"
    "\<forall>e\<in>set es. scoped e k sh \<Longrightarrow> yields k A (ExprList_eval es env)"
    "scoped f k sh \<Longrightarrow> \<forall>e\<in>set es. scoped e k sh \<Longrightarrow> yields k A (ExprCall_eval C f es env)"
    "scoped c k sh \<Longrightarrow> scoped t k sh \<Longrightarrow> scoped e k sh \<Longrightarrow> yields k A (ExprIf_eval C c t e env)"
    "scoped c k sh \<Longrightarrow> yields k A (ExprOpNot_eval C c env)"
proof -
  have env': "entails k (A \<union> A') (TEnv env sh)" for A' by (rule entails_mono [OF env]) auto
  show "scoped (ExprVar name w l d) k sh \<Longrightarrow> yields k A (ExprVar_eval C name w l d env)" unfolding ExprVar_eval_def
    by (intro safe_bind [OF lookupVar_safe [OF C env]] force_at_safe [OF C]) (auto intro: entails_intro)
  show "\<forall>e\<in>set es. scoped e k sh \<Longrightarrow> yields k A (ExprList_eval es env)" unfolding ExprList_eval_def
    by (intro safe_bind [OF safe_map_addr [OF maybeThunk_safe [OF env]]] safe_return_value) (auto intro: entails_intro)
  show "scoped f k sh \<Longrightarrow> \<forall>e\<in>set es. scoped e k sh \<Longrightarrow> yields k A (ExprCall_eval C f es env)" unfolding ExprCall_eval_def
    by (intro safe_bind [OF calls_safe_rules(1) [OF C env]] safe_bind [OF safe_map_addr [OF maybeThunk_safe [OF env']]] calls_safe_rules(3) [OF C])
      (auto intro: entails_intro)
  show "scoped c k sh \<Longrightarrow> scoped t k sh \<Longrightarrow> scoped e k sh \<Longrightarrow> yields k A (ExprIf_eval C c t e env)" unfolding ExprIf_eval_def
    by (intro safe_bind [OF evalBool_safe [OF C env]] calls_safe_rules(1) [OF C env']) auto
  show "scoped c k sh \<Longrightarrow> yields k A (ExprOpNot_eval C c env)" unfolding ExprOpNot_eval_def
    by (intro safe_bind [OF evalBool_safe [OF C env]] safe_return_value) (auto intro: entails_intro)
qed

lemma eval_body_safe:
  assumes C: "calls_safe k C" and env: "entails k A (TEnv env sh)" and e: "scoped e k sh"
  shows "yields k A (eval_body cfg C e env)"
proof -
  have select: "yields k A (ev_bind (eval_c C x env) (\<lambda>v. select_loop C dflt env path (Tmp v)))" if "scoped (ExprSelect x dflt path) k sh" for x dflt path
    by (intro safe_bind [OF calls_safe_rules(1) [OF C env]] select_loop_safe [OF C entails_mono [OF env]]) (use that in \<open>auto intro: entails_intro\<close>)
  have has: "yields k A (ev_bind (eval_c C x env) (\<lambda>v. has_attr_loop C env path (Tmp v)))" if "scoped (ExprOpHasAttr x path) k sh" for x path
    by (intro safe_bind [OF calls_safe_rules(1) [OF C env]] has_attr_loop_safe [OF C entails_mono [OF env]]) (use that in \<open>auto intro: entails_intro\<close>)
  have inherited: "scoped (ExprVar 0 None 0 d) k sh" if "scoped (ExprInheritFrom d) k sh" for d
    using that by (cases sh) auto
  note rules = simple_exprs_safe [OF C env] ExprAttrs_eval_safe [OF C env] ExprLet_eval_safe [OF C env] ExprWith_eval_safe [OF C env]
    ExprAssert_eval_safe [OF C env] ExprOp_eval_safe [OF C env] ExprConcatStrings_eval_safe [OF C env]
  show ?thesis unfolding eval_body_def
    by (use e in \<open>cases e; simp only: expr.case\<close>)
      ((rule rules select has safe_return_value inherited entails_lambda [OF env] | (auto intro: entails_intro; fail)[1])+)
qed

lemma no_fuel_safe: "calls_safe k no_fuel"
  unfolding calls_safe_def no_fuel_def by (auto intro!: safeI)

lemma eval_step_safe:
  assumes "calls_safe k C"
  shows "calls_safe k (eval_step cfg C)"
  unfolding calls_safe_def
  by (intro conjI allI impI; simp only: eval_step_def calls.select_convs)
    (rule eval_body_safe [OF assms] forceValue_safe [OF assms] callFunction_safe [OF assms] loop_body_safe [OF assms]
      eqValues_safe [OF assms] coerceToString_safe [OF assms] forceValueDeep_safe [OF assms] compareValues_safe [OF assms]
      eval_for_update_safe [OF assms]; assumption)+

lemma run_eval_safe: "calls_safe k (run_eval n cfg)"
  by (induction n) (simp_all add: no_fuel_safe eval_step_safe)

end
