(* ===== verification/Nix_Guarantees.thy ===== *)
theory Nix_Guarantees
  imports Nix_Soundness
begin

text \<open>
  What evaluation guarantees: no undefined behaviour and well-formed results for every program that the
  parser and \<^verbatim>\<open>bindVars\<close> accept (\<^verbatim>\<open>src/libexpr/nixexpr.cc\<close>, \<^verbatim>\<open>src/libexpr/eval.cc\<close>), and thunks that are
  evaluated at most once (\<^verbatim>\<open>forceValue\<close>, \<^verbatim>\<open>src/libexpr/include/nix/expr/eval-inline.hh\<close>).
\<close>

section \<open>What the evaluator guarantees\<close>

text \<open>
  C11: Evaluating a program that was parsed and bound, in an environment of the shape that its static
  environment describes, never has undefined behaviour: no null pointer is followed, no environment
  slot is read before it is filled or outside its frame, no index is out of range. A result is a value in
  weak head normal form that refers to existing cells only; also after an error the state is consistent,
  and cells that held values still hold the same values.
\<close>

theorem evaluation_safe:
  assumes "parsed k e" "describes senv sh" "bindVars e senv = Inr e'" "consistent k {} s" "env_shape s env sh"
  shows "case eval_c (run_eval n cfg) e' env s of
      Ret v s' \<Rightarrow> whnf v \<and> value_ok k s' v \<and> consistent k {} s' \<and> extends s s'
    | Throw err s' \<Rightarrow> consistent k {} s' \<and> extends s s'
    | Undefined \<Rightarrow> False
    | Timeout \<Rightarrow> True"
proof -
  have "scoped e' k sh" using bindVars_scoped(1) [of k e senv sh e'] assms(1-3) by simp
  then have "safe k {} {TEnv env sh} whnf (\<lambda>v. {TVal v}) (eval_c (run_eval n cfg) e' env)"
    by (intro calls_safe_rules(1) [OF run_eval_safe] entails_member) simp
  from safeD [OF this assms(4)] assms(5) show ?thesis by (auto split: outcome.split)
qed

lemma sample_consistent: "consistent 54 {} sample_eval_state"
  by (simp add: consistent_def sample_eval_state_def static_symbols_def slots_ok_def)

lemma sample_parsed: "parsed 54 sample_program"
  by code_simp

theorem evaluation_safe_witness:
  "case eval_c (run_eval 5 sample_cfg) sample_bound 0 sample_eval_state of
      Ret v s' \<Rightarrow> v = VInt 40 \<and> consistent 54 {} s' \<and> extends sample_eval_state s' | _ \<Rightarrow> False"
proof -
  have "describes [\<lparr>isWith = None, vars = []\<rparr>] [0]" "env_shape sample_eval_state 0 [0]"
    by (simp_all add: sample_eval_state_def)
  from evaluation_safe [OF sample_parsed this(1) sample_binds sample_consistent this(2), of 5 sample_cfg] sample_runs
  show ?thesis by (cases "eval_c (run_eval 5 sample_cfg) sample_bound 0 sample_eval_state") simp_all
qed

lemma whnf_forced:
  "whnf v \<Longrightarrow> a < length (heap_values s) \<Longrightarrow> heap_values s ! a = v \<Longrightarrow> forceValue C a s = Ret () s"
  by (cases v) (simp_all add: forceValue_def ev_bind_def read_value_def ev_return_def whnf_def)

lemma failure_written:
  assumes "ev_catch (ev_bind m (write_value a)) (cache_failure a v) s = Throw e s'" "e \<noteq> RecoverableError"
  shows "a < length (heap_values s') \<and> heap_values s' ! a = VFailed e None"
  using assms by (auto simp: ev_catch_def ev_bind_def ev_then_def write_value_def cache_failure_def ev_return_def ev_throw_def
      alloc_value_def split: outcome.splits if_splits)

lemma failure_cached:
  "force_c (run_eval n cfg) a s = Throw e s' \<Longrightarrow> e \<noteq> RecoverableError \<Longrightarrow>
   a < length (heap_values s') \<and> heap_values s' ! a = VFailed e None"
proof (induction n arbitrary: s)
  case 0
  then show ?case by (simp add: no_fuel_def)
next
  case (Suc n)
  have forced: "forceValue (run_eval n cfg) a s = Throw e s'" using Suc.prems(1) by (simp add: eval_step_def)
  then have a: "a < length (heap_values s)" by (auto simp: forceValue_def ev_bind_def read_value_def split: if_splits)
  then show ?case using forced Suc.prems(2)
    by (cases "heap_values s ! a")
      (auto simp: forceValue_def ev_bind_def [of "read_value a"] ev_bind_def [of "read_value b" for b] read_value_def ev_return_def ev_throw_def ev_then_def
        ev_bind_def [of "write_value a v" for v] write_value_def
        split: if_splits option.splits dest!: failure_written Suc.IH)
qed

text \<open>
  C12: Forcing memoises. Forcing a cell again after it was forced changes nothing and returns at once; if
  forcing failed, with an error that is not recoverable, forcing again fails with the same error
  without evaluating anything.
\<close>

theorem forcing_memoises:
  assumes "consistent k {} s" "a < length (heap_values s)"
  shows "case force_c (run_eval n cfg) a s of
      Ret u s' \<Rightarrow> whnf (heap_values s' ! a) \<and> force_c (run_eval (Suc m) cfg) a s' = Ret () s'
    | Throw e s' \<Rightarrow> e = RecoverableError \<or> force_c (run_eval (Suc m) cfg) a s' = Throw e s'
    | Undefined \<Rightarrow> False
    | Timeout \<Rightarrow> True"
proof (cases "force_c (run_eval n cfg) a s")
  case (Ret u s')
  have "safe k {} {TAddr a} (\<lambda>_. True) (\<lambda>_. {TForced a}) (force_c (run_eval n cfg) a)"
    by (intro calls_safe_rules(2) [OF run_eval_safe] entails_member) simp
  from safeD(2) [OF this assms(1) _ Ret] assms(2) have "a < length (heap_values s')" "whnf (heap_values s' ! a)" by auto
  with Ret show ?thesis by (simp add: eval_step_def whnf_forced)
next
  case (Throw e s')
  show ?thesis
  proof (cases "e = RecoverableError")
    case False
    with failure_cached [OF Throw] Throw show ?thesis by (simp add: eval_step_def forceValue_def ev_bind_def read_value_def ev_throw_def)
  qed (simp add: Throw)
next
  case Undefined
  have "safe k {} {TAddr a} (\<lambda>_. True) (\<lambda>_. {TForced a}) (force_c (run_eval n cfg) a)"
    by (intro calls_safe_rules(2) [OF run_eval_safe] entails_member) simp
  from safeD(1) [OF this assms(1)] assms(2) Undefined show ?thesis by simp
qed simp

text \<open>A thunk that needs itself, and one that does not.\<close>

definition sample_forcing :: eval_state where
  "sample_forcing = sample_eval_state\<lparr>heap_values := [VThunk 0 (ExprVar 0 None 0 0), VThunk 0 (ExprInt 40)],
     heap_envs := [\<lparr>env_up = None, env_slots = [Some 0]\<rparr>]\<rparr>"

lemma sample_forcing_consistent: "consistent 54 {} sample_forcing"
proof -
  have "env_shape sample_forcing 0 [1]" by (simp add: sample_forcing_def)
  then have "value_ok 54 sample_forcing (VThunk 0 (ExprVar 0 None 0 0))" "value_ok 54 sample_forcing (VThunk 0 (ExprInt 40))"
    by (auto intro!: exI [of _ "[1]"])
  then show ?thesis by (simp add: consistent_def sample_forcing_def sample_eval_state_def static_symbols_def slots_ok_def)
qed

theorem forcing_memoises_witness:
  "case force_c (run_eval 3 sample_cfg) 1 sample_forcing of
      Ret u s \<Rightarrow> heap_values s ! 1 = VInt 40 \<and> force_c (run_eval (Suc 0) sample_cfg) 1 s = Ret () s | _ \<Rightarrow> False"
proof -
  have "case force_c (run_eval 3 sample_cfg) 1 sample_forcing of Ret u s \<Rightarrow> heap_values s ! 1 = VInt 40 | _ \<Rightarrow> False" by code_simp
  moreover have "1 < length (heap_values sample_forcing)" by (simp add: sample_forcing_def)
  ultimately show ?thesis using forcing_memoises [OF sample_forcing_consistent, where a = 1 and n = 3 and cfg = sample_cfg and m = 0]
    by (cases "force_c (run_eval 3 sample_cfg) 1 sample_forcing") (simp_all del: run_eval.simps)
qed

end
