(* ===== verification/Versions.thy ===== *)
theory Versions
  imports Hash "HOL-Library.List_Lexorder" "HOL-Library.Char_ord" "HOL-Library.Product_Lexorder"
begin

text \<open>
  Names and versions of derivations (\<^verbatim>\<open>libstore/names.cc\<close>): the split of a name into a package name
  and a version, the components of a version, and the order of versions. The conversion to \<^verbatim>\<open>int\<close> is
  \<^verbatim>\<open>boost::lexical_cast\<close>, a parameter; \<open>casts_int\<close> states what its documentation promises.
\<close>

section \<open>Characters and conversions\<close>

definition is_digit :: "char \<Rightarrow> bool" where
  "is_digit c \<longleftrightarrow> 48 \<le> (of_char c :: nat) \<and> (of_char c :: nat) \<le> 57"

definition is_alpha :: "char \<Rightarrow> bool" where
  "is_alpha c \<longleftrightarrow> 65 \<le> (of_char c :: nat) \<and> (of_char c :: nat) \<le> 90 \<or> 97 \<le> (of_char c :: nat) \<and> (of_char c :: nat) \<le> 122"

definition is_separator :: "char \<Rightarrow> bool" where
  "is_separator c \<longleftrightarrow> c = CHR ''.'' \<or> c = CHR ''-''"

text \<open>\<^verbatim>\<open>string2Int\<close> at a type that is or is not signed.\<close>

definition string2Int :: "(string \<Rightarrow> int option) \<Rightarrow> bool \<Rightarrow> string \<Rightarrow> int option" where
  "string2Int cast is_signed s = (if take 1 s = ''-'' \<and> \<not> is_signed then None else cast s)"

definition decimal :: "string \<Rightarrow> int" where
  "decimal s = foldl (\<lambda>n c. 10 * n + int (of_char c) - 48) 0 s"

definition casts_int :: "(string \<Rightarrow> int option) \<Rightarrow> bool" where
  "casts_int cast \<longleftrightarrow>
     (\<forall>s. s \<noteq> [] \<and> list_all is_digit s \<longrightarrow> cast s = (if decimal s < 2 ^ 31 then Some (decimal s) else None)) \<and>
     (\<forall>s. list_all (\<lambda>c. \<not> is_digit c) s \<longrightarrow> cast s = None)"

section \<open>Names\<close>

record DrvName = fullName :: string  drv_name :: string  version :: string

text \<open>The loop of the constructor, at position \<open>i\<close>.\<close>

fun split_name :: "string \<Rightarrow> string \<Rightarrow> string \<times> string" where
  "split_name before [] = (before, [])"
| "split_name before (c # s) =
     (if c = CHR ''-'' \<and> s \<noteq> [] \<and> \<not> is_alpha (hd s) then (before, s) else split_name (before @ [c]) s)"

definition DrvName_of :: "string \<Rightarrow> DrvName" where
  "DrvName_of s = (let (n, v) = split_name [] s in \<lparr>fullName = s, drv_name = n, version = v\<rparr>)"

text \<open>\<^verbatim>\<open>std::regex_match\<close> with an extended regular expression is a parameter.\<close>

definition DrvName_matches :: "(string \<Rightarrow> string \<Rightarrow> bool) \<Rightarrow> DrvName \<Rightarrow> DrvName \<Rightarrow> bool" where
  "DrvName_matches regex_match d n \<longleftrightarrow>
     (if drv_name d \<noteq> ''*'' \<and> \<not> regex_match (drv_name d) (drv_name n) then False
      else if version d \<noteq> [] \<and> version d \<noteq> version n then False else True)"

definition drvNamesFromArgs :: "string list \<Rightarrow> DrvName list" where
  "drvNamesFromArgs opArgs = map DrvName_of opArgs"

section \<open>Versions\<close>

text \<open>The next component, and where the iterator is afterwards.\<close>

definition nextComponent :: "string \<Rightarrow> string \<times> string" where
  "nextComponent s =
     (let p = dropWhile is_separator s
      in if p = [] then ([], [])
         else if is_digit (hd p) then (takeWhile is_digit p, dropWhile is_digit p)
         else (takeWhile (\<lambda>c. \<not> is_digit c \<and> \<not> is_separator c) p, dropWhile (\<lambda>c. \<not> is_digit c \<and> \<not> is_separator c) p))"

definition componentsLT :: "(string \<Rightarrow> int option) \<Rightarrow> string \<Rightarrow> string \<Rightarrow> bool" where
  "componentsLT cast c1 c2 \<longleftrightarrow>
     (let n1 = string2Int cast True c1; n2 = string2Int cast True c2
      in if n1 \<noteq> None \<and> n2 \<noteq> None then the n1 < the n2
         else if c1 = [] \<and> n2 \<noteq> None then True
         else if c1 = ''pre'' \<and> c2 \<noteq> ''pre'' then True
         else if c2 = ''pre'' then False
         else if n2 \<noteq> None then True
         else if n1 \<noteq> None then False
         else c1 < c2)"

lemma dropWhile_less: "s \<noteq> [] \<Longrightarrow> P (hd s) \<Longrightarrow> length (dropWhile P s) < length s"
  by (cases s) (simp_all add: length_dropWhile_le le_imp_less_Suc)

lemma hd_no_separator: "dropWhile is_separator s \<noteq> [] \<Longrightarrow> \<not> is_separator (hd (dropWhile is_separator s))"
  by (rule hd_dropWhile)

lemma nextComponent_decreases: "s \<noteq> [] \<Longrightarrow> length (snd (nextComponent s)) < length s"
proof -
  assume s: "s \<noteq> []"
  define p where "p = dropWhile is_separator s"
  have p: "length p \<le> length s" "p \<noteq> [] \<Longrightarrow> \<not> is_separator (hd p)" unfolding p_def by (rule length_dropWhile_le, rule hd_no_separator)
  then have "p \<noteq> [] \<Longrightarrow> is_digit (hd p) \<Longrightarrow> length (dropWhile is_digit p) < length s"
    "p \<noteq> [] \<Longrightarrow> \<not> is_digit (hd p) \<Longrightarrow> length (dropWhile (\<lambda>c. \<not> is_digit c \<and> \<not> is_separator c) p) < length s"
    by (auto intro: less_le_trans [OF dropWhile_less])
  with s show ?thesis unfolding nextComponent_def Let_def p_def [symmetric] by simp
qed

lemma nextComponent_Nil [simp]: "nextComponent [] = ([], [])"
  by (simp add: nextComponent_def)

lemma nextComponent_measure [termination_simp]:
  "p1 \<noteq> [] \<or> p2 \<noteq> [] \<Longrightarrow> length (snd (nextComponent p1)) + length (snd (nextComponent p2)) < length p1 + length p2"
  using nextComponent_decreases [of p1] nextComponent_decreases [of p2] by (cases "p1 = []"; cases "p2 = []") auto

function compareVersions :: "(string \<Rightarrow> int option) \<Rightarrow> string \<Rightarrow> string \<Rightarrow> strong_ordering" where
  "compareVersions cast p1 p2 =
     (if p1 \<noteq> [] \<or> p2 \<noteq> [] then
        let c1 = fst (nextComponent p1); c2 = fst (nextComponent p2)
        in if componentsLT cast c1 c2 then Less
           else if componentsLT cast c2 c1 then Greater
           else compareVersions cast (snd (nextComponent p1)) (snd (nextComponent p2))
      else Equivalent)"
  by pat_completeness auto
termination
  by (relation "measure (\<lambda>(_, p1, p2). length p1 + length p2)") (use nextComponent_measure in auto)

declare compareVersions.simps [simp del]

text \<open>The loop of \<^verbatim>\<open>prim_splitVersion\<close>.\<close>

function splitVersion :: "string \<Rightarrow> string list" where
  "splitVersion s = (if s = [] then [] else let (c, s') = nextComponent s in if c = [] then [] else c # splitVersion s')"
  by pat_completeness auto
termination
  by (relation "measure length") (simp, metis in_measure nextComponent_decreases snd_conv)

declare splitVersion.simps [simp del]

section \<open>The order of components\<close>

text \<open>
  What the manual says of components, as a key: \<open>pre\<close> is before strings, which are before numbers,
  and the end of a version is the empty string.
\<close>

definition component_key :: "(string \<Rightarrow> int option) \<Rightarrow> string \<Rightarrow> nat \<times> int \<times> string" where
  "component_key cast c = (if c = ''pre'' then (0, 0, []) else case cast c of Some n \<Rightarrow> (2, n, []) | None \<Rightarrow> (1, 0, c))"

definition is_component :: "string \<Rightarrow> bool" where
  "is_component c \<longleftrightarrow> list_all is_digit c \<or> list_all (\<lambda>x. \<not> is_digit x) c"

lemma casts_words:
  assumes "casts_int cast"
  shows "cast [] = None" "cast ''pre'' = None"
  using assms by (auto simp: casts_int_def is_digit_def)

lemma componentsLT_key:
  assumes "casts_int cast"
  shows "componentsLT cast c1 c2 \<longleftrightarrow> component_key cast c1 < component_key cast c2"
  using casts_words [OF assms] by (auto simp: componentsLT_def component_key_def string2Int_def Let_def split: option.splits)

text \<open>A version as the sequence of its keys, which goes on with that of the empty string.\<close>

definition version_keys :: "(string \<Rightarrow> int option) \<Rightarrow> string \<Rightarrow> nat \<Rightarrow> nat \<times> int \<times> string" where
  "version_keys cast v i = component_key cast (if i < length (splitVersion v) then splitVersion v ! i else [])"

definition first_less :: "(nat \<Rightarrow> 'a::linorder) \<Rightarrow> (nat \<Rightarrow> 'a) \<Rightarrow> bool" where
  "first_less f g \<longleftrightarrow> (\<exists>i. (\<forall>j<i. f j = g j) \<and> f i < g i)"

lemma first_less_Suc: "first_less f g \<longleftrightarrow> f 0 < g 0 \<or> f 0 = g 0 \<and> first_less (\<lambda>i. f (Suc i)) (\<lambda>i. g (Suc i))"
proof
  assume "first_less f g"
  then obtain i where i: "\<forall>j<i. f j = g j" "f i < g i" by (auto simp: first_less_def)
  then show "f 0 < g 0 \<or> f 0 = g 0 \<and> first_less (\<lambda>i. f (Suc i)) (\<lambda>i. g (Suc i))"
    by (cases i) (auto simp: first_less_def)
next
  assume "f 0 < g 0 \<or> f 0 = g 0 \<and> first_less (\<lambda>i. f (Suc i)) (\<lambda>i. g (Suc i))"
  then show "first_less f g"
  proof
    assume "f 0 < g 0"
    then show ?thesis by (auto simp: first_less_def intro: exI [of _ 0])
  next
    assume "f 0 = g 0 \<and> first_less (\<lambda>i. f (Suc i)) (\<lambda>i. g (Suc i))"
    then obtain i where "f 0 = g 0" "\<forall>j<i. f (Suc j) = g (Suc j)" "f (Suc i) < g (Suc i)" by (auto simp: first_less_def)
    then show ?thesis by (auto simp: first_less_def less_Suc_eq_0_disj intro!: exI [of _ "Suc i"])
  qed
qed

lemma first_less_total: "first_less f g \<or> f = g \<or> first_less g f"
proof (cases "f = g")
  case False
  define i where "i = (LEAST i. f i \<noteq> g i)"
  from False obtain k where "f k \<noteq> g k" by auto
  then have "f i \<noteq> g i" "\<forall>j<i. f j = g j" unfolding i_def using LeastI [of "\<lambda>i. f i \<noteq> g i"] by (auto dest: not_less_Least)
  then show ?thesis by (metis first_less_def neq_iff)
qed simp

lemma first_less_trans: "first_less f g \<Longrightarrow> first_less g h \<Longrightarrow> first_less f h"
proof -
  assume "first_less f g" "first_less g h"
  then obtain i k where "\<forall>j<i. f j = g j" "f i < g i" "\<forall>j<k. g j = h j" "g k < h k" by (auto simp: first_less_def)
  then show ?thesis unfolding first_less_def
    by (cases i k rule: linorder_cases; intro exI [of _ "min i k"]) auto
qed

lemma first_less_irrefl: "\<not> first_less f f"
  by (simp add: first_less_def)

lemma first_less_asym: "first_less f g \<Longrightarrow> \<not> first_less g f"
  using first_less_trans first_less_irrefl by blast

lemma nextComponent_end: "fst (nextComponent s) = [] \<Longrightarrow> snd (nextComponent s) = []"
  using hd_no_separator [of s] by (auto simp: nextComponent_def Let_def takeWhile_eq_Nil_iff split: if_splits)

lemma splitVersion_next:
  "splitVersion s = (if fst (nextComponent s) = [] then [] else fst (nextComponent s) # splitVersion (snd (nextComponent s)))"
  by (subst splitVersion.simps) (auto simp: split: prod.split)

lemma version_keys_Suc:
  "version_keys cast s 0 = component_key cast (fst (nextComponent s))"
  "version_keys cast s (Suc i) = version_keys cast (snd (nextComponent s)) i"
proof -
  have [simp]: "splitVersion [] = []" by (simp add: splitVersion.simps)
  show "version_keys cast s 0 = component_key cast (fst (nextComponent s))" by (simp add: version_keys_def splitVersion_next [of s])
  show "version_keys cast s (Suc i) = version_keys cast (snd (nextComponent s)) i"
    using nextComponent_end [of s] by (simp add: version_keys_def splitVersion_next [of s])
qed

lemma compareVersions_keys:
  assumes "casts_int cast"
  shows "compareVersions cast v1 v2 =
    (if first_less (version_keys cast v1) (version_keys cast v2) then Less
     else if first_less (version_keys cast v2) (version_keys cast v1) then Greater else Equivalent)"
  using assms
proof (induction cast v1 v2 rule: compareVersions.induct)
  case (1 cast p1 p2)
  let ?f = "version_keys cast p1" and ?g = "version_keys cast p2"
  show ?case
  proof (cases "p1 \<noteq> [] \<or> p2 \<noteq> []")
    case True
    have lt: "componentsLT cast (fst (nextComponent p1)) (fst (nextComponent p2)) \<longleftrightarrow> ?f 0 < ?g 0"
      "componentsLT cast (fst (nextComponent p2)) (fst (nextComponent p1)) \<longleftrightarrow> ?g 0 < ?f 0"
      using componentsLT_key [OF 1(2)] by (simp_all add: version_keys_Suc)
    have IH: "compareVersions cast (snd (nextComponent p1)) (snd (nextComponent p2)) =
      (if first_less (\<lambda>i. ?f (Suc i)) (\<lambda>i. ?g (Suc i)) then Less else if first_less (\<lambda>i. ?g (Suc i)) (\<lambda>i. ?f (Suc i)) then Greater else Equivalent)"
      if "\<not> ?f 0 < ?g 0" "\<not> ?g 0 < ?f 0"
      unfolding version_keys_Suc(2) by (rule 1(1) [OF True refl refl _ _ 1(2)]) (use that lt in simp_all)
    have step: "compareVersions cast p1 p2 = (if ?f 0 < ?g 0 then Less else if ?g 0 < ?f 0 then Greater
      else compareVersions cast (snd (nextComponent p1)) (snd (nextComponent p2)))"
      by (subst compareVersions.simps) (simp only: True lt Let_def if_True)
    show ?thesis unfolding step first_less_Suc [of ?f ?g] first_less_Suc [of ?g ?f]
      by (cases "?f 0" "?g 0" rule: linorder_cases) (use IH in simp_all)
  qed (simp add: compareVersions.simps first_less_irrefl)
qed


text \<open>A conversion that behaves as documented on components.\<close>

definition sample_cast :: "string \<Rightarrow> int option" where
  "sample_cast s = (if s \<noteq> [] \<and> list_all is_digit s \<and> decimal s < 2 ^ 31 then Some (decimal s) else None)"

lemma sample_cast_ok: "casts_int sample_cast"
proof -
  have "\<not> list_all is_digit s" if "s \<noteq> []" "list_all (\<lambda>c. \<not> is_digit c) s" for s using that by (cases s) auto
  then show ?thesis by (auto simp: casts_int_def sample_cast_def)
qed




section \<open>Splitting names\<close>

lemma split_name_spec:
  assumes "split_name before s = (n, v)"
  shows "(\<exists>m. n = before @ m \<and> (v = [] \<and> s = m \<or> v \<noteq> [] \<and> \<not> is_alpha (hd v) \<and> s = m @ CHR ''-'' # v) \<and>
    (\<forall>i. Suc i < length s \<longrightarrow> i < length m \<longrightarrow> s ! i = CHR ''-'' \<longrightarrow> is_alpha (s ! Suc i)))"
  using assms
proof (induction s arbitrary: before)
  case (Cons c s)
  show ?case
  proof (cases "c = CHR ''-'' \<and> s \<noteq> [] \<and> \<not> is_alpha (hd s)")
    case True
    with Cons.prems show ?thesis by (intro exI [of _ "[]"]) simp
  next
    case False
    with Cons.prems have "split_name (before @ [c]) s = (n, v)" by simp
    from Cons.IH [OF this] obtain m where m: "n = before @ [c] @ m" "v = [] \<and> s = m \<or> v \<noteq> [] \<and> \<not> is_alpha (hd v) \<and> s = m @ CHR ''-'' # v"
      "\<forall>i. Suc i < length s \<longrightarrow> i < length m \<longrightarrow> s ! i = CHR ''-'' \<longrightarrow> is_alpha (s ! Suc i)" by auto
    with False show ?thesis
      by (intro exI [of _ "c # m"]) (auto simp: nth_Cons hd_conv_nth split: nat.split)
  qed
qed simp

text \<open>
  C39: The name is everything up to but not including the first dash that a character other than a letter
  follows, and the version is what comes after it; without such a dash, the whole name.
\<close>

theorem DrvName_split:
  "fullName (DrvName_of s) = s \<and>
   (version (DrvName_of s) = [] \<and> drv_name (DrvName_of s) = s \<or>
    version (DrvName_of s) \<noteq> [] \<and> \<not> is_alpha (hd (version (DrvName_of s))) \<and> s = drv_name (DrvName_of s) @ ''-'' @ version (DrvName_of s)) \<and>
   (\<forall>i. Suc i < length s \<longrightarrow> i < length (drv_name (DrvName_of s)) \<longrightarrow> s ! i = CHR ''-'' \<longrightarrow> is_alpha (s ! Suc i))"
proof (cases "split_name [] s")
  case (Pair n v)
  from split_name_spec [OF this] Pair show ?thesis by (auto simp: DrvName_of_def)
qed

theorem DrvName_split_witness:
  "''apache-httpd-2.0'' = drv_name (DrvName_of ''apache-httpd-2.0'') @ ''-'' @ version (DrvName_of ''apache-httpd-2.0'') \<and>
   is_alpha (''apache-httpd-2.0'' ! Suc 6)"
proof -
  have name: "drv_name (DrvName_of ''apache-httpd-2.0'') = ''apache-httpd''" "version (DrvName_of ''apache-httpd-2.0'') = ''2.0''" by code_simp+
  show ?thesis using DrvName_split [of "''apache-httpd-2.0''"] unfolding name by (elim conjE) (auto dest!: spec [of _ 6])
qed

end
