(* ===== verification/Spec2Isabelle.thy ===== *)
theory Spec2Isabelle
  imports Derivation_Paths Common_Proto Derived_Path Hash_Modulo GC_Complete Peek_Sort Attr_Set Nix_Guarantees Versions
begin

text \<open>
  \<^bold>\<open>A model of the core of Nix.\<close> Nix is a package manager: expressions are evaluated to
  \<^emph>\<open>derivations\<close>, build actions whose inputs and outputs are \<^emph>\<open>store paths\<close>; a store keeps the
  outputs, their references and their hashes. This development models the C++ code under
  \<^verbatim>\<open>src/src\<close> that computes with these values: names below such as \<^verbatim>\<open>libutil/hash.cc\<close> are
  relative to that directory. Definitions keep the names of the functions they translate.

  \<^bold>\<open>Conventions\<close> (\<^verbatim>\<open>Prelude\<close>). A function that throws returns a value of \<open>'a result\<close>, the sum of
  an exception \<open>nix_error\<close> and the value; assertions are the exception \<open>AssertionFailed\<close>. Strings
  are lists of 8-bit characters, machine words have their width, a \<^verbatim>\<open>std::map\<close> is an ordered
  association list (\<^verbatim>\<open>Ordered_Map\<close>) where its order is observable, a \<^verbatim>\<open>std::set\<close> a set. Loops that
  consume a text run on fuel that is one more than its length, and searches on fuel that is one
  more than the number of elements; that this is enough is part of the theorems
  (\<open>parseDerivation_ends\<close>, \<open>serialisation_canonical\<close>, \<open>topoSort_correct\<close>). A loop that may run
  forever is a partial function into an option (\<open>rewrite_loop\<close>). Hash functions, the JSON library,
  the file system and what a store answers to queries are parameters.

  \<^bold>\<open>Encodings.\<close> \<^verbatim>\<open>Base_Nix32\<close> (\<^verbatim>\<open>libutil/base-nix-32.cc\<close>) and \<^verbatim>\<open>Base_N\<close> (\<^verbatim>\<open>libutil/base-n.cc\<close>)
  model the encoders and decoders with their tables and accumulators; the lemmas show that they
  are inverse to each other and reject what is not canonical. \<^verbatim>\<open>Experimental_Features\<close> and
  \<^verbatim>\<open>Hash\<close> (\<^verbatim>\<open>libutil/hash.cc\<close>) build on them: printing and parsing of hashes in every format,
  their order, their compression to fewer bytes.

  \<^bold>\<open>Sorting.\<close> \<^verbatim>\<open>Peek_Sort\<close> (\<^verbatim>\<open>libutil/include/nix/util/sort.hh\<close>) models the stable sort of the
  evaluator on lists with positions; its recursion is at most twice as deep as the list is long. The result
  is that of the library's stable sort, and a permutation for any comparator.

  \<^bold>\<open>Paths and strings.\<close> \<^verbatim>\<open>Canon_Path\<close> (\<^verbatim>\<open>libutil/canon-path.cc\<close>) models canonical paths; the
  operations on the string refine those on the list of components. \<^verbatim>\<open>Strings\<close>
  (\<^verbatim>\<open>libutil/strings.cc\<close>, \<^verbatim>\<open>libutil/util.cc\<close>) models splitting, shell words, replacement and
  rewriting.

  \<^bold>\<open>Store objects.\<close> \<^verbatim>\<open>Store_Path\<close> (\<^verbatim>\<open>libstore/path.cc\<close>, \<^verbatim>\<open>libstore/store-dir-config.cc\<close>) models
  store paths and how they are made from fingerprints; \<^verbatim>\<open>Content_Address\<close>
  (\<^verbatim>\<open>libstore/content-address.cc\<close>) content addresses; \<^verbatim>\<open>Derived_Path\<close> (\<^verbatim>\<open>libstore/derived-path.cc\<close>,
  \<^verbatim>\<open>libstore/outputs-spec.cc\<close>) the references to outputs of derivations. Their texts parse back.

  \<^bold>\<open>Serialisation.\<close> \<^verbatim>\<open>Serialise\<close> (\<^verbatim>\<open>libutil/serialise.cc\<close>) models the wire format of integers,
  strings and lists, buffered sinks and framed streams; the locale \<open>serialiser\<close> states what a
  reader and a writer promise each other and is interpreted on the code's. \<^verbatim>\<open>Archive\<close>
  (\<^verbatim>\<open>libutil/archive.cc\<close>) models archives of file trees: the parser accepts exactly what the writer
  writes, and nothing it restores leaves its directory. \<^verbatim>\<open>Common_Proto\<close> (\<^verbatim>\<open>libstore/common-protocol.cc\<close>
  and the binary form of derivations) extends the contract to collections in the locale \<open>wire\<close>.

  \<^bold>\<open>Derivations\<close> (\<^verbatim>\<open>libstore/derivations.cc\<close>). \<^verbatim>\<open>Derivation\<close> has the data types, the parser and the
  printer of the text format; \<^verbatim>\<open>Derivation_Hash\<close> the type of a derivation and its hash modulo
  fixed outputs, with the table that remembers hashes; \<^verbatim>\<open>Derivation_Paths\<close> the computation and
  the check of the output paths, over the locale \<open>masked_hashing\<close>.

  \<^bold>\<open>References and closures.\<close> \<^verbatim>\<open>References\<close> and \<^verbatim>\<open>Hash_Modulo\<close> (\<^verbatim>\<open>libstore/references.cc\<close>,
  \<^verbatim>\<open>libstore/path-references.cc\<close>) model the scanner for references and the hash modulo
  self-references, both on streams cut into arbitrary fragments; the text that is hashed
  determines the archive, which the code leaves as a remark without a proof. \<^verbatim>\<open>Closure\<close>
  (\<^verbatim>\<open>libutil/include/nix/util/closure.hh\<close>) is a step relation over the handlers of the concurrent
  traversal: an invariant of its counters, the result in every order of the handlers, and a bound
  on the number of handlers. \<^verbatim>\<open>Topo_Sort\<close> (\<^verbatim>\<open>libutil/include/nix/util/topo-sort.hh\<close>) is the
  topological sort, and \<^verbatim>\<open>Store_Closure\<close> (\<^verbatim>\<open>libstore/misc.cc\<close>) puts both together.

  \<^bold>\<open>Garbage collection.\<close> \<^verbatim>\<open>GC\<close> (\<^verbatim>\<open>libstore/gc.cc\<close>) models \<^verbatim>\<open>collectGarbage\<close>: the visit of the
  referrers of a candidate, the deletion in topological order, the cache of referrers and the
  temporary roots that other processes register while it runs, which are given by how many times the
  lock was taken before. Its invariant gives the safety of every collection; \<^verbatim>\<open>GC_Complete\<close> shows
  that the fuel, three more than the size of the database, is enough and that a collection that
  nothing interferes with leaves exactly the reachable paths.

  \<^bold>\<open>Attribute sets.\<close> \<^verbatim>\<open>Attr_Set\<close> (\<^verbatim>\<open>libexpr/include/nix/expr/attr-set.hh\<close> and the operator \<open>//\<close> of
  \<^verbatim>\<open>libexpr/eval.cc\<close>) models the layered attribute sets of the evaluator. Lookup, the iterator that
  merges the layers with a heap of cursors, and the recorded size are shown to agree with the map that a chain of
  updates denotes; the fuel of a loop is the number of attributes in all layers.

  \<^bold>\<open>The expression language.\<close> \<^verbatim>\<open>Checked_Arith\<close> (\<^verbatim>\<open>libutil/include/nix/util/checked-arithmetic.hh\<close>) models
  the integers of the language. \<^verbatim>\<open>Nix_Expr\<close> (\<^verbatim>\<open>libexpr/nixexpr.cc\<close>) has the expressions and the static
  binding of variables, \<^verbatim>\<open>Nix_Value\<close> the values and the state: values and environments live in heaps
  that grow, pointers are indices, and a computation returns, throws, runs out of fuel or does
  something undefined. \<^verbatim>\<open>Nix_Calls\<close> has the helpers of the evaluator over a record of the operations
  that are recursive, \<^verbatim>\<open>Nix_Primops\<close> (\<^verbatim>\<open>libexpr/primops.cc\<close>) the builtins that compute, and
  \<^verbatim>\<open>Nix_Eval\<close> (\<^verbatim>\<open>libexpr/eval.cc\<close>) the \<^verbatim>\<open>eval\<close> methods, calls, forcing, comparison and coercion; the
  recursion is closed by \<open>run_eval\<close>, which bounds the nesting. \<^verbatim>\<open>Nix_Fuel\<close> shows that a larger bound
  never changes a result, \<^verbatim>\<open>Nix_Scope\<close> that the levels and displacements of bound variables resolve
  names lexically. \<^verbatim>\<open>Nix_Logic\<close> is a logic for computations over the heaps: a state is consistent when
  every reference points into the heap and every closure has an environment of the shape it was
  bound for, and a safe computation keeps states consistent, leaves evaluated cells alone and never
  does anything undefined. \<^verbatim>\<open>Nix_Safety\<close> proves the helpers and the builtins safe over safe operations,
  \<^verbatim>\<open>Nix_Soundness\<close> the evaluator, by induction on the bound; \<^verbatim>\<open>Nix_Guarantees\<close> draws the conclusions
  for programs, and that forcing memoises.

  \<^bold>\<open>Names and versions.\<close> \<^verbatim>\<open>Versions\<close> (\<^verbatim>\<open>libstore/names.cc\<close>) models how a derivation name is split and how
  versions are compared. The comparison is shown to be the lexicographic one on components, in the order
  of the manual, and a total preorder; the conversion of numbers is \<^verbatim>\<open>boost::lexical_cast\<close>, a parameter
  with the hypothesis \<open>casts_int\<close>, and \<open>compareVersions\<close> ends because each round uses up a component.

  \<^bold>\<open>Not modelled.\<close> The parser and the printers of the expression language, its builtins that read
  files or the store, and its garbage collector; the fetchers, flakes, the command line, the goals
  of the build scheduler, the sandboxed builders, remote stores, binary caches and file transfer,
  the SQLite database and everything else that is input and output; conversions to and from JSON;
  the C interface and the versions for other operating systems. These are mostly glue around system calls,
  processes and libraries, whose behaviour the sources do not define.
\<close>

end
